(* ===== verification/Nixbase32.thy ===== *)
theory Nixbase32
  imports Prelude
begin

text \<open>
  Nix's base-32 (\<open>src/nixbase32.rs\<close>): the alphabet, the encoder and the decoder with its
  length, alphabet and spill checks. The lemmas read both directions as one bit stream
  (bit \<open>p\<close> of the stream is bit \<open>p mod 8\<close> of byte \<open>p div 8\<close>, and bit \<open>p mod 5\<close> of digit
  \<open>p div 5\<close>); they show that decoding inverts encoding and accepts nothing else.
\<close>

section \<open>The codec\<close>

definition ALPHABET :: string where
  "ALPHABET = ''0123456789abcdfghijklmnpqrsvwxyz''"

definition encoded_len :: "nat \<Rightarrow> nat" where
  "encoded_len n = (if n = 0 then 0 else (n * 8 - 1) div 5 + 1)"

definition encode_digit :: "bytes \<Rightarrow> nat \<Rightarrow> u16" where
  "encode_digit bs n =
     (let b = n * 5; i = b div 8; j = b mod 8;
          lo = drop_bit j (ucast (bs ! i) :: u16);
          hi = (if i + 1 < length bs then push_bit (8 - j) (ucast (bs ! (i + 1)) :: u16) else 0)
      in (lo OR hi) AND 0x1f)"

definition encode :: "bytes \<Rightarrow> string" where
  "encode bs = map (\<lambda>n. ALPHABET ! unat (encode_digit bs n)) (rev [0..<encoded_len (length bs)])"

fun position :: "'a \<Rightarrow> 'a list \<Rightarrow> nat option" where
  "position x [] = None"
| "position x (y # ys) = (if y = x then Some 0 else map_option Suc (position x ys))"

text \<open>The loop of \<open>decode\<close>: with \<open>cs\<close> still to come after \<open>ch\<close>, the source's \<open>n\<close> is \<open>length cs\<close>.\<close>

fun decode_loop :: "nat \<Rightarrow> string \<Rightarrow> bytes \<Rightarrow> bytes option" where
  "decode_loop out_len [] out = Some out"
| "decode_loop out_len (ch # cs) out =
     (case position ch ALPHABET of
        None \<Rightarrow> None
      | Some d \<Rightarrow>
          (let n = length cs; digit = (word_of_nat d :: u16);
               b = n * 5; i = b div 8; j = b mod 8;
               full = push_bit j digit;
               out1 = out[i := (out ! i) OR ucast (full AND 0xff)];
               hi = (ucast (drop_bit 8 full) :: u8)
           in if i + 1 < out_len
              then decode_loop out_len cs (out1[i + 1 := (out1 ! (i + 1)) OR hi])
              else if hi \<noteq> 0 then None
              else decode_loop out_len cs out1))"

definition decode :: "string \<Rightarrow> nat \<Rightarrow> bytes option" where
  "decode s out_len =
     (if length s \<noteq> encoded_len out_len then None
      else decode_loop out_len s (replicate out_len 0))"

section \<open>One bit stream\<close>

definition stream_bit :: "bytes \<Rightarrow> nat \<Rightarrow> bool" where
  "stream_bit bs p \<longleftrightarrow> p div 8 < length bs \<and> bit (bs ! (p div 8)) (p mod 8)"

definition digit_bit :: "string \<Rightarrow> nat \<Rightarrow> bool" where
  "digit_bit cs p \<longleftrightarrow> p div 5 < length cs \<and>
     (case position (cs ! (length cs - 1 - p div 5)) ALPHABET of
        None \<Rightarrow> False | Some d \<Rightarrow> bit d (p mod 5))"

lemma length_ALPHABET [simp]: "length ALPHABET = 32"
  by (simp add: ALPHABET_def)

lemma distinct_ALPHABET: "distinct ALPHABET"
  by (simp add: ALPHABET_def)

lemma position_SomeD: "position x ys = Some d \<Longrightarrow> d < length ys \<and> ys ! d = x"
  by (induction ys arbitrary: d) (auto split: if_splits)

lemma position_nth: "distinct ys \<Longrightarrow> d < length ys \<Longrightarrow> position (ys ! d) ys = Some d"
  by (induction ys arbitrary: d) (auto simp: nth_Cons' less_Suc_eq_0_disj)

lemma position_ALPHABET_lt: "position c ALPHABET = Some d \<Longrightarrow> d < 32"
  using position_SomeD by fastforce

lemma encoded_len_index: "n < encoded_len L \<Longrightarrow> n * 5 div 8 < L"
  by (auto simp: encoded_len_def split: if_splits)

lemma bit_small_digit:
  fixes d :: nat
  assumes "d < 32" and "bit d t"
  shows "t < 5"
proof (rule ccontr)
  assume "\<not> t < 5"
  then have "(2::nat) ^ 5 \<le> 2 ^ t" by (intro power_increasing) auto
  with assms(1) have "d < 2 ^ t" by simp
  with assms(2) show False by (simp add: bit_nat_def)
qed

lemma bit_encode_digit:
  assumes "n * 5 div 8 < length bs"
  shows "bit (encode_digit bs n) t \<longleftrightarrow> t < 5 \<and> stream_bit bs (n * 5 + t)"
proof -
  define i where "i = n * 5 div 8"
  define j where "j = n * 5 mod 8"
  have n5: "n * 5 = 8 * i + j" and j8: "j < 8" by (simp_all add: i_def j_def)
  have il: "i < length bs" using assms by (simp add: i_def)
  have ij: "encode_digit bs n =
      (drop_bit j (ucast (bs ! i)) OR
        (if i + 1 < length bs then push_bit (8 - j) (ucast (bs ! (i + 1))) else 0)) AND 0x1f"
    by (simp add: encode_digit_def Let_def i_def j_def)
  have past: "\<not> bit (w :: u8) k" if "8 \<le> k" for w k
    using that by (auto dest: bit_imp_le_length)
  show ?thesis
  proof (cases "j + t < 8")
    case low: True
    have pos: "(n * 5 + t) div 8 = i \<and> (n * 5 + t) mod 8 = j + t"
      by (rule div_mod_8I) (use n5 low in simp_all)
    with low il j8 show ?thesis
      by (auto simp: ij bit_and_iff bit_or_iff bit_drop_bit_eq bit_push_bit_iff
          bit_unsigned_iff stream_bit_def pos)
  next
    case high: False
    show ?thesis
    proof (cases "t < 5")
      case True
      have pos: "(n * 5 + t) div 8 = i + 1 \<and> (n * 5 + t) mod 8 = j + t - 8"
        by (rule div_mod_8I) (use n5 j8 True high in simp_all)
      have "t - (8 - j) = j + t - 8" using high j8 by linarith
      with high True il j8 past [of "j + t"] show ?thesis
        by (auto simp: ij pos bit_and_iff bit_or_iff bit_drop_bit_eq bit_push_bit_iff
            bit_unsigned_iff stream_bit_def)
    qed (simp add: ij bit_and_iff)
  qed
qed

lemma digit_bit_lt: "digit_bit cs p \<Longrightarrow> p div 5 < length cs"
  by (simp add: digit_bit_def)

lemma digit_bit_Cons:
  "position ch ALPHABET = Some d \<Longrightarrow>
   digit_bit (ch # cs) p \<longleftrightarrow> (if p div 5 = length cs then bit d (p mod 5) else digit_bit cs p)"
  by (auto simp: digit_bit_def nth_Cons' Suc_diff_Suc split: option.splits)

section \<open>The decoding loop, bit by bit\<close>

text \<open>The word a decoder ORs into the output for one digit.\<close>

lemma bit_push_digit:
  assumes "d < 32" and "j < 8"
  shows "bit (push_bit j (word_of_nat d :: u16)) t \<longleftrightarrow> j \<le> t \<and> bit d (t - j)"
  using assms bit_small_digit [of d "t - j"]
  by (auto simp: bit_push_bit_iff bit_of_nat_iff)

lemma decode_step_bits:
  assumes d: "d < 32" and i: "n * 5 div 8 = i" and j: "n * 5 mod 8 = j"
    and k: "k < 8"
  shows "bit (ucast (push_bit j (word_of_nat d :: u16) AND 0xff) :: u8) k
           \<longleftrightarrow> (8 * i + k) div 5 = n \<and> bit d ((8 * i + k) mod 5)" (is ?lo)
    and "bit (ucast (drop_bit 8 (push_bit j (word_of_nat d :: u16))) :: u8) k
           \<longleftrightarrow> (8 * (i + 1) + k) div 5 = n \<and> bit d ((8 * (i + 1) + k) mod 5)" (is ?hi)
proof -
  have j8: "j < 8" using j by auto
  have n5: "n * 5 = 8 * i + j" using i j by (metis mult.commute div_mult_mod_eq)
  have key: "(q div 5 = n \<and> bit d (q mod 5)) \<longleftrightarrow> n * 5 \<le> q \<and> bit d (q - n * 5)" for q
  proof
    assume "q div 5 = n \<and> bit d (q mod 5)"
    then show "n * 5 \<le> q \<and> bit d (q - n * 5)"
      by (metis div_times_less_eq_dividend minus_div_mult_eq_mod)
  next
    assume A: "n * 5 \<le> q \<and> bit d (q - n * 5)"
    then have "q - n * 5 < 5" using bit_small_digit d by blast
    with A have "q div 5 = n" "q mod 5 = q - n * 5"
      by (auto simp: div_nat_eqI mod_nat_eqI)
    with A show "q div 5 = n \<and> bit d (q mod 5)" by simp
  qed
  show ?lo
    using k by (auto simp: key n5 bit_unsigned_iff bit_and_iff bit_push_digit [OF d j8])
  show ?hi
    using k j8 by (auto simp: key n5 bit_unsigned_iff bit_drop_bit_eq bit_push_digit [OF d j8])
qed

text \<open>
  What a successful run of the loop leaves: every output bit is the bit it had or the
  bit of the digit stream at its position, and no digit bit lies past the last byte.
\<close>

lemma decode_loop_bits:
  assumes "decode_loop L cs out = Some r" and "length out = L"
    and "\<And>n. n < length cs \<Longrightarrow> n * 5 div 8 < L"
  shows "length r = L
    \<and> (\<forall>i<L. \<forall>k<8. bit (r ! i) k \<longleftrightarrow> bit (out ! i) k \<or> digit_bit cs (8 * i + k))
    \<and> (\<forall>p\<ge>8 * L. \<not> digit_bit cs p)
    \<and> (\<forall>c\<in>set cs. position c ALPHABET \<noteq> None)"
  using assms
proof (induction cs arbitrary: out)
  case Nil
  then show ?case by (simp add: digit_bit_def)
next
  case (Cons ch cs)
  then obtain d where d: "position ch ALPHABET = Some d"
    by (auto split: option.splits)
  have d32: "d < 32" using d by (rule position_ALPHABET_lt)
  define n i j where "n = length cs" and "i = n * 5 div 8" and "j = n * 5 mod 8"
  define lo hi :: u8 where "lo = ucast (push_bit j (word_of_nat d :: u16) AND 0xff)"
    and "hi = ucast (drop_bit 8 (push_bit j (word_of_nat d :: u16)))"
  define out1 where "out1 = out[i := (out ! i) OR lo]"
  have i: "i < L" using Cons.prems(3) [of n] by (simp add: n_def i_def)
  have lenO: "length out1 = L" using Cons.prems(2) by (simp add: out1_def)
  have rest: "n * 5 div 8 < L" if "n < length cs" for n
    using Cons.prems(3) [of n] that by simp
  have bits_lo: "bit lo k \<longleftrightarrow> (8 * i + k) div 5 = n \<and> bit d ((8 * i + k) mod 5)"
    and bits_hi: "bit hi k \<longleftrightarrow> (8 * (i + 1) + k) div 5 = n \<and> bit d ((8 * (i + 1) + k) mod 5)"
    if "k < 8" for k
    using decode_step_bits [OF d32 i_def [symmetric] j_def [symmetric] that]
    by (simp_all add: lo_def hi_def)
  have own: "i' = i \<or> i' = i + 1" if "(8 * i' + k) div 5 = n" "k < 8" "bit d ((8 * i' + k) mod 5)"
    for i' k using that by (auto simp: i_def)
  have dig: "digit_bit (ch # cs) p \<longleftrightarrow> (p div 5 = n \<and> bit d (p mod 5)) \<or> digit_bit cs p" for p
    using digit_bit_lt [of cs p] by (auto simp: digit_bit_Cons [OF d] n_def)
  have out1: "bit (out1 ! i') k \<longleftrightarrow> bit (out ! i') k \<or> i' = i \<and> bit lo k" if "i' < L" for i' k
    using that Cons.prems(2) i by (auto simp: out1_def nth_list_update bit_or_iff)
  have run: "(if i + 1 < L then decode_loop L cs (out1[i + 1 := (out1 ! (i + 1)) OR hi])
       else if hi \<noteq> 0 then None else decode_loop L cs out1) = Some r"
    using Cons.prems(1)
    by (simp add: d Let_def n_def i_def j_def lo_def hi_def out1_def cong: if_cong)
  show ?case
  proof (cases "i + 1 < L")
    case True
    let ?out = "out1[i + 1 := (out1 ! (i + 1)) OR hi]"
    have ih: "length r = L \<and>
       (\<forall>i'<L. \<forall>k<8. bit (r ! i') k \<longleftrightarrow> bit (?out ! i') k \<or> digit_bit cs (8 * i' + k)) \<and>
       (\<forall>p\<ge>8 * L. \<not> digit_bit cs p) \<and> (\<forall>c\<in>set cs. position c ALPHABET \<noteq> None)"
      using Cons.IH [of ?out] True run lenO rest by simp
    have "bit (?out ! i') k \<or> digit_bit cs (8 * i' + k) \<longleftrightarrow>
        bit (out ! i') k \<or> digit_bit (ch # cs) (8 * i' + k)" if "i' < L" "k < 8" for i' k
      using that own [of i' k] bits_lo [of k] bits_hi [of k] lenO True
      by (auto simp: dig out1 nth_list_update bit_or_iff)
    moreover have "\<not> digit_bit (ch # cs) p" if "8 * L \<le> p" for p
      using ih that own [of "p div 8" "p mod 8"] True by (auto simp: dig)
    ultimately show ?thesis using ih d by auto
  next
    case False
    then have iL: "Suc i = L" and hi0: "hi = 0" and run1: "decode_loop L cs out1 = Some r"
      using run i by (auto split: if_splits)
    have ih: "length r = L \<and>
       (\<forall>i'<L. \<forall>k<8. bit (r ! i') k \<longleftrightarrow> bit (out1 ! i') k \<or> digit_bit cs (8 * i' + k)) \<and>
       (\<forall>p\<ge>8 * L. \<not> digit_bit cs p) \<and> (\<forall>c\<in>set cs. position c ALPHABET \<noteq> None)"
      using Cons.IH [OF run1 lenO rest] by simp
    have "bit (out1 ! i') k \<or> digit_bit cs (8 * i' + k) \<longleftrightarrow>
        bit (out ! i') k \<or> digit_bit (ch # cs) (8 * i' + k)" if "i' < L" "k < 8" for i' k
      using that own [of i' k] bits_lo [of k] iL by (auto simp: dig out1)
    moreover have "\<not> digit_bit (ch # cs) p" if "8 * L \<le> p" for p
    proof
      assume "digit_bit (ch # cs) p"
      with ih that have n: "p div 5 = n" "bit d (p mod 5)" by (auto simp: dig)
      have p: "8 * (p div 8) + p mod 8 = p" by simp
      with own [of "p div 8" "p mod 8"] n have "p div 8 = i \<or> p div 8 = i + 1" by simp
      moreover have "L \<le> p div 8" using that by simp
      ultimately have "p div 8 = i + 1" using iL by simp
      with p bits_hi [of "p mod 8"] n have "bit hi (p mod 8)" by simp
      with hi0 show False by simp
    qed
    ultimately show ?thesis using ih d by auto
  qed
qed

text \<open>The converse: a string of the alphabet with no spill is decoded.\<close>

lemma decode_loop_total:
  assumes "\<forall>c\<in>set cs. position c ALPHABET \<noteq> None" and "\<forall>p\<ge>8 * L. \<not> digit_bit cs p"
    and "\<And>n. n < length cs \<Longrightarrow> n * 5 div 8 < L"
  shows "\<exists>r. decode_loop L cs out = Some r"
  using assms
proof (induction cs arbitrary: out)
  case Nil
  then show ?case by simp
next
  case (Cons ch cs)
  then obtain d where d: "position ch ALPHABET = Some d" by auto
  have d32: "d < 32" using d by (rule position_ALPHABET_lt)
  define n i j where "n = length cs" and "i = n * 5 div 8" and "j = n * 5 mod 8"
  define hi :: u8 where "hi = ucast (drop_bit 8 (push_bit j (word_of_nat d :: u16)))"
  have dig: "digit_bit (ch # cs) p \<longleftrightarrow> (p div 5 = n \<and> bit d (p mod 5)) \<or> digit_bit cs p" for p
    using digit_bit_lt [of cs p] by (auto simp: digit_bit_Cons [OF d] n_def)
  have iL: "i < L" using Cons.prems(3) [of n] by (simp add: n_def i_def)
  have rest: "\<exists>r. decode_loop L cs out = Some r" for out
    using Cons.IH [of out] Cons.prems dig by auto
  have "hi = 0" if "\<not> i + 1 < L"
  proof (rule bit_word_eqI)
    fix k :: nat assume "k < LENGTH(8)"
    then have k: "k < 8" by simp
    have "8 * L \<le> 8 * (i + 1) + k" using that by simp
    with Cons.prems(2) have "\<not> digit_bit (ch # cs) (8 * (i + 1) + k)" by blast
    then show "bit hi k = bit (0 :: u8) k"
      using decode_step_bits(2) [OF d32 i_def [symmetric] j_def [symmetric] k]
      by (simp add: dig hi_def)
  qed
  with rest show ?case
    by (auto simp: d Let_def n_def i_def j_def hi_def cong: if_cong)
qed

section \<open>Round trips\<close>

lemma encode_digit_lt: "encode_digit bs n < 32"
proof -
  have "encode_digit bs n \<le> 0x1f"
    unfolding encode_digit_def Let_def by (rule word_and_le1)
  then show ?thesis by (simp add: word_le_nat_alt word_less_nat_alt)
qed

lemma length_encode [simp]: "length (encode bs) = encoded_len (length bs)"
  by (simp add: encode_def)

lemma position_encode:
  assumes "n < encoded_len (length bs)"
  shows "position (encode bs ! (encoded_len (length bs) - 1 - n)) ALPHABET
    = Some (unat (encode_digit bs n))"
proof -
  have "encode bs ! (encoded_len (length bs) - 1 - n) = ALPHABET ! unat (encode_digit bs n)"
    using assms by (simp add: encode_def rev_nth)
  moreover have "unat (encode_digit bs n) < length ALPHABET"
    using encode_digit_lt [of bs n] by (simp add: word_less_nat_alt)
  ultimately show ?thesis by (simp add: position_nth distinct_ALPHABET)
qed

lemma encode_alphabet: "c \<in> set (encode bs) \<Longrightarrow> position c ALPHABET \<noteq> None"
  using encode_digit_lt by (fastforce simp: encode_def word_less_nat_alt position_nth distinct_ALPHABET)

lemma stream_bit_lt: "stream_bit bs p \<Longrightarrow> p div 5 < encoded_len (length bs)"
  by (auto simp: stream_bit_def encoded_len_def)

lemma digit_bit_encode: "digit_bit (encode bs) p \<longleftrightarrow> stream_bit bs p"
proof (cases "p div 5 < encoded_len (length bs)")
  case True
  have "digit_bit (encode bs) p \<longleftrightarrow> bit (encode_digit bs (p div 5)) (p mod 5)"
    using True position_encode [OF True] by (simp add: digit_bit_def bit_unsigned_iff)
  then show ?thesis
    using True by (simp add: bit_encode_digit encoded_len_index)
next
  case False
  then show ?thesis using stream_bit_lt by (auto simp: digit_bit_def)
qed

lemma decode_encode: "decode (encode bs) (length bs) = Some bs"
proof -
  let ?L = "length bs"
  have spill: "\<forall>p\<ge>8 * ?L. \<not> digit_bit (encode bs) p"
    by (auto simp: digit_bit_encode stream_bit_def)
  have idx: "n * 5 div 8 < ?L" if "n < length (encode bs)" for n
    using that by (simp add: encoded_len_index)
  obtain r where r: "decode_loop ?L (encode bs) (replicate ?L 0) = Some r"
    using decode_loop_total [OF _ spill idx] encode_alphabet by blast
  note bits = decode_loop_bits [OF r length_replicate idx]
  have "r = bs"
  proof (rule nth_equalityI)
    show "length r = length bs" using bits by simp
    fix i assume "i < length r"
    then have i: "i < ?L" using bits by simp
    show "r ! i = bs ! i"
      by (rule bit_word_eqI) (use bits i in \<open>simp add: digit_bit_encode stream_bit_def\<close>)
  qed
  with r show ?thesis by (simp add: decode_def)
qed

lemma decode_SomeD:
  assumes "decode s L = Some bs"
  shows "length bs = L" and "s = encode bs"
proof -
  from assms have ls: "length s = encoded_len L"
    and run: "decode_loop L s (replicate L 0) = Some bs"
    by (auto simp: decode_def split: if_splits)
  have "length bs = L
    \<and> (\<forall>i<L. \<forall>k<8. bit (bs ! i) k \<longleftrightarrow> bit (replicate L (0 :: u8) ! i) k \<or> digit_bit s (8 * i + k))
    \<and> (\<forall>p\<ge>8 * L. \<not> digit_bit s p) \<and> (\<forall>c\<in>set s. position c ALPHABET \<noteq> None)"
    by (rule decode_loop_bits [OF run]) (simp_all add: ls encoded_len_index)
  then have len: "length bs = L" and B: "\<And>i k. i < L \<Longrightarrow> k < 8 \<Longrightarrow> bit (bs ! i) k = digit_bit s (8 * i + k)"
    and spill: "\<And>p. 8 * L \<le> p \<Longrightarrow> \<not> digit_bit s p"
    and alpha: "\<And>c. c \<in> set s \<Longrightarrow> position c ALPHABET \<noteq> None"
    by auto
  show "length bs = L" by (rule len)
  have sb: "stream_bit bs p = digit_bit s p" for p
  proof (cases "p div 8 < L")
    case True
    then show ?thesis using B [of "p div 8" "p mod 8"] by (simp add: stream_bit_def len)
  next
    case False
    then show ?thesis using spill [of p] by (auto simp: stream_bit_def len)
  qed
  show "s = encode bs"
  proof (rule nth_equalityI)
    show "length s = length (encode bs)" by (simp add: ls len)
    fix m assume m: "m < length s"
    define n where "n = encoded_len L - 1 - m"
    have n: "n < encoded_len L" and mn: "m = encoded_len L - 1 - n"
      using m ls by (auto simp: n_def)
    obtain d where d: "position (s ! m) ALPHABET = Some d"
      using alpha [of "s ! m"] m by auto
    have "bit (unat (encode_digit bs n)) t = bit d t" for t
    proof -
      have "bit (unat (encode_digit bs n)) t \<longleftrightarrow> t < 5 \<and> digit_bit s (n * 5 + t)"
        using n by (simp add: bit_unsigned_iff bit_encode_digit encoded_len_index len sb)
      also have "\<dots> \<longleftrightarrow> t < 5 \<and> bit d t"
        using n d mn by (auto simp: digit_bit_def ls)
      finally show ?thesis using bit_small_digit [OF position_ALPHABET_lt [OF d]] by blast
    qed
    then have "unat (encode_digit bs n) = d" by (intro bit_eqI) simp
    then show "s ! m = encode bs ! m"
      using position_encode [of n bs] n mn len position_SomeD [OF d] position_SomeD by fastforce
  qed
qed

lemma decode_eq_Some_iff: "decode s L = Some bs \<longleftrightarrow> length bs = L \<and> s = encode bs"
  using decode_encode decode_SomeD by blast

lemma encode_inject [simp]: "length as = length bs \<Longrightarrow> encode as = encode bs \<longleftrightarrow> as = bs"
  by (metis decode_encode option.inject)

text \<open>
  C31: decoding with an expected length succeeds exactly on the canonical encodings of byte
  strings of that length: \<open>decode\<close> inverts \<open>encode\<close>, and every other string (wrong length,
  foreign character, non-zero spill bits) is refused.
\<close>

theorem nix32_decode_iff_encode:
  "decode s out_len = Some bs \<longleftrightarrow> length bs = out_len \<and> encode bs = s"
  by (auto simp: decode_eq_Some_iff)

end
