(* ===== verification/Strings.thy ===== *)
theory Strings
  imports Prelude
begin

text \<open>
  The string functions of the Rust standard library the sources call, on UTF-8 byte
  strings: \<open>lines\<close>, \<open>split_once\<close>, \<open>strip_prefix\<close>, \<open>split_whitespace\<close>, \<open>trim\<close>, \<open>join\<close>, the
  decimal rendering of a \<open>u64\<close> and its parser. White space is Unicode's, recognised by its
  UTF-8 encodings.
\<close>

section \<open>Splitting\<close>

fun split_once :: "char \<Rightarrow> string \<Rightarrow> (string \<times> string) option" where
  "split_once c [] = None"
| "split_once c (x # xs) = (if x = c then Some ([], xs) else map_option (apfst (Cons x)) (split_once c xs))"

definition strip_prefix :: "string \<Rightarrow> string \<Rightarrow> string option" where
  "strip_prefix p s = (if take (length p) s = p then Some (drop (length p) s) else None)"

text \<open>
  \<open>str::lines\<close>: a line ends at a newline, which goes together with a carriage return right
  before it; the rest after the last newline is a line when it is not empty.
\<close>

definition strip_cr :: "string \<Rightarrow> string" where
  "strip_cr l = (if l \<noteq> [] \<and> last l = CHR 0x0D then butlast l else l)"

fun lines_from :: "string \<Rightarrow> string \<Rightarrow> string list" where
  "lines_from cur [] = (if cur = [] then [] else [cur])"
| "lines_from cur (x # xs) =
     (if x = CHR 0x0A then strip_cr cur # lines_from [] xs else lines_from (cur @ [x]) xs)"

definition lines :: "string \<Rightarrow> string list" where
  "lines s = lines_from [] s"

text \<open>The length of the white-space character a string starts with, 0 if it starts with none.\<close>

fun ws_len :: "string \<Rightarrow> nat" where
  "ws_len [] = 0"
| "ws_len (a # r) =
     (if a \<in> {CHR 0x09, CHR 0x0A, CHR 0x0B, CHR 0x0C, CHR 0x0D, CHR 0x20} then 1
      else if a = CHR 0xC2 then (case r of b # _ \<Rightarrow> if b \<in> {CHR 0x85, CHR 0xA0} then 2 else 0 | _ \<Rightarrow> 0)
      else case r of
        b # c # _ \<Rightarrow>
          if (a = CHR 0xE1 \<and> b = CHR 0x9A \<and> c = CHR 0x80)
           \<or> (a = CHR 0xE2 \<and> b = CHR 0x80 \<and>
               (128 \<le> (of_char c :: nat) \<and> (of_char c :: nat) \<le> 138 \<or> c \<in> {CHR 0xA8, CHR 0xA9, CHR 0xAF}))
           \<or> (a = CHR 0xE2 \<and> b = CHR 0x81 \<and> c = CHR 0x9F)
           \<or> (a = CHR 0xE3 \<and> b = CHR 0x80 \<and> c = CHR 0x80)
          then 3 else 0
      | _ \<Rightarrow> 0)"

function split_ws_from :: "string \<Rightarrow> string \<Rightarrow> string list" where
  "split_ws_from cur [] = (if cur = [] then [] else [cur])"
| "split_ws_from cur (x # xs) =
     (if ws_len (x # xs) = 0 then split_ws_from (cur @ [x]) xs
      else (if cur = [] then [] else [cur]) @ split_ws_from [] (drop (ws_len (x # xs)) (x # xs)))"
  by pat_completeness auto
termination
  by (relation "measure (length \<circ> snd)") (auto simp: ws_len.simps(2))

declare ws_len.simps(2) [simp del]

definition split_whitespace :: "string \<Rightarrow> string list" where
  "split_whitespace s = split_ws_from [] s"

function trim_start :: "string \<Rightarrow> string" where
  "trim_start s = (if ws_len s = 0 then s else trim_start (drop (ws_len s) s))"
  by pat_completeness auto
termination
proof (relation "measure length")
  show "(drop (ws_len s) s, s) \<in> measure length" if "ws_len s \<noteq> 0" for s
    using that by (cases s) auto
qed simp

declare trim_start.simps [simp del]

function trim_end :: "string \<Rightarrow> string" where
  "trim_end [] = []"
| "trim_end (x # xs) =
     (let k = ws_len (x # xs) in
      if k = 0 then x # trim_end xs
      else let r = trim_end (drop k (x # xs)) in if r = [] then [] else take k (x # xs) @ r)"
  by pat_completeness auto
termination
  by (relation "measure length") auto

definition trim :: "string \<Rightarrow> string" where
  "trim s = trim_end (trim_start s)"

fun join :: "string \<Rightarrow> string list \<Rightarrow> string" where
  "join sep [] = []"
| "join sep [x] = x"
| "join sep (x # y # zs) = x @ sep @ join sep (y # zs)"

section \<open>Decimal numbers\<close>

definition digit_char :: "nat \<Rightarrow> char" where
  "digit_char d = char_of (48 + d)"

fun show_nat :: "nat \<Rightarrow> string" where
  "show_nat n = (if n < 10 then [digit_char n] else show_nat (n div 10) @ [digit_char (n mod 10)])"

declare show_nat.simps [simp del]

definition digit_val :: "char \<Rightarrow> nat option" where
  "digit_val c = (if 48 \<le> (of_char c :: nat) \<and> (of_char c :: nat) \<le> 57
     then Some (of_char c - 48) else None)"

text \<open>\<open>u64::from_str\<close>: an optional plus sign, then digits, refused on overflow.\<close>

fun parse_digits :: "nat \<Rightarrow> string \<Rightarrow> nat option" where
  "parse_digits n [] = Some n"
| "parse_digits n (c # cs) =
     (case digit_val c of None \<Rightarrow> None
      | Some d \<Rightarrow> if 10 * n + d \<ge> 2 ^ 64 then None else parse_digits (10 * n + d) cs)"

definition parse_u64 :: "string \<Rightarrow> nat option" where
  "parse_u64 s =
     (case s of [] \<Rightarrow> None
      | c # cs \<Rightarrow> if c = CHR ''+'' then (if cs = [] then None else parse_digits 0 cs)
                  else parse_digits 0 (c # cs))"

lemma digit_val_char [simp]: "d < 10 \<Longrightarrow> digit_val (digit_char d) = Some d"
  by (simp add: digit_val_def digit_char_def of_char_of)

lemma show_nat_nonempty [simp]: "show_nat n \<noteq> []"
  by (subst show_nat.simps) simp

lemma digit_char_neq_plus: "d < 10 \<Longrightarrow> digit_char d \<noteq> CHR ''+''"
  by (auto simp: digit_char_def dest: arg_cong [where f = "of_char :: char \<Rightarrow> nat"])

lemma hd_show_nat: "hd (show_nat n) \<noteq> CHR ''+''"
proof (induction n rule: show_nat.induct)
  case (1 n)
  then show ?case
    by (subst show_nat.simps) (auto simp: digit_char_neq_plus)
qed

lemma parse_digits_append:
  "parse_digits m (xs @ ys) = (case parse_digits m xs of None \<Rightarrow> None | Some n \<Rightarrow> parse_digits n ys)"
  by (induction m xs rule: parse_digits.induct) (auto split: option.splits)

lemma parse_digits_show: "n < 2 ^ 64 \<Longrightarrow> parse_digits 0 (show_nat n) = Some n"
proof (induction n rule: show_nat.induct)
  case (1 n)
  show ?case
  proof (cases "n < 10")
    case True
    then show ?thesis using 1 by (subst show_nat.simps) simp
  next
    case False
    then have "parse_digits 0 (show_nat (n div 10)) = Some (n div 10)" using 1 by simp
    with False 1 show ?thesis
      by (subst show_nat.simps) (simp add: parse_digits_append)
  qed
qed

lemma parse_u64_show [simp]: "n < 2 ^ 64 \<Longrightarrow> parse_u64 (show_nat n) = Some n"
  using parse_digits_show [of n] hd_show_nat [of n]
  by (cases "show_nat n") (auto simp: parse_u64_def)

lemma parse_digits_bound: "n < 2 ^ 64 \<Longrightarrow> parse_digits n s = Some m \<Longrightarrow> m < 2 ^ 64"
  by (induction n s rule: parse_digits.induct) (auto split: option.splits if_splits)

lemma parse_u64_bound: "parse_u64 s = Some n \<Longrightarrow> n < 2 ^ 64"
  by (auto simp: parse_u64_def simp del: parse_digits.simps split: list.splits if_splits
      intro: parse_digits_bound [of 0, simplified])

section \<open>Lines of a text\<close>

lemma lines_from_line:
  "CHR 0x0A \<notin> set l \<Longrightarrow> lines_from cur (l @ CHR 0x0A # r) = strip_cr (cur @ l) # lines_from [] r"
  by (induction l arbitrary: cur) auto

lemma lines_Cons:
  "CHR 0x0A \<notin> set l \<Longrightarrow> l = [] \<or> last l \<noteq> CHR 0x0D \<Longrightarrow>
   lines (l @ CHR 0x0A # r) = l # lines r"
  by (auto simp: lines_def lines_from_line strip_cr_def)

lemma lines_Nil [simp]: "lines [] = []"
  by (simp add: lines_def)

lemma split_once_append: "c \<notin> set k \<Longrightarrow> split_once c (k @ c # v) = Some (k, v)"
  by (induction k) auto

text \<open>Words without white space, joined by blanks, split back.\<close>

definition no_ws :: "string \<Rightarrow> bool" where
  "no_ws s \<longleftrightarrow> s \<noteq> [] \<and> (\<forall>c\<in>set s. 33 \<le> (of_char c :: nat) \<and> (of_char c :: nat) < 127)"

lemma ws_len_graphic: "33 \<le> (of_char c :: nat) \<Longrightarrow> (of_char c :: nat) < 127 \<Longrightarrow> ws_len (c # r) = 0"
proof -
  assume c: "33 \<le> (of_char c :: nat)" "(of_char c :: nat) < 127"
  have "c \<noteq> d" if "(of_char d :: nat) \<le> 32 \<or> 127 \<le> (of_char d :: nat)" for d
    using that c by auto
  then have "c \<notin> {CHR 0x09, CHR 0x0A, CHR 0x0B, CHR 0x0C, CHR 0x0D, CHR 0x20}"
    "c \<noteq> CHR 0xC2" "c \<noteq> CHR 0xE1" "c \<noteq> CHR 0xE2" "c \<noteq> CHR 0xE3"
    by simp_all
  then show ?thesis by (simp add: ws_len.simps(2) split: list.split)
qed

lemma split_ws_from_word:
  "\<forall>c\<in>set w. 33 \<le> (of_char c :: nat) \<and> (of_char c :: nat) < 127 \<Longrightarrow>
   split_ws_from cur (w @ r) = split_ws_from (cur @ w) r"
proof (induction w arbitrary: cur)
  case (Cons c w)
  have "ws_len (c # w @ r) = 0" by (rule ws_len_graphic) (use Cons.prems in simp_all)
  then have "split_ws_from cur ((c # w) @ r) = split_ws_from (cur @ [c]) (w @ r)"
    by (simp only: append_Cons split_ws_from.simps(2) simp_thms if_True)
  also have "\<dots> = split_ws_from (cur @ [c] @ w) r"
    using Cons.IH [of "cur @ [c]"] Cons.prems by simp
  finally show ?case by simp
qed simp

lemma split_whitespace_join:
  "(\<And>w. w \<in> set ws \<Longrightarrow> no_ws w) \<Longrightarrow> split_whitespace (join '' '' ws) = ws"
proof (induction ws rule: induct_list012)
  case (2 x)
  then show ?case
    using split_ws_from_word [of x "[]" "[]"] by (simp add: split_whitespace_def no_ws_def)
next
  case (3 x y zs)
  have "split_whitespace (join '' '' (y # zs)) = y # zs" using 3 by simp
  moreover have "ws_len (CHR '' '' # r) = 1" for r by (simp add: ws_len.simps)
  ultimately show ?case
    using 3(3) [of x] split_ws_from_word [of x "[]" "CHR '' '' # join '' '' (y # zs)"]
    by (simp add: split_whitespace_def no_ws_def)
qed (simp add: split_whitespace_def)

end
