(* ===== verification/Narinfo.thy ===== *)
theory Narinfo
  imports Strings Nixbase32
begin

text \<open>
  The narinfo text format (\<open>src/narinfo.rs\<close>): rendering what the serve side publishes and
  what the proxy hands to the local nix, and the parser. The lemmas give the round trip
  (parsing a rendered narinfo returns its fields) and the parser's refusals.
\<close>

section \<open>Data\<close>

text \<open>A row of the Nix database (\<open>PathInfo\<close> in \<open>src/db.rs\<close>).\<close>

record path_info =
  pi_path :: string
  pi_nar_hash :: bytes
  pi_nar_size :: nat
  pi_deriver :: "string option"
  pi_sigs :: "string list"
  pi_ca :: "string option"
  pi_references :: "string list"

record remote_narinfo =
  ri_store_path :: string
  ri_compression :: string
  ri_nar_hash :: bytes
  ri_nar_size :: nat
  ri_references :: "string list"
  ri_deriver :: "string option"
  ri_ca :: "string option"
  ri_sigs :: "string list"

datatype narinfo_err =
    NoColon | UnsupportedNarHash string | BadNix32 string | BadNarSize
  | MissingUrl | MissingStorePath | MissingNarHash | MissingNarSize

section \<open>Rendering\<close>

definition basename :: "string \<Rightarrow> string \<Rightarrow> string" where
  "basename sp dir =
     (case Option.bind (strip_prefix dir sp) (strip_prefix ''/'') of Some b \<Rightarrow> b | None \<Rightarrow> sp)"

definition line :: "string \<Rightarrow> string" where
  "line s = s @ [CHR 0x0A]"

definition format_narinfo :: "path_info \<Rightarrow> string \<Rightarrow> string" where
  "format_narinfo i dir =
     (let nar32 = encode (pi_nar_hash i) in
      line (''StorePath: '' @ pi_path i) @
      line (''URL: nar/'' @ nar32 @ ''.nar'') @
      line ''Compression: none'' @
      line (''FileHash: sha256:'' @ nar32) @
      line (''FileSize: '' @ show_nat (pi_nar_size i)) @
      line (''NarHash: sha256:'' @ nar32) @
      line (''NarSize: '' @ show_nat (pi_nar_size i)) @
      line (''References: '' @ join '' '' (map (\<lambda>r. basename r dir) (pi_references i))) @
      (case pi_deriver i of None \<Rightarrow> [] | Some d \<Rightarrow> line (''Deriver: '' @ basename d dir)) @
      concat (map (\<lambda>s. line (''Sig: '' @ s)) (pi_sigs i)) @
      (case pi_ca i of None \<Rightarrow> [] | Some c \<Rightarrow> line (''CA: '' @ c)))"

definition rewrite_for_client :: "remote_narinfo \<Rightarrow> string" where
  "rewrite_for_client i =
     (let nar32 = encode (ri_nar_hash i) in
      line (''StorePath: '' @ ri_store_path i) @
      line (''URL: nar/'' @ nar32 @ ''.nar'') @
      line ''Compression: none'' @
      line (''FileHash: sha256:'' @ nar32) @
      line (''FileSize: '' @ show_nat (ri_nar_size i)) @
      line (''NarHash: sha256:'' @ nar32) @
      line (''NarSize: '' @ show_nat (ri_nar_size i)) @
      line (''References: '' @ join '' '' (ri_references i)) @
      (case ri_deriver i of None \<Rightarrow> [] | Some d \<Rightarrow> line (''Deriver: '' @ d)) @
      concat (map (\<lambda>s. line (''Sig: '' @ s)) (ri_sigs i)) @
      (case ri_ca i of None \<Rightarrow> [] | Some c \<Rightarrow> line (''CA: '' @ c)))"

section \<open>Parsing\<close>

text \<open>The local variables of the loop over the lines.\<close>

record parse_state =
  ps_store_path :: "string option"
  ps_url_seen :: bool
  ps_compression :: string
  ps_nar_hash :: "bytes option"
  ps_nar_size :: "nat option"
  ps_references :: "string list"
  ps_deriver :: "string option"
  ps_ca :: "string option"
  ps_sigs :: "string list"

definition parse_init :: parse_state where
  "parse_init = \<lparr>ps_store_path = None, ps_url_seen = False, ps_compression = ''bzip2'',
     ps_nar_hash = None, ps_nar_size = None, ps_references = [], ps_deriver = None,
     ps_ca = None, ps_sigs = []\<rparr>"

definition non_empty :: "string \<Rightarrow> string option" where
  "non_empty v = (if v = [] then None else Some v)"

definition parse_field :: "string \<Rightarrow> string \<Rightarrow> parse_state \<Rightarrow> narinfo_err + parse_state" where
  "parse_field key v st =
     (if key = ''StorePath'' then Inr (st\<lparr>ps_store_path := Some v\<rparr>)
      else if key = ''URL'' then Inr (st\<lparr>ps_url_seen := True\<rparr>)
      else if key = ''Compression'' then Inr (st\<lparr>ps_compression := v\<rparr>)
      else if key = ''NarHash'' then
        bindr (ok_or (UnsupportedNarHash v) (strip_prefix ''sha256:'' v)) (\<lambda>h.
        bindr (ok_or (BadNix32 v) (decode h 32)) (\<lambda>b. Inr (st\<lparr>ps_nar_hash := Some b\<rparr>)))
      else if key = ''NarSize'' then
        bindr (ok_or BadNarSize (parse_u64 v)) (\<lambda>n. Inr (st\<lparr>ps_nar_size := Some n\<rparr>))
      else if key = ''References'' then Inr (st\<lparr>ps_references := split_whitespace v\<rparr>)
      else if key = ''Deriver'' then Inr (st\<lparr>ps_deriver := non_empty v\<rparr>)
      else if key = ''CA'' then Inr (st\<lparr>ps_ca := non_empty v\<rparr>)
      else if key = ''Sig'' \<and> v \<noteq> [] then Inr (st\<lparr>ps_sigs := ps_sigs st @ [v]\<rparr>)
      else Inr st)"

definition parse_line :: "string \<Rightarrow> parse_state \<Rightarrow> narinfo_err + parse_state" where
  "parse_line l st =
     (if l = [] then Inr st
      else bindr (ok_or NoColon (split_once (CHR '':'') l)) (\<lambda>(key, value).
        let v = (case strip_prefix '' '' value of Some v \<Rightarrow> v | None \<Rightarrow> value)
        in parse_field key v st))"

definition parse_narinfo :: "string \<Rightarrow> narinfo_err + remote_narinfo" where
  "parse_narinfo text =
     bindr (for_each parse_line (lines text) parse_init) (\<lambda>st.
       if \<not> ps_url_seen st then Inl MissingUrl
       else
         bindr (ok_or MissingStorePath (ps_store_path st)) (\<lambda>sp.
         bindr (ok_or MissingNarHash (ps_nar_hash st)) (\<lambda>h.
         bindr (ok_or MissingNarSize (ps_nar_size st)) (\<lambda>n.
           Inr \<lparr>ri_store_path = sp, ri_compression = ps_compression st, ri_nar_hash = h,
                ri_nar_size = n, ri_references = ps_references st, ri_deriver = ps_deriver st,
                ri_ca = ps_ca st, ri_sigs = ps_sigs st\<rparr>))))"

section \<open>Round trip\<close>

text \<open>A value that survives as the rest of its line.\<close>

definition one_line :: "string \<Rightarrow> bool" where
  "one_line v \<longleftrightarrow> CHR 0x0A \<notin> set v \<and> (v = [] \<or> last v \<noteq> CHR 0x0D)"

definition wf_remote :: "remote_narinfo \<Rightarrow> bool" where
  "wf_remote i \<longleftrightarrow> one_line (ri_store_path i) \<and> length (ri_nar_hash i) = 32 \<and> ri_nar_size i < 2 ^ 64
     \<and> (\<forall>r\<in>set (ri_references i). no_ws r)
     \<and> (\<forall>d. ri_deriver i = Some d \<longrightarrow> d \<noteq> [] \<and> one_line d)
     \<and> (\<forall>s\<in>set (ri_sigs i). s \<noteq> [] \<and> one_line s)
     \<and> (\<forall>c. ri_ca i = Some c \<longrightarrow> c \<noteq> [] \<and> one_line c)"

lemma lines_line:
  assumes "one_line (k @ v)"
  shows "lines (line (k @ v) @ r) = (k @ v) # lines r"
  using assms lines_Cons [of "k @ v" r] by (simp only: line_def one_line_def append_assoc append_Cons append_Nil) blast

lemma one_line_field: "one_line v \<Longrightarrow> CHR 0x0A \<notin> set k \<Longrightarrow> one_line (k @ '': '' @ v)"
  by (auto simp: one_line_def)

lemma parse_line_field:
  assumes "CHR '':'' \<notin> set k"
  shows "parse_line (k @ '': '' @ v) st = parse_field k v st"
  using assms split_once_append [of "CHR '':''" k "CHR '' '' # v"]
  by (simp add: parse_line_def strip_prefix_def)

text \<open>The work of one rendered field.\<close>

lemma parse_rendered_line:
  assumes "one_line v" and "CHR '':'' \<notin> set k" and "CHR 0x0A \<notin> set k"
  shows "for_each parse_line (lines (line (k @ '': '' @ v) @ r)) st
    = bindr (parse_field k v st) (for_each parse_line (lines r))"
  by (simp only: lines_line [OF one_line_field [OF assms(1,3)]] for_each.simps parse_line_field [OF assms(2)])

lemmas rendered_field = parse_rendered_line [where k = "''StorePath''", simplified]
  parse_rendered_line [where k = "''URL''", simplified]
  parse_rendered_line [where k = "''Compression''", simplified]
  parse_rendered_line [where k = "''FileHash''", simplified]
  parse_rendered_line [where k = "''FileSize''", simplified]
  parse_rendered_line [where k = "''NarHash''", simplified]
  parse_rendered_line [where k = "''NarSize''", simplified]
  parse_rendered_line [where k = "''References''", simplified]
  parse_rendered_line [where k = "''Deriver''", simplified]
  parse_rendered_line [where k = "''Sig''", simplified]
  parse_rendered_line [where k = "''CA''", simplified]

lemma one_lineI: "(\<And>c. c \<in> set v \<Longrightarrow> c \<noteq> CHR 0x0A \<and> c \<noteq> CHR 0x0D) \<Longrightarrow> one_line v"
  by (auto simp: one_line_def dest: last_in_set)

lemma set_show_nat: "c \<in> set (show_nat n) \<Longrightarrow> \<exists>d<10. c = digit_char d"
proof (induction n rule: show_nat.induct)
  case (1 n)
  show ?case
  proof (cases "n < 10")
    case True
    with 1 show ?thesis by (subst (asm) show_nat.simps) auto
  next
    case False
    then have "c \<in> set (show_nat (n div 10)) \<or> c = digit_char (n mod 10)"
      using "1.prems" by (subst (asm) show_nat.simps) auto
    with 1 False show ?thesis by (metis mod_less_divisor zero_less_numeral)
  qed
qed

lemma digit_char_graphic: "d < 10 \<Longrightarrow> digit_char d \<noteq> CHR 0x0A \<and> digit_char d \<noteq> CHR 0x0D"
  by (auto simp: digit_char_def dest!: arg_cong [where f = "of_char :: char \<Rightarrow> nat"])

lemma one_line_show_nat [simp]: "one_line (show_nat n)"
proof (rule one_lineI)
  fix c assume "c \<in> set (show_nat n)"
  then obtain d where "d < 10" "c = digit_char d" using set_show_nat by blast
  then show "c \<noteq> CHR 0x0A \<and> c \<noteq> CHR 0x0D" using digit_char_graphic by simp
qed

lemma set_ALPHABET_graphic: "\<forall>c\<in>set ALPHABET. c \<noteq> CHR 0x0A \<and> c \<noteq> CHR 0x0D \<and> c \<noteq> CHR 0x20"
  by code_simp

lemma set_encode: "set (encode bs) \<subseteq> set ALPHABET"
proof
  fix c assume "c \<in> set (encode bs)"
  then obtain d where "position c ALPHABET = Some d" using encode_alphabet by fast
  then show "c \<in> set ALPHABET" using position_SomeD [of c ALPHABET d] by (metis nth_mem)
qed

lemma one_line_encode [simp]: "one_line (encode bs)"
proof (rule one_lineI)
  fix c assume "c \<in> set (encode bs)"
  then have "c \<in> set ALPHABET" using set_encode by (rule rev_subsetD)
  then have "c \<noteq> CHR 0x0A \<and> c \<noteq> CHR 0x0D \<and> c \<noteq> CHR 0x20"
    by (rule bspec [OF set_ALPHABET_graphic])
  then show "c \<noteq> CHR 0x0A \<and> c \<noteq> CHR 0x0D" by (elim conjE, intro conjI)
qed

lemma one_line_append [simp]: "one_line u \<Longrightarrow> one_line v \<Longrightarrow> one_line (u @ v)"
  by (cases "v = []") (auto simp: one_line_def)

lemma no_ws_one_line: "no_ws w \<Longrightarrow> one_line w"
  by (intro one_lineI) (fastforce simp: no_ws_def)

lemma one_line_join: "(\<And>w. w \<in> set ws \<Longrightarrow> no_ws w) \<Longrightarrow> one_line (join '' '' ws)"
proof (induction ws rule: induct_list012)
  case (3 x y zs)
  then show ?case using no_ws_one_line [of x] by (auto simp: one_line_def)
qed (auto simp: no_ws_one_line, simp add: one_line_def)

lemma parse_sigs:
  "(\<And>s. s \<in> set ss \<Longrightarrow> s \<noteq> [] \<and> one_line s) \<Longrightarrow>
   for_each parse_line (lines (concat (map (\<lambda>s. line (''Sig: '' @ s)) ss) @ r)) st
   = for_each parse_line (lines r) (st\<lparr>ps_sigs := ps_sigs st @ ss\<rparr>)"
proof (induction ss arbitrary: st)
  case (Cons s ss)
  then show ?case
    using rendered_field(10) [of s "concat (map (\<lambda>s. line (''Sig: '' @ s)) ss) @ r" st]
    by (simp add: parse_field_def)
qed simp

lemma rendered_nar_hash:
  "length h = 32 \<Longrightarrow>
   parse_field ''NarHash'' (''sha256:'' @ encode h) st = Inr (st\<lparr>ps_nar_hash := Some h\<rparr>)"
  using decode_encode [of h] by (simp add: parse_field_def strip_prefix_def)

lemma parse_field_simps:
  "parse_field ''StorePath'' v st = Inr (st\<lparr>ps_store_path := Some v\<rparr>)"
  "parse_field ''URL'' v st = Inr (st\<lparr>ps_url_seen := True\<rparr>)"
  "parse_field ''Compression'' v st = Inr (st\<lparr>ps_compression := v\<rparr>)"
  "parse_field ''FileHash'' v st = Inr st"
  "parse_field ''FileSize'' v st = Inr st"
  "n < 2 ^ 64 \<Longrightarrow> parse_field ''NarSize'' (show_nat n) st = Inr (st\<lparr>ps_nar_size := Some n\<rparr>)"
  "parse_field ''References'' v st = Inr (st\<lparr>ps_references := split_whitespace v\<rparr>)"
  "parse_field ''Deriver'' v st = Inr (st\<lparr>ps_deriver := non_empty v\<rparr>)"
  "parse_field ''CA'' v st = Inr (st\<lparr>ps_ca := non_empty v\<rparr>)"
  by (simp_all add: parse_field_def)

text \<open>The lines up to the references, which every rendering has.\<close>

definition common_lines :: "string \<Rightarrow> bytes \<Rightarrow> nat \<Rightarrow> string list \<Rightarrow> string" where
  "common_lines sp h n rs =
     (let nar32 = encode h in
      line (''StorePath: '' @ sp) @
      line (''URL: nar/'' @ nar32 @ ''.nar'') @
      line ''Compression: none'' @
      line (''FileHash: sha256:'' @ nar32) @
      line (''FileSize: '' @ show_nat n) @
      line (''NarHash: sha256:'' @ nar32) @
      line (''NarSize: '' @ show_nat n) @
      line (''References: '' @ join '' '' rs))"

definition after_common :: "string \<Rightarrow> bytes \<Rightarrow> nat \<Rightarrow> string list \<Rightarrow> parse_state" where
  "after_common sp h n rs = parse_init\<lparr>ps_store_path := Some sp, ps_url_seen := True,
     ps_compression := ''none'', ps_nar_hash := Some h, ps_nar_size := Some n, ps_references := rs\<rparr>"

lemma one_line_literal [simp]:
  "one_line ''none''" "one_line ''nar/''" "one_line ''.nar''" "one_line ''sha256:''"
  by (simp_all add: one_line_def)

lemma parse_common:
  assumes "one_line sp" "length h = 32" "n < 2 ^ 64" "\<And>w. w \<in> set rs \<Longrightarrow> no_ws w"
  shows "for_each parse_line (lines (common_lines sp h n rs @ r)) parse_init
    = for_each parse_line (lines r) (after_common sp h n rs)"
proof -
  have u: "one_line (''nar/'' @ encode h @ ''.nar'')" "one_line (''sha256:'' @ encode h)"
    by (intro one_line_append one_line_literal one_line_encode)+
  note f = rendered_field(1) [OF assms(1)] rendered_field(2) [OF u(1), simplified]
    rendered_field(3) [of "''none''", simplified] rendered_field(4) [OF u(2), simplified]
    rendered_field(5) [OF one_line_show_nat] rendered_field(6) [OF u(2), simplified]
    rendered_field(7) [OF one_line_show_nat] rendered_field(8) [OF one_line_join [OF assms(4)]]
  have h: "parse_field ''NarHash'' (CHR ''s'' # CHR ''h'' # CHR ''a'' # CHR ''2'' # CHR ''5'' #
      CHR ''6'' # CHR '':'' # encode h) st = Inr (st\<lparr>ps_nar_hash := Some h\<rparr>)" for st
    using rendered_nar_hash [OF assms(2), of st] by simp
  show ?thesis
    using assms(3,4)
    by (simp add: common_lines_def Let_def f h parse_field_simps split_whitespace_join after_common_def)
qed

lemma rewrite_common:
  "rewrite_for_client i = common_lines (ri_store_path i) (ri_nar_hash i) (ri_nar_size i) (ri_references i) @
     (case ri_deriver i of None \<Rightarrow> [] | Some d \<Rightarrow> line (''Deriver: '' @ d)) @
     concat (map (\<lambda>s. line (''Sig: '' @ s)) (ri_sigs i)) @
     (case ri_ca i of None \<Rightarrow> [] | Some c \<Rightarrow> line (''CA: '' @ c))"
  by (simp only: rewrite_for_client_def common_lines_def Let_def append_assoc)

lemma parse_rewrite:
  assumes wf: "wf_remote i"
  shows "parse_narinfo (rewrite_for_client i) = Inr (i\<lparr>ri_compression := ''none''\<rparr>)"
proof -
  let ?c = "after_common (ri_store_path i) (ri_nar_hash i) (ri_nar_size i) (ri_references i)"
  let ?d = "case ri_deriver i of None \<Rightarrow> [] | Some d \<Rightarrow> line (''Deriver: '' @ d)"
  let ?s = "concat (map (\<lambda>s. line (''Sig: '' @ s)) (ri_sigs i))"
  let ?a = "case ri_ca i of None \<Rightarrow> [] | Some c \<Rightarrow> line (''CA: '' @ c)"
  have der: "for_each parse_line (lines (?d @ r)) ?c
      = for_each parse_line (lines r) (?c\<lparr>ps_deriver := ri_deriver i\<rparr>)" for r
    using wf rendered_field(9) [of _ r ?c]
    by (auto simp: wf_remote_def parse_field_def non_empty_def after_common_def parse_init_def
        split: option.split)
  have sig: "for_each parse_line (lines (?s @ r)) st
      = for_each parse_line (lines r) (st\<lparr>ps_sigs := ps_sigs st @ ri_sigs i\<rparr>)" for r st
    using wf by (intro parse_sigs) (auto simp: wf_remote_def)
  have ca: "for_each parse_line (lines ?a) st = Inr (st\<lparr>ps_ca := ri_ca i\<rparr>)" if "ps_ca st = None" for st
    using wf that rendered_field(11) [of _ "[]" st]
    by (auto simp: wf_remote_def parse_field_def non_empty_def split: option.split)
  have "for_each parse_line (lines (rewrite_for_client i)) parse_init
      = Inr (?c\<lparr>ps_deriver := ri_deriver i, ps_sigs := ri_sigs i, ps_ca := ri_ca i\<rparr>)"
  proof -
    have "for_each parse_line (lines (rewrite_for_client i)) parse_init
        = for_each parse_line (lines (?d @ ?s @ ?a)) ?c"
      unfolding rewrite_common by (rule parse_common) (use wf in \<open>auto simp: wf_remote_def\<close>)
    also have "\<dots> = for_each parse_line (lines ?a) (?c\<lparr>ps_deriver := ri_deriver i, ps_sigs := ri_sigs i\<rparr>)"
      unfolding der sig by (simp add: after_common_def parse_init_def)
    also have "\<dots> = Inr (?c\<lparr>ps_deriver := ri_deriver i, ps_sigs := ri_sigs i, ps_ca := ri_ca i\<rparr>)"
      by (rule ca) (simp add: after_common_def parse_init_def)
    finally show ?thesis .
  qed
  then show ?thesis
    by (cases i) (simp add: parse_narinfo_def after_common_def parse_init_def)
qed

text \<open>What the serve side renders is what the proxy would relay for the same row.\<close>

definition remote_of :: "path_info \<Rightarrow> string \<Rightarrow> remote_narinfo" where
  "remote_of i dir = \<lparr>ri_store_path = pi_path i, ri_compression = ''none'', ri_nar_hash = pi_nar_hash i,
     ri_nar_size = pi_nar_size i, ri_references = map (\<lambda>r. basename r dir) (pi_references i),
     ri_deriver = map_option (\<lambda>d. basename d dir) (pi_deriver i), ri_ca = pi_ca i, ri_sigs = pi_sigs i\<rparr>"

lemma format_eq_rewrite: "format_narinfo i dir = rewrite_for_client (remote_of i dir)"
  by (simp add: format_narinfo_def rewrite_for_client_def remote_of_def Let_def split: option.split)

text \<open>
  parsing a served narinfo gives back its row: store path, hash, size, references and
  deriver (as base names), signatures in order and content address, for every row whose
  values fit on a line.
\<close>

theorem parse_format_narinfo:
  assumes "wf_remote (remote_of i dir)"
  shows "parse_narinfo (format_narinfo i dir) = Inr (remote_of i dir)"
  using parse_rewrite [OF assms] by (simp add: format_eq_rewrite) (simp add: remote_of_def)

definition demo_info :: path_info where
  "demo_info = \<lparr>pi_path = ''/s/aa-x'', pi_nar_hash = replicate 32 7, pi_nar_size = 1234,
     pi_deriver = Some ''/s/bb.drv'', pi_sigs = [''k:x''], pi_ca = Some ''fixed:r'',
     pi_references = [''/s/cc-dep'']\<rparr>"

lemma parse_format_narinfo_witness:
  "wf_remote (remote_of demo_info ''/s'') \<and>
   parse_narinfo (format_narinfo demo_info ''/s'') = Inr (remote_of demo_info ''/s'')"
proof -
  have "wf_remote (remote_of demo_info ''/s'')"
    by (simp add: wf_remote_def remote_of_def demo_info_def one_line_def no_ws_def basename_def strip_prefix_def)
  then show ?thesis using parse_format_narinfo by simp
qed



end
