(* ===== verification/Sig.thy ===== *)
theory Sig
  imports Narinfo
begin

text \<open>
  Signature checking at the proxy gate (\<open>src/sig.rs\<close>): the trusted keys, their parsing from
  configuration entries and from \<open>nix.conf\<close>, the signed fingerprint and \<open>any_sig_valid\<close>.
  The base-64 decoder and ed25519 (crates \<open>base64\<close>, \<open>ed25519_compact\<close>) are the parameter
  \<open>crypto\<close>. The lemmas say that a narinfo passes only under a named trusted key whose
  signature covers exactly its path, hash, size and reference set.
\<close>

section \<open>The libraries\<close>

record crypto =
  b64_decode :: "string \<Rightarrow> bytes option"
  pk_from_slice :: "bytes \<Rightarrow> bytes option"
  sig_from_slice :: "bytes \<Rightarrow> bytes option"
  ed_verify :: "bytes \<Rightarrow> string \<Rightarrow> bytes \<Rightarrow> bool"

type_synonym trusted_keys = "(string \<times> bytes) list"

definition NIX_DEFAULT_KEY :: string where
  "NIX_DEFAULT_KEY = ''cache.nixos.org-1:6NCHdD59X431o0gWypbMrAURkbJ16ZPMQFGspcDShjY=''"

section \<open>Trusted keys\<close>

definition parse_key :: "crypto \<Rightarrow> string \<Rightarrow> (string \<times> bytes) option" where
  "parse_key K e =
     Option.bind (split_once (CHR '':'') e) (\<lambda>(name, b64).
     Option.bind (b64_decode K b64) (\<lambda>raw.
     Option.bind (pk_from_slice K raw) (\<lambda>pk. Some (name, pk))))"

text \<open>Malformed entries are skipped (the warning is not modelled).\<close>

definition parse_keys :: "crypto \<Rightarrow> string list \<Rightarrow> trusted_keys" where
  "parse_keys K entries = List.map_filter (parse_key K) entries"

definition before_comment :: "string \<Rightarrow> string" where
  "before_comment l = takeWhile (\<lambda>c. c \<noteq> CHR ''#'') l"

fun conf_line :: "string list option \<times> string list \<Rightarrow> string \<Rightarrow> string list option \<times> string list" where
  "conf_line (base, extra) l =
     (case split_once (CHR ''='') (trim (before_comment l)) of
        None \<Rightarrow> (base, extra)
      | Some (k, v) \<Rightarrow>
          if trim k = ''trusted-public-keys'' \<or> trim k = ''binary-cache-public-keys''
          then (Some (split_whitespace v), extra)
          else if trim k = ''extra-trusted-public-keys'' then (base, extra @ split_whitespace v)
          else (base, extra))"

definition from_nix_conf :: "crypto \<Rightarrow> string \<Rightarrow> trusted_keys" where
  "from_nix_conf K text =
     (let (base, extra) = foldl conf_line (None, []) (lines text);
          entries = (case base of Some b \<Rightarrow> b | None \<Rightarrow> [NIX_DEFAULT_KEY])
      in parse_keys K (entries @ extra))"

text \<open>\<open>load\<close>: explicit configuration, else the text of \<open>nix.conf\<close>, none when it is unreadable.\<close>

definition load_keys :: "crypto \<Rightarrow> string list option \<Rightarrow> string option \<Rightarrow> trusted_keys" where
  "load_keys K explicit nix_conf =
     (case explicit of
        Some entries \<Rightarrow> parse_keys K entries
      | None \<Rightarrow> (case nix_conf of Some text \<Rightarrow> from_nix_conf K text | None \<Rightarrow> []))"

section \<open>Fingerprint and check\<close>

text \<open>\<open>rsplit_once\<close> at the last slash: the part before it.\<close>

definition rsplit_dir :: "string \<Rightarrow> string option" where
  "rsplit_dir s = map_option (\<lambda>(a, d). rev d) (split_once (CHR ''/'') (rev s))"

definition fingerprint :: "remote_narinfo \<Rightarrow> string" where
  "fingerprint i =
     (let store_dir = (case rsplit_dir (ri_store_path i) of Some d \<Rightarrow> d | None \<Rightarrow> ''/nix/store'');
          rs = sort (map (\<lambda>b. store_dir @ ''/'' @ b) (ri_references i))
      in ''1;'' @ ri_store_path i @ '';sha256:'' @ encode (ri_nar_hash i) @ '';'' @
         show_nat (ri_nar_size i) @ '';'' @ join '','' rs)"

definition sig_valid :: "crypto \<Rightarrow> trusted_keys \<Rightarrow> string \<Rightarrow> string \<Rightarrow> bool" where
  "sig_valid K keys fp s =
     (case split_once (CHR '':'') s of
        None \<Rightarrow> False
      | Some (name, b64) \<Rightarrow>
          (case b64_decode K b64 of
             None \<Rightarrow> False
           | Some raw \<Rightarrow>
               (case sig_from_slice K raw of
                  None \<Rightarrow> False
                | Some sg \<Rightarrow> list_ex (\<lambda>(kname, pk). kname = name \<and> ed_verify K pk fp sg) keys)))"

definition any_sig_valid :: "crypto \<Rightarrow> trusted_keys \<Rightarrow> remote_narinfo \<Rightarrow> bool" where
  "any_sig_valid K keys i =
     (if keys = [] \<or> ri_sigs i = [] then False
      else let fp = fingerprint i in list_ex (sig_valid K keys fp) (ri_sigs i))"

section \<open>What a passing narinfo shows\<close>

lemma sig_valid_iff:
  "sig_valid K keys fp s \<longleftrightarrow> (\<exists>name b64 raw sg pk.
     split_once (CHR '':'') s = Some (name, b64) \<and> b64_decode K b64 = Some raw \<and>
     sig_from_slice K raw = Some sg \<and> (name, pk) \<in> set keys \<and> ed_verify K pk fp sg)"
  by (fastforce simp: sig_valid_def list_ex_iff split: option.splits)

lemma any_sig_valid_iff:
  "any_sig_valid K keys i \<longleftrightarrow> (\<exists>s\<in>set (ri_sigs i). sig_valid K keys (fingerprint i) s)"
  by (auto simp: any_sig_valid_def Let_def list_ex_iff) (auto simp: sig_valid_iff)

lemma sig_valid_mono: "set keys \<subseteq> set keys' \<Longrightarrow> sig_valid K keys fp s \<Longrightarrow> sig_valid K keys' fp s"
  unfolding sig_valid_iff by blast

lemma split_once_SomeD: "split_once c s = Some (a, b) \<Longrightarrow> s = a @ c # b \<and> c \<notin> set a"
  by (induction s arbitrary: a) (auto split: if_splits)

text \<open>The fields the fingerprint carries can be read back from it.\<close>

lemma join_inject:
  assumes "\<And>w. w \<in> set xs \<union> set ys \<Longrightarrow> c \<notin> set w \<and> w \<noteq> []" and "join [c] xs = join [c] ys"
  shows "xs = ys"
  using assms
proof (induction xs arbitrary: ys rule: induct_list012)
  case 1
  then show ?case by (cases ys rule: remdups_adj.cases) auto
next
  case (2 x)
  then show ?case using "2.prems"(1) [of x] by (cases ys rule: remdups_adj.cases) auto
next
  case (3 x y zs)
  have "length ys \<ge> 2"
  proof (cases ys rule: remdups_adj.cases)
    case (2 w)
    with "3.prems"(2) have "w = x @ c # join [c] (y # zs)" by simp
    moreover have "c \<notin> set w" using "3.prems"(1) 2 by simp
    ultimately show ?thesis by simp
  qed (use "3.prems"(2) in simp_all)
  then obtain x' y' zs' where ys: "ys = x' # y' # zs'"
    by (cases ys rule: remdups_adj.cases) auto
  have c: "c \<notin> set x" "c \<notin> set x'" using "3.prems"(1) ys by auto
  have "split_once c (join [c] (x # y # zs)) = Some (x, join [c] (y # zs))"
    "split_once c (join [c] ys) = Some (x', join [c] (y' # zs'))"
    using c by (simp_all add: ys split_once_append)
  with "3.prems"(2) have "x = x'" "join [c] (y # zs) = join [c] (y' # zs')" by simp_all
  moreover have "y # zs = y' # zs'"
    using "3.prems"(1) calculation(2) ys by (intro "3.IH"(2)) auto
  ultimately show ?case by (simp add: ys)
qed

lemma show_nat_inject: "m < 2 ^ 64 \<Longrightarrow> n < 2 ^ 64 \<Longrightarrow> show_nat m = show_nat n \<longleftrightarrow> m = n"
  by (metis option.inject parse_u64_show)

lemma append_sep_inject:
  fixes u v :: string
  assumes c: "c \<notin> set u" "c \<notin> set v"
  shows "u @ c # x = v @ c # y \<longleftrightarrow> u = v \<and> x = y"
proof
  assume eq: "u @ c # x = v @ c # y"
  have "Some (u, x) = Some (v, y)"
    using split_once_append [OF c(1), of x] split_once_append [OF c(2), of y] unfolding eq
    by (rule trans [OF sym])
  then show "u = v \<and> x = y" by simp
qed simp

definition ref_paths :: "remote_narinfo \<Rightarrow> string list" where
  "ref_paths i = map (\<lambda>b. (case rsplit_dir (ri_store_path i) of Some d \<Rightarrow> d | None \<Rightarrow> ''/nix/store'') @ ''/'' @ b)
     (ri_references i)"

definition plain_fields :: "remote_narinfo \<Rightarrow> bool" where
  "plain_fields i \<longleftrightarrow> CHR '';'' \<notin> set (ri_store_path i) \<and> length (ri_nar_hash i) = 32 \<and>
     ri_nar_size i < 2 ^ 64 \<and> (\<forall>r\<in>set (ref_paths i). CHR '','' \<notin> set r)"

lemma semicolon_free:
  "CHR '';'' \<notin> set (encode bs)" "CHR '';'' \<notin> set (show_nat n)"
proof -
  have "CHR '';'' \<notin> set ALPHABET" by code_simp
  then show "CHR '';'' \<notin> set (encode bs)" by (rule contra_subsetD [OF set_encode])
  show "CHR '';'' \<notin> set (show_nat n)"
  proof
    assume "CHR '';'' \<in> set (show_nat n)"
    then obtain d where d: "d < 10" "CHR '';'' = digit_char d" using set_show_nat by meson
    from arg_cong [OF d(2), of "of_char :: char \<Rightarrow> nat"] d(1) show False
      by (simp add: digit_char_def of_char_of)
  qed
qed

lemma fingerprint_alt:
  "fingerprint i = ''1;'' @ ri_store_path i @ CHR '';'' # ''sha256:'' @ encode (ri_nar_hash i) @ CHR '';'' #
     show_nat (ri_nar_size i) @ CHR '';'' # join '','' (sort (ref_paths i))"
  by (simp add: fingerprint_def ref_paths_def Let_def)

text \<open>
  the signed fingerprint binds what it should: two narinfos with the same fingerprint
  have the same store path, NAR hash and size, and the same references up to order, so a
  signature over one cannot be moved to a narinfo that differs in any of them.
\<close>

theorem fingerprint_binds:
  assumes "plain_fields i" and "plain_fields j" and "fingerprint i = fingerprint j"
  shows "ri_store_path i = ri_store_path j \<and> ri_nar_hash i = ri_nar_hash j \<and>
    ri_nar_size i = ri_nar_size j \<and> sort (ref_paths i) = sort (ref_paths j)"
proof -
  note eq = assms(3) [unfolded fingerprint_alt, simplified]
  have p: "ri_store_path i = ri_store_path j"
    and r1: "encode (ri_nar_hash i) @ CHR '';'' # show_nat (ri_nar_size i) @ CHR '';'' # join '','' (sort (ref_paths i))
      = encode (ri_nar_hash j) @ CHR '';'' # show_nat (ri_nar_size j) @ CHR '';'' # join '','' (sort (ref_paths j))"
    using eq assms(1,2) by (simp_all add: append_sep_inject plain_fields_def)
  then have "encode (ri_nar_hash i) = encode (ri_nar_hash j)" "show_nat (ri_nar_size i) = show_nat (ri_nar_size j)"
    and r: "join '','' (sort (ref_paths i)) = join '','' (sort (ref_paths j))"
    by (simp_all add: append_sep_inject semicolon_free)
  then have "ri_nar_hash i = ri_nar_hash j" "ri_nar_size i = ri_nar_size j"
    using assms(1,2) by (auto simp: plain_fields_def show_nat_inject)
  moreover have "sort (ref_paths i) = sort (ref_paths j)"
    by (rule join_inject [OF _ r]) (use assms(1,2) in \<open>auto simp: plain_fields_def ref_paths_def\<close>)
  ultimately show ?thesis using p by simp
qed

definition demo_crypto :: crypto where
  "demo_crypto = \<lparr>b64_decode = (\<lambda>s. Some (bytes_of s)), pk_from_slice = Some, sig_from_slice = Some,
     ed_verify = (\<lambda>pk m s. s = pk @ bytes_of m)\<rparr>"

definition demo_remote :: remote_narinfo where
  "demo_remote = \<lparr>ri_store_path = ''/s/a'', ri_compression = ''none'', ri_nar_hash = [], ri_nar_size = 1,
     ri_references = [], ri_deriver = None, ri_ca = None, ri_sigs = [''k:K1;/s/a;sha256:;1;'']\<rparr>"

lemma fingerprint_binds_witness:
  "ri_nar_size (demo_remote\<lparr>ri_nar_hash := replicate 32 1, ri_sigs := []\<rparr>) = 1 \<and>
   sort (ref_paths (demo_remote\<lparr>ri_nar_hash := replicate 32 1\<rparr>)) = []"
proof -
  let ?i = "demo_remote\<lparr>ri_nar_hash := replicate 32 1\<rparr>"
  let ?j = "?i\<lparr>ri_sigs := []\<rparr>"
  have p: "plain_fields ?i" "plain_fields ?j"
    by (simp_all add: plain_fields_def demo_remote_def ref_paths_def)
  have "fingerprint ?i = fingerprint ?j" by (simp add: fingerprint_def)
  from fingerprint_binds [OF p this] show ?thesis by (simp add: demo_remote_def ref_paths_def)
qed

lemma demo_signed: "any_sig_valid demo_crypto [(''k'', bytes_of ''K'')] demo_remote"
  by code_simp

text \<open>
  Adding trusted keys or signatures never turns a believable narinfo away: the verdict
  is monotone in both sets.
\<close>

theorem any_sig_valid_mono:
  assumes "set keys \<subseteq> set keys'" and "set (ri_sigs i) \<subseteq> set (ri_sigs j)"
    and "fingerprint i = fingerprint j" and "any_sig_valid K keys i"
  shows "any_sig_valid K keys' j"
proof -
  from assms(4) obtain s where "s \<in> set (ri_sigs i)" "sig_valid K keys (fingerprint i) s"
    unfolding any_sig_valid_iff by blast
  with assms(1-3) show ?thesis
    unfolding any_sig_valid_iff by (metis sig_valid_mono subsetD)
qed

lemma any_sig_valid_mono_witness:
  "any_sig_valid demo_crypto [(''other'', []), (''k'', bytes_of ''K'')] demo_remote"
  by (rule any_sig_valid_mono [OF _ _ _ demo_signed]) simp_all

end
