(* ===== verification/Wire.thy ===== *)
theory Wire
  imports Prelude "HOL-Library.Product_Lexorder"
begin

text \<open>
  The messages of the sync protocol (\<open>proto/mesh.proto\<close>, as the Rust sources use the
  generated types) and the interface of the two libraries every node shares: the protobuf
  codec (crate \<open>prost\<close>, code the build generates) and the hash \<open>blake3\<close>. Both are a
  parameter, the record \<open>codec\<close>; the locale \<open>wire_codec\<close> states what the sources rely on
  (decoding inverts encoding, a digest has 32 bytes) and is interpreted at the end on a
  concrete self-delimiting encoding.
\<close>

section \<open>Messages\<close>

text \<open>An optional byte field (\<open>nar_hash\<close>) of any length: a peer may send a malformed one.\<close>

record attestation =
  store_path :: string
  nar_hash :: bytes
  nar_size :: nat
  refs :: "string list"
  ca :: string
  sigs :: "string list"

datatype op = Have bytes | Drop bytes | Attest attestation

record event =
  ev_seq :: nat
  ev_op :: "op option"

record origin_clock =
  oc_origin :: string
  oc_generation :: nat
  oc_seq :: nat

record range_ask =
  ra_origin :: string
  ra_generation :: nat
  ra_after :: nat
  ra_until :: nat

record range_reply =
  rr_origin :: string
  rr_generation :: nat
  rr_after :: nat
  rr_events :: "event list"
  rr_reachable :: bool

record merkle_ask =
  ma_prefix :: bytes
  ma_expand :: bool
  ma_fetch :: bool

record merkle_node =
  mn_prefix :: bytes
  mn_children :: bytes

datatype update_body = UpToDate bool | Suffix "event list" | Snapshot "bytes list"

record origin_update =
  ou_origin :: string
  ou_generation :: nat
  ou_seq :: nat
  ou_body :: "update_body option"
  ou_truncated :: bool

record sync_request =
  sr_requester :: string
  sr_have :: "origin_clock list"
  sr_atts_cursor :: bytes
  sr_skip_origins :: "string list"
  sr_ranges :: "range_ask list"
  sr_merkle :: "merkle_ask list"

section \<open>The codec and the hash\<close>

record codec =
  enc_event :: "event \<Rightarrow> bytes"
  dec_event :: "bytes \<Rightarrow> event option"
  enc_att :: "attestation \<Rightarrow> bytes"
  dec_att :: "bytes \<Rightarrow> attestation option"
  b3 :: "bytes \<Rightarrow> bytes"

locale wire_codec =
  fixes C :: codec
  assumes dec_enc_event [simp]: "dec_event C (enc_event C e) = Some e"
    and dec_enc_att [simp]: "dec_att C (enc_att C a) = Some a"
    and length_b3 [simp]: "length (b3 C bs) = 32"
begin

lemma enc_event_inject: "enc_event C e = enc_event C e' \<longleftrightarrow> e = e'"
  by (metis dec_enc_event option.inject)

lemma enc_att_inject: "enc_att C a = enc_att C a' \<longleftrightarrow> a = a'"
  by (metis dec_enc_att option.inject)

end

section \<open>A concrete codec\<close>

text \<open>
  An instance of the parameter: every field is written in a self-delimiting form (a list
  as a 1 before each element and a 0 at the end, a number as a list of so many ones). It
  is used by the witnesses only, where the values are small.
\<close>

fun put_list :: "('a \<Rightarrow> bytes) \<Rightarrow> 'a list \<Rightarrow> bytes" where
  "put_list p [] = [0]"
| "put_list p (x # xs) = 1 # p x @ put_list p xs"

fun get_list :: "(bytes \<Rightarrow> ('a \<times> bytes) option) \<Rightarrow> nat \<Rightarrow> bytes \<Rightarrow> ('a list \<times> bytes) option" where
  "get_list g 0 bs = None"
| "get_list g (Suc k) [] = None"
| "get_list g (Suc k) (b # bs) =
     (if b = 0 then Some ([], bs)
      else case g bs of None \<Rightarrow> None
        | Some (x, bs') \<Rightarrow> (case get_list g k bs' of None \<Rightarrow> None
            | Some (xs, r) \<Rightarrow> Some (x # xs, r)))"

lemma get_put_list:
  assumes "\<And>x r. x \<in> set xs \<Longrightarrow> g (p x @ r) = Some (x, r)" and "length xs < k"
  shows "get_list g k (put_list p xs @ r) = Some (xs, r)"
  using assms
proof (induction xs arbitrary: k)
  case Nil
  then show ?case by (cases k) auto
next
  case (Cons x xs)
  then show ?case by (cases k) auto
qed

lemma length_put_list: "length xs < length (put_list p xs @ r)"
  by (induction xs) auto

definition put_char :: "char \<Rightarrow> bytes" where "put_char c = [of_char c]"
definition get_char :: "bytes \<Rightarrow> (char \<times> bytes) option" where
  "get_char bs = (case bs of [] \<Rightarrow> None | b # r \<Rightarrow> Some (char_of (unat b), r))"

definition put_byte :: "u8 \<Rightarrow> bytes" where "put_byte b = [b]"
definition get_byte :: "bytes \<Rightarrow> (u8 \<times> bytes) option" where
  "get_byte bs = (case bs of [] \<Rightarrow> None | b # r \<Rightarrow> Some (b, r))"

definition get_all :: "(bytes \<Rightarrow> ('a \<times> bytes) option) \<Rightarrow> bytes \<Rightarrow> ('a list \<times> bytes) option" where
  "get_all g bs = get_list g (length bs) bs"

lemma get_all_put_list [simp]:
  "(\<And>x r. x \<in> set xs \<Longrightarrow> g (p x @ r) = Some (x, r)) \<Longrightarrow> get_all g (put_list p xs @ r) = Some (xs, r)"
  using get_put_list [of xs g p] length_put_list [of xs p r] by (simp add: get_all_def)

lemma get_put_char [simp]: "get_char (put_char c @ r) = Some (c, r)"
  by (simp add: get_char_def put_char_def)

lemma get_put_byte [simp]: "get_byte (put_byte b @ r) = Some (b, r)"
  by (simp add: get_byte_def put_byte_def)

definition put_str :: "string \<Rightarrow> bytes" where "put_str = put_list put_char"
definition get_str :: "bytes \<Rightarrow> (string \<times> bytes) option" where "get_str = get_all get_char"
definition put_blob :: "bytes \<Rightarrow> bytes" where "put_blob = put_list put_byte"
definition get_blob :: "bytes \<Rightarrow> (bytes \<times> bytes) option" where "get_blob = get_all get_byte"

lemma get_put_str [simp]: "get_str (put_str s @ r) = Some (s, r)"
  by (simp add: get_str_def put_str_def)

lemma get_put_blob [simp]: "get_blob (put_blob s @ r) = Some (s, r)"
  by (simp add: get_blob_def put_blob_def)

definition put_nat :: "nat \<Rightarrow> bytes" where "put_nat n = put_list (\<lambda>_. []) (replicate n ())"
definition get_nat :: "bytes \<Rightarrow> (nat \<times> bytes) option" where
  "get_nat bs = map_option (apfst length) (get_all (\<lambda>bs. Some ((), bs)) bs)"

lemma get_put_nat [simp]: "get_nat (put_nat n @ r) = Some (n, r)"
  by (simp add: get_nat_def put_nat_def)

definition put_att :: "attestation \<Rightarrow> bytes" where
  "put_att a = put_str (store_path a) @ put_blob (nar_hash a) @ put_nat (nar_size a) @
     put_list put_str (refs a) @ put_str (ca a) @ put_list put_str (sigs a)"

definition get_att :: "bytes \<Rightarrow> (attestation \<times> bytes) option" where
  "get_att bs =
     (case get_str bs of None \<Rightarrow> None | Some (p, bs) \<Rightarrow>
      case get_blob bs of None \<Rightarrow> None | Some (h, bs) \<Rightarrow>
      case get_nat bs of None \<Rightarrow> None | Some (n, bs) \<Rightarrow>
      case get_all get_str bs of None \<Rightarrow> None | Some (rs, bs) \<Rightarrow>
      case get_str bs of None \<Rightarrow> None | Some (c, bs) \<Rightarrow>
      case get_all get_str bs of None \<Rightarrow> None | Some (ss, bs) \<Rightarrow>
        Some (\<lparr>store_path = p, nar_hash = h, nar_size = n, refs = rs, ca = c, sigs = ss\<rparr>, bs))"

lemma get_put_att [simp]: "get_att (put_att a @ r) = Some (a, r)"
  by (simp add: get_att_def put_att_def)

definition put_event :: "event \<Rightarrow> bytes" where
  "put_event e = put_nat (ev_seq e) @
     (case ev_op e of None \<Rightarrow> [0] | Some (Have h) \<Rightarrow> 1 # put_blob h
        | Some (Drop h) \<Rightarrow> 2 # put_blob h | Some (Attest a) \<Rightarrow> 3 # put_att a)"

definition get_event :: "bytes \<Rightarrow> event option" where
  "get_event bs =
     (case get_nat bs of None \<Rightarrow> None | Some (n, bs) \<Rightarrow>
      case bs of [] \<Rightarrow> None | b # bs \<Rightarrow>
        map_option (\<lambda>x. \<lparr>ev_seq = n, ev_op = x\<rparr>)
          (if b = 0 then Some None
           else if b = 1 then map_option (Some \<circ> Have \<circ> fst) (get_blob bs)
           else if b = 2 then map_option (Some \<circ> Drop \<circ> fst) (get_blob bs)
           else map_option (Some \<circ> Attest \<circ> fst) (get_att bs)))"

lemma get_put_event: "get_event (put_event e) = Some e"
proof -
  have [simp]: "get_blob (put_blob h) = Some (h, [])" for h
    using get_put_blob [of h "[]"] by simp
  have [simp]: "get_att (put_att a) = Some (a, [])" for a
    using get_put_att [of a "[]"] by simp
  show ?thesis
    by (simp add: get_event_def put_event_def split: option.splits op.splits)
qed

text \<open>The digest of the instance: the bytes read as a number in base 257, cut to 32 bytes.\<close>

definition sum32 :: "bytes \<Rightarrow> bytes" where
  "sum32 bs = le_bytes 32 (foldl (\<lambda>a b. a * 257 + unat b + 1) 7 bs)"

definition plain_codec :: codec where
  "plain_codec = \<lparr>enc_event = put_event, dec_event = get_event, enc_att = put_att,
     dec_att = (\<lambda>bs. map_option fst (get_att bs)), b3 = sum32\<rparr>"

interpretation plain: wire_codec plain_codec
proof
  show "dec_event plain_codec (enc_event plain_codec e) = Some e" for e
    by (simp add: plain_codec_def get_put_event)
  show "dec_att plain_codec (enc_att plain_codec a) = Some a" for a
    using get_put_att [of a "[]"] by (simp add: plain_codec_def)
  show "length (b3 plain_codec bs) = 32" for bs
    by (simp add: plain_codec_def sum32_def)
qed

end
