(* ===== verification/Facts.thy ===== *)
theory Facts
  imports Wire
begin

text \<open>
  The fact table's algebra (\<open>src/store/mod.rs\<close>): the identity and canonical form of an
  attestation, its hash and Merkle leaf, the total order on bodies and \<open>merge_into\<close>. The
  locale \<open>join_laws\<close> is the contract reconciliation rests on (merging is associative,
  commutative and idempotent), its lemmas say that the result of many merges depends only
  on the set merged; it is interpreted on \<open>join_att\<close>, the merge of the code.
\<close>

section \<open>Identity and canonical form\<close>

definition rsplit_last :: "char \<Rightarrow> string \<Rightarrow> string" where
  "rsplit_last c s = rev (takeWhile (\<lambda>x. x \<noteq> c) (rev s))"

text \<open>\<open>str::get(..n)\<close>: the first \<open>n\<close> bytes, if there are so many and \<open>n\<close> is a character boundary.\<close>

definition is_char_boundary :: "string \<Rightarrow> nat \<Rightarrow> bool" where
  "is_char_boundary s n \<longleftrightarrow> n = 0 \<or> n = length s \<or>
     (n < length s \<and> \<not> (128 \<le> (of_char (s ! n) :: nat) \<and> (of_char (s ! n) :: nat) < 192))"

definition get_prefix :: "nat \<Rightarrow> string \<Rightarrow> string option" where
  "get_prefix n s = (if n \<le> length s \<and> is_char_boundary s n then Some (take n s) else None)"

definition hash_part_of :: "string \<Rightarrow> string" where
  "hash_part_of p = (case get_prefix 32 (rsplit_last (CHR ''/'') p) of None \<Rightarrow> [] | Some h \<Rightarrow> h)"

definition canonicalize :: "attestation \<Rightarrow> attestation" where
  "canonicalize a = a\<lparr>sigs := remdups_adj (sort (sigs a))\<rparr>"

definition path_key_of :: "attestation \<Rightarrow> bytes" where
  "path_key_of a = bytes_of (hash_part_of (store_path a)) @ nar_hash a"

definition attestation_hash :: "codec \<Rightarrow> attestation \<Rightarrow> bytes" where
  "attestation_hash C a = take 16 (b3 C (path_key_of a @ enc_att C a))"

definition leaf_of :: "bytes \<Rightarrow> nat" where
  "leaf_of h = unat (h ! 0) * 256 + unat (h ! 1)"

section \<open>The order on bodies and the merge\<close>

datatype ordering = Less | Equal | Greater

definition cmp :: "'a::linorder \<Rightarrow> 'a \<Rightarrow> ordering" where
  "cmp x y = (if x < y then Less else if x = y then Equal else Greater)"

definition then_with :: "ordering \<Rightarrow> ordering \<Rightarrow> ordering" where
  "then_with o1 o2 = (if o1 = Equal then o2 else o1)"

definition body_cmp :: "attestation \<Rightarrow> attestation \<Rightarrow> ordering" where
  "body_cmp a b =
     then_with (then_with (then_with (cmp (store_path a) (store_path b))
       (cmp (nar_size a) (nar_size b))) (cmp (refs a) (refs b))) (cmp (ca a) (ca b))"

definition merge_into :: "attestation option \<Rightarrow> attestation \<Rightarrow> attestation option" where
  "merge_into existing incoming =
     (case existing of
        None \<Rightarrow> Some (canonicalize incoming)
      | Some cur \<Rightarrow>
          (let before = cur;
               cur = canonicalize cur;
               cur = cur\<lparr>sigs := sigs cur @ sigs incoming\<rparr>;
               cur = canonicalize cur;
               cur = (if body_cmp incoming cur = Greater
                      then cur\<lparr>store_path := store_path incoming, nar_size := nar_size incoming,
                               refs := refs incoming, ca := ca incoming\<rparr>
                      else cur)
           in if cur \<noteq> before then Some cur else None))"

text \<open>The value a row has after a merge: the merged attestation, or the old one when unchanged.\<close>

definition join_att :: "attestation \<Rightarrow> attestation \<Rightarrow> attestation" where
  "join_att cur incoming = (case merge_into (Some cur) incoming of None \<Rightarrow> cur | Some m \<Rightarrow> m)"

definition canonical :: "attestation \<Rightarrow> bool" where
  "canonical a \<longleftrightarrow> canonicalize a = a"

subsection \<open>Facts about the parts\<close>

definition body_key :: "attestation \<Rightarrow> string \<times> nat \<times> string list \<times> string" where
  "body_key a = (store_path a, nar_size a, refs a, ca a)"

lemma cmp_simps [simp]:
  "cmp x y = Greater \<longleftrightarrow> y < x" "cmp x y = Equal \<longleftrightarrow> x = y" "cmp x y = Less \<longleftrightarrow> x < y"
  by (auto simp: cmp_def)

lemma body_cmp_Greater: "body_cmp a b = Greater \<longleftrightarrow> body_key b < body_key a"
  by (auto simp: body_cmp_def then_with_def body_key_def)

lemma distinct_remdups_adj_sorted: "sorted xs \<Longrightarrow> distinct (remdups_adj xs)"
  by (induction xs rule: remdups_adj.induct) (auto simp: less_le)

lemma canonical_sigs: "remdups_adj (sort xs) = sorted_list_of_set (set xs)" for xs :: "string list"
proof (rule sorted_distinct_set_unique)
  show "distinct (remdups_adj (sort xs))"
    by (simp add: distinct_remdups_adj_sorted)
qed (simp_all add: sorted_remdups_adj)

lemma canonicalize_alt: "canonicalize a = a\<lparr>sigs := sorted_list_of_set (set (sigs a))\<rparr>"
  by (simp add: canonicalize_def canonical_sigs)

lemma canonical_canonicalize [simp]: "canonical (canonicalize a)"
  by (simp add: canonical_def canonicalize_alt)

lemma canonical_iff: "canonical a \<longleftrightarrow> sigs a = sorted_list_of_set (set (sigs a))"
  by (cases a) (auto simp: canonical_def canonicalize_alt)

lemma canonicalize_fields [simp]:
  "store_path (canonicalize a) = store_path a" "nar_hash (canonicalize a) = nar_hash a"
  "nar_size (canonicalize a) = nar_size a" "refs (canonicalize a) = refs a"
  "ca (canonicalize a) = ca a" "set (sigs (canonicalize a)) = set (sigs a)"
  "path_key_of (canonicalize a) = path_key_of a" "body_key (canonicalize a) = body_key a"
  by (simp_all add: canonicalize_alt path_key_of_def body_key_def)

text \<open>The join, written without the bookkeeping of the code.\<close>

definition max_body :: "attestation \<Rightarrow> attestation \<Rightarrow> attestation" where
  "max_body a b = (if body_key a < body_key b then b else a)"

lemma join_att_eq:
  "join_att a b = (max_body a b)\<lparr>nar_hash := nar_hash a,
     sigs := sorted_list_of_set (set (sigs a) \<union> set (sigs b))\<rparr>"
proof -
  have "join_att a b =
     (let cur = a\<lparr>sigs := sorted_list_of_set (set (sigs a) \<union> set (sigs b))\<rparr>
      in if body_key cur < body_key b
         then cur\<lparr>store_path := store_path b, nar_size := nar_size b, refs := refs b, ca := ca b\<rparr>
         else cur)"
    by (auto simp: join_att_def merge_into_def Let_def body_cmp_Greater canonicalize_alt)
  moreover have "body_key (a\<lparr>sigs := xs\<rparr>) = body_key a" for xs
    by (simp add: body_key_def)
  ultimately show ?thesis
    by (auto simp: Let_def max_body_def intro!: attestation.equality)
qed


lemma join_att_fields [simp]:
  "nar_hash (join_att a b) = nar_hash a"
  "set (sigs (join_att a b)) = set (sigs a) \<union> set (sigs b)"
  "body_key (join_att a b) = max (body_key a) (body_key b)"
  "canonical (join_att a b)"
  by (auto simp: join_att_eq max_body_def body_key_def canonical_iff max_def)

lemma body_key_eqI:
  "body_key a = body_key b \<Longrightarrow> nar_hash a = nar_hash b \<Longrightarrow> set (sigs a) = set (sigs b) \<Longrightarrow>
   canonical a \<Longrightarrow> canonical b \<Longrightarrow> a = b"
  by (rule attestation.equality) (auto simp: body_key_def canonical_iff)

lemma merge_into_None [simp]: "merge_into None b = Some (canonicalize b)"
  by (simp add: merge_into_def)

lemma merge_into_Some: "merge_into (Some a) b = (if join_att a b = a then None else Some (join_att a b))"
  by (auto simp: join_att_def merge_into_def Let_def split: option.splits)

lemma merge_into_changed: "merge_into (Some a) b = Some m \<Longrightarrow> m = join_att a b \<and> m \<noteq> a"
  by (auto simp: merge_into_Some split: if_splits)

section \<open>Merging as a join\<close>

text \<open>
  What reconciliation relies on: on the values that can share a row the merge is a join,
  so the outcome of merging many facts depends on the set of facts only.
\<close>

locale join_laws =
  fixes join :: "'a \<Rightarrow> 'a \<Rightarrow> 'a" and same :: "'a \<Rightarrow> 'a \<Rightarrow> bool"
  assumes same_refl: "same a b \<Longrightarrow> same a a"
    and same_sym: "same a b \<Longrightarrow> same b a"
    and same_trans: "same a b \<Longrightarrow> same b c \<Longrightarrow> same a c"
    and same_join: "same a b \<Longrightarrow> same a (join a b)"
    and join_idem: "same a a \<Longrightarrow> join a a = a"
    and join_commute: "same a b \<Longrightarrow> join a b = join b a"
    and join_assoc: "same a b \<Longrightarrow> same b c \<Longrightarrow> join (join a b) c = join a (join b c)"
begin

lemma same_joinL: "same a b \<Longrightarrow> same a c \<Longrightarrow> same (join a b) c"
  by (meson same_join same_sym same_trans)

lemma same_join_self: "same a b \<Longrightarrow> same (join a b) (join a b)"
  by (meson same_joinL same_join)

lemma same_fold: "(\<And>x. x \<in> set xs \<Longrightarrow> same a x) \<Longrightarrow> same a a \<Longrightarrow> same a (foldl join a xs)"
proof (induction xs rule: rev_induct)
  case (snoc x xs)
  then have "same a (foldl join a xs)" and "same a x" by auto
  then show ?case
    by (simp, meson same_join same_sym same_trans)
qed simp

lemma join_absorb: "same a b \<Longrightarrow> join (join a b) b = join a b"
  by (metis join_assoc join_idem same_sym same_refl)

lemma join_left_commute:
  "same a b \<Longrightarrow> same a c \<Longrightarrow> join (join a b) c = join (join a c) b"
  by (metis join_assoc join_commute same_sym same_trans)

lemma foldl_join_out:
  "same a a \<Longrightarrow> same a b \<Longrightarrow> (\<And>x. x \<in> set xs \<Longrightarrow> same a x) \<Longrightarrow>
   foldl join (join a b) xs = join (foldl join a xs) b"
proof (induction xs arbitrary: a)
  case (Cons x xs)
  then have ax: "same a x" by simp
  have "foldl join (join a b) (x # xs) = foldl join (join (join a x) b) xs"
    using Cons.prems ax by (simp add: join_left_commute)
  also have "\<dots> = join (foldl join (join a x) xs) b"
    using Cons.prems ax by (intro Cons.IH) (auto intro: same_joinL same_join_self)
  finally show ?case by simp
qed simp

lemma foldl_join_remove:
  "same a a \<Longrightarrow> b \<in> set xs \<Longrightarrow> (\<And>x. x \<in> set xs \<Longrightarrow> same a x) \<Longrightarrow>
   foldl join a xs = join (foldl join a (removeAll b xs)) b"
proof (induction xs arbitrary: a)
  case (Cons x xs)
  have "same a x" using Cons.prems by simp
  then have ax: "same a x" "same (join a x) (join a x)"
    by (blast, rule same_join_self)
  have ax': "same (join a x) y" if "y \<in> set xs" for y
    using ax(1) Cons.prems(3) that by (simp add: same_joinL)
  have ab: "same a b" using Cons.prems by auto
  show ?case
  proof (cases "b \<in> set xs")
    case True
    have IH: "foldl join (join a x) xs = join (foldl join (join a x) (removeAll b xs)) b"
      using Cons.IH [OF ax(2) True ax'] .
    show ?thesis
    proof (cases "x = b")
      case True
      have "join (foldl join (join a b) (removeAll b xs)) b = foldl join (join (join a b) b) (removeAll b xs)"
        using True ax ax' ab by (intro foldl_join_out [symmetric]) (auto intro: same_joinL)
      also have "\<dots> = join (foldl join a (removeAll b xs)) b"
        using Cons.prems ab by (simp add: join_absorb) (intro foldl_join_out, auto)
      finally show ?thesis using IH True by simp
    qed (use IH in simp)
  next
    case False
    then have "x = b" and "removeAll b xs = xs" using Cons.prems by auto
    then show ?thesis using Cons.prems by (simp add: foldl_join_out)
  qed
qed simp

text \<open>Order and repetition of the merged values do not matter.\<close>

lemma foldl_join_set:
  assumes "same a a" and "\<And>x. x \<in> set xs \<Longrightarrow> same a x" and "set xs = set ys"
  shows "foldl join a xs = foldl join a ys"
  using assms(2,3)
proof (induction xs arbitrary: ys rule: length_induct)
  case (1 xs)
  show ?case
  proof (cases xs)
    case Nil
    then show ?thesis using "1.prems" by simp
  next
    case (Cons b bs)
    let ?xs = "removeAll b xs" and ?ys = "removeAll b ys"
    have b: "b \<in> set xs" "b \<in> set ys" using Cons "1.prems"(2) by auto
    have ys: "\<And>y. y \<in> set ys \<Longrightarrow> same a y" using "1.prems" by blast
    have "foldl join a ?xs = foldl join a ?ys"
    proof (rule "1.IH" [rule_format])
      show "length ?xs < length xs" using b(1) by (rule length_removeAll_less)
      show "\<And>x. x \<in> set ?xs \<Longrightarrow> same a x" using "1.prems"(1) by simp
      show "set ?xs = set ?ys" using "1.prems"(2) by simp
    qed
    moreover have "foldl join a xs = join (foldl join a ?xs) b"
      by (rule foldl_join_remove [OF assms(1) b(1) "1.prems"(1)])
    moreover have "foldl join a ys = join (foldl join a ?ys) b"
      by (rule foldl_join_remove [OF assms(1) b(2) ys])
    ultimately show ?thesis by simp
  qed
qed

lemma foldl1_join_set:
  assumes all: "\<And>u v. u \<in> set (x # xs) \<Longrightarrow> v \<in> set (x # xs) \<Longrightarrow> same u v"
    and eq: "set (x # xs) = set (y # ys)"
  shows "foldl join x xs = foldl join y ys"
proof -
  have xx: "same x x" and xy: "same x y" and yy: "same y y" and yx: "same y x"
    using all eq by (metis list.set_intros(1))+
  have yall: "same y w" if "w \<in> set (x # y # ys)" for w
    using all eq that by (metis list.set_intros(1) set_ConsD)
  have "foldl join x xs = foldl join x (x # xs)" using xx by (simp add: join_idem)
  also have "\<dots> = foldl join x (y # ys)"
    by (rule foldl_join_set [OF xx]) (use all eq in auto)
  also have "\<dots> = foldl join y (y # x # ys)"
    using yy by (simp add: join_idem join_commute [OF xy])
  also have "\<dots> = foldl join y (y # ys)"
    by (rule foldl_join_set [OF yy]) (use yall eq in auto)
  also have "\<dots> = foldl join y ys" using yy by (simp add: join_idem)
  finally show ?thesis .
qed

end

text \<open>Two facts that share a row: canonical, with one identity.\<close>

definition same_fact :: "attestation \<Rightarrow> attestation \<Rightarrow> bool" where
  "same_fact a b \<longleftrightarrow> canonical a \<and> canonical b \<and> nar_hash a = nar_hash b \<and>
     hash_part_of (store_path a) = hash_part_of (store_path b)"

lemma store_path_join: "store_path (join_att a b) \<in> {store_path a, store_path b}"
  by (simp add: join_att_eq max_body_def)

interpretation fact: join_laws join_att same_fact
proof
  fix a b c
  show "same_fact a b \<Longrightarrow> same_fact a a" "same_fact a b \<Longrightarrow> same_fact b a"
    by (auto simp: same_fact_def)
  show "same_fact a b \<Longrightarrow> same_fact b c \<Longrightarrow> same_fact a c"
    by (auto simp: same_fact_def)
  show "same_fact a b \<Longrightarrow> same_fact a (join_att a b)"
    using store_path_join [of a b] by (auto simp: same_fact_def)
  show "same_fact a a \<Longrightarrow> join_att a a = a"
    by (intro body_key_eqI) (auto simp: same_fact_def)
  show "same_fact a b \<Longrightarrow> join_att a b = join_att b a"
    by (intro body_key_eqI) (auto simp: same_fact_def max.commute)
  show "same_fact a b \<Longrightarrow> same_fact b c \<Longrightarrow> join_att (join_att a b) c = join_att a (join_att b c)"
    by (intro body_key_eqI) (auto simp: same_fact_def max.assoc)
qed


section \<open>The row of an identity after a sequence of merges\<close>

text \<open>What a backend does with one row: store the merged value, or leave it when unchanged.\<close>

definition row_merge :: "attestation option \<Rightarrow> attestation \<Rightarrow> attestation option" where
  "row_merge row incoming = (case merge_into row incoming of None \<Rightarrow> row | Some m \<Rightarrow> Some m)"

lemma row_merge_simps [simp]:
  "row_merge None b = Some (canonicalize b)"
  "row_merge (Some a) b = Some (join_att a b)"
  by (auto simp: row_merge_def join_att_def split: option.splits)

lemma join_att_canonicalize [simp]: "join_att a (canonicalize b) = join_att a b"
  by (auto simp: join_att_eq max_body_def intro!: attestation.equality)

lemma foldl_row_merge_Some:
  "foldl row_merge (Some a) xs = Some (foldl join_att a (map canonicalize xs))"
  by (induction xs arbitrary: a) auto

lemma row_merge_canonical: "row_merge None b = row_merge None (canonicalize b)"
  by (simp add: canonicalize_alt)

lemma bytes_append_eq_length:
  "length u = length v \<Longrightarrow> s @ u = t @ v \<longleftrightarrow> s = t \<and> u = v"
  by simp

lemma path_key_inject:
  "length (nar_hash a) = length (nar_hash b) \<Longrightarrow> path_key_of a = path_key_of b \<longleftrightarrow>
     nar_hash a = nar_hash b \<and> hash_part_of (store_path a) = hash_part_of (store_path b)"
  by (auto simp: path_key_of_def)

lemma same_fact_canonicalize:
  "length (nar_hash a) = 32 \<Longrightarrow> length (nar_hash b) = 32 \<Longrightarrow> path_key_of a = path_key_of b \<Longrightarrow>
   same_fact (canonicalize a) (canonicalize b)"
  by (simp add: same_fact_def path_key_inject)

lemma foldl_row_merge_Cons:
  "foldl row_merge None (x # xs) = Some (foldl join_att (canonicalize x) (map canonicalize xs))"
  by (simp add: foldl_row_merge_Some)

lemma row_merges_set:
  assumes id: "\<And>a. a \<in> set xs \<Longrightarrow> path_key_of a = k \<and> length (nar_hash a) = 32"
    and eq: "set xs = set ys"
  shows "foldl row_merge None xs = foldl row_merge None ys"
proof (cases xs)
  case Nil
  with eq show ?thesis by simp
next
  case (Cons x xs')
  with eq obtain y ys' where ys: "ys = y # ys'" by (cases ys) auto
  have "foldl join_att (canonicalize x) (map canonicalize xs') =
      foldl join_att (canonicalize y) (map canonicalize ys')"
  proof (rule fact.foldl1_join_set)
    show "set (canonicalize x # map canonicalize xs') = set (canonicalize y # map canonicalize ys')"
      using eq by (metis Cons ys list.map(2) set_map)
    show "same_fact u v" if "u \<in> set (canonicalize x # map canonicalize xs')"
      "v \<in> set (canonicalize x # map canonicalize xs')" for u v
      using that id Cons by (auto intro!: same_fact_canonicalize)
  qed
  then show ?thesis by (simp add: Cons ys foldl_row_merge_Some)
qed

text \<open>
  C32: the row a fact ends up with depends only on the set of attestations merged into it:
  reordering them, repeating some, or receiving them from different peers gives the same
  row, signatures and body included.
\<close>

theorem merge_order_irrelevant:
  assumes "\<forall>a \<in> set xs. path_key_of a = k \<and> length (nar_hash a) = 32"
    and "set xs = set ys"
  shows "foldl row_merge None xs = foldl row_merge None ys"
  using assms by (intro row_merges_set) auto

definition demo_att :: "string list \<Rightarrow> nat \<Rightarrow> attestation" where
  "demo_att ss n = \<lparr>store_path = ''/nix/store/aaaaaaaaaaaaaaaaaaaaaaaaaaaaaaaa-x'',
     nar_hash = replicate 32 7, nar_size = n, refs = [], ca = [], sigs = ss\<rparr>"

lemma merge_order_irrelevant_witness:
  "foldl row_merge None [demo_att [''b:2''] 1, demo_att [''a:1''] 2, demo_att [''b:2''] 1]
   = foldl row_merge None [demo_att [''a:1''] 2, demo_att [''b:2''] 1]"
  by (rule merge_order_irrelevant [of _ "path_key_of (demo_att [] 0)"])
    (auto simp: path_key_of_def demo_att_def)

text \<open>
  merging into a stored (canonical) fact reports a change exactly when the incoming one
  carries a signature the row lacks or a larger body; the new row has the union of the
  signatures, sorted without repetition, and the larger of the two bodies.
\<close>

theorem merge_into_stored:
  assumes "canonical cur"
  shows "(merge_into (Some cur) inc = None \<longleftrightarrow>
            set (sigs inc) \<subseteq> set (sigs cur) \<and> body_key inc \<le> body_key cur)
    \<and> (\<forall>m. merge_into (Some cur) inc = Some m \<longrightarrow>
            sigs m = sorted_list_of_set (set (sigs cur) \<union> set (sigs inc))
          \<and> body_key m = max (body_key cur) (body_key inc)
          \<and> nar_hash m = nar_hash cur)"
proof -
  have "join_att cur inc = cur \<longleftrightarrow> set (sigs inc) \<subseteq> set (sigs cur) \<and> body_key inc \<le> body_key cur"
  proof
    assume "join_att cur inc = cur"
    then show "set (sigs inc) \<subseteq> set (sigs cur) \<and> body_key inc \<le> body_key cur"
      by (metis join_att_fields(2,3) sup.cobounded2 max.cobounded2)
  next
    assume "set (sigs inc) \<subseteq> set (sigs cur) \<and> body_key inc \<le> body_key cur"
    then show "join_att cur inc = cur"
      using assms by (intro body_key_eqI) (auto simp: max_def)
  qed
  moreover have "sigs (join_att cur inc) = sorted_list_of_set (set (sigs cur) \<union> set (sigs inc))"
    by (simp add: join_att_eq)
  ultimately show ?thesis by (auto simp: merge_into_Some split: if_splits)
qed

lemma merge_into_stored_witness:
  "canonical (demo_att [''a:1''] 1) \<and>
   merge_into (Some (demo_att [''a:1''] 1)) (demo_att [''b:2''] 0) \<noteq> None"
proof -
  have c: "canonical (demo_att [''a:1''] 1)" by (simp add: canonical_iff demo_att_def)
  show ?thesis
    using c merge_into_stored [OF c, of "demo_att [''b:2''] 0"] by (simp add: demo_att_def)
qed

end
