(* ===== verification/Merkle.thy ===== *)
theory Merkle
  imports Facts "HOL-Library.Multiset"
begin

text \<open>
  The Merkle aggregates of the fact table (\<open>Aggregates\<close> in \<open>src/store/rocks.rs\<close>): a root,
  256 coarse cells and lazily created blocks of 256 leaves, all maintained by XOR-ing one
  attestation hash in or out. The abstraction \<open>xor_all\<close> is the XOR of a list of hashes;
  the lemmas show that each cell is the XOR of the hashes below it, whatever the order of
  the updates, and that folding a hash twice cancels.
\<close>

section \<open>XOR of 16-byte values\<close>

definition zero16 :: bytes where
  "zero16 = replicate 16 0"

definition xor_into :: "bytes \<Rightarrow> bytes \<Rightarrow> bytes" where
  "xor_into dst src = map2 (XOR) dst src"

lemma length_zero16 [simp]: "length zero16 = 16"
  by (simp add: zero16_def)

lemma length_xor_into [simp]: "length (xor_into a b) = min (length a) (length b)"
  by (simp add: xor_into_def)

lemma xor_into_commute: "xor_into a b = xor_into b a"
  by (auto simp: xor_into_def intro!: nth_equalityI) (simp add: xor.commute)

lemma xor_into_assoc: "xor_into (xor_into a b) c = xor_into a (xor_into b c)"
  by (auto simp: xor_into_def intro!: nth_equalityI) (simp add: xor.assoc)

lemma xor_into_left_commute: "xor_into a (xor_into b c) = xor_into b (xor_into a c)"
  by (metis xor_into_assoc xor_into_commute)

lemmas xor_into_ac = xor_into_assoc xor_into_commute xor_into_left_commute

lemma xor_into_zero [simp]: "length a = 16 \<Longrightarrow> xor_into a zero16 = a" "length a = 16 \<Longrightarrow> xor_into zero16 a = a"
  by (auto simp: xor_into_def zero16_def intro!: nth_equalityI)

lemma xor_into_self [simp]: "length a = 16 \<Longrightarrow> xor_into a a = zero16"
  by (auto simp: xor_into_def zero16_def intro!: nth_equalityI)

lemma xor_into_cancel [simp]:
  "length a = 16 \<Longrightarrow> length b = 16 \<Longrightarrow> xor_into (xor_into a b) b = a"
  by (simp add: xor_into_assoc)

definition xor_all :: "bytes list \<Rightarrow> bytes" where
  "xor_all hs = foldr xor_into hs zero16"

lemma xor_all_simps [simp]: "xor_all [] = zero16" "xor_all (h # hs) = xor_into h (xor_all hs)"
  by (simp_all add: xor_all_def)

lemma length_xor_all [simp]: "(\<And>h. h \<in> set hs \<Longrightarrow> length h = 16) \<Longrightarrow> length (xor_all hs) = 16"
  by (induction hs) auto

lemma xor_all_append:
  "(\<And>h. h \<in> set (hs @ gs) \<Longrightarrow> length h = 16) \<Longrightarrow> xor_all (hs @ gs) = xor_into (xor_all hs) (xor_all gs)"
  by (induction hs) (auto simp: xor_into_assoc)

lemma xor_all_remove1:
  "h \<in> set hs \<Longrightarrow> xor_all hs = xor_into h (xor_all (remove1 h hs))"
  by (induction hs) (auto simp: xor_into_ac)

text \<open>Order does not matter.\<close>

lemma xor_all_perm: "mset hs = mset gs \<Longrightarrow> xor_all hs = xor_all gs"
proof (induction hs arbitrary: gs)
  case (Cons h hs)
  then have "h \<in> set gs" by (metis list.set_intros(1) mset_eq_setD)
  moreover have "mset hs = mset (remove1 h gs)" using Cons.prems by (metis mset.simps(2) add_mset_remove_trivial mset_remove1)
  ultimately have "xor_all hs = xor_all (remove1 h gs)" by (intro Cons.IH)
  then show ?case using xor_all_remove1 [OF \<open>h \<in> set gs\<close>] by simp
qed simp

section \<open>The aggregates\<close>

record aggregates =
  ag_blocks :: "bytes list option list"
  ag_coarse :: "bytes list"
  ag_root :: bytes

definition agg_new :: aggregates where
  "agg_new = \<lparr>ag_blocks = replicate 256 None, ag_coarse = replicate 256 zero16, ag_root = zero16\<rparr>"

definition agg_xor :: "bytes \<Rightarrow> aggregates \<Rightarrow> aggregates" where
  "agg_xor h a =
     (let leaf = leaf_of h; block = leaf div 256; slot = leaf mod 256;
          cells = (case ag_blocks a ! block of None \<Rightarrow> replicate 256 zero16 | Some c \<Rightarrow> c)
      in a\<lparr>ag_blocks := (ag_blocks a)[block := Some (cells[slot := xor_into (cells ! slot) h])],
           ag_coarse := (ag_coarse a)[block := xor_into (ag_coarse a ! block) h],
           ag_root := xor_into (ag_root a) h\<rparr>)"

definition agg_leaves :: "aggregates \<Rightarrow> nat \<Rightarrow> bytes list" where
  "agg_leaves a block =
     (case ag_blocks a ! block of Some cells \<Rightarrow> cells | None \<Rightarrow> replicate 256 zero16)"

text \<open>What the cells must be for a list of hashes.\<close>

definition under_block :: "nat \<Rightarrow> bytes list \<Rightarrow> bytes list" where
  "under_block b hs = filter (\<lambda>h. leaf_of h div 256 = b) hs"

definition under_leaf :: "nat \<Rightarrow> nat \<Rightarrow> bytes list \<Rightarrow> bytes list" where
  "under_leaf b s hs = filter (\<lambda>h. leaf_of h div 256 = b \<and> leaf_of h mod 256 = s) hs"

definition agg_of :: "aggregates \<Rightarrow> bytes list \<Rightarrow> bool" where
  "agg_of a hs \<longleftrightarrow>
     length (ag_blocks a) = 256 \<and> length (ag_coarse a) = 256 \<and>
     (\<forall>b<256. length (agg_leaves a b) = 256) \<and>
     ag_root a = xor_all hs \<and>
     (\<forall>b<256. ag_coarse a ! b = xor_all (under_block b hs)) \<and>
     (\<forall>b<256. \<forall>s<256. agg_leaves a b ! s = xor_all (under_leaf b s hs))"

lemma agg_of_new [simp]: "agg_of agg_new []"
  by (simp add: agg_of_def agg_new_def agg_leaves_def under_block_def under_leaf_def)

lemma leaf_of_lt: "leaf_of h div 256 < 256" "leaf_of h mod 256 < 256"
proof -
  have "unat (h ! 0) < 256" "unat (h ! 1) < 256"
    using unsigned_less [of "h ! 0"] unsigned_less [of "h ! 1"] by simp_all
  then show "leaf_of h div 256 < 256" by (simp add: leaf_of_def)
  show "leaf_of h mod 256 < 256" by simp
qed

lemma agg_of_xor:
  assumes "agg_of a hs"
  shows "agg_of (agg_xor h a) (h # hs)"
proof -
  define b s where "b = leaf_of h div 256" and "s = leaf_of h mod 256"
  have bs: "b < 256" "s < 256" using leaf_of_lt by (simp_all add: b_def s_def)
  have eq: "agg_xor h a = a\<lparr>ag_blocks := (ag_blocks a)[b := Some ((agg_leaves a b)[s := xor_into (agg_leaves a b ! s) h])],
           ag_coarse := (ag_coarse a)[b := xor_into (ag_coarse a ! b) h],
           ag_root := xor_into (ag_root a) h\<rparr>"
    by (simp add: agg_xor_def Let_def b_def s_def agg_leaves_def split: option.splits)
  have lv: "agg_leaves (agg_xor h a) b' =
      (if b' = b then (agg_leaves a b)[s := xor_into (agg_leaves a b ! s) h] else agg_leaves a b')"
    if "b' < 256" for b'
    using that assms by (auto simp: eq agg_leaves_def agg_of_def)
  show ?thesis
    using assms bs lv
    by (auto simp: agg_of_def under_block_def under_leaf_def eq b_def [symmetric] s_def [symmetric]
        nth_list_update xor_into_commute)
qed

text \<open>The cells depend on the multiset of hashes only, and a hash folded twice leaves no trace.\<close>

lemma agg_of_perm:
  assumes "agg_of a hs" and "mset hs = mset gs"
  shows "agg_of a gs"
proof -
  have "xor_all (filter P hs) = xor_all (filter P gs)" for P
    using assms(2) by (intro xor_all_perm) (simp add: mset_filter)
  moreover have "xor_all hs = xor_all gs" using assms(2) by (rule xor_all_perm)
  ultimately show ?thesis
    using assms(1) by (simp add: agg_of_def under_block_def under_leaf_def)
qed

lemma agg_of_cancel:
  assumes "agg_of a (h # h # hs)" and "\<And>g. g \<in> set (h # hs) \<Longrightarrow> length g = 16"
  shows "agg_of a hs"
proof -
  have c: "xor_into h (xor_into h g) = g" if "length g = 16" for g
    using assms(2) [of h] that by (simp flip: xor_into_assoc)
  have "length (xor_all (filter P hs)) = 16" for P
    using assms(2) by (intro length_xor_all) auto
  moreover have "length (xor_all hs) = 16"
    using assms(2) by (intro length_xor_all) auto
  ultimately show ?thesis
    using assms(1) by (auto simp: agg_of_def under_block_def under_leaf_def c)
qed

lemma agg_of_remove:
  assumes "agg_of a hs" and "h \<in> set hs" and "\<And>g. g \<in> set hs \<Longrightarrow> length g = 16"
  shows "agg_of (agg_xor h a) (remove1 h hs)"
proof -
  have "agg_of (agg_xor h a) (h # h # remove1 h hs)"
    by (rule agg_of_perm [OF agg_of_xor [OF assms(1)]]) (use assms(2) in simp)
  then show ?thesis
    by (rule agg_of_cancel) (use assms(2,3) in \<open>auto dest: notin_set_remove1\<close>)
qed

text \<open>Rebuilding from scratch, as \<open>rebuild_aggregates\<close> does.\<close>

definition agg_rebuild :: "bytes list \<Rightarrow> aggregates" where
  "agg_rebuild hs = foldl (\<lambda>a h. agg_xor h a) agg_new hs"

lemma agg_of_foldl: "agg_of a gs \<Longrightarrow> agg_of (foldl (\<lambda>a h. agg_xor h a) a hs) (rev hs @ gs)"
  by (induction hs arbitrary: a gs) (auto dest: agg_of_xor)

lemma agg_of_rebuild: "agg_of (agg_rebuild hs) hs"
  unfolding agg_rebuild_def by (rule agg_of_perm [OF agg_of_foldl [OF agg_of_new]]) simp

text \<open>The view a peer sees: the root and the children of each node.\<close>

definition agg_children :: "aggregates \<Rightarrow> bytes \<Rightarrow> bytes list option" where
  "agg_children a prefix =
     (case prefix of [] \<Rightarrow> Some (ag_coarse a)
      | [b] \<Rightarrow> Some (agg_leaves a (unat b))
      | _ \<Rightarrow> None)"

lemma agg_of_children:
  assumes "agg_of a hs" and "agg_of a' hs"
  shows "ag_root a = ag_root a'" and "agg_children a p = agg_children a' p"
proof -
  show "ag_root a = ag_root a'" using assms by (simp add: agg_of_def)
  have "ag_coarse a = ag_coarse a'"
    using assms by (intro nth_equalityI) (auto simp: agg_of_def)
  moreover have "agg_leaves a (unat b) = agg_leaves a' (unat b)" for b :: u8
    using assms unsigned_less [of b, where 'a = nat]
    by (intro nth_equalityI) (auto simp: agg_of_def)
  ultimately show "agg_children a p = agg_children a' p"
    by (simp add: agg_children_def split: list.splits)
qed

lemma xor_under_sum:
  assumes "\<And>h. h \<in> set hs \<Longrightarrow> length h = 16" and "distinct bs"
  shows "xor_all (filter (\<lambda>h. f h \<in> set bs) hs) = xor_all (map (\<lambda>b. xor_all (filter (\<lambda>h. f h = b) hs)) bs)"
  using assms(2)
proof (induction bs)
  case (Cons b bs)
  let ?in = "\<lambda>h. f h = b" and ?rest = "\<lambda>h. f h \<in> set bs"
  have "mset (filter (\<lambda>h. f h \<in> set (b # bs)) hs) = mset (filter ?in hs @ filter ?rest hs)"
    using Cons.prems by (induction hs) auto
  then have "xor_all (filter (\<lambda>h. f h \<in> set (b # bs)) hs) = xor_all (filter ?in hs @ filter ?rest hs)"
    by (rule xor_all_perm)
  also have "\<dots> = xor_into (xor_all (filter ?in hs)) (xor_all (filter ?rest hs))"
    using assms(1) by (intro xor_all_append) auto
  finally show ?case using Cons by simp
qed simp

text \<open>
  C33: after folding any sequence of 16-byte hashes in or out, the root is the XOR of the 256
  coarse cells and each coarse cell is the XOR of its 256 leaves, so a difference between two
  fact sets that shows in the root shows in some coarse cell, and one that shows in a coarse
  cell shows in some leaf below it.
\<close>

theorem merkle_levels_agree:
  assumes "\<forall>h \<in> set hs. length h = 16"
  shows "ag_root (agg_rebuild hs) = xor_all (ag_coarse (agg_rebuild hs))
    \<and> (\<forall>b<256. ag_coarse (agg_rebuild hs) ! b = xor_all (agg_leaves (agg_rebuild hs) b))"
proof -
  let ?a = "agg_rebuild hs"
  note A = agg_of_rebuild [of hs, unfolded agg_of_def under_block_def under_leaf_def]
  have all: "filter (\<lambda>h. leaf_of h div 256 \<in> set [0..<256]) hs = hs"
    using leaf_of_lt(1) by (intro filter_True) simp
  have "ag_coarse ?a = map (\<lambda>b. xor_all (filter (\<lambda>h. leaf_of h div 256 = b) hs)) [0..<256]"
    using A by (intro nth_equalityI) auto
  then have 1: "ag_root ?a = xor_all (ag_coarse ?a)"
    using xor_under_sum [of hs "[0..<256]" "\<lambda>h. leaf_of h div 256"] A assms all by simp
  have "ag_coarse ?a ! b = xor_all (agg_leaves ?a b)" if b: "b < 256" for b
  proof -
    let ?hb = "filter (\<lambda>h. leaf_of h div 256 = b) hs"
    have lv: "agg_leaves ?a b = map (\<lambda>s. xor_all (filter (\<lambda>h. leaf_of h mod 256 = s) ?hb)) [0..<256]"
      using A b by (intro nth_equalityI) (auto simp: conj_commute)
    have allb: "filter (\<lambda>h. leaf_of h mod 256 \<in> set [0..<256]) ?hb = ?hb"
      using leaf_of_lt(2) by (intro filter_True) simp
    have "xor_all ?hb = xor_all (agg_leaves ?a b)"
      using xor_under_sum [of ?hb "[0..<256]" "\<lambda>h. leaf_of h mod 256"] assms lv
      by (simp only: allb) auto
    then show ?thesis using A b by simp
  qed
  with 1 show ?thesis by blast
qed

definition demo_hash :: "nat \<Rightarrow> bytes" where
  "demo_hash n = le_bytes 16 n"

lemma merkle_levels_agree_witness:
  "length (demo_hash 1) = 16 \<and> length (demo_hash 770) = 16 \<and>
   ag_root (agg_rebuild [demo_hash 1, demo_hash 770]) = xor_into (demo_hash 1) (demo_hash 770) \<and>
   xor_all (ag_coarse (agg_rebuild [demo_hash 1, demo_hash 770])) = xor_into (demo_hash 1) (demo_hash 770)"
proof -
  have h: "\<forall>h \<in> set [demo_hash 1, demo_hash 770]. length h = 16" by (simp add: demo_hash_def)
  have r: "ag_root (agg_rebuild [demo_hash 1, demo_hash 770]) = xor_into (demo_hash 1) (demo_hash 770)"
    using agg_of_rebuild [of "[demo_hash 1, demo_hash 770]"] by (simp add: agg_of_def demo_hash_def)
  show ?thesis using h r merkle_levels_agree [OF h] by simp
qed

end
