(* ===== verification/Store.thy ===== *)
theory Store
  imports Facts
begin

text \<open>
  The storage interface of the mesh index (\<open>SyncStore\<close> in \<open>src/store/mod.rs\<close>): the data a
  backend exchanges with the index and its operations as a record of functions over the
  backend's state, the model of \<open>dyn SyncStore\<close>. Operations return a sum, \<open>Inl\<close> for the
  errors the code raises; an operation that writes returns the new state. I/O failures of
  the database engines and the durability flag (which decides about fsync only) are not
  modelled. The contract is the locale \<open>sync_store\<close> in theory \<open>Store_Laws\<close>.
\<close>

section \<open>Results\<close>

datatype err =
    BadOriginName string
  | CorruptClock
  | CorruptAttPath
  | CorruptAttestation
  | CorruptEvent
  | CorruptHolding
  | CorruptSelfGeneration
  | MerkleDepth nat
  | UnexpectedOrigin string
  | SelfApplyRaced

type_synonym 'a res = "err + 'a"

section \<open>The interface\<close>

record clock =
  generation :: nat
  seq :: nat
  tail_seq :: nat

definition clock_default :: clock where
  "clock_default = \<lparr>generation = 0, seq = 0, tail_seq = 0\<rparr>"

datatype hold_op = HAdd bytes | HDrop bytes

fun hold_hash :: "hold_op \<Rightarrow> bytes" where
  "hold_hash (HAdd h) = h" | "hold_hash (HDrop h) = h"

text \<open>The possession set after a batch of changes, in order.\<close>

fun hold_step :: "bytes set \<Rightarrow> hold_op \<Rightarrow> bytes set" where
  "hold_step H (HAdd h) = insert h H"
| "hold_step H (HDrop h) = H - {h}"

type_synonym found_row = "attestation \<times> string list"
type_synonym claim_row = "string \<times> bytes \<times> string list"

record 's store_ops =
  so_meta_get :: "'s \<Rightarrow> string \<Rightarrow> string option res"
  so_meta_put :: "'s \<Rightarrow> string \<Rightarrow> string \<Rightarrow> 's res"
  so_clock :: "'s \<Rightarrow> string \<Rightarrow> clock res"
  so_set_generation :: "'s \<Rightarrow> string \<Rightarrow> nat \<Rightarrow> 's res"
  so_apply_events :: "'s \<Rightarrow> string \<Rightarrow> nat \<times> nat \<Rightarrow> nat \<times> nat \<Rightarrow> (nat \<times> bytes) list \<Rightarrow>
     hold_op list \<Rightarrow> attestation list \<Rightarrow> (bool \<times> 's) res"
  so_replace_holdings :: "'s \<Rightarrow> string \<Rightarrow> nat \<Rightarrow> nat \<Rightarrow> bytes list \<Rightarrow> (bool \<times> 's) res"
  so_merge_attestations :: "'s \<Rightarrow> attestation list \<Rightarrow> (nat \<times> 's) res"
  so_journal_suffix :: "'s \<Rightarrow> string \<Rightarrow> nat \<Rightarrow> nat \<Rightarrow> (bytes list \<times> bool) res"
  so_holdings :: "'s \<Rightarrow> string \<Rightarrow> bytes list res"
  so_attestation_page :: "'s \<Rightarrow> bytes \<Rightarrow> bytes \<Rightarrow> nat \<Rightarrow> (attestation list \<times> bytes option) res"
  so_compact_journal :: "'s \<Rightarrow> string \<Rightarrow> nat \<Rightarrow> 's res"
  so_retain_origins :: "'s \<Rightarrow> string list \<Rightarrow> 's res"
  so_lookup_hash_part :: "'s \<Rightarrow> string \<Rightarrow> found_row list res"
  so_lookup_nar_hash :: "'s \<Rightarrow> bytes \<Rightarrow> found_row list res"
  so_claims :: "'s \<Rightarrow> claim_row list res"
  so_attestation_sigs :: "'s \<Rightarrow> string \<Rightarrow> bytes \<Rightarrow> string list option res"
  so_is_held :: "'s \<Rightarrow> string \<Rightarrow> bytes \<Rightarrow> bool res"
  so_advance_watermark :: "'s \<Rightarrow> string \<Rightarrow> string \<Rightarrow> nat \<Rightarrow> 's res"
  so_watermarks :: "'s \<Rightarrow> (string \<times> string \<times> nat) list res"
  so_origin_stats :: "'s \<Rightarrow> string \<Rightarrow> (nat \<times> nat) res"
  so_count_attestations :: "'s \<Rightarrow> nat res"
  so_merkle_root :: "'s \<Rightarrow> bytes res"
  so_merkle_children :: "'s \<Rightarrow> bytes \<Rightarrow> bytes list res"

end
