(* ===== verification/Kv.thy ===== *)
theory Kv
  imports Prelude
begin

text \<open>
  Ordered tables: the data model of a RocksDB column family as its interface documents it.
  A table is the list of its rows in strictly ascending key order, which is what an
  iterator yields; \<open>kv_put\<close> and \<open>kv_del\<close> keep the order, \<open>kv_from\<close> is an iterator
  positioned by \<open>IteratorMode::From\<close>, \<open>kv_scan\<close> the prefix walk built on it. The lemmas
  relate the walks to the map the table denotes.
\<close>

type_synonym ('k, 'v) kv = "('k \<times> 'v) list"

definition kv_inv :: "('k::linorder, 'v) kv \<Rightarrow> bool" where
  "kv_inv t \<longleftrightarrow> sorted_wrt (<) (map fst t)"

fun kv_put :: "'k::linorder \<Rightarrow> 'v \<Rightarrow> ('k, 'v) kv \<Rightarrow> ('k, 'v) kv" where
  "kv_put k v [] = [(k, v)]"
| "kv_put k v ((k', v') # t) =
     (if k < k' then (k, v) # (k', v') # t
      else if k = k' then (k, v) # t
      else (k', v') # kv_put k v t)"

definition kv_del :: "'k \<Rightarrow> ('k, 'v) kv \<Rightarrow> ('k, 'v) kv" where
  "kv_del k t = filter (\<lambda>(k', v). k' \<noteq> k) t"

definition kv_from :: "'k::linorder \<Rightarrow> ('k, 'v) kv \<Rightarrow> ('k, 'v) kv" where
  "kv_from k t = dropWhile (\<lambda>(k', v). k' < k) t"

definition starts_with :: "'a list \<Rightarrow> 'a list \<Rightarrow> bool" where
  "starts_with p k \<longleftrightarrow> take (length p) k = p"

definition kv_scan :: "('a::linorder) list \<Rightarrow> 'a list \<Rightarrow> ('a list, 'v) kv \<Rightarrow> ('a list, 'v) kv" where
  "kv_scan from p t = takeWhile (\<lambda>(k, v). starts_with p k) (kv_from from t)"

section \<open>Tables as maps\<close>

lemma kv_inv_Nil [simp]: "kv_inv []"
  by (simp add: kv_inv_def)

lemma kv_inv_Cons: "kv_inv ((k, v) # t) \<longleftrightarrow> (\<forall>k'\<in>fst ` set t. k < k') \<and> kv_inv t"
  by (auto simp: kv_inv_def)

lemma set_kv_put: "fst ` set (kv_put k v t) = insert k (fst ` set t)"
  by (induction k v t rule: kv_put.induct) auto

lemma kv_inv_put [simp]: "kv_inv t \<Longrightarrow> kv_inv (kv_put k v t)"
proof (induction k v t rule: kv_put.induct)
  case (2 k v k' v' t)
  then show ?case by (auto simp: kv_inv_Cons set_kv_put)
qed (simp add: kv_inv_def)

lemma kv_inv_filter [simp]: "kv_inv t \<Longrightarrow> kv_inv (filter P t)"
  by (induction t) (auto simp: kv_inv_def)

lemma kv_inv_del [simp]: "kv_inv t \<Longrightarrow> kv_inv (kv_del k t)"
  by (simp add: kv_del_def)

lemma map_of_kv_put [simp]: "map_of (kv_put k v t) = (map_of t)(k \<mapsto> v)"
  by (induction k v t rule: kv_put.induct) (auto simp: fun_eq_iff)

lemma map_of_kv_del [simp]: "map_of (kv_del k t) = (map_of t)(k := None)"
  by (induction t) (auto simp: kv_del_def fun_eq_iff)

lemma kv_inv_distinct: "kv_inv t \<Longrightarrow> distinct (map fst t)"
  by (induction t) (auto simp: kv_inv_def)

lemma kv_mem_iff: "kv_inv t \<Longrightarrow> (k, v) \<in> set t \<longleftrightarrow> map_of t k = Some v"
  by (simp add: kv_inv_distinct)

lemma kv_keys: "fst ` set t = dom (map_of t)"
  by (simp add: dom_map_of_conv_image_fst)

lemma kv_unique:
  assumes "kv_inv t" and "kv_inv u" and "map_of t = map_of u"
  shows "t = u"
proof (rule map_sorted_distinct_set_unique)
  have set: "set t = set u"
    using assms by (auto simp: kv_mem_iff)
  show "inj_on fst (set t \<union> set u)"
    using kv_inv_distinct [OF assms(1)] set by (simp add: distinct_map)
  show "sorted (map fst t)" "distinct (map fst t)" "sorted (map fst u)" "distinct (map fst u)"
    using assms(1,2) by (simp_all add: kv_inv_def strict_sorted_iff)
  show "set t = set u" by (rule set)
qed

section \<open>Iterators\<close>

lemma kv_from_filter: "kv_inv t \<Longrightarrow> kv_from k t = filter (\<lambda>(k', v). k \<le> k') t"
proof (induction t)
  case (Cons r t)
  show ?case
  proof (cases "fst r < k")
    case True
    with Cons show ?thesis by (auto simp: kv_from_def kv_inv_def split: prod.splits)
  next
    case False
    moreover have "filter (\<lambda>(k', v). k \<le> k') t = t"
      using False Cons.prems by (intro filter_True) (force simp: kv_inv_def)
    ultimately show ?thesis by (auto simp: kv_from_def split: prod.splits)
  qed
qed (simp add: kv_from_def)

lemma lex_prefix_interval:
  fixes p k k' :: "('a::linorder) list"
  assumes "p \<le> k" and "k \<le> k'" and "starts_with p k'"
  shows "starts_with p k"
  using assms
proof (induction p arbitrary: k k')
  case (Cons x p)
  then show ?case
    by (cases k; cases k') (auto simp: starts_with_def)
qed (simp add: starts_with_def)

lemma starts_with_le: "starts_with p k \<Longrightarrow> p \<le> (k :: ('a::linorder) list)"
proof (induction p arbitrary: k)
  case (Cons x p)
  then show ?case by (cases k) (auto simp: starts_with_def)
qed simp

lemma takeWhile_eq_filter_sorted:
  assumes "sorted_wrt R xs" and "\<And>x y. R x y \<Longrightarrow> P y \<Longrightarrow> P x"
  shows "takeWhile P xs = filter P xs"
  using assms(1)
proof (induction xs)
  case (Cons x xs)
  show ?case
  proof (cases "P x")
    case False
    then have "filter P xs = []" using Cons.prems assms(2) by (auto simp: filter_empty_conv)
    with False show ?thesis by simp
  qed (use Cons in simp)
qed simp

lemma takeWhile_filter_interval:
  assumes "sorted_wrt R (filter Q xs)" and "\<And>x y. R x y \<Longrightarrow> Q x \<Longrightarrow> Q y \<Longrightarrow> P y \<Longrightarrow> P x"
  shows "takeWhile P (filter Q xs) = filter P (filter Q xs)"
proof -
  have "sorted_wrt (\<lambda>x y. R x y \<and> Q x \<and> Q y) (filter Q xs)"
    using assms(1) by (induction xs) auto
  then show ?thesis using assms(2) by (intro takeWhile_eq_filter_sorted) blast+
qed

text \<open>A walk from any key at or above the prefix sees exactly the rows under it.\<close>

lemma kv_scan_filter:
  assumes "kv_inv t" and "p \<le> from"
  shows "kv_scan from p t = filter (\<lambda>(k, v). from \<le> k \<and> starts_with p k) t"
proof -
  let ?ge = "\<lambda>(k, v). from \<le> k" and ?P = "\<lambda>(k, v). starts_with p k"
  have "sorted_wrt (\<lambda>x y. fst x < fst y) (filter ?ge t)"
    using assms(1) by (auto simp: kv_inv_def sorted_wrt_map intro: sorted_wrt_filter)
  then have "takeWhile ?P (filter ?ge t) = filter ?P (filter ?ge t)"
  proof (rule takeWhile_filter_interval)
    fix x y :: "'a list \<times> 'b"
    assume "fst x < fst y" "?ge x" "?ge y" "?P y"
    then show "?P x" using assms(2) by (auto intro: lex_prefix_interval [of p _ "fst y"] split: prod.splits)
  qed
  then show ?thesis
    using assms(1) by (simp add: kv_scan_def kv_from_filter conj_commute split_def)
qed

lemma kv_scan_prefix: "kv_inv t \<Longrightarrow> kv_scan p p t = filter (\<lambda>(k, v). starts_with p k) t"
  using kv_scan_filter [of t p p] by (auto simp: starts_with_le intro: filter_cong)

lemma starts_with_append [simp]: "starts_with p (p @ k)"
  by (simp add: starts_with_def)

lemma starts_with_iff: "starts_with p k \<longleftrightarrow> (\<exists>r. k = p @ r)"
  by (metis append_take_drop_id starts_with_append starts_with_def)

lemma starts_with_append_length:
  "length p = length q \<Longrightarrow> starts_with p (q @ r) \<longleftrightarrow> p = q"
  by (auto simp: starts_with_def)

end
