(* ===== verification/Rocks.thy ===== *)
theory Rocks
  imports Store Kv Merkle
begin

text \<open>
  The embedded backend (\<open>src/store/rocks.rs\<close>): ten column families of byte-keyed rows, the
  key and value encodings, write batches applied atomically, and the Merkle aggregates kept
  beside the database. Every operation of the backend is modelled on these bytes, in the
  order of the source. The per-stripe locks serialise operations on a key, so an operation
  is one step here; the LSM tuning of \<open>open\<close>, the block cache and the bounded commits of
  bulk operations (which only split one batch) are left out.
\<close>

section \<open>Column families and batches\<close>

datatype cf = Meta | Clocks | Journal | Hold | Holdby | Att | AttPath | AttNar | Wm | Mw

type_synonym db = "cf \<Rightarrow> (bytes, bytes) kv"

datatype batch_op = PutCf cf bytes bytes | DelCf cf bytes

fun batch_step :: "db \<Rightarrow> batch_op \<Rightarrow> db" where
  "batch_step db (PutCf c k v) = db(c := kv_put k v (db c))"
| "batch_step db (DelCf c k) = db(c := kv_del k (db c))"

definition db_write :: "batch_op list \<Rightarrow> db \<Rightarrow> db" where
  "db_write batch db = foldl batch_step db batch"

definition get_cf :: "db \<Rightarrow> cf \<Rightarrow> bytes \<Rightarrow> bytes option" where
  "get_cf db c k = map_of (db c) k"

record rocks =
  rk_db :: db
  rk_agg :: aggregates

definition rocks_empty :: rocks where
  "rocks_empty = \<lparr>rk_db = (\<lambda>_. []), rk_agg = agg_new\<rparr>"

section \<open>Keys and values\<close>

definition okey :: "string \<Rightarrow> bytes res" where
  "okey origin =
     (if length origin > 255 \<or> origin = [] then Inl (BadOriginName origin)
      else Inr (word_of_nat (length origin) # bytes_of origin))"

definition jkey :: "string \<Rightarrow> nat \<Rightarrow> bytes res" where
  "jkey origin q = bindr (okey origin) (\<lambda>k. Inr (k @ be_bytes64 q))"

definition clock_bytes :: "clock \<Rightarrow> bytes" where
  "clock_bytes c = be_bytes64 (generation c) @ be_bytes64 (seq c) @ be_bytes64 (tail_seq c)"

definition clock_from :: "bytes \<Rightarrow> clock res" where
  "clock_from b =
     (if length b \<noteq> 24 then Inl CorruptClock
      else Inr \<lparr>generation = of_be_bytes (take 8 b), seq = of_be_bytes (take 8 (drop 8 b)),
                tail_seq = of_be_bytes (take 8 (drop 16 b))\<rparr>)"

definition att_key :: "bytes \<Rightarrow> bytes \<Rightarrow> bytes" where
  "att_key att_hash path_key = att_hash @ path_key"

definition nar_key :: "attestation \<Rightarrow> bytes" where
  "nar_key a = nar_hash a @ bytes_of (hash_part_of (store_path a))"

definition att_decode :: "codec \<Rightarrow> bytes \<Rightarrow> attestation res" where
  "att_decode C v = ok_or CorruptAttestation (dec_att C v)"

definition scan :: "db \<Rightarrow> cf \<Rightarrow> bytes \<Rightarrow> (bytes, bytes) kv" where
  "scan db c prefix = kv_scan prefix prefix (db c)"

section \<open>Building batches\<close>

text \<open>The last change of each hash wins; the map's iteration order is the key order here.\<close>

definition last_holds :: "hold_op list \<Rightarrow> (bytes, bool) kv" where
  "last_holds holds =
     foldl (\<lambda>fin x. case x of HAdd h \<Rightarrow> kv_put h True fin | HDrop h \<Rightarrow> kv_put h False fin) [] holds"

definition apply_holds :: "string \<Rightarrow> hold_op list \<Rightarrow> batch_op list res" where
  "apply_holds origin holds =
     bindr (map_res (\<lambda>(h, held). bindr (okey origin) (\<lambda>k.
        let hold_key = k @ h; holdby_key = h @ bytes_of origin
        in Inr (if held then [PutCf Hold hold_key [], PutCf Holdby holdby_key []]
                else [DelCf Hold hold_key, DelCf Holdby holdby_key]))) (last_holds holds))
     (\<lambda>bs. Inr (concat bs))"

text \<open>
  \<open>merge_atts\<close>, first pass: repeated identities are coalesced in arrival order, because a
  write batch is not visible to reads. The positions map of the source is the search by
  path key.
\<close>

fun coalesce_one :: "attestation \<Rightarrow> (bytes \<times> attestation) list \<Rightarrow> (bytes \<times> attestation) list" where
  "coalesce_one inc [] = (case merge_into None inc of None \<Rightarrow> [] | Some fresh \<Rightarrow> [(path_key_of inc, fresh)])"
| "coalesce_one inc ((pk, a) # acc) =
     (if pk = path_key_of inc
      then (pk, case merge_into (Some a) inc of Some m \<Rightarrow> m | None \<Rightarrow> a) # acc
      else (pk, a) # coalesce_one inc acc)"

definition coalesce :: "attestation list \<Rightarrow> (bytes \<times> attestation) list" where
  "coalesce attests =
     foldl (\<lambda>acc inc. if length (nar_hash inc) \<noteq> 32 then acc else coalesce_one inc acc) [] attests"

text \<open>One attestation by index entry: the hash in the index with the path key is its key.\<close>

definition att_at :: "codec \<Rightarrow> db \<Rightarrow> bytes \<Rightarrow> bytes \<Rightarrow> attestation option res" where
  "att_at C db h pk =
     (if length h \<noteq> 16 then Inl CorruptAttPath
      else case get_cf db Att (att_key h pk) of
          None \<Rightarrow> Inr None
        | Some v \<Rightarrow> bindr (att_decode C v) (\<lambda>a. Inr (Some a)))"

text \<open>
  Second pass, one coalesced row: the batch so far, the hashes leaving and entering the
  tree, and the number of changed rows.
\<close>

definition merge_row :: "codec \<Rightarrow> db \<Rightarrow> bytes \<times> attestation \<Rightarrow>
    batch_op list \<times> bytes list \<times> nat \<Rightarrow> (batch_op list \<times> bytes list \<times> nat) res" where
  "merge_row C db row acc =
     (let (pk, incoming) = row; (batch, delta, changed) = acc in
      bindr (case get_cf db AttPath pk of
               None \<Rightarrow> Inr None
             | Some raw \<Rightarrow> if length raw \<noteq> 16 then Inl CorruptAttPath
                 else bindr (att_at C db raw pk) (\<lambda>a. Inr (Some (raw, a))))
      (\<lambda>old.
        let existing = (case old of None \<Rightarrow> None | Some (_, a) \<Rightarrow> a) in
        case merge_into existing incoming of
          None \<Rightarrow> Inr (batch, delta, changed)
        | Some merged \<Rightarrow>
            (let nh = attestation_hash C merged in
             if map_option fst old = Some nh then Inr (batch, delta, changed)
             else
               let (gone, out) = (case old of
                     None \<Rightarrow> ([], [])
                   | Some (oh, _) \<Rightarrow> ([DelCf Att (att_key oh pk)], [oh]))
               in Inr (batch @ gone @ [PutCf Att (att_key nh pk) (enc_att C merged),
                         PutCf AttPath pk nh, PutCf AttNar (nar_key merged) nh],
                       delta @ out @ [nh], changed + 1))))"

definition merge_atts :: "codec \<Rightarrow> db \<Rightarrow> attestation list \<Rightarrow>
    (batch_op list \<times> bytes list \<times> nat) res" where
  "merge_atts C db attests = for_each (merge_row C db) (coalesce attests) ([], [], 0)"

definition commit_with_delta :: "batch_op list \<Rightarrow> bytes list \<Rightarrow> rocks \<Rightarrow> rocks" where
  "commit_with_delta batch delta s =
     s\<lparr>rk_db := db_write batch (rk_db s), rk_agg := foldl (\<lambda>a h. agg_xor h a) (rk_agg s) delta\<rparr>"

section \<open>Writing operations\<close>

definition rocks_meta_get :: "rocks \<Rightarrow> string \<Rightarrow> string option res" where
  "rocks_meta_get s key = Inr (map_option string_of (get_cf (rk_db s) Meta (bytes_of key)))"

definition rocks_meta_put :: "rocks \<Rightarrow> string \<Rightarrow> string \<Rightarrow> rocks res" where
  "rocks_meta_put s key v =
     Inr (s\<lparr>rk_db := db_write [PutCf Meta (bytes_of key) (bytes_of v)] (rk_db s)\<rparr>)"

definition rocks_clock :: "rocks \<Rightarrow> string \<Rightarrow> clock res" where
  "rocks_clock s origin = bindr (okey origin) (\<lambda>k.
     case get_cf (rk_db s) Clocks k of None \<Rightarrow> Inr clock_default | Some v \<Rightarrow> clock_from v)"

definition rocks_set_generation :: "rocks \<Rightarrow> string \<Rightarrow> nat \<Rightarrow> rocks res" where
  "rocks_set_generation s origin g =
     bindr (rocks_clock s origin) (\<lambda>c. bindr (okey origin) (\<lambda>k.
       Inr (s\<lparr>rk_db := db_write [PutCf Clocks k (clock_bytes (c\<lparr>generation := g\<rparr>))] (rk_db s)\<rparr>)))"

definition rocks_apply_events :: "codec \<Rightarrow> rocks \<Rightarrow> string \<Rightarrow> nat \<times> nat \<Rightarrow> nat \<times> nat \<Rightarrow>
    (nat \<times> bytes) list \<Rightarrow> hold_op list \<Rightarrow> attestation list \<Rightarrow> (bool \<times> rocks) res" where
  "rocks_apply_events C s origin expect to_set journal holds attests =
     bindr (rocks_clock s origin) (\<lambda>cur.
       if (generation cur, seq cur) \<noteq> expect then Inr (False, s)
       else
         bindr (map_res (\<lambda>(q, b). bindr (jkey origin q) (\<lambda>k. Inr (PutCf Journal k b))) journal) (\<lambda>jb.
         bindr (apply_holds origin holds) (\<lambda>hb.
         bindr (merge_atts C (rk_db s) attests) (\<lambda>(ab, delta, _).
         bindr (okey origin) (\<lambda>k.
           let c = \<lparr>generation = fst to_set, seq = snd to_set, tail_seq = tail_seq cur\<rparr>
           in Inr (True, commit_with_delta (jb @ hb @ ab @ [PutCf Clocks k (clock_bytes c)]) delta s))))))"

definition last_n :: "nat \<Rightarrow> 'a list \<Rightarrow> 'a list" where
  "last_n n xs = drop (length xs - n) xs"

definition rocks_replace_holdings :: "rocks \<Rightarrow> string \<Rightarrow> nat \<Rightarrow> nat \<Rightarrow> bytes list \<Rightarrow> (bool \<times> rocks) res" where
  "rocks_replace_holdings s origin g q held =
     bindr (rocks_clock s origin) (\<lambda>cur.
       if g < generation cur \<or> (g = generation cur \<and> q < seq cur) then Inr (False, s)
       else
         bindr (okey origin) (\<lambda>prefix.
           let old = map (\<lambda>(k, _). last_n 32 k) (scan (rk_db s) Hold prefix);
               new = remdups held;
               ops = map HDrop (filter (\<lambda>h. h \<notin> set new) old)
                   @ map HAdd (filter (\<lambda>h. h \<notin> set old) new)
           in bindr (apply_holds origin ops) (\<lambda>hb.
             let jb = map (\<lambda>(k, _). DelCf Journal k) (scan (rk_db s) Journal prefix);
                 c = \<lparr>generation = g, seq = q, tail_seq = q\<rparr>
             in Inr (True, s\<lparr>rk_db := db_write (hb @ jb @ [PutCf Clocks prefix (clock_bytes c)]) (rk_db s)\<rparr>))))"

definition rocks_merge_attestations :: "codec \<Rightarrow> rocks \<Rightarrow> attestation list \<Rightarrow> (nat \<times> rocks) res" where
  "rocks_merge_attestations C s attests =
     bindr (merge_atts C (rk_db s) attests) (\<lambda>(batch, delta, changed).
       Inr (changed, if changed > 0 then commit_with_delta batch delta s else s))"

definition rocks_compact_journal :: "rocks \<Rightarrow> string \<Rightarrow> nat \<Rightarrow> rocks res" where
  "rocks_compact_journal s origin floor =
     bindr (rocks_clock s origin) (\<lambda>c.
       if floor \<le> tail_seq c then Inr s
       else
         bindr (okey origin) (\<lambda>prefix.
         bindr (jkey origin (sat_add64 (tail_seq c) 1)) (\<lambda>start.
           let rows = takeWhile (\<lambda>(k, _). starts_with prefix k \<and> of_be_bytes (last_n 8 k) \<le> floor)
                        (kv_from start (rk_db s Journal));
               dels = map (\<lambda>(k, _). DelCf Journal k) rows
           in Inr (s\<lparr>rk_db := db_write (dels @ [PutCf Clocks prefix (clock_bytes (c\<lparr>tail_seq := floor\<rparr>))])
                      (rk_db s)\<rparr>))))"

definition rocks_retain_origins :: "rocks \<Rightarrow> string list \<Rightarrow> rocks res" where
  "rocks_retain_origins s keep =
     (let db = rk_db s;
          departed = filter (\<lambda>o'. o' \<notin> set keep) (map (\<lambda>(k, _). string_of (drop 1 k)) (scan db Clocks []))
      in bindr (map_res (\<lambda>origin. bindr (okey origin) (\<lambda>prefix.
             Inr (concat (map (\<lambda>(k, _). [DelCf Hold k, DelCf Holdby (last_n 32 k @ bytes_of origin)])
                    (scan db Hold prefix))
                @ map (\<lambda>(k, _). DelCf Journal k) (scan db Journal prefix)
                @ [DelCf Clocks prefix]))) departed)
         (\<lambda>bs.
           let wm = map (\<lambda>(k, _). DelCf Wm k)
                 (filter (\<lambda>(k, _). let plen = unat (hd k); peer = string_of (take plen (drop 1 k));
                                       origin = string_of (drop (1 + plen) k)
                                   in peer \<notin> set keep \<or> origin \<notin> set keep) (scan db Wm []))
           in Inr (s\<lparr>rk_db := db_write (concat bs @ wm) db\<rparr>)))"

definition wm_key :: "string \<Rightarrow> string \<Rightarrow> bytes res" where
  "wm_key peer origin = bindr (okey peer) (\<lambda>k. Inr (k @ bytes_of origin))"

definition rocks_advance_watermark :: "rocks \<Rightarrow> string \<Rightarrow> string \<Rightarrow> nat \<Rightarrow> rocks res" where
  "rocks_advance_watermark s peer origin q =
     bindr (wm_key peer origin) (\<lambda>key.
       let cur = (case get_cf (rk_db s) Wm key of None \<Rightarrow> 0 | Some v \<Rightarrow> of_be_bytes (take 8 v))
       in Inr (if q > cur then s\<lparr>rk_db := db_write [PutCf Wm key (be_bytes64 q)] (rk_db s)\<rparr> else s))"

section \<open>Reading operations\<close>

fun suffix_loop :: "nat \<Rightarrow> bytes list \<Rightarrow> nat \<Rightarrow> (bytes, bytes) kv \<Rightarrow> bytes list \<times> bool" where
  "suffix_loop max_bytes events n [] = (events, False)"
| "suffix_loop max_bytes events n ((k, v) # rows) =
     (if n + length v > max_bytes \<and> events \<noteq> [] then (events, True)
      else suffix_loop max_bytes (events @ [v]) (n + length v) rows)"

definition rocks_journal_suffix :: "rocks \<Rightarrow> string \<Rightarrow> nat \<Rightarrow> nat \<Rightarrow> (bytes list \<times> bool) res" where
  "rocks_journal_suffix s origin after max_bytes =
     bindr (okey origin) (\<lambda>prefix.
     bindr (jkey origin (sat_add64 after 1)) (\<lambda>start.
       Inr (suffix_loop max_bytes [] 0 (kv_scan start prefix (rk_db s Journal)))))"

definition rocks_holdings :: "rocks \<Rightarrow> string \<Rightarrow> bytes list res" where
  "rocks_holdings s origin =
     bindr (okey origin) (\<lambda>prefix. Inr (map (\<lambda>(k, _). last_n 32 k) (scan (rk_db s) Hold prefix)))"

text \<open>The page visitor: the state is the page, its size, the last key and the \<open>more\<close> flag.\<close>

fun page_loop :: "codec \<Rightarrow> bytes \<Rightarrow> nat \<Rightarrow> attestation list \<Rightarrow> nat \<Rightarrow> bytes \<Rightarrow> (bytes, bytes) kv \<Rightarrow>
    (attestation list \<times> bytes option) res" where
  "page_loop C cursor max_bytes page used last_key [] = Inr (page, None)"
| "page_loop C cursor max_bytes page used last_key ((k, v) # rows) =
     (if k = cursor then page_loop C cursor max_bytes page used last_key rows
      else bindr (att_decode C v) (\<lambda>att.
        let len = length (enc_att C att) in
        if used + len > max_bytes \<and> page \<noteq> [] then Inr (page, Some last_key)
        else page_loop C cursor max_bytes (page @ [att]) (used + len) k rows))"

definition rocks_attestation_page :: "codec \<Rightarrow> rocks \<Rightarrow> bytes \<Rightarrow> bytes \<Rightarrow> nat \<Rightarrow>
    (attestation list \<times> bytes option) res" where
  "rocks_attestation_page C s prefix cursor max_bytes =
     (let from = (if cursor = [] then prefix else cursor)
      in page_loop C cursor max_bytes [] 0 [] (kv_scan from prefix (rk_db s Att)))"

definition holders_of :: "rocks \<Rightarrow> bytes \<Rightarrow> string list" where
  "holders_of s h = map (\<lambda>(k, _). string_of (drop 32 k)) (scan (rk_db s) Holdby h)"

definition lookup_atts :: "rocks \<Rightarrow> attestation list \<Rightarrow> found_row list" where
  "lookup_atts s rows =
     concat (map (\<lambda>att. if length (nar_hash att) \<noteq> 32 then []
        else (let hs = holders_of s (nar_hash att) in if hs = [] then [] else [(att, hs)])) rows)"

definition rocks_lookup_hash_part :: "codec \<Rightarrow> rocks \<Rightarrow> string \<Rightarrow> found_row list res" where
  "rocks_lookup_hash_part C s hash_part =
     bindr (map_res (\<lambda>(pk, h). att_at C (rk_db s) h pk) (scan (rk_db s) AttPath (bytes_of hash_part)))
       (\<lambda>rows. Inr (lookup_atts s (List.map_filter id rows)))"

definition rocks_lookup_nar_hash :: "codec \<Rightarrow> rocks \<Rightarrow> bytes \<Rightarrow> found_row list res" where
  "rocks_lookup_nar_hash C s h =
     bindr (map_res (\<lambda>(k, v). att_at C (rk_db s) v (drop 32 k @ h)) (scan (rk_db s) AttNar h))
       (\<lambda>rows. Inr (lookup_atts s (List.map_filter id rows)))"

definition rocks_claims :: "codec \<Rightarrow> rocks \<Rightarrow> claim_row list res" where
  "rocks_claims C s =
     map_res (\<lambda>(_, v). bindr (att_decode C v) (\<lambda>a. Inr (store_path a, nar_hash a, sigs a)))
       (scan (rk_db s) Att [])"

definition rocks_attestation_sigs :: "codec \<Rightarrow> rocks \<Rightarrow> string \<Rightarrow> bytes \<Rightarrow> string list option res" where
  "rocks_attestation_sigs C s hash_part h =
     (let pk = bytes_of hash_part @ h in
      case get_cf (rk_db s) AttPath pk of
        None \<Rightarrow> Inr None
      | Some hh \<Rightarrow> bindr (att_at C (rk_db s) hh pk) (\<lambda>a. Inr (map_option sigs a)))"

definition rocks_is_held :: "rocks \<Rightarrow> string \<Rightarrow> bytes \<Rightarrow> bool res" where
  "rocks_is_held s origin h =
     bindr (okey origin) (\<lambda>k. Inr (get_cf (rk_db s) Hold (k @ h) \<noteq> None))"

definition rocks_watermarks :: "rocks \<Rightarrow> (string \<times> string \<times> nat) list res" where
  "rocks_watermarks s =
     Inr (map (\<lambda>(k, v). let plen = unat (hd k)
        in (string_of (take plen (drop 1 k)), string_of (drop (1 + plen) k), of_be_bytes (take 8 v)))
      (scan (rk_db s) Wm []))"

definition rocks_origin_stats :: "rocks \<Rightarrow> string \<Rightarrow> (nat \<times> nat) res" where
  "rocks_origin_stats s origin =
     bindr (okey origin) (\<lambda>k. Inr (length (scan (rk_db s) Journal k), length (scan (rk_db s) Hold k)))"

definition rocks_count_attestations :: "rocks \<Rightarrow> nat res" where
  "rocks_count_attestations s = Inr (length (scan (rk_db s) AttPath []))"

definition rocks_merkle_root :: "rocks \<Rightarrow> bytes res" where
  "rocks_merkle_root s = Inr (ag_root (rk_agg s))"

definition rocks_merkle_children :: "rocks \<Rightarrow> bytes \<Rightarrow> bytes list res" where
  "rocks_merkle_children s prefix =
     (case prefix of
        [] \<Rightarrow> Inr (ag_coarse (rk_agg s))
      | [b] \<Rightarrow> Inr (agg_leaves (rk_agg s) (unat b))
      | p \<Rightarrow> Inl (MerkleDepth (length p)))"

text \<open>The aggregates are derived state: recomputed from \<open>att_path\<close> when the store opens.\<close>

definition rocks_rebuild_aggregates :: "rocks \<Rightarrow> rocks" where
  "rocks_rebuild_aggregates s = s\<lparr>rk_agg := agg_rebuild (map snd (scan (rk_db s) AttPath []))\<rparr>"

definition rocks_ops :: "codec \<Rightarrow> rocks store_ops" where
  "rocks_ops C = \<lparr>
     so_meta_get = rocks_meta_get, so_meta_put = rocks_meta_put, so_clock = rocks_clock,
     so_set_generation = rocks_set_generation, so_apply_events = rocks_apply_events C,
     so_replace_holdings = rocks_replace_holdings,
     so_merge_attestations = rocks_merge_attestations C,
     so_journal_suffix = rocks_journal_suffix, so_holdings = rocks_holdings,
     so_attestation_page = rocks_attestation_page C,
     so_compact_journal = rocks_compact_journal, so_retain_origins = rocks_retain_origins,
     so_lookup_hash_part = rocks_lookup_hash_part C, so_lookup_nar_hash = rocks_lookup_nar_hash C,
     so_claims = rocks_claims C, so_attestation_sigs = rocks_attestation_sigs C,
     so_is_held = rocks_is_held, so_advance_watermark = rocks_advance_watermark,
     so_watermarks = rocks_watermarks, so_origin_stats = rocks_origin_stats,
     so_count_attestations = rocks_count_attestations,
     so_merkle_root = rocks_merkle_root, so_merkle_children = rocks_merkle_children\<rparr>"

end
