(* ===== verification/Store_Laws.thy ===== *)
theory Store_Laws
  imports Store
begin

text \<open>
  The contract of the storage interface, as the documentation of \<open>SyncStore\<close>
  (\<open>src/store/mod.rs\<close>) promises it: a state denotes a clock, a journal and a possession set
  per origin, a fact per identity, a watermark per pair of nodes and the meta table (the
  views), and every operation is described by its effect on these views. The index is
  verified against this locale; a backend is verified by interpreting it.
\<close>

section \<open>Names, journals, facts\<close>

definition ok_name :: "string \<Rightarrow> bool" where
  "ok_name o' \<longleftrightarrow> o' \<noteq> [] \<and> length o' \<le> 255"

definition u64_clock :: "clock \<Rightarrow> bool" where
  "u64_clock c \<longleftrightarrow> generation c < 2 ^ 64 \<and> seq c < 2 ^ 64 \<and> tail_seq c < 2 ^ 64"

text \<open>The rows of a journal from a sequence number on, in ascending order.\<close>

definition journal_from :: "(nat \<rightharpoonup> bytes) \<Rightarrow> nat \<Rightarrow> (nat \<times> bytes) list" where
  "journal_from J q = map (\<lambda>n. (n, the (J n))) (sorted_list_of_set {n \<in> dom J. q \<le> n})"

text \<open>
  The fact table after merging a list: per identity the incoming attestations are coalesced,
  then merged into the stored one; the row is left alone when the attestation hash is unchanged.
\<close>

definition incoming :: "attestation list \<Rightarrow> bytes \<Rightarrow> attestation option" where
  "incoming attests pk =
     foldl row_merge None (filter (\<lambda>a. length (nar_hash a) = 32 \<and> path_key_of a = pk) attests)"

definition settle :: "codec \<Rightarrow> attestation option \<Rightarrow> attestation \<Rightarrow> attestation" where
  "settle C old inc =
     (case old of None \<Rightarrow> inc
      | Some a \<Rightarrow> if attestation_hash C (join_att a inc) = attestation_hash C a then a else join_att a inc)"

definition merge_facts :: "codec \<Rightarrow> attestation list \<Rightarrow> (bytes \<rightharpoonup> attestation) \<Rightarrow> (bytes \<rightharpoonup> attestation)" where
  "merge_facts C attests F =
     (\<lambda>pk. case incoming attests pk of None \<Rightarrow> F pk | Some inc \<Rightarrow> Some (settle C (F pk) inc))"

lemma merge_facts_Nil [simp]: "merge_facts C [] F = F"
  by (simp add: merge_facts_def incoming_def)

lemma foldl_row_merge_is_Some: "foldl row_merge (Some a) xs \<noteq> None"
  by (induction xs arbitrary: a) auto

lemma incoming_eq_None:
  "incoming attests pk = None \<longleftrightarrow> (\<forall>a\<in>set attests. length (nar_hash a) = 32 \<longrightarrow> path_key_of a \<noteq> pk)"
proof -
  have "foldl row_merge None xs = None \<longleftrightarrow> xs = []" for xs
    by (cases xs) (auto simp: foldl_row_merge_is_Some)
  then show ?thesis by (auto simp: incoming_def filter_empty_conv)
qed

section \<open>The contract\<close>

locale sync_store =
  fixes ops :: "'s store_ops"
    and C :: codec
    and inv :: "'s \<Rightarrow> bool"
    and vclock :: "'s \<Rightarrow> string \<Rightarrow> clock"
    and vjournal :: "'s \<Rightarrow> string \<Rightarrow> nat \<rightharpoonup> bytes"
    and vheld :: "'s \<Rightarrow> string \<Rightarrow> bytes set"
    and vfact :: "'s \<Rightarrow> bytes \<rightharpoonup> attestation"
    and vmark :: "'s \<Rightarrow> string \<Rightarrow> string \<Rightarrow> nat"
    and vmeta :: "'s \<Rightarrow> string \<rightharpoonup> string"
  assumes clock_u64: "inv s \<Longrightarrow> u64_clock (vclock s o')"
    and journal_finite: "inv s \<Longrightarrow> finite (dom (vjournal s o'))"
    and held_32: "inv s \<Longrightarrow> h \<in> vheld s o' \<Longrightarrow> length h = 32"
    and held_finite: "inv s \<Longrightarrow> finite (vheld s o')"
    and fact_row: "inv s \<Longrightarrow> vfact s pk = Some a \<Longrightarrow>
      canonical a \<and> path_key_of a = pk \<and> length (nar_hash a) = 32"
    and clock_read: "inv s \<Longrightarrow> ok_name o' \<Longrightarrow> so_clock ops s o' = Inr (vclock s o')"
    and apply_refused: "inv s \<Longrightarrow> ok_name o' \<Longrightarrow> (generation (vclock s o'), seq (vclock s o')) \<noteq> expect \<Longrightarrow>
      so_apply_events ops s o' expect to_set journal holds attests = Inr (False, s)"
    and apply_done: "inv s \<Longrightarrow> ok_name o' \<Longrightarrow> (generation (vclock s o'), seq (vclock s o')) = expect \<Longrightarrow>
      fst to_set < 2 ^ 64 \<Longrightarrow> snd to_set < 2 ^ 64 \<Longrightarrow> (\<And>q b. (q, b) \<in> set journal \<Longrightarrow> q < 2 ^ 64) \<Longrightarrow>
      (\<And>x. x \<in> set holds \<Longrightarrow> length (hold_hash x) = 32) \<Longrightarrow>
      \<exists>s'. so_apply_events ops s o' expect to_set journal holds attests = Inr (True, s') \<and> inv s' \<and>
        vclock s' = (vclock s)(o' := (vclock s o')\<lparr>generation := fst to_set, seq := snd to_set\<rparr>) \<and>
        vjournal s' = (vjournal s)(o' := vjournal s o' ++ map_of (rev journal)) \<and>
        vheld s' = (vheld s)(o' := foldl hold_step (vheld s o') holds) \<and>
        vfact s' = merge_facts C attests (vfact s) \<and> vmark s' = vmark s \<and> vmeta s' = vmeta s"
    and replace_stale: "inv s \<Longrightarrow> ok_name o' \<Longrightarrow>
      g < generation (vclock s o') \<or> (g = generation (vclock s o') \<and> q < seq (vclock s o')) \<Longrightarrow>
      so_replace_holdings ops s o' g q held = Inr (False, s)"
    and replace_done: "inv s \<Longrightarrow> ok_name o' \<Longrightarrow>
      \<not> (g < generation (vclock s o') \<or> (g = generation (vclock s o') \<and> q < seq (vclock s o'))) \<Longrightarrow>
      g < 2 ^ 64 \<Longrightarrow> q < 2 ^ 64 \<Longrightarrow> (\<And>h. h \<in> set held \<Longrightarrow> length h = 32) \<Longrightarrow>
      \<exists>s'. so_replace_holdings ops s o' g q held = Inr (True, s') \<and> inv s' \<and>
        vclock s' = (vclock s)(o' := \<lparr>generation = g, seq = q, tail_seq = q\<rparr>) \<and>
        vjournal s' = (vjournal s)(o' := Map.empty) \<and>
        vheld s' = (vheld s)(o' := set held) \<and>
        vfact s' = vfact s \<and> vmark s' = vmark s \<and> vmeta s' = vmeta s"
    and merge_done: "inv s \<Longrightarrow>
      \<exists>n s'. so_merge_attestations ops s attests = Inr (n, s') \<and> inv s' \<and>
        vfact s' = merge_facts C attests (vfact s) \<and> (n = 0 \<longrightarrow> s' = s) \<and>
        vclock s' = vclock s \<and> vjournal s' = vjournal s \<and> vheld s' = vheld s \<and>
        vmark s' = vmark s \<and> vmeta s' = vmeta s"
    and suffix_read: "inv s \<Longrightarrow> ok_name o' \<Longrightarrow> after < 2 ^ 64 \<Longrightarrow>
      \<exists>k. so_journal_suffix ops s o' after cap =
          Inr (map snd (take k (journal_from (vjournal s o') (sat_add64 after 1))),
               k < length (journal_from (vjournal s o') (sat_add64 after 1))) \<and>
        (journal_from (vjournal s o') (sat_add64 after 1) \<noteq> [] \<longrightarrow> 0 < k) \<and>
        k \<le> length (journal_from (vjournal s o') (sat_add64 after 1))"
    and holdings_read: "inv s \<Longrightarrow> ok_name o' \<Longrightarrow>
      \<exists>hs. so_holdings ops s o' = Inr hs \<and> set hs = vheld s o' \<and> distinct hs"
    and is_held_read: "inv s \<Longrightarrow> ok_name o' \<Longrightarrow> length h = 32 \<Longrightarrow> so_is_held ops s o' h = Inr (h \<in> vheld s o')"
    and compact_done: "inv s \<Longrightarrow> ok_name o' \<Longrightarrow> tail_seq (vclock s o') < floor \<Longrightarrow> floor < 2 ^ 64 \<Longrightarrow>
      \<exists>s'. so_compact_journal ops s o' floor = Inr s' \<and> inv s' \<and>
        vclock s' = (vclock s)(o' := (vclock s o')\<lparr>tail_seq := floor\<rparr>) \<and>
        vjournal s' = (vjournal s)(o' := (\<lambda>q. if tail_seq (vclock s o') < q \<and> q \<le> floor then None else vjournal s o' q)) \<and>
        vheld s' = vheld s \<and> vfact s' = vfact s \<and> vmark s' = vmark s \<and> vmeta s' = vmeta s"
    and advance_done: "inv s \<Longrightarrow> ok_name p \<Longrightarrow> ok_name o' \<Longrightarrow> q < 2 ^ 64 \<Longrightarrow>
      \<exists>s'. so_advance_watermark ops s p o' q = Inr s' \<and> inv s' \<and>
        vmark s' = (vmark s)(p := (vmark s p)(o' := max (vmark s p o') q)) \<and>
        vclock s' = vclock s \<and> vjournal s' = vjournal s \<and> vheld s' = vheld s \<and>
        vfact s' = vfact s \<and> vmeta s' = vmeta s"
    and watermarks_read: "inv s \<Longrightarrow> \<exists>ms. so_watermarks ops s = Inr ms \<and>
      distinct (map (\<lambda>(p, o', q). (p, o')) ms) \<and>
      (\<forall>p o' q. (p, o', q) \<in> set ms \<longrightarrow> vmark s p o' = q) \<and>
      (\<forall>p o'. vmark s p o' \<noteq> 0 \<longrightarrow> (p, o', vmark s p o') \<in> set ms)"
    and set_generation_done: "inv s \<Longrightarrow> ok_name o' \<Longrightarrow> g < 2 ^ 64 \<Longrightarrow>
      \<exists>s'. so_set_generation ops s o' g = Inr s' \<and> inv s' \<and>
        vclock s' = (vclock s)(o' := (vclock s o')\<lparr>generation := g\<rparr>) \<and>
        vjournal s' = vjournal s \<and> vheld s' = vheld s \<and> vfact s' = vfact s \<and>
        vmark s' = vmark s \<and> vmeta s' = vmeta s"
    and retain_done: "inv s \<Longrightarrow>
      \<exists>s'. so_retain_origins ops s keep = Inr s' \<and> inv s' \<and>
        vclock s' = (\<lambda>o'. if o' \<in> set keep then vclock s o' else clock_default) \<and>
        vjournal s' = (\<lambda>o'. if o' \<in> set keep then vjournal s o' else Map.empty) \<and>
        vheld s' = (\<lambda>o'. if o' \<in> set keep then vheld s o' else {}) \<and>
        vmark s' = (\<lambda>p o'. if p \<in> set keep \<and> o' \<in> set keep then vmark s p o' else 0) \<and>
        vfact s' = vfact s \<and> vmeta s' = vmeta s"
    and meta_read: "inv s \<Longrightarrow> so_meta_get ops s key = Inr (vmeta s key)"
    and meta_done: "inv s \<Longrightarrow>
      \<exists>s'. so_meta_put ops s key v = Inr s' \<and> inv s' \<and> vmeta s' = (vmeta s)(key \<mapsto> v) \<and>
        vclock s' = vclock s \<and> vjournal s' = vjournal s \<and> vheld s' = vheld s \<and>
        vfact s' = vfact s \<and> vmark s' = vmark s"
    and sigs_read: "inv s \<Longrightarrow>
      so_attestation_sigs ops s hp h = Inr (map_option sigs (vfact s (bytes_of hp @ h)))"
    and lookup_hash_part_read: "inv s \<Longrightarrow> length hp = 32 \<Longrightarrow>
      \<exists>rows. so_lookup_hash_part ops s hp = Inr rows \<and>
        (\<forall>a hs. (a, hs) \<in> set rows \<longrightarrow> vfact s (path_key_of a) = Some a \<and>
           take 32 (path_key_of a) = bytes_of hp \<and> hs \<noteq> [] \<and> set hs = {o'. nar_hash a \<in> vheld s o'}) \<and>
        (\<forall>a o'. vfact s (path_key_of a) = Some a \<longrightarrow> take 32 (path_key_of a) = bytes_of hp \<longrightarrow>
           nar_hash a \<in> vheld s o' \<longrightarrow> a \<in> fst ` set rows)"
    and claims_read: "inv s \<Longrightarrow> \<exists>rows. so_claims ops s = Inr rows \<and>
      set rows = {(store_path a, nar_hash a, sigs a) |a. vfact s (path_key_of a) = Some a}"
    and page_read: "inv s \<Longrightarrow> \<exists>page next. so_attestation_page ops s prefix cursor cap = Inr (page, next) \<and>
      (\<forall>a\<in>set page. vfact s (path_key_of a) = Some a)"
    and root_read: "inv s \<Longrightarrow> \<exists>r. so_merkle_root ops s = Inr r \<and> length r = 16"

end
