(* ===== verification/Rocks_Laws.thy ===== *)
theory Rocks_Laws
  imports Rocks Store_Laws
begin

text \<open>
  The embedded backend satisfies the storage contract. The views are read off the byte
  rows; the invariant says that every key has the shape its column family prescribes, that
  the two holder tables mirror each other, that the three fact tables agree, and that the
  aggregates are the XOR of the hashes in \<open>att_path\<close>. Each operation is taken through
  \<open>batch_map\<close>, the effect of a batch on one family.
\<close>

section \<open>Keys\<close>

definition name_key :: "string \<Rightarrow> bytes" where
  "name_key o' = word_of_nat (length o') # bytes_of o'"

lemma okey_ok [simp]: "ok_name o' \<Longrightarrow> okey o' = Inr (name_key o')"
  by (simp add: okey_def ok_name_def name_key_def)

lemma jkey_ok [simp]: "ok_name o' \<Longrightarrow> jkey o' q = Inr (name_key o' @ be_bytes64 q)"
  by (simp add: jkey_def)

lemma name_key_prefix:
  assumes "ok_name a" "ok_name b" "name_key a @ x = name_key b @ y"
  shows "a = b \<and> x = y"
proof -
  have "(word_of_nat (length a) :: u8) = word_of_nat (length b)"
    using assms(3) by (simp add: name_key_def)
  then have "unat (word_of_nat (length a) :: u8) = unat (word_of_nat (length b) :: u8)" by simp
  then have "length a = length b"
    using assms(1,2) by (simp add: ok_name_def unat_of_nat)
  then show ?thesis using assms(3) by (simp add: name_key_def)
qed

lemma name_key_eq [simp]: "ok_name a \<Longrightarrow> ok_name b \<Longrightarrow> name_key a @ x = name_key b @ y \<longleftrightarrow> a = b \<and> x = y"
  using name_key_prefix by blast

lemma name_key_inject [simp]: "ok_name a \<Longrightarrow> ok_name b \<Longrightarrow> name_key a = name_key b \<longleftrightarrow> a = b"
  using name_key_prefix [of a b "[]" "[]"] by auto

lemma starts_name_key: "ok_name a \<Longrightarrow> ok_name b \<Longrightarrow> starts_with (name_key a) (name_key b @ y) \<longleftrightarrow> a = b"
  unfolding starts_with_iff using name_key_prefix by (metis (full_types))

lemma of_le_bytes_bound: "of_le_bytes bs < 256 ^ length bs"
proof (induction bs)
  case (Cons b bs)
  have "unat b < 256" using unsigned_less [of b, where 'a = nat] by simp
  with Cons show ?case by simp
qed simp

lemma of_le_bytes_append: "of_le_bytes (as @ bs) = of_le_bytes as + 256 ^ length as * of_le_bytes bs"
  by (induction as) (auto simp: algebra_simps)

lemma of_be_bytes_Cons: "of_be_bytes (b # bs) = unat b * 256 ^ length bs + of_be_bytes bs"
  by (simp add: of_be_bytes_def of_le_bytes_append)

lemma of_be_bytes_bound: "of_be_bytes bs < 256 ^ length bs"
  using of_le_bytes_bound [of "rev bs"] by (simp add: of_be_bytes_def)

text \<open>Big-endian keys of one length are ordered as the numbers they denote.\<close>

lemma be_order: "length as = length bs \<Longrightarrow> as < bs \<longleftrightarrow> of_be_bytes as < of_be_bytes bs"
proof (induction as bs rule: list_induct2)
  case (Cons x xs y ys)
  let ?n = "256 ^ length xs :: nat"
  have b: "of_be_bytes xs < ?n" "of_be_bytes ys < ?n"
    using of_be_bytes_bound Cons.hyps by auto metis
  consider "x < y" | "x = y" | "y < x" by fastforce
  then show ?case
  proof cases
    case 1
    then have "unat x + 1 \<le> unat y" by (simp add: word_less_nat_alt)
    then have "(unat x + 1) * ?n \<le> unat y * ?n" by (rule mult_le_mono1)
    with 1 b Cons.hyps show ?thesis by (simp add: of_be_bytes_Cons algebra_simps)
  next
    case 2
    with Cons show ?thesis by (simp add: of_be_bytes_Cons)
  next
    case 3
    then have "unat y + 1 \<le> unat x" by (simp add: word_less_nat_alt)
    then have "(unat y + 1) * ?n \<le> unat x * ?n" by (rule mult_le_mono1)
    with 3 b Cons.hyps show ?thesis by (auto simp: of_be_bytes_Cons algebra_simps)
  qed
qed simp

lemma be64_order: "m < 2 ^ 64 \<Longrightarrow> n < 2 ^ 64 \<Longrightarrow> be_bytes64 m \<le> be_bytes64 n \<longleftrightarrow> m \<le> n"
  by (metis be_order length_be_bytes64 linorder_not_less of_be_bytes_be_bytes64)

lemma be64_inverse: "length k = 8 \<Longrightarrow> be_bytes64 (of_be_bytes k) = k \<and> of_be_bytes k < 2 ^ 64"
proof -
  assume k: "length k = 8"
  have l: "le_bytes (length bs) (of_le_bytes bs) = bs" for bs
  proof (induction bs)
    case (Cons b bs)
    have "unat b < 256" using unsigned_less [of b, where 'a = nat] by simp
    with Cons show ?case by simp
  qed simp
  have "le_bytes 8 (of_le_bytes (rev k)) = rev k" using l [of "rev k"] k by simp
  moreover have "of_be_bytes k < 2 ^ 64" using of_be_bytes_bound [of k] k by simp
  ultimately show ?thesis by (simp add: be_bytes64_def of_be_bytes_def)
qed

lemma prefix_order: "(p @ x :: bytes) \<le> p @ y \<longleftrightarrow> x \<le> y"
  by (induction p) auto

lemma clock_from_bytes: "u64_clock c \<Longrightarrow> clock_from (clock_bytes c) = Inr c"
  by (cases c) (simp add: clock_from_def clock_bytes_def u64_clock_def of_be_bytes_be_bytes64)

lemma length_clock_bytes [simp]: "length (clock_bytes c) = 24"
  by (simp add: clock_bytes_def)

section \<open>The effect of a batch on one family\<close>

fun batch_fn :: "cf \<Rightarrow> batch_op \<Rightarrow> (bytes \<rightharpoonup> bytes) \<Rightarrow> (bytes \<rightharpoonup> bytes)" where
  "batch_fn c (PutCf c' k v) m = (if c' = c then m(k \<mapsto> v) else m)"
| "batch_fn c (DelCf c' k) m = (if c' = c then m(k := None) else m)"

definition batch_map :: "cf \<Rightarrow> batch_op list \<Rightarrow> (bytes \<rightharpoonup> bytes) \<Rightarrow> (bytes \<rightharpoonup> bytes)" where
  "batch_map c b m = foldl (\<lambda>m x. batch_fn c x m) m b"

fun cf_of :: "batch_op \<Rightarrow> cf" where
  "cf_of (PutCf c k v) = c" | "cf_of (DelCf c k) = c"

lemma batch_map_simps [simp]:
  "batch_map c [] m = m" "batch_map c (x # b) m = batch_map c b (batch_fn c x m)"
  by (simp_all add: batch_map_def)

lemma batch_map_append [simp]: "batch_map c (a @ b) m = batch_map c b (batch_map c a m)"
  by (simp add: batch_map_def)

lemma batch_map_untouched: "(\<And>x. x \<in> set b \<Longrightarrow> cf_of x \<noteq> c) \<Longrightarrow> batch_map c b m = m"
proof (induction b)
  case (Cons x b)
  have "cf_of x \<noteq> c" using Cons.prems by simp
  then have "batch_fn c x m = m" by (cases x) auto
  with Cons show ?case by simp
qed simp

lemma get_cf_step: "get_cf (batch_step db x) c = batch_fn c x (get_cf db c)"
  by (cases x) (auto simp: get_cf_def fun_eq_iff)

lemma get_cf_write: "get_cf (db_write b db) c = batch_map c b (get_cf db c)"
  by (induction b arbitrary: db) (simp_all add: db_write_def get_cf_step)

lemma kv_inv_write: "(\<And>c. kv_inv (db c)) \<Longrightarrow> kv_inv (db_write b db c)"
proof (induction b arbitrary: db)
  case (Cons x b)
  then show ?case by (cases x) (auto simp: db_write_def)
qed (simp add: db_write_def)

text \<open>Batches made of deletions of a key list, or of puts.\<close>

lemma batch_map_dels:
  "batch_map c (map (\<lambda>(k, _). DelCf c k) rows) m = (\<lambda>k. if k \<in> fst ` set rows then None else m k)"
  by (induction rows arbitrary: m) (auto simp: fun_eq_iff)

lemma batch_map_puts:
  "batch_map c (map (\<lambda>(q, b). PutCf c (f q) b) rows) m = m ++ map_of (rev (map (apfst f) rows))"
  by (induction rows arbitrary: m) (auto simp: map_add_def fun_eq_iff split: option.splits)

section \<open>The invariant and the views\<close>

text \<open>Per family: the shape of its rows, and what they denote. Both depend on the rows only as a map.\<close>

type_synonym rows = "bytes \<rightharpoonup> bytes"

definition clocks_ok :: "rows \<Rightarrow> bool" where
  "clocks_ok m \<longleftrightarrow> (\<forall>k v. m k = Some v \<longrightarrow>
     (\<exists>o' c. ok_name o' \<and> k = name_key o' \<and> u64_clock c \<and> v = clock_bytes c))"

definition clock_view :: "rows \<Rightarrow> string \<Rightarrow> clock" where
  "clock_view m o' = (if ok_name o' then
     (case m (name_key o') of
        None \<Rightarrow> clock_default
      | Some v \<Rightarrow> (case clock_from v of Inr c \<Rightarrow> c | Inl _ \<Rightarrow> clock_default)) else clock_default)"

definition journal_ok :: "rows \<Rightarrow> bool" where
  "journal_ok m \<longleftrightarrow> (\<forall>k. m k \<noteq> None \<longrightarrow>
     (\<exists>o' q. ok_name o' \<and> q < 2 ^ 64 \<and> k = name_key o' @ be_bytes64 q))"

definition journal_view :: "rows \<Rightarrow> string \<Rightarrow> nat \<rightharpoonup> bytes" where
  "journal_view m o' q = (if ok_name o' \<and> q < 2 ^ 64 then m (name_key o' @ be_bytes64 q) else None)"

definition holds_ok :: "rows \<Rightarrow> rows \<Rightarrow> bool" where
  "holds_ok m by \<longleftrightarrow>
     (\<forall>k. m k \<noteq> None \<longrightarrow> (\<exists>o' h. ok_name o' \<and> length h = 32 \<and> k = name_key o' @ h)) \<and>
     (\<forall>k. by k \<noteq> None \<longrightarrow> (\<exists>o' h. ok_name o' \<and> length h = 32 \<and> k = h @ bytes_of o')) \<and>
     (\<forall>o' h. ok_name o' \<longrightarrow> length h = 32 \<longrightarrow>
        (m (name_key o' @ h) \<noteq> None \<longleftrightarrow> by (h @ bytes_of o') \<noteq> None))"

definition held_view :: "rows \<Rightarrow> string \<Rightarrow> bytes set" where
  "held_view m o' = {h. ok_name o' \<and> length h = 32 \<and> m (name_key o' @ h) \<noteq> None}"

definition facts_ok :: "codec \<Rightarrow> rows \<Rightarrow> rows \<Rightarrow> rows \<Rightarrow> bool" where
  "facts_ok C path att nar \<longleftrightarrow>
     (\<forall>pk h. path pk = Some h \<longrightarrow>
        (\<exists>a. length (nar_hash a) = 32 \<and> canonical a \<and> path_key_of a = pk \<and> h = attestation_hash C a \<and>
             att (att_key h pk) = Some (enc_att C a) \<and> nar (nar_key a) = Some h)) \<and>
     (\<forall>k v. att k = Some v \<longrightarrow> (\<exists>pk h. length h = 16 \<and> k = att_key h pk \<and> path pk = Some h)) \<and>
     (\<forall>k h. nar k = Some h \<longrightarrow> (\<exists>hp nh. k = nh @ hp \<and> length nh = 32 \<and> path (hp @ nh) = Some h))"

definition fact_view :: "codec \<Rightarrow> rows \<Rightarrow> rows \<Rightarrow> bytes \<rightharpoonup> attestation" where
  "fact_view C path att pk =
     (case path pk of None \<Rightarrow> None | Some h \<Rightarrow> Option.bind (att (att_key h pk)) (dec_att C))"

definition marks_ok :: "rows \<Rightarrow> bool" where
  "marks_ok m \<longleftrightarrow> (\<forall>k v. m k = Some v \<longrightarrow>
     (\<exists>p o' q. ok_name p \<and> ok_name o' \<and> 0 < q \<and> q < 2 ^ 64 \<and> k = name_key p @ bytes_of o' \<and> v = be_bytes64 q))"

definition mark_view :: "rows \<Rightarrow> string \<Rightarrow> string \<Rightarrow> nat" where
  "mark_view m p o' =
     (if ok_name p \<and> ok_name o' then
        (case m (name_key p @ bytes_of o') of None \<Rightarrow> 0 | Some v \<Rightarrow> of_be_bytes v)
      else 0)"

definition meta_ok :: "rows \<Rightarrow> bool" where
  "meta_ok m \<longleftrightarrow> (\<forall>k v. m k = Some v \<longrightarrow> (\<exists>x. v = bytes_of x))"

definition meta_view :: "rows \<Rightarrow> string \<rightharpoonup> string" where
  "meta_view m key = map_option string_of (m (bytes_of key))"

text \<open>An origin without a clock row has no rows at all.\<close>

definition owned_ok :: "rows \<Rightarrow> rows \<Rightarrow> rows \<Rightarrow> bool" where
  "owned_ok clocks journal hold \<longleftrightarrow> (\<forall>o'. ok_name o' \<longrightarrow> clocks (name_key o') = None \<longrightarrow>
     journal_view journal o' = Map.empty \<and> held_view hold o' = {})"

lemma owned_ok_upd:
  assumes "owned_ok clocks journal hold" "ok_name o'"
    and "journal_view journal' = (journal_view journal)(o' := J)" "held_view hold' = (held_view hold)(o' := H)"
  shows "owned_ok (clocks(name_key o' \<mapsto> v)) journal' hold'"
  using assms by (auto simp: owned_ok_def split: if_splits)

abbreviation rows_of :: "rocks \<Rightarrow> cf \<Rightarrow> rows" where
  "rows_of s c \<equiv> get_cf (rk_db s) c"

definition rocks_inv :: "codec \<Rightarrow> rocks \<Rightarrow> bool" where
  "rocks_inv C s \<longleftrightarrow>
     (\<forall>c. kv_inv (rk_db s c)) \<and> clocks_ok (rows_of s Clocks) \<and> journal_ok (rows_of s Journal) \<and>
     holds_ok (rows_of s Hold) (rows_of s Holdby) \<and>
     facts_ok C (rows_of s AttPath) (rows_of s Att) (rows_of s AttNar) \<and>
     owned_ok (rows_of s Clocks) (rows_of s Journal) (rows_of s Hold) \<and>
     marks_ok (rows_of s Wm) \<and> meta_ok (rows_of s Meta) \<and>
     agg_of (rk_agg s) (map snd (rk_db s AttPath))"

definition rk_clock :: "rocks \<Rightarrow> string \<Rightarrow> clock" where "rk_clock s = clock_view (rows_of s Clocks)"
definition rk_journal :: "rocks \<Rightarrow> string \<Rightarrow> nat \<rightharpoonup> bytes" where "rk_journal s = journal_view (rows_of s Journal)"
definition rk_held :: "rocks \<Rightarrow> string \<Rightarrow> bytes set" where "rk_held s = held_view (rows_of s Hold)"
definition rk_fact :: "codec \<Rightarrow> rocks \<Rightarrow> bytes \<rightharpoonup> attestation" where
  "rk_fact C s = fact_view C (rows_of s AttPath) (rows_of s Att)"
definition rk_mark :: "rocks \<Rightarrow> string \<Rightarrow> string \<Rightarrow> nat" where "rk_mark s = mark_view (rows_of s Wm)"
definition rk_meta :: "rocks \<Rightarrow> string \<rightharpoonup> string" where "rk_meta s = meta_view (rows_of s Meta)"

lemmas rk_views = rk_clock_def rk_journal_def rk_held_def rk_fact_def rk_mark_def rk_meta_def

lemmas rows_ok_defs = clocks_ok_def journal_ok_def holds_ok_def facts_ok_def marks_ok_def meta_ok_def

lemma rocks_inv_empty: "rocks_inv C rocks_empty"
  by (auto simp: rocks_inv_def rocks_empty_def get_cf_def rows_ok_defs owned_ok_def journal_view_def held_view_def)

section \<open>Clocks\<close>

lemma clock_view_u64: "clocks_ok m \<Longrightarrow> u64_clock (clock_view m o')"
  by (fastforce simp: clock_view_def clocks_ok_def clock_from_bytes clock_default_def u64_clock_def
      split: option.split)

lemma clock_view_put:
  "ok_name o' \<Longrightarrow> u64_clock c \<Longrightarrow> clock_view (m(name_key o' \<mapsto> clock_bytes c)) = (clock_view m)(o' := c)"
  by (auto simp: clock_view_def clock_from_bytes fun_eq_iff)

lemma clocks_ok_put: "ok_name o' \<Longrightarrow> u64_clock c \<Longrightarrow> clocks_ok m \<Longrightarrow> clocks_ok (m(name_key o' \<mapsto> clock_bytes c))"
  by (auto simp: clocks_ok_def)

lemma rocks_clock_read: "rocks_inv C s \<Longrightarrow> ok_name o' \<Longrightarrow> rocks_clock s o' = Inr (rk_clock s o')"
  by (fastforce simp: rocks_clock_def rk_clock_def clock_view_def rocks_inv_def clocks_ok_def clock_from_bytes
      split: option.split)

section \<open>Journals\<close>

definition journal_puts :: "string \<Rightarrow> (nat \<times> bytes) list \<Rightarrow> batch_op list" where
  "journal_puts o' journal = map (\<lambda>(q, b). PutCf Journal (name_key o' @ be_bytes64 q) b) journal"

lemma journal_puts_eq:
  "ok_name o' \<Longrightarrow> map_res (\<lambda>(q, b). bindr (jkey o' q) (\<lambda>k. Inr (PutCf Journal k b))) journal
     = Inr (journal_puts o' journal)"
  unfolding journal_puts_def by (rule map_res_Inr) auto

lemma journal_puts_other: "c \<noteq> Journal \<Longrightarrow> batch_map c (journal_puts o' journal) m = m"
  by (rule batch_map_untouched) (auto simp: journal_puts_def)

lemma journal_view_puts:
  assumes "ok_name o'" and "\<And>q b. (q, b) \<in> set journal \<Longrightarrow> q < 2 ^ 64"
  shows "journal_view (batch_map Journal (journal_puts o' journal) m)
    = (journal_view m)(o' := journal_view m o' ++ map_of (rev journal))"
  using assms(2)
proof (induction journal arbitrary: m)
  case (Cons r journal)
  obtain q b where r: "r = (q, b)" by fastforce
  have q: "q < 2 ^ 64" using Cons.prems r by auto
  have "journal_view (m(name_key o' @ be_bytes64 q \<mapsto> b)) = (journal_view m)(o' := (journal_view m o')(q \<mapsto> b))"
    using assms(1) q by (auto simp: journal_view_def fun_eq_iff be_bytes64_inject)
  moreover have "journal_view (batch_map Journal (journal_puts o' journal) m')
    = (journal_view m')(o' := journal_view m' o' ++ map_of (rev journal))" for m'
    using Cons.prems by (intro Cons.IH) auto
  moreover have "batch_map Journal (journal_puts o' (r # journal)) m
    = batch_map Journal (journal_puts o' journal) (m(name_key o' @ be_bytes64 q \<mapsto> b))"
    by (simp add: r journal_puts_def)
  moreover have "(J(q \<mapsto> b)) ++ map_of (rev journal) = J ++ map_of (rev (r # journal))" for J :: "nat \<rightharpoonup> bytes"
    by (simp add: r fun_eq_iff map_add_def split: option.splits)
  ultimately show ?case by (simp del: rev.simps)
qed (simp add: journal_puts_def)

lemma journal_ok_puts:
  assumes "ok_name o'" and "\<And>q b. (q, b) \<in> set journal \<Longrightarrow> q < 2 ^ 64" and "journal_ok m"
  shows "journal_ok (batch_map Journal (journal_puts o' journal) m)"
  using assms(2,3)
proof (induction journal arbitrary: m)
  case (Cons r journal)
  obtain q b where r: "r = (q, b)" by fastforce
  have q: "q < 2 ^ 64" using Cons.prems r by auto
  have "journal_ok (m(name_key o' @ be_bytes64 q \<mapsto> b))"
    using assms(1) q Cons.prems(2) by (auto simp: journal_ok_def)
  moreover have "q' < 2 ^ 64" if "(q', b') \<in> set journal" for q' b'
    using Cons.prems(1) that by auto
  ultimately have "journal_ok (batch_map Journal (journal_puts o' journal) (m(name_key o' @ be_bytes64 q \<mapsto> b)))"
    by (intro Cons.IH)
  then show ?case by (simp add: r journal_puts_def)
qed (simp add: journal_puts_def)

section \<open>Possession\<close>

definition hold_batch :: "string \<Rightarrow> (bytes, bool) kv \<Rightarrow> batch_op list" where
  "hold_batch o' fin = concat (map (\<lambda>(h, held).
     if held then [PutCf Hold (name_key o' @ h) [], PutCf Holdby (h @ bytes_of o') []]
     else [DelCf Hold (name_key o' @ h), DelCf Holdby (h @ bytes_of o')]) fin)"

lemma apply_holds_eq: "ok_name o' \<Longrightarrow> apply_holds o' holds = Inr (hold_batch o' (last_holds holds))"
proof -
  assume o: "ok_name o'"
  have "map_res (\<lambda>(h, held). bindr (okey o') (\<lambda>k.
        let hold_key = k @ h; holdby_key = h @ bytes_of o'
        in Inr (if held then [PutCf Hold hold_key [], PutCf Holdby holdby_key []]
                else [DelCf Hold hold_key, DelCf Holdby holdby_key]))) fin
     = Inr (map (\<lambda>(h, held).
     if held then [PutCf Hold (name_key o' @ h) [], PutCf Holdby (h @ bytes_of o') []]
     else [DelCf Hold (name_key o' @ h), DelCf Holdby (h @ bytes_of o')]) fin)" for fin
    by (rule map_res_Inr) (use o in auto)
  then show ?thesis by (simp add: apply_holds_def hold_batch_def)
qed

lemma hold_batch_other: "c \<noteq> Hold \<Longrightarrow> c \<noteq> Holdby \<Longrightarrow> batch_map c (hold_batch o' fin) m = m"
  by (rule batch_map_untouched) (auto simp: hold_batch_def split: if_splits)

lemma hold_batch_simps:
  "hold_batch o' [] = []"
  "hold_batch o' ((h, True) # fin) = PutCf Hold (name_key o' @ h) [] # PutCf Holdby (h @ bytes_of o') [] # hold_batch o' fin"
  "hold_batch o' ((h, False) # fin) = DelCf Hold (name_key o' @ h) # DelCf Holdby (h @ bytes_of o') # hold_batch o' fin"
  by (simp_all add: hold_batch_def)

lemma last_holds_snoc:
  "last_holds (holds @ [x]) = kv_put (hold_hash x) (case x of HAdd h \<Rightarrow> True | HDrop h \<Rightarrow> False) (last_holds holds)"
  by (simp add: last_holds_def split: hold_op.split)

lemma last_holds_kv: "kv_inv (last_holds holds)"
  by (induction holds rule: rev_induct) (simp_all add: last_holds_snoc, simp add: last_holds_def)

lemma last_holds_keys: "fst ` set (last_holds holds) = hold_hash ` set holds"
  by (induction holds rule: rev_induct) (simp_all add: last_holds_snoc set_kv_put, simp add: last_holds_def)

lemma last_holds_state:
  "h \<in> foldl hold_step H holds \<longleftrightarrow> (case map_of (last_holds holds) h of None \<Rightarrow> h \<in> H | Some b \<Rightarrow> b)"
proof (induction holds rule: rev_induct)
  case (snoc x holds)
  then show ?case by (cases x) (simp_all add: last_holds_snoc)
qed (simp add: last_holds_def)

lemma holds_ok_step:
  assumes "ok_name o'" "length h = 32" "holds_ok m by"
  shows "holds_ok (m(name_key o' @ h := if held then Some [] else None))
                  (by(h @ bytes_of o' := if held then Some [] else None))"
proof -
  have "h' @ bytes_of o'' = h @ bytes_of o' \<longleftrightarrow> h' = h \<and> o'' = o'" if "length h' = 32" for h' o''
    using assms(2) that by auto
  then show ?thesis
    using assms by (cases held) (auto simp: holds_ok_def)
qed

lemma holds_ok_batch:
  assumes "ok_name o'" and "\<And>h. h \<in> fst ` set fin \<Longrightarrow> length h = 32" and "holds_ok m by"
  shows "holds_ok (batch_map Hold (hold_batch o' fin) m) (batch_map Holdby (hold_batch o' fin) by)"
  using assms(2,3)
proof (induction fin arbitrary: m "by")
  case (Cons r fin)
  obtain h held where r: "r = (h, held)" by fastforce
  have "holds_ok (m(name_key o' @ h := if held then Some [] else None))
                  (by(h @ bytes_of o' := if held then Some [] else None))"
    using Cons.prems assms(1) by (intro holds_ok_step) (auto simp: r)
  then show ?case
    using Cons by (cases held) (auto simp: r hold_batch_simps)
qed (simp add: hold_batch_simps)

lemma held_view_batch:
  assumes "ok_name o'" and "\<And>h. h \<in> fst ` set fin \<Longrightarrow> length h = 32" and "distinct (map fst fin)"
  shows "held_view (batch_map Hold (hold_batch o' fin) m)
     = (held_view m)(o' := {h. case map_of fin h of None \<Rightarrow> h \<in> held_view m o' | Some b \<Rightarrow> b})"
  using assms(2,3)
proof (induction fin arbitrary: m)
  case (Cons r fin)
  obtain h held where r: "r = (h, held)" by fastforce
  have h: "length h = 32" using Cons.prems r by simp
  have step: "held_view (m(name_key o' @ h := if held then Some [] else None))
     = (held_view m)(o' := {h'. if h' = h then held else h' \<in> held_view m o'})"
    using assms(1) h by (cases held) (auto simp: held_view_def fun_eq_iff)
  have "map_of fin h = None" using Cons.prems(2) r by (auto simp: map_of_eq_None_iff)
  then have "{h'. case map_of fin h' of None \<Rightarrow> if h' = h then held else h' \<in> held_view m o' | Some b \<Rightarrow> b}
     = {h'. case map_of (r # fin) h' of None \<Rightarrow> h' \<in> held_view m o' | Some b \<Rightarrow> b}"
    by (auto simp: r split: option.splits if_splits)
  moreover have "batch_map Hold (hold_batch o' (r # fin)) m
     = batch_map Hold (hold_batch o' fin) (m(name_key o' @ h := if held then Some [] else None))"
    by (cases held) (auto simp: r hold_batch_simps)
  moreover have "held_view (batch_map Hold (hold_batch o' fin) m')
     = (held_view m')(o' := {h. case map_of fin h of None \<Rightarrow> h \<in> held_view m' o' | Some b \<Rightarrow> b})" for m'
    using Cons.prems by (intro Cons.IH) auto
  ultimately show ?case by (simp only: step fun_upd_same fun_upd_upd mem_Collect_eq)
qed (simp add: hold_batch_simps fun_eq_iff)

lemma held_view_holds:
  assumes "ok_name o'" and "\<And>x. x \<in> set holds \<Longrightarrow> length (hold_hash x) = 32"
  shows "held_view (batch_map Hold (hold_batch o' (last_holds holds)) m)
     = (held_view m)(o' := foldl hold_step (held_view m o') holds)"
proof -
  have "\<And>h. h \<in> fst ` set (last_holds holds) \<Longrightarrow> length h = 32"
    using assms(2) by (auto simp: last_holds_keys)
  moreover have "foldl hold_step (held_view m o') holds
     = {h. case map_of (last_holds holds) h of None \<Rightarrow> h \<in> held_view m o' | Some b \<Rightarrow> b}"
    using last_holds_state by blast
  ultimately show ?thesis
    using held_view_batch [of o' "last_holds holds" m] assms(1) kv_inv_distinct [OF last_holds_kv]
    by simp
qed

end
