(* ===== verification/Rocks_Facts.thy ===== *)
theory Rocks_Facts
  imports Rocks_Laws
begin

text \<open>
  The fact tables of the embedded backend: merging a list of attestations leaves, per
  identity, the stored fact settled with the coalesced incoming ones, keeps the three tables
  in agreement and keeps the aggregates equal to the XOR of the hashes in \<open>att_path\<close>. The
  batch is analysed row by row: rows have distinct identities, so reading the database
  before the batch is reading it between the rows.
\<close>

section \<open>Coalescing\<close>

lemma coalesce_one_map:
  "map_of (coalesce_one inc acc)
     = (map_of acc)(path_key_of inc := row_merge (map_of acc (path_key_of inc)) inc)"
  by (induction inc acc rule: coalesce_one.induct) (auto simp: row_merge_def fun_eq_iff split: option.splits)

lemma coalesce_one_keys: "fst ` set (coalesce_one inc acc) = insert (path_key_of inc) (fst ` set acc)"
  by (induction inc acc rule: coalesce_one.induct) auto

lemma coalesce_one_distinct: "distinct (map fst acc) \<Longrightarrow> distinct (map fst (coalesce_one inc acc))"
proof (induction inc acc rule: coalesce_one.induct)
  case (2 inc pk a acc)
  moreover have "pk \<in> fst ` set (coalesce_one inc acc) \<longleftrightarrow> pk = path_key_of inc \<or> pk \<in> fst ` set acc"
    by (simp add: coalesce_one_keys)
  ultimately show ?case by auto
qed simp

lemma coalesce_snoc:
  "coalesce (xs @ [inc]) = (if length (nar_hash inc) \<noteq> 32 then coalesce xs else coalesce_one inc (coalesce xs))"
  by (simp add: coalesce_def)

lemma coalesce_distinct: "distinct (map fst (coalesce attests))"
  by (induction attests rule: rev_induct) (auto simp: coalesce_snoc coalesce_one_distinct, simp add: coalesce_def)

lemma coalesce_incoming: "map_of (coalesce attests) pk = incoming attests pk"
proof (induction attests arbitrary: pk rule: rev_induct)
  case (snoc inc attests)
  then show ?case by (auto simp: coalesce_snoc coalesce_one_map incoming_def)
qed (simp add: coalesce_def incoming_def)

lemma incoming_row:
  assumes "incoming attests pk = Some a"
  shows "canonical a \<and> path_key_of a = pk \<and> length (nar_hash a) = 32"
  using assms
proof (induction attests arbitrary: a rule: rev_induct)
  case (snoc inc attests)
  show ?case
  proof (cases "length (nar_hash inc) = 32 \<and> path_key_of inc = pk")
    case False
    then have "incoming (attests @ [inc]) pk = incoming attests pk" by (auto simp: incoming_def)
    with snoc show ?thesis by simp
  next
    case True
    then have eq: "incoming (attests @ [inc]) pk = row_merge (incoming attests pk) inc"
      by (simp add: incoming_def)
    show ?thesis
    proof (cases "incoming attests pk")
      case None
      with eq snoc.prems have "a = canonicalize inc" by simp
      then show ?thesis using True by simp
    next
      case (Some b)
      have b: "canonical b" "path_key_of b = pk" "length (nar_hash b) = 32" using snoc.IH Some by auto
      have a: "a = join_att b inc" using eq snoc.prems Some by simp
      have "hash_part_of (store_path b) = hash_part_of (store_path inc)"
        using b True path_key_inject [of b inc] by simp
      then have "hash_part_of (store_path a) = hash_part_of (store_path b)"
        using a store_path_join [of b inc] by auto
      then show ?thesis using a b by (simp add: path_key_of_def)
    qed
  qed
qed (simp add: incoming_def)

section \<open>One row\<close>

lemma commit_append: "commit_with_delta (a @ b) (d @ e) s = commit_with_delta b e (commit_with_delta a d s)"
  by (simp add: commit_with_delta_def db_write_def)

lemma commit_Nil [simp]: "commit_with_delta [] [] s = s"
  by (simp add: commit_with_delta_def db_write_def)

lemma rows_commit [simp]: "rows_of (commit_with_delta B D s) c = batch_map c B (rows_of s c)"
  by (simp add: commit_with_delta_def get_cf_write)

lemma merge_row_shift:
  "merge_row C db row (b, d, n) =
     map_sum id (\<lambda>(b', d', n'). (b @ b', d @ d', n + n')) (merge_row C db row ([], [], 0))"
  by (cases row) (simp add: merge_row_def bindr_def Let_def split: option.splits sum.splits prod.splits)

lemma merge_row_cong:
  assumes "get_cf db AttPath pk = get_cf db' AttPath pk"
    and "\<And>h. length h = 16 \<Longrightarrow> get_cf db Att (att_key h pk) = get_cf db' Att (att_key h pk)"
  shows "merge_row C db (pk, inc) acc = merge_row C db' (pk, inc) acc"
proof -
  have "att_at C db h pk = att_at C db' h pk" for h
    using assms(2) by (simp add: att_at_def)
  then show ?thesis using assms(1)
    by (cases "get_cf db' AttPath pk") (simp_all add: merge_row_def)
qed

lemma mset_kv_put_new:
  "map_of t k = None \<Longrightarrow> mset (map snd (kv_put k v t)) = add_mset v (mset (map snd t))"
  by (induction k v t rule: kv_put.induct) (auto split: if_splits)

lemma mset_kv_put_old:
  "kv_inv t \<Longrightarrow> map_of t k = Some u \<Longrightarrow>
     add_mset u (mset (map snd (kv_put k v t))) = add_mset v (mset (map snd t))"
proof (induction k v t rule: kv_put.induct)
  case (2 k v k' v' t)
  have "u \<in> snd ` set t \<and> k' < k" if "k \<noteq> k'"
  proof -
    from that 2(3) have "(k, u) \<in> set t" by (auto dest: map_of_SomeD)
    then show ?thesis using 2(2) by (force simp: kv_inv_Cons)
  qed
  with 2 show ?case by (auto simp: kv_inv_Cons)
qed simp

lemma exchange:
  assumes "x \<in> set hs" and "add_mset x (mset gs) = add_mset y (mset hs)"
  shows "mset (y # remove1 x hs) = mset gs"
proof -
  have "mset hs = add_mset x (mset (remove1 x hs))" using assms(1) by simp
  then have "add_mset x (mset gs) = add_mset x (mset (y # remove1 x hs))"
    using assms(2) by (simp del: mset_remove1)
  then show ?thesis by (simp del: mset_remove1)
qed

context wire_codec
begin

lemma length_attestation_hash [simp]: "length (attestation_hash C a) = 16"
  by (simp add: attestation_hash_def)

lemma att_key_eq: "length h = 16 \<Longrightarrow> length h' = 16 \<Longrightarrow> att_key h pk = att_key h' pk' \<longleftrightarrow> h = h' \<and> pk = pk'"
  by (simp add: att_key_def)

lemma nar_key_eq:
  "length (nar_hash a) = 32 \<Longrightarrow> length (nar_hash b) = 32 \<Longrightarrow> nar_key a = nar_key b \<longleftrightarrow> path_key_of a = path_key_of b"
  by (auto simp: nar_key_def path_key_of_def)

lemma fact_view_row:
  assumes "facts_ok C path att nar" and "path pk = Some h"
  obtains a where "length (nar_hash a) = 32" "canonical a" "path_key_of a = pk" "h = attestation_hash C a"
    "att (att_key h pk) = Some (enc_att C a)" "nar (nar_key a) = Some h" "fact_view C path att pk = Some a"
proof -
  obtain a where "length (nar_hash a) = 32" "canonical a" "path_key_of a = pk" "h = attestation_hash C a"
    "att (att_key h pk) = Some (enc_att C a)" "nar (nar_key a) = Some h"
    using assms by (auto simp: facts_ok_def)
  moreover from this assms(2) have "fact_view C path att pk = Some a" by (simp add: fact_view_def)
  ultimately show thesis by (rule that)
qed

lemma facts_ok_move:
  assumes ok: "facts_ok C path att nar"
    and m: "canonical m" "path_key_of m = pk" "length (nar_hash m) = 32"
    and old: "\<And>h. path pk = Some h \<Longrightarrow> h \<noteq> attestation_hash C m"
    and att': "att' = (case path pk of None \<Rightarrow> att | Some h \<Rightarrow> att(att_key h pk := None))
                  (att_key (attestation_hash C m) pk \<mapsto> enc_att C m)"
  shows "facts_ok C (path(pk \<mapsto> attestation_hash C m)) att' (nar(nar_key m \<mapsto> attestation_hash C m))"
    and "fact_view C (path(pk \<mapsto> attestation_hash C m)) att' = (fact_view C path att)(pk \<mapsto> m)"
proof -
  let ?h = "attestation_hash C m"
  have len: "length h = 16" if "path pk' = Some h" for pk' h
    using fact_view_row [OF ok that] by (metis length_attestation_hash)
  have other: "att' (att_key h' pk') = att (att_key h' pk')" if "pk' \<noteq> pk" "length h' = 16" for h' pk'
    using that len [of pk] by (auto simp: att' att_key_eq split: option.splits)
  have mine: "att' (att_key ?h pk) = Some (enc_att C m)" by (simp add: att')
  have origin: "k = att_key ?h pk \<or> (\<exists>pk' h'. length h' = 16 \<and> k = att_key h' pk' \<and> path pk' = Some h' \<and> pk' \<noteq> pk)"
    if "att' k = Some v" for k v
  proof (cases "k = att_key ?h pk")
    case False
    then have k: "att k = Some v" "\<forall>h. path pk = Some h \<longrightarrow> k \<noteq> att_key h pk"
      using that by (auto simp: att' split: option.splits if_splits)
    obtain pk' h' where "length h' = 16" "k = att_key h' pk'" "path pk' = Some h'"
      using ok k(1) unfolding facts_ok_def by metis
    with k(2) show ?thesis by auto
  qed simp
  show "facts_ok C (path(pk \<mapsto> ?h)) att' (nar(nar_key m \<mapsto> ?h))"
    unfolding facts_ok_def
  proof (intro conjI allI impI)
    fix pk' h assume h: "(path(pk \<mapsto> ?h)) pk' = Some h"
    show "\<exists>a. length (nar_hash a) = 32 \<and> canonical a \<and> path_key_of a = pk' \<and> h = attestation_hash C a \<and>
        att' (att_key h pk') = Some (enc_att C a) \<and> (nar(nar_key m \<mapsto> ?h)) (nar_key a) = Some h"
    proof (cases "pk' = pk")
      case True
      then show ?thesis using h m mine by auto
    next
      case False
      then obtain a where a: "length (nar_hash a) = 32" "canonical a" "path_key_of a = pk'" "h = attestation_hash C a"
        "att (att_key h pk') = Some (enc_att C a)" "nar (nar_key a) = Some h"
        using h fact_view_row [OF ok, of pk' h] by auto
      moreover have "nar_key a \<noteq> nar_key m" using nar_key_eq [OF a(1) m(3)] a(3) m(2) False by simp
      moreover have "att' (att_key h pk') = att (att_key h pk')" using other False a(4) by simp
      ultimately show ?thesis by (intro exI [of _ a]) simp
    qed
  next
    fix k v assume "att' k = Some v"
    from origin [OF this] show "\<exists>pk' h. length h = 16 \<and> k = att_key h pk' \<and> (path(pk \<mapsto> ?h)) pk' = Some h"
      by (metis fun_upd_other fun_upd_same length_attestation_hash)
  next
    fix k h assume k: "(nar(nar_key m \<mapsto> ?h)) k = Some h"
    show "\<exists>hp nh. k = nh @ hp \<and> length nh = 32 \<and> (path(pk \<mapsto> ?h)) (hp @ nh) = Some h"
    proof (cases "k = nar_key m")
      case True
      with k m show ?thesis by (auto simp: nar_key_def path_key_of_def)
    next
      case False
      then have "nar k = Some h" using k by simp
      with ok have "\<exists>hp nh. k = nh @ hp \<and> length nh = 32 \<and> path (hp @ nh) = Some h"
        unfolding facts_ok_def by blast
      then obtain hp nh where n: "k = nh @ hp" "length nh = 32" "path (hp @ nh) = Some h" by blast
      have "hp @ nh \<noteq> pk"
        using False m n by (auto simp: nar_key_def path_key_of_def)
      with n show ?thesis by auto
    qed
  qed
  show "fact_view C (path(pk \<mapsto> ?h)) att' = (fact_view C path att)(pk \<mapsto> m)"
    by (auto simp: fact_view_def fun_eq_iff mine other len split: option.splits)
qed

text \<open>The families a merge leaves alone, and the part of the invariant a merge maintains.\<close>

definition facts_inv :: "rocks \<Rightarrow> bool" where
  "facts_inv s \<longleftrightarrow> (\<forall>c. kv_inv (rk_db s c)) \<and>
     facts_ok C (rows_of s AttPath) (rows_of s Att) (rows_of s AttNar) \<and>
     agg_of (rk_agg s) (map snd (rk_db s AttPath))"

definition att_batch :: "batch_op list \<Rightarrow> bool" where
  "att_batch B \<longleftrightarrow> (\<forall>x\<in>set B. cf_of x \<in> {Att, AttPath, AttNar})"

lemma att_batch_other: "att_batch B \<Longrightarrow> c \<notin> {Att, AttPath, AttNar} \<Longrightarrow> batch_map c B m = m"
  by (rule batch_map_untouched) (auto simp: att_batch_def)

lemma path_hash_16: "facts_inv s \<Longrightarrow> rows_of s AttPath pk = Some h \<Longrightarrow> length h = 16"
  unfolding facts_inv_def by (metis fact_view_row length_attestation_hash)

lemma path_hashes_16: "facts_inv s \<Longrightarrow> h \<in> set (map snd (rk_db s AttPath)) \<Longrightarrow> length h = 16"
proof -
  assume s: "facts_inv s" and h: "h \<in> set (map snd (rk_db s AttPath))"
  from h obtain pk where "(pk, h) \<in> set (rk_db s AttPath)" by auto
  then have "rows_of s AttPath pk = Some h"
    using s by (simp add: facts_inv_def get_cf_def kv_mem_iff)
  then show ?thesis by (rule path_hash_16 [OF s])
qed

text \<open>The row batch when the stored value changes: the fact moves to its new hash.\<close>

definition move_batch :: "bytes option \<Rightarrow> bytes \<Rightarrow> attestation \<Rightarrow> batch_op list" where
  "move_batch old pk m = (case old of None \<Rightarrow> [] | Some oh \<Rightarrow> [DelCf Att (att_key oh pk)]) @
     [PutCf Att (att_key (attestation_hash C m) pk) (enc_att C m), PutCf AttPath pk (attestation_hash C m),
      PutCf AttNar (nar_key m) (attestation_hash C m)]"

definition move_delta :: "bytes option \<Rightarrow> attestation \<Rightarrow> bytes list" where
  "move_delta old m = (case old of None \<Rightarrow> [] | Some oh \<Rightarrow> [oh]) @ [attestation_hash C m]"

lemma move_batch_att: "att_batch (move_batch old pk m)"
  by (auto simp: att_batch_def move_batch_def split: option.splits)

lemma kv_inv_commit: "(\<And>c. kv_inv (rk_db s c)) \<Longrightarrow> kv_inv (rk_db (commit_with_delta B D s) c)"
  by (simp add: commit_with_delta_def kv_inv_write)

definition only_row :: "bytes \<Rightarrow> rocks \<Rightarrow> rocks \<Rightarrow> bool" where
  "only_row pk s s' \<longleftrightarrow> (\<forall>pk'. pk' \<noteq> pk \<longrightarrow> rows_of s' AttPath pk' = rows_of s AttPath pk' \<and>
     (\<forall>h. length h = 16 \<longrightarrow> rows_of s' Att (att_key h pk') = rows_of s Att (att_key h pk')))"

lemma only_row_refl: "only_row pk s s"
  by (simp add: only_row_def)

lemma move_row:
  assumes s: "facts_inv s" and m: "canonical m" "path_key_of m = pk" "length (nar_hash m) = 32"
    and changed: "rows_of s AttPath pk \<noteq> Some (attestation_hash C m)"
  defines "s' \<equiv> commit_with_delta (move_batch (rows_of s AttPath pk) pk m) (move_delta (rows_of s AttPath pk) m) s"
  shows "facts_inv s'" and "rk_fact C s' = (rk_fact C s)(pk \<mapsto> m)" and "only_row pk s s'"
proof -
  let ?h = "attestation_hash C m"
  have path: "rows_of s' AttPath = (rows_of s AttPath)(pk \<mapsto> ?h)"
    and nar: "rows_of s' AttNar = (rows_of s AttNar)(nar_key m \<mapsto> ?h)"
    and att: "rows_of s' Att = (case rows_of s AttPath pk of None \<Rightarrow> rows_of s Att
        | Some h \<Rightarrow> (rows_of s Att)(att_key h pk := None))(att_key ?h pk \<mapsto> enc_att C m)"
    by (auto simp: s'_def move_batch_def split: option.splits)
  have ok: "facts_ok C (rows_of s AttPath) (rows_of s Att) (rows_of s AttNar)"
    and kv: "\<And>c. kv_inv (rk_db s c)" and agg: "agg_of (rk_agg s) (map snd (rk_db s AttPath))"
    using s by (simp_all add: facts_inv_def)
  have old: "h \<noteq> ?h" if "rows_of s AttPath pk = Some h" for h
    using changed that by auto
  have f: "facts_ok C (rows_of s' AttPath) (rows_of s' Att) (rows_of s' AttNar)"
    unfolding path nar by (rule facts_ok_move(1) [OF ok m old att])
  show "rk_fact C s' = (rk_fact C s)(pk \<mapsto> m)"
    unfolding rk_fact_def path by (rule facts_ok_move(2) [OF ok m old att])
  show "only_row pk s s'"
    unfolding only_row_def
  proof (intro allI impI conjI)
    fix pk' h assume ne: "pk' \<noteq> pk"
    then show "rows_of s' AttPath pk' = rows_of s AttPath pk'" by (simp add: path)
    assume h: "length (h :: bytes) = 16"
    show "rows_of s' Att (att_key h pk') = rows_of s Att (att_key h pk')"
      using ne h path_hash_16 [OF s, of pk] by (cases "rows_of s AttPath pk") (simp_all add: att att_key_eq)
  qed
  have t: "rk_db s' AttPath = kv_put pk ?h (rk_db s AttPath)"
    by (auto simp: s'_def commit_with_delta_def db_write_def move_batch_def split: option.splits)
  have "agg_of (rk_agg s') (map snd (rk_db s' AttPath))"
  proof (cases "rows_of s AttPath pk")
    case None
    then have "agg_of (rk_agg s') (?h # map snd (rk_db s AttPath))"
      by (simp add: s'_def commit_with_delta_def move_delta_def agg_of_xor [OF agg])
    then show ?thesis
      by (rule agg_of_perm) (use None mset_kv_put_new [of "rk_db s AttPath" pk ?h] in \<open>simp add: t get_cf_def\<close>)
  next
    case (Some oh)
    then have mem: "oh \<in> set (map snd (rk_db s AttPath))"
      by (force simp: get_cf_def dest: map_of_SomeD)
    have "agg_of (agg_xor oh (rk_agg s)) (remove1 oh (map snd (rk_db s AttPath)))"
      by (rule agg_of_remove [OF agg mem path_hashes_16 [OF s]])
    then have "agg_of (rk_agg s') (?h # remove1 oh (map snd (rk_db s AttPath)))"
      using Some by (simp add: s'_def commit_with_delta_def move_delta_def agg_of_xor)
    moreover have "mset (?h # remove1 oh (map snd (rk_db s AttPath))) = mset (map snd (rk_db s' AttPath))"
      by (rule exchange) (use kv Some mem mset_kv_put_old [of "rk_db s AttPath" pk oh ?h] in \<open>simp_all add: t get_cf_def del: mset_map\<close>)
    ultimately show ?thesis by (rule agg_of_perm)
  qed
  with f kv show "facts_inv s'" by (simp add: facts_inv_def s'_def kv_inv_commit)
qed

text \<open>One coalesced row: what \<open>merge_row\<close> adds to the batch, and its effect.\<close>

lemma merge_row_effect:
  assumes s: "facts_inv s" and inc: "canonical inc" "path_key_of inc = pk" "length (nar_hash inc) = 32"
  shows "\<exists>B D n. merge_row C (rk_db s) (pk, inc) ([], [], 0) = Inr (B, D, n) \<and> att_batch B \<and>
     (n = 0 \<longrightarrow> B = [] \<and> D = []) \<and> facts_inv (commit_with_delta B D s) \<and>
     rk_fact C (commit_with_delta B D s) = (rk_fact C s)(pk \<mapsto> settle C (rk_fact C s pk) inc) \<and>
     only_row pk s (commit_with_delta B D s)"
proof (cases "rows_of s AttPath pk")
  case None
  have "merge_row C (rk_db s) (pk, inc) ([], [], 0) = Inr (move_batch None pk inc, move_delta None inc, 1)"
    using None inc(1) by (simp add: merge_row_def move_batch_def move_delta_def Let_def canonical_def)
  moreover have "rk_fact C s pk = None" using None by (simp add: rk_fact_def fact_view_def)
  ultimately show ?thesis
    using move_row [OF s inc] None by (auto simp: settle_def move_batch_att)
next
  case (Some h)
  obtain a where a: "length (nar_hash a) = 32" "canonical a" "path_key_of a = pk" "h = attestation_hash C a"
    "rows_of s Att (att_key h pk) = Some (enc_att C a)" "fact_view C (rows_of s AttPath) (rows_of s Att) pk = Some a"
    using fact_view_row [of "rows_of s AttPath" "rows_of s Att" "rows_of s AttNar" pk h] s Some
    by (metis facts_inv_def)
  have F: "rk_fact C s pk = Some a" using a by (simp add: rk_fact_def)
  have at: "att_at C (rk_db s) h pk = Inr (Some a)"
    using a by (simp add: att_at_def att_decode_def)
  let ?m = "join_att a inc"
  show ?thesis
  proof (cases "attestation_hash C ?m = h")
    case True
    then have "merge_row C (rk_db s) (pk, inc) ([], [], 0) = Inr ([], [], 0)"
      using Some at a(4) by (auto simp: merge_row_def Let_def merge_into_Some)
    moreover have "settle C (rk_fact C s pk) inc = a" using True F a(4) by (simp add: settle_def)
    ultimately show ?thesis using s F by (auto simp: att_batch_def fun_upd_idem only_row_refl)
  next
    case False
    then have ne: "?m \<noteq> a" using a(4) by auto
    have "merge_row C (rk_db s) (pk, inc) ([], [], 0) = Inr (move_batch (Some h) pk ?m, move_delta (Some h) ?m, 1)"
      using Some at a(4) False ne
      by (auto simp: merge_row_def Let_def merge_into_Some move_batch_def move_delta_def)
    moreover have "settle C (rk_fact C s pk) inc = ?m" using False F a(4) by (simp add: settle_def)
    moreover have "path_key_of ?m = pk"
    proof -
      have "nar_hash a = nar_hash inc \<and> hash_part_of (store_path a) = hash_part_of (store_path inc)"
        using a inc path_key_inject [of a inc] by simp
      then have "hash_part_of (store_path ?m) = hash_part_of (store_path a)"
        using store_path_join [of a inc] by auto
      then show ?thesis using a(3) by (simp add: path_key_of_def)
    qed
    moreover have "rows_of s AttPath pk \<noteq> Some (attestation_hash C ?m)" using Some False by simp
    ultimately show ?thesis
      using move_row [OF s, of ?m pk] a Some by (auto simp: move_batch_att)
  qed
qed

section \<open>All rows\<close>

definition settle_rows :: "(bytes \<times> attestation) list \<Rightarrow> (bytes \<rightharpoonup> attestation) \<Rightarrow> (bytes \<rightharpoonup> attestation)" where
  "settle_rows rows F = (\<lambda>pk. case map_of rows pk of None \<Rightarrow> F pk | Some inc \<Rightarrow> Some (settle C (F pk) inc))"

lemma settle_rows_Cons:
  "pk \<notin> fst ` set rows \<Longrightarrow>
   settle_rows rows (F(pk \<mapsto> settle C (F pk) inc)) = settle_rows ((pk, inc) # rows) F"
proof (rule ext)
  assume "pk \<notin> fst ` set rows"
  then have "map_of rows pk = None" by (simp add: map_of_eq_None_iff)
  then show "settle_rows rows (F(pk \<mapsto> settle C (F pk) inc)) x = settle_rows ((pk, inc) # rows) F x" for x
    by (simp add: settle_rows_def split: option.split)
qed

lemma merge_rows_shift:
  "for_each (merge_row C db) rows (b, d, n) =
     map_sum id (\<lambda>(b', d', n'). (b @ b', d @ d', n + n')) (for_each (merge_row C db) rows ([], [], 0))"
proof (induction rows arbitrary: b d n)
  case (Cons r rows)
  show ?case
  proof (cases "merge_row C db r ([], [], 0)")
    case (Inr t)
    obtain b' d' n' where t: "t = (b', d', n')" by (cases t)
    have 1: "merge_row C db r (b, d, n) = Inr (b @ b', d @ d', n + n')"
      by (subst merge_row_shift) (simp add: Inr t)
    show ?thesis
      by (simp add: 1 Inr t) (subst (1 2) Cons.IH,
        simp add: sum.map_comp comp_def split_def add.assoc id_def)
  qed (simp add: merge_row_shift [of C db r b d n])
qed simp

lemma merge_rows_effect:
  assumes "facts_inv s" and "distinct (map fst rows)"
    and "\<And>pk inc. (pk, inc) \<in> set rows \<Longrightarrow> canonical inc \<and> path_key_of inc = pk \<and> length (nar_hash inc) = 32"
    and "\<And>pk. pk \<in> fst ` set rows \<Longrightarrow> get_cf db AttPath pk = rows_of s AttPath pk"
    and "\<And>pk h. pk \<in> fst ` set rows \<Longrightarrow> length h = 16 \<Longrightarrow>
       get_cf db Att (att_key h pk) = rows_of s Att (att_key h pk)"
  shows "\<exists>B D n. for_each (merge_row C db) rows ([], [], 0) = Inr (B, D, n) \<and> att_batch B \<and>
     (n = 0 \<longrightarrow> B = [] \<and> D = []) \<and> facts_inv (commit_with_delta B D s) \<and>
     rk_fact C (commit_with_delta B D s) = settle_rows rows (rk_fact C s)"
  using assms
proof (induction rows arbitrary: s)
  case Nil
  then show ?case by (auto simp: settle_rows_def att_batch_def)
next
  case (Cons r rows)
  obtain pk inc where r: "r = (pk, inc)" by fastforce
  have inc: "canonical inc" "path_key_of inc = pk" "length (nar_hash inc) = 32" using Cons.prems(3) r by auto
  have new: "pk \<notin> fst ` set rows" using Cons.prems(2) r by simp
  have "merge_row C db (pk, inc) ([], [], 0) = merge_row C (rk_db s) (pk, inc) ([], [], 0)"
    by (rule merge_row_cong) (use Cons.prems(4,5) r in auto)
  then obtain B D n where row: "merge_row C db r ([], [], 0) = Inr (B, D, n)" "att_batch B"
    "n = 0 \<longrightarrow> B = [] \<and> D = []" "facts_inv (commit_with_delta B D s)"
    "rk_fact C (commit_with_delta B D s) = (rk_fact C s)(pk \<mapsto> settle C (rk_fact C s pk) inc)"
    and only: "only_row pk s (commit_with_delta B D s)"
    using merge_row_effect [OF Cons.prems(1) inc] by (auto simp: r)
  let ?t = "commit_with_delta B D s"
  have "\<exists>B' D' n'. for_each (merge_row C db) rows ([], [], 0) = Inr (B', D', n') \<and> att_batch B' \<and>
     (n' = 0 \<longrightarrow> B' = [] \<and> D' = []) \<and> facts_inv (commit_with_delta B' D' ?t) \<and>
     rk_fact C (commit_with_delta B' D' ?t) = settle_rows rows (rk_fact C ?t)"
  proof (rule Cons.IH [OF row(4)])
    show "distinct (map fst rows)" using Cons.prems(2) by simp
    show "canonical x \<and> path_key_of x = k \<and> length (nar_hash x) = 32" if "(k, x) \<in> set rows" for k x
      using Cons.prems(3) [of k x] that by auto
    show "get_cf db AttPath k = rows_of ?t AttPath k" if "k \<in> fst ` set rows" for k
      using Cons.prems(4) [of k] only that new by (metis image_insert insertCI list.simps(15) only_row_def)
    show "get_cf db Att (att_key h k) = rows_of ?t Att (att_key h k)" if "k \<in> fst ` set rows" "length h = 16" for k h
      using Cons.prems(5) [of k h] only that new by (metis image_insert insertCI list.simps(15) only_row_def)
  qed
  then obtain B' D' n' where rest: "for_each (merge_row C db) rows ([], [], 0) = Inr (B', D', n')" "att_batch B'"
    "n' = 0 \<longrightarrow> B' = [] \<and> D' = []" "facts_inv (commit_with_delta B' D' ?t)"
    "rk_fact C (commit_with_delta B' D' ?t) = settle_rows rows (rk_fact C ?t)" by auto
  have "for_each (merge_row C db) (r # rows) ([], [], 0) = Inr (B @ B', D @ D', n + n')"
    using row(1) rest(1) by (simp add: merge_rows_shift [of db rows B])
  moreover have "att_batch (B @ B')" using row(2) rest(2) by (auto simp: att_batch_def)
  moreover have "rk_fact C (commit_with_delta (B @ B') (D @ D') s) = settle_rows (r # rows) (rk_fact C s)"
    using rest(5) row(5) settle_rows_Cons [OF new] by (simp add: commit_append r)
  moreover have "facts_inv (commit_with_delta (B @ B') (D @ D') s)"
    using rest(4) by (simp add: commit_append)
  ultimately show ?case using row(3) rest(3) by auto
qed

lemma settle_rows_coalesce: "settle_rows (coalesce attests) F = merge_facts C attests F"
  by (simp add: settle_rows_def merge_facts_def coalesce_incoming fun_eq_iff)

lemma merge_atts_effect:
  assumes "facts_inv s"
  shows "\<exists>B D n. merge_atts C (rk_db s) attests = Inr (B, D, n) \<and> att_batch B \<and>
     (n = 0 \<longrightarrow> B = [] \<and> D = []) \<and> facts_inv (commit_with_delta B D s) \<and>
     rk_fact C (commit_with_delta B D s) = merge_facts C attests (rk_fact C s)"
proof -
  have "canonical inc \<and> path_key_of inc = pk \<and> length (nar_hash inc) = 32" if "(pk, inc) \<in> set (coalesce attests)" for pk inc
    by (rule incoming_row [of attests])
      (use that coalesce_distinct [of attests] in \<open>simp flip: coalesce_incoming\<close>)
  then show ?thesis
    using merge_rows_effect [OF assms coalesce_distinct, of attests "rk_db s"]
    by (simp add: merge_atts_def settle_rows_coalesce)
qed

end

end
