(* ===== verification/Index.thy ===== *)
theory Index
  imports Store Sig Hex "HOL-Library.Product_Lexorder"
begin

text \<open>
  The replicated mesh index (\<open>src/index.rs\<close>): every protocol decision over a backend
  \<open>ops\<close> (the record of theory \<open>Store\<close>) and its state. A node's fixed data is the record
  \<open>index_cfg\<close>; the clock of the host, the Nix database and the derivation files an
  operation reads are arguments. What the operations guarantee is proved in
  \<open>Replica\<close> and \<open>Answers\<close> for every backend that satisfies the storage contract.
\<close>

section \<open>Constants and configuration\<close>

definition JOURNAL_BACKSTOP :: nat where "JOURNAL_BACKSTOP = 50000"
definition SUFFIX_BYTES_CAP :: nat where "SUFFIX_BYTES_CAP = 8 * 2 ^ 20"
definition ATTS_PAGE_CAP :: nat where "ATTS_PAGE_CAP = 8 * 2 ^ 20"
definition ATTS_PAGE_FLOOR :: nat where "ATTS_PAGE_FLOOR = 256 * 2 ^ 10"
definition DUMP_RESTART :: bytes where "DUMP_RESTART = [0]"
definition RANGE_BYTES_CAP :: nat where "RANGE_BYTES_CAP = 2 * 2 ^ 20"
definition RANGE_ASKS_MAX :: nat where "RANGE_ASKS_MAX = 16"
definition MERKLE_ASKS_MAX :: nat where "MERKLE_ASKS_MAX = 8"
definition MERKLE_FACTS_CAP :: nat where "MERKLE_FACTS_CAP = 4 * 2 ^ 20"
definition RESPONSE_BYTES_CAP :: nat where "RESPONSE_BYTES_CAP = 24 * 2 ^ 20"
definition EXPORT_CHUNK :: nat where "EXPORT_CHUNK = 10000"

record index_cfg =
  ix_self :: string
  ix_peers :: "string list"
  ix_trusted :: trusted_keys
  ix_crypto :: crypto
  ix_codec :: codec

text \<open>The configured universe \<open>origin_set\<close>, in the sorted order the loops use.\<close>

definition origin_names :: "index_cfg \<Rightarrow> string list" where
  "origin_names I = remdups_adj (sort (ix_self I # ix_peers I))"

definition is_known_origin :: "index_cfg \<Rightarrow> string \<Rightarrow> bool" where
  "is_known_origin I name \<longleftrightarrow> name = ix_self I \<or> name \<in> set (ix_peers I)"

section \<open>Attestations\<close>

definition well_formed :: "attestation \<Rightarrow> bool" where
  "well_formed a \<longleftrightarrow> length (nar_hash a) = 32 \<and> strip_prefix ''/'' (store_path a) \<noteq> None \<and>
     length (hash_part_of (store_path a)) = 32 \<and> (ca a \<noteq> [] \<or> sigs a \<noteq> [])"

definition att_to_remote :: "attestation \<Rightarrow> remote_narinfo" where
  "att_to_remote a = \<lparr>ri_store_path = store_path a, ri_compression = ''none'',
     ri_nar_hash = (if length (nar_hash a) = 32 then nar_hash a else replicate 32 0),
     ri_nar_size = nar_size a, ri_references = refs a, ri_deriver = None,
     ri_ca = (if ca a \<noteq> [] then Some (ca a) else None), ri_sigs = sigs a\<rparr>"

definition feasible :: "index_cfg \<Rightarrow> attestation \<Rightarrow> bool" where
  "feasible I a \<longleftrightarrow>
     (if \<not> well_formed a then False
      else if ca a \<noteq> [] then True
      else any_sig_valid (ix_crypto I) (ix_trusted I) (att_to_remote a))"

section \<open>Opening\<close>

text \<open>\<open>restart_all_dumps\<close> and the per-peer cursor kept in the meta table, as hexadecimal text.\<close>

definition cursor_key :: "string \<Rightarrow> string" where
  "cursor_key peer = ''atts_resume:'' @ peer"

definition set_dump_cursor :: "'s store_ops \<Rightarrow> string \<Rightarrow> bytes \<Rightarrow> 's \<Rightarrow> 's res" where
  "set_dump_cursor ops peer cursor s = so_meta_put ops s (cursor_key peer) (hex_encode cursor)"

definition dump_cursor :: "'s store_ops \<Rightarrow> string \<Rightarrow> 's \<Rightarrow> bytes res" where
  "dump_cursor ops peer s =
     bindr (so_meta_get ops s (cursor_key peer)) (\<lambda>v.
       Inr (case Option.bind v hex_decode of Some b \<Rightarrow> b | None \<Rightarrow> []))"

definition restart_all_dumps :: "'s store_ops \<Rightarrow> index_cfg \<Rightarrow> 's \<Rightarrow> 's res" where
  "restart_all_dumps ops I s = for_each (\<lambda>peer. set_dump_cursor ops peer DUMP_RESTART) (ix_peers I) s"

text \<open>\<open>open\<close>: the self generation is minted from the clock of the host once per store.\<close>

definition index_open :: "'s store_ops \<Rightarrow> index_cfg \<Rightarrow> nat \<Rightarrow> 's \<Rightarrow> 's res" where
  "index_open ops I now_nanos s =
     bindr (so_meta_get ops s ''self_generation'') (\<lambda>v.
     bindr (case v of
              Some g \<Rightarrow> bindr (ok_or CorruptSelfGeneration (parse_u64 g)) (\<lambda>n. Inr (n, s))
            | None \<Rightarrow> bindr (so_meta_put ops s ''self_generation'' (show_nat now_nanos)) (\<lambda>s. Inr (now_nanos, s)))
     (\<lambda>(self_gen, s).
     bindr (so_set_generation ops s (ix_self I) self_gen) (\<lambda>s.
       so_retain_origins ops s (origin_names I))))"

definition bump_self_generation :: "'s store_ops \<Rightarrow> index_cfg \<Rightarrow> nat \<Rightarrow> nat \<Rightarrow> 's \<Rightarrow> (nat \<times> 's) res" where
  "bump_self_generation ops I now_nanos floor s =
     (let g = max now_nanos (sat_add64 floor 1) in
      bindr (so_meta_put ops s ''self_generation'' (show_nat g)) (\<lambda>s.
      bindr (so_set_generation ops s (ix_self I) g) (\<lambda>s.
      bindr (restart_all_dumps ops I s) (\<lambda>s. Inr (g, s)))))"

section \<open>Watermarks and compaction\<close>

definition clock_vector :: "'s store_ops \<Rightarrow> index_cfg \<Rightarrow> 's \<Rightarrow> origin_clock list res" where
  "clock_vector ops I s =
     map_res (\<lambda>o'. bindr (so_clock ops s o') (\<lambda>c.
       Inr \<lparr>oc_origin = o', oc_generation = generation c, oc_seq = seq c\<rparr>)) (origin_names I)"

definition record_watermark :: "'s store_ops \<Rightarrow> index_cfg \<Rightarrow> string \<Rightarrow> origin_clock \<Rightarrow> 's \<Rightarrow> 's res" where
  "record_watermark ops I peer oc s =
     (if \<not> is_known_origin I (oc_origin oc) then Inr s
      else bindr (so_clock ops s (oc_origin oc)) (\<lambda>c.
        if generation c \<noteq> oc_generation oc then Inr s
        else so_advance_watermark ops s peer (oc_origin oc) (oc_seq oc)))"

definition record_watermarks :: "'s store_ops \<Rightarrow> index_cfg \<Rightarrow> string \<Rightarrow> origin_clock list \<Rightarrow> 's \<Rightarrow> 's res" where
  "record_watermarks ops I peer clocks s = for_each (record_watermark ops I peer) clocks s"

text \<open>The floor of one origin: the least watermark of the configured peers, raised by the backstop.\<close>

definition mark_of :: "(string \<times> string \<times> nat) list \<Rightarrow> string \<Rightarrow> string \<Rightarrow> nat" where
  "mark_of marks peer origin =
     (case map_of (rev (map (\<lambda>(p, o', q). ((p, o'), q)) marks)) (peer, origin) of Some q \<Rightarrow> q | None \<Rightarrow> 0)"

definition compact_floor :: "index_cfg \<Rightarrow> (string \<times> string \<times> nat) list \<Rightarrow> string \<Rightarrow> clock \<Rightarrow> nat" where
  "compact_floor I marks origin c =
     max (foldl (\<lambda>floor peer. min floor (mark_of marks peer origin)) (seq c) (ix_peers I))
         (seq c - JOURNAL_BACKSTOP)"

definition compact_one :: "'s store_ops \<Rightarrow> index_cfg \<Rightarrow> (string \<times> string \<times> nat) list \<Rightarrow> string \<Rightarrow> 's \<Rightarrow> 's res" where
  "compact_one ops I marks origin s =
     bindr (so_clock ops s origin) (\<lambda>c.
       let floor = compact_floor I marks origin c
       in if floor > tail_seq c then so_compact_journal ops s origin floor else Inr s)"

definition compact :: "'s store_ops \<Rightarrow> index_cfg \<Rightarrow> 's \<Rightarrow> 's res" where
  "compact ops I s =
     bindr (so_watermarks ops s) (\<lambda>marks. for_each (compact_one ops I marks) (origin_names I) s)"

section \<open>Applying what peers send\<close>

datatype apply_result = Applied nat | NeedSnapshot

text \<open>
  The loop over a suffix: replays are skipped, a gap asks for a snapshot, everything else is
  journaled verbatim while only well-formed operations materialize. After the replay test
  \<open>q < ev_seq e\<close>, so the increment of the source cannot overflow.
\<close>

fun suffix_ops :: "codec \<Rightarrow> event list \<Rightarrow> nat \<Rightarrow>
    (nat \<times> bytes) list \<times> hold_op list \<times> attestation list \<Rightarrow>
    (nat \<times> (nat \<times> bytes) list \<times> hold_op list \<times> attestation list) option" where
  "suffix_ops C [] q acc = Some (q, acc)"
| "suffix_ops C (e # es) q (journal, holds, attests) =
     (if ev_seq e \<le> q then suffix_ops C es q (journal, holds, attests)
      else if ev_seq e \<noteq> q + 1 then None
      else suffix_ops C es (ev_seq e)
        (journal @ [(ev_seq e, enc_event C e)],
         holds @ (case ev_op e of
             Some (Have h) \<Rightarrow> if length h = 32 then [HAdd h] else []
           | Some (Drop h) \<Rightarrow> if length h = 32 then [HDrop h] else []
           | _ \<Rightarrow> []),
         attests @ (case ev_op e of Some (Attest a) \<Rightarrow> if well_formed a then [a] else [] | _ \<Rightarrow> [])))"

definition apply_suffix :: "'s store_ops \<Rightarrow> index_cfg \<Rightarrow> string \<Rightarrow> nat \<Rightarrow> event list \<Rightarrow> 's \<Rightarrow>
    (apply_result \<times> 's) res" where
  "apply_suffix ops I origin g events s =
     (if origin = ix_self I \<or> \<not> is_known_origin I origin then Inl (UnexpectedOrigin origin)
      else bindr (so_clock ops s origin) (\<lambda>cur.
        if g < generation cur then Inr (Applied 0, s)
        else if g > generation cur \<and> \<not> (generation cur = 0 \<and> seq cur = 0) then Inr (NeedSnapshot, s)
        else case suffix_ops (ix_codec I) events (seq cur) ([], [], []) of
            None \<Rightarrow> Inr (NeedSnapshot, s)
          | Some (q, journal, holds, attests) \<Rightarrow>
              if journal = [] then Inr (Applied 0, s)
              else bindr (so_apply_events ops s origin (generation cur, seq cur) (g, q) journal holds attests)
                (\<lambda>(ok, s'). if \<not> ok then Inr (Applied 0, s') else Inr (Applied (length journal), s'))))"

definition apply_snapshot :: "'s store_ops \<Rightarrow> index_cfg \<Rightarrow> string \<Rightarrow> nat \<Rightarrow> nat \<Rightarrow> bytes list \<Rightarrow> 's \<Rightarrow>
    (nat \<times> 's) res" where
  "apply_snapshot ops I origin g q held s =
     (if origin = ix_self I \<or> \<not> is_known_origin I origin then Inl (UnexpectedOrigin origin)
      else
        let hashes = filter (\<lambda>h. length h = 32) held in
        bindr (so_replace_holdings ops s origin g q hashes) (\<lambda>(ok, s').
          Inr (if ok then length hashes else 0, s')))"

definition merge_attests :: "'s store_ops \<Rightarrow> attestation list \<Rightarrow> 's \<Rightarrow> (nat \<times> 's) res" where
  "merge_attests ops attests s =
     (let valid = filter well_formed attests
      in if valid = [] then Inr (0, s) else so_merge_attestations ops s valid)"

section \<open>Answering peers\<close>

record respond_bundle =
  rb_origins :: "origin_update list"
  rb_attests :: "attestation list"
  rb_atts_next :: "bytes option"
  rb_ranges :: "range_reply list"
  rb_fact_root :: "bytes option"
  rb_merkle :: "merkle_node list"

definition decode_events :: "codec \<Rightarrow> bytes list \<Rightarrow> event list res" where
  "decode_events C raw = map_res (\<lambda>blob. ok_or CorruptEvent (dec_event C blob)) raw"

text \<open>
  One ask of a range request. The reply's events stop at the first one past \<open>until\<close>; the
  loop of the source decodes an event before it looks at its number.
\<close>

fun range_events :: "codec \<Rightarrow> nat \<Rightarrow> bytes list \<Rightarrow> event list res" where
  "range_events C until [] = Inr []"
| "range_events C until (blob # raw) =
     bindr (ok_or CorruptEvent (dec_event C blob)) (\<lambda>e.
       if ev_seq e > until then Inr []
       else bindr (range_events C until raw) (\<lambda>es. Inr (e # es)))"

definition respond_range :: "'s store_ops \<Rightarrow> index_cfg \<Rightarrow> 's \<Rightarrow> range_ask \<Rightarrow> range_reply list res" where
  "respond_range ops I s ask =
     (if \<not> is_known_origin I (ra_origin ask) then Inr []
      else bindr (so_clock ops s (ra_origin ask)) (\<lambda>c.
        let reply = \<lparr>rr_origin = ra_origin ask, rr_generation = generation c, rr_after = ra_after ask,
                     rr_events = [], rr_reachable = False\<rparr>
        in if generation c = ra_generation ask \<and> ra_after ask \<ge> tail_seq c \<and> ra_after ask < ra_until ask
           then bindr (so_journal_suffix ops s (ra_origin ask) (ra_after ask) RANGE_BYTES_CAP) (\<lambda>(raw, _).
                bindr (range_events (ix_codec I) (ra_until ask) raw) (\<lambda>es.
                  Inr [reply\<lparr>rr_reachable := True, rr_events := es\<rparr>]))
           else Inr [reply]))"

definition respond_ranges :: "'s store_ops \<Rightarrow> index_cfg \<Rightarrow> 's \<Rightarrow> range_ask list \<Rightarrow> range_reply list res" where
  "respond_ranges ops I s asks =
     bindr (map_res (respond_range ops I s) (take RANGE_ASKS_MAX asks)) (\<lambda>rs. Inr (concat rs))"

fun merkle_step :: "'s store_ops \<Rightarrow> 's \<Rightarrow> bytes \<Rightarrow> merkle_ask \<Rightarrow>
    merkle_node list \<times> attestation list \<times> bytes option \<Rightarrow>
    (merkle_node list \<times> attestation list \<times> bytes option) res" where
  "merkle_step ops s cursor ask (nodes, facts, next) =
     bindr (if ma_expand ask
            then bindr (so_merkle_children ops s (ma_prefix ask)) (\<lambda>children.
                   Inr (nodes @ [\<lparr>mn_prefix = ma_prefix ask, mn_children = concat children\<rparr>]))
            else Inr nodes) (\<lambda>nodes.
       if ma_fetch ask \<and> facts = []
       then bindr (so_attestation_page ops s (ma_prefix ask) cursor MERKLE_FACTS_CAP) (\<lambda>(page, more).
              Inr (nodes, page, more))
       else Inr (nodes, facts, next))"

definition respond_merkle :: "'s store_ops \<Rightarrow> 's \<Rightarrow> merkle_ask list \<Rightarrow> bytes \<Rightarrow>
    (merkle_node list \<times> attestation list \<times> bytes option) res" where
  "respond_merkle ops s asks cursor =
     for_each (merkle_step ops s cursor) (take MERKLE_ASKS_MAX asks) ([], [], None)"

text \<open>One origin of the classic pull; the state is the updates, the snapshot flag and the bytes used.\<close>

fun respond_origin :: "'s store_ops \<Rightarrow> index_cfg \<Rightarrow> 's \<Rightarrow> sync_request \<Rightarrow> nat \<Rightarrow> string \<Rightarrow>
    origin_update list \<times> bool \<times> nat \<Rightarrow> (origin_update list \<times> bool \<times> nat) res" where
  "respond_origin ops I s req budget name (origins, sent_snapshot, used) =
     bindr (so_clock ops s name) (\<lambda>clock.
       let gen = generation clock; q = seq clock; tail = tail_seq clock;
           theirs = map_of (rev (map (\<lambda>c. (oc_origin c, c)) (sr_have req))) name;
           (their_gen, their_seq) = (case theirs of Some c \<Rightarrow> (oc_generation c, oc_seq c) | None \<Rightarrow> (0, 0));
           upd = (\<lambda>body truncated. \<lparr>ou_origin = name, ou_generation = gen, ou_seq = q,
                     ou_body = body, ou_truncated = truncated\<rparr>)
       in
       if gen = 0 then Inr (origins, sent_snapshot, used)
       else if their_gen > gen then Inr (origins, sent_snapshot, used)
       else if their_gen = gen \<and> their_seq \<ge> q
       then Inr (origins @ [upd (Some (UpToDate True)) False], sent_snapshot, used)
       else if name \<in> set (sr_skip_origins req)
       then Inr (origins @ [upd None False],
                 sent_snapshot \<or> \<not> (their_gen = gen \<and> their_seq \<ge> tail), used)
       else if used \<ge> budget
       then Inr (origins @ [upd (Some (Suffix [])) True], sent_snapshot, used)
       else if their_gen = gen \<and> their_seq \<ge> tail
       then bindr (so_journal_suffix ops s name their_seq SUFFIX_BYTES_CAP) (\<lambda>(raw, truncated).
            bindr (decode_events (ix_codec I) raw) (\<lambda>es.
              Inr (origins @ [upd (Some (Suffix es)) truncated], sent_snapshot,
                   used + sum_list (map length raw))))
       else bindr (so_holdings ops s name) (\<lambda>held.
              Inr (origins @ [upd (Some (Snapshot held)) False], True, used + length held * 34)))"

definition respond_budgeted :: "'s store_ops \<Rightarrow> index_cfg \<Rightarrow> 's \<Rightarrow> sync_request \<Rightarrow> nat \<Rightarrow> respond_bundle res" where
  "respond_budgeted ops I s req budget =
     (if sr_ranges req \<noteq> []
      then bindr (respond_ranges ops I s (sr_ranges req)) (\<lambda>rs.
             Inr \<lparr>rb_origins = [], rb_attests = [], rb_atts_next = None, rb_ranges = rs,
                  rb_fact_root = None, rb_merkle = []\<rparr>)
      else if sr_merkle req \<noteq> []
      then bindr (respond_merkle ops s (sr_merkle req) (sr_atts_cursor req)) (\<lambda>(nodes, facts, next).
             Inr \<lparr>rb_origins = [], rb_attests = facts, rb_atts_next = next, rb_ranges = [],
                  rb_fact_root = None, rb_merkle = nodes\<rparr>)
      else
        bindr (for_each (respond_origin ops I s req budget) (origin_names I) ([], False, 0))
        (\<lambda>(origins, sent_snapshot, used).
        bindr (if sr_atts_cursor req \<noteq> [] \<or> sent_snapshot
               then so_attestation_page ops s [] (sr_atts_cursor req)
                      (max (min ATTS_PAGE_CAP (budget - used)) ATTS_PAGE_FLOOR)
               else Inr ([], None)) (\<lambda>(attests, atts_next).
        bindr (so_merkle_root ops s) (\<lambda>root.
          Inr \<lparr>rb_origins = origins, rb_attests = attests, rb_atts_next = atts_next, rb_ranges = [],
               rb_fact_root = Some root, rb_merkle = []\<rparr>))))"

definition respond :: "'s store_ops \<Rightarrow> index_cfg \<Rightarrow> 's \<Rightarrow> sync_request \<Rightarrow> respond_bundle res" where
  "respond ops I s req = respond_budgeted ops I s req RESPONSE_BYTES_CAP"

section \<open>Exporting the own store\<close>

datatype export_op = OpAtt attestation | OpHold hold_op

fun op_of :: "export_op \<Rightarrow> op" where
  "op_of (OpAtt a) = Attest a"
| "op_of (OpHold (HAdd h)) = Have h"
| "op_of (OpHold (HDrop h)) = Drop h"

text \<open>The rows of one chunk, numbered from the sequence number before it.\<close>

fun chunk_events :: "codec \<Rightarrow> nat \<Rightarrow> export_op list \<Rightarrow> (nat \<times> bytes) list" where
  "chunk_events C q [] = []"
| "chunk_events C q (x # xs) =
     (let q' = add64 q 1
      in (q', enc_event C \<lparr>ev_seq = q', ev_op = Some (op_of x)\<rparr>) # chunk_events C q' xs)"

fun chunks :: "nat \<Rightarrow> 'a list \<Rightarrow> 'a list list" where
  "chunks n xs = (if xs = [] \<or> n = 0 then [] else take n xs # chunks n (drop n xs))"

declare chunks.simps [simp del]

fun export_chunk :: "'s store_ops \<Rightarrow> index_cfg \<Rightarrow> nat \<Rightarrow> export_op list \<Rightarrow> nat \<times> 's \<Rightarrow> (nat \<times> 's) res" where
  "export_chunk ops I g chunk (q, s) =
     (let rows = chunk_events (ix_codec I) q chunk;
          q' = (if rows = [] then q else fst (last rows));
          holds = List.map_filter (\<lambda>x. case x of OpHold h \<Rightarrow> Some h | _ \<Rightarrow> None) chunk;
          atts = List.map_filter (\<lambda>x. case x of OpAtt a \<Rightarrow> Some a | _ \<Rightarrow> None) chunk
      in bindr (so_apply_events ops s (ix_self I) (g, q) (g, q') rows holds atts) (\<lambda>(ok, s').
           if ok then Inr (q', s') else Inl SelfApplyRaced))"

definition export_ops :: "'s store_ops \<Rightarrow> index_cfg \<Rightarrow> attestation list \<Rightarrow> hold_op list \<Rightarrow> 's \<Rightarrow> (nat \<times> 's) res" where
  "export_ops ops I attests holds s =
     (let xs = map OpAtt attests @ map OpHold holds in
      bindr (so_clock ops s (ix_self I)) (\<lambda>cur.
      bindr (for_each (export_chunk ops I (generation cur)) (chunks EXPORT_CHUNK xs) (seq cur, s))
        (\<lambda>(q, s'). Inr (length xs, s'))))"

definition retract_hold :: "'s store_ops \<Rightarrow> index_cfg \<Rightarrow> bytes \<Rightarrow> 's \<Rightarrow> (bool \<times> 's) res" where
  "retract_hold ops I h s =
     bindr (so_is_held ops s (ix_self I) h) (\<lambda>held.
       if \<not> held then Inr (False, s)
       else bindr (export_ops ops I [] [HDrop h] s) (\<lambda>(_, s'). Inr (True, s')))"

text \<open>A row of the Nix database as the differ sees it (\<open>Candidate\<close> in \<open>src/db.rs\<close>).\<close>

record candidate =
  cd_id :: nat
  cd_path :: string
  cd_nar_hash :: bytes
  cd_nar_size :: nat
  cd_ca :: "string option"
  cd_sigs :: "string list"
  cd_deriver :: "string option"

text \<open>What the differ reads outside the index: derivation files, references, the store directory.\<close>

record nix_env =
  ne_read_drv :: "string \<Rightarrow> string option"
  ne_references :: "nat \<Rightarrow> string list"
  ne_store_dir :: string

fun contains :: "string \<Rightarrow> string \<Rightarrow> bool" where
  "contains needle [] \<longleftrightarrow> needle = []"
| "contains needle (c # s) \<longleftrightarrow> take (length needle) (c # s) = needle \<or> contains needle s"

definition drv_allows :: "nix_env \<Rightarrow> string \<Rightarrow> bool" where
  "drv_allows N drv =
     (case ne_read_drv N drv of
        Some s \<Rightarrow> \<not> contains (''('' @ [CHR 0x22] @ ''allowSubstitutes'' @ [CHR 0x22] @ '','' @ [CHR 0x22, CHR 0x22] @ '')'') s \<and>
                  \<not> contains ([CHR 0x5C, CHR 0x22] @ ''allowSubstitutes'' @ [CHR 0x5C, CHR 0x22] @ '':false'') s
      | None \<Rightarrow> True)"

text \<open>The verdict and the cache \<open>nosub\<close> after it.\<close>

definition substitutable :: "nix_env \<Rightarrow> candidate \<Rightarrow> (string \<rightharpoonup> bool) \<Rightarrow> bool \<times> (string \<rightharpoonup> bool)" where
  "substitutable N c nosub =
     (case cd_deriver c of
        None \<Rightarrow> (True, nosub)
      | Some drv \<Rightarrow>
          (case nosub drv of
             Some v \<Rightarrow> (v, nosub)
           | None \<Rightarrow> (drv_allows N drv, nosub(drv \<mapsto> drv_allows N drv))))"

definition candidate_att :: "nix_env \<Rightarrow> candidate \<Rightarrow> attestation" where
  "candidate_att N c = \<lparr>store_path = cd_path c, nar_hash = cd_nar_hash c, nar_size = cd_nar_size c,
     refs = map (\<lambda>r. basename r (ne_store_dir N)) (ne_references N (cd_id c)),
     ca = (case cd_ca c of Some x \<Rightarrow> x | None \<Rightarrow> []), sigs = cd_sigs c\<rparr>"

text \<open>Phase 1 of the full differ: which candidates the claim table already covers.\<close>

definition cand_index :: "candidate list \<Rightarrow> string \<times> bytes \<Rightarrow> nat option" where
  "cand_index cands =
     map_of (rev (map (\<lambda>(i, c). ((cd_path c, cd_nar_hash c), i)) (enumerate 0 cands)))"

fun mark_known :: "candidate list \<Rightarrow> bool list \<Rightarrow> claim_row \<Rightarrow> bool list" where
  "mark_known cands known (path, h, ss) =
     (case cand_index cands (path, h) of
        None \<Rightarrow> known
      | Some i \<Rightarrow> if set (cd_sigs (cands ! i)) \<subseteq> set ss then known[i := True] else known)"

text \<open>Phase 2: the attestations to export, threading the verdict cache.\<close>

fun diff_attests :: "index_cfg \<Rightarrow> nix_env \<Rightarrow> (candidate \<times> bool) list \<Rightarrow> (string \<rightharpoonup> bool) \<Rightarrow>
    attestation list \<times> (string \<rightharpoonup> bool)" where
  "diff_attests I N [] nosub = ([], nosub)"
| "diff_attests I N ((c, known) # cs) nosub =
     (if cd_ca c = None \<and> cd_sigs c = [] then diff_attests I N cs nosub
      else if known then diff_attests I N cs nosub
      else (let (ok, nosub') = substitutable N c nosub in
        if \<not> ok then diff_attests I N cs nosub'
        else (let a = candidate_att N c; (rest, nosub'') = diff_attests I N cs nosub'
              in ((if feasible I a then a # rest else rest), nosub''))))"

text \<open>The set differences of the source, in the order of the lists.\<close>

definition diff_holds :: "bytes list \<Rightarrow> bytes list \<Rightarrow> hold_op list" where
  "diff_holds local held =
     map HAdd (filter (\<lambda>h. h \<notin> set held) (remdups local)) @
     map HDrop (filter (\<lambda>h. h \<notin> set local) (remdups held))"

definition sync_own_db :: "'s store_ops \<Rightarrow> index_cfg \<Rightarrow> nix_env \<Rightarrow> candidate list \<Rightarrow>
    (string \<rightharpoonup> bool) \<Rightarrow> 's \<Rightarrow> (nat \<times> (string \<rightharpoonup> bool) \<times> 's) res" where
  "sync_own_db ops I N cands nosub s =
     bindr (so_holdings ops s (ix_self I)) (\<lambda>held.
     bindr (so_claims ops s) (\<lambda>claims.
       let known = foldl (mark_known cands) (replicate (length cands) False) claims;
           (attests, nosub') = diff_attests I N (zip cands known) nosub;
           holds = diff_holds (map cd_nar_hash cands) held
       in if attests = [] \<and> holds = [] then Inr (0, nosub', s)
          else bindr (export_ops ops I attests holds s) (\<lambda>(n, s'). Inr (n, nosub', s'))))"

text \<open>The incremental pass: point lookups per new row.\<close>

fun incremental_step :: "'s store_ops \<Rightarrow> index_cfg \<Rightarrow> nix_env \<Rightarrow> 's \<Rightarrow> candidate \<Rightarrow>
    bytes list \<times> hold_op list \<times> attestation list \<times> (string \<rightharpoonup> bool) \<Rightarrow>
    (bytes list \<times> hold_op list \<times> attestation list \<times> (string \<rightharpoonup> bool)) res" where
  "incremental_step ops I N s c (seen, holds, attests, nosub) =
     bindr (if cd_nar_hash c \<in> set seen then Inr holds
            else bindr (so_is_held ops s (ix_self I) (cd_nar_hash c)) (\<lambda>held.
                   Inr (if held then holds else holds @ [HAdd (cd_nar_hash c)]))) (\<lambda>holds.
       let seen = (if cd_nar_hash c \<in> set seen then seen else cd_nar_hash c # seen) in
       if cd_ca c = None \<and> cd_sigs c = [] then Inr (seen, holds, attests, nosub)
       else bindr (so_attestation_sigs ops s (hash_part_of (cd_path c)) (cd_nar_hash c)) (\<lambda>row.
         if (case row of Some ss \<Rightarrow> set (cd_sigs c) \<subseteq> set ss | None \<Rightarrow> False)
         then Inr (seen, holds, attests, nosub)
         else let (ok, nosub) = substitutable N c nosub; a = candidate_att N c
              in Inr (seen, holds, (if ok \<and> feasible I a then attests @ [a] else attests), nosub)))"

definition sync_own_db_incremental :: "'s store_ops \<Rightarrow> index_cfg \<Rightarrow> nix_env \<Rightarrow> candidate list \<Rightarrow>
    (string \<rightharpoonup> bool) \<Rightarrow> 's \<Rightarrow> (nat \<times> (string \<rightharpoonup> bool) \<times> 's) res" where
  "sync_own_db_incremental ops I N cands nosub s =
     (if cands = [] then Inr (0, nosub, s)
      else bindr (for_each (incremental_step ops I N s) cands ([], [], [], nosub))
        (\<lambda>(seen, holds, attests, nosub').
           bindr (export_ops ops I attests holds s) (\<lambda>(n, s'). Inr (n, nosub', s'))))"

section \<open>Lookups\<close>

record found =
  fd_info :: remote_narinfo
  fd_holders :: "string list"

definition to_found :: "index_cfg \<Rightarrow> found_row list \<Rightarrow> found list" where
  "to_found I rows =
     map (\<lambda>(a, hs). \<lparr>fd_info = att_to_remote a, fd_holders = hs\<rparr>) (filter (\<lambda>(a, hs). feasible I a) rows)"

definition lookup_hash_part :: "'s store_ops \<Rightarrow> index_cfg \<Rightarrow> string \<Rightarrow> 's \<Rightarrow> found list res" where
  "lookup_hash_part ops I hp s = bindr (so_lookup_hash_part ops s hp) (\<lambda>rows. Inr (to_found I rows))"

definition lookup_nar_hash :: "'s store_ops \<Rightarrow> index_cfg \<Rightarrow> bytes \<Rightarrow> 's \<Rightarrow> found list res" where
  "lookup_nar_hash ops I h s = bindr (so_lookup_nar_hash ops s h) (\<lambda>rows. Inr (to_found I rows))"

section \<open>Reads and paced maintenance\<close>

definition origin_clock :: "'s store_ops \<Rightarrow> string \<Rightarrow> 's \<Rightarrow> (nat \<times> nat) res" where
  "origin_clock ops o' s = bindr (so_clock ops s o') (\<lambda>c. Inr (generation c, seq c))"

definition fact_root :: "'s store_ops \<Rightarrow> 's \<Rightarrow> bytes res" where
  "fact_root ops s = so_merkle_root ops s"

definition fact_children :: "'s store_ops \<Rightarrow> bytes \<Rightarrow> 's \<Rightarrow> bytes list res" where
  "fact_children ops prefix s = so_merkle_children ops s prefix"

text \<open>Instants are nanoseconds on the monotonic clock; \<open>prev\<close> is the last pass. It is set before the pass runs.\<close>

definition COMPACT_EVERY :: nat where "COMPACT_EVERY = 60 * 10 ^ 9"

definition maybe_compact :: "'s store_ops \<Rightarrow> index_cfg \<Rightarrow> nat \<Rightarrow> nat option \<Rightarrow> 's \<Rightarrow> nat option \<times> 's res" where
  "maybe_compact ops I now prev s =
     (if (case prev of Some t \<Rightarrow> now - t < COMPACT_EVERY | None \<Rightarrow> False) then (prev, Inr s)
      else (Some now, compact ops I s))"

text \<open>The introspection document, before it is rendered.\<close>

record origin_status =
  os_name :: string
  os_clock :: clock
  os_journal_len :: nat
  os_holdings :: nat

record index_status =
  is_self :: string
  is_narinfos :: nat
  is_origins :: "origin_status list"
  is_watermarks :: "(string \<times> string \<times> nat) list"

definition index_status :: "'s store_ops \<Rightarrow> index_cfg \<Rightarrow> 's \<Rightarrow> index_status res" where
  "index_status ops I s =
     bindr (map_res (\<lambda>n. bindr (so_clock ops s n) (\<lambda>c. bindr (so_origin_stats ops s n) (\<lambda>(j, h).
              Inr \<lparr>os_name = n, os_clock = c, os_journal_len = j, os_holdings = h\<rparr>))) (origin_names I)) (\<lambda>os.
     bindr (so_watermarks ops s) (\<lambda>wm.
     bindr (so_count_attestations ops s) (\<lambda>k.
       Inr \<lparr>is_self = ix_self I, is_narinfos = k, is_origins = os, is_watermarks = sort wm\<rparr>)))"

end
