(* ===== verification/Replica.thy ===== *)
theory Replica
  imports Index Store_Laws
begin

text \<open>
  Possession replicates correctly. A history of an origin's generation is the list of its
  operations; a copy of the origin at clock \<open>(g, n)\<close> must hold what the first \<open>n\<close>
  operations of generation \<open>g\<close> leave, and its journal must be the operations above its
  tail. The lemmas, stated for every backend that satisfies \<open>sync_store\<close>, say that
  exporting, applying a suffix or a snapshot, compacting and reminting keep every copy in
  that relation to the histories, and that what a node answers is taken from them.
\<close>

section \<open>Histories\<close>

fun op_holds :: "op \<Rightarrow> hold_op list" where
  "op_holds (Have h) = (if length h = 32 then [HAdd h] else [])"
| "op_holds (Drop h) = (if length h = 32 then [HDrop h] else [])"
| "op_holds (Attest a) = []"

fun op_atts :: "op \<Rightarrow> attestation list" where
  "op_atts (Attest a) = (if well_formed a then [a] else [])"
| "op_atts _ = []"

definition held_after :: "op list \<Rightarrow> bytes set" where
  "held_after H = foldl hold_step {} (concat (map op_holds H))"

definition hist_event :: "op list \<Rightarrow> nat \<Rightarrow> event" where
  "hist_event H q = \<lparr>ev_seq = q, ev_op = Some (H ! (q - 1))\<rparr>"

text \<open>A copy of a history: what a store holds about an origin at a clock.\<close>

definition copy_of :: "codec \<Rightarrow> op list \<Rightarrow> clock \<Rightarrow> (nat \<rightharpoonup> bytes) \<Rightarrow> bytes set \<Rightarrow> bool" where
  "copy_of C H c J held \<longleftrightarrow> seq c \<le> length H \<and> tail_seq c \<le> seq c \<and>
     held = held_after (take (seq c) H) \<and>
     J = (\<lambda>q. if tail_seq c < q \<and> q \<le> seq c then Some (enc_event C (hist_event H q)) else None)"

type_synonym histories = "string \<Rightarrow> nat \<rightharpoonup> op list"

definition known_copy :: "codec \<Rightarrow> histories \<Rightarrow> string \<Rightarrow> clock \<Rightarrow> (nat \<rightharpoonup> bytes) \<Rightarrow> bytes set \<Rightarrow> bool" where
  "known_copy C T o' c J held \<longleftrightarrow>
     (c = clock_default \<and> J = Map.empty \<and> held = {}) \<or>
     (0 < generation c \<and> (\<exists>H. T o' (generation c) = Some H \<and> copy_of C H c J held))"

definition true_events :: "op list \<Rightarrow> event list \<Rightarrow> bool" where
  "true_events H es \<longleftrightarrow> (\<forall>e\<in>set es. 0 < ev_seq e \<and> ev_seq e \<le> length H \<and> e = hist_event H (ev_seq e))"

definition true_suffix :: "histories \<Rightarrow> string \<Rightarrow> nat \<Rightarrow> event list \<Rightarrow> bool" where
  "true_suffix T o' g es \<longleftrightarrow> es = [] \<or> (0 < g \<and> (\<exists>H. T o' g = Some H \<and> true_events H es))"

definition true_snapshot :: "histories \<Rightarrow> string \<Rightarrow> nat \<Rightarrow> nat \<Rightarrow> bytes list \<Rightarrow> bool" where
  "true_snapshot T o' g q held \<longleftrightarrow>
     0 < g \<and> (\<exists>H. T o' g = Some H \<and> q \<le> length H \<and> set held = held_after (take q H))"

definition true_update :: "histories \<Rightarrow> origin_update \<Rightarrow> bool" where
  "true_update T u \<longleftrightarrow>
     (case ou_body u of
        Some (Suffix es) \<Rightarrow> true_suffix T (ou_origin u) (ou_generation u) es
      | Some (Snapshot held) \<Rightarrow> true_snapshot T (ou_origin u) (ou_generation u) (ou_seq u) held
      | _ \<Rightarrow> True)"

definition true_reply :: "histories \<Rightarrow> range_reply \<Rightarrow> bool" where
  "true_reply T r \<longleftrightarrow> true_suffix T (rr_origin r) (rr_generation r) (rr_events r)"

text \<open>Histories only grow: a generation is extended at its end, or a new one appears.\<close>

definition grows :: "histories \<Rightarrow> histories \<Rightarrow> bool" where
  "grows T T' \<longleftrightarrow> (\<forall>o' g H. T o' g = Some H \<longrightarrow> (\<exists>X. T' o' g = Some (H @ X)))"

subsection \<open>Facts about histories\<close>

lemma held_after_append:
  "held_after (H @ X) = foldl hold_step (held_after H) (concat (map op_holds X))"
  by (simp add: held_after_def)

lemma held_after_32: "h \<in> held_after H \<Longrightarrow> length h = 32"
proof (induction H rule: rev_induct)
  case (snoc x H)
  then show ?case by (cases x) (auto simp: held_after_append split: if_splits)
qed (simp add: held_after_def)

lemma hist_event_append: "0 < q \<Longrightarrow> q \<le> length H \<Longrightarrow> hist_event (H @ X) q = hist_event H q"
  by (cases q) (simp_all add: hist_event_def nth_append)

lemma growsD: "grows T T' \<Longrightarrow> T o' g = Some H \<Longrightarrow> \<exists>X. T' o' g = Some (H @ X)"
  by (simp add: grows_def)

lemma hist_event_seq [simp]: "ev_seq (hist_event H q) = q"
  by (simp add: hist_event_def)

lemma grows_refl [simp]: "grows T T"
  unfolding grows_def by (metis append.right_neutral)

lemma grows_trans: "grows T T' \<Longrightarrow> grows T' T'' \<Longrightarrow> grows T T''"
  unfolding grows_def by (metis append.assoc)

lemma copy_of_extend: "copy_of C H c J held \<Longrightarrow> copy_of C (H @ X) c J held"
  by (auto simp: copy_of_def hist_event_append fun_eq_iff)

lemma known_copy_grows:
  assumes "grows T T'" and "known_copy C T o' c J held"
  shows "known_copy C T' o' c J held"
  using assms(2) unfolding known_copy_def
proof (elim disjE conjE exE)
  fix H assume H: "0 < generation c" "T o' (generation c) = Some H" "copy_of C H c J held"
  then obtain X where "T' o' (generation c) = Some (H @ X)" using growsD [OF assms(1)] by blast
  then show "c = clock_default \<and> J = Map.empty \<and> held = {} \<or>
      0 < generation c \<and> (\<exists>H. T' o' (generation c) = Some H \<and> copy_of C H c J held)"
    using H copy_of_extend by blast
qed simp

lemma true_events_extend: "true_events H es \<Longrightarrow> true_events (H @ X) es"
  by (fastforce simp: true_events_def hist_event_append)

lemma true_suffix_grows: "grows T T' \<Longrightarrow> true_suffix T o' g es \<Longrightarrow> true_suffix T' o' g es"
  unfolding true_suffix_def grows_def using true_events_extend by metis

lemma true_snapshot_grows:
  assumes "grows T T'" and "true_snapshot T o' g q held"
  shows "true_snapshot T' o' g q held"
proof -
  obtain H where H: "0 < g" "T o' g = Some H" "q \<le> length H" "set held = held_after (take q H)"
    using assms(2) by (auto simp: true_snapshot_def)
  then obtain X where "T' o' g = Some (H @ X)" using growsD [OF assms(1)] by blast
  then show ?thesis using H by (auto simp: true_snapshot_def)
qed

lemma true_update_grows: "grows T T' \<Longrightarrow> true_update T u \<Longrightarrow> true_update T' u"
  by (auto simp: true_update_def true_suffix_grows true_snapshot_grows split: option.splits update_body.splits)

section \<open>The suffix loop on true events\<close>

lemma suffix_ops_true:
  assumes "true_events H es" and "q \<le> length H" and "suffix_ops C es q (j, h, a) = Some (q', j', h', a')"
  shows "q \<le> q' \<and> q' \<le> length H \<and> j' = j @ map (\<lambda>n. (n, enc_event C (hist_event H n))) [Suc q..<Suc q'] \<and>
     h' = h @ concat (map op_holds (map ((!) H) [q..<q'])) \<and>
     a' = a @ concat (map op_atts (map ((!) H) [q..<q']))"
  using assms
proof (induction es arbitrary: q j h a)
  case (Cons e es)
  have true: "true_events H es" using Cons.prems(1) by (simp add: true_events_def)
  have e: "0 < ev_seq e" "ev_seq e \<le> length H" "e = hist_event H (ev_seq e)"
    using Cons.prems(1) by (auto simp: true_events_def)
  show ?case
  proof (cases "ev_seq e \<le> q")
    case True
    then have "suffix_ops C es q (j, h, a) = Some (q', j', h', a')" using Cons.prems(3) by simp
    then show ?thesis by (rule Cons.IH [OF true Cons.prems(2)])
  next
    case False
    then have s: "ev_seq e = Suc q" using Cons.prems(3) by (auto split: if_splits)
    then have op: "ev_op e = Some (H ! q)" using e(3) by (metis diff_Suc_1 event.select_convs(2) hist_event_def)
    have ee: "enc_event C e = enc_event C (hist_event H (Suc q))" using e(3) s by metis
    have "suffix_ops C es (Suc q)
        (j @ [(Suc q, enc_event C (hist_event H (Suc q)))], h @ op_holds (H ! q), a @ op_atts (H ! q))
        = Some (q', j', h', a')"
      using Cons.prems(3) s op ee by (cases "H ! q") simp_all
    from Cons.IH [OF true _ this] e(2) s
    have "Suc q \<le> q' \<and> q' \<le> length H \<and>
      j' = (j @ [(Suc q, enc_event C (hist_event H (Suc q)))]) @ map (\<lambda>n. (n, enc_event C (hist_event H n))) [Suc (Suc q)..<Suc q'] \<and>
      h' = (h @ op_holds (H ! q)) @ concat (map op_holds (map ((!) H) [Suc q..<q'])) \<and>
      a' = (a @ op_atts (H ! q)) @ concat (map op_atts (map ((!) H) [Suc q..<q']))" by simp
    moreover from this have "[Suc q..<Suc q'] = Suc q # [Suc (Suc q)..<Suc q']" "[q..<q'] = q # [Suc q..<q']"
      by (simp_all add: upt_conv_Cons)
    ultimately show ?thesis by simp
  qed
qed simp

lemma suffix_ops_holds_32:
  assumes "suffix_ops C es q (j, h, a) = Some (q', j', h', a')" and "\<forall>x\<in>set h. length (hold_hash x) = 32"
  shows "\<forall>x\<in>set h'. length (hold_hash x) = 32"
  using assms
proof (induction C es q "(j, h, a)" arbitrary: j h a rule: suffix_ops.induct)
  case (2 C e es q j h a)
  show ?case
  proof (cases "ev_seq e \<le> q")
    case True
    with 2 show ?thesis by simp
  next
    case False
    then have s: "ev_seq e = q + 1" using "2.prems"(1) by (auto split: if_splits)
    show ?thesis
      by (rule "2.hyps"(2) [OF False]) (use s False "2.prems" in \<open>auto split: option.splits op.splits if_splits\<close>)
  qed
qed simp

lemma take_extend: "q \<le> q' \<Longrightarrow> q' \<le> length H \<Longrightarrow> take q' H = take q H @ map ((!) H) [q..<q']"
proof (rule nth_equalityI)
  assume q: "q \<le> q'" "q' \<le> length H"
  show "length (take q' H) = length (take q H @ map ((!) H) [q..<q'])" using q by simp
  show "take q' H ! i = (take q H @ map ((!) H) [q..<q']) ! i" if "i < length (take q' H)" for i
    using q that by (simp add: nth_append)
qed

lemma held_after_extend:
  "q \<le> q' \<Longrightarrow> q' \<le> length H \<Longrightarrow>
   foldl hold_step (held_after (take q H)) (concat (map op_holds (map ((!) H) [q..<q']))) = held_after (take q' H)"
  by (simp only: take_extend held_after_append)

lemma map_of_range:
  "map_of (rev (map (\<lambda>n. (n, f n)) [a..<b])) = (\<lambda>q. if a \<le> q \<and> q < b then Some (f q) else None)"
  by (induction b) (auto simp: fun_eq_iff)

section \<open>Operations keep copies true\<close>

text \<open>All numbers of the histories are \<open>u64\<close> values.\<close>

definition u64_histories :: "histories \<Rightarrow> bool" where
  "u64_histories T \<longleftrightarrow> (\<forall>o' g H. T o' g = Some H \<longrightarrow> g < 2 ^ 64 \<and> length H < 2 ^ 64)"

lemma u64_historiesD: "u64_histories T \<Longrightarrow> T o' g = Some H \<Longrightarrow> g < 2 ^ 64 \<and> length H < 2 ^ 64"
  by (simp add: u64_histories_def)

text \<open>The order in which clocks advance.\<close>

definition clock_le :: "clock \<Rightarrow> clock \<Rightarrow> bool" where
  "clock_le c d \<longleftrightarrow> generation c < generation d \<or> (generation c = generation d \<and> seq c \<le> seq d)"

lemma clock_le_refl [simp]: "clock_le c c"
  by (simp add: clock_le_def)

section \<open>Exporting\<close>

lemma chunk_events_eq:
  "q + length xs < 2 ^ 64 \<Longrightarrow> chunk_events C q xs =
     map (\<lambda>i. (q + 1 + i, enc_event C \<lparr>ev_seq = q + 1 + i, ev_op = Some (op_of (xs ! i))\<rparr>)) [0..<length xs]"
proof (induction xs arbitrary: q)
  case (Cons x xs)
  have "add64 q 1 = q + 1" using Cons.prems by simp
  moreover have "map (\<lambda>i. (q + 1 + i, enc_event C \<lparr>ev_seq = q + 1 + i, ev_op = Some (op_of ((x # xs) ! i))\<rparr>)) [0..<length (x # xs)]
     = (q + 1, enc_event C \<lparr>ev_seq = q + 1, ev_op = Some (op_of x)\<rparr>)
       # map (\<lambda>i. (q + 1 + 1 + i, enc_event C \<lparr>ev_seq = q + 1 + 1 + i, ev_op = Some (op_of (xs ! i))\<rparr>)) [0..<length xs]"
    by (simp add: upt_conv_Cons map_Suc_upt [symmetric] comp_def del: upt_Suc)
  ultimately show ?case using Cons.IH [of "q + 1"] Cons.prems by (simp add: Let_def)
qed simp

lemma chunk_events_hist:
  assumes "length H + length xs < 2 ^ 64"
  shows "chunk_events C (length H) xs =
     map (\<lambda>n. (n, enc_event C (hist_event (H @ map op_of xs) n))) [Suc (length H)..<Suc (length H + length xs)]"
proof -
  have "chunk_events C (length H) xs =
      map (\<lambda>i. (length H + 1 + i, enc_event C \<lparr>ev_seq = length H + 1 + i, ev_op = Some (op_of (xs ! i))\<rparr>)) [0..<length xs]"
    by (rule chunk_events_eq [OF assms])
  also have "\<dots> = map (\<lambda>n. (n, enc_event C (hist_event (H @ map op_of xs) n))) (map (\<lambda>i. i + Suc (length H)) [0..<length xs])"
    unfolding map_map
  proof (rule map_cong [OF refl])
    fix i assume "i \<in> set [0..<length xs]"
    then have "i < length xs" by simp
    then have "(H @ map op_of xs) ! (i + Suc (length H) - 1) = op_of (xs ! i)" by (simp add: nth_append)
    then show "(length H + 1 + i, enc_event C \<lparr>ev_seq = length H + 1 + i, ev_op = Some (op_of (xs ! i))\<rparr>)
       = ((\<lambda>n. (n, enc_event C (hist_event (H @ map op_of xs) n))) \<circ> (\<lambda>i. i + Suc (length H))) i"
      by (simp add: hist_event_def add.commute)
  qed
  also have "map (\<lambda>i. i + Suc (length H)) [0..<length xs] = [Suc (length H)..<Suc (length H + length xs)]"
    unfolding map_add_upt by (simp add: add.commute del: upt_Suc)
  finally show ?thesis .
qed

definition export_32 :: "export_op list \<Rightarrow> bool" where
  "export_32 xs \<longleftrightarrow> (\<forall>x. OpHold x \<in> set xs \<longrightarrow> length (hold_hash x) = 32)"

lemma export_holds:
  "export_32 xs \<Longrightarrow>
   List.map_filter (\<lambda>x. case x of OpHold h \<Rightarrow> Some h | _ \<Rightarrow> None) xs = concat (map op_holds (map op_of xs))"
proof (induction xs)
  case (Cons x xs)
  have "export_32 xs" using Cons.prems by (simp add: export_32_def)
  moreover have "op_holds (op_of x) = (case x of OpHold h \<Rightarrow> [h] | OpAtt a \<Rightarrow> [])"
  proof (cases x)
    case (OpHold h)
    then show ?thesis using Cons.prems by (cases h) (auto simp: export_32_def)
  qed simp
  ultimately show ?case using Cons.IH by (cases x) (simp_all add: List.map_filter_simps)
qed (simp add: List.map_filter_simps)

definition extend_history :: "histories \<Rightarrow> string \<Rightarrow> nat \<Rightarrow> op list \<Rightarrow> histories" where
  "extend_history T o' g H = T(o' := (T o')(g \<mapsto> H))"

lemma grows_extend: "T o' g = Some H \<Longrightarrow> grows T (extend_history T o' g (H @ X))"
  unfolding grows_def extend_history_def by (metis append.right_neutral fun_upd_apply option.inject)

lemma grows_fresh: "T o' g = None \<Longrightarrow> grows T (extend_history T o' g H)"
  unfolding grows_def extend_history_def by (metis append.right_neutral fun_upd_apply option.distinct(1))

lemma extend_history_same [simp]: "extend_history T o' g H o' g = Some H"
  by (simp add: extend_history_def)

lemma extend_history_twice [simp]: "extend_history (extend_history T o' g H) o' g H' = extend_history T o' g H'"
  by (auto simp: extend_history_def fun_eq_iff)

lemma concat_chunks: "0 < n \<Longrightarrow> concat (chunks n xs) = xs"
  by (induction n xs rule: chunks.induct) (subst chunks.simps, auto)

lemma chunks_nonempty: "x \<in> set (chunks n xs) \<Longrightarrow> x \<noteq> []"
proof (induction n xs rule: chunks.induct)
  case (1 n xs)
  then show ?case by (subst (asm) chunks.simps) (auto split: if_splits)
qed

context sync_store
begin

definition copies_ok :: "histories \<Rightarrow> 's \<Rightarrow> bool" where
  "copies_ok T s \<longleftrightarrow> inv s \<and> (\<forall>o'. known_copy C T o' (vclock s o') (vjournal s o') (vheld s o'))"

lemma copies_ok_grows: "grows T T' \<Longrightarrow> copies_ok T s \<Longrightarrow> copies_ok T' s"
  by (auto simp: copies_ok_def known_copy_grows)

lemma copies_ok_same_views:
  "copies_ok T s \<Longrightarrow> inv s' \<Longrightarrow> vclock s' = vclock s \<Longrightarrow> vjournal s' = vjournal s \<Longrightarrow> vheld s' = vheld s \<Longrightarrow>
   copies_ok T s'"
  by (simp add: copies_ok_def)

lemma copies_ok_update:
  assumes "copies_ok T s" "inv s'" "known_copy C T o' c J H"
    and "vclock s' = (vclock s)(o' := c)" "vjournal s' = (vjournal s)(o' := J)" "vheld s' = (vheld s)(o' := H)"
  shows "copies_ok T s'"
  using assms by (auto simp: copies_ok_def)

lemma apply_done_all:
  assumes "inv s" "ok_name o'" "(generation (vclock s o'), seq (vclock s o')) = expect" "g < 2 ^ 64" "q < 2 ^ 64"
    and "\<forall>x\<in>set journal. fst x < 2 ^ 64" "\<forall>x\<in>set holds. length (hold_hash x) = 32"
  obtains s' where "so_apply_events ops s o' expect (g, q) journal holds attests = Inr (True, s')" "inv s'"
        "vclock s' = (vclock s)(o' := (vclock s o')\<lparr>generation := g, seq := q\<rparr>)"
        "vjournal s' = (vjournal s)(o' := vjournal s o' ++ map_of (rev journal))"
        "vheld s' = (vheld s)(o' := foldl hold_step (vheld s o') holds)"
        "vfact s' = merge_facts C attests (vfact s)" "vmark s' = vmark s" "vmeta s' = vmeta s"
proof -
  have "\<exists>s'. so_apply_events ops s o' expect (g, q) journal holds attests = Inr (True, s') \<and> inv s' \<and>
        vclock s' = (vclock s)(o' := (vclock s o')\<lparr>generation := fst (g, q), seq := snd (g, q)\<rparr>) \<and>
        vjournal s' = (vjournal s)(o' := vjournal s o' ++ map_of (rev journal)) \<and>
        vheld s' = (vheld s)(o' := foldl hold_step (vheld s o') holds) \<and>
        vfact s' = merge_facts C attests (vfact s) \<and> vmark s' = vmark s \<and> vmeta s' = vmeta s"
    by (rule apply_done [OF assms(1-3)]) (use assms(4-) in auto)
  then show thesis unfolding fst_conv snd_conv using that by blast
qed

text \<open>A true suffix, whatever subset of the history it is and however often it arrives.\<close>

lemma apply_suffix_true:
  assumes s: "copies_ok T s" and T: "u64_histories T" and ok: "ok_name o'" and codec: "ix_codec I = C"
    and known: "is_known_origin I o'" "o' \<noteq> ix_self I" and es: "true_suffix T o' g es"
  shows "\<exists>r s'. apply_suffix ops I o' g es s = Inr (r, s') \<and> copies_ok T s' \<and>
     (\<forall>a. a \<noteq> o' \<longrightarrow> vclock s' a = vclock s a) \<and> clock_le (vclock s o') (vclock s' o') \<and>
     (r = NeedSnapshot \<longrightarrow> s' = s) \<and> (r = Applied 0 \<longrightarrow> s' = s) \<and> vmeta s' = vmeta s \<and> vmark s' = vmark s"
proof -
  let ?c = "vclock s o'"
  have inv: "inv s" using s by (simp add: copies_ok_def)
  note rd = clock_read [OF inv ok]
  have start: "apply_suffix ops I o' g es s =
      (if g < generation ?c then Inr (Applied 0, s)
        else if g > generation ?c \<and> \<not> (generation ?c = 0 \<and> seq ?c = 0) then Inr (NeedSnapshot, s)
        else case suffix_ops C es (seq ?c) ([], [], []) of
            None \<Rightarrow> Inr (NeedSnapshot, s)
          | Some (q, journal, holds, attests) \<Rightarrow>
              if journal = [] then Inr (Applied 0, s)
              else bindr (so_apply_events ops s o' (generation ?c, seq ?c) (g, q) journal holds attests)
                (\<lambda>(ok, s'). if \<not> ok then Inr (Applied 0, s') else Inr (Applied (length journal), s')))"
  proof -
    have "(o' = ix_self I \<or> \<not> is_known_origin I o') = False" using known by simp
    then show ?thesis by (simp only: apply_suffix_def codec rd bindr_simps if_False)
  qed
  show ?thesis
  proof (cases "g < generation ?c \<or> (g > generation ?c \<and> \<not> (generation ?c = 0 \<and> seq ?c = 0)) \<or>
      suffix_ops C es (seq ?c) ([], [], []) = None \<or> (\<exists>q h a. suffix_ops C es (seq ?c) ([], [], []) = Some (q, [], h, a))")
    case True
    then show ?thesis using s by (auto simp: start)
  next
    case False
    then obtain q j h a where run: "suffix_ops C es (seq ?c) ([], [], []) = Some (q, j, h, a)" "j \<noteq> []"
      and g: "\<not> g < generation ?c" "g > generation ?c \<longrightarrow> generation ?c = 0 \<and> seq ?c = 0" by fastforce
    have "es \<noteq> []" using run by auto
    then obtain H where H: "0 < g" "T o' g = Some H" "true_events H es"
      using es by (auto simp: true_suffix_def)
    have cp: "copy_of C H ?c (vjournal s o') (vheld s o')"
    proof -
      have "known_copy C T o' ?c (vjournal s o') (vheld s o')" using s by (simp add: copies_ok_def)
      then show ?thesis unfolding known_copy_def
      proof (elim disjE conjE exE)
        assume "?c = clock_default" "vjournal s o' = Map.empty" "vheld s o' = {}"
        then show ?thesis by (auto simp: copy_of_def clock_default_def held_after_def fun_eq_iff)
      next
        fix H' assume h: "0 < generation ?c" "T o' (generation ?c) = Some H'" "copy_of C H' ?c (vjournal s o') (vheld s o')"
        then have "g = generation ?c" using g by linarith
        then show ?thesis using h H by simp
      qed
    qed
    have len: "seq ?c \<le> length H" using cp by (simp add: copy_of_def)
    have res: "seq ?c \<le> q" "q \<le> length H" "j = map (\<lambda>n. (n, enc_event C (hist_event H n))) [Suc (seq ?c)..<Suc q]"
      "h = concat (map op_holds (map ((!) H) [seq ?c..<q]))"
      using suffix_ops_true [OF H(3) len run(1)] by simp_all
    have new: "seq ?c < q" using res(1,3) run(2) by (cases "seq ?c = q") simp_all
    have h32: "\<forall>x\<in>set h. length (hold_hash x) = 32"
      using suffix_ops_holds_32 [OF run(1)] by simp
    have gl: "g < 2 ^ 64" "length H < 2 ^ 64" using u64_historiesD [OF T H(2)] by auto
    have j64: "\<forall>x\<in>set j. fst x < 2 ^ 64" using res(2,3) gl(2) by auto
    have q64: "q < 2 ^ 64" using gl res(2) by auto
    obtain s' where s': "so_apply_events ops s o' (generation ?c, seq ?c) (g, q) j h a = Inr (True, s')" "inv s'"
        "vclock s' = (vclock s)(o' := ?c\<lparr>generation := g, seq := q\<rparr>)"
        "vjournal s' = (vjournal s)(o' := vjournal s o' ++ map_of (rev j))"
        "vheld s' = (vheld s)(o' := foldl hold_step (vheld s o') h)" "vmark s' = vmark s" "vmeta s' = vmeta s"
      by (rule apply_done_all [OF inv ok refl gl(1) q64 j64 h32])
    have "copy_of C H (?c\<lparr>generation := g, seq := q\<rparr>) (vjournal s o' ++ map_of (rev j)) (foldl hold_step (vheld s o') h)"
    proof -
      have J: "map_of (rev j) = (\<lambda>n. if Suc (seq ?c) \<le> n \<and> n < Suc q then Some (enc_event C (hist_event H n)) else None)"
        unfolding res(3) by (rule map_of_range)
      have "foldl hold_step (vheld s o') h = held_after (take q H)"
        using cp held_after_extend [OF res(1,2)] by (simp add: copy_of_def res(4))
      moreover have "vjournal s o' ++ map_of (rev j) = (\<lambda>n. if tail_seq ?c < n \<and> n \<le> q then Some (enc_event C (hist_event H n)) else None)"
        using cp new by (auto simp: copy_of_def J map_add_def fun_eq_iff)
      ultimately show ?thesis using cp new res(2) by (simp add: copy_of_def)
    qed
    then have "known_copy C T o' (?c\<lparr>generation := g, seq := q\<rparr>) (vjournal s o' ++ map_of (rev j)) (foldl hold_step (vheld s o') h)"
      using H by (auto simp: known_copy_def)
    then have "copies_ok T s'" by (rule copies_ok_update [OF s s'(2) _ s'(3-5)])
    moreover have "apply_suffix ops I o' g es s = Inr (Applied (length j), s')"
      using False g run s'(1) by (simp add: start)
    moreover have "clock_le ?c (vclock s' o')" using g(1) new by (auto simp: s'(3) clock_le_def)
    ultimately show ?thesis using run(2) s'(3,6,7) by auto
  qed
qed

lemma apply_snapshot_true:
  assumes s: "copies_ok T s" and T: "u64_histories T" and ok: "ok_name o'"
    and known: "is_known_origin I o'" "o' \<noteq> ix_self I" and sn: "true_snapshot T o' g q held"
  shows "\<exists>n s'. apply_snapshot ops I o' g q held s = Inr (n, s') \<and> copies_ok T s' \<and>
     (\<forall>a. a \<noteq> o' \<longrightarrow> vclock s' a = vclock s a) \<and> clock_le (vclock s o') (vclock s' o') \<and>
     clock_le \<lparr>generation = g, seq = q, tail_seq = q\<rparr> (vclock s' o') \<and> vmeta s' = vmeta s \<and> vmark s' = vmark s"
proof -
  let ?c = "vclock s o'" and ?hs = "filter (\<lambda>h. length h = 32) held"
  have inv: "inv s" using s by (simp add: copies_ok_def)
  obtain H where H: "0 < g" "T o' g = Some H" "q \<le> length H" "set held = held_after (take q H)"
    using sn by (auto simp: true_snapshot_def)
  have gl: "g < 2 ^ 64" "q < 2 ^ 64" using u64_historiesD [OF T H(2)] H(3) by auto
  show ?thesis
  proof (cases "g < generation ?c \<or> (g = generation ?c \<and> q < seq ?c)")
    case True
    then have "apply_snapshot ops I o' g q held s = Inr (0, s)"
      using known replace_stale [OF inv ok True] by (simp add: apply_snapshot_def Let_def)
    then show ?thesis using s True by (auto simp: clock_le_def)
  next
    case False
    have hs: "set ?hs = held_after (take q H)" using H(4) held_after_32 by auto
    obtain s' where s': "so_replace_holdings ops s o' g q ?hs = Inr (True, s')" "inv s'"
        "vclock s' = (vclock s)(o' := \<lparr>generation = g, seq = q, tail_seq = q\<rparr>)"
        "vjournal s' = (vjournal s)(o' := Map.empty)" "vheld s' = (vheld s)(o' := set ?hs)"
        "vmark s' = vmark s" "vmeta s' = vmeta s"
      using replace_done [OF inv ok False gl, of ?hs] by auto
    have "known_copy C T o' \<lparr>generation = g, seq = q, tail_seq = q\<rparr> Map.empty (set ?hs)"
      using H hs by (auto simp: known_copy_def copy_of_def)
    then have "copies_ok T s'" by (rule copies_ok_update [OF s s'(2) _ s'(3-5)])
    moreover have "apply_snapshot ops I o' g q held s = Inr (length ?hs, s')"
      using known s'(1) by (simp add: apply_snapshot_def Let_def)
    ultimately show ?thesis using False s'(3,6,7) by (auto simp: clock_le_def)
  qed
qed

lemma merge_attests_true:
  assumes "copies_ok T s"
  shows "\<exists>n s'. merge_attests ops as s = Inr (n, s') \<and> copies_ok T s' \<and> vclock s' = vclock s \<and>
     vfact s' = merge_facts C (filter well_formed as) (vfact s) \<and> vmeta s' = vmeta s \<and> vmark s' = vmark s"
proof (cases "filter well_formed as = []")
  case True
  then show ?thesis using assms by (simp add: merge_attests_def)
next
  case False
  have inv: "inv s" using assms by (simp add: copies_ok_def)
  obtain n s' where "so_merge_attestations ops s (filter well_formed as) = Inr (n, s')" "inv s'"
    "vfact s' = merge_facts C (filter well_formed as) (vfact s)" "vclock s' = vclock s" "vjournal s' = vjournal s" "vheld s' = vheld s"
    "vmark s' = vmark s" "vmeta s' = vmeta s"
    using merge_done [OF inv, of "filter well_formed as"] by blast
  then show ?thesis using False assms copies_ok_same_views [of T s s'] by (simp add: merge_attests_def)
qed

text \<open>The own copy is at the head of its history.\<close>

definition own_head :: "histories \<Rightarrow> string \<Rightarrow> 's \<Rightarrow> bool" where
  "own_head T me s \<longleftrightarrow> 0 < generation (vclock s me) \<and>
     (\<exists>H. T me (generation (vclock s me)) = Some H \<and> seq (vclock s me) = length H)"

lemma export_chunk_true:
  assumes s: "copies_ok T s" and ok: "ok_name (ix_self I)" and codec: "ix_codec I = C"
    and c: "generation (vclock s (ix_self I)) = g" "seq (vclock s (ix_self I)) = length H"
    and H: "0 < g" "g < 2 ^ 64" "T (ix_self I) g = Some H" and len: "length H + length xs < 2 ^ 64"
    and xs: "xs \<noteq> []" "export_32 xs"
  shows "\<exists>s'. export_chunk ops I g xs (length H, s) = Inr (length (H @ map op_of xs), s') \<and>
     copies_ok (extend_history T (ix_self I) g (H @ map op_of xs)) s' \<and>
     vclock s' = (vclock s)(ix_self I := (vclock s (ix_self I))\<lparr>generation := g, seq := length (H @ map op_of xs)\<rparr>) \<and> vmeta s' = vmeta s \<and> vmark s' = vmark s"
proof -
  let ?me = "ix_self I" and ?H = "H @ map op_of xs"
  let ?c = "(vclock s ?me)\<lparr>generation := g, seq := length ?H\<rparr>"
  have inv: "inv s" using s by (simp add: copies_ok_def)
  define rows where "rows = chunk_events C (length H) xs"
  define hs where "hs = List.map_filter (\<lambda>x. case x of OpHold h \<Rightarrow> Some h | _ \<Rightarrow> None) xs"
  define as where "as = List.map_filter (\<lambda>x. case x of OpAtt a \<Rightarrow> Some a | _ \<Rightarrow> None) xs"
  have rows: "rows = map (\<lambda>n. (n, enc_event C (hist_event ?H n))) [Suc (length H)..<Suc (length H + length xs)]"
    unfolding rows_def by (rule chunk_events_hist [OF len])
  have last: "rows \<noteq> []" "fst (last rows) = length ?H"
  proof -
    let ?f = "\<lambda>n. (n, enc_event C (hist_event ?H n))"
    have "Suc (length H) \<le> length H + length xs" using xs(1) by (simp add: Suc_le_eq)
    then have "rows = map ?f [Suc (length H)..<length H + length xs] @ [?f (length H + length xs)]"
      unfolding rows by (simp only: upt_Suc_append map_append list.map)
    then show "rows \<noteq> []" "fst (last rows) = length ?H" by simp_all
  qed
  have hs: "hs = concat (map op_holds (map op_of xs))" unfolding hs_def by (rule export_holds [OF xs(2)])
  have h32: "\<forall>x\<in>set hs. length (hold_hash x) = 32"
  proof
    fix x assume "x \<in> set hs"
    then obtain y where "x \<in> set (op_holds (op_of y))" by (auto simp: hs)
    then show "length (hold_hash x) = 32" by (cases "op_of y") (auto split: if_splits)
  qed
  have j64: "\<forall>x\<in>set rows. fst x < 2 ^ 64" using len by (auto simp: rows)
  have q64: "length ?H < 2 ^ 64" using len by simp
  have exp: "(generation (vclock s ?me), seq (vclock s ?me)) = (g, length H)" using c by simp
  obtain s' where s': "so_apply_events ops s ?me (g, length H) (g, length ?H) rows hs as = Inr (True, s')" "inv s'"
      "vclock s' = (vclock s)(?me := ?c)" "vjournal s' = (vjournal s)(?me := vjournal s ?me ++ map_of (rev rows))"
      "vheld s' = (vheld s)(?me := foldl hold_step (vheld s ?me) hs)" "vmark s' = vmark s" "vmeta s' = vmeta s"
    by (rule apply_done_all [OF inv ok exp H(2) q64 j64 h32])
  have cp: "copy_of C H (vclock s ?me) (vjournal s ?me) (vheld s ?me)"
  proof -
    have "known_copy C T ?me (vclock s ?me) (vjournal s ?me) (vheld s ?me)" using s by (simp add: copies_ok_def)
    then show ?thesis using c H by (auto simp: known_copy_def clock_default_def)
  qed
  have "copy_of C ?H ?c (vjournal s ?me ++ map_of (rev rows)) (foldl hold_step (vheld s ?me) hs)"
  proof -
    have "foldl hold_step (vheld s ?me) hs = held_after ?H"
      using cp c(2) by (simp add: copy_of_def hs held_after_append)
    moreover have "vjournal s ?me ++ map_of (rev rows)
        = (\<lambda>n. if tail_seq (vclock s ?me) < n \<and> n \<le> length ?H then Some (enc_event C (hist_event ?H n)) else None)"
    proof -
      have "map_of (rev rows) = (\<lambda>n. if Suc (length H) \<le> n \<and> n < Suc (length H + length xs) then Some (enc_event C (hist_event ?H n)) else None)"
        unfolding rows by (rule map_of_range)
      then show ?thesis using cp c(2) by (auto simp: copy_of_def map_add_def fun_eq_iff hist_event_append)
    qed
    ultimately show ?thesis using cp c(2) by (simp add: copy_of_def)
  qed
  then have "known_copy C (extend_history T ?me g ?H) ?me ?c (vjournal s ?me ++ map_of (rev rows)) (foldl hold_step (vheld s ?me) hs)"
    using H by (auto simp: known_copy_def)
  then have "copies_ok (extend_history T ?me g ?H) s'"
    by (rule copies_ok_update [OF copies_ok_grows [OF grows_extend [of T ?me g H, OF H(3)] s] s'(2) _ s'(3-5)])
  moreover have "export_chunk ops I g xs (length H, s) = Inr (length ?H, s')"
    using s'(1) last codec by (simp add: Let_def rows_def [symmetric] hs_def [symmetric] as_def [symmetric])
  ultimately show ?thesis using s'(3,6,7) by blast
qed

lemma export_chunks_true:
  assumes "copies_ok T s" "ok_name (ix_self I)" "ix_codec I = C"
    and "generation (vclock s (ix_self I)) = g" "seq (vclock s (ix_self I)) = length H"
    and "0 < g" "g < 2 ^ 64" "T (ix_self I) g = Some H" "length H + length (concat cs) < 2 ^ 64"
    and "\<And>x. x \<in> set cs \<Longrightarrow> x \<noteq> []" "export_32 (concat cs)"
  shows "\<exists>s'. for_each (export_chunk ops I g) cs (length H, s) = Inr (length (H @ map op_of (concat cs)), s') \<and>
     copies_ok (extend_history T (ix_self I) g (H @ map op_of (concat cs))) s' \<and>
     (\<forall>a. a \<noteq> ix_self I \<longrightarrow> vclock s' a = vclock s a) \<and> generation (vclock s' (ix_self I)) = g \<and>
     seq (vclock s' (ix_self I)) = length (H @ map op_of (concat cs)) \<and> vmeta s' = vmeta s \<and> vmark s' = vmark s"
  using assms
proof (induction cs arbitrary: s T H)
  case Nil
  have "extend_history T (ix_self I) g H = T"
    using Nil.prems(8) by (auto simp: extend_history_def fun_eq_iff)
  with Nil show ?case by simp
next
  case (Cons xs cs)
  have e: "export_32 xs" "export_32 (concat cs)" using Cons.prems(11) by (simp_all add: export_32_def)
  have l: "length H + length xs < 2 ^ 64" using Cons.prems(9) by simp
  obtain s1 where s1: "export_chunk ops I g xs (length H, s) = Inr (length (H @ map op_of xs), s1)"
     "copies_ok (extend_history T (ix_self I) g (H @ map op_of xs)) s1"
     "vclock s1 = (vclock s)(ix_self I := (vclock s (ix_self I))\<lparr>generation := g, seq := length (H @ map op_of xs)\<rparr>)"
     "vmeta s1 = vmeta s" "vmark s1 = vmark s"
    using export_chunk_true [OF Cons.prems(1-8) l _ e(1)] Cons.prems(10) by auto
  have "\<exists>s'. for_each (export_chunk ops I g) cs (length (H @ map op_of xs), s1)
       = Inr (length ((H @ map op_of xs) @ map op_of (concat cs)), s') \<and>
     copies_ok (extend_history (extend_history T (ix_self I) g (H @ map op_of xs)) (ix_self I) g
        ((H @ map op_of xs) @ map op_of (concat cs))) s' \<and>
     (\<forall>a. a \<noteq> ix_self I \<longrightarrow> vclock s' a = vclock s1 a) \<and> generation (vclock s' (ix_self I)) = g \<and>
     seq (vclock s' (ix_self I)) = length ((H @ map op_of xs) @ map op_of (concat cs)) \<and> vmeta s' = vmeta s1 \<and> vmark s' = vmark s1"
    by (rule Cons.IH [OF s1(2) Cons.prems(2,3) _ _ Cons.prems(6,7)])
      (use Cons.prems(9,10) e s1(3) in \<open>simp_all add: add.assoc\<close>)
  then show ?case using s1 by (auto simp del: export_chunk.simps)
qed

lemma export_ops_true:
  assumes s: "copies_ok T s" and T: "u64_histories T" and ok: "ok_name (ix_self I)" and codec: "ix_codec I = C"
    and own: "own_head T (ix_self I) s"
    and h: "\<And>x. x \<in> set holds \<Longrightarrow> length (hold_hash x) = 32"
    and len: "seq (vclock s (ix_self I)) + length attests + length holds < 2 ^ 64"
  defines "X \<equiv> map Attest attests @ map (op_of \<circ> OpHold) holds" and "g \<equiv> generation (vclock s (ix_self I))"
  shows "\<exists>s' H. export_ops ops I attests holds s = Inr (length attests + length holds, s') \<and>
     T (ix_self I) g = Some H \<and> copies_ok (extend_history T (ix_self I) g (H @ X)) s' \<and>
     own_head (extend_history T (ix_self I) g (H @ X)) (ix_self I) s' \<and>
     generation (vclock s' (ix_self I)) = g \<and> seq (vclock s' (ix_self I)) = length H + length attests + length holds \<and>
     (\<forall>a. a \<noteq> ix_self I \<longrightarrow> vclock s' a = vclock s a) \<and> vmeta s' = vmeta s \<and> vmark s' = vmark s"
proof -
  let ?xs = "map OpAtt attests @ map OpHold holds"
  have inv: "inv s" using s by (simp add: copies_ok_def)
  obtain H where H: "0 < g" "T (ix_self I) g = Some H" "seq (vclock s (ix_self I)) = length H"
    using own by (auto simp: own_head_def g_def)
  have cc: "concat (chunks EXPORT_CHUNK ?xs) = ?xs" by (rule concat_chunks) (simp add: EXPORT_CHUNK_def)
  have X: "map op_of ?xs = X" by (simp add: X_def comp_def)
  have e: "export_32 (concat (chunks EXPORT_CHUNK ?xs))" using h by (auto simp: cc export_32_def)
  have l: "length H + length (concat (chunks EXPORT_CHUNK ?xs)) < 2 ^ 64" using len H(3) by (simp add: cc)
  have g64: "g < 2 ^ 64" using u64_historiesD [OF T H(2)] by simp
  have gen: "generation (vclock s (ix_self I)) = g" by (simp add: g_def)
  have ne: "\<And>x. x \<in> set (chunks EXPORT_CHUNK ?xs) \<Longrightarrow> x \<noteq> []" by (rule chunks_nonempty)
  obtain s' where s': "for_each (export_chunk ops I g) (chunks EXPORT_CHUNK ?xs) (length H, s) = Inr (length (H @ X), s')"
     "copies_ok (extend_history T (ix_self I) g (H @ X)) s'"
     "\<forall>a. a \<noteq> ix_self I \<longrightarrow> vclock s' a = vclock s a" "generation (vclock s' (ix_self I)) = g"
     "seq (vclock s' (ix_self I)) = length (H @ X)" "vmeta s' = vmeta s" "vmark s' = vmark s"
    using export_chunks_true [OF s ok codec gen H(3) H(1) g64 H(2) l ne e]
    unfolding cc X by blast
  have "export_ops ops I attests holds s = Inr (length attests + length holds, s')"
    unfolding export_ops_def Let_def clock_read [OF inv ok] bindr_simps
    using s'(1) by (simp add: g_def H(3))
  moreover have "length (H @ X) = length H + length attests + length holds" by (simp add: X_def)
  ultimately show ?thesis using s' H by (intro exI [of _ s'] exI [of _ H]) (auto simp: own_head_def)
qed

section \<open>Compacting, reminting, opening\<close>

lemma compact_floor_le: "compact_floor I marks o' c \<le> seq c"
proof -
  have "foldl (\<lambda>floor peer. min floor (mark_of marks peer o')) m ps \<le> m" for m ps
  proof (induction ps arbitrary: m)
    case (Cons p ps)
    show ?case using Cons.IH [of "min m (mark_of marks p o')"] by simp
  qed simp
  then show ?thesis by (simp add: compact_floor_def)
qed

lemma compact_one_true:
  assumes s: "copies_ok T s" and T: "u64_histories T" and ok: "ok_name o'"
  shows "\<exists>s'. compact_one ops I marks o' s = Inr s' \<and> copies_ok T s' \<and> vfact s' = vfact s \<and> vmark s' = vmark s \<and> vmeta s' = vmeta s \<and>
     vclock s' = (vclock s)(o' := (vclock s o')\<lparr>tail_seq := max (tail_seq (vclock s o')) (compact_floor I marks o' (vclock s o'))\<rparr>)"
proof -
  let ?c = "vclock s o'" and ?f = "compact_floor I marks o' (vclock s o')"
  have inv: "inv s" using s by (simp add: copies_ok_def)
  show ?thesis
  proof (cases "?f > tail_seq ?c")
    case False
    then have "compact_one ops I marks o' s = Inr s" by (simp add: compact_one_def clock_read [OF inv ok] Let_def)
    then show ?thesis using s False by (intro exI [of _ s]) (simp add: max_def fun_upd_idem)
  next
    case True
    have f64: "?f < 2 ^ 64"
      using compact_floor_le [of I marks o' ?c] clock_u64 [OF inv, of o'] by (simp add: u64_clock_def)
    obtain s' where s': "so_compact_journal ops s o' ?f = Inr s'" "inv s'"
        "vclock s' = (vclock s)(o' := ?c\<lparr>tail_seq := ?f\<rparr>)"
        "vjournal s' = (vjournal s)(o' := (\<lambda>q. if tail_seq ?c < q \<and> q \<le> ?f then None else vjournal s o' q))"
        "vheld s' = vheld s" "vfact s' = vfact s" "vmark s' = vmark s" "vmeta s' = vmeta s"
      using compact_done [OF inv ok True f64] by blast
    have "known_copy C T o' ?c (vjournal s o') (vheld s o')" using s by (simp add: copies_ok_def)
    moreover have "?c \<noteq> clock_default"
      using True compact_floor_le [of I marks o' ?c] by (auto simp: clock_default_def)
    ultimately obtain H where H: "0 < generation ?c" "T o' (generation ?c) = Some H" "copy_of C H ?c (vjournal s o') (vheld s o')"
      by (auto simp: known_copy_def)
    then have "copy_of C H (?c\<lparr>tail_seq := ?f\<rparr>) (\<lambda>q. if tail_seq ?c < q \<and> q \<le> ?f then None else vjournal s o' q) (vheld s o')"
      using True compact_floor_le [of I marks o' ?c] by (auto simp: copy_of_def fun_eq_iff)
    then have "known_copy C T o' (?c\<lparr>tail_seq := ?f\<rparr>) (\<lambda>q. if tail_seq ?c < q \<and> q \<le> ?f then None else vjournal s o' q) (vheld s o')"
      using H by (auto simp: known_copy_def)
    then have "copies_ok T s'"
      by (rule copies_ok_update [OF s s'(2) _ s'(3,4)]) (simp add: s'(5))
    moreover have "compact_one ops I marks o' s = Inr s'"
      using True s'(1) by (simp add: compact_one_def clock_read [OF inv ok] Let_def)
    ultimately show ?thesis using s' True by (intro exI [of _ s']) (simp add: max_def)
  qed
qed

lemma compact_all_true:
  assumes "copies_ok T s" "u64_histories T" "\<And>o'. o' \<in> set names \<Longrightarrow> ok_name o'" "distinct names"
  shows "\<exists>s'. for_each (compact_one ops I marks) names s = Inr s' \<and> copies_ok T s' \<and> vfact s' = vfact s \<and> vmark s' = vmark s \<and> vmeta s' = vmeta s \<and>
     vclock s' = (\<lambda>o'. if o' \<in> set names
        then (vclock s o')\<lparr>tail_seq := max (tail_seq (vclock s o')) (compact_floor I marks o' (vclock s o'))\<rparr> else vclock s o')"
  using assms
proof (induction names arbitrary: s)
  case (Cons o' names)
  obtain s1 where s1: "compact_one ops I marks o' s = Inr s1" "copies_ok T s1" "vfact s1 = vfact s" "vmark s1 = vmark s" "vmeta s1 = vmeta s"
     "vclock s1 = (vclock s)(o' := (vclock s o')\<lparr>tail_seq := max (tail_seq (vclock s o')) (compact_floor I marks o' (vclock s o'))\<rparr>)"
    using compact_one_true [OF Cons.prems(1,2), of o' I marks] Cons.prems(3) by auto
  have "\<exists>s'. for_each (compact_one ops I marks) names s1 = Inr s' \<and> copies_ok T s' \<and> vfact s' = vfact s1 \<and> vmark s' = vmark s1 \<and> vmeta s' = vmeta s1 \<and>
     vclock s' = (\<lambda>o'. if o' \<in> set names
        then (vclock s1 o')\<lparr>tail_seq := max (tail_seq (vclock s1 o')) (compact_floor I marks o' (vclock s1 o'))\<rparr> else vclock s1 o')"
    by (rule Cons.IH [OF s1(2) Cons.prems(2)]) (use Cons.prems(3,4) in auto)
  then show ?case using s1 Cons.prems(4) by (auto simp: fun_eq_iff)
qed simp

lemma distinct_origin_names: "distinct (origin_names I)"
  unfolding origin_names_def by (rule distinct_remdups_adj_sorted) (rule sorted_sort)

lemma set_origin_names: "set (origin_names I) = insert (ix_self I) (set (ix_peers I))"
  by (simp add: origin_names_def set_insort_key)

text \<open>Read back, a watermark table gives the marks.\<close>

lemma mark_of_read:
  assumes "distinct (map (\<lambda>(p, o', q). (p, o')) ms)"
    and "\<forall>p o' q. (p, o', q) \<in> set ms \<longrightarrow> vmark s p o' = q"
    and "\<forall>p o'. vmark s p o' \<noteq> 0 \<longrightarrow> (p, o', vmark s p o') \<in> set ms"
  shows "mark_of ms p o' = vmark s p o'"
proof -
  let ?l = "rev (map (\<lambda>(p, o', q). ((p, o'), q)) ms)"
  have "map fst (map (\<lambda>(p, o', q). ((p, o'), q)) ms) = map (\<lambda>(p, o', q). (p, o')) ms"
    by (simp add: comp_def split_def)
  then have d: "distinct (map fst ?l)" using assms(1) by (simp only: rev_map [symmetric] distinct_rev)
  show ?thesis
  proof (cases "vmark s p o' = 0")
    case True
    have "map_of ?l (p, o') = None \<or> map_of ?l (p, o') = Some 0"
    proof (cases "map_of ?l (p, o')")
      case (Some q)
      then have "(p, o', q) \<in> set ms" by (auto dest: map_of_SomeD)
      then have "q = 0" using assms(2) True by metis
      then show ?thesis using Some by simp
    qed simp
    then show ?thesis using True by (auto simp: mark_of_def)
  next
    case False
    then have "(p, o', vmark s p o') \<in> set ms" using assms(3) by blast
    then have "((p, o'), vmark s p o') \<in> set ?l" by force
    then have "map_of ?l (p, o') = Some (vmark s p o')" using d by (rule map_of_is_SomeI [rotated])
    then show ?thesis by (simp add: mark_of_def)
  qed
qed

definition ack_floor :: "index_cfg \<Rightarrow> 's \<Rightarrow> string \<Rightarrow> nat" where
  "ack_floor I s o' = foldl (\<lambda>floor peer. min floor (vmark s peer o')) (seq (vclock s o')) (ix_peers I)"

lemma compact_true:
  assumes s: "copies_ok T s" and T: "u64_histories T" and ok: "\<And>o'. o' \<in> set (origin_names I) \<Longrightarrow> ok_name o'"
  shows "\<exists>s'. compact ops I s = Inr s' \<and> copies_ok T s' \<and> vfact s' = vfact s \<and> vmark s' = vmark s \<and> vmeta s' = vmeta s \<and>
     vclock s' = (\<lambda>o'. if o' \<in> set (origin_names I)
        then (vclock s o')\<lparr>tail_seq := max (tail_seq (vclock s o')) (max (ack_floor I s o') (seq (vclock s o') - JOURNAL_BACKSTOP))\<rparr>
        else vclock s o')"
proof -
  have inv: "inv s" using s by (simp add: copies_ok_def)
  obtain ms where ms: "so_watermarks ops s = Inr ms" "distinct (map (\<lambda>(p, o', q). (p, o')) ms)"
    "\<forall>p o' q. (p, o', q) \<in> set ms \<longrightarrow> vmark s p o' = q"
    "\<forall>p o'. vmark s p o' \<noteq> 0 \<longrightarrow> (p, o', vmark s p o') \<in> set ms"
    using watermarks_read [OF inv] by blast
  have F: "compact_floor I ms o' (vclock s o') = max (ack_floor I s o') (seq (vclock s o') - JOURNAL_BACKSTOP)" for o'
    by (simp add: compact_floor_def ack_floor_def mark_of_read [OF ms(2-4)])
  show ?thesis
    using compact_all_true [OF s T ok distinct_origin_names, of I I ms]
    unfolding F compact_def ms(1) bindr_simps by blast
qed

lemma set_generation_true:
  assumes s: "copies_ok T s" and own: "own_head T me s" and ok: "ok_name me" and g: "0 < g" "g < 2 ^ 64"
    and fresh: "T me g = None" and s': "so_set_generation ops s me g = Inr s'"
  shows "\<exists>H. T me (generation (vclock s me)) = Some H \<and> copies_ok (extend_history T me g H) s' \<and>
     own_head (extend_history T me g H) me s' \<and> vclock s' = (vclock s)(me := (vclock s me)\<lparr>generation := g\<rparr>) \<and>
     vmeta s' = vmeta s \<and> vmark s' = vmark s"
proof -
  have inv: "inv s" using s by (simp add: copies_ok_def)
  obtain H where H: "0 < generation (vclock s me)" "T me (generation (vclock s me)) = Some H" "seq (vclock s me) = length H"
    using own by (auto simp: own_head_def)
  obtain t where t: "so_set_generation ops s me g = Inr t" "inv t"
      "vclock t = (vclock s)(me := (vclock s me)\<lparr>generation := g\<rparr>)" "vjournal t = vjournal s" "vheld t = vheld s"
      "vmark t = vmark s" "vmeta t = vmeta s"
    using set_generation_done [OF inv ok g(2)] by blast
  have "t = s'" using t(1) s' by simp
  have "known_copy C T me (vclock s me) (vjournal s me) (vheld s me)" using s by (simp add: copies_ok_def)
  then have "copy_of C H (vclock s me) (vjournal s me) (vheld s me)"
    using H by (auto simp: known_copy_def clock_default_def)
  then have "copy_of C H ((vclock s me)\<lparr>generation := g\<rparr>) (vjournal s me) (vheld s me)"
    by (simp add: copy_of_def)
  then have "known_copy C (extend_history T me g H) me ((vclock s me)\<lparr>generation := g\<rparr>) (vjournal s me) (vheld s me)"
    using g by (auto simp: known_copy_def)
  then have "copies_ok (extend_history T me g H) t"
    by (rule copies_ok_update [OF copies_ok_grows [OF grows_fresh [of T me g H, OF fresh] s] t(2) _ t(3)])
      (simp_all add: t(4,5))
  then show ?thesis using H t(3,6,7) g \<open>t = s'\<close> by (auto simp: own_head_def)
qed

lemma restart_dumps_true:
  assumes "copies_ok T s"
  shows "\<exists>s'. restart_all_dumps ops I s = Inr s' \<and> copies_ok T s' \<and> vclock s' = vclock s \<and> vfact s' = vfact s \<and> vmark s' = vmark s \<and>
     (\<forall>k. (\<forall>p\<in>set (ix_peers I). k \<noteq> cursor_key p) \<longrightarrow> vmeta s' k = vmeta s k) \<and>
     (\<forall>p\<in>set (ix_peers I). vmeta s' (cursor_key p) = Some (hex_encode DUMP_RESTART))"
proof -
  have "\<exists>s'. for_each (\<lambda>peer. set_dump_cursor ops peer DUMP_RESTART) ps s = Inr s' \<and> copies_ok T s' \<and> vclock s' = vclock s \<and>
     vfact s' = vfact s \<and> vmark s' = vmark s \<and> (\<forall>k. (\<forall>p\<in>set ps. k \<noteq> cursor_key p) \<longrightarrow> vmeta s' k = vmeta s k) \<and>
     (\<forall>p\<in>set ps. vmeta s' (cursor_key p) = Some (hex_encode DUMP_RESTART))" for ps
    using assms
  proof (induction ps arbitrary: s)
    case (Cons p ps)
    have inv: "inv s" using Cons.prems by (simp add: copies_ok_def)
    obtain t where t: "so_meta_put ops s (cursor_key p) (hex_encode DUMP_RESTART) = Inr t" "inv t"
      "vmeta t = (vmeta s)(cursor_key p \<mapsto> hex_encode DUMP_RESTART)" "vclock t = vclock s" "vjournal t = vjournal s"
      "vheld t = vheld s" "vfact t = vfact s" "vmark t = vmark s"
      using meta_done [OF inv] by blast
    have "copies_ok T t" by (rule copies_ok_same_views [OF Cons.prems t(2,4,5,6)])
    from Cons.IH [OF this] obtain s' where s': "for_each (\<lambda>peer. set_dump_cursor ops peer DUMP_RESTART) ps t = Inr s'"
      "copies_ok T s'" "vclock s' = vclock t" "vfact s' = vfact t" "vmark s' = vmark t"
      "\<forall>k. (\<forall>p\<in>set ps. k \<noteq> cursor_key p) \<longrightarrow> vmeta s' k = vmeta t k"
      "\<forall>p\<in>set ps. vmeta s' (cursor_key p) = Some (hex_encode DUMP_RESTART)" by blast
    have "vmeta s' (cursor_key p) = Some (hex_encode DUMP_RESTART)"
    proof (cases "\<exists>q\<in>set ps. cursor_key p = cursor_key q")
      case True
      then show ?thesis using s'(7) by force
    next
      case False
      then show ?thesis using s'(6) t(3) by simp
    qed
    moreover have "for_each (\<lambda>peer. set_dump_cursor ops peer DUMP_RESTART) (p # ps) s = Inr s'"
      using s'(1) t(1) by (simp add: set_dump_cursor_def [of _ p])
    ultimately show ?case using s'(2-) t(3-) by (intro exI [of _ s']) auto
  qed auto
  then show ?thesis by (simp add: restart_all_dumps_def)
qed

lemma cursor_key_self [simp]: "''self_generation'' \<noteq> cursor_key p"
  by (simp add: cursor_key_def)

text \<open>The generation in the meta table is the one of the own clock.\<close>

definition self_gen_ok :: "string \<Rightarrow> 's \<Rightarrow> bool" where
  "self_gen_ok me s \<longleftrightarrow> vmeta s ''self_generation'' = Some (show_nat (generation (vclock s me)))"

lemma bump_true:
  assumes s: "copies_ok T s" and own: "own_head T (ix_self I) s" and ok: "ok_name (ix_self I)"
    and g: "0 < max now (sat_add64 floor 1)" "max now (sat_add64 floor 1) < 2 ^ 64"
    and fresh: "T (ix_self I) (max now (sat_add64 floor 1)) = None"
  defines "g \<equiv> max now (sat_add64 floor 1)"
  shows "\<exists>s' H. bump_self_generation ops I now floor s = Inr (g, s') \<and> T (ix_self I) (generation (vclock s (ix_self I))) = Some H \<and>
     copies_ok (extend_history T (ix_self I) g H) s' \<and> own_head (extend_history T (ix_self I) g H) (ix_self I) s' \<and>
     vclock s' = (vclock s)(ix_self I := (vclock s (ix_self I))\<lparr>generation := g\<rparr>) \<and> self_gen_ok (ix_self I) s'"
proof -
  let ?me = "ix_self I"
  have inv: "inv s" using s by (simp add: copies_ok_def)
  obtain t where t: "so_meta_put ops s ''self_generation'' (show_nat g) = Inr t" "inv t"
      "vmeta t = (vmeta s)(''self_generation'' \<mapsto> show_nat g)" "vclock t = vclock s" "vjournal t = vjournal s" "vheld t = vheld s"
    using meta_done [OF inv] by blast
  have ct: "copies_ok T t" by (rule copies_ok_same_views [OF s t(2,4,5,6)])
  have ot: "own_head T ?me t" using own by (simp add: own_head_def t(4))
  obtain u where u: "so_set_generation ops t ?me g = Inr u"
    using set_generation_done [OF t(2) ok, of g] g by (auto simp: g_def)
  obtain H where H: "T ?me (generation (vclock t ?me)) = Some H" "copies_ok (extend_history T ?me g H) u"
     "own_head (extend_history T ?me g H) ?me u" "vclock u = (vclock t)(?me := (vclock t ?me)\<lparr>generation := g\<rparr>)" "vmeta u = vmeta t"
    using set_generation_true [OF ct ot ok _ _ _ u] g fresh by (auto simp: g_def)
  obtain v where v: "restart_all_dumps ops I u = Inr v" "copies_ok (extend_history T ?me g H) v" "vclock v = vclock u"
     "\<forall>k. (\<forall>p\<in>set (ix_peers I). k \<noteq> cursor_key p) \<longrightarrow> vmeta v k = vmeta u k"
    using restart_dumps_true [OF H(2), of I] by blast
  have "vmeta v ''self_generation'' = Some (show_nat g)" using v(4) H(5) t(3) by simp
  moreover have "bump_self_generation ops I now floor s = Inr (g, v)"
    unfolding bump_self_generation_def Let_def g_def [symmetric] by (simp add: t(1) u v(1))
  moreover have "own_head (extend_history T ?me g H) ?me v" using H(3) v(3) by (simp add: own_head_def)
  ultimately show ?thesis using v H t(4)
    by (intro exI [of _ v] exI [of _ H]) (simp add: self_gen_ok_def)
qed

text \<open>Opening: a store without a generation mints one; a store with one keeps it.\<close>

lemma known_copy_default: "known_copy C T o' clock_default Map.empty {}"
  by (simp add: known_copy_def)

lemma open_fresh_true:
  assumes inv: "inv s" and empty: "vclock s = (\<lambda>_. clock_default)" "vjournal s = (\<lambda>_. Map.empty)" "vheld s = (\<lambda>_. {})"
    and meta: "vmeta s ''self_generation'' = None" and ok: "ok_name (ix_self I)"
    and g: "0 < now" "now < 2 ^ 64" and fresh: "T (ix_self I) now = None"
  shows "\<exists>s'. index_open ops I now s = Inr s' \<and> copies_ok (extend_history T (ix_self I) now []) s' \<and>
     own_head (extend_history T (ix_self I) now []) (ix_self I) s' \<and> self_gen_ok (ix_self I) s'"
proof -
  let ?me = "ix_self I" and ?T = "extend_history T (ix_self I) now []"
  obtain t where t: "so_meta_put ops s ''self_generation'' (show_nat now) = Inr t" "inv t"
      "vmeta t = (vmeta s)(''self_generation'' \<mapsto> show_nat now)" "vclock t = vclock s" "vjournal t = vjournal s" "vheld t = vheld s"
    using meta_done [OF inv] by blast
  obtain u where u: "so_set_generation ops t ?me now = Inr u" "inv u"
      "vclock u = (vclock t)(?me := (vclock t ?me)\<lparr>generation := now\<rparr>)" "vjournal u = vjournal t" "vheld u = vheld t" "vmeta u = vmeta t"
    using set_generation_done [OF t(2) ok g(2)] by blast
  obtain v where v: "so_retain_origins ops u (origin_names I) = Inr v" "inv v"
      "vclock v = (\<lambda>o'. if o' \<in> set (origin_names I) then vclock u o' else clock_default)"
      "vjournal v = (\<lambda>o'. if o' \<in> set (origin_names I) then vjournal u o' else Map.empty)"
      "vheld v = (\<lambda>o'. if o' \<in> set (origin_names I) then vheld u o' else {})" "vmeta v = vmeta u"
    using retain_done [OF u(2), of "origin_names I"] by blast
  have run: "index_open ops I now s = Inr v"
    by (simp add: index_open_def meta_read [OF inv] meta t(1) u(1) v(1))
  have clock: "vclock v = (\<lambda>o'. if o' = ?me then \<lparr>generation = now, seq = 0, tail_seq = 0\<rparr> else clock_default)"
    by (auto simp: v(3) u(3) t(4) empty set_origin_names clock_default_def fun_eq_iff)
  have rest: "vjournal v o' = Map.empty" "vheld v o' = {}" for o'
    by (simp_all add: v u t empty)
  have "known_copy C ?T ?me \<lparr>generation = now, seq = 0, tail_seq = 0\<rparr> Map.empty {}"
    using g by (auto simp: known_copy_def copy_of_def held_after_def fun_eq_iff)
  then have "copies_ok ?T v"
    using v(2) by (simp add: copies_ok_def clock rest known_copy_default)
  moreover have "own_head ?T ?me v" using g by (simp add: own_head_def clock)
  moreover have "self_gen_ok ?me v" by (simp add: self_gen_ok_def clock v(6) u(6) t(3))
  ultimately show ?thesis using run by blast
qed

lemma open_again_true:
  assumes s: "copies_ok T s" and T: "u64_histories T" and own: "own_head T (ix_self I) s" and ok: "ok_name (ix_self I)"
    and meta: "self_gen_ok (ix_self I) s"
  shows "\<exists>s'. index_open ops I now s = Inr s' \<and> copies_ok T s' \<and> own_head T (ix_self I) s' \<and> self_gen_ok (ix_self I) s' \<and>
     (\<forall>o'\<in>set (origin_names I). vclock s' o' = vclock s o' \<and> vheld s' o' = vheld s o')"
proof -
  let ?me = "ix_self I" and ?g = "generation (vclock s (ix_self I))"
  have inv: "inv s" using s by (simp add: copies_ok_def)
  have g64: "?g < 2 ^ 64" using own u64_historiesD [OF T] by (auto simp: own_head_def)
  obtain u where u: "so_set_generation ops s ?me ?g = Inr u" "inv u"
      "vclock u = (vclock s)(?me := (vclock s ?me)\<lparr>generation := ?g\<rparr>)" "vjournal u = vjournal s" "vheld u = vheld s" "vmeta u = vmeta s"
    using set_generation_done [OF inv ok g64] by blast
  have same: "vclock u = vclock s" by (simp add: u(3) fun_upd_idem)
  obtain v where v: "so_retain_origins ops u (origin_names I) = Inr v" "inv v"
      "vclock v = (\<lambda>o'. if o' \<in> set (origin_names I) then vclock u o' else clock_default)"
      "vjournal v = (\<lambda>o'. if o' \<in> set (origin_names I) then vjournal u o' else Map.empty)"
      "vheld v = (\<lambda>o'. if o' \<in> set (origin_names I) then vheld u o' else {})" "vmeta v = vmeta u"
    using retain_done [OF u(2), of "origin_names I"] by blast
  have me: "?me \<in> set (origin_names I)" by (simp add: set_origin_names)
  have "index_open ops I now s = Inr v"
    using meta g64 by (simp add: index_open_def meta_read [OF inv] self_gen_ok_def parse_u64_show u(1) v(1))
  moreover have "copies_ok T v"
    using s v(2) by (simp add: copies_ok_def v(3-5) same u(4,5) known_copy_default)
  moreover have "own_head T ?me v" "self_gen_ok ?me v"
    using own meta me by (simp_all add: own_head_def self_gen_ok_def v(3,6) same u(6))
  ultimately show ?thesis by (auto simp: v(3,5) same u(5))
qed

end

end
