(* ===== verification/Rocks_Store.thy ===== *)
theory Rocks_Store
  imports Rocks_Facts Replica
begin

text \<open>
  Every operation of the embedded backend against the storage contract, and the
  interpretation of \<open>sync_store\<close> on it.
\<close>

section \<open>Writes and the families they touch\<close>

lemma db_write_Cons: "db_write (x # B) db = db_write B (batch_step db x)"
  by (simp add: db_write_def)

lemma db_write_untouched: "(\<And>x. x \<in> set B \<Longrightarrow> cf_of x \<noteq> c) \<Longrightarrow> db_write B db c = db c"
proof (induction B arbitrary: db)
  case (Cons x B)
  have "cf_of x \<noteq> c" using Cons.prems by simp
  then have "batch_step db x c = db c" by (cases x) auto
  with Cons show ?case by (simp add: db_write_Cons)
qed (simp add: db_write_def)

lemma db_write_append: "db_write (A @ B) db = db_write B (db_write A db)"
  by (simp add: db_write_def)

lemma batch_step_family: "db c = db' c \<Longrightarrow> batch_step db x c = batch_step db' x c"
  by (cases x) auto

lemma db_write_family: "db c = db' c \<Longrightarrow> db_write B db c = db_write B db' c"
proof (induction B arbitrary: db db')
  case (Cons x B)
  have "db_write B (batch_step db x) c = db_write B (batch_step db' x) c"
    by (rule Cons.IH) (use Cons.prems batch_step_family [of db c db' x] in simp)
  then show ?case by (simp only: db_write_Cons)
qed (simp add: db_write_def)

lemma commit_no_delta: "s\<lparr>rk_db := db_write B (rk_db s)\<rparr> = commit_with_delta B [] s"
  by (simp add: commit_with_delta_def)

lemma rk_db_commit: "rk_db (commit_with_delta B D s) = db_write B (rk_db s)"
  by (simp add: commit_with_delta_def)

definition fam :: "cf set \<Rightarrow> batch_op list \<Rightarrow> bool" where
  "fam cs B \<longleftrightarrow> (\<forall>x\<in>set B. cf_of x \<in> cs)"

lemma fam_simps [simp]:
  "fam cs []" "fam cs (x # B) \<longleftrightarrow> cf_of x \<in> cs \<and> fam cs B" "fam cs (A @ B) \<longleftrightarrow> fam cs A \<and> fam cs B"
  by (auto simp: fam_def)

lemma fam_other: "fam cs B \<Longrightarrow> c \<notin> cs \<Longrightarrow> batch_map c B m = m" "fam cs B \<Longrightarrow> c \<notin> cs \<Longrightarrow> db_write B db c = db c"
  by (auto simp: fam_def intro!: batch_map_untouched db_write_untouched)

lemma fam_mono: "fam cs B \<Longrightarrow> cs \<subseteq> cs' \<Longrightarrow> fam cs' B"
  by (auto simp: fam_def)

lemma fam_journal_puts: "fam {Journal} (journal_puts o' j)"
  by (auto simp: fam_def journal_puts_def)

lemma fam_hold_batch: "fam {Hold, Holdby} (hold_batch o' fin)"
  by (auto simp: fam_def hold_batch_def split: if_splits)

section \<open>Scans\<close>

lemma scan_set: "kv_inv (db c) \<Longrightarrow> (k, v) \<in> set (scan db c p) \<longleftrightarrow> get_cf db c k = Some v \<and> starts_with p k"
  by (auto simp: scan_def kv_scan_prefix get_cf_def kv_mem_iff)

lemma scan_keys:
  assumes "kv_inv (db c)"
  shows "k \<in> fst ` set (scan db c p) \<longleftrightarrow> get_cf db c k \<noteq> None \<and> starts_with p k"
proof -
  have "k \<in> fst ` set (scan db c p) \<longleftrightarrow> (\<exists>v. (k, v) \<in> set (scan db c p))" by force
  also have "\<dots> \<longleftrightarrow> get_cf db c k \<noteq> None \<and> starts_with p k" by (simp only: scan_set [of db c, OF assms]) blast
  finally show ?thesis .
qed

lemma scan_inv: "kv_inv (db c) \<Longrightarrow> kv_inv (scan db c p)"
  by (simp add: scan_def kv_scan_prefix)

lemma scan_all: "kv_inv (db c) \<Longrightarrow> scan db c [] = db c"
  by (simp add: scan_def kv_scan_prefix starts_with_def)

lemma last_n_append [simp]: "length h = n \<Longrightarrow> last_n n (p @ h) = h"
  by (simp add: last_n_def)

context wire_codec
begin

lemma rocks_inv_iff:
  "rocks_inv C s \<longleftrightarrow> facts_inv s \<and> clocks_ok (rows_of s Clocks) \<and> journal_ok (rows_of s Journal) \<and>
     holds_ok (rows_of s Hold) (rows_of s Holdby) \<and>
     owned_ok (rows_of s Clocks) (rows_of s Journal) (rows_of s Hold) \<and> marks_ok (rows_of s Wm) \<and> meta_ok (rows_of s Meta)"
  by (auto simp: rocks_inv_def facts_inv_def)

lemma facts_inv_commit:
  assumes "facts_inv (commit_with_delta AB D s)" and "\<And>c. kv_inv (rk_db s c)"
    and "fam (- {Att, AttPath, AttNar}) B" "fam (- {Att, AttPath, AttNar}) B'"
  shows "facts_inv (commit_with_delta (B @ AB @ B') D s)"
    and "rk_fact C (commit_with_delta (B @ AB @ B') D s) = rk_fact C (commit_with_delta AB D s)"
proof -
  have eq: "db_write (B @ AB @ B') (rk_db s) c = db_write AB (rk_db s) c" if "c \<in> {Att, AttPath, AttNar}" for c
    using that assms(3,4) by (simp add: db_write_append fam_other) (rule db_write_family, auto simp: fam_other)
  then have rows: "rows_of (commit_with_delta (B @ AB @ B') D s) c = rows_of (commit_with_delta AB D s) c"
    if "c \<in> {Att, AttPath, AttNar}" for c
    using eq [OF that] by (simp add: fun_eq_iff get_cf_def rk_db_commit del: rows_commit)
  show "facts_inv (commit_with_delta (B @ AB @ B') D s)"
    using assms(1,2) eq rows kv_inv_commit [of s]
    by (simp add: facts_inv_def rk_db_commit del: rows_commit) (simp add: commit_with_delta_def)
  show "rk_fact C (commit_with_delta (B @ AB @ B') D s) = rk_fact C (commit_with_delta AB D s)"
    using rows by (simp add: rk_fact_def del: rows_commit)
qed

lemma facts_inv_other:
  assumes "facts_inv s" "fam (- {Att, AttPath, AttNar}) B"
  shows "facts_inv (commit_with_delta B [] s)" and "rk_fact C (commit_with_delta B [] s) = rk_fact C s"
  using facts_inv_commit [of "[]" "[]" s B "[]"] assms by (simp_all add: facts_inv_def)

section \<open>Writing operations\<close>

lemma rocks_apply_refused:
  "rocks_inv C s \<Longrightarrow> ok_name o' \<Longrightarrow> (generation (rk_clock s o'), seq (rk_clock s o')) \<noteq> expect \<Longrightarrow>
   rocks_apply_events C s o' expect to_set journal holds attests = Inr (False, s)"
  by (simp add: rocks_apply_events_def rocks_clock_read)

lemma rocks_apply_done:
  assumes s: "rocks_inv C s" and o: "ok_name o'"
    and expect: "(generation (rk_clock s o'), seq (rk_clock s o')) = expect"
    and b: "fst to_set < 2 ^ 64" "snd to_set < 2 ^ 64"
    and j: "\<And>q b. (q, b) \<in> set journal \<Longrightarrow> q < 2 ^ 64"
    and h: "\<And>x. x \<in> set holds \<Longrightarrow> length (hold_hash x) = 32"
  shows "\<exists>s'. rocks_apply_events C s o' expect to_set journal holds attests = Inr (True, s') \<and> rocks_inv C s' \<and>
        rk_clock s' = (rk_clock s)(o' := (rk_clock s o')\<lparr>generation := fst to_set, seq := snd to_set\<rparr>) \<and>
        rk_journal s' = (rk_journal s)(o' := rk_journal s o' ++ map_of (rev journal)) \<and>
        rk_held s' = (rk_held s)(o' := foldl hold_step (rk_held s o') holds) \<and>
        rk_fact C s' = merge_facts C attests (rk_fact C s) \<and> rk_mark s' = rk_mark s \<and> rk_meta s' = rk_meta s"
proof -
  have f: "facts_inv s" using s by (simp add: rocks_inv_iff)
  obtain AB D n where ab: "merge_atts C (rk_db s) attests = Inr (AB, D, n)" "att_batch AB"
    "facts_inv (commit_with_delta AB D s)" "rk_fact C (commit_with_delta AB D s) = merge_facts C attests (rk_fact C s)"
    using merge_atts_effect [OF f] by blast
  have fam_ab: "fam {Att, AttPath, AttNar} AB" using ab(2) by (simp add: att_batch_def fam_def)
  let ?c = "\<lparr>generation = fst to_set, seq = snd to_set, tail_seq = tail_seq (rk_clock s o')\<rparr>"
  let ?hb = "hold_batch o' (last_holds holds)" and ?jb = "journal_puts o' journal"
  let ?cb = "[PutCf Clocks (name_key o') (clock_bytes ?c)]"
  let ?s = "commit_with_delta ((?jb @ ?hb) @ AB @ ?cb) D s"
  have run: "rocks_apply_events C s o' expect to_set journal holds attests = Inr (True, ?s)"
    using expect ab(1) o
    by (simp add: rocks_apply_events_def rocks_clock_read [OF s o] journal_puts_eq apply_holds_eq
        del: jkey_ok)
  have kv: "\<And>c. kv_inv (rk_db s c)" using s by (simp add: rocks_inv_def)
  have fams: "fam (- {Att, AttPath, AttNar}) (?jb @ ?hb)" "fam (- {Att, AttPath, AttNar}) ?cb"
    using fam_mono [OF fam_journal_puts] fam_mono [OF fam_hold_batch] by auto
  note F = facts_inv_commit [OF ab(3) kv fams]
  have c64: "u64_clock ?c"
    using clock_view_u64 [of "rows_of s Clocks" o'] s b by (simp add: u64_clock_def rocks_inv_def rk_clock_def)
  note other = fam_other [OF fam_journal_puts] fam_other [OF fam_hold_batch] fam_other [OF fam_ab]
  have rows: "rows_of ?s Clocks = (rows_of s Clocks)(name_key o' \<mapsto> clock_bytes ?c)"
    "rows_of ?s Journal = batch_map Journal ?jb (rows_of s Journal)"
    "rows_of ?s Hold = batch_map Hold ?hb (rows_of s Hold)"
    "rows_of ?s Holdby = batch_map Holdby ?hb (rows_of s Holdby)"
    "rows_of ?s Wm = rows_of s Wm" "rows_of ?s Meta = rows_of s Meta"
    by (simp_all add: other)
  have h': "\<And>g. g \<in> fst ` set (last_holds holds) \<Longrightarrow> length g = 32"
    using h by (auto simp: last_holds_keys)
  have "owned_ok (rows_of ?s Clocks) (rows_of ?s Journal) (rows_of ?s Hold)"
    unfolding rows(1) by (rule owned_ok_upd [OF _ o]) (use s journal_view_puts [OF o j] held_view_holds [OF o h] in
      \<open>simp_all only: rows rocks_inv_iff simp_thms\<close>)
  then have "rocks_inv C ?s"
    using s F(1) clocks_ok_put [OF o c64] journal_ok_puts [OF o j] holds_ok_batch [OF o h']
    by (simp only: rocks_inv_iff rows simp_thms)
  moreover have "rk_clock ?s = (rk_clock s)(o' := ?c)"
    using rk_clock_def [of ?s, unfolded rows(1) clock_view_put [OF o c64]] by (simp only: rk_clock_def [of s])
  moreover have "rk_journal ?s = (rk_journal s)(o' := rk_journal s o' ++ map_of (rev journal))"
    unfolding rk_journal_def rows by (rule journal_view_puts [OF o j])
  moreover have "rk_held ?s = (rk_held s)(o' := foldl hold_step (rk_held s o') holds)"
    unfolding rk_held_def rows by (rule held_view_holds [OF o h])
  moreover have "rk_mark ?s = rk_mark s" "rk_meta ?s = rk_meta s"
    unfolding rk_mark_def rk_meta_def rows by simp_all
  moreover have "(rk_clock s o')\<lparr>generation := fst to_set, seq := snd to_set\<rparr> = ?c"
    by (cases "rk_clock s o'") simp
  ultimately show ?thesis using run F(2) ab(4) by (intro exI [of _ ?s]) (simp only: simp_thms)
qed

lemma rocks_merge_done:
  assumes s: "rocks_inv C s"
  shows "\<exists>n s'. rocks_merge_attestations C s attests = Inr (n, s') \<and> rocks_inv C s' \<and>
        rk_fact C s' = merge_facts C attests (rk_fact C s) \<and> (n = 0 \<longrightarrow> s' = s) \<and>
        rk_clock s' = rk_clock s \<and> rk_journal s' = rk_journal s \<and> rk_held s' = rk_held s \<and>
        rk_mark s' = rk_mark s \<and> rk_meta s' = rk_meta s"
proof -
  have f: "facts_inv s" using s by (simp add: rocks_inv_iff)
  obtain AB D n where ab: "merge_atts C (rk_db s) attests = Inr (AB, D, n)" "att_batch AB" "n = 0 \<longrightarrow> AB = [] \<and> D = []"
    "facts_inv (commit_with_delta AB D s)" "rk_fact C (commit_with_delta AB D s) = merge_facts C attests (rk_fact C s)"
    using merge_atts_effect [OF f] by blast
  have "fam {Att, AttPath, AttNar} AB" using ab(2) by (simp add: att_batch_def fam_def)
  note other = fam_other [OF this]
  have run: "rocks_merge_attestations C s attests = Inr (n, commit_with_delta AB D s)"
    using ab(1,3) by (cases "n = 0") (simp_all add: rocks_merge_attestations_def)
  show ?thesis
    using s ab run by (intro exI [of _ n] exI [of _ "commit_with_delta AB D s"])
      (auto simp: rocks_inv_iff rk_clock_def rk_journal_def rk_held_def rk_mark_def rk_meta_def other)
qed

lemma rocks_set_generation_done:
  assumes s: "rocks_inv C s" and o: "ok_name o'" and g: "g < 2 ^ 64"
  shows "\<exists>s'. rocks_set_generation s o' g = Inr s' \<and> rocks_inv C s' \<and>
        rk_clock s' = (rk_clock s)(o' := (rk_clock s o')\<lparr>generation := g\<rparr>) \<and>
        rk_journal s' = rk_journal s \<and> rk_held s' = rk_held s \<and> rk_fact C s' = rk_fact C s \<and>
        rk_mark s' = rk_mark s \<and> rk_meta s' = rk_meta s"
proof -
  let ?c = "(rk_clock s o')\<lparr>generation := g\<rparr>"
  let ?s = "commit_with_delta [PutCf Clocks (name_key o') (clock_bytes ?c)] [] s"
  have c64: "u64_clock ?c"
    using clock_view_u64 [of "rows_of s Clocks" o'] s g by (simp add: u64_clock_def rocks_inv_def rk_clock_def)
  have "rocks_set_generation s o' g = Inr ?s"
    using o by (simp add: rocks_set_generation_def rocks_clock_read [OF s o] commit_no_delta)
  moreover have "facts_inv ?s" "rk_fact C ?s = rk_fact C s"
    using s by (intro facts_inv_other; simp add: rocks_inv_iff)+
  moreover have "rocks_inv C ?s"
    using s calculation(2) clocks_ok_put [OF o c64]
      owned_ok_upd [OF _ o fun_upd_triv [symmetric] fun_upd_triv [symmetric]] by (simp add: rocks_inv_iff)
  moreover have "rk_clock ?s = (rk_clock s)(o' := ?c)"
    unfolding rk_clock_def using clock_view_put [OF o c64] by (simp add: rk_clock_def)
  ultimately show ?thesis by (intro exI [of _ ?s]) (simp add: rk_journal_def rk_held_def rk_mark_def rk_meta_def)
qed

lemma rocks_meta_done:
  assumes s: "rocks_inv C s"
  shows "\<exists>s'. rocks_meta_put s key v = Inr s' \<and> rocks_inv C s' \<and> rk_meta s' = (rk_meta s)(key \<mapsto> v) \<and>
        rk_clock s' = rk_clock s \<and> rk_journal s' = rk_journal s \<and> rk_held s' = rk_held s \<and>
        rk_fact C s' = rk_fact C s \<and> rk_mark s' = rk_mark s"
proof -
  let ?s = "commit_with_delta [PutCf Meta (bytes_of key) (bytes_of v)] [] s"
  have "rocks_meta_put s key v = Inr ?s" by (simp add: rocks_meta_put_def commit_no_delta)
  moreover have "facts_inv ?s" "rk_fact C ?s = rk_fact C s"
    using s by (intro facts_inv_other; simp add: rocks_inv_iff)+
  moreover have "meta_ok ((rows_of s Meta)(bytes_of key \<mapsto> bytes_of v))"
    using s by (auto simp: rocks_inv_iff meta_ok_def)
  moreover have "rk_meta ?s = (rk_meta s)(key \<mapsto> v)"
    by (auto simp: rk_meta_def meta_view_def fun_eq_iff)
  ultimately show ?thesis using s
    by (intro exI [of _ ?s]) (simp add: rocks_inv_iff rk_clock_def rk_journal_def rk_held_def rk_mark_def)
qed

lemma rocks_meta_read: "rocks_meta_get s key = Inr (rk_meta s key)"
  by (simp add: rocks_meta_get_def rk_meta_def meta_view_def)

lemma marks_ok_put:
  assumes "marks_ok m" "ok_name p" "ok_name o'" "0 < q" "q < 2 ^ 64"
  shows "marks_ok (m(name_key p @ bytes_of o' \<mapsto> be_bytes64 q))"
  unfolding marks_ok_def
proof (intro allI impI)
  fix k v assume kv: "(m(name_key p @ bytes_of o' \<mapsto> be_bytes64 q)) k = Some v"
  show "\<exists>p o' q. ok_name p \<and> ok_name o' \<and> 0 < q \<and> q < 2 ^ 64 \<and> k = name_key p @ bytes_of o' \<and> v = be_bytes64 q"
  proof (cases "k = name_key p @ bytes_of o'")
    case True
    with kv assms show ?thesis by (intro exI [of _ p] exI [of _ o'] exI [of _ q]) simp
  next
    case False
    with kv assms(1) show ?thesis by (auto simp: marks_ok_def)
  qed
qed

lemma rocks_advance_done:
  assumes s: "rocks_inv C s" and p: "ok_name p" and o: "ok_name o'" and q: "q < 2 ^ 64"
  shows "\<exists>s'. rocks_advance_watermark s p o' q = Inr s' \<and> rocks_inv C s' \<and>
        rk_mark s' = (rk_mark s)(p := (rk_mark s p)(o' := max (rk_mark s p o') q)) \<and>
        rk_clock s' = rk_clock s \<and> rk_journal s' = rk_journal s \<and> rk_held s' = rk_held s \<and>
        rk_fact C s' = rk_fact C s \<and> rk_meta s' = rk_meta s"
proof -
  let ?k = "name_key p @ bytes_of o'"
  let ?s = "commit_with_delta [PutCf Wm ?k (be_bytes64 q)] [] s"
  have ok: "marks_ok (rows_of s Wm)" using s by (simp add: rocks_inv_iff)
  have cur: "(case rows_of s Wm ?k of None \<Rightarrow> 0 | Some v \<Rightarrow> of_be_bytes (take 8 v)) = rk_mark s p o'"
    using ok p o by (fastforce simp: rk_mark_def mark_view_def marks_ok_def split: option.split)
  have run: "rocks_advance_watermark s p o' q = Inr (if q > rk_mark s p o' then ?s else s)"
    using p by (simp add: rocks_advance_watermark_def wm_key_def cur Let_def commit_no_delta)
  show ?thesis
  proof (cases "q > rk_mark s p o'")
    case True
    have "facts_inv ?s" "rk_fact C ?s = rk_fact C s"
      using s by (intro facts_inv_other; simp add: rocks_inv_iff)+
    moreover have "marks_ok ((rows_of s Wm)(?k \<mapsto> be_bytes64 q))"
      by (rule marks_ok_put [OF ok p o _ q]) (use True in simp)
    moreover have "mark_view ((rows_of s Wm)(?k \<mapsto> be_bytes64 q)) = (mark_view (rows_of s Wm))(p := (mark_view (rows_of s Wm) p)(o' := q))"
      using p o q by (auto simp: mark_view_def fun_eq_iff of_be_bytes_be_bytes64)
    ultimately show ?thesis using s run True
      by (intro exI [of _ ?s]) (simp add: rocks_inv_iff rk_clock_def rk_journal_def rk_held_def rk_mark_def rk_meta_def max_def)
  next
    case False
    then show ?thesis using s run by (intro exI [of _ s]) (simp add: max_def fun_upd_idem)
  qed
qed

lemma hold_scan:
  assumes s: "rocks_inv C s" and o: "ok_name o'"
  shows "set (map (\<lambda>(k, _). last_n 32 k) (scan (rk_db s) Hold (name_key o'))) = rk_held s o'"
    and "distinct (map (\<lambda>(k, _). last_n 32 k) (scan (rk_db s) Hold (name_key o')))"
proof -
  let ?rows = "scan (rk_db s) Hold (name_key o')"
  have kv: "kv_inv (rk_db s Hold)" using s by (simp add: rocks_inv_def)
  have ok: "holds_ok (rows_of s Hold) (rows_of s Holdby)" using s by (simp add: rocks_inv_def)
  have shape: "\<exists>h. length h = 32 \<and> k = name_key o' @ h \<and> h \<in> rk_held s o'" if "(k, v) \<in> set ?rows" for k v
  proof -
    have k: "rows_of s Hold k = Some v" "starts_with (name_key o') k" using that kv by (simp_all add: scan_set)
    then obtain a h where a: "ok_name a" "length h = 32" "k = name_key a @ h"
      using ok unfolding holds_ok_def by blast
    then have "a = o'" using k(2) starts_name_key [OF o a(1)] by simp
    then show ?thesis using a k o by (auto simp: rk_held_def held_view_def)
  qed
  show "set (map (\<lambda>(k, _). last_n 32 k) ?rows) = rk_held s o'"
  proof (intro equalityI subsetI)
    fix h assume "h \<in> set (map (\<lambda>(k, _). last_n 32 k) ?rows)"
    then obtain k v where "(k, v) \<in> set ?rows" "h = last_n 32 k" by auto
    with shape [OF this(1)] show "h \<in> rk_held s o'" by auto
  next
    fix h assume "h \<in> rk_held s o'"
    then obtain v where "length h = 32" "rows_of s Hold (name_key o' @ h) = Some v"
      by (auto simp: rk_held_def held_view_def)
    then have "(name_key o' @ h, v) \<in> set ?rows" "last_n 32 (name_key o' @ h) = h"
      using kv by (simp_all add: scan_set)
    then show "h \<in> set (map (\<lambda>(k, _). last_n 32 k) ?rows)" by force
  qed
  have "inj_on (\<lambda>(k, _). last_n 32 k) (set ?rows)"
  proof (rule inj_onI)
    fix x y assume x: "x \<in> set ?rows" and y: "y \<in> set ?rows"
      and eq: "(\<lambda>(k, _). last_n 32 k) x = (\<lambda>(k, _). last_n 32 k) y"
    obtain k v k' v' where xy: "x = (k, v)" "y = (k', v')" by fastforce
    then have "k = k'" using shape [of k v] shape [of k' v'] x y eq by auto
    moreover have "map_of ?rows k = Some v" "map_of ?rows k' = Some v'"
      using x y xy kv by (simp_all add: kv_mem_iff [symmetric] scan_inv)
    ultimately show "x = y" using xy by simp
  qed
  moreover have "distinct ?rows" using kv_inv_distinct [OF scan_inv [of "rk_db s" Hold, OF kv]] by (simp add: distinct_map)
  ultimately show "distinct (map (\<lambda>(k, _). last_n 32 k) ?rows)" by (simp add: distinct_map)
qed

lemma rocks_holdings_read:
  assumes "rocks_inv C s" and "ok_name o'"
  shows "\<exists>hs. rocks_holdings s o' = Inr hs \<and> set hs = rk_held s o' \<and> distinct hs"
  using hold_scan [OF assms] assms(2) by (simp add: rocks_holdings_def)

lemma rocks_is_held_read:
  "rocks_inv C s \<Longrightarrow> ok_name o' \<Longrightarrow> length h = 32 \<Longrightarrow> rocks_is_held s o' h = Inr (h \<in> rk_held s o')"
  by (simp add: rocks_is_held_def rk_held_def held_view_def)

lemma hold_step_hash: "h \<in> foldl hold_step H ops \<Longrightarrow> h \<in> H \<or> h \<in> hold_hash ` set ops"
proof (induction ops rule: rev_induct)
  case (snoc x ops)
  then show ?case by (cases x) auto
qed simp

lemma foldl_adds: "foldl hold_step H (map HAdd hs) = H \<union> set hs"
  by (induction hs arbitrary: H) auto

lemma foldl_drops: "foldl hold_step H (map HDrop hs) = H - set hs"
  by (induction hs arbitrary: H) auto

section \<open>Journal rows of one origin\<close>

lemma journal_row_shape:
  assumes "rocks_inv C s" and "ok_name o'" and "rows_of s Journal k = Some v" and "starts_with (name_key o') k"
  shows "\<exists>q. q < 2 ^ 64 \<and> k = name_key o' @ be_bytes64 q \<and> rk_journal s o' q = Some v"
proof -
  obtain a q where a: "ok_name a" "q < 2 ^ 64" "k = name_key a @ be_bytes64 q"
    using assms(1,3) unfolding rocks_inv_def journal_ok_def by blast
  then have "a = o'" using assms(2,4) starts_name_key by auto
  with a assms(2,3) show ?thesis by (auto simp: rk_journal_def journal_view_def)
qed

lemma rk_journal_row:
  "rk_journal s o' q = Some v \<Longrightarrow> q < 2 ^ 64 \<and> ok_name o' \<and> rows_of s Journal (name_key o' @ be_bytes64 q) = Some v"
  by (auto simp: rk_journal_def journal_view_def split: if_splits)

lemma finite_rk_journal: "finite (dom (rk_journal s o'))"
proof -
  have "finite ((\<lambda>q. name_key o' @ be_bytes64 q) ` dom (rk_journal s o'))"
    by (rule finite_subset [of _ "dom (rows_of s Journal)"])
      (auto dest!: rk_journal_row simp: get_cf_def [abs_def] finite_dom_map_of)
  then show ?thesis
    by (rule finite_imageD) (auto simp: inj_on_def be_bytes64_inject dest!: rk_journal_row)
qed

lemma map_eq_onI: "(\<And>v. f x = Some v \<longleftrightarrow> g x = Some v) \<Longrightarrow> f x = g x"
  by (metis not_Some_eq)

lemma kv_scan_journal:
  assumes s: "rocks_inv C s" and o: "ok_name o'" and q0: "q0 < 2 ^ 64"
  shows "kv_scan (name_key o' @ be_bytes64 q0) (name_key o') (rk_db s Journal)
     = map (\<lambda>(q, b). (name_key o' @ be_bytes64 q, b)) (journal_from (rk_journal s o') q0)"
proof (rule kv_unique)
  let ?p = "name_key o'" and ?J = "rk_journal s o'"
  let ?S = "{n \<in> dom ?J. q0 \<le> n}"
  have kv: "kv_inv (rk_db s Journal)" using s by (simp add: rocks_inv_def)
  have le: "?p \<le> ?p @ be_bytes64 q0" by (rule starts_with_le) simp
  have fin: "finite ?S" using finite_rk_journal by simp
  have lt: "q < 2 ^ 64" if "q \<in> dom ?J" for q using that rk_journal_row by blast
  let ?R = "map (\<lambda>(q, b). (?p @ be_bytes64 q, b)) (journal_from ?J q0)"
  have keys: "map fst ?R = map (\<lambda>q. ?p @ be_bytes64 q) (sorted_list_of_set ?S)"
    by (simp add: journal_from_def split_def)
  have "sorted_wrt (<) (sorted_list_of_set ?S)" using fin by (simp add: strict_sorted_iff)
  then have "sorted_wrt (<) (map fst ?R)"
    unfolding keys sorted_wrt_map
  proof (rule sorted_wrt_mono_rel [rotated])
    fix x y assume "x \<in> set (sorted_list_of_set ?S)" "y \<in> set (sorted_list_of_set ?S)" "x < y"
    then have "\<not> be_bytes64 y \<le> be_bytes64 x" using fin lt by (simp add: be64_order)
    then show "?p @ be_bytes64 x < ?p @ be_bytes64 y" by (simp add: prefix_order not_le [symmetric])
  qed
  then show "kv_inv ?R" by (simp add: kv_inv_def)
  show kl: "kv_inv (kv_scan (?p @ be_bytes64 q0) ?p (rk_db s Journal))"
    using kv le by (simp add: kv_scan_filter)
  show "map_of (kv_scan (?p @ be_bytes64 q0) ?p (rk_db s Journal)) = map_of ?R"
  proof (rule ext, rule map_eq_onI)
    fix k v
    have "map_of (kv_scan (?p @ be_bytes64 q0) ?p (rk_db s Journal)) k = Some v \<longleftrightarrow>
        rows_of s Journal k = Some v \<and> ?p @ be_bytes64 q0 \<le> k \<and> starts_with ?p k"
      using kl kv le by (simp flip: kv_mem_iff) (simp add: kv_scan_filter kv_mem_iff get_cf_def)
    also have "\<dots> \<longleftrightarrow> (\<exists>q. k = ?p @ be_bytes64 q \<and> q \<in> ?S \<and> ?J q = Some v)"
    proof
      assume k: "rows_of s Journal k = Some v \<and> ?p @ be_bytes64 q0 \<le> k \<and> starts_with ?p k"
      then obtain q where q: "q < 2 ^ 64" "k = ?p @ be_bytes64 q" "?J q = Some v"
        using journal_row_shape [OF s o] by blast
      with k q0 have "q0 \<le> q" by (simp add: prefix_order be64_order)
      with q show "\<exists>q. k = ?p @ be_bytes64 q \<and> q \<in> ?S \<and> ?J q = Some v" by blast
    next
      assume "\<exists>q. k = ?p @ be_bytes64 q \<and> q \<in> ?S \<and> ?J q = Some v"
      then obtain q where q: "k = ?p @ be_bytes64 q" "q \<in> ?S" "?J q = Some v" by blast
      then show "rows_of s Journal k = Some v \<and> ?p @ be_bytes64 q0 \<le> k \<and> starts_with ?p k"
        using rk_journal_row [OF q(3)] q0 by (simp add: prefix_order be64_order)
    qed
    also have "\<dots> \<longleftrightarrow> (k, v) \<in> set ?R"
      using fin by (fastforce simp: journal_from_def)
    also have "\<dots> \<longleftrightarrow> map_of ?R k = Some v" by (rule kv_mem_iff [OF \<open>kv_inv ?R\<close>])
    finally show "map_of (kv_scan (?p @ be_bytes64 q0) ?p (rk_db s Journal)) k = Some v \<longleftrightarrow> map_of ?R k = Some v" .
  qed
qed

lemma suffix_loop_take:
  "\<exists>k. suffix_loop cap events n rows = (events @ map snd (take k rows), k < length rows) \<and>
     (events = [] \<and> rows \<noteq> [] \<longrightarrow> 0 < k) \<and> k \<le> length rows"
proof (induction cap events n rows rule: suffix_loop.induct)
  case (2 cap events n k v rows)
  show ?case
  proof (cases "n + length v > cap \<and> events \<noteq> []")
    case True
    then show ?thesis by (intro exI [of _ 0]) simp
  next
    case False
    with 2 obtain j where "suffix_loop cap (events @ [v]) (n + length v) rows
        = ((events @ [v]) @ map snd (take j rows), j < length rows)" "j \<le> length rows" by auto
    with False show ?thesis by (intro exI [of _ "Suc j"]) simp
  qed
qed simp

lemma rocks_suffix_read:
  assumes "rocks_inv C s" and "ok_name o'" and "after < 2 ^ 64"
  shows "\<exists>k. rocks_journal_suffix s o' after cap =
          Inr (map snd (take k (journal_from (rk_journal s o') (sat_add64 after 1))),
               k < length (journal_from (rk_journal s o') (sat_add64 after 1))) \<and>
        (journal_from (rk_journal s o') (sat_add64 after 1) \<noteq> [] \<longrightarrow> 0 < k) \<and>
        k \<le> length (journal_from (rk_journal s o') (sat_add64 after 1))"
proof -
  let ?J = "journal_from (rk_journal s o') (sat_add64 after 1)"
  have "sat_add64 after 1 < 2 ^ 64" by (simp add: sat_add64_def)
  note scan = kv_scan_journal [OF assms(1,2) this]
  obtain k where k: "suffix_loop cap [] 0 (map (\<lambda>(q, b). (name_key o' @ be_bytes64 q, b)) ?J)
      = (map snd (take k (map (\<lambda>(q, b). (name_key o' @ be_bytes64 q, b)) ?J)), k < length ?J)"
    "?J \<noteq> [] \<longrightarrow> 0 < k" "k \<le> length ?J"
    using suffix_loop_take [of cap "[]" 0 "map (\<lambda>(q, b). (name_key o' @ be_bytes64 q, b)) ?J"] by auto
  have "map snd (take k (map (\<lambda>(q, b). (name_key o' @ be_bytes64 q, b)) ?J)) = map snd (take k ?J)"
    by (simp add: take_map split_def)
  with k show ?thesis
    using assms(2) by (intro exI [of _ k]) (simp add: rocks_journal_suffix_def scan del: One_nat_def)
qed

section \<open>Compaction and replacement\<close>

lemma journal_dels_other [simp]: "c \<noteq> Journal \<Longrightarrow> batch_map c (map (\<lambda>(k, _). DelCf Journal k) rows) m = m"
  by (rule batch_map_untouched) auto

text \<open>The rows a compaction deletes.\<close>

lemma compact_rows:
  assumes s: "rocks_inv C s" and o: "ok_name o'" and q0: "q0 < 2 ^ 64"
  shows "fst ` set (takeWhile (\<lambda>(k, _). starts_with (name_key o') k \<and> of_be_bytes (last_n 8 k) \<le> floor)
            (kv_from (name_key o' @ be_bytes64 q0) (rk_db s Journal)))
     = {name_key o' @ be_bytes64 q |q. q \<in> dom (rk_journal s o') \<and> q0 \<le> q \<and> q \<le> floor}"
proof -
  let ?p = "name_key o'" and ?start = "name_key o' @ be_bytes64 q0"
  let ?P = "\<lambda>(k :: bytes, _ :: bytes). starts_with ?p k" and ?Q = "\<lambda>(k :: bytes, _ :: bytes). of_be_bytes (last_n 8 k) \<le> floor"
  let ?J = "journal_from (rk_journal s o') q0" and ?f = "\<lambda>(q, b :: bytes). (?p @ be_bytes64 q, b)"
  have "takeWhile (\<lambda>(k, v). starts_with ?p k \<and> of_be_bytes (last_n 8 k) \<le> floor) (kv_from ?start (rk_db s Journal))
     = takeWhile ?Q (kv_scan ?start ?p (rk_db s Journal))"
    by (simp add: kv_scan_def takeWhile_takeWhile split_def conj_commute)
  also have "\<dots> = takeWhile ?Q (map ?f ?J)" by (simp only: kv_scan_journal [OF s o q0])
  also have "\<dots> = map ?f (takeWhile (?Q \<circ> ?f) ?J)" by (simp add: takeWhile_map)
  also have "takeWhile (?Q \<circ> ?f) ?J = takeWhile (\<lambda>(q, b). q \<le> floor) ?J"
  proof (rule takeWhile_cong [OF refl])
    fix x assume "x \<in> set ?J"
    then have "fst x < 2 ^ 64"
      using finite_rk_journal [of s o'] by (auto simp: journal_from_def dest!: rk_journal_row)
    then show "(?Q \<circ> ?f) x = (case x of (q, b) \<Rightarrow> q \<le> floor)"
      by (simp add: split_def of_be_bytes_be_bytes64)
  qed
  also have "\<dots> = filter (\<lambda>(q, b). q \<le> floor) ?J"
  proof (rule takeWhile_eq_filter_sorted)
    show "sorted_wrt (\<lambda>x y. fst x < fst y) ?J"
      using finite_rk_journal [of s o'] by (simp add: journal_from_def sorted_wrt_map strict_sorted_iff)
  qed auto
  finally show ?thesis
    using finite_rk_journal [of s o'] by (force simp: journal_from_def image_iff)
qed

lemma rocks_compact_done:
  assumes s: "rocks_inv C s" and o: "ok_name o'" and lt: "tail_seq (rk_clock s o') < floor" and f: "floor < 2 ^ 64"
  shows "\<exists>s'. rocks_compact_journal s o' floor = Inr s' \<and> rocks_inv C s' \<and>
        rk_clock s' = (rk_clock s)(o' := (rk_clock s o')\<lparr>tail_seq := floor\<rparr>) \<and>
        rk_journal s' = (rk_journal s)(o' := (\<lambda>q. if tail_seq (rk_clock s o') < q \<and> q \<le> floor then None else rk_journal s o' q)) \<and>
        rk_held s' = rk_held s \<and> rk_fact C s' = rk_fact C s \<and> rk_mark s' = rk_mark s \<and> rk_meta s' = rk_meta s"
proof -
  let ?p = "name_key o'" and ?t = "tail_seq (rk_clock s o')" and ?c = "(rk_clock s o')\<lparr>tail_seq := floor\<rparr>"
  have t1: "sat_add64 ?t 1 = ?t + 1" "?t + 1 < 2 ^ 64" using lt f by (simp_all add: sat_add64_small)
  let ?rows = "takeWhile (\<lambda>(k, _). starts_with ?p k \<and> of_be_bytes (last_n 8 k) \<le> floor)
                        (kv_from (?p @ be_bytes64 (?t + 1)) (rk_db s Journal))"
  let ?dels = "map (\<lambda>(k, _). DelCf Journal k) ?rows"
  let ?s = "commit_with_delta (?dels @ [PutCf Clocks ?p (clock_bytes ?c)]) [] s"
  have run: "rocks_compact_journal s o' floor = Inr ?s"
    using lt o t1(1) by (simp add: rocks_compact_journal_def rocks_clock_read [OF s o] commit_no_delta Let_def)
  have keys: "fst ` set ?rows = {?p @ be_bytes64 q |q. q \<in> dom (rk_journal s o') \<and> ?t + 1 \<le> q \<and> q \<le> floor}"
    by (rule compact_rows [OF s o t1(2)])
  have dels: "fam {Journal} ?dels" by (auto simp: fam_def)
  have rows: "rows_of ?s Journal = (\<lambda>k. if k \<in> fst ` set ?rows then None else rows_of s Journal k)"
    "rows_of ?s Clocks = (rows_of s Clocks)(?p \<mapsto> clock_bytes ?c)"
    "rows_of ?s Hold = rows_of s Hold" "rows_of ?s Holdby = rows_of s Holdby"
    "rows_of ?s Wm = rows_of s Wm" "rows_of ?s Meta = rows_of s Meta"
    by (simp_all add: batch_map_dels)
  have c64: "u64_clock ?c"
    using clock_view_u64 [of "rows_of s Clocks" o'] s f by (simp add: u64_clock_def rocks_inv_def rk_clock_def)
  have fam: "fam (- {Att, AttPath, AttNar}) (?dels @ [PutCf Clocks ?p (clock_bytes ?c)])"
    using fam_mono [OF dels] by auto
  have facts: "facts_inv ?s" "rk_fact C ?s = rk_fact C s"
    using s fam by (intro facts_inv_other; simp add: rocks_inv_iff)+
  have clock: "rk_clock ?s = (rk_clock s)(o' := ?c)"
    using rk_clock_def [of ?s, unfolded rows(2) clock_view_put [OF o c64]] by (simp only: rk_clock_def [of s])
  have journal: "rk_journal ?s = (rk_journal s)(o' := (\<lambda>q. if ?t < q \<and> q \<le> floor then None else rk_journal s o' q))"
  proof (intro ext)
    fix a q
    show "rk_journal ?s a q = ((rk_journal s)(o' := (\<lambda>q. if ?t < q \<and> q \<le> floor then None else rk_journal s o' q))) a q"
    proof (cases "ok_name a \<and> q < 2 ^ 64")
      case True
      have "name_key a @ be_bytes64 q \<in> fst ` set ?rows \<longleftrightarrow> a = o' \<and> q \<in> dom (rk_journal s o') \<and> ?t + 1 \<le> q \<and> q \<le> floor"
        unfolding keys using True o f by (auto simp: be_bytes64_inject dest: rk_journal_row)
      then have "rk_journal ?s a q = (if a = o' \<and> q \<in> dom (rk_journal s o') \<and> ?t + 1 \<le> q \<and> q \<le> floor then None
          else rk_journal s a q)"
        using rows(1) True by (simp add: rk_journal_def journal_view_def del: rows_commit)
      then show ?thesis by auto
    qed (auto simp: rk_journal_def journal_view_def)
  qed
  have "journal_ok (rows_of ?s Journal)"
    using s unfolding rows by (auto simp: rocks_inv_def journal_ok_def)
  moreover have "owned_ok (rows_of ?s Clocks) (rows_of ?s Journal) (rows_of ?s Hold)"
    unfolding rows(2) by (rule owned_ok_upd [OF _ o journal [unfolded rk_journal_def] fun_upd_triv [symmetric]])
      (use s in \<open>simp_all only: rows(3) rocks_inv_iff simp_thms fun_upd_triv\<close>)
  ultimately have inv: "rocks_inv C ?s"
    using s facts(1) clocks_ok_put [OF o c64] by (simp only: rocks_inv_iff rows(2-6) simp_thms)
  have rest: "rk_held ?s = rk_held s" "rk_mark ?s = rk_mark s" "rk_meta ?s = rk_meta s"
    unfolding rk_held_def rk_mark_def rk_meta_def rows by simp_all
  show ?thesis using run inv clock journal rest facts(2) by (intro exI [of _ ?s]) (simp only: simp_thms)
qed

lemma rocks_replace_stale:
  "rocks_inv C s \<Longrightarrow> ok_name o' \<Longrightarrow>
   g < generation (rk_clock s o') \<or> (g = generation (rk_clock s o') \<and> q < seq (rk_clock s o')) \<Longrightarrow>
   rocks_replace_holdings s o' g q held = Inr (False, s)"
  by (auto simp: rocks_replace_holdings_def rocks_clock_read)

lemma rocks_replace_done:
  assumes s: "rocks_inv C s" and o: "ok_name o'"
    and new: "\<not> (g < generation (rk_clock s o') \<or> (g = generation (rk_clock s o') \<and> q < seq (rk_clock s o')))"
    and g: "g < 2 ^ 64" and q: "q < 2 ^ 64" and h: "\<And>h. h \<in> set held \<Longrightarrow> length h = 32"
  shows "\<exists>s'. rocks_replace_holdings s o' g q held = Inr (True, s') \<and> rocks_inv C s' \<and>
        rk_clock s' = (rk_clock s)(o' := \<lparr>generation = g, seq = q, tail_seq = q\<rparr>) \<and>
        rk_journal s' = (rk_journal s)(o' := Map.empty) \<and> rk_held s' = (rk_held s)(o' := set held) \<and>
        rk_fact C s' = rk_fact C s \<and> rk_mark s' = rk_mark s \<and> rk_meta s' = rk_meta s"
proof -
  let ?p = "name_key o'" and ?c = "\<lparr>generation = g, seq = q, tail_seq = q\<rparr>"
  let ?old = "map (\<lambda>(k, _). last_n 32 k) (scan (rk_db s) Hold ?p)"
  define old where "old = ?old"
  define ops where "ops = map HDrop (filter (\<lambda>h. h \<notin> set (remdups held)) old) @ map HAdd (filter (\<lambda>h. h \<notin> set old) (remdups held))"
  define hb where "hb = hold_batch o' (last_holds ops)"
  define jb where "jb = map (\<lambda>(k, _). DelCf Journal k) (scan (rk_db s) Journal ?p)"
  let ?s = "commit_with_delta (hb @ jb @ [PutCf Clocks ?p (clock_bytes ?c)]) [] s"
  have run: "rocks_replace_holdings s o' g q held = Inr (True, ?s)"
    using new o by (simp add: rocks_replace_holdings_def rocks_clock_read [OF s o] apply_holds_eq commit_no_delta Let_def
        hb_def jb_def ops_def old_def)
  have old: "set old = rk_held s o'" unfolding old_def by (rule hold_scan(1) [OF s o])
  have ops32: "length (hold_hash x) = 32" if "x \<in> set ops" for x
  proof -
    from that have "hold_hash x \<in> set old \<union> set held" by (auto simp: ops_def)
    then show ?thesis using h old by (auto simp: rk_held_def held_view_def)
  qed
  have jb: "fam {Journal} jb" by (auto simp: fam_def jb_def)
  have hb: "fam {Hold, Holdby} hb" unfolding hb_def by (rule fam_hold_batch)
  note other = fam_other [OF jb] fam_other [OF hb]
  have rows: "rows_of ?s Clocks = (rows_of s Clocks)(?p \<mapsto> clock_bytes ?c)"
    "rows_of ?s Journal = batch_map Journal jb (rows_of s Journal)"
    "rows_of ?s Hold = batch_map Hold hb (rows_of s Hold)" "rows_of ?s Holdby = batch_map Holdby hb (rows_of s Holdby)"
    "rows_of ?s Wm = rows_of s Wm" "rows_of ?s Meta = rows_of s Meta"
    by (simp_all add: other)
  have c64: "u64_clock ?c" using g q by (simp add: u64_clock_def)
  have "fam (- {Att, AttPath, AttNar}) (hb @ jb @ [PutCf Clocks ?p (clock_bytes ?c)])"
    using fam_mono [OF jb] fam_mono [OF hb] by auto
  then have facts: "facts_inv ?s" "rk_fact C ?s = rk_fact C s"
    using s by (intro facts_inv_other; simp add: rocks_inv_iff)+
  have kvj: "kv_inv (rk_db s Journal)" using s by (simp add: rocks_inv_def)
  have jrows: "rows_of ?s Journal = (\<lambda>k. if rows_of s Journal k \<noteq> None \<and> starts_with ?p k then None else rows_of s Journal k)"
    unfolding rows(2) unfolding jb_def batch_map_dels
    by (simp only: scan_keys [of "rk_db s" Journal _ ?p, OF kvj])
  have ops32': "\<And>h. h \<in> fst ` set (last_holds ops) \<Longrightarrow> length h = 32"
    using ops32 unfolding last_holds_keys by blast
  have clock: "rk_clock ?s = (rk_clock s)(o' := ?c)"
    unfolding rk_clock_def rows by (rule clock_view_put [OF o c64])
  have journal: "rk_journal ?s = (rk_journal s)(o' := Map.empty)"
    unfolding rk_journal_def jrows using o by (auto simp: journal_view_def fun_eq_iff starts_name_key)
  have "foldl hold_step (rk_held s o') ops = set held"
    using old by (auto simp: ops_def foldl_adds foldl_drops)
  then have held: "rk_held ?s = (rk_held s)(o' := set held)"
    using held_view_holds [where m = "rows_of s Hold", OF o ops32] unfolding rk_held_def rows(3) unfolding hb_def by simp
  have "journal_ok (rows_of ?s Journal)"
    using s unfolding jrows by (auto simp: rocks_inv_def journal_ok_def)
  moreover have "holds_ok (rows_of ?s Hold) (rows_of ?s Holdby)"
    unfolding rows(3,4) unfolding hb_def by (rule holds_ok_batch [OF o ops32']) (use s in \<open>simp_all add: rocks_inv_def\<close>)
  moreover have "owned_ok (rows_of ?s Clocks) (rows_of ?s Journal) (rows_of ?s Hold)"
    unfolding rows(1) by (rule owned_ok_upd [OF _ o journal [unfolded rk_journal_def] held [unfolded rk_held_def]])
      (use s in \<open>simp only: rocks_inv_iff\<close>)
  ultimately have inv: "rocks_inv C ?s"
    using s facts(1) clocks_ok_put [OF o c64] by (simp only: rocks_inv_iff rows(1,5,6) simp_thms)
  have rest: "rk_mark ?s = rk_mark s" "rk_meta ?s = rk_meta s"
    unfolding rk_mark_def rk_meta_def rows by simp_all
  show ?thesis using run inv clock journal held rest facts(2) by (intro exI [of _ ?s]) (simp only: simp_thms)
qed

section \<open>Watermarks, facts and lookups\<close>

lemma mark_row:
  assumes "ok_name p"
  shows "unat (hd (name_key p @ bytes_of o')) = length p"
    and "string_of (take (length p) (drop 1 (name_key p @ bytes_of o'))) = p"
    and "string_of (drop (1 + length p) (name_key p @ bytes_of o')) = o'"
  using assms by (simp_all add: name_key_def ok_name_def unat_of_nat)

lemma rocks_watermarks_read:
  assumes s: "rocks_inv C s"
  shows "\<exists>ms. rocks_watermarks s = Inr ms \<and> distinct (map (\<lambda>(p, o', q). (p, o')) ms) \<and>
      (\<forall>p o' q. (p, o', q) \<in> set ms \<longrightarrow> rk_mark s p o' = q) \<and>
      (\<forall>p o'. rk_mark s p o' \<noteq> 0 \<longrightarrow> (p, o', rk_mark s p o') \<in> set ms)"
proof -
  have kv: "kv_inv (rk_db s Wm)" and ok: "marks_ok (rows_of s Wm)" using s by (simp_all add: rocks_inv_def)
  define f where "f = (\<lambda>(k, v). let plen = unat (hd k :: u8)
        in (string_of (take plen (drop 1 k)), string_of (drop (1 + plen) k), of_be_bytes (take 8 v)))"
  let ?ms = "map f (rk_db s Wm)"
  have run: "rocks_watermarks s = Inr ?ms" by (simp add: rocks_watermarks_def scan_all kv f_def)
  have row: "\<exists>p o' q. ok_name p \<and> ok_name o' \<and> k = name_key p @ bytes_of o' \<and> f (k, v) = (p, o', q) \<and> rk_mark s p o' = q"
    if "(k, v) \<in> set (rk_db s Wm)" for k v
  proof -
    have "rows_of s Wm k = Some v" using that kv by (simp add: get_cf_def kv_mem_iff)
    then obtain p o' q where r: "ok_name p" "ok_name o'" "q < 2 ^ 64" "k = name_key p @ bytes_of o'" "v = be_bytes64 q"
      and m: "rows_of s Wm (name_key p @ bytes_of o') = Some (be_bytes64 q)"
      using ok unfolding marks_ok_def by blast
    have "f (k, v) = (p, o', q)" using r mark_row [OF r(1), of o'] by (simp add: f_def Let_def of_be_bytes_be_bytes64)
    moreover have "rk_mark s p o' = q" using r m by (simp add: rk_mark_def mark_view_def of_be_bytes_be_bytes64)
    ultimately show ?thesis using r by blast
  qed
  have inj: "inj_on ((\<lambda>(p, o', q). (p, o')) \<circ> f) (set (rk_db s Wm))"
  proof (rule inj_onI)
    fix x y assume x: "x \<in> set (rk_db s Wm)" and y: "y \<in> set (rk_db s Wm)"
      and eq: "((\<lambda>(p, o', q). (p, o')) \<circ> f) x = ((\<lambda>(p, o', q). (p, o')) \<circ> f) y"
    obtain k v k' v' where xy: "x = (k, v)" "y = (k', v')" by fastforce
    have "k = k'" using row [of k v] row [of k' v'] x y eq unfolding xy by auto
    moreover have "map_of (rk_db s Wm) k = Some v" "map_of (rk_db s Wm) k' = Some v'"
      using x y xy kv by (simp_all flip: kv_mem_iff)
    ultimately show "x = y" using xy by simp
  qed
  have "distinct (rk_db s Wm)" using kv_inv_distinct [OF kv] by (simp add: distinct_map)
  then have "distinct (map (\<lambda>(p, o', q). (p, o')) ?ms)" using inj by (simp add: distinct_map comp_def)
  moreover have "rk_mark s p o' = q" if "(p, o', q) \<in> set ?ms" for p o' q
  proof -
    from that obtain k v where "(k, v) \<in> set (rk_db s Wm)" "f (k, v) = (p, o', q)" by auto
    with row [OF this(1)] show ?thesis by auto
  qed
  moreover have "(p, o', rk_mark s p o') \<in> set ?ms" if "rk_mark s p o' \<noteq> 0" for p o'
  proof -
    from that obtain v where v: "ok_name p" "rows_of s Wm (name_key p @ bytes_of o') = Some v"
      by (auto simp: rk_mark_def mark_view_def split: if_splits option.splits)
    then have mem: "(name_key p @ bytes_of o', v) \<in> set (rk_db s Wm)" using kv by (simp add: get_cf_def kv_mem_iff)
    from row [OF this] obtain a b q where "ok_name a" "ok_name b" "name_key p @ bytes_of o' = name_key a @ bytes_of b"
      "f (name_key p @ bytes_of o', v) = (a, b, q)" "rk_mark s a b = q" by blast
    moreover from this(1,3) v(1) have "a = p" "b = o'" by auto
    ultimately have "f (name_key p @ bytes_of o', v) = (p, o', rk_mark s p o')" by simp
    then show ?thesis using mem by (metis image_eqI list.set_map)
  qed
  ultimately show ?thesis using run by blast
qed

lemma att_at_row:
  assumes s: "rocks_inv C s" and h: "rows_of s AttPath pk = Some h"
  shows "\<exists>a. att_at C (rk_db s) h pk = Inr (Some a) \<and> rk_fact C s pk = Some a \<and> path_key_of a = pk \<and>
     canonical a \<and> length (nar_hash a) = 32"
proof -
  have ok: "facts_ok C (rows_of s AttPath) (rows_of s Att) (rows_of s AttNar)" using s by (simp add: rocks_inv_def)
  obtain a where "length (nar_hash a) = 32" "canonical a" "path_key_of a = pk" "h = attestation_hash C a"
    "rows_of s Att (att_key h pk) = Some (enc_att C a)" "fact_view C (rows_of s AttPath) (rows_of s Att) pk = Some a"
    using fact_view_row [OF ok h] .
  then show ?thesis by (simp add: att_at_def att_decode_def rk_fact_def)
qed

lemma rk_fact_None: "rows_of s AttPath pk = None \<Longrightarrow> rk_fact C s pk = None"
  by (simp add: rk_fact_def fact_view_def)

lemma rocks_fact_row:
  assumes "rocks_inv C s" and "rk_fact C s pk = Some a"
  shows "canonical a \<and> path_key_of a = pk \<and> length (nar_hash a) = 32"
proof -
  obtain h where "rows_of s AttPath pk = Some h" using assms(2) rk_fact_None by fastforce
  from att_at_row [OF assms(1) this] assms(2) show ?thesis by auto
qed

lemma rocks_sigs_read:
  assumes "rocks_inv C s"
  shows "rocks_attestation_sigs C s hp h = Inr (map_option sigs (rk_fact C s (bytes_of hp @ h)))"
proof (cases "rows_of s AttPath (bytes_of hp @ h)")
  case None
  then show ?thesis by (simp add: rocks_attestation_sigs_def rk_fact_None)
next
  case (Some hh)
  from att_at_row [OF assms this] Some show ?thesis by (auto simp: rocks_attestation_sigs_def)
qed

lemma rocks_claims_read:
  assumes s: "rocks_inv C s"
  shows "\<exists>rows. rocks_claims C s = Inr rows \<and>
      set rows = {(store_path a, nar_hash a, sigs a) |a. rk_fact C s (path_key_of a) = Some a}"
proof -
  have kv: "kv_inv (rk_db s Att)" and ok: "facts_ok C (rows_of s AttPath) (rows_of s Att) (rows_of s AttNar)"
    using s by (simp_all add: rocks_inv_def)
  let ?g = "\<lambda>v. the (dec_att C v)"
  have row: "\<exists>a. v = enc_att C a \<and> rk_fact C s (path_key_of a) = Some a" if "(k, v) \<in> set (rk_db s Att)" for k v
  proof -
    have kv': "rows_of s Att k = Some v" using that kv by (simp add: get_cf_def kv_mem_iff)
    then obtain pk h where p: "k = att_key h pk" "rows_of s AttPath pk = Some h"
      using ok unfolding facts_ok_def by blast
    obtain a where "path_key_of a = pk" "rows_of s Att (att_key h pk) = Some (enc_att C a)"
      "fact_view C (rows_of s AttPath) (rows_of s Att) pk = Some a"
      using fact_view_row [OF ok p(2)] .
    then show ?thesis using kv' p by (auto simp: rk_fact_def)
  qed
  have "rocks_claims C s = Inr (map (\<lambda>(_, v). (store_path (?g v), nar_hash (?g v), sigs (?g v))) (rk_db s Att))"
    unfolding rocks_claims_def scan_all [of "rk_db s" Att, OF kv]
  proof (rule map_res_Inr)
    fix x assume x: "x \<in> set (rk_db s Att)"
    obtain k v where kv: "x = (k, v)" by fastforce
    with row [of k v] x obtain a where "v = enc_att C a" by auto
    then show "(case x of (_, v) \<Rightarrow> bindr (att_decode C v) (\<lambda>a. Inr (store_path a, nar_hash a, sigs a)))
       = Inr (case x of (_, v) \<Rightarrow> (store_path (?g v), nar_hash (?g v), sigs (?g v)))"
      by (simp add: kv att_decode_def)
  qed
  moreover have "(\<lambda>(_, v). (store_path (?g v), nar_hash (?g v), sigs (?g v))) ` set (rk_db s Att)
      = {(store_path a, nar_hash a, sigs a) |a. rk_fact C s (path_key_of a) = Some a}"
  proof (intro equalityI subsetI)
    fix x assume "x \<in> (\<lambda>(_, v). (store_path (?g v), nar_hash (?g v), sigs (?g v))) ` set (rk_db s Att)"
    then obtain k v where "(k, v) \<in> set (rk_db s Att)" "x = (store_path (?g v), nar_hash (?g v), sigs (?g v))" by auto
    with row [OF this(1)] show "x \<in> {(store_path a, nar_hash a, sigs a) |a. rk_fact C s (path_key_of a) = Some a}" by auto
  next
    fix x assume "x \<in> {(store_path a, nar_hash a, sigs a) |a. rk_fact C s (path_key_of a) = Some a}"
    then obtain a where a: "x = (store_path a, nar_hash a, sigs a)" "rk_fact C s (path_key_of a) = Some a" by auto
    then obtain h where h: "rows_of s AttPath (path_key_of a) = Some h" using rk_fact_None by fastforce
    obtain b where "rows_of s Att (att_key h (path_key_of a)) = Some (enc_att C b)"
      "fact_view C (rows_of s AttPath) (rows_of s Att) (path_key_of a) = Some b"
      using fact_view_row [OF ok h] .
    with a have "(att_key h (path_key_of a), enc_att C a) \<in> set (rk_db s Att)"
      using kv by (simp add: rk_fact_def get_cf_def kv_mem_iff)
    then show "x \<in> (\<lambda>(_, v). (store_path (?g v), nar_hash (?g v), sigs (?g v))) ` set (rk_db s Att)"
      using a(1) by force
  qed
  ultimately show ?thesis by simp
qed

text \<open>The holders of a hash are read from the mirror table.\<close>

lemma holders_of_set:
  assumes s: "rocks_inv C s" and h: "length h = 32"
  shows "set (holders_of s h) = {o'. h \<in> rk_held s o'}"
proof -
  have kv: "kv_inv (rk_db s Holdby)" and ok: "holds_ok (rows_of s Hold) (rows_of s Holdby)"
    using s by (simp_all add: rocks_inv_def)
  have "o' \<in> set (holders_of s h) \<longleftrightarrow> h \<in> rk_held s o'" for o'
  proof
    assume "o' \<in> set (holders_of s h)"
    then obtain k v where k: "rows_of s Holdby k = Some v" "starts_with h k" "o' = string_of (drop 32 k)"
      using kv by (auto simp: holders_of_def scan_set)
    then obtain b g where b: "ok_name b" "length g = 32" "k = g @ bytes_of b"
      using ok unfolding holds_ok_def by blast
    have "g = h" using k(2) b h by (simp add: starts_with_append_length)
    then have "o' = b" using k(3) b by simp
    then show "h \<in> rk_held s o'" using ok b k(1) \<open>g = h\<close> by (auto simp: holds_ok_def rk_held_def held_view_def)
  next
    assume "h \<in> rk_held s o'"
    then have o: "ok_name o'" "rows_of s Hold (name_key o' @ h) \<noteq> None" by (auto simp: rk_held_def held_view_def)
    then obtain v where "rows_of s Holdby (h @ bytes_of o') = Some v" using ok h unfolding holds_ok_def by blast
    then have "(h @ bytes_of o', v) \<in> set (scan (rk_db s) Holdby h)" using kv by (simp add: scan_set)
    then show "o' \<in> set (holders_of s h)" using h by (force simp: holders_of_def)
  qed
  then show ?thesis by blast
qed

lemma lookup_atts_set:
  assumes "rocks_inv C s" and "\<And>a. a \<in> set rows \<Longrightarrow> length (nar_hash a) = 32"
  shows "(a, hs) \<in> set (lookup_atts s rows) \<longleftrightarrow> a \<in> set rows \<and> hs = holders_of s (nar_hash a) \<and> hs \<noteq> []"
  using assms(2) by (auto simp: lookup_atts_def Let_def split: if_splits)

text \<open>The facts under a prefix of the path index.\<close>

lemma path_scan:
  assumes s: "rocks_inv C s"
  shows "\<exists>atts. map_res (\<lambda>(pk, h). att_at C (rk_db s) h pk) (scan (rk_db s) AttPath p) = Inr atts \<and>
     set (List.map_filter id atts) = {a. \<exists>pk. starts_with p pk \<and> rk_fact C s pk = Some a}"
proof -
  have kv: "kv_inv (rk_db s AttPath)" using s by (simp add: rocks_inv_def)
  let ?g = "\<lambda>(pk :: bytes, h :: bytes). rk_fact C s pk"
  have run: "map_res (\<lambda>(pk, h). att_at C (rk_db s) h pk) (scan (rk_db s) AttPath p)
     = Inr (map ?g (scan (rk_db s) AttPath p))"
  proof (rule map_res_Inr)
    fix x assume x: "x \<in> set (scan (rk_db s) AttPath p)"
    obtain pk h where p: "x = (pk, h)" by fastforce
    then have "rows_of s AttPath pk = Some h" using x kv by (simp add: scan_set)
    from att_at_row [OF s this] show "(case x of (pk, h) \<Rightarrow> att_at C (rk_db s) h pk) = Inr (?g x)"
      by (auto simp: p)
  qed
  have "a \<in> set (List.map_filter id (map ?g (scan (rk_db s) AttPath p))) \<longleftrightarrow>
      (\<exists>pk. starts_with p pk \<and> rk_fact C s pk = Some a)" for a
  proof
    assume "a \<in> set (List.map_filter id (map ?g (scan (rk_db s) AttPath p)))"
    then obtain pk h where "(pk, h) \<in> set (scan (rk_db s) AttPath p)" "rk_fact C s pk = Some a"
      by (auto simp: map_filter_def)
    then show "\<exists>pk. starts_with p pk \<and> rk_fact C s pk = Some a" using kv by (auto simp: scan_set)
  next
    assume "\<exists>pk. starts_with p pk \<and> rk_fact C s pk = Some a"
    then obtain pk where p: "starts_with p pk" "rk_fact C s pk = Some a" by blast
    then obtain h where "rows_of s AttPath pk = Some h" using rk_fact_None by fastforce
    then have "(pk, h) \<in> set (scan (rk_db s) AttPath p)" using p kv by (simp add: scan_set)
    then show "a \<in> set (List.map_filter id (map ?g (scan (rk_db s) AttPath p)))"
      using p(2) by (force simp: map_filter_def image_iff)
  qed
  with run show ?thesis by blast
qed

lemma rocks_lookup_read:
  assumes s: "rocks_inv C s" and hp: "length hp = 32"
  shows "\<exists>rows. rocks_lookup_hash_part C s hp = Inr rows \<and>
        (\<forall>a hs. (a, hs) \<in> set rows \<longrightarrow> rk_fact C s (path_key_of a) = Some a \<and>
           take 32 (path_key_of a) = bytes_of hp \<and> hs \<noteq> [] \<and> set hs = {o'. nar_hash a \<in> rk_held s o'}) \<and>
        (\<forall>a o'. rk_fact C s (path_key_of a) = Some a \<longrightarrow> take 32 (path_key_of a) = bytes_of hp \<longrightarrow>
           nar_hash a \<in> rk_held s o' \<longrightarrow> a \<in> fst ` set rows)"
proof -
  obtain atts where at: "map_res (\<lambda>(pk, h). att_at C (rk_db s) h pk) (scan (rk_db s) AttPath (bytes_of hp)) = Inr atts"
    "set (List.map_filter id atts) = {a. \<exists>pk. starts_with (bytes_of hp) pk \<and> rk_fact C s pk = Some a}"
    using path_scan [OF s] by blast
  let ?atts = "List.map_filter id atts"
  have mem: "a \<in> set ?atts \<longleftrightarrow> take 32 (path_key_of a) = bytes_of hp \<and> rk_fact C s (path_key_of a) = Some a" for a
    unfolding at(2) using rocks_fact_row [OF s] hp by (auto simp: starts_with_def)
  have len: "length (nar_hash a) = 32" if "a \<in> set ?atts" for a
    using that mem rocks_fact_row [OF s] by blast
  have rows: "(a, hs) \<in> set (lookup_atts s ?atts) \<longleftrightarrow> a \<in> set ?atts \<and> hs = holders_of s (nar_hash a) \<and> hs \<noteq> []" for a hs
    by (rule lookup_atts_set [OF s]) (rule len)
  have run: "rocks_lookup_hash_part C s hp = Inr (lookup_atts s ?atts)"
    by (simp add: rocks_lookup_hash_part_def at(1))
  have sound: "rk_fact C s (path_key_of a) = Some a \<and> take 32 (path_key_of a) = bytes_of hp \<and> hs \<noteq> [] \<and>
      set hs = {o'. nar_hash a \<in> rk_held s o'}" if "(a, hs) \<in> set (lookup_atts s ?atts)" for a hs
  proof -
    have a: "a \<in> set ?atts" "hs = holders_of s (nar_hash a)" "hs \<noteq> []" using that unfolding rows by auto
    then show ?thesis using mem [of a] holders_of_set [OF s len [OF a(1)]] by simp
  qed
  have complete: "a \<in> fst ` set (lookup_atts s ?atts)"
    if "rk_fact C s (path_key_of a) = Some a" "take 32 (path_key_of a) = bytes_of hp" "nar_hash a \<in> rk_held s o'" for a o'
  proof -
    have a: "a \<in> set ?atts" using that mem by blast
    then have "holders_of s (nar_hash a) \<noteq> []" using holders_of_set [OF s len [OF a]] that(3) by auto
    then have "(a, holders_of s (nar_hash a)) \<in> set (lookup_atts s ?atts)" using a rows by blast
    then show ?thesis by force
  qed
  show ?thesis using run sound complete by blast
qed

section \<open>Reaping departed origins\<close>

definition del_only :: "batch_op list \<Rightarrow> bool" where
  "del_only B \<longleftrightarrow> (\<forall>x\<in>set B. \<exists>c k. x = DelCf c k)"

lemma batch_map_del_only:
  "del_only B \<Longrightarrow> batch_map c B m = (\<lambda>k. if DelCf c k \<in> set B then None else m k)"
proof (induction B arbitrary: m)
  case (Cons x B)
  then obtain c' k' where x: "x = DelCf c' k'" by (auto simp: del_only_def)
  have "batch_map c B m' = (\<lambda>k. if DelCf c k \<in> set B then None else m' k)" for m'
    by (rule Cons.IH) (use Cons.prems in \<open>simp add: del_only_def\<close>)
  then show ?case by (auto simp: x fun_eq_iff)
qed simp

definition reap_batch :: "rocks \<Rightarrow> string \<Rightarrow> batch_op list" where
  "reap_batch s o' =
     concat (map (\<lambda>(k, _). [DelCf Hold k, DelCf Holdby (last_n 32 k @ bytes_of o')]) (scan (rk_db s) Hold (name_key o')))
     @ map (\<lambda>(k, _). DelCf Journal k) (scan (rk_db s) Journal (name_key o')) @ [DelCf Clocks (name_key o')]"

definition stale_mark :: "string list \<Rightarrow> bytes \<Rightarrow> bool" where
  "stale_mark keep k = (let plen = unat (hd k); peer = string_of (take plen (drop 1 k));
      origin = string_of (drop (1 + plen) k) in peer \<notin> set keep \<or> origin \<notin> set keep)"

definition reaped :: "rocks \<Rightarrow> string list \<Rightarrow> string set" where
  "reaped s keep = {o'. ok_name o' \<and> rows_of s Clocks (name_key o') \<noteq> None \<and> o' \<notin> set keep}"

lemma retain_run:
  assumes s: "rocks_inv C s"
  shows "\<exists>ds. rocks_retain_origins s keep = Inr (commit_with_delta (concat (map (reap_batch s) ds) @
       map (\<lambda>(k, _). DelCf Wm k) (filter (\<lambda>(k, _). stale_mark keep k) (rk_db s Wm))) [] s) \<and> set ds = reaped s keep"
proof -
  have kv: "kv_inv (rk_db s c)" and ok: "clocks_ok (rows_of s Clocks)" for c
    using s by (simp_all add: rocks_inv_def)
  let ?names = "map (\<lambda>(k :: bytes, _ :: bytes). string_of (drop 1 k)) (rk_db s Clocks)"
  define ds where "ds = filter (\<lambda>o'. o' \<notin> set keep) ?names"
  have row: "rows_of s Clocks k = Some v \<longleftrightarrow> (k, v) \<in> set (rk_db s Clocks)" for k v
    using kv [of Clocks] by (simp add: get_cf_def kv_mem_iff)
  have nk: "string_of (drop 1 (name_key o')) = o'" for o' by (simp add: name_key_def)
  have ds: "set ds = reaped s keep"
  proof (intro equalityI subsetI)
    fix o' assume "o' \<in> set ds"
    then obtain k v where k: "(k, v) \<in> set (rk_db s Clocks)" "o' = string_of (drop 1 k)" "o' \<notin> set keep"
      by (auto simp: ds_def)
    then obtain a where "ok_name a" "k = name_key a" using ok row unfolding clocks_ok_def by blast
    with k row nk show "o' \<in> reaped s keep" by (auto simp: reaped_def)
  next
    fix o' assume "o' \<in> reaped s keep"
    then obtain v where "(name_key o', v) \<in> set (rk_db s Clocks)" "o' \<notin> set keep"
      using row by (auto simp: reaped_def)
    moreover from imageI [OF this(1), of "\<lambda>(k, _). string_of (drop 1 k)"] have "o' \<in> set ?names"
      unfolding set_map by (simp only: case_prod_conv nk)
    ultimately show "o' \<in> set ds" by (simp add: ds_def)
  qed
  have "map_res (\<lambda>origin. bindr (okey origin) (\<lambda>prefix.
             Inr (concat (map (\<lambda>(k, _). [DelCf Hold k, DelCf Holdby (last_n 32 k @ bytes_of origin)])
                    (scan (rk_db s) Hold prefix))
                @ map (\<lambda>(k, _). DelCf Journal k) (scan (rk_db s) Journal prefix)
                @ [DelCf Clocks prefix]))) ds = Inr (map (reap_batch s) ds)"
  proof (rule map_res_Inr)
    fix o' assume "o' \<in> set ds"
    then have "ok_name o'" using ds by (simp add: reaped_def)
    then show "bindr (okey o') (\<lambda>prefix.
             Inr (concat (map (\<lambda>(k, _). [DelCf Hold k, DelCf Holdby (last_n 32 k @ bytes_of o')])
                    (scan (rk_db s) Hold prefix))
                @ map (\<lambda>(k, _). DelCf Journal k) (scan (rk_db s) Journal prefix)
                @ [DelCf Clocks prefix])) = Inr (reap_batch s o')" by (simp add: reap_batch_def)
  qed
  then have "rocks_retain_origins s keep = Inr (commit_with_delta (concat (map (reap_batch s) ds) @
       map (\<lambda>(k, _). DelCf Wm k) (filter (\<lambda>(k, _). stale_mark keep k) (rk_db s Wm))) [] s)"
    by (simp add: rocks_retain_origins_def scan_all kv ds_def commit_no_delta stale_mark_def Let_def)
  with ds show ?thesis by blast
qed

text \<open>Which keys the batch deletes, per family.\<close>

lemma reap_keys:
  assumes s: "rocks_inv C s" and B: "B = concat (map (reap_batch s) ds) @
       map (\<lambda>(k, _). DelCf Wm k) (filter (\<lambda>(k, _). stale_mark keep k) (rk_db s Wm))"
  shows "del_only B" and "fam {Hold, Holdby, Journal, Clocks, Wm} B"
    and "DelCf Hold k \<in> set B \<longleftrightarrow> (\<exists>d\<in>set ds. rows_of s Hold k \<noteq> None \<and> starts_with (name_key d) k)"
    and "DelCf Holdby k \<in> set B \<longleftrightarrow> (\<exists>d\<in>set ds. \<exists>k'. rows_of s Hold k' \<noteq> None \<and> starts_with (name_key d) k' \<and> k = last_n 32 k' @ bytes_of d)"
    and "DelCf Journal k \<in> set B \<longleftrightarrow> (\<exists>d\<in>set ds. rows_of s Journal k \<noteq> None \<and> starts_with (name_key d) k)"
    and "DelCf Clocks k \<in> set B \<longleftrightarrow> (\<exists>d\<in>set ds. k = name_key d)"
    and "DelCf Wm k \<in> set B \<longleftrightarrow> rows_of s Wm k \<noteq> None \<and> stale_mark keep k"
proof -
  have kv: "kv_inv (rk_db s c)" for c using s by (simp add: rocks_inv_def)
  show "del_only B" by (auto simp: B del_only_def reap_batch_def)
  show "fam {Hold, Holdby, Journal, Clocks, Wm} B" by (auto simp: B fam_def reap_batch_def)
  have keys: "(\<exists>v. (k, v) \<in> set (scan (rk_db s) c p)) \<longleftrightarrow> rows_of s c k \<noteq> None \<and> starts_with p k" for k c p
    by (simp add: scan_set kv)
  have hold: "DelCf Hold k \<in> set (reap_batch s d) \<longleftrightarrow> (\<exists>v. (k, v) \<in> set (scan (rk_db s) Hold (name_key d)))" for k d
    by (auto simp: reap_batch_def split_def intro: rev_bexI)
  have holdby: "DelCf Holdby k \<in> set (reap_batch s d) \<longleftrightarrow>
      (\<exists>k' v. (k', v) \<in> set (scan (rk_db s) Hold (name_key d)) \<and> k = last_n 32 k' @ bytes_of d)" for k d
    by (auto simp: reap_batch_def split_def intro: rev_bexI)
  have journal: "DelCf Journal k \<in> set (reap_batch s d) \<longleftrightarrow> (\<exists>v. (k, v) \<in> set (scan (rk_db s) Journal (name_key d)))" for k d
    by (auto simp: reap_batch_def split_def intro: rev_image_eqI)
  have B': "DelCf c k \<in> set B \<longleftrightarrow> (\<exists>d\<in>set ds. DelCf c k \<in> set (reap_batch s d))" if "c \<noteq> Wm" for c k
    using that by (auto simp: B)
  show "DelCf Hold k \<in> set B \<longleftrightarrow> (\<exists>d\<in>set ds. rows_of s Hold k \<noteq> None \<and> starts_with (name_key d) k)"
    by (simp only: B' hold keys cf.simps simp_thms)
  show "DelCf Holdby k \<in> set B \<longleftrightarrow> (\<exists>d\<in>set ds. \<exists>k'. rows_of s Hold k' \<noteq> None \<and> starts_with (name_key d) k' \<and> k = last_n 32 k' @ bytes_of d)"
    using keys [of _ Hold] by (simp only: B' holdby cf.simps simp_thms) blast
  show "DelCf Journal k \<in> set B \<longleftrightarrow> (\<exists>d\<in>set ds. rows_of s Journal k \<noteq> None \<and> starts_with (name_key d) k)"
    by (simp only: B' journal keys cf.simps simp_thms)
  show "DelCf Clocks k \<in> set B \<longleftrightarrow> (\<exists>d\<in>set ds. k = name_key d)"
    by (auto simp: B reap_batch_def)
  have "(\<exists>v. (k, v) \<in> set (rk_db s Wm)) \<longleftrightarrow> rows_of s Wm k \<noteq> None"
    using kv [of Wm] by (simp add: get_cf_def kv_mem_iff)
  then show "DelCf Wm k \<in> set B \<longleftrightarrow> rows_of s Wm k \<noteq> None \<and> stale_mark keep k"
    by (auto simp: B reap_batch_def split_def image_iff intro: rev_bexI)
qed

lemma rocks_retain_done:
  assumes s: "rocks_inv C s"
  shows "\<exists>s'. rocks_retain_origins s keep = Inr s' \<and> rocks_inv C s' \<and>
        rk_clock s' = (\<lambda>o'. if o' \<in> set keep then rk_clock s o' else clock_default) \<and>
        rk_journal s' = (\<lambda>o'. if o' \<in> set keep then rk_journal s o' else Map.empty) \<and>
        rk_held s' = (\<lambda>o'. if o' \<in> set keep then rk_held s o' else {}) \<and>
        rk_mark s' = (\<lambda>p o'. if p \<in> set keep \<and> o' \<in> set keep then rk_mark s p o' else 0) \<and>
        rk_fact C s' = rk_fact C s \<and> rk_meta s' = rk_meta s"
proof -
  obtain ds where ds: "set ds = reaped s keep" and run: "rocks_retain_origins s keep = Inr (commit_with_delta
      (concat (map (reap_batch s) ds) @ map (\<lambda>(k, _). DelCf Wm k) (filter (\<lambda>(k, _). stale_mark keep k) (rk_db s Wm))) [] s)"
    using retain_run [OF s] by blast
  define B where "B = concat (map (reap_batch s) ds) @
       map (\<lambda>(k, _). DelCf Wm k) (filter (\<lambda>(k, _). stale_mark keep k) (rk_db s Wm))"
  let ?s = "commit_with_delta B [] s"
  note K = reap_keys [OF s B_def]
  have rows: "rows_of ?s c = (\<lambda>k. if DelCf c k \<in> set B then None else rows_of s c k)" for c
    by (simp add: batch_map_del_only [OF K(1)])
  have meta: "rows_of ?s Meta = rows_of s Meta" by (simp add: fam_other [OF K(2)])
  have facts: "facts_inv ?s" "rk_fact C ?s = rk_fact C s"
    using s fam_mono [OF K(2)] by (intro facts_inv_other; simp add: rocks_inv_iff)+
  have oks: "clocks_ok (rows_of s Clocks)" "journal_ok (rows_of s Journal)" "holds_ok (rows_of s Hold) (rows_of s Holdby)"
    "owned_ok (rows_of s Clocks) (rows_of s Journal) (rows_of s Hold)" "marks_ok (rows_of s Wm)"
    using s by (simp_all add: rocks_inv_def)
  have dok: "ok_name d" if "d \<in> set ds" for d using that ds by (simp add: reaped_def)
  have clock_key: "rows_of ?s Clocks (name_key o') = (if o' \<in> set ds then None else rows_of s Clocks (name_key o'))"
    if "ok_name o'" for o' unfolding rows K(6) using that dok by auto
  have journal_key: "rows_of ?s Journal (name_key o' @ x) = (if o' \<in> set ds then None else rows_of s Journal (name_key o' @ x))"
    if "ok_name o'" for o' x unfolding rows K(5) using that dok starts_name_key by auto
  have hold_key: "rows_of ?s Hold (name_key o' @ x) = (if o' \<in> set ds then None else rows_of s Hold (name_key o' @ x))"
    if "ok_name o'" for o' x unfolding rows K(3) using that dok starts_name_key by auto
  have holdby_key: "rows_of ?s Holdby (h @ bytes_of o') = (if o' \<in> set ds then None else rows_of s Holdby (h @ bytes_of o'))"
    if o: "ok_name o'" and h: "length h = 32" for o' h
  proof -
    have "DelCf Holdby (h @ bytes_of o') \<in> set B \<longleftrightarrow> o' \<in> set ds \<and> rows_of s Hold (name_key o' @ h) \<noteq> None"
    proof
      assume "DelCf Holdby (h @ bytes_of o') \<in> set B"
      then obtain d k where d: "d \<in> set ds" "rows_of s Hold k \<noteq> None" "starts_with (name_key d) k"
        "h @ bytes_of o' = last_n 32 k @ bytes_of d" unfolding K(4) by blast
      obtain a g where a: "ok_name a" "length g = 32" "k = name_key a @ g"
        using oks(3) d(2) unfolding holds_ok_def by blast
      have "a = d" using starts_name_key [OF dok [OF d(1)] a(1)] d(3) a(3) by simp
      with d a h show "o' \<in> set ds \<and> rows_of s Hold (name_key o' @ h) \<noteq> None" by auto
    next
      assume d: "o' \<in> set ds \<and> rows_of s Hold (name_key o' @ h) \<noteq> None"
      then show "DelCf Holdby (h @ bytes_of o') \<in> set B" unfolding K(4)
        using h by (intro bexI [of _ o'] exI [of _ "name_key o' @ h"]) auto
    qed
    moreover have "rows_of s Hold (name_key o' @ h) \<noteq> None \<longleftrightarrow> rows_of s Holdby (h @ bytes_of o') \<noteq> None"
      using oks(3) o h unfolding holds_ok_def by blast
    ultimately show ?thesis unfolding rows by auto
  qed
  have mark_key: "rows_of ?s Wm (name_key p @ bytes_of o') =
      (if p \<in> set keep \<and> o' \<in> set keep then rows_of s Wm (name_key p @ bytes_of o') else None)" if "ok_name p" for p o'
    unfolding rows K(7) using mark_row [OF that, of o'] by (auto simp: stale_mark_def Let_def)
  have gone: "rows_of s Clocks (name_key o') = None" if "ok_name o'" "o' \<notin> set keep" "o' \<notin> set ds" for o'
    using that ds by (simp add: reaped_def)
  have kept: "o' \<notin> set ds" if "o' \<in> set keep" for o' using that ds by (simp add: reaped_def)
  have clock: "rk_clock ?s = (\<lambda>o'. if o' \<in> set keep then rk_clock s o' else clock_default)"
    using gone kept by (auto simp: rk_clock_def clock_view_def clock_key fun_eq_iff simp del: rows_commit)
  have jv: "rk_journal ?s o' = (if ok_name o' \<and> o' \<in> set ds then Map.empty else rk_journal s o')" for o'
    by (auto simp: rk_journal_def journal_view_def journal_key fun_eq_iff simp del: rows_commit)
  have hv: "rk_held ?s o' = (if ok_name o' \<and> o' \<in> set ds then {} else rk_held s o')" for o'
    by (auto simp: rk_held_def held_view_def hold_key simp del: rows_commit)
  have own: "rk_journal s o' = Map.empty \<and> rk_held s o' = {}" if "o' \<notin> set keep" "o' \<notin> set ds" for o'
  proof (cases "ok_name o'")
    case True
    then show ?thesis using oks(4) gone [OF True that] by (simp add: owned_ok_def rk_journal_def rk_held_def)
  qed (auto simp: rk_journal_def journal_view_def rk_held_def held_view_def fun_eq_iff)
  have journal: "rk_journal ?s = (\<lambda>o'. if o' \<in> set keep then rk_journal s o' else Map.empty)"
    by (rule ext, unfold jv) (use own kept dok in auto)
  have held: "rk_held ?s = (\<lambda>o'. if o' \<in> set keep then rk_held s o' else {})"
    by (rule ext, unfold hv) (use own kept dok in auto)
  have marks: "rk_mark ?s = (\<lambda>p o'. if p \<in> set keep \<and> o' \<in> set keep then rk_mark s p o' else 0)"
    by (auto simp: rk_mark_def mark_view_def mark_key fun_eq_iff simp del: rows_commit)
  have "clocks_ok (rows_of ?s Clocks)" "journal_ok (rows_of ?s Journal)" "marks_ok (rows_of ?s Wm)"
    using oks unfolding rows by (auto simp: clocks_ok_def journal_ok_def marks_ok_def)
  moreover have "holds_ok (rows_of ?s Hold) (rows_of ?s Holdby)"
    unfolding holds_ok_def
  proof (intro conjI allI impI)
    show "\<exists>o' h. ok_name o' \<and> length h = 32 \<and> k = name_key o' @ h" if "rows_of ?s Hold k \<noteq> None" for k
      using that oks(3) unfolding rows holds_ok_def by (auto split: if_splits)
    show "\<exists>o' h. ok_name o' \<and> length h = 32 \<and> k = h @ bytes_of o'" if "rows_of ?s Holdby k \<noteq> None" for k
      using that oks(3) unfolding rows holds_ok_def by (auto split: if_splits)
    show "rows_of ?s Hold (name_key o' @ h) \<noteq> None \<longleftrightarrow> rows_of ?s Holdby (h @ bytes_of o') \<noteq> None"
      if "ok_name o'" "length h = 32" for o' h
      unfolding hold_key [OF that(1)] holdby_key [OF that] using oks(3) that by (simp add: holds_ok_def)
  qed
  moreover have "owned_ok (rows_of ?s Clocks) (rows_of ?s Journal) (rows_of ?s Hold)"
    unfolding owned_ok_def
  proof (intro allI impI)
    fix o' assume o: "ok_name o'" and none: "rows_of ?s Clocks (name_key o') = None"
    show "journal_view (rows_of ?s Journal) o' = Map.empty \<and> held_view (rows_of ?s Hold) o' = {}"
    proof (cases "o' \<in> set ds")
      case True
      then show ?thesis using jv [of o'] hv [of o'] o by (simp add: rk_journal_def rk_held_def del: rows_commit)
    next
      case False
      then have "rows_of s Clocks (name_key o') = None" using none clock_key [OF o] by (simp del: rows_commit)
      then show ?thesis using False jv [of o'] hv [of o'] oks(4) o
        by (simp add: rk_journal_def rk_held_def owned_ok_def del: rows_commit)
    qed
  qed
  ultimately have "rocks_inv C ?s" using s facts(1) by (simp only: rocks_inv_iff meta simp_thms)
  moreover have "rk_meta ?s = rk_meta s" unfolding rk_meta_def meta by simp
  ultimately show ?thesis using run clock journal held marks facts(2)
    unfolding B_def [symmetric] by (intro exI [of _ ?s]) (simp only: simp_thms)
qed

section \<open>Pages and roots\<close>

lemma att_row:
  assumes s: "rocks_inv C s" and k: "rows_of s Att k = Some v"
  shows "\<exists>a pk h. k = att_key h pk \<and> length h = 16 \<and> v = enc_att C a \<and> path_key_of a = pk \<and> h = attestation_hash C a \<and>
     rk_fact C s pk = Some a"
proof -
  have ok: "facts_ok C (rows_of s AttPath) (rows_of s Att) (rows_of s AttNar)" using s by (simp add: rocks_inv_def)
  obtain pk h where p: "length h = 16" "k = att_key h pk" "rows_of s AttPath pk = Some h"
    using ok k unfolding facts_ok_def by blast
  obtain a where a: "path_key_of a = pk" "h = attestation_hash C a" "rows_of s Att (att_key h pk) = Some (enc_att C a)"
    "fact_view C (rows_of s AttPath) (rows_of s Att) pk = Some a"
    using fact_view_row [OF ok p(3)] .
  then show ?thesis using k p by (auto simp: rk_fact_def)
qed

lemma page_loop_facts:
  assumes "\<And>k v. (k, v) \<in> set rows \<Longrightarrow> \<exists>a. v = enc_att C a \<and> P a" and "\<forall>a\<in>set page. P a"
  shows "\<exists>p n. page_loop C cursor cap page used l rows = Inr (p, n) \<and> (\<forall>a\<in>set p. P a)"
  using assms
proof (induction rows arbitrary: page used l)
  case (Cons r rows)
  obtain k v where r: "r = (k, v)" by fastforce
  obtain a where a: "v = enc_att C a" "P a" using Cons.prems(1) [of k v] r by auto
  have d: "att_decode C v = Inr a" by (simp add: a att_decode_def)
  have IH: "\<exists>p n. page_loop C cursor cap page' used' l' rows = Inr (p, n) \<and> (\<forall>a\<in>set p. P a)"
    if "\<forall>a\<in>set page'. P a" for page' used' l'
    using Cons.prems(1) that by (intro Cons.IH) auto
  show ?case
    using IH [of page used l] IH [of "page @ [a]" "used + length (enc_att C a)" k] Cons.prems(2) a(2)
    by (auto simp: r d Let_def)
qed simp

lemma rocks_page_read:
  assumes s: "rocks_inv C s"
  shows "\<exists>page next. rocks_attestation_page C s prefix cursor cap = Inr (page, next) \<and>
      (\<forall>a\<in>set page. rk_fact C s (path_key_of a) = Some a)"
proof -
  have kv: "kv_inv (rk_db s Att)" using s by (simp add: rocks_inv_def)
  have "\<exists>a. v = enc_att C a \<and> rk_fact C s (path_key_of a) = Some a" if "(k, v) \<in> set (kv_scan from prefix (rk_db s Att))" for k v "from"
  proof -
    have "(k, v) \<in> set (rk_db s Att)"
      using that unfolding kv_scan_def kv_from_def by (meson set_dropWhileD set_takeWhileD)
    then have "rows_of s Att k = Some v" using kv by (simp add: get_cf_def kv_mem_iff)
    then show ?thesis using att_row [OF s] by blast
  qed
  then show ?thesis unfolding rocks_attestation_page_def Let_def by (intro page_loop_facts) auto
qed

lemma rocks_root_read:
  assumes s: "rocks_inv C s"
  shows "\<exists>r. rocks_merkle_root s = Inr r \<and> length r = 16"
proof -
  have f: "facts_inv s" using s by (simp add: rocks_inv_iff)
  have "length (xor_all (map snd (rk_db s AttPath))) = 16"
    by (rule length_xor_all) (rule path_hashes_16 [OF f])
  then show ?thesis using s by (simp add: rocks_merkle_root_def rocks_inv_def agg_of_def)
qed

section \<open>The contract holds\<close>

lemma finite_rk_held: "finite (rk_held s o')"
proof -
  have "finite ((\<lambda>h. name_key o' @ h) ` rk_held s o')"
    by (rule finite_subset [of _ "dom (rows_of s Hold)"])
      (auto simp: rk_held_def held_view_def get_cf_def [abs_def] finite_dom_map_of)
  then show ?thesis by (rule finite_imageD) (simp add: inj_on_def)
qed

lemma rocks_sel:
  "so_clock (rocks_ops C) = rocks_clock" "so_apply_events (rocks_ops C) = rocks_apply_events C"
  "so_replace_holdings (rocks_ops C) = rocks_replace_holdings"
  "so_merge_attestations (rocks_ops C) = rocks_merge_attestations C"
  "so_journal_suffix (rocks_ops C) = rocks_journal_suffix" "so_holdings (rocks_ops C) = rocks_holdings"
  "so_is_held (rocks_ops C) = rocks_is_held" "so_compact_journal (rocks_ops C) = rocks_compact_journal"
  "so_advance_watermark (rocks_ops C) = rocks_advance_watermark" "so_watermarks (rocks_ops C) = rocks_watermarks"
  "so_retain_origins (rocks_ops C) = rocks_retain_origins"
  "so_set_generation (rocks_ops C) = rocks_set_generation" "so_meta_get (rocks_ops C) = rocks_meta_get"
  "so_meta_put (rocks_ops C) = rocks_meta_put" "so_attestation_sigs (rocks_ops C) = rocks_attestation_sigs C"
  "so_lookup_hash_part (rocks_ops C) = rocks_lookup_hash_part C" "so_claims (rocks_ops C) = rocks_claims C"
  "so_attestation_page (rocks_ops C) = rocks_attestation_page C" "so_merkle_root (rocks_ops C) = rocks_merkle_root"
  by (simp_all add: rocks_ops_def)

lemma rocks_is_store:
  "sync_store (rocks_ops C) C (rocks_inv C) rk_clock rk_journal rk_held (rk_fact C) rk_mark rk_meta"
proof (unfold_locales, unfold rocks_sel, goal_cases)
  case (1 s o') then show ?case by (simp add: rk_clock_def rocks_inv_def clock_view_u64)
next
  case 2 show ?case by (rule finite_rk_journal)
next
  case 3 then show ?case by (simp add: rk_held_def held_view_def)
next
  case 4 show ?case by (rule finite_rk_held)
next
  case 5 then show ?case by (rule rocks_fact_row)
next
  case 6 then show ?case by (rule rocks_clock_read)
next
  case 7 then show ?case by (rule rocks_apply_refused)
next
  case 8 then show ?case by (rule rocks_apply_done)
next
  case 9 then show ?case by (rule rocks_replace_stale)
next
  case 10 then show ?case by (rule rocks_replace_done)
next
  case 11 then show ?case by (rule rocks_merge_done)
next
  case 12 then show ?case by (rule rocks_suffix_read)
next
  case 13 then show ?case by (rule rocks_holdings_read)
next
  case 14 then show ?case by (rule rocks_is_held_read)
next
  case 15 then show ?case by (rule rocks_compact_done)
next
  case 16 then show ?case by (rule rocks_advance_done)
next
  case 17 then show ?case by (rule rocks_watermarks_read)
next
  case 18 then show ?case by (rule rocks_set_generation_done)
next
  case 19 then show ?case by (rule rocks_retain_done)
next
  case 20 show ?case by (rule rocks_meta_read)
next
  case 21 then show ?case by (rule rocks_meta_done)
next
  case 22 then show ?case by (rule rocks_sigs_read)
next
  case 23 then show ?case by (rule rocks_lookup_read)
next
  case 24 then show ?case by (rule rocks_claims_read)
next
  case 25 then show ?case by (rule rocks_page_read)
next
  case 26 then show ?case by (rule rocks_root_read)
qed

end

interpretation rocks: sync_store "rocks_ops plain_codec" plain_codec "rocks_inv plain_codec"
    rk_clock rk_journal rk_held "rk_fact plain_codec" rk_mark rk_meta
  by (rule plain.rocks_is_store)

end
