(* ===== verification/Answers.thy ===== *)
theory Answers
  imports Replica Rocks_Store
begin

text \<open>
  What a node answers is taken from the histories: every update of the classic pull, every
  reply to a range ask, every fact of a page. The locale \<open>mesh_store\<close> adds to the
  storage contract that the codec decodes what it encoded; it is interpreted on the
  embedded backend.
\<close>

section \<open>Reading a journal\<close>

lemma journal_from_copy:
  assumes "copy_of C H c J held" and "tail_seq c \<le> after"
  shows "journal_from J (after + 1) = map (\<lambda>n. (n, enc_event C (hist_event H n))) [Suc after..<Suc (seq c)]"
proof -
  have "{n \<in> dom J. after + 1 \<le> n} = set [Suc after..<Suc (seq c)]"
    using assms by (auto simp: copy_of_def dom_def split: if_splits)
  moreover have "sorted_list_of_set (set [Suc after..<Suc (seq c)]) = [Suc after..<Suc (seq c)]"
    by (rule sorted_list_of_set.idem_if_sorted_distinct) (simp_all del: upt_Suc)
  ultimately have "journal_from J (after + 1) = map (\<lambda>n. (n, the (J n))) [Suc after..<Suc (seq c)]"
    by (simp only: journal_from_def)
  also have "\<dots> = map (\<lambda>n. (n, enc_event C (hist_event H n))) [Suc after..<Suc (seq c)]"
    using assms by (intro map_cong refl) (auto simp: copy_of_def)
  finally show ?thesis .
qed

lemma true_hist_events: "b \<le> length H \<Longrightarrow> true_events H (map (hist_event H) (take k [Suc a..<Suc b]))"
  by (auto simp: true_events_def dest!: in_set_takeD)

text \<open>
  What an update means to a requester at clock \<open>(tg, tq)\<close>: it is up to date, or gets a
  contiguous run right above its clock, complete unless flagged, or a snapshot.
\<close>

definition their_clock :: "sync_request \<Rightarrow> string \<Rightarrow> nat \<times> nat" where
  "their_clock req name = (case map_of (rev (map (\<lambda>c. (oc_origin c, c)) (sr_have req))) name of
     Some c \<Rightarrow> (oc_generation c, oc_seq c) | None \<Rightarrow> (0, 0))"

fun serves :: "nat \<times> nat \<Rightarrow> clock \<Rightarrow> bool \<Rightarrow> origin_update \<Rightarrow> bool" where
  "serves (tg, tq) c skip u \<longleftrightarrow>
     (case ou_body u of
        None \<Rightarrow> skip
      | Some (UpToDate _) \<Rightarrow> tg = generation c \<and> seq c \<le> tq
      | Some (Suffix es) \<Rightarrow> (es = [] \<and> ou_truncated u) \<or>
          (tg = generation c \<and> (\<exists>k. 0 < k \<and> tq + k \<le> seq c \<and> map ev_seq es = [Suc tq..<Suc (tq + k)] \<and>
             (ou_truncated u \<longleftrightarrow> tq + k < seq c)))
      | Some (Snapshot _) \<Rightarrow> \<not> ou_truncated u)"

locale mesh_store = sync_store ops C inv vclock vjournal vheld vfact vmark vmeta + wire_codec C
  for ops :: "'s store_ops" and C inv vclock vjournal vheld vfact vmark vmeta
begin

lemma decode_hist: "decode_events C (map (\<lambda>n. enc_event C (hist_event H n)) ns) = Inr (map (hist_event H) ns)"
proof -
  have "map_res (\<lambda>blob. ok_or CorruptEvent (dec_event C blob)) (map (\<lambda>n. enc_event C (hist_event H n)) ns)
     = Inr (map (\<lambda>b. the (dec_event C b)) (map (\<lambda>n. enc_event C (hist_event H n)) ns))"
    by (rule map_res_Inr) auto
  then show ?thesis by (simp add: decode_events_def comp_def)
qed

text \<open>The suffix a store at clock \<open>c\<close> reads above \<open>after\<close>: a nonempty contiguous run of the history.\<close>

lemma suffix_hist:
  assumes s: "copies_ok T s" and ok: "ok_name o'" and H: "copy_of C H (vclock s o') (vjournal s o') (vheld s o')"
    and a: "tail_seq (vclock s o') \<le> after" "after < seq (vclock s o')"
  shows "\<exists>k. 0 < k \<and> k \<le> seq (vclock s o') - after \<and>
     so_journal_suffix ops s o' after cap =
       Inr (map (\<lambda>n. enc_event C (hist_event H n)) (take k [Suc after..<Suc (seq (vclock s o'))]),
            k < seq (vclock s o') - after)"
proof -
  have inv: "inv s" using s by (simp add: copies_ok_def)
  have c64: "seq (vclock s o') < 2 ^ 64" using clock_u64 [OF inv] by (simp add: u64_clock_def)
  then have 1: "sat_add64 after 1 = after + 1" using a(2) by (simp add: sat_add64_small)
  have a64: "after < 2 ^ 64" using a(2) c64 by simp
  let ?J = "journal_from (vjournal s o') (after + 1)"
  have J: "?J = map (\<lambda>n. (n, enc_event C (hist_event H n))) [Suc after..<Suc (seq (vclock s o'))]"
    by (rule journal_from_copy [OF H a(1)])
  obtain k where k: "so_journal_suffix ops s o' after cap = Inr (map snd (take k ?J), k < length ?J)"
    "?J \<noteq> [] \<longrightarrow> 0 < k" "k \<le> length ?J"
    using suffix_read [OF inv ok a64, of cap] unfolding 1 by blast
  have len: "length ?J = seq (vclock s o') - after" unfolding J by (simp del: upt_Suc)
  have "map snd (take k ?J) = map (\<lambda>n. enc_event C (hist_event H n)) (take k [Suc after..<Suc (seq (vclock s o'))])"
    unfolding J by (simp add: take_map comp_def del: upt_Suc)
  moreover have "0 < k" using k(2) len a(2) by (metis length_0_conv not_gr_zero zero_less_diff)
  ultimately show ?thesis using k(1,3) len by (intro exI [of _ k]) simp
qed

lemma copy_at:
  assumes "copies_ok T s" and "generation (vclock s o') \<noteq> 0"
  shows "\<exists>H. 0 < generation (vclock s o') \<and> T o' (generation (vclock s o')) = Some H \<and>
     copy_of C H (vclock s o') (vjournal s o') (vheld s o')"
proof -
  have "known_copy C T o' (vclock s o') (vjournal s o') (vheld s o')" using assms(1) by (simp add: copies_ok_def)
  then show ?thesis using assms(2) by (auto simp: known_copy_def clock_default_def)
qed

text \<open>One origin of the classic pull.\<close>

definition update_for :: "histories \<Rightarrow> 's \<Rightarrow> string \<Rightarrow> origin_update \<Rightarrow> bool" where
  "update_for T s name u \<longleftrightarrow> true_update T u \<and> ou_origin u = name \<and>
     ou_generation u = generation (vclock s name) \<and> ou_seq u = seq (vclock s name)"

lemma respond_origin_true:
  assumes s: "copies_ok T s" and ok: "ok_name name" and codec: "ix_codec I = C"
  shows "\<exists>us snap' used'. respond_origin ops I s req budget name (origins, snap, used) = Inr (origins @ us, snap', used') \<and>
     (\<forall>u\<in>set us. update_for T s name u \<and> serves (their_clock req name) (vclock s name) (name \<in> set (sr_skip_origins req)) u) \<and>
     (us = [] \<and> (generation (vclock s name) = 0 \<or> fst (their_clock req name) > generation (vclock s name)) \<or> length us = 1)"
proof -
  have inv: "inv s" using s by (simp add: copies_ok_def)
  let ?c = "vclock s name"
  obtain tg tq where t: "their_clock req name = (tg, tq)" by fastforce
  note run = respond_origin.simps [of ops I s req budget name origins snap used,
      unfolded clock_read [OF inv ok] bindr_simps Let_def their_clock_def [symmetric] t prod.case codec]
  consider "generation ?c = 0 \<or> tg > generation ?c"
    | "\<not> (generation ?c = 0 \<or> tg > generation ?c)" "(tg = generation ?c \<and> tq \<ge> seq ?c) \<or> name \<in> set (sr_skip_origins req) \<or> used \<ge> budget"
    | "\<not> (generation ?c = 0 \<or> tg > generation ?c)" "\<not> (tg = generation ?c \<and> tq \<ge> seq ?c)" "name \<notin> set (sr_skip_origins req)"
      "\<not> used \<ge> budget" "tg = generation ?c \<and> tq \<ge> tail_seq ?c"
    | "\<not> (generation ?c = 0 \<or> tg > generation ?c)" "\<not> (tg = generation ?c \<and> tq \<ge> seq ?c)" "name \<notin> set (sr_skip_origins req)"
      "\<not> used \<ge> budget" "\<not> (tg = generation ?c \<and> tq \<ge> tail_seq ?c)"
    by blast
  then show ?thesis
  proof cases
    case 1
    then show ?thesis by (intro exI [of _ "[]"]) (auto simp: run t simp del: respond_origin.simps)
  next
    case 2
    then show ?thesis
      by (auto simp: run t update_for_def true_update_def true_suffix_def simp del: respond_origin.simps)
  next
    case 3
    obtain H where H: "0 < generation ?c" "T name (generation ?c) = Some H" "copy_of C H ?c (vjournal s name) (vheld s name)"
      using copy_at [OF s] 3(1) by blast
    obtain k where k: "0 < k" "k \<le> seq ?c - tq" "so_journal_suffix ops s name tq SUFFIX_BYTES_CAP =
       Inr (map (\<lambda>n. enc_event C (hist_event H n)) (take k [Suc tq..<Suc (seq ?c)]), k < seq ?c - tq)"
      using suffix_hist [OF s ok H(3), of tq] 3 by auto
    have "seq ?c \<le> length H" using H(3) by (simp add: copy_of_def)
    then have "true_events H (map (hist_event H) (take k [Suc tq..<Suc (seq ?c)]))" by (rule true_hist_events)
    moreover have "map ev_seq (map (hist_event H) (take k [Suc tq..<Suc (seq ?c)])) = [Suc tq..<Suc (tq + k)]"
      using k(2) 3 by (simp add: comp_def take_upt del: upt_Suc)
    ultimately show ?thesis using 3 H k(1,2)
      by (simp add: run t k(3) decode_hist update_for_def true_update_def true_suffix_def less_diff_conv add.commute del: upt_Suc respond_origin.simps)
        (intro exI [of _ k], simp)
  next
    case 4
    obtain H where H: "0 < generation ?c" "T name (generation ?c) = Some H" "copy_of C H ?c (vjournal s name) (vheld s name)"
      using copy_at [OF s] 4(1) by blast
    obtain hs where hs: "so_holdings ops s name = Inr hs" "set hs = vheld s name"
      using holdings_read [OF inv ok] by blast
    have "true_snapshot T name (generation ?c) (seq ?c) hs"
      using H hs by (auto simp: true_snapshot_def copy_of_def)
    then show ?thesis using 4 by (auto simp: run t hs update_for_def true_update_def simp del: respond_origin.simps)
  qed
qed

text \<open>All origins of a pull: one update for each that the responder knows and the requester is not ahead of.\<close>

definition answers :: "histories \<Rightarrow> 's \<Rightarrow> sync_request \<Rightarrow> string list \<Rightarrow> origin_update list \<Rightarrow> bool" where
  "answers T s req names us \<longleftrightarrow> distinct (map ou_origin us) \<and>
     (\<forall>u\<in>set us. ou_origin u \<in> set names \<and> update_for T s (ou_origin u) u \<and>
        serves (their_clock req (ou_origin u)) (vclock s (ou_origin u)) (ou_origin u \<in> set (sr_skip_origins req)) u) \<and>
     (\<forall>n\<in>set names. n \<in> ou_origin ` set us \<or> generation (vclock s n) = 0 \<or> fst (their_clock req n) > generation (vclock s n))"

lemma respond_origins_true:
  assumes s: "copies_ok T s" and ok: "\<And>n. n \<in> set names \<Longrightarrow> ok_name n" and codec: "ix_codec I = C" and d: "distinct names"
  shows "\<exists>us snap' used'. for_each (respond_origin ops I s req budget) names (origins, snap, used) = Inr (origins @ us, snap', used') \<and>
     answers T s req names us"
  using ok d
proof (induction names arbitrary: origins snap used)
  case (Cons n names)
  obtain us snap' used' where u: "respond_origin ops I s req budget n (origins, snap, used) = Inr (origins @ us, snap', used')"
    "\<forall>u\<in>set us. update_for T s n u \<and> serves (their_clock req n) (vclock s n) (n \<in> set (sr_skip_origins req)) u"
    "us = [] \<and> (generation (vclock s n) = 0 \<or> fst (their_clock req n) > generation (vclock s n)) \<or> length us = 1"
    using respond_origin_true [OF s, of n I req budget origins snap used] Cons.prems(1) codec by auto
  have "\<exists>us' snap'' used''. for_each (respond_origin ops I s req budget) names (origins @ us, snap', used') = Inr ((origins @ us) @ us', snap'', used'') \<and>
     answers T s req names us'"
    by (rule Cons.IH) (use Cons.prems in auto)
  then obtain us' snap'' used'' where u': "for_each (respond_origin ops I s req budget) names (origins @ us, snap', used') = Inr ((origins @ us) @ us', snap'', used'')"
     "answers T s req names us'" by blast
  have o: "\<forall>u\<in>set us. ou_origin u = n" using u(2) by (simp add: update_for_def)
  have "distinct (map ou_origin (us @ us'))"
    using u(3) o u'(2) Cons.prems(2) by (auto simp: answers_def length_Suc_conv)
  moreover have "n \<in> ou_origin ` set us \<or> generation (vclock s n) = 0 \<or> fst (their_clock req n) > generation (vclock s n)"
    using u(3) o by (auto simp: length_Suc_conv)
  ultimately have "answers T s req (n # names) (us @ us')"
    using u(2) o u'(2) unfolding answers_def by auto
  then show ?case using u(1) u'(1) by (intro exI [of _ "us @ us'"] exI) (simp del: respond_origin.simps)
qed (simp add: answers_def)

lemma range_events_hist:
  "range_events C until (map (\<lambda>n. enc_event C (hist_event H n)) ns) = Inr (map (hist_event H) (takeWhile (\<lambda>n. n \<le> until) ns))"
  by (induction ns) auto

text \<open>
  A range reply is reachable exactly when the generation matches and the tail is at or
  below the ask; its events are then a nonempty contiguous run above \<open>after\<close>, at most \<open>until\<close>.
\<close>

lemma takeWhile_run:
  assumes "after < hi" and "0 < k" "after + k \<le> m" "hi = min until m"
  shows "takeWhile (\<lambda>n. n \<le> until) [Suc after..<Suc (after + k)] = take (min k (hi - after)) [Suc after..<Suc hi]"
proof -
  let ?k = "min k (hi - after)"
  have "take ?k [Suc after..<Suc hi] = [Suc after..<Suc (after + ?k)]"
    using assms(1) by (subst take_upt) (auto simp: min_def simp del: upt_Suc)
  moreover have "[Suc after..<Suc (after + k)] = [Suc after..<Suc (after + ?k)] @ [Suc (after + ?k)..<Suc (after + k)]"
    using upt_add_eq_append [of "Suc after" "Suc (after + ?k)" "k - ?k"] by (simp del: upt_Suc)
  moreover have "takeWhile (\<lambda>n. n \<le> until) [Suc (after + ?k)..<Suc (after + k)] = []"
    using assms by (auto simp: min_def takeWhile_eq_Nil_iff hd_upt simp del: upt_Suc split: if_splits)
  moreover have "\<forall>x\<in>set [Suc after..<Suc (after + ?k)]. x \<le> until"
    using assms by (auto simp: min_def split: if_splits)
  ultimately show ?thesis by (simp add: takeWhile_append del: upt_Suc)
qed

lemma respond_range_hist:
  assumes s: "copies_ok T s" and ok: "ok_name (ra_origin ask)" and codec: "ix_codec I = C"
    and known: "is_known_origin I (ra_origin ask)"
    and reach: "generation (vclock s (ra_origin ask)) = ra_generation ask" "tail_seq (vclock s (ra_origin ask)) \<le> ra_after ask"
      "ra_after ask < ra_until ask" "ra_after ask < seq (vclock s (ra_origin ask))"
  defines "hi \<equiv> min (ra_until ask) (seq (vclock s (ra_origin ask)))"
  shows "\<exists>H k. T (ra_origin ask) (ra_generation ask) = Some H \<and> 0 < ra_generation ask \<and> hi \<le> length H \<and>
     0 < k \<and> k \<le> hi - ra_after ask \<and>
     respond_range ops I s ask = Inr [\<lparr>rr_origin = ra_origin ask, rr_generation = ra_generation ask, rr_after = ra_after ask,
       rr_events = map (hist_event H) (take k [Suc (ra_after ask)..<Suc hi]), rr_reachable = True\<rparr>]"
proof -
  have inv: "inv s" using s by (simp add: copies_ok_def)
  let ?c = "vclock s (ra_origin ask)"
  have "?c \<noteq> clock_default" using reach(2-4) by (auto simp: clock_default_def)
  then obtain H where H: "T (ra_origin ask) (ra_generation ask) = Some H" "0 < ra_generation ask"
    "copy_of C H ?c (vjournal s (ra_origin ask)) (vheld s (ra_origin ask))"
    using s reach(1) unfolding copies_ok_def known_copy_def by metis
  obtain k where k: "0 < k" "k \<le> seq ?c - ra_after ask"
    "so_journal_suffix ops s (ra_origin ask) (ra_after ask) RANGE_BYTES_CAP =
       Inr (map (\<lambda>n. enc_event C (hist_event H n)) (take k [Suc (ra_after ask)..<Suc (seq ?c)]), k < seq ?c - ra_after ask)"
    using suffix_hist [OF s ok H(3) reach(2,4)] by blast
  have tk: "take k [Suc (ra_after ask)..<Suc (seq ?c)] = [Suc (ra_after ask)..<Suc (ra_after ask + k)]"
    using k(2) reach(4) by (subst take_upt) (simp_all del: upt_Suc)
  have tw: "takeWhile (\<lambda>n. n \<le> ra_until ask) (take k [Suc (ra_after ask)..<Suc (seq ?c)])
      = take (min k (hi - ra_after ask)) [Suc (ra_after ask)..<Suc hi]"
    unfolding tk by (rule takeWhile_run [of _ _ _ "seq ?c"]) (use k reach in \<open>auto simp: hi_def\<close>)
  have "respond_range ops I s ask = Inr [\<lparr>rr_origin = ra_origin ask, rr_generation = ra_generation ask, rr_after = ra_after ask,
       rr_events = map (hist_event H) (take (min k (hi - ra_after ask)) [Suc (ra_after ask)..<Suc hi]), rr_reachable = True\<rparr>]"
    using known reach codec unfolding respond_range_def clock_read [OF inv ok] bindr_simps Let_def
    by (simp add: k(3) range_events_hist tw del: upt_Suc)
  moreover have "0 < min k (hi - ra_after ask)" using k(1) reach by (auto simp: hi_def)
  moreover have "hi \<le> length H" using H(3) by (auto simp: hi_def copy_of_def)
  ultimately show ?thesis using H(1,2) by (intro exI [of _ H] exI [of _ "min k (hi - ra_after ask)"]) simp
qed

lemma respond_range_true:
  assumes s: "copies_ok T s" and ok: "\<And>n. n \<in> set (origin_names I) \<Longrightarrow> ok_name n" and codec: "ix_codec I = C"
    and u64: "ra_until ask < 2 ^ 64"
  shows "\<exists>rs. respond_range ops I s ask = Inr rs \<and> (\<forall>r\<in>set rs. true_reply T r)"
proof (cases "is_known_origin I (ra_origin ask)")
  case False
  then show ?thesis by (simp add: respond_range_def)
next
  case True
  have inv: "inv s" using s by (simp add: copies_ok_def)
  have okn: "ok_name (ra_origin ask)" using True ok by (auto simp: is_known_origin_def set_origin_names)
  let ?c = "vclock s (ra_origin ask)"
  show ?thesis
  proof (cases "generation ?c = ra_generation ask \<and> ra_after ask \<ge> tail_seq ?c \<and> ra_after ask < ra_until ask")
    case False
    then show ?thesis using True
      by (auto simp: respond_range_def clock_read [OF inv okn] Let_def true_reply_def true_suffix_def)
  next
    case reach: True
    show ?thesis
    proof (cases "ra_after ask < seq ?c")
      case lt: True
      obtain H k where r: "T (ra_origin ask) (ra_generation ask) = Some H" "0 < ra_generation ask"
        "min (ra_until ask) (seq ?c) \<le> length H"
        "respond_range ops I s ask = Inr [\<lparr>rr_origin = ra_origin ask, rr_generation = ra_generation ask, rr_after = ra_after ask,
         rr_events = map (hist_event H) (take k [Suc (ra_after ask)..<Suc (min (ra_until ask) (seq ?c))]), rr_reachable = True\<rparr>]"
        using respond_range_hist [OF s okn codec True] reach lt by blast
      then show ?thesis by (simp add: true_reply_def true_suffix_def true_hist_events del: upt_Suc)
    next
      case False
      have "known_copy C T (ra_origin ask) ?c (vjournal s (ra_origin ask)) (vheld s (ra_origin ask))"
        using s by (simp add: copies_ok_def)
      then have dom: "q \<le> seq ?c" if "q \<in> dom (vjournal s (ra_origin ask))" for q
        using that by (auto simp: known_copy_def copy_of_def split: if_splits)
      have 1: "sat_add64 (ra_after ask) 1 = ra_after ask + 1" "ra_after ask < 2 ^ 64"
        using reach u64 by (simp_all add: sat_add64_small)
      have "{n \<in> dom (vjournal s (ra_origin ask)). ra_after ask + 1 \<le> n} = {}" using dom False by fastforce
      then have "journal_from (vjournal s (ra_origin ask)) (ra_after ask + 1) = []"
        by (simp only: journal_from_def sorted_list_of_set_empty list.map)
      then have "\<exists>t. so_journal_suffix ops s (ra_origin ask) (ra_after ask) RANGE_BYTES_CAP = Inr ([], t)"
        using suffix_read [OF inv okn 1(2), of RANGE_BYTES_CAP] unfolding 1(1) by auto
      then show ?thesis using reach True codec
        by (auto simp: respond_range_def clock_read [OF inv okn] Let_def true_reply_def true_suffix_def)
    qed
  qed
qed

lemma respond_ranges_true:
  assumes s: "copies_ok T s" and ok: "\<And>n. n \<in> set (origin_names I) \<Longrightarrow> ok_name n" and codec: "ix_codec I = C"
    and u64: "\<forall>ask\<in>set asks. ra_until ask < 2 ^ 64"
  shows "\<exists>rs. respond_ranges ops I s asks = Inr rs \<and> (\<forall>r\<in>set rs. true_reply T r)"
proof -
  have "\<exists>rss. map_res (respond_range ops I s) as = Inr rss \<and> (\<forall>rs\<in>set rss. \<forall>r\<in>set rs. true_reply T r)"
    if "set as \<subseteq> set asks" for as
    using that
  proof (induction as)
    case (Cons a as)
    then show ?case using respond_range_true [OF s ok codec, of a] u64 by auto
  qed simp
  from this [of "take RANGE_ASKS_MAX asks"] show ?thesis
    by (fastforce simp: respond_ranges_def dest: in_set_takeD)
qed

text \<open>A pull or a range request is always answered, and answered truthfully.\<close>

definition true_bundle :: "histories \<Rightarrow> 's \<Rightarrow> respond_bundle \<Rightarrow> bool" where
  "true_bundle T s b \<longleftrightarrow> (\<forall>u\<in>set (rb_origins b). true_update T u) \<and> (\<forall>r\<in>set (rb_ranges b). true_reply T r) \<and>
     (\<forall>a\<in>set (rb_attests b). vfact s (path_key_of a) = Some a)"

lemma respond_true:
  assumes s: "copies_ok T s" and ok: "\<And>n. n \<in> set (origin_names I) \<Longrightarrow> ok_name n" and codec: "ix_codec I = C"
    and u64: "\<forall>ask\<in>set (sr_ranges req). ra_until ask < 2 ^ 64" and merkle: "sr_merkle req = []"
  shows "\<exists>b. respond_budgeted ops I s req budget = Inr b \<and> true_bundle T s b \<and>
     (sr_ranges req = [] \<longrightarrow> answers T s req (origin_names I) (rb_origins b))"
proof (cases "sr_ranges req = []")
  case False
  then show ?thesis
    using respond_ranges_true [OF s ok codec u64] by (auto simp: respond_budgeted_def true_bundle_def)
next
  case True
  have inv: "inv s" using s by (simp add: copies_ok_def)
  obtain us snap used where u: "for_each (respond_origin ops I s req budget) (origin_names I) ([], False, 0) = Inr (us, snap, used)"
     "answers T s req (origin_names I) us"
    using respond_origins_true [OF s ok codec distinct_origin_names, of I req budget "[]" False 0] by auto
  obtain page nxt where p: "so_attestation_page ops s [] (sr_atts_cursor req) (max (min ATTS_PAGE_CAP (budget - used)) ATTS_PAGE_FLOOR) = Inr (page, nxt)"
    "\<forall>a\<in>set page. vfact s (path_key_of a) = Some a"
    using page_read [OF inv] by blast
  obtain r where r: "so_merkle_root ops s = Inr r" using root_read [OF inv] by blast
  have "\<forall>u\<in>set us. true_update T u" using u(2) by (auto simp: answers_def update_for_def)
  then show ?thesis using True merkle p(2) u(2)
    by (simp add: respond_budgeted_def u(1) p(1) r true_bundle_def del: respond_origin.simps)
qed

lemma merkle_facts:
  assumes inv: "inv s" and run: "respond_merkle ops s asks cursor = Inr (nodes, facts, nxt)"
  shows "\<forall>a\<in>set facts. vfact s (path_key_of a) = Some a"
proof -
  let ?P = "\<lambda>(n :: merkle_node list, f, x :: bytes option). \<forall>a\<in>set f. vfact s (path_key_of a) = Some a"
  have step: "?P acc'" if "?P acc" "merkle_step ops s cursor ask acc = Inr acc'" for ask acc acc'
  proof -
    obtain n f x where acc: "acc = (n, f, x)" by (cases acc)
    obtain page more where "so_attestation_page ops s (ma_prefix ask) cursor MERKLE_FACTS_CAP = Inr (page, more)"
      "\<forall>a\<in>set page. vfact s (path_key_of a) = Some a"
      using page_read [OF inv] by blast
    then show ?thesis using that by (auto simp: acc bindr_eq_Inr split: if_splits)
  qed
  have "?P (nodes, facts, nxt)"
    by (rule for_each_invariant [where P = ?P, OF _ _ run [unfolded respond_merkle_def]]) (use step in auto)
  then show ?thesis by simp
qed

lemma respond_safe:
  assumes s: "copies_ok T s" and ok: "\<And>n. n \<in> set (origin_names I) \<Longrightarrow> ok_name n" and codec: "ix_codec I = C"
    and u64: "\<forall>ask\<in>set (sr_ranges req). ra_until ask < 2 ^ 64"
    and run: "respond_budgeted ops I s req budget = Inr b"
  shows "true_bundle T s b"
proof (cases "sr_merkle req = [] \<or> sr_ranges req \<noteq> []")
  case True
  then show ?thesis
  proof
    assume "sr_merkle req = []"
    then show ?thesis using respond_true [OF s ok codec u64, of budget] run by auto
  next
    assume "sr_ranges req \<noteq> []"
    then show ?thesis using respond_ranges_true [OF s ok codec u64] run by (auto simp: respond_budgeted_def true_bundle_def)
  qed
next
  case False
  have "inv s" using s by (simp add: copies_ok_def)
  then show ?thesis using False run merkle_facts
    by (auto simp: respond_budgeted_def bindr_eq_Inr true_bundle_def split: prod.splits)
qed

end

interpretation mesh: mesh_store "rocks_ops plain_codec" plain_codec "rocks_inv plain_codec"
    rk_clock rk_journal rk_held "rk_fact plain_codec" rk_mark rk_meta
  by (rule mesh_store.intro [OF plain.rocks_is_store]) unfold_locales

sublocale wire_codec \<subseteq> rocks_mesh: mesh_store "rocks_ops C" C "rocks_inv C" rk_clock rk_journal rk_held "rk_fact C" rk_mark rk_meta
  by (rule mesh_store.intro [OF rocks_is_store]) unfold_locales

end
