(* ===== verification/Net.thy ===== *)
theory Net
  imports Answers
begin

text \<open>
  A mesh of nodes as a transition system. Every step is one committed operation of one node
  on its own store (an export, an applied suffix or snapshot, a merge of facts, a watermark,
  a compaction, a reminted generation, a restart, the loss of the whole store) or an answer
  that enters the network. Answers are never removed: they may be delivered late, repeatedly,
  in any order or never, and an operation that fails leaves the store alone. Crashes are
  restarts between two steps. \<open>minted\<close> records the generations ever used, which come from a
  wall clock with nanosecond resolution; the steps assume that it never repeats one.
\<close>

section \<open>The transition system\<close>

record 's net =
  nodes :: "string \<Rightarrow> 's"
  mail :: "respond_bundle set"
  minted :: "(string \<times> nat) set"

abbreviation put_node :: "string \<Rightarrow> 's \<Rightarrow> 's net \<Rightarrow> 's net" where
  "put_node n s N \<equiv> N\<lparr>nodes := (nodes N)(n := s)\<rparr>"

definition fresh_gen :: "'s net \<Rightarrow> string \<Rightarrow> nat \<Rightarrow> bool" where
  "fresh_gen N n g \<longleftrightarrow> 0 < g \<and> g < 2 ^ 64 \<and> (n, g) \<notin> minted N"

definition u64_asks :: "sync_request \<Rightarrow> bool" where
  "u64_asks req \<longleftrightarrow> (\<forall>ask\<in>set (sr_ranges req). ra_until ask < 2 ^ 64)"

inductive net_step :: "'s store_ops \<Rightarrow> (string \<Rightarrow> index_cfg) \<Rightarrow> string set \<Rightarrow> 's \<Rightarrow> 's net \<Rightarrow> 's net \<Rightarrow> bool"
  for ops cfg M blank where
  export: "n \<in> M \<Longrightarrow> \<forall>x\<in>set holds. length (hold_hash x) = 32 \<Longrightarrow>
    so_clock ops (nodes N n) n = Inr c \<Longrightarrow> seq c + length attests + length holds < 2 ^ 64 \<Longrightarrow>
    export_ops ops (cfg n) attests holds (nodes N n) = Inr (k, s') \<Longrightarrow>
    net_step ops cfg M blank N (put_node n s' N)"
| answer: "n \<in> M \<Longrightarrow> u64_asks req \<Longrightarrow> respond ops (cfg n) (nodes N n) req = Inr b \<Longrightarrow>
    net_step ops cfg M blank N (N\<lparr>mail := insert b (mail N)\<rparr>)"
| suffix: "n \<in> M \<Longrightarrow> b \<in> mail N \<Longrightarrow> u \<in> set (rb_origins b) \<Longrightarrow> ou_body u = Some (Suffix es) \<Longrightarrow>
    apply_suffix ops (cfg n) (ou_origin u) (ou_generation u) es (nodes N n) = Inr (r, s') \<Longrightarrow>
    net_step ops cfg M blank N (put_node n s' N)"
| snapshot: "n \<in> M \<Longrightarrow> b \<in> mail N \<Longrightarrow> u \<in> set (rb_origins b) \<Longrightarrow> ou_body u = Some (Snapshot held) \<Longrightarrow>
    apply_snapshot ops (cfg n) (ou_origin u) (ou_generation u) (ou_seq u) held (nodes N n) = Inr (k, s') \<Longrightarrow>
    net_step ops cfg M blank N (put_node n s' N)"
| range: "n \<in> M \<Longrightarrow> b \<in> mail N \<Longrightarrow> rr \<in> set (rb_ranges b) \<Longrightarrow>
    apply_suffix ops (cfg n) (rr_origin rr) (rr_generation rr) (rr_events rr) (nodes N n) = Inr (r, s') \<Longrightarrow>
    net_step ops cfg M blank N (put_node n s' N)"
| facts: "n \<in> M \<Longrightarrow> merge_attests ops as (nodes N n) = Inr (k, s') \<Longrightarrow>
    net_step ops cfg M blank N (put_node n s' N)"
| watermark: "n \<in> M \<Longrightarrow> is_known_origin (cfg n) p \<Longrightarrow> \<forall>c\<in>set clocks. oc_seq c < 2 ^ 64 \<Longrightarrow>
    record_watermarks ops (cfg n) p clocks (nodes N n) = Inr s' \<Longrightarrow>
    net_step ops cfg M blank N (put_node n s' N)"
| compaction: "n \<in> M \<Longrightarrow> compact ops (cfg n) (nodes N n) = Inr s' \<Longrightarrow>
    net_step ops cfg M blank N (put_node n s' N)"
| dump: "n \<in> M \<Longrightarrow> set_dump_cursor ops p cur (nodes N n) = Inr s' \<Longrightarrow>
    net_step ops cfg M blank N (put_node n s' N)"
| remint: "n \<in> M \<Longrightarrow> fresh_gen N n (max now (sat_add64 floor 1)) \<Longrightarrow>
    bump_self_generation ops (cfg n) now floor (nodes N n) = Inr (g, s') \<Longrightarrow>
    net_step ops cfg M blank N (put_node n s' N\<lparr>minted := insert (n, g) (minted N)\<rparr>)"
| restart: "n \<in> M \<Longrightarrow> index_open ops (cfg n) now (nodes N n) = Inr s' \<Longrightarrow>
    net_step ops cfg M blank N (put_node n s' N)"
| wipe: "n \<in> M \<Longrightarrow> fresh_gen N n now \<Longrightarrow> index_open ops (cfg n) now blank = Inr s' \<Longrightarrow>
    net_step ops cfg M blank N (put_node n s' N\<lparr>minted := insert (n, now) (minted N)\<rparr>)"

text \<open>At the start every member opens an empty store.\<close>

definition net_start :: "'s store_ops \<Rightarrow> (string \<Rightarrow> index_cfg) \<Rightarrow> string set \<Rightarrow> 's \<Rightarrow> 's net \<Rightarrow> bool" where
  "net_start ops cfg M blank N \<longleftrightarrow> mail N = {} \<and>
     (\<exists>now. minted N = (\<lambda>n. (n, now n)) ` M \<and>
        (\<forall>n\<in>M. 0 < now n \<and> now n < 2 ^ 64 \<and> index_open ops (cfg n) (now n) blank = Inr (nodes N n)))"

inductive net_reach :: "'s store_ops \<Rightarrow> (string \<Rightarrow> index_cfg) \<Rightarrow> string set \<Rightarrow> 's \<Rightarrow> 's net \<Rightarrow> bool"
  for ops cfg M blank where
  start: "net_start ops cfg M blank N \<Longrightarrow> net_reach ops cfg M blank N"
| step: "net_reach ops cfg M blank N \<Longrightarrow> net_step ops cfg M blank N N' \<Longrightarrow> net_reach ops cfg M blank N'"

text \<open>The configurations of the members: their own names, legal names, one wire format.\<close>

definition mesh_cfg :: "codec \<Rightarrow> string set \<Rightarrow> (string \<Rightarrow> index_cfg) \<Rightarrow> bool" where
  "mesh_cfg C M cfg \<longleftrightarrow> (\<forall>n\<in>M. ix_self (cfg n) = n \<and> ix_codec (cfg n) = C \<and>
     (\<forall>o'. is_known_origin (cfg n) o' \<longrightarrow> ok_name o'))"

section \<open>The invariant\<close>

definition true_mail :: "histories \<Rightarrow> respond_bundle \<Rightarrow> bool" where
  "true_mail T b \<longleftrightarrow> (\<forall>u\<in>set (rb_origins b). true_update T u) \<and> (\<forall>r\<in>set (rb_ranges b). true_reply T r)"

lemma true_reply_grows: "grows T T' \<Longrightarrow> true_reply T r \<Longrightarrow> true_reply T' r"
  by (simp add: true_reply_def true_suffix_grows)

lemma true_mail_grows: "grows T T' \<Longrightarrow> true_mail T b \<Longrightarrow> true_mail T' b"
  by (auto simp: true_mail_def true_update_grows true_reply_grows)

lemma mesh_cfgD:
  "mesh_cfg C M cfg \<Longrightarrow> n \<in> M \<Longrightarrow> ix_self (cfg n) = n \<and> ix_codec (cfg n) = C"
  "mesh_cfg C M cfg \<Longrightarrow> n \<in> M \<Longrightarrow> is_known_origin (cfg n) o' \<Longrightarrow> ok_name o'"
  by (auto simp: mesh_cfg_def)

context mesh_store
begin

lemma known_names: "o' \<in> set (origin_names I) \<longleftrightarrow> is_known_origin I o'"
  by (auto simp: set_origin_names is_known_origin_def)

definition net_ok :: "string set \<Rightarrow> histories \<Rightarrow> 's net \<Rightarrow> bool" where
  "net_ok M T N \<longleftrightarrow> u64_histories T \<and> (\<forall>o' g. T o' g \<noteq> None \<longrightarrow> (o', g) \<in> minted N) \<and>
     (\<forall>b\<in>mail N. true_mail T b) \<and>
     (\<forall>n\<in>M. copies_ok T (nodes N n) \<and> own_head T n (nodes N n) \<and> self_gen_ok n (nodes N n))"

lemma net_ok_node:
  assumes "net_ok M T N" "n \<in> M" "copies_ok T s'" "own_head T n s'" "self_gen_ok n s'"
  shows "net_ok M T (put_node n s' N)"
  using assms by (auto simp: net_ok_def)

lemma own_head_other: "m \<noteq> n \<Longrightarrow> own_head T m s \<Longrightarrow> own_head (extend_history T n g H) m s"
  by (simp add: own_head_def extend_history_def)

lemma u64_extend:
  "u64_histories T \<Longrightarrow> g < 2 ^ 64 \<Longrightarrow> length H < 2 ^ 64 \<Longrightarrow> u64_histories (extend_history T n g H)"
  by (auto simp: u64_histories_def extend_history_def)

lemma net_ok_extend:
  assumes N: "net_ok M T N" and n: "n \<in> M" and grow: "grows T (extend_history T n g H)"
    and b: "g < 2 ^ 64" "length H < 2 ^ 64"
    and s': "copies_ok (extend_history T n g H) s'" "own_head (extend_history T n g H) n s'" "self_gen_ok n s'"
  shows "net_ok M (extend_history T n g H) (put_node n s' N\<lparr>minted := insert (n, g) (minted N)\<rparr>)"
proof -
  let ?T = "extend_history T n g H"
  have "copies_ok ?T (nodes N m) \<and> own_head ?T m (nodes N m) \<and> self_gen_ok m (nodes N m)" if "m \<in> M" "m \<noteq> n" for m
    using N that copies_ok_grows [OF grow] own_head_other by (auto simp: net_ok_def)
  moreover have "\<forall>b\<in>mail N. true_mail ?T b" using N true_mail_grows [OF grow] by (auto simp: net_ok_def)
  moreover have "\<forall>o' h. ?T o' h \<noteq> None \<longrightarrow> (o', h) \<in> insert (n, g) (minted N)"
    using N by (auto simp: net_ok_def extend_history_def split: if_splits)
  moreover have "u64_histories ?T" using N b by (simp add: net_ok_def u64_extend)
  ultimately show ?thesis using s' by (auto simp: net_ok_def)
qed

lemma net_ok_fresh: "net_ok M T N \<Longrightarrow> fresh_gen N n g \<Longrightarrow> T n g = None"
  unfolding net_ok_def fresh_gen_def by (cases "T n g") blast+

lemma self_gen_same:
  "self_gen_ok n s \<Longrightarrow> vmeta s' = vmeta s \<Longrightarrow> generation (vclock s' n) = generation (vclock s n) \<Longrightarrow> self_gen_ok n s'"
  by (simp add: self_gen_ok_def)

lemma own_head_same:
  "own_head T n s \<Longrightarrow> generation (vclock s' n) = generation (vclock s n) \<Longrightarrow> seq (vclock s' n) = seq (vclock s n) \<Longrightarrow>
   own_head T n s'"
  by (simp add: own_head_def)

lemma watermark_true:
  assumes "copies_ok T s" and "ok_name p" and "\<And>o'. is_known_origin I o' \<Longrightarrow> ok_name o'" and "oc_seq oc < 2 ^ 64"
  shows "\<exists>s'. record_watermark ops I p oc s = Inr s' \<and> copies_ok T s' \<and> vclock s' = vclock s \<and> vmeta s' = vmeta s"
proof (cases "is_known_origin I (oc_origin oc) \<and> generation (vclock s (oc_origin oc)) = oc_generation oc")
  case False
  have "inv s" using assms(1) by (simp add: copies_ok_def)
  then show ?thesis using assms False clock_read [of s "oc_origin oc"] by (auto simp: record_watermark_def)
next
  case True
  have inv: "inv s" using assms(1) by (simp add: copies_ok_def)
  obtain s' where s': "so_advance_watermark ops s p (oc_origin oc) (oc_seq oc) = Inr s'" "inv s'"
      "vclock s' = vclock s" "vjournal s' = vjournal s" "vheld s' = vheld s" "vmeta s' = vmeta s"
    using advance_done [OF inv assms(2) _ assms(4), of "oc_origin oc"] assms(3) True by blast
  then show ?thesis using True assms(3) copies_ok_same_views [OF assms(1) s'(2-5)]
    by (simp add: record_watermark_def clock_read [OF inv])
qed

lemma watermarks_true:
  assumes "copies_ok T s" and "ok_name p" and "\<And>o'. is_known_origin I o' \<Longrightarrow> ok_name o'" and "\<forall>oc\<in>set clocks. oc_seq oc < 2 ^ 64"
  shows "\<exists>s'. record_watermarks ops I p clocks s = Inr s' \<and> copies_ok T s' \<and> vclock s' = vclock s \<and> vmeta s' = vmeta s"
  unfolding record_watermarks_def using assms(1,4)
proof (induction clocks arbitrary: s)
  case (Cons oc clocks)
  obtain t where "record_watermark ops I p oc s = Inr t" "copies_ok T t" "vclock t = vclock s" "vmeta t = vmeta s"
    using watermark_true [OF Cons.prems(1) assms(2,3), of I oc] Cons.prems(2) by auto
  then show ?case using Cons.IH [of t] Cons.prems(2) by auto
qed simp

lemma export_step:
  assumes N: "net_ok M T N" and n: "n \<in> M" and cfg: "ix_self I = n" "ix_codec I = C" "ok_name n"
    and h: "\<forall>x\<in>set holds. length (hold_hash x) = 32" and c: "so_clock ops (nodes N n) n = Inr c"
    and len: "seq c + length attests + length holds < 2 ^ 64"
    and run: "export_ops ops I attests holds (nodes N n) = Inr (k, s')"
  shows "\<exists>T'. grows T T' \<and> net_ok M T' (put_node n s' N)"
proof -
  let ?s = "nodes N n"
  have s: "copies_ok T ?s" "own_head T n ?s" "self_gen_ok n ?s" and T: "u64_histories T"
    using N n by (auto simp: net_ok_def)
  have "inv ?s" using s(1) by (simp add: copies_ok_def)
  then have c': "c = vclock ?s n" using c clock_read cfg(3) by simp
  define g where "g = generation (vclock ?s n)"
  define X where "X = map Attest attests @ map (op_of \<circ> OpHold) holds"
  obtain t H where t: "export_ops ops I attests holds ?s = Inr (length attests + length holds, t)"
     "T n g = Some H" "copies_ok (extend_history T n g (H @ X)) t" "own_head (extend_history T n g (H @ X)) n t"
     "generation (vclock t n) = g" "seq (vclock t n) = length H + length attests + length holds"
     "vmeta t = vmeta ?s"
    using export_ops_true [OF s(1) T, of I holds attests] cfg s(2) h len c' by (auto simp: g_def X_def)
  have "t = s'" using t(1) run by simp
  have grow: "grows T (extend_history T n g (H @ X))" by (rule grows_extend [of T n g H, OF t(2)])
  have "length H = seq (vclock ?s n)" using s(2) t(2) by (auto simp: own_head_def g_def)
  then have b: "g < 2 ^ 64" "length (H @ X) < 2 ^ 64"
    using u64_historiesD [OF T t(2)] len c' by (auto simp: X_def)
  have gen: "self_gen_ok n t" by (rule self_gen_same [OF s(3) t(7)]) (simp add: t(5) g_def)
  have "(n, g) \<in> minted N" using N t(2) by (auto simp: net_ok_def)
  then have "put_node n s' N\<lparr>minted := insert (n, g) (minted N)\<rparr> = put_node n s' N"
    by (simp add: insert_absorb)
  then show ?thesis
    using net_ok_extend [OF N n grow b t(3,4) gen] grow \<open>t = s'\<close> by auto
qed

lemma remint_step:
  assumes N: "net_ok M T N" and n: "n \<in> M" and cfg: "ix_self I = n" "ok_name n"
    and fresh: "fresh_gen N n (max now (sat_add64 floor 1))"
    and run: "bump_self_generation ops I now floor (nodes N n) = Inr (g, s')"
  shows "\<exists>T'. grows T T' \<and> net_ok M T' (put_node n s' N\<lparr>minted := insert (n, g) (minted N)\<rparr>)"
proof -
  let ?s = "nodes N n" and ?g = "max now (sat_add64 floor 1)"
  have s: "copies_ok T ?s" "own_head T n ?s" and T: "u64_histories T"
    using N n by (auto simp: net_ok_def)
  have none: "T n ?g = None" by (rule net_ok_fresh [OF N fresh])
  obtain t H where t: "bump_self_generation ops I now floor ?s = Inr (?g, t)" "T n (generation (vclock ?s n)) = Some H"
     "copies_ok (extend_history T n ?g H) t" "own_head (extend_history T n ?g H) n t" "self_gen_ok n t"
    using bump_true [OF s(1), of I now floor] s(2) cfg fresh none by (auto simp: fresh_gen_def)
  have "g = ?g" "t = s'" using t(1) run by simp_all
  have grow: "grows T (extend_history T n ?g H)" by (rule grows_fresh [of T n, OF none])
  show ?thesis
    using net_ok_extend [OF N n grow _ _ t(3-5)] grow fresh u64_historiesD [OF T t(2)] \<open>g = ?g\<close> \<open>t = s'\<close>
    by (auto simp: fresh_gen_def)
qed

lemma wipe_step:
  assumes N: "net_ok M T N" and n: "n \<in> M" and cfg: "ix_self I = n" "ok_name n" and fresh: "fresh_gen N n now"
    and blank: "inv blank" "vclock blank = (\<lambda>_. clock_default)" "vjournal blank = (\<lambda>_. Map.empty)" "vheld blank = (\<lambda>_. {})"
      "vmeta blank ''self_generation'' = None"
    and run: "index_open ops I now blank = Inr s'"
  shows "\<exists>T'. grows T T' \<and> net_ok M T' (put_node n s' N\<lparr>minted := insert (n, now) (minted N)\<rparr>)"
proof -
  have T: "u64_histories T" using N by (simp add: net_ok_def)
  have none: "T n now = None" by (rule net_ok_fresh [OF N fresh])
  obtain t where t: "index_open ops I now blank = Inr t" "copies_ok (extend_history T n now []) t"
     "own_head (extend_history T n now []) n t" "self_gen_ok n t"
    using open_fresh_true [OF blank, of I now T] cfg fresh none by (auto simp: fresh_gen_def)
  have "t = s'" using t(1) run by simp
  have grow: "grows T (extend_history T n now [])" by (rule grows_fresh [of T n, OF none])
  show ?thesis
    using net_ok_extend [OF N n grow _ _ t(2-4)] grow fresh \<open>t = s'\<close> by (auto simp: fresh_gen_def)
qed

text \<open>A suffix or snapshot taken from the histories, applied at a member.\<close>

lemma suffix_step:
  assumes N: "net_ok M T N" and cfg: "mesh_cfg C M cfg" and n: "n \<in> M" and es: "true_suffix T o' g es"
    and run: "apply_suffix ops (cfg n) o' g es (nodes N n) = Inr (r, s')"
  shows "net_ok M T (put_node n s' N)"
proof -
  let ?s = "nodes N n"
  have s: "copies_ok T ?s" "own_head T n ?s" "self_gen_ok n ?s" and T: "u64_histories T"
    using N n by (auto simp: net_ok_def)
  have known: "is_known_origin (cfg n) o'" "o' \<noteq> ix_self (cfg n)"
    using run by (auto simp: apply_suffix_def split: if_splits)
  obtain r' t where t: "apply_suffix ops (cfg n) o' g es ?s = Inr (r', t)" "copies_ok T t"
     "\<forall>a. a \<noteq> o' \<longrightarrow> vclock t a = vclock ?s a" "vmeta t = vmeta ?s"
    using apply_suffix_true [OF s(1) T mesh_cfgD(2) [OF cfg n known(1)] _ known es] mesh_cfgD(1) [OF cfg n] by blast
  have "t = s'" using t(1) run by simp
  have "vclock t n = vclock ?s n" using t(3) known(2) mesh_cfgD(1) [OF cfg n] by simp
  then show ?thesis using net_ok_node [OF N n t(2)] own_head_same [OF s(2)] self_gen_same [OF s(3) t(4)] \<open>t = s'\<close>
    by simp
qed

lemma snapshot_step:
  assumes N: "net_ok M T N" and cfg: "mesh_cfg C M cfg" and n: "n \<in> M" and sn: "true_snapshot T o' g q held"
    and run: "apply_snapshot ops (cfg n) o' g q held (nodes N n) = Inr (k, s')"
  shows "net_ok M T (put_node n s' N)"
proof -
  let ?s = "nodes N n"
  have s: "copies_ok T ?s" "own_head T n ?s" "self_gen_ok n ?s" and T: "u64_histories T"
    using N n by (auto simp: net_ok_def)
  have known: "is_known_origin (cfg n) o'" "o' \<noteq> ix_self (cfg n)"
    using run by (auto simp: apply_snapshot_def split: if_splits)
  obtain j t where t: "apply_snapshot ops (cfg n) o' g q held ?s = Inr (j, t)" "copies_ok T t"
     "\<forall>a. a \<noteq> o' \<longrightarrow> vclock t a = vclock ?s a" "vmeta t = vmeta ?s"
    using apply_snapshot_true [OF s(1) T mesh_cfgD(2) [OF cfg n known(1)] known sn] by blast
  have "t = s'" using t(1) run by simp
  have "vclock t n = vclock ?s n" using t(3) known(2) mesh_cfgD(1) [OF cfg n] by simp
  then show ?thesis using net_ok_node [OF N n t(2)] own_head_same [OF s(2)] self_gen_same [OF s(3) t(4)] \<open>t = s'\<close>
    by simp
qed

text \<open>Operations that leave every own clock alone but its tail.\<close>

lemma quiet_step:
  assumes N: "net_ok M T N" and n: "n \<in> M" and s': "copies_ok T s'" "vmeta s' ''self_generation'' = vmeta (nodes N n) ''self_generation''"
    "generation (vclock s' n) = generation (vclock (nodes N n) n)" "seq (vclock s' n) = seq (vclock (nodes N n) n)"
  shows "net_ok M T (put_node n s' N)"
proof -
  have "own_head T n (nodes N n)" "self_gen_ok n (nodes N n)" using N n by (auto simp: net_ok_def)
  then show ?thesis using net_ok_node [OF N n s'(1)] s' by (simp add: own_head_def self_gen_ok_def)
qed

lemma net_step_ok:
  assumes cfg: "mesh_cfg C M cfg" and blank: "inv blank" "vclock blank = (\<lambda>_. clock_default)"
      "vjournal blank = (\<lambda>_. Map.empty)" "vheld blank = (\<lambda>_. {})" "vmeta blank ''self_generation'' = None"
    and step: "net_step ops cfg M blank N N'" and N: "net_ok M T N"
  shows "\<exists>T'. grows T T' \<and> net_ok M T' N'"
  using step
proof cases
  case (export n holds c attests k s')
  then show ?thesis
    using export_step [OF N, of n "cfg n" holds c attests k s'] mesh_cfgD [OF cfg] by (auto simp: is_known_origin_def)
next
  case (answer n req b)
  have "true_bundle T (nodes N n) b"
    using respond_safe [of T "nodes N n" "cfg n" req RESPONSE_BYTES_CAP b] N answer mesh_cfgD [OF cfg answer(2)]
    by (auto simp: net_ok_def known_names respond_def u64_asks_def)
  then have "net_ok M T N'" using N by (auto simp: answer(1) net_ok_def true_mail_def true_bundle_def)
  then show ?thesis using grows_refl by blast
next
  case (suffix n b u es r s')
  have "true_update T u" using N suffix(3,4) by (auto simp: net_ok_def true_mail_def)
  then have "net_ok M T N'" using suffix_step [OF N cfg suffix(2) _ suffix(6)] suffix(1,5) by (simp add: true_update_def)
  then show ?thesis using grows_refl by blast
next
  case (snapshot n b u held k s')
  have "true_update T u" using N snapshot(3,4) by (auto simp: net_ok_def true_mail_def)
  then have "net_ok M T N'" using snapshot_step [OF N cfg snapshot(2) _ snapshot(6)] snapshot(1,5) by (simp add: true_update_def)
  then show ?thesis using grows_refl by blast
next
  case (range n b rr r s')
  have "true_reply T rr" using N range(3,4) by (auto simp: net_ok_def true_mail_def)
  then have "net_ok M T N'" using suffix_step [OF N cfg range(2) _ range(5)] range(1) by (simp add: true_reply_def)
  then show ?thesis using grows_refl by blast
next
  case (facts n as k s')
  have "copies_ok T (nodes N n)" using N facts(2) by (simp add: net_ok_def)
  then obtain j t where "merge_attests ops as (nodes N n) = Inr (j, t)" "copies_ok T t" "vclock t = vclock (nodes N n)"
     "vmeta t = vmeta (nodes N n)" using merge_attests_true by blast
  then have "net_ok M T N'" using quiet_step [OF N facts(2), of s'] facts by simp
  then show ?thesis using grows_refl by blast
next
  case (watermark n p clocks s')
  have "copies_ok T (nodes N n)" using N watermark(2) by (simp add: net_ok_def)
  then obtain t where "record_watermarks ops (cfg n) p clocks (nodes N n) = Inr t" "copies_ok T t" "vclock t = vclock (nodes N n)"
     "vmeta t = vmeta (nodes N n)"
    using watermarks_true [of T "nodes N n" p "cfg n" clocks] mesh_cfgD(2) [OF cfg watermark(2)] watermark(3,4) by blast
  then have "net_ok M T N'" using quiet_step [OF N watermark(2), of s'] watermark by simp
  then show ?thesis using grows_refl by blast
next
  case (compaction n s')
  have s: "copies_ok T (nodes N n)" "u64_histories T" using N compaction(2) by (simp_all add: net_ok_def)
  obtain t where "compact ops (cfg n) (nodes N n) = Inr t" "copies_ok T t" "vmeta t = vmeta (nodes N n)"
     "vclock t = (\<lambda>o'. if o' \<in> set (origin_names (cfg n))
        then (vclock (nodes N n) o')\<lparr>tail_seq := max (tail_seq (vclock (nodes N n) o'))
           (max (ack_floor (cfg n) (nodes N n) o') (seq (vclock (nodes N n) o') - JOURNAL_BACKSTOP))\<rparr>
        else vclock (nodes N n) o')"
    using compact_true [OF s, of "cfg n"] mesh_cfgD(2) [OF cfg compaction(2)] unfolding known_names by blast
  then have "net_ok M T N'" using quiet_step [OF N compaction(2), of s'] compaction by simp
  then show ?thesis using grows_refl by blast
next
  case (dump n p cur s')
  have s: "copies_ok T (nodes N n)" using N dump(2) by (simp add: net_ok_def)
  then have inv: "inv (nodes N n)" by (simp add: copies_ok_def)
  obtain t where t: "so_meta_put ops (nodes N n) (cursor_key p) (hex_encode cur) = Inr t" "inv t"
      "vmeta t = (vmeta (nodes N n))(cursor_key p \<mapsto> hex_encode cur)" "vclock t = vclock (nodes N n)"
      "vjournal t = vjournal (nodes N n)" "vheld t = vheld (nodes N n)"
    using meta_done [OF inv] by blast
  have "t = s'" using dump(3) t(1) by (simp add: set_dump_cursor_def)
  then have "net_ok M T N'"
    using quiet_step [OF N dump(2) copies_ok_same_views [OF s t(2,4-6)]] dump(1) t(3,4) by simp
  then show ?thesis using grows_refl by blast
next
  case (remint n now floor g s')
  then show ?thesis
    using remint_step [OF N, of n "cfg n" now floor g s'] mesh_cfgD [OF cfg] by (auto simp: is_known_origin_def)
next
  case (restart n now s')
  have s: "copies_ok T (nodes N n)" "u64_histories T" "own_head T n (nodes N n)" "self_gen_ok n (nodes N n)"
    using N restart(2) by (simp_all add: net_ok_def)
  have me: "ix_self (cfg n) = n" "ok_name n" using mesh_cfgD [OF cfg restart(2)] by (auto simp: is_known_origin_def)
  obtain t where "index_open ops (cfg n) now (nodes N n) = Inr t" "copies_ok T t" "own_head T n t" "self_gen_ok n t"
    using open_again_true [OF s(1,2), of "cfg n" now] s(3,4) me by auto
  then have "net_ok M T N'" using net_ok_node [OF N restart(2), of s'] restart by simp
  then show ?thesis using grows_refl by blast
next
  case (wipe n now s')
  then show ?thesis
    using wipe_step [OF N _ _ _ _ blank, of n "cfg n" now s'] mesh_cfgD [OF cfg] by (auto simp: is_known_origin_def)
qed

lemma net_start_ok:
  assumes cfg: "mesh_cfg C M cfg" and blank: "inv blank" "vclock blank = (\<lambda>_. clock_default)"
      "vjournal blank = (\<lambda>_. Map.empty)" "vheld blank = (\<lambda>_. {})" "vmeta blank ''self_generation'' = None"
    and start: "net_start ops cfg M blank N"
  shows "\<exists>T. net_ok M T N"
proof -
  obtain now where mail: "mail N = {}" and mint: "minted N = (\<lambda>n. (n, now n)) ` M"
    and now: "\<forall>n\<in>M. 0 < now n \<and> now n < 2 ^ 64 \<and> index_open ops (cfg n) (now n) blank = Inr (nodes N n)"
    using start by (auto simp: net_start_def)
  define T :: histories where "T = (\<lambda>n. if n \<in> M then [now n \<mapsto> []] else Map.empty)"
  have "copies_ok T (nodes N n) \<and> own_head T n (nodes N n) \<and> self_gen_ok n (nodes N n)" if n: "n \<in> M" for n
  proof -
    have me: "ix_self (cfg n) = n" "ok_name n" using mesh_cfgD [OF cfg n] by (auto simp: is_known_origin_def)
    have T: "T = extend_history (T(n := Map.empty)) n (now n) []"
      using n by (auto simp: T_def extend_history_def fun_eq_iff)
    obtain t where "index_open ops (cfg n) (now n) blank = Inr t" "copies_ok T t" "own_head T n t" "self_gen_ok n t"
      using open_fresh_true [OF blank, of "cfg n" "now n" "T(n := Map.empty)"] me now n T by auto
    then show ?thesis using now n by auto
  qed
  moreover have "u64_histories T" using now by (auto simp: u64_histories_def T_def split: if_splits)
  ultimately have "net_ok M T N" using mail mint by (auto simp: net_ok_def T_def split: if_splits)
  then show ?thesis by blast
qed

lemma net_reach_ok:
  assumes "mesh_cfg C M cfg" and "inv blank" "vclock blank = (\<lambda>_. clock_default)"
      "vjournal blank = (\<lambda>_. Map.empty)" "vheld blank = (\<lambda>_. {})" "vmeta blank ''self_generation'' = None"
    and "net_reach ops cfg M blank N"
  shows "\<exists>T. net_ok M T N"
  using assms(7)
proof induction
  case (start N)
  then show ?case by (rule net_start_ok [OF assms(1-6)])
next
  case (step N N')
  then show ?case using net_step_ok [OF assms(1-6)] by blast
qed

text \<open>Two copies with the same clock hold the same.\<close>

lemma same_clock_same_held:
  assumes "net_ok M T N" "n \<in> M" "m \<in> M"
    and "generation (vclock (nodes N n) o') = generation (vclock (nodes N m) o')"
    and "seq (vclock (nodes N n) o') = seq (vclock (nodes N m) o')"
  shows "vheld (nodes N n) o' = vheld (nodes N m) o'"
proof -
  have "copies_ok T (nodes N n)" "copies_ok T (nodes N m)" using assms(1-3) by (auto simp: net_ok_def)
  then have "known_copy C T o' (vclock (nodes N n) o') (vjournal (nodes N n) o') (vheld (nodes N n) o')"
    "known_copy C T o' (vclock (nodes N m) o') (vjournal (nodes N m) o') (vheld (nodes N m) o')"
    by (simp_all add: copies_ok_def)
  then show ?thesis using assms(4,5) by (auto simp: known_copy_def copy_of_def clock_default_def)
qed

text \<open>A copy is never ahead of the node it describes, within a generation.\<close>

lemma never_ahead:
  assumes "net_ok M T N" "n \<in> M" "m \<in> M"
    and "generation (vclock (nodes N n) m) = generation (vclock (nodes N m) m)"
  shows "seq (vclock (nodes N n) m) \<le> seq (vclock (nodes N m) m)"
proof -
  have c: "copies_ok T (nodes N n)" and o: "own_head T m (nodes N m)" using assms(1-3) by (auto simp: net_ok_def)
  have "known_copy C T m (vclock (nodes N n) m) (vjournal (nodes N n) m) (vheld (nodes N n) m)"
    using c by (simp add: copies_ok_def)
  then show ?thesis using assms(4) o by (auto simp: known_copy_def copy_of_def clock_default_def own_head_def)
qed

end

end
