(* ===== verification/Catchup.thy ===== *)
theory Catchup
  imports Index Kv "HOL-Library.Multiset"
begin

text \<open>
  The planner of the journal catch-up engine (\<open>Catchup\<close> in \<open>src/sync.rs\<close>): per origin the
  applied cursor, the reorder buffer and the retry queue, and one window of asks in flight
  shared by all origins. The asks in flight are not in the planner's state (it keeps their
  number); the invariant takes them as a list beside it and says that the intervals waiting
  for retry, in flight and buffered partition the sequence numbers between the cursor and
  the first number never asked for.
\<close>

section \<open>State and operations\<close>

definition CHUNK_EVENTS :: nat where "CHUNK_EVENTS = 4096"
definition ENGINE_WINDOW :: nat where "ENGINE_WINDOW = 6"
definition ENGINE_STRIKES :: nat where "ENGINE_STRIKES = 3"

record origin_plan =
  pl_generation :: nat
  pl_cursor :: nat
  pl_next :: nat
  pl_target :: nat
  pl_buffered :: "(nat, event list) kv"
  pl_retry :: "(nat \<times> nat) list"
  pl_strikes :: nat

record catchup =
  cu_origins :: "string \<rightharpoonup> origin_plan"
  cu_inflight :: nat

definition catchup_default :: catchup where
  "catchup_default = \<lparr>cu_origins = Map.empty, cu_inflight = 0\<rparr>"

definition put_plan :: "string \<Rightarrow> origin_plan \<Rightarrow> catchup \<Rightarrow> catchup" where
  "put_plan o' p c = c\<lparr>cu_origins := (cu_origins c)(o' \<mapsto> p)\<rparr>"

definition drop_origin :: "string \<Rightarrow> catchup \<Rightarrow> catchup" where
  "drop_origin o' c = c\<lparr>cu_origins := (cu_origins c)(o' := None)\<rparr>"

definition new_plan :: "nat \<Rightarrow> nat \<Rightarrow> origin_plan" where
  "new_plan g cursor = \<lparr>pl_generation = g, pl_cursor = cursor, pl_next = cursor, pl_target = cursor,
     pl_buffered = [], pl_retry = [], pl_strikes = 0\<rparr>"

text \<open>The first component is the verdict of the source: False hands the origin back.\<close>

definition enroll :: "string \<Rightarrow> nat \<Rightarrow> nat \<Rightarrow> nat \<Rightarrow> catchup \<Rightarrow> bool \<times> catchup" where
  "enroll o' g cursor target c =
     (let p = (case cu_origins c o' of Some p \<Rightarrow> p | None \<Rightarrow> new_plan g cursor) in
      if pl_generation p \<noteq> g then (False, drop_origin o' c)
      else let p = p\<lparr>pl_target := max (pl_target p) target\<rparr> in
        if pl_target p > sat_add64 (pl_cursor p) JOURNAL_BACKSTOP then (False, drop_origin o' c)
        else (True, put_plan o' p c))"

text \<open>One plan's next interval; \<open>order\<close> is the order in which the hash map yields its keys.\<close>

definition plan_ask :: "origin_plan \<Rightarrow> ((nat \<times> nat) \<times> origin_plan) option" where
  "plan_ask p =
     (case pl_retry p of
        iv # rest \<Rightarrow> Some (iv, p\<lparr>pl_retry := rest\<rparr>)
      | [] \<Rightarrow>
          if pl_next p < pl_target p
          then (let until = min (add64 (pl_next p) CHUNK_EVENTS) (pl_target p)
                in Some ((pl_next p, until), p\<lparr>pl_next := until\<rparr>))
          else None)"

fun next_ask_in :: "string list \<Rightarrow> catchup \<Rightarrow> (range_ask \<times> catchup) option" where
  "next_ask_in [] c = None"
| "next_ask_in (o' # order) c =
     (case Option.bind (cu_origins c o') plan_ask of
        Some ((after, until), p) \<Rightarrow>
          Some (\<lparr>ra_origin = o', ra_generation = pl_generation p, ra_after = after, ra_until = until\<rparr>,
                (put_plan o' p c)\<lparr>cu_inflight := cu_inflight c + 1\<rparr>)
      | None \<Rightarrow> next_ask_in order c)"

definition next_ask :: "string list \<Rightarrow> catchup \<Rightarrow> (range_ask \<times> catchup) option" where
  "next_ask order c = (if cu_inflight c \<ge> ENGINE_WINDOW then None else next_ask_in order c)"

definition landed :: "catchup \<Rightarrow> catchup" where
  "landed c = c\<lparr>cu_inflight := cu_inflight c - 1\<rparr>"

definition unpick :: "range_ask \<Rightarrow> catchup \<Rightarrow> catchup" where
  "unpick ask c =
     (case cu_origins c (ra_origin ask) of
        None \<Rightarrow> landed c
      | Some p \<Rightarrow> put_plan (ra_origin ask) (p\<lparr>pl_retry := (ra_after ask, ra_until ask) # pl_retry p\<rparr>) (landed c))"

definition complete :: "string \<Rightarrow> nat \<Rightarrow> nat \<Rightarrow> event list \<Rightarrow> catchup \<Rightarrow> catchup" where
  "complete o' after until events c =
     (case cu_origins c o' of
        None \<Rightarrow> landed c
      | Some p \<Rightarrow>
          let covered = (if events = [] then after else ev_seq (last events));
              p = p\<lparr>pl_strikes := 0\<rparr>;
              p = (if covered < until then p\<lparr>pl_retry := pl_retry p @ [(covered, until)]\<rparr> else p);
              p = (if events = [] then p else p\<lparr>pl_buffered := kv_put after events (pl_buffered p)\<rparr>)
          in put_plan o' p (landed c))"

definition strike :: "string \<Rightarrow> nat \<Rightarrow> nat \<Rightarrow> catchup \<Rightarrow> bool \<times> catchup" where
  "strike o' after until c =
     (case cu_origins c o' of
        None \<Rightarrow> (True, landed c)
      | Some p \<Rightarrow>
          let p = p\<lparr>pl_retry := pl_retry p @ [(after, until)], pl_strikes := (pl_strikes p + 1) mod 2 ^ 32\<rparr>
          in (pl_strikes p < ENGINE_STRIKES, put_plan o' p (landed c)))"

definition take_ready :: "string \<Rightarrow> catchup \<Rightarrow> ((nat \<times> event list) \<times> catchup) option" where
  "take_ready o' c =
     (case cu_origins c o' of
        None \<Rightarrow> None
      | Some p \<Rightarrow>
          (case pl_buffered p of
             [] \<Rightarrow> None
           | (after, events) # rest \<Rightarrow>
               if after > pl_cursor p then None
               else Some ((pl_generation p, events), put_plan o' (p\<lparr>pl_buffered := rest\<rparr>) c)))"

definition applied :: "string \<Rightarrow> nat \<Rightarrow> catchup \<Rightarrow> catchup" where
  "applied o' through c =
     (case cu_origins c o' of
        None \<Rightarrow> c
      | Some p \<Rightarrow>
          let cursor = max (pl_cursor p) through
          in put_plan o' (p\<lparr>pl_cursor := cursor, pl_next := max (pl_next p) cursor\<rparr>) c)"

definition finished :: "string \<Rightarrow> catchup \<Rightarrow> bool" where
  "finished o' c =
     (case cu_origins c o' of
        None \<Rightarrow> True
      | Some p \<Rightarrow> pl_cursor p \<ge> pl_target p \<and> pl_buffered p = [] \<and> pl_retry p = [])"

definition has_work :: "string list \<Rightarrow> catchup \<Rightarrow> bool" where
  "has_work order c =
     list_ex (\<lambda>o'. case cu_origins c o' of None \<Rightarrow> False
        | Some p \<Rightarrow> pl_retry p \<noteq> [] \<or> pl_next p < pl_target p) order"

section \<open>The invariant\<close>

text \<open>How many of a list of half-open intervals \<open>(a, u]\<close> contain a number.\<close>

definition cover :: "nat \<Rightarrow> (nat \<times> nat) list \<Rightarrow> nat" where
  "cover n ivs = length (filter (\<lambda>(a, u). a < n \<and> n \<le> u) ivs)"

lemma cover_simps [simp]:
  "cover n [] = 0"
  "cover n ((a, u) # ivs) = (if a < n \<and> n \<le> u then 1 else 0) + cover n ivs"
  "cover n (xs @ ys) = cover n xs + cover n ys"
  by (simp_all add: cover_def)

lemma cover_remove1: "x \<in> set ivs \<Longrightarrow> cover n ivs = cover n [x] + cover n (remove1 x ivs)"
  by (induction ivs) (auto simp: cover_def)

lemma cover_pos: "0 < cover n ivs \<longleftrightarrow> (\<exists>(a, u)\<in>set ivs. a < n \<and> n \<le> u)"
  by (auto simp: cover_def filter_empty_conv)

lemma cover_le: "(a, u) \<in> set ivs \<Longrightarrow> a < n \<Longrightarrow> n \<le> u \<Longrightarrow> 0 < cover n ivs"
  unfolding cover_pos by blast

definition spans :: "(nat, event list) kv \<Rightarrow> (nat \<times> nat) list" where
  "spans b = map (\<lambda>(a, es). (a, a + length es)) b"

lemma spans_simps [simp]: "spans [] = []" "spans ((a, es) # b) = (a, a + length es) # spans b"
  by (simp_all add: spans_def)

text \<open>An honest reply: a nonempty contiguous run above \<open>after\<close>, not past \<open>until\<close>.\<close>

definition run_above :: "nat \<Rightarrow> nat \<Rightarrow> event list \<Rightarrow> bool" where
  "run_above after until es \<longleftrightarrow> es \<noteq> [] \<and> map ev_seq es = [Suc after..<Suc (after + length es)] \<and> after + length es \<le> until"

lemma run_above_last: "run_above after until es \<Longrightarrow> ev_seq (last es) = after + length es"
proof -
  assume r: "run_above after until es"
  then have ne: "es \<noteq> []" by (simp add: run_above_def)
  then have "ev_seq (last es) = last (map ev_seq es)" by (simp add: last_map)
  also have "map ev_seq es = [Suc after..<Suc (after + length es)]" using r by (simp add: run_above_def)
  also have "last \<dots> = after + length es" using ne by (subst last_upt) (auto simp: Suc_le_eq simp del: upt_Suc)
  finally show ?thesis .
qed

definition exactly :: "nat \<Rightarrow> nat \<Rightarrow> (nat \<times> nat) list \<Rightarrow> bool" where
  "exactly lo hi ivs \<longleftrightarrow> (\<forall>n. cover n ivs = (if lo < n \<and> n \<le> hi then 1 else 0))"

lemma exactly_cong: "exactly lo hi xs \<Longrightarrow> (\<And>n. cover n ys = cover n xs) \<Longrightarrow> exactly lo hi ys"
  by (simp add: exactly_def)

lemma exactly_within:
  assumes "exactly lo hi ivs" and "(a, u) \<in> set ivs" and "a < u"
  shows "lo \<le> a \<and> u \<le> hi"
proof -
  have "0 < cover (Suc a) ivs" "0 < cover u ivs" using assms(2,3) by (auto intro: cover_le)
  then have "lo < Suc a" "u \<le> hi" using assms(1) unfolding exactly_def by (metis less_numeral_extra(3))+
  then show ?thesis by simp
qed

lemma exactly_extend: "exactly lo hi ivs \<Longrightarrow> lo \<le> hi \<Longrightarrow> hi \<le> v \<Longrightarrow> exactly lo v ((hi, v) # ivs)"
  by (simp add: exactly_def)

lemma exactly_shift: "exactly lo hi ((lo, m) # ivs) \<Longrightarrow> lo \<le> m \<Longrightarrow> m \<le> hi \<Longrightarrow> exactly m hi ivs"
  unfolding exactly_def
proof
  fix n assume e: "\<forall>n. cover n ((lo, m) # ivs) = (if lo < n \<and> n \<le> hi then 1 else 0)" and m: "lo \<le> m" "m \<le> hi"
  show "cover n ivs = (if m < n \<and> n \<le> hi then 1 else 0)"
    using e [THEN spec, of n] m by (simp split: if_splits)
qed

definition pieces :: "origin_plan \<Rightarrow> (nat \<times> nat) list \<Rightarrow> (nat \<times> nat) list" where
  "pieces p fl = pl_retry p @ fl @ spans (pl_buffered p)"

definition plan_ok :: "origin_plan \<Rightarrow> (nat \<times> nat) list \<Rightarrow> bool" where
  "plan_ok p fl \<longleftrightarrow>
     kv_inv (pl_buffered p) \<and> (\<forall>(a, es)\<in>set (pl_buffered p). run_above a (a + length es) es) \<and>
     pl_cursor p \<le> pl_next p \<and> pl_next p \<le> pl_target p \<and> pl_target p + CHUNK_EVENTS < 2 ^ 64 \<and>
     (\<forall>(a, u)\<in>set (pl_retry p) \<union> set fl. a < u) \<and> exactly (pl_cursor p) (pl_next p) (pieces p fl)"

section \<open>Every operation keeps the invariant\<close>

text \<open>Moving an interval between the three containers.\<close>

lemma plan_ok_move:
  assumes "plan_ok p fl"
    and "pl_cursor p' = pl_cursor p" "pl_next p' = pl_next p" "pl_target p' = pl_target p" "pl_buffered p' = pl_buffered p"
    and "\<forall>(a, u)\<in>set (pl_retry p') \<union> set fl'. a < u" and "\<And>n. cover n (pl_retry p' @ fl') = cover n (pl_retry p @ fl)"
  shows "plan_ok p' fl'"
proof -
  have "exactly (pl_cursor p) (pl_next p) (pieces p' fl')"
  proof (rule exactly_cong)
    show "exactly (pl_cursor p) (pl_next p) (pieces p fl)" using assms(1) by (simp add: plan_ok_def)
    show "cover n (pieces p' fl') = cover n (pieces p fl)" for n using assms(7) [of n] by (simp add: pieces_def assms(5))
  qed
  then show ?thesis using assms by (simp add: plan_ok_def)
qed

lemma plan_ok_new: "t + CHUNK_EVENTS < 2 ^ 64 \<Longrightarrow> c \<le> t \<Longrightarrow> plan_ok ((new_plan g c)\<lparr>pl_target := t\<rparr>) []"
  by (simp add: plan_ok_def new_plan_def pieces_def exactly_def)

lemma plan_ok_raise:
  "plan_ok p fl \<Longrightarrow> t + CHUNK_EVENTS < 2 ^ 64 \<Longrightarrow> plan_ok (p\<lparr>pl_target := max (pl_target p) t\<rparr>) fl"
  by (auto simp: plan_ok_def max_def pieces_def)

lemma plan_ask_ok:
  assumes p: "plan_ok p fl" and ask: "plan_ask p = Some ((a, u), p')"
  shows "plan_ok p' ((a, u) # fl) \<and> a < u \<and> u \<le> pl_target p \<and> pl_cursor p \<le> a \<and>
     pl_generation p' = pl_generation p"
proof (cases "pl_retry p")
  case (Cons iv rest)
  have p': "p' = p\<lparr>pl_retry := rest\<rparr>" and r: "pl_retry p = (a, u) # rest" using ask Cons by (auto simp: plan_ask_def)
  have au: "a < u" using p r by (auto simp: plan_ok_def)
  have "(a, u) \<in> set (pieces p fl)" by (simp add: pieces_def r)
  then have "pl_cursor p \<le> a" "u \<le> pl_next p"
    using p exactly_within au unfolding plan_ok_def by blast+
  moreover have "plan_ok p' ((a, u) # fl)"
    by (rule plan_ok_move [OF p]) (use p in \<open>auto simp: p' r plan_ok_def\<close>)
  ultimately show ?thesis using p au by (auto simp: p' plan_ok_def)
next
  case Nil
  define v where "v = min (add64 (pl_next p) CHUNK_EVENTS) (pl_target p)"
  have lt: "pl_next p < pl_target p" and au: "a = pl_next p" "u = v" and p': "p' = p\<lparr>pl_next := v\<rparr>"
    using ask Nil by (auto simp: plan_ask_def v_def Let_def split: if_splits)
  have "add64 (pl_next p) CHUNK_EVENTS = pl_next p + CHUNK_EVENTS" using p lt by (simp add: plan_ok_def)
  then have v: "pl_next p < v" "v \<le> pl_target p" using lt by (auto simp: v_def CHUNK_EVENTS_def)
  have "exactly (pl_cursor p) v ((a, u) # pieces p fl)"
    unfolding au by (rule exactly_extend) (use p v in \<open>auto simp: plan_ok_def\<close>)
  then have "exactly (pl_cursor p) v (pieces p' ((a, u) # fl))"
    by (rule exactly_cong) (simp add: pieces_def Nil p')
  then show ?thesis using p v Nil by (auto simp: p' plan_ok_def au)
qed

lemma flight_bounds:
  assumes p: "plan_ok p ((a, u) # fl)"
  shows "a < u \<and> pl_cursor p \<le> a \<and> u \<le> pl_next p \<and> a \<notin> fst ` set (pl_buffered p)"
proof -
  have au: "a < u" using p by (auto simp: plan_ok_def)
  have ex: "exactly (pl_cursor p) (pl_next p) (pieces p ((a, u) # fl))" using p by (simp add: plan_ok_def)
  have "(a, u) \<in> set (pieces p ((a, u) # fl))" by (simp add: pieces_def)
  from exactly_within [OF ex this au] have in1: "pl_cursor p \<le> a" "u \<le> pl_next p" by auto
  have "a \<notin> fst ` set (pl_buffered p)"
  proof
    assume "a \<in> fst ` set (pl_buffered p)"
    then obtain es where es: "(a, es) \<in> set (pl_buffered p)" by auto
    then have "es \<noteq> []" using p by (auto simp: plan_ok_def run_above_def)
    moreover have "(a, a + length es) \<in> set (spans (pl_buffered p))" using es by (force simp: spans_def)
    ultimately have "0 < cover (Suc a) (spans (pl_buffered p))" by (intro cover_le) (auto simp: Suc_le_eq)
    moreover have "cover (Suc a) (pieces p ((a, u) # fl)) \<le> 1" using ex by (simp add: exactly_def)
    ultimately show False using au by (simp add: pieces_def)
  qed
  then show ?thesis using au in1 by simp
qed

lemma cover_kv_put: "a \<notin> fst ` set b \<Longrightarrow> cover n (spans (kv_put a es b)) = cover n [(a, a + length es)] + cover n (spans b)"
  by (induction a es b rule: kv_put.induct) auto

lemma set_kv_put_new: "set (kv_put k v t) \<subseteq> insert (k, v) (set t)"
  by (induction k v t rule: kv_put.induct) auto

lemma plan_retry_front: "plan_ok p ((a, u) # fl) \<Longrightarrow> plan_ok (p\<lparr>pl_retry := (a, u) # pl_retry p\<rparr>) fl"
  using plan_ok_move [of p "(a, u) # fl" _ fl] by (auto simp: plan_ok_def)

lemma plan_retry_back:
  "plan_ok p ((a, u) # fl) \<Longrightarrow> plan_ok (p\<lparr>pl_retry := pl_retry p @ [(a, u)], pl_strikes := k\<rparr>) fl"
  using plan_ok_move [of p "(a, u) # fl" _ fl] by (auto simp: plan_ok_def)

text \<open>A landed run goes to the buffer and its shortfall back to the queue.\<close>

lemma plan_complete:
  assumes p: "plan_ok p ((a, u) # fl)" and r: "run_above a u es"
  defines "m \<equiv> a + length es"
  shows "plan_ok (p\<lparr>pl_strikes := 0, pl_retry := pl_retry p @ (if m < u then [(m, u)] else []),
     pl_buffered := kv_put a es (pl_buffered p)\<rparr>) fl" (is "plan_ok ?p fl")
proof -
  have fb: "a < u" "a \<notin> fst ` set (pl_buffered p)" using flight_bounds [OF p] by auto
  have m: "a < m" "m \<le> u" using r by (auto simp: run_above_def m_def)
  have "exactly (pl_cursor p) (pl_next p) (pieces ?p fl)"
  proof (rule exactly_cong)
    show "exactly (pl_cursor p) (pl_next p) (pieces p ((a, u) # fl))" using p by (simp add: plan_ok_def)
    show "cover n (pieces ?p fl) = cover n (pieces p ((a, u) # fl))" for n
      using m by (auto simp: pieces_def cover_kv_put [OF fb(2)] m_def)
  qed
  moreover have "run_above a m es" using r by (simp add: run_above_def m_def)
  then have "\<forall>(b, fs)\<in>set (kv_put a es (pl_buffered p)). run_above b (b + length fs) fs"
    using p set_kv_put_new [of a es "pl_buffered p"] by (auto simp: plan_ok_def m_def)
  ultimately show ?thesis using p by (auto simp: plan_ok_def)
qed

text \<open>A ready chunk starts exactly at the cursor; applying it moves the cursor to its last event.\<close>

lemma plan_drain:
  assumes p: "plan_ok p fl" and b: "pl_buffered p = (a, es) # rest" and a: "a \<le> pl_cursor p"
  defines "m \<equiv> max (pl_cursor p) (ev_seq (last es))"
  shows "a = pl_cursor p \<and> ev_seq (last es) = a + length es \<and> pl_cursor p < m \<and>
     plan_ok (p\<lparr>pl_buffered := rest, pl_cursor := m, pl_next := max (pl_next p) m\<rparr>) fl"
proof -
  have r: "run_above a (a + length es) es" using p b by (auto simp: plan_ok_def)
  then have l: "ev_seq (last es) = a + length es" and ne: "es \<noteq> []" by (rule run_above_last) (use r in \<open>simp add: run_above_def\<close>)
  have ex: "exactly (pl_cursor p) (pl_next p) (pieces p fl)" using p by (simp add: plan_ok_def)
  have "(a, a + length es) \<in> set (pieces p fl)" by (simp add: pieces_def b)
  from exactly_within [OF ex this] ne a have ac: "a = pl_cursor p" "a + length es \<le> pl_next p" by auto
  have m: "m = a + length es" using ac by (simp add: m_def l)
  have "exactly (pl_cursor p) (pl_next p) ((pl_cursor p, m) # pl_retry p @ fl @ spans rest)"
    by (rule exactly_cong [OF ex]) (simp add: pieces_def b m ac)
  then have "exactly m (pl_next p) (pl_retry p @ fl @ spans rest)"
    by (rule exactly_shift) (use ac m in auto)
  moreover have "max (pl_next p) m = pl_next p" using ac m by simp
  moreover have "kv_inv rest" using p b by (simp add: plan_ok_def kv_inv_Cons)
  ultimately show ?thesis using p b ac l m ne by (auto simp: plan_ok_def pieces_def)
qed

section \<open>The planner as a state machine\<close>

definition flight_of :: "string \<Rightarrow> range_ask list \<Rightarrow> (nat \<times> nat) list" where
  "flight_of o' F = map (\<lambda>a. (ra_after a, ra_until a)) (filter (\<lambda>a. ra_origin a = o') F)"

text \<open>
  The engine's use of the planner; the second component is the list of asks in flight, in any
  order. An
  origin is enrolled afresh only when none of its asks is still in flight (the last
  section shows what happens otherwise), and replies are honest runs of the ask.
\<close>

inductive plan_step :: "catchup \<times> range_ask list \<Rightarrow> catchup \<times> range_ask list \<Rightarrow> bool" where
  enroll: "cu_origins c o' \<noteq> None \<or> flight_of o' F = [] \<Longrightarrow> cursor \<le> target \<Longrightarrow> target + CHUNK_EVENTS < 2 ^ 64 \<Longrightarrow>
    plan_step (c, F) (snd (enroll o' g cursor target c), F)"
| dispatch: "next_ask order c = Some (ask, c') \<Longrightarrow> plan_step (c, F) (c', ask # F)"
| unpick: "ask \<in> set F \<Longrightarrow> plan_step (c, F) (unpick ask c, remove1 ask F)"
| complete: "ask \<in> set F \<Longrightarrow> run_above (ra_after ask) (ra_until ask) es \<Longrightarrow>
    plan_step (c, F) (complete (ra_origin ask) (ra_after ask) (ra_until ask) es c, remove1 ask F)"
| strike: "ask \<in> set F \<Longrightarrow>
    plan_step (c, F) (snd (strike (ra_origin ask) (ra_after ask) (ra_until ask) c), remove1 ask F)"
| drain: "take_ready o' c = Some ((g, es), c') \<Longrightarrow> plan_step (c, F) (applied o' (ev_seq (last es)) c', F)"
| abandon: "plan_step (c, F) (drop_origin o' c, F)"
| reorder: "mset F' = mset F \<Longrightarrow> plan_step (c, F) (c, F')"

inductive plan_reach :: "catchup \<times> range_ask list \<Rightarrow> bool" where
  start: "plan_reach (catchup_default, [])"
| step: "plan_reach s \<Longrightarrow> plan_step s s' \<Longrightarrow> plan_reach s'"

definition catchup_ok :: "catchup \<times> range_ask list \<Rightarrow> bool" where
  "catchup_ok s \<longleftrightarrow> cu_inflight (fst s) = length (snd s) \<and> length (snd s) \<le> ENGINE_WINDOW \<and>
     (\<forall>o' p. cu_origins (fst s) o' = Some p \<longrightarrow> plan_ok p (flight_of o' (snd s)))"

lemma flight_Cons [simp]:
  "flight_of o' (ask # F) = (if ra_origin ask = o' then (ra_after ask, ra_until ask) # flight_of o' F else flight_of o' F)"
  by (simp add: flight_of_def)

lemma flight_Nil [simp]: "flight_of o' [] = []"
  by (simp add: flight_of_def)

text \<open>The order of the asks in flight does not matter, so a landing ask may be taken as the first.\<close>

lemma plan_ok_perm:
  assumes p: "plan_ok p fl" and m: "mset fl' = mset fl"
  shows "plan_ok p fl'"
proof (rule plan_ok_move [OF p])
  have "set fl' = set fl" using m by (metis set_mset_mset)
  then show "\<forall>(a, u)\<in>set (pl_retry p) \<union> set fl'. a < u" using p by (simp add: plan_ok_def)
  have "cover n fl' = size (filter_mset (\<lambda>(a, u). a < n \<and> n \<le> u) (mset fl'))" for n
    by (simp add: cover_def mset_filter [symmetric] del: mset_filter)
  moreover have "cover n fl = size (filter_mset (\<lambda>(a, u). a < n \<and> n \<le> u) (mset fl))" for n
    by (simp add: cover_def mset_filter [symmetric] del: mset_filter)
  ultimately show "cover n (pl_retry p @ fl') = cover n (pl_retry p @ fl)" for n by (simp add: m)
qed simp_all

lemma catchup_ok_perm:
  assumes "catchup_ok (c, F)" and m: "mset F' = mset F"
  shows "catchup_ok (c, F')"
proof -
  have "mset (flight_of o' F') = mset (flight_of o' F)" for o'
    unfolding flight_of_def mset_map mset_filter m by (rule refl)
  moreover have "length F' = length F" using m by (metis size_mset)
  ultimately show ?thesis using assms(1) plan_ok_perm unfolding catchup_ok_def fst_conv snd_conv by metis
qed

lemma landing: "catchup_ok (c, F) \<Longrightarrow> ask \<in> set F \<Longrightarrow> catchup_ok (c, ask # remove1 ask F)"
  by (rule catchup_ok_perm) simp_all

text \<open>The counter and the plan of one origin change, the others stay.\<close>

lemma catchup_okI:
  assumes "cu_inflight c' = length F'" "length F' \<le> ENGINE_WINDOW"
    and "\<And>a p. cu_origins c' a = Some p \<Longrightarrow> plan_ok p (flight_of a F')"
  shows "catchup_ok (c', F')"
  using assms by (simp add: catchup_ok_def)

lemma put_plan_simps [simp]:
  "cu_inflight (put_plan o' p c) = cu_inflight c" "cu_origins (put_plan o' p c) = (cu_origins c)(o' \<mapsto> p)"
  "cu_inflight (landed c) = cu_inflight c - 1" "cu_origins (landed c) = cu_origins c"
  "cu_inflight (drop_origin o' c) = cu_inflight c" "cu_origins (drop_origin o' c) = (cu_origins c)(o' := None)"
  by (simp_all add: put_plan_def landed_def drop_origin_def)

lemma catchup_okD:
  "catchup_ok (c, F) \<Longrightarrow> cu_inflight c = length F \<and> length F \<le> ENGINE_WINDOW"
  "catchup_ok (c, F) \<Longrightarrow> cu_origins c o' = Some p \<Longrightarrow> plan_ok p (flight_of o' F)"
  by (simp_all add: catchup_ok_def)

lemma enroll_ok:
  assumes ok: "catchup_ok (c, F)" and fresh: "cu_origins c o' \<noteq> None \<or> flight_of o' F = []"
    and b: "cursor \<le> target" "target + CHUNK_EVENTS < 2 ^ 64"
  shows "catchup_ok (snd (enroll o' g cursor target c), F)"
proof (rule catchup_okI)
  let ?c = "snd (enroll o' g cursor target c)"
  show "cu_inflight ?c = length F" "length F \<le> ENGINE_WINDOW"
    using catchup_okD(1) [OF ok] by (auto simp: enroll_def Let_def)
  fix a p assume p: "cu_origins ?c a = Some p"
  define q where "q = (case cu_origins c o' of Some p \<Rightarrow> p | None \<Rightarrow> new_plan g cursor)"
  have e: "enroll o' g cursor target c = (if pl_generation q \<noteq> g then (False, drop_origin o' c)
      else if max (pl_target q) target > sat_add64 (pl_cursor q) JOURNAL_BACKSTOP then (False, drop_origin o' c)
      else (True, put_plan o' (q\<lparr>pl_target := max (pl_target q) target\<rparr>) c))"
    by (simp add: enroll_def q_def [symmetric] Let_def)
  consider "cu_origins c a = Some p" | "a = o'" "p = q\<lparr>pl_target := max (pl_target q) target\<rparr>"
    using p unfolding e by (cases "a = o'") (auto split: if_splits)
  then show "plan_ok p (flight_of a F)"
  proof cases
    case 2
    show ?thesis
    proof (cases "cu_origins c o'")
      case None
      then have "q = new_plan g cursor" "flight_of o' F = []" using fresh by (auto simp: q_def)
      moreover have "max (pl_target (new_plan g cursor)) target = target" using b by (simp add: new_plan_def)
      ultimately show ?thesis using plan_ok_new [OF b(2,1)] by (simp add: 2)
    next
      case (Some r)
      then show ?thesis using plan_ok_raise [OF catchup_okD(2) [OF ok Some] b(2)] by (simp add: 2 q_def)
    qed
  qed (rule catchup_okD(2) [OF ok])
qed

lemma next_ask_in_some:
  "next_ask_in order c = Some (ask, c') \<Longrightarrow>
   \<exists>p p'. cu_origins c (ra_origin ask) = Some p \<and> plan_ask p = Some ((ra_after ask, ra_until ask), p') \<and>
     ra_generation ask = pl_generation p' \<and> ra_origin ask \<in> set order \<and>
     c' = (put_plan (ra_origin ask) p' c)\<lparr>cu_inflight := cu_inflight c + 1\<rparr>"
proof (induction order c rule: next_ask_in.induct)
  case (2 o' order c)
  show ?case
  proof (cases "Option.bind (cu_origins c o') plan_ask")
    case None
    then show ?thesis using 2 by auto
  next
    case (Some r)
    then obtain p where "cu_origins c o' = Some p" "plan_ask p = Some r" by (auto simp: bind_eq_Some_conv)
    then show ?thesis using 2(2) Some by (cases r) auto
  qed
qed simp

lemma next_ask_in_none: "next_ask_in order c = None \<longleftrightarrow> \<not> has_work order c"
proof (induction order c rule: next_ask_in.induct)
  case (2 o' order c)
  have "plan_ask p = None \<longleftrightarrow> \<not> (pl_retry p \<noteq> [] \<or> pl_next p < pl_target p)" for p
    by (simp add: plan_ask_def Let_def split: list.split)
  then have a: "Option.bind (cu_origins c o') plan_ask = None \<longleftrightarrow>
      \<not> (case cu_origins c o' of None \<Rightarrow> False | Some p \<Rightarrow> pl_retry p \<noteq> [] \<or> pl_next p < pl_target p)"
    by (simp split: option.split)
  show ?case
  proof (cases "Option.bind (cu_origins c o') plan_ask")
    case None
    then show ?thesis using 2 a by (simp add: has_work_def)
  next
    case (Some r)
    then have "has_work (o' # order) c" using a by (simp add: has_work_def)
    then show ?thesis using Some by (cases r) auto
  qed
qed (simp add: has_work_def)

lemma dispatch_ok:
  assumes ok: "catchup_ok (c, F)" and ask: "next_ask order c = Some (ask, c')"
  shows "catchup_ok (c', ask # F)"
proof (rule catchup_okI)
  have room: "cu_inflight c < ENGINE_WINDOW" and "next_ask_in order c = Some (ask, c')"
    using ask by (auto simp: next_ask_def split: if_splits)
  then obtain p p' where p: "cu_origins c (ra_origin ask) = Some p" "plan_ask p = Some ((ra_after ask, ra_until ask), p')"
     "c' = (put_plan (ra_origin ask) p' c)\<lparr>cu_inflight := cu_inflight c + 1\<rparr>"
    using next_ask_in_some by blast
  show "cu_inflight c' = length (ask # F)" "length (ask # F) \<le> ENGINE_WINDOW"
    using room catchup_okD(1) [OF ok] by (auto simp: p(3))
  fix a q assume q: "cu_origins c' a = Some q"
  show "plan_ok q (flight_of a (ask # F))"
  proof (cases "a = ra_origin ask")
    case True
    then show ?thesis using q plan_ask_ok [OF catchup_okD(2) [OF ok p(1)] p(2)] by (simp add: p(3))
  next
    case False
    then show ?thesis using q catchup_okD(2) [OF ok] by (simp add: p(3))
  qed
qed

text \<open>A landing ask: the plan of its origin is replaced by one that is right without it.\<close>

lemma landed_ok:
  assumes ok: "catchup_ok (c, F)" and ask: "ask \<in> set F"
    and c': "cu_inflight c' = cu_inflight c - 1" "\<And>a. a \<noteq> ra_origin ask \<Longrightarrow> cu_origins c' a = cu_origins c a"
      "cu_origins c (ra_origin ask) = None \<Longrightarrow> cu_origins c' (ra_origin ask) = None"
    and p: "\<And>p q fl. cu_origins c (ra_origin ask) = Some p \<Longrightarrow> cu_origins c' (ra_origin ask) = Some q \<Longrightarrow>
        plan_ok p ((ra_after ask, ra_until ask) # fl) \<Longrightarrow> plan_ok q fl"
  shows "catchup_ok (c', remove1 ask F)"
proof (rule catchup_okI)
  have l: "catchup_ok (c, ask # remove1 ask F)" by (rule landing [OF ok ask])
  show "cu_inflight c' = length (remove1 ask F)" "length (remove1 ask F) \<le> ENGINE_WINDOW"
    using catchup_okD(1) [OF l] c'(1) by auto
  fix a q assume q: "cu_origins c' a = Some q"
  show "plan_ok q (flight_of a (remove1 ask F))"
  proof (cases "a = ra_origin ask")
    case True
    then obtain r where r: "cu_origins c (ra_origin ask) = Some r" using q c'(3) by (cases "cu_origins c (ra_origin ask)") auto
    then show ?thesis using p [OF r] q True catchup_okD(2) [OF l r] by simp
  next
    case False
    then show ?thesis using q c'(2) catchup_okD(2) [OF l, of a q] by simp
  qed
qed

theorem plan_step_ok:
  assumes "plan_step s s'" and "catchup_ok s"
  shows "catchup_ok s'"
  using assms
proof cases
  case (enroll c o' F cursor target g)
  then show ?thesis using enroll_ok [of c F o' cursor target g] assms(2) by simp
next
  case (dispatch order c ask c' F)
  then show ?thesis using dispatch_ok [of c F] assms(2) by simp
next
  case (unpick ask F c)
  show ?thesis unfolding unpick
    by (rule landed_ok [of c F]) (use unpick assms(2) in \<open>auto simp: unpick_def plan_retry_front split: option.splits\<close>)
next
  case (complete ask F es c)
  have last: "es \<noteq> []" "ev_seq (last es) = ra_after ask + length es"
    using complete(4) run_above_last by (auto simp: run_above_def)
  have "catchup_ok (complete (ra_origin ask) (ra_after ask) (ra_until ask) es c, remove1 ask F)"
  proof (rule landed_ok [of c F])
    fix p q fl assume p: "cu_origins c (ra_origin ask) = Some p" "plan_ok p ((ra_after ask, ra_until ask) # fl)"
      and q: "cu_origins (complete (ra_origin ask) (ra_after ask) (ra_until ask) es c) (ra_origin ask) = Some q"
    then show "plan_ok q fl"
      using plan_complete [OF p(2) complete(4)] last by (auto simp: complete_def Let_def split: if_splits)
  qed (use complete assms(2) in \<open>auto simp: complete_def Let_def split: option.splits\<close>)
  then show ?thesis by (simp add: complete)
next
  case (strike ask F c)
  show ?thesis unfolding strike
    by (rule landed_ok [of c F]) (use strike assms(2) in \<open>auto simp: strike_def Let_def plan_retry_back split: option.splits\<close>)
next
  case (drain o' c g es c' F)
  obtain p after rest where p: "cu_origins c o' = Some p" "pl_buffered p = (after, es) # rest" "after \<le> pl_cursor p"
     "c' = put_plan o' (p\<lparr>pl_buffered := rest\<rparr>) c"
    using drain(3) by (auto simp: take_ready_def split: option.splits list.splits if_splits)
  have ok: "catchup_ok (c, F)" using drain assms(2) by simp
  show ?thesis unfolding drain(2)
  proof (rule catchup_okI)
    fix a q assume "cu_origins (applied o' (ev_seq (last es)) c') a = Some q"
    then show "plan_ok q (flight_of a F)"
      using plan_drain [OF catchup_okD(2) [OF ok p(1)] p(2,3)] catchup_okD(2) [OF ok]
      by (auto simp: applied_def p(4) Let_def split: if_splits)
  qed (use catchup_okD(1) [OF ok] in \<open>auto simp: applied_def p(4) Let_def split: option.split\<close>)
next
  case (abandon c F o')
  then show ?thesis using assms(2) by (auto simp: catchup_ok_def split: if_splits)
next
  case (reorder F' F c)
  then show ?thesis using assms(2) catchup_ok_perm by simp
qed

lemma plan_reach_ok: "plan_reach s \<Longrightarrow> catchup_ok s"
proof (induction rule: plan_reach.induct)
  case start
  show ?case by (simp add: catchup_ok_def catchup_default_def)
next
  case (step s s')
  then show ?case using plan_step_ok by blast
qed

section \<open>What the planner guarantees\<close>


text \<open>A run of the planner for the witnesses: one origin, two asks, the second lands first.\<close>

definition wit_events :: "nat \<Rightarrow> nat \<Rightarrow> event list" where
  "wit_events a k = map (\<lambda>q. \<lparr>ev_seq = q, ev_op = None\<rparr>) [Suc a..<Suc (a + k)]"

definition wit_ask :: "nat \<Rightarrow> nat \<Rightarrow> range_ask" where
  "wit_ask a u = \<lparr>ra_origin = ''a'', ra_generation = 1, ra_after = a, ra_until = u\<rparr>"

definition wit_plan :: "nat \<Rightarrow> (nat, event list) kv \<Rightarrow> origin_plan" where
  "wit_plan next b = \<lparr>pl_generation = 1, pl_cursor = 0, pl_next = next, pl_target = 4100, pl_buffered = b,
     pl_retry = [], pl_strikes = 0\<rparr>"

lemma run_wit_events: "0 < k \<Longrightarrow> a + k \<le> u \<Longrightarrow> run_above a u (wit_events a k)"
  by (simp add: run_above_def wit_events_def comp_def del: upt_Suc)

lemma wit_reach:
  "plan_reach (\<lparr>cu_origins = [''a'' \<mapsto> wit_plan 4100 [(4096, wit_events 4096 4)]], cu_inflight = 1\<rparr>, [wit_ask 0 4096])"
proof -
  let ?c = "\<lambda>n b k. \<lparr>cu_origins = [''a'' \<mapsto> wit_plan n b], cu_inflight = k\<rparr>"
  note defs = wit_plan_def wit_ask_def put_plan_def CHUNK_EVENTS_def ENGINE_WINDOW_def
  have "plan_step (catchup_default, []) (?c 0 [] 0, [])"
    using plan_step.enroll [of catchup_default "''a''" "[]" 0 4100 1]
    by (simp add: defs enroll_def catchup_default_def new_plan_def sat_add64_small JOURNAL_BACKSTOP_def)
  then have 0: "plan_reach (?c 0 [] 0, [])" by (rule plan_reach.step [OF plan_reach.start])
  have "plan_step (?c 0 [] 0, []) (?c 4096 [] 1, [wit_ask 0 4096])"
    using plan_step.dispatch [of "[''a'']" "?c 0 [] 0" "wit_ask 0 4096" "?c 4096 [] 1" "[]"]
    by (simp add: defs next_ask_def plan_ask_def)
  from plan_reach.step [OF 0 this] have 1: "plan_reach (?c 4096 [] 1, [wit_ask 0 4096])" .
  have "plan_step (?c 4096 [] 1, [wit_ask 0 4096]) (?c 4100 [] 2, [wit_ask 4096 4100, wit_ask 0 4096])"
    using plan_step.dispatch [of "[''a'']" "?c 4096 [] 1" "wit_ask 4096 4100" "?c 4100 [] 2" "[wit_ask 0 4096]"]
    by (simp add: defs next_ask_def plan_ask_def)
  from plan_reach.step [OF 1 this] have 2: "plan_reach (?c 4100 [] 2, [wit_ask 4096 4100, wit_ask 0 4096])" .
  have r: "run_above 4096 4100 (wit_events 4096 4)" by (rule run_wit_events) simp_all
  have l: "ev_seq (last (wit_events 4096 4)) = 4100" "wit_events 4096 4 \<noteq> []"
    using run_above_last [OF r] r by (simp_all add: wit_events_def run_above_def del: upt_Suc)
  have "complete ''a'' 4096 4100 (wit_events 4096 4) (?c 4100 [] 2) = ?c 4100 [(4096, wit_events 4096 4)] 1"
    by (simp add: complete_def l landed_def defs)
  then have "plan_step (?c 4100 [] 2, [wit_ask 4096 4100, wit_ask 0 4096]) (?c 4100 [(4096, wit_events 4096 4)] 1, [wit_ask 0 4096])"
    using plan_step.complete [of "wit_ask 4096 4100" "[wit_ask 4096 4100, wit_ask 0 4096]" "wit_events 4096 4" "?c 4100 [] 2"] r
    by (simp add: wit_ask_def)
  from plan_reach.step [OF 2 this] show ?thesis .
qed






section \<open>Replies that outlive their plan\<close>

text \<open>
  An ask stays in flight when its plan is dropped, and \<open>complete\<close> files a reply under the
  plan the origin has when it lands: only the ask's generation is compared with the reply's.
\<close>

lemma last_wit_events: "0 < k \<Longrightarrow> ev_seq (last (wit_events a k)) = a + k \<and> wit_events a k \<noteq> []"
  using run_above_last [OF run_wit_events [of k a "a + k"]] by (simp add: wit_events_def del: upt_Suc)

definition late_reply_run :: catchup where
  "late_reply_run =
     (let (ask, c) = the (next_ask [''a''] (snd (enroll ''a'' 1 0 10 catchup_default)));
          c = snd (enroll ''a'' 2 0 10 c);
          c = snd (enroll ''a'' 2 0 10 c)
      in complete ''a'' (ra_after ask) (ra_until ask) (wit_events 0 10) c)"


text \<open>
  The second run: the asks \<open>(0, 4096]\<close> and \<open>(4096, 4146]\<close> are sent, the first fails three
  times and the origin is dropped; enrolled again to 8192, its new asks \<open>(0, 4096]\<close> and
  \<open>(4096, 8192]\<close> are answered in full, and the old second ask lands in between.
\<close>

definition strike_once :: "catchup \<Rightarrow> catchup" where
  "strike_once c = (let (ask, c) = the (next_ask [''a''] c) in snd (strike (ra_origin ask) (ra_after ask) (ra_until ask) c))"

definition struck_out :: catchup where
  "struck_out =
     (let (a1, c) = the (next_ask [''a''] (snd (enroll ''a'' 1 0 4146 catchup_default)));
          (stale, c) = the (next_ask [''a''] c);
          c = snd (strike ''a'' (ra_after a1) (ra_until a1) c)
      in drop_origin ''a'' (strike_once (strike_once c)))"

definition stranded_run :: catchup where
  "stranded_run =
     (let (a1, c) = the (next_ask [''a''] (snd (enroll ''a'' 1 0 8192 struck_out)));
          (a2, c) = the (next_ask [''a''] c);
          c = complete ''a'' (ra_after a2) (ra_until a2) (wit_events (ra_after a2) 4096) c;
          c = complete ''a'' 4096 4146 (wit_events 4096 50) c;
          c = complete ''a'' (ra_after a1) (ra_until a1) (wit_events (ra_after a1) 4096) c;
          c = applied ''a'' 4096 (snd (the (take_ready ''a'' c)))
      in applied ''a'' 4146 (snd (the (take_ready ''a'' c))))"


end
