(* ===== verification/Sync.thy ===== *)
theory Sync
  imports Catchup
begin

text \<open>
  The synchronisation subsystem of a node (\<open>src/sync.rs\<close>): origin leases, the pull round
  and its loop, the two request handlers, the exporter's gate. The state of a node is the
  store with the bookkeeping around it; an action returns its result or an error together
  with the state it leaves, since what was committed before an error stays. A peer is a
  function from a request to its answer, None for a transport failure; the monotonic clock
  (nanoseconds) and the wall clock are arguments. Two channels with one slot (hints, the
  reconcile ping) are flags, the channel to the catch-up engine is a list. The throughput
  pool that a pull trains is theory \<open>Pool\<close>; it decides no result here.
\<close>

section \<open>Messages and state\<close>

record sync_response =
  sp_responder :: string
  sp_origins :: "origin_update list"
  sp_attests :: "attestation list"
  sp_atts_truncated :: bool
  sp_atts_next :: bytes
  sp_ranges :: "range_reply list"
  sp_fact_root :: bytes
  sp_merkle :: "merkle_node list"

datatype sync_err = StoreErr err | PullFailed | Misnamed string string | NoMerkleAnswer

datatype holder = PeerLoop nat | Engine

record lease =
  ls_holder :: holder
  ls_at :: nat

record enroll_msg =
  en_origin :: string
  en_generation :: nat
  en_target :: nat

record sync_stats =
  pulls_ok :: nat
  pulls_err :: nat
  suffix_events_applied :: nat
  snapshots_applied :: nat
  self_generation_bumps :: nat
  hints_received :: nat
  hint_rounds_sent :: nat
  exports :: nat
  export_events :: nat
  sync_requests_served :: nat

text \<open>The additions watermark of the differ and the time of the last full reconciliation.\<close>

record diff_state =
  df_max_id :: int
  df_last_full :: nat

record 's sync =
  sy_store :: 's
  sy_last_compact :: "nat option"
  sy_nosub :: "string \<rightharpoonup> bool"
  sy_leases :: "string \<rightharpoonup> lease"
  sy_roots :: "nat \<Rightarrow> bytes"
  sy_reconcile :: bool
  sy_enrolls :: "enroll_msg list"
  sy_kicks :: "nat set"
  sy_hint :: bool
  sy_diff :: "diff_state option"
  sy_data_version :: int
  sy_stats :: sync_stats

definition LEASE_TTL :: nat where "LEASE_TTL = 150 * 10 ^ 9"
definition MAX_ROUNDS :: nat where "MAX_ROUNDS = 64"

definition sync_new :: "'s \<Rightarrow> 's sync" where
  "sync_new s = \<lparr>sy_store = s, sy_last_compact = None, sy_nosub = Map.empty, sy_leases = Map.empty, sy_roots = (\<lambda>_. []),
     sy_reconcile = False, sy_enrolls = [], sy_kicks = {}, sy_hint = False, sy_diff = None, sy_data_version = - (2 ^ 63),
     sy_stats = \<lparr>pulls_ok = 0, pulls_err = 0, suffix_events_applied = 0, snapshots_applied = 0, self_generation_bumps = 0,
       hints_received = 0, hint_rounds_sent = 0, exports = 0, export_events = 0, sync_requests_served = 0\<rparr>\<rparr>"

section \<open>Actions\<close>

type_synonym ('s, 'a) act = "'s sync \<Rightarrow> (sync_err + 'a) \<times> 's sync"

definition aret :: "'a \<Rightarrow> ('s, 'a) act" where "aret x st = (Inr x, st)"
definition afail :: "sync_err \<Rightarrow> ('s, 'a) act" where "afail e st = (Inl e, st)"

definition abind :: "('s, 'a) act \<Rightarrow> ('a \<Rightarrow> ('s, 'b) act) \<Rightarrow> ('s, 'b) act" where
  "abind m k st = (case m st of (Inl e, st') \<Rightarrow> (Inl e, st') | (Inr x, st') \<Rightarrow> k x st')"

definition amodify :: "('s sync \<Rightarrow> 's sync) \<Rightarrow> ('s, unit) act" where
  "amodify f st = (Inr (), f st)"

text \<open>An operation of the index that reads, and one that commits.\<close>

definition aread :: "('s \<Rightarrow> 'a res) \<Rightarrow> ('s, 'a) act" where
  "aread f st = (case f (sy_store st) of Inl e \<Rightarrow> (Inl (StoreErr e), st) | Inr x \<Rightarrow> (Inr x, st))"

definition acommit :: "('s \<Rightarrow> ('a \<times> 's) res) \<Rightarrow> ('s, 'a) act" where
  "acommit f st = (case f (sy_store st) of Inl e \<Rightarrow> (Inl (StoreErr e), st)
     | Inr (x, s') \<Rightarrow> (Inr x, st\<lparr>sy_store := s'\<rparr>))"

definition awrite :: "('s \<Rightarrow> 's res) \<Rightarrow> ('s, unit) act" where
  "awrite f = acommit (\<lambda>s. bindr (f s) (\<lambda>s'. Inr ((), s')))"

fun aeach :: "('a \<Rightarrow> 'b \<Rightarrow> ('s, 'b) act) \<Rightarrow> 'a list \<Rightarrow> 'b \<Rightarrow> ('s, 'b) act" where
  "aeach f [] b = aret b"
| "aeach f (x # xs) b = abind (f x b) (aeach f xs)"

abbreviation bump_stat :: "((nat \<Rightarrow> nat) \<Rightarrow> sync_stats \<Rightarrow> sync_stats) \<Rightarrow> nat \<Rightarrow> 's sync \<Rightarrow> 's sync" where
  "bump_stat upd n st \<equiv> st\<lparr>sy_stats := upd (\<lambda>k. add64 k n) (sy_stats st)\<rparr>"

definition hint_peers :: "'s sync \<Rightarrow> 's sync" where
  "hint_peers st = st\<lparr>sy_hint := True\<rparr>"

section \<open>Leases\<close>

text \<open>One origin of the request: the skip list so far and the leases.\<close>

fun claim_one :: "nat \<Rightarrow> nat \<Rightarrow> origin_clock \<Rightarrow> string list \<times> (string \<rightharpoonup> lease) \<Rightarrow> string list \<times> (string \<rightharpoonup> lease)" where
  "claim_one now idx c (skip, leases) =
     (case leases (oc_origin c) of
        None \<Rightarrow> (skip, leases(oc_origin c \<mapsto> \<lparr>ls_holder = PeerLoop idx, ls_at = now\<rparr>))
      | Some l \<Rightarrow>
          if ls_holder l = Engine then (skip @ [oc_origin c], leases)
          else if ls_holder l = PeerLoop idx then (skip, leases(oc_origin c \<mapsto> l\<lparr>ls_at := now\<rparr>))
          else if now - ls_at l < LEASE_TTL then (skip @ [oc_origin c], leases)
          else (skip, leases(oc_origin c \<mapsto> \<lparr>ls_holder = PeerLoop idx, ls_at = now\<rparr>)))"

definition claim_origins :: "nat \<Rightarrow> nat \<Rightarrow> origin_clock list \<Rightarrow> (string \<rightharpoonup> lease) \<Rightarrow> string list \<times> (string \<rightharpoonup> lease)" where
  "claim_origins now idx hv leases = fold (claim_one now idx) hv ([], leases)"

definition release_peer :: "nat \<Rightarrow> (string \<rightharpoonup> lease) \<Rightarrow> (string \<rightharpoonup> lease)" where
  "release_peer idx leases =
     (\<lambda>o'. case leases o' of Some l \<Rightarrow> if ls_holder l = PeerLoop idx then None else Some l | None \<Rightarrow> None)"

text \<open>An advertised clock: origin, generation, sequence number, and whether a real backlog is left.\<close>

type_synonym advert = "string \<times> nat \<times> nat \<times> bool"

fun settle_one :: "nat \<Rightarrow> advert \<Rightarrow> (string \<rightharpoonup> lease) \<times> enroll_msg list \<Rightarrow> (string \<rightharpoonup> lease) \<times> enroll_msg list" where
  "settle_one now (o', g, q, fresh_backlog) (leases, enrolls) =
     (let engine_held = (map_option ls_holder (leases o') = Some Engine);
          leases = (if fresh_backlog then leases(o' \<mapsto> \<lparr>ls_holder = Engine, ls_at = now\<rparr>) else leases)
      in (leases, if fresh_backlog \<or> engine_held
                  then enrolls @ [\<lparr>en_origin = o', en_generation = g, en_target = q\<rparr>] else enrolls))"

definition settle_leases :: "nat \<Rightarrow> nat \<Rightarrow> advert list \<Rightarrow> 's sync \<Rightarrow> 's sync" where
  "settle_leases now idx adv st =
     (let (leases, enrolls) = fold (settle_one now) adv (release_peer idx (sy_leases st), [])
      in st\<lparr>sy_leases := leases, sy_enrolls := sy_enrolls st @ enrolls\<rparr>)"

definition unenroll :: "index_cfg \<Rightarrow> string \<Rightarrow> 's sync \<Rightarrow> 's sync" where
  "unenroll I o' st = st\<lparr>sy_leases := (sy_leases st)(o' := None), sy_kicks := {..<length (ix_peers I)}\<rparr>"

section \<open>One pull round\<close>

text \<open>\<open>idx\<close> is the position of the peer in the configured list, \<open>ix_peers\<close>.\<close>

definition round_request :: "'s store_ops \<Rightarrow> index_cfg \<Rightarrow> nat \<Rightarrow> nat \<Rightarrow> ('s, sync_request) act" where
  "round_request ops I now idx =
     abind (aread (clock_vector ops I)) (\<lambda>hv.
     abind (\<lambda>st. let (skip, leases) = claim_origins now idx hv (sy_leases st)
                 in (Inr skip, st\<lparr>sy_leases := leases\<rparr>)) (\<lambda>skip.
     abind (aread (dump_cursor ops (ix_peers I ! idx))) (\<lambda>cursor.
       aret \<lparr>sr_requester = ix_self I, sr_have = hv, sr_atts_cursor = cursor, sr_skip_origins = skip,
             sr_ranges = [], sr_merkle = []\<rparr>)))"

definition is_snapshot :: "origin_update \<Rightarrow> bool" where
  "is_snapshot u \<longleftrightarrow> (case ou_body u of Some (Snapshot _) \<Rightarrow> True | _ \<Rightarrow> False)"

text \<open>Facts first, then the cursor of the dump, then the origins.\<close>

definition round_facts :: "'s store_ops \<Rightarrow> sync_response \<Rightarrow> ('s, bool) act" where
  "round_facts ops resp =
     (if sp_attests resp = [] then aret False
      else abind (acommit (merge_attests ops (sp_attests resp))) (\<lambda>n. aret (n > 0)))"

definition next_cursor :: "sync_response \<Rightarrow> bytes" where
  "next_cursor resp =
     (if list_ex is_snapshot (sp_origins resp) then DUMP_RESTART
      else if sp_atts_truncated resp then sp_atts_next resp else [])"

definition park_cursor :: "'s store_ops \<Rightarrow> index_cfg \<Rightarrow> string \<Rightarrow> sync_request \<Rightarrow> sync_response \<Rightarrow> ('s, unit) act" where
  "park_cursor ops I peer req resp =
     (let has_snapshot = list_ex is_snapshot (sp_origins resp); cursor = next_cursor resp in
      if cursor \<noteq> sr_atts_cursor req \<or> has_snapshot
      then abind (aread (dump_cursor ops peer)) (\<lambda>stored.
           abind (if cursor \<noteq> stored then awrite (set_dump_cursor ops peer cursor) else aret ()) (\<lambda>_.
             if has_snapshot then awrite (restart_all_dumps ops I) else aret ()))
      else aret ())"

text \<open>
  The body of an update of another origin: changed, truncated, suffix events applied,
  snapshot applied, had events.
\<close>

definition apply_body :: "'s store_ops \<Rightarrow> index_cfg \<Rightarrow> origin_update \<Rightarrow> ('s, bool \<times> bool \<times> nat \<times> bool \<times> bool) act" where
  "apply_body ops I u =
     (case ou_body u of
        None \<Rightarrow> aret (False, False, 0, False, False)
      | Some (UpToDate _) \<Rightarrow> aret (False, False, 0, False, False)
      | Some (Suffix es) \<Rightarrow>
          abind (acommit (apply_suffix ops I (ou_origin u) (ou_generation u) es)) (\<lambda>r.
            case r of Applied n \<Rightarrow> aret (n > 0, ou_truncated u, n, False, es \<noteq> [])
                    | NeedSnapshot \<Rightarrow> aret (False, ou_truncated u, 0, False, False))
      | Some (Snapshot held) \<Rightarrow>
          abind (acommit (apply_snapshot ops I (ou_origin u) (ou_generation u) (ou_seq u) held)) (\<lambda>_.
            aret (True, False, 0, True, False)))"

text \<open>A peer that knows a future of our own origin makes us remint our generation.\<close>

definition own_update :: "'s store_ops \<Rightarrow> index_cfg \<Rightarrow> nat \<Rightarrow> origin_update \<Rightarrow> ('s, unit) act" where
  "own_update ops I wall u =
     abind (aread (origin_clock ops (ix_self I))) (\<lambda>(g, q).
       if ou_generation u > g \<or> (ou_generation u = g \<and> ou_seq u > q)
       then abind (acommit (bump_self_generation ops I wall (ou_generation u))) (\<lambda>_.
              amodify (\<lambda>st. hint_peers (bump_stat self_generation_bumps_update 1 st)))
       else aret ())"

fun round_update :: "'s store_ops \<Rightarrow> index_cfg \<Rightarrow> nat \<Rightarrow> origin_update \<Rightarrow> bool \<times> bool \<times> advert list \<Rightarrow>
    ('s, bool \<times> bool \<times> advert list) act" where
  "round_update ops I wall u (changed, truncated, adv) =
     (if ou_origin u = ix_self I then abind (own_update ops I wall u) (\<lambda>_. aret (changed, truncated, adv))
      else if \<not> is_known_origin I (ou_origin u) then aret (changed, truncated, adv)
      else abind (apply_body ops I u) (\<lambda>(ch, tr, n, snap, had).
        let fresh_backlog = (tr \<and> had) in
        abind (amodify (\<lambda>st. let st = bump_stat suffix_events_applied_update n st
                             in if snap then bump_stat snapshots_applied_update 1 st else st)) (\<lambda>_.
          aret (changed \<or> ch, truncated \<or> (tr \<and> \<not> had),
                adv @ [(ou_origin u, ou_generation u, ou_seq u, fresh_backlog)]))))"

text \<open>The result: changed, whether another round is due, the fact root of the responder.\<close>

definition pull_round :: "'s store_ops \<Rightarrow> index_cfg \<Rightarrow> nat \<Rightarrow> nat \<Rightarrow> nat \<Rightarrow> (sync_request \<Rightarrow> sync_response option) \<Rightarrow>
    ('s, bool \<times> bool \<times> bytes) act" where
  "pull_round ops I now wall idx peer =
     abind (round_request ops I now idx) (\<lambda>req.
       case peer req of
         None \<Rightarrow> afail PullFailed
       | Some resp \<Rightarrow>
           if sp_responder resp \<noteq> ix_peers I ! idx then afail (Misnamed (sp_responder resp) (ix_peers I ! idx))
           else abind (round_facts ops resp) (\<lambda>changed.
             abind (park_cursor ops I (ix_peers I ! idx) req resp) (\<lambda>_.
             abind (aeach (round_update ops I wall) (sp_origins resp)
                     (changed, sp_atts_truncated resp \<or> next_cursor resp = DUMP_RESTART, []))
               (\<lambda>(changed, truncated, adv).
             abind (amodify (settle_leases now idx adv)) (\<lambda>_.
               aret (changed, truncated, sp_fact_root resp))))))"

section \<open>The pull\<close>

text \<open>
  The loop over the rounds; \<open>k\<close> counts the rounds left, the peer and the two clocks may
  change from round to round.
\<close>

fun pull_rounds :: "'s store_ops \<Rightarrow> index_cfg \<Rightarrow> nat \<Rightarrow> (nat \<Rightarrow> nat \<times> nat \<times> (sync_request \<Rightarrow> sync_response option)) \<Rightarrow>
    nat \<Rightarrow> bool \<Rightarrow> bytes \<Rightarrow> ('s, bool \<times> bytes) act" where
  "pull_rounds ops I idx env 0 changed root = aret (changed, root)"
| "pull_rounds ops I idx env (Suc k) changed root =
     (case env k of (now, wall, peer) \<Rightarrow>
       abind (pull_round ops I now wall idx peer) (\<lambda>(ch, truncated, root).
         if truncated then pull_rounds ops I idx env k (changed \<or> ch) root else aret (changed \<or> ch, root)))"

definition note_root :: "'s store_ops \<Rightarrow> nat \<Rightarrow> bytes \<Rightarrow> ('s, unit) act" where
  "note_root ops idx root =
     (if root = [] then aret ()
      else abind (aread (fact_root ops)) (\<lambda>ours.
        amodify (\<lambda>st. let st = st\<lparr>sy_roots := (sy_roots st)(idx := root)\<rparr>
                      in if root \<noteq> ours then st\<lparr>sy_reconcile := True\<rparr> else st)))"

definition amaintain :: "'s store_ops \<Rightarrow> index_cfg \<Rightarrow> nat \<Rightarrow> ('s, unit) act" where
  "amaintain ops I now st =
     (case maybe_compact ops I now (sy_last_compact st) (sy_store st) of
        (prev, Inl e) \<Rightarrow> (Inl (StoreErr e), st\<lparr>sy_last_compact := prev\<rparr>)
      | (prev, Inr s') \<Rightarrow> (Inr (), st\<lparr>sy_last_compact := prev, sy_store := s'\<rparr>))"

definition pull_from_inner :: "'s store_ops \<Rightarrow> index_cfg \<Rightarrow> nat \<Rightarrow> (nat \<Rightarrow> nat \<times> nat \<times> (sync_request \<Rightarrow> sync_response option)) \<Rightarrow>
    nat \<Rightarrow> ('s, bool) act" where
  "pull_from_inner ops I idx env now =
     abind (pull_rounds ops I idx env MAX_ROUNDS False []) (\<lambda>(changed, root).
     abind (note_root ops idx root) (\<lambda>_.
     abind (if changed then amaintain ops I now else aret ()) (\<lambda>_. aret changed)))"

definition pull_from :: "'s store_ops \<Rightarrow> index_cfg \<Rightarrow> nat \<Rightarrow> (nat \<Rightarrow> nat \<times> nat \<times> (sync_request \<Rightarrow> sync_response option)) \<Rightarrow>
    nat \<Rightarrow> ('s, bool) act" where
  "pull_from ops I idx env now st =
     (case pull_from_inner ops I idx env now st of
        (Inr r, st') \<Rightarrow> (Inr r, bump_stat pulls_ok_update 1 st')
      | (Inl e, st') \<Rightarrow> (Inl e, bump_stat pulls_err_update 1 (st'\<lparr>sy_leases := release_peer idx (sy_leases st')\<rparr>)))"

section \<open>The handlers\<close>

datatype http_status = Ok200 | BadRequest400 | Forbidden403 | TooLarge413 | Internal500

definition REQUEST_CAP :: nat where "REQUEST_CAP = 2 ^ 20"

definition answer_of :: "index_cfg \<Rightarrow> respond_bundle \<Rightarrow> sync_response" where
  "answer_of I b = \<lparr>sp_responder = ix_self I, sp_origins = rb_origins b, sp_attests = rb_attests b,
     sp_atts_truncated = (rb_atts_next b \<noteq> None),
     sp_atts_next = (case rb_atts_next b of Some k \<Rightarrow> k | None \<Rightarrow> []), sp_ranges = rb_ranges b,
     sp_fact_root = (case rb_fact_root b of Some r \<Rightarrow> r | None \<Rightarrow> []), sp_merkle = rb_merkle b\<rparr>"

definition serve_sync :: "'s store_ops \<Rightarrow> index_cfg \<Rightarrow> nat \<Rightarrow> sync_request \<Rightarrow> ('s, sync_response) act" where
  "serve_sync ops I now req =
     abind (awrite (record_watermarks ops I (sr_requester req) (sr_have req))) (\<lambda>_.
     abind (aread (\<lambda>s. respond ops I s req)) (\<lambda>b.
     abind (amaintain ops I now) (\<lambda>_. aret (answer_of I b))))"

text \<open>\<open>dec\<close> is the protobuf decoder of the request.\<close>

definition handle_sync :: "'s store_ops \<Rightarrow> index_cfg \<Rightarrow> nat \<Rightarrow> (bytes \<Rightarrow> sync_request option) \<Rightarrow> bytes \<Rightarrow> 's sync \<Rightarrow>
    (http_status \<times> sync_response option) \<times> 's sync" where
  "handle_sync ops I now dec body st =
     (if length body > REQUEST_CAP then ((TooLarge413, None), st)
      else case dec body of
        None \<Rightarrow> ((BadRequest400, None), st)
      | Some req \<Rightarrow>
          if sr_requester req = ix_self I \<or> \<not> is_known_origin I (sr_requester req) then ((Forbidden403, None), st)
          else (case serve_sync ops I now req st of
              (Inr resp, st') \<Rightarrow> ((Ok200, Some resp), bump_stat sync_requests_served_update 1 st')
            | (Inl e, st') \<Rightarrow> ((Internal500, None), st')))"

definition idx_of :: "index_cfg \<Rightarrow> string \<Rightarrow> nat option" where
  "idx_of I name = map_of (zip (ix_peers I) [0..<length (ix_peers I)]) name"

definition handle_hint :: "index_cfg \<Rightarrow> (bytes \<Rightarrow> string option) \<Rightarrow> bytes \<Rightarrow> 's sync \<Rightarrow> http_status \<times> 's sync" where
  "handle_hint I dec body st =
     (if length body > 4096 then (TooLarge413, st)
      else case dec body of
        None \<Rightarrow> (BadRequest400, st)
      | Some from \<Rightarrow>
          (Ok200, case idx_of I from of
             None \<Rightarrow> st
           | Some idx \<Rightarrow> (bump_stat hints_received_update 1 st)\<lparr>sy_kicks := insert idx (sy_kicks st)\<rparr>))"

section \<open>The exporter\<close>

text \<open>What the differ reads of the Nix database at one moment.\<close>

record nix_db =
  nd_data_version :: int
  nd_candidates :: "candidate list"
  nd_additions :: "int \<Rightarrow> candidate list \<times> int"
  nd_ids_monotone :: bool

definition i64_max :: int where "i64_max = 2 ^ 63 - 1"

definition full_diff :: "'s store_ops \<Rightarrow> index_cfg \<Rightarrow> nix_env \<Rightarrow> nix_db \<Rightarrow> nat \<Rightarrow> ('s, nat \<times> diff_state) act" where
  "full_diff ops I N D now =
     (let max_id = snd (nd_additions D i64_max) in
      abind (\<lambda>st. acommit (\<lambda>s. bindr (sync_own_db ops I N (nd_candidates D) (sy_nosub st) s) (\<lambda>(n, nosub, s'). Inr ((n, nosub), s'))) st)
      (\<lambda>(n, nosub). abind (amodify (\<lambda>st. st\<lparr>sy_nosub := nosub\<rparr>)) (\<lambda>_.
        aret (n, \<lparr>df_max_id = max_id, df_last_full = now\<rparr>))))"

definition incremental_diff :: "'s store_ops \<Rightarrow> index_cfg \<Rightarrow> nix_env \<Rightarrow> nix_db \<Rightarrow> diff_state \<Rightarrow> ('s, nat \<times> diff_state) act" where
  "incremental_diff ops I N D d =
     (let (cands, max_id) = nd_additions D (df_max_id d) in
      abind (\<lambda>st. acommit (\<lambda>s. bindr (sync_own_db_incremental ops I N cands (sy_nosub st) s) (\<lambda>(n, nosub, s'). Inr ((n, nosub), s'))) st)
      (\<lambda>(n, nosub). abind (amodify (\<lambda>st. st\<lparr>sy_nosub := nosub\<rparr>)) (\<lambda>_.
        aret (n, d\<lparr>df_max_id := max_id\<rparr>))))"

text \<open>
  \<open>db\<close> is None on a node that serves nothing. The version is sampled before the diff and
  stored after it, so a commit during the diff triggers another one.
\<close>

definition export_own_db :: "'s store_ops \<Rightarrow> index_cfg \<Rightarrow> nat \<Rightarrow> nix_env \<Rightarrow> nix_db option \<Rightarrow> nat \<Rightarrow> ('s, nat) act" where
  "export_own_db ops I reconcile_every N db now st =
     (case db of
        None \<Rightarrow> (Inr 0, st)
      | Some D \<Rightarrow>
          let v = nd_data_version D;
              due = (case sy_diff st of Some d \<Rightarrow> now - df_last_full d \<ge> reconcile_every | None \<Rightarrow> True)
          in if \<not> due \<and> v = sy_data_version st then (Inr 0, st)
             else abind
               (case sy_diff st of
                  None \<Rightarrow> full_diff ops I N D now
                | Some d \<Rightarrow> if due then full_diff ops I N D now
                    else if \<not> nd_ids_monotone D then full_diff ops I N D now
                    else incremental_diff ops I N D d)
               (\<lambda>(n, d). abind (amodify (\<lambda>st.
                   let st = st\<lparr>sy_diff := Some d, sy_data_version := v\<rparr>
                   in if n > 0 then bump_stat export_events_update n (bump_stat exports_update 1 st) else st))
                 (\<lambda>_. aret n)) st)"

end
