(* ===== verification/Progress.thy ===== *)
theory Progress
  imports Sync Answers
begin

text \<open>
  A pull makes progress: what an honest responder answers to a request that carries the
  requester's clocks is what the requester can apply, and a round after which no further
  round is due leaves the requester at least at the responder's clock for every origin that
  was not skipped, except those it has handed to the catch-up engine.
\<close>

section \<open>Applying a run\<close>

lemma suffix_ops_run:
  "map ev_seq es = [Suc q..<Suc (q + k)] \<Longrightarrow>
   \<exists>j' h' a'. suffix_ops C es q (j, h, a) = Some (q + k, j', h', a') \<and> length j' = length j + k"
proof (induction es arbitrary: q k j h a)
  case Nil
  then show ?case by (cases k) (auto simp: upt_conv_Cons simp del: upt_Suc)
next
  case (Cons e es)
  then obtain k' where k: "k = Suc k'" by (cases k) auto
  have "[Suc q..<Suc (q + k)] = Suc q # [Suc (Suc q)..<Suc (Suc q + k')]" by (simp add: k upt_conv_Cons del: upt_Suc)
  then have e: "ev_seq e = Suc q" and es: "map ev_seq es = [Suc (Suc q)..<Suc (Suc q + k')]" using Cons.prems by simp_all
  obtain j' h' a' where "suffix_ops C es (Suc q)
       (j @ [(ev_seq e, enc_event C e)],
        h @ (case ev_op e of Some (Have h) \<Rightarrow> if length h = 32 then [HAdd h] else []
             | Some (Drop h) \<Rightarrow> if length h = 32 then [HDrop h] else [] | _ \<Rightarrow> []),
        a @ (case ev_op e of Some (Attest a) \<Rightarrow> if well_formed a then [a] else [] | _ \<Rightarrow> [])) = Some (Suc q + k', j', h', a')"
      "length j' = length (j @ [(ev_seq e, enc_event C e)]) + k'"
    using Cons.IH [OF es] by blast
  then show ?case by (simp add: e k)
qed

lemma suffix_ops_seqs:
  "suffix_ops C es q (j, h, a) = Some (q', j', h', a') \<Longrightarrow> \<forall>x\<in>set j. fst x \<in> X \<Longrightarrow>
   \<forall>x\<in>set j'. fst x \<in> X \<union> ev_seq ` set es"
proof (induction es arbitrary: q j h a X)
  case (Cons e es)
  show ?case
  proof (cases "ev_seq e \<le> q")
    case True
    then show ?thesis using Cons.IH [of q j h a X] Cons.prems by auto
  next
    case False
    then have q: "ev_seq e = q + 1" using Cons.prems(1) by (auto split: if_splits)
    show ?thesis
      using Cons.IH [of "q + 1" "j @ [(q + 1, enc_event C e)]" _ _ "insert (ev_seq e) X"] Cons.prems False q by auto
  qed
qed simp

context sync_store
begin

lemma apply_suffix_run:
  assumes s: "copies_ok T s" and T: "u64_histories T" and ok: "ok_name o'" and codec: "ix_codec I = C"
    and known: "is_known_origin I o'" "o' \<noteq> ix_self I" and es: "true_suffix T o' g es"
    and g: "g = generation (vclock s o')" and run: "map ev_seq es = [Suc (seq (vclock s o'))..<Suc (seq (vclock s o') + k)]" "0 < k"
  shows "\<exists>s'. apply_suffix ops I o' g es s = Inr (Applied k, s') \<and> copies_ok T s' \<and>
     vclock s' = (vclock s)(o' := (vclock s o')\<lparr>seq := seq (vclock s o') + k\<rparr>)"
proof -
  let ?c = "vclock s o'"
  have inv: "inv s" using s by (simp add: copies_ok_def)
  obtain j h a where sops: "suffix_ops C es (seq ?c) ([], [], []) = Some (seq ?c + k, j, h, a)" "length j = k"
    using suffix_ops_run [OF run(1), of C "[]" "[]" "[]"] by auto
  obtain r s' where s': "apply_suffix ops I o' g es s = Inr (r, s')" "copies_ok T s'"
    using apply_suffix_true [OF s T ok codec known es] by blast
  have j: "j \<noteq> []" using sops(2) run(2) by auto
  have app: "bindr (so_apply_events ops s o' (generation ?c, seq ?c) (g, seq ?c + k) j h a)
      (\<lambda>(ok, s'). if \<not> ok then Inr (Applied 0, s') else Inr (Applied (length j), s')) = Inr (r, s')"
    using s'(1) known codec sops(1) j by (simp add: apply_suffix_def clock_read [OF inv ok] g)
  have "es \<noteq> []" using sops(1) run by auto
  then obtain H where H: "T o' g = Some H" "true_events H es" using es by (auto simp: true_suffix_def)
  have gl: "g < 2 ^ 64" "length H < 2 ^ 64" using u64_historiesD [OF T H(1)] by auto
  have e64: "\<forall>e\<in>set es. ev_seq e < 2 ^ 64" using H(2) gl(2) by (auto simp: true_events_def)
  have "seq ?c + k \<in> set (map ev_seq es)" using run by simp
  then have q64: "seq ?c + k < 2 ^ 64" using e64 by auto
  have jq: "\<forall>x\<in>set j. fst x \<in> ev_seq ` set es" using suffix_ops_seqs [OF sops(1), of "{}"] by simp
  obtain t where t: "so_apply_events ops s o' (generation ?c, seq ?c) (g, seq ?c + k) j h a = Inr (True, t)"
      "vclock t = (vclock s)(o' := ?c\<lparr>generation := g, seq := seq ?c + k\<rparr>)"
    by (rule apply_done_all [OF inv ok refl gl(1) q64]) (use jq e64 suffix_ops_holds_32 [OF sops(1)] in auto)
  show ?thesis using s' app t sops(2) by (auto simp: g)
qed

end

section \<open>One update\<close>

abbreviation clock_of_update :: "origin_update \<Rightarrow> clock" where
  "clock_of_update u \<equiv> \<lparr>generation = ou_generation u, seq = ou_seq u, tail_seq = 0\<rparr>"

lemma clock_le_trans: "clock_le c d \<Longrightarrow> clock_le d e \<Longrightarrow> clock_le c e"
  by (auto simp: clock_le_def)

context sync_store
begin

text \<open>\<open>u\<close> answers what the store \<open>s\<close> holds of its origin.\<close>

definition fits :: "histories \<Rightarrow> 's \<Rightarrow> bool \<Rightarrow> origin_update \<Rightarrow> bool" where
  "fits T s skip u \<longleftrightarrow> true_update T u \<and>
     serves (generation (vclock s (ou_origin u)), seq (vclock s (ou_origin u))) (clock_of_update u) skip u"

lemma fits_same: "fits T s skip u \<Longrightarrow> vclock s' (ou_origin u) = vclock s (ou_origin u) \<Longrightarrow> fits T s' skip u"
  by (simp add: fits_def)

text \<open>The effect of one body: other origins stay, and this one reaches the update's clock unless it was cut short.\<close>

lemma apply_body_progress:
  assumes s: "copies_ok T (sy_store st)" and T: "u64_histories T" and codec: "ix_codec I = C" and ok: "ok_name (ou_origin u)"
    and known: "is_known_origin I (ou_origin u)" "ou_origin u \<noteq> ix_self I" and fit: "fits T (sy_store st) skip u"
  shows "\<exists>ch tr n snap had s'. apply_body ops I u st = (Inr (ch, tr, n, snap, had), st\<lparr>sy_store := s'\<rparr>) \<and> copies_ok T s' \<and>
     (\<forall>a. a \<noteq> ou_origin u \<longrightarrow> vclock s' a = vclock (sy_store st) a) \<and>
     clock_le (vclock (sy_store st) (ou_origin u)) (vclock s' (ou_origin u)) \<and>
     (skip \<or> tr \<or> clock_le (clock_of_update u) (vclock s' (ou_origin u)))"
proof -
  let ?s = "sy_store st" and ?o = "ou_origin u" and ?g = "ou_generation u"
  let ?c = "vclock ?s ?o"
  have same: "st\<lparr>sy_store := ?s\<rparr> = st" by simp
  show ?thesis
  proof (cases "ou_body u")
    case None
    then have "skip" using fit by (simp add: fits_def)
    then show ?thesis using None s by (intro exI [of _ False] exI [of _ 0] exI [of _ ?s]) (simp add: apply_body_def aret_def)
  next
    case (Some body)
    then show ?thesis
    proof (cases body)
      case (UpToDate x)
      then have "clock_le (clock_of_update u) ?c" using fit Some by (simp add: fits_def clock_le_def)
      then show ?thesis using Some UpToDate s
        by (intro exI [of _ False] exI [of _ 0] exI [of _ ?s]) (simp add: apply_body_def aret_def)
    next
      case (Suffix es)
      have true: "true_suffix T ?o ?g es" using fit Some Suffix by (simp add: fits_def true_update_def)
      obtain r s' where a: "apply_suffix ops I ?o ?g es ?s = Inr (r, s')" "copies_ok T s'"
         "\<forall>a. a \<noteq> ?o \<longrightarrow> vclock s' a = vclock ?s a" "clock_le ?c (vclock s' ?o)"
        using apply_suffix_true [OF s T ok codec known true] by blast
      have body: "\<exists>ch n had. apply_body ops I u st = (Inr (ch, ou_truncated u, n, False, had), st\<lparr>sy_store := s'\<rparr>)"
        using a(1) Some Suffix by (cases r) (auto simp: apply_body_def abind_def acommit_def aret_def)
      have "ou_truncated u \<or> clock_le (clock_of_update u) (vclock s' ?o)"
      proof (cases "ou_truncated u")
        case False
        then obtain k where k: "generation ?c = ?g" "0 < k" "seq ?c + k \<le> ou_seq u" "\<not> seq ?c + k < ou_seq u"
           "map ev_seq es = [Suc (seq ?c)..<Suc (seq ?c + k)]"
          using fit Some Suffix by (auto simp: fits_def)
        obtain t where "apply_suffix ops I ?o ?g es ?s = Inr (Applied k, t)" "vclock t = (vclock ?s)(?o := ?c\<lparr>seq := seq ?c + k\<rparr>)"
          using apply_suffix_run [OF s T ok codec known true k(1) [symmetric] k(5,2)] by blast
        then show ?thesis using a(1) k by (simp add: clock_le_def)
      qed simp
      then show ?thesis using body a(2-4) by blast
    next
      case (Snapshot held)
      have true: "true_snapshot T ?o ?g (ou_seq u) held" using fit Some Snapshot by (simp add: fits_def true_update_def)
      obtain n s' where a: "apply_snapshot ops I ?o ?g (ou_seq u) held ?s = Inr (n, s')" "copies_ok T s'"
         "\<forall>a. a \<noteq> ?o \<longrightarrow> vclock s' a = vclock ?s a" "clock_le ?c (vclock s' ?o)"
         "clock_le \<lparr>generation = ?g, seq = ou_seq u, tail_seq = ou_seq u\<rparr> (vclock s' ?o)"
        using apply_snapshot_true [OF s T ok known true] by blast
      have "apply_body ops I u st = (Inr (True, False, 0, True, False), st\<lparr>sy_store := s'\<rparr>)"
        using a(1) Some Snapshot by (simp add: apply_body_def abind_def acommit_def aret_def)
      moreover have "clock_le (clock_of_update u) (vclock s' ?o)" using a(5) by (simp add: clock_le_def)
      ultimately show ?thesis using a(2-4) by blast
    qed
  qed
qed

text \<open>The loop of a round. \<open>reached\<close>: skipped, at the update's clock, or flagged for another round or for the engine.\<close>

definition reached :: "(string \<Rightarrow> bool) \<Rightarrow> 's \<Rightarrow> bool \<Rightarrow> advert list \<Rightarrow> origin_update \<Rightarrow> bool" where
  "reached skip s truncated adv u \<longleftrightarrow> skip (ou_origin u) \<or> clock_le (clock_of_update u) (vclock s (ou_origin u)) \<or> truncated \<or>
     (ou_origin u, ou_generation u, ou_seq u, True) \<in> set adv"

definition advanced :: "'s \<Rightarrow> 's \<Rightarrow> bool" where
  "advanced s s' \<longleftrightarrow> (\<forall>a. clock_le (vclock s a) (vclock s' a))"

lemma advanced_refl [simp]: "advanced s s"
  by (simp add: advanced_def)

lemma advanced_trans: "advanced s s' \<Longrightarrow> advanced s' s'' \<Longrightarrow> advanced s s''"
  unfolding advanced_def using clock_le_trans by blast

lemma reached_mono:
  "reached skip s tr adv u \<Longrightarrow> advanced s s' \<Longrightarrow> (tr \<longrightarrow> tr') \<Longrightarrow> set adv \<subseteq> set adv' \<Longrightarrow> reached skip s' tr' adv' u"
  unfolding reached_def advanced_def using clock_le_trans by blast

lemma round_update_progress:
  assumes s: "copies_ok T (sy_store st)" and T: "u64_histories T" and codec: "ix_codec I = C" and ok: "\<And>a. is_known_origin I a \<Longrightarrow> ok_name a"
    and own: "ou_origin u = ix_self I \<Longrightarrow> clock_le (clock_of_update u) (vclock (sy_store st) (ix_self I))"
    and fit: "is_known_origin I (ou_origin u) \<Longrightarrow> ou_origin u \<noteq> ix_self I \<Longrightarrow> fits T (sy_store st) (skip (ou_origin u)) u"
    and acc: "acc = (ch, tr, adv)"
  shows "\<exists>ch' tr' adv' st'. round_update ops I wall u acc st = (Inr (ch', tr', adv'), st') \<and> copies_ok T (sy_store st') \<and>
     (\<forall>a. a \<noteq> ou_origin u \<longrightarrow> vclock (sy_store st') a = vclock (sy_store st) a) \<and> advanced (sy_store st) (sy_store st') \<and>
     (tr \<longrightarrow> tr') \<and> set adv \<subseteq> set adv' \<and>
     (is_known_origin I (ou_origin u) \<longrightarrow> reached skip (sy_store st') tr' adv' u)"
proof -
  let ?s = "sy_store st"
  have inv: "inv ?s" using s by (simp add: copies_ok_def)
  consider "ou_origin u = ix_self I" | "ou_origin u \<noteq> ix_self I" "\<not> is_known_origin I (ou_origin u)"
    | "ou_origin u \<noteq> ix_self I" "is_known_origin I (ou_origin u)" by blast
  then show ?thesis
  proof cases
    case 1
    have me: "ok_name (ix_self I)" by (rule ok) (simp add: is_known_origin_def)
    have "own_update ops I wall u st = (Inr (), st)"
      using own [OF 1] by (auto simp: own_update_def abind_def aread_def origin_clock_def clock_read [OF inv me] aret_def clock_le_def)
    then have "round_update ops I wall u acc st = (Inr (ch, tr, adv), st)" using 1 by (simp add: acc abind_def aret_def)
    then show ?thesis using s own [OF 1] 1 by (auto simp: reached_def)
  next
    case 2
    then have "round_update ops I wall u acc st = (Inr (ch, tr, adv), st)" by (simp add: acc aret_def)
    then show ?thesis using s 2 by auto
  next
    case 3
    obtain c t n snap had s' where b: "apply_body ops I u st = (Inr (c, t, n, snap, had), st\<lparr>sy_store := s'\<rparr>)" "copies_ok T s'"
     "\<forall>a. a \<noteq> ou_origin u \<longrightarrow> vclock s' a = vclock ?s a" "clock_le (vclock ?s (ou_origin u)) (vclock s' (ou_origin u))"
     "skip (ou_origin u) \<or> t \<or> clock_le (clock_of_update u) (vclock s' (ou_origin u))"
      using apply_body_progress [OF s T codec ok [OF 3(2)] 3(2,1) fit [OF 3(2,1)]] by blast
    have "\<exists>st'. round_update ops I wall u acc st =
        (Inr (ch \<or> c, tr \<or> (t \<and> \<not> had), adv @ [(ou_origin u, ou_generation u, ou_seq u, t \<and> had)]), st') \<and> sy_store st' = s'"
      using 3 by (simp add: acc abind_def b(1) amodify_def aret_def Let_def)
    moreover have "advanced ?s s'" unfolding advanced_def using b(3,4) by (metis clock_le_refl)
    ultimately show ?thesis using b by (fastforce simp: reached_def)
  qed
qed

section \<open>The round\<close>

lemma updates_progress:
  assumes s: "copies_ok T (sy_store st)" and T: "u64_histories T" and codec: "ix_codec I = C" and ok: "\<And>a. is_known_origin I a \<Longrightarrow> ok_name a"
    and d: "distinct (map ou_origin us)"
    and own: "\<And>u. u \<in> set us \<Longrightarrow> ou_origin u = ix_self I \<Longrightarrow> clock_le (clock_of_update u) (vclock (sy_store st) (ix_self I))"
    and fit: "\<And>u. u \<in> set us \<Longrightarrow> is_known_origin I (ou_origin u) \<Longrightarrow> ou_origin u \<noteq> ix_self I \<Longrightarrow> fits T (sy_store st) (skip (ou_origin u)) u"
  shows "\<exists>ch' tr' adv' st'. aeach (round_update ops I wall) us (ch, tr, adv) st = (Inr (ch', tr', adv'), st') \<and> copies_ok T (sy_store st') \<and>
     advanced (sy_store st) (sy_store st') \<and> (tr \<longrightarrow> tr') \<and> set adv \<subseteq> set adv' \<and>
     (\<forall>u\<in>set us. is_known_origin I (ou_origin u) \<longrightarrow> reached skip (sy_store st') tr' adv' u)"
  using s d own fit
proof (induction us arbitrary: st ch tr adv)
  case Nil
  then show ?case by (simp add: aret_def)
next
  case (Cons u us)
  obtain ch1 tr1 adv1 st1 where 1: "round_update ops I wall u (ch, tr, adv) st = (Inr (ch1, tr1, adv1), st1)" "copies_ok T (sy_store st1)"
     "\<forall>a. a \<noteq> ou_origin u \<longrightarrow> vclock (sy_store st1) a = vclock (sy_store st) a" "advanced (sy_store st) (sy_store st1)"
     "tr \<longrightarrow> tr1" "set adv \<subseteq> set adv1" "is_known_origin I (ou_origin u) \<longrightarrow> reached skip (sy_store st1) tr1 adv1 u"
    using round_update_progress [OF Cons.prems(1) T codec ok, of u skip "(ch, tr, adv)" ch tr adv wall] Cons.prems(3,4) by auto
  have other: "vclock (sy_store st1) (ou_origin v) = vclock (sy_store st) (ou_origin v)" if "v \<in> set us" for v
  proof -
    have "ou_origin v \<noteq> ou_origin u" using Cons.prems(2) that by (auto simp: image_iff)
    then show ?thesis using 1(3) by blast
  qed
  have "\<exists>ch' tr' adv' st'. aeach (round_update ops I wall) us (ch1, tr1, adv1) st1 = (Inr (ch', tr', adv'), st') \<and> copies_ok T (sy_store st') \<and>
     advanced (sy_store st1) (sy_store st') \<and> (tr1 \<longrightarrow> tr') \<and> set adv1 \<subseteq> set adv' \<and>
     (\<forall>u\<in>set us. is_known_origin I (ou_origin u) \<longrightarrow> reached skip (sy_store st') tr' adv' u)"
  proof (rule Cons.IH [OF 1(2)])
    show "clock_le (clock_of_update v) (vclock (sy_store st1) (ix_self I))" if "v \<in> set us" "ou_origin v = ix_self I" for v
      using Cons.prems(3) [of v] other [OF that(1)] that by simp
    show "fits T (sy_store st1) (skip (ou_origin v)) v" if "v \<in> set us" "is_known_origin I (ou_origin v)" "ou_origin v \<noteq> ix_self I" for v
      using Cons.prems(4) [of v] fits_same [OF _ other [OF that(1)]] that by simp
  qed (use Cons.prems(2) in simp)
  then obtain ch2 tr2 adv2 st2 where 2: "aeach (round_update ops I wall) us (ch1, tr1, adv1) st1 = (Inr (ch2, tr2, adv2), st2)"
     "copies_ok T (sy_store st2)" "advanced (sy_store st1) (sy_store st2)" "tr1 \<longrightarrow> tr2" "set adv1 \<subseteq> set adv2"
     "\<forall>u\<in>set us. is_known_origin I (ou_origin u) \<longrightarrow> reached skip (sy_store st2) tr2 adv2 u" by blast
  have "is_known_origin I (ou_origin u) \<longrightarrow> reached skip (sy_store st2) tr2 adv2 u"
    using 1(7) reached_mono [OF _ 2(3,4,5)] by blast
  moreover have "aeach (round_update ops I wall) (u # us) (ch, tr, adv) st = (Inr (ch2, tr2, adv2), st2)"
    using 1(1) 2(1) by (simp add: abind_def del: round_update.simps)
  moreover have "advanced (sy_store st) (sy_store st2)" using 1(4) 2(3) by (rule advanced_trans)
  ultimately show ?case using 1(5,6) 2 by auto
qed

lemma clock_vector_read:
  assumes inv: "inv s" and ok: "\<And>a. is_known_origin I a \<Longrightarrow> ok_name a"
  shows "clock_vector ops I s =
    Inr (map (\<lambda>a. \<lparr>oc_origin = a, oc_generation = generation (vclock s a), oc_seq = seq (vclock s a)\<rparr>) (origin_names I))"
proof -
  have "map_res (\<lambda>a. bindr (so_clock ops s a) (\<lambda>c. Inr \<lparr>oc_origin = a, oc_generation = generation c, oc_seq = seq c\<rparr>)) (origin_names I) =
      Inr (map (\<lambda>a. \<lparr>oc_origin = a, oc_generation = generation (vclock s a), oc_seq = seq (vclock s a)\<rparr>) (origin_names I))"
  proof (rule map_res_Inr)
    fix a assume "a \<in> set (origin_names I)"
    then have "ok_name a" using ok by (simp add: set_origin_names is_known_origin_def)
    then show "bindr (so_clock ops s a) (\<lambda>c. Inr \<lparr>oc_origin = a, oc_generation = generation c, oc_seq = seq c\<rparr>) =
       Inr \<lparr>oc_origin = a, oc_generation = generation (vclock s a), oc_seq = seq (vclock s a)\<rparr>"
      by (simp add: clock_read [OF inv])
  qed
  then show ?thesis by (simp add: clock_vector_def)
qed

lemma their_clock_vector:
  assumes "sr_have req = map (\<lambda>a. \<lparr>oc_origin = a, oc_generation = generation (vclock s a), oc_seq = seq (vclock s a)\<rparr>) (origin_names I)"
    and "is_known_origin I a"
  shows "their_clock req a = (generation (vclock s a), seq (vclock s a))"
proof -
  let ?f = "\<lambda>a. \<lparr>oc_origin = a, oc_generation = generation (vclock s a), oc_seq = seq (vclock s a)\<rparr>"
  have "a \<in> set (rev (origin_names I))" using assms(2) by (simp add: set_origin_names is_known_origin_def)
  then have "map_of (map (\<lambda>a. (a, ?f a)) (rev (origin_names I))) a = Some (?f a)" by (simp add: map_of_map_restrict)
  then show ?thesis by (simp add: their_clock_def assms(1) rev_map comp_def)
qed

lemma set_cursor_true:
  assumes "copies_ok T s"
  shows "\<exists>s'. set_dump_cursor ops p cur s = Inr s' \<and> copies_ok T s' \<and> vclock s' = vclock s"
proof -
  have inv: "inv s" using assms by (simp add: copies_ok_def)
  obtain t where t: "so_meta_put ops s (cursor_key p) (hex_encode cur) = Inr t" "inv t"
      "vclock t = vclock s" "vjournal t = vjournal s" "vheld t = vheld s"
    using meta_done [OF inv] by blast
  then show ?thesis using copies_ok_same_views [OF assms t(2-5)] by (simp add: set_dump_cursor_def)
qed

text \<open>The parts of a round that leave every clock alone.\<close>

definition quiet :: "histories \<Rightarrow> ('s, 'a) act \<Rightarrow> bool" where
  "quiet T m \<longleftrightarrow> (\<forall>st. copies_ok T (sy_store st) \<longrightarrow> (\<exists>x st'. m st = (Inr x, st') \<and> copies_ok T (sy_store st') \<and>
     vclock (sy_store st') = vclock (sy_store st) \<and> sy_leases st' = sy_leases st \<and> sy_enrolls st' = sy_enrolls st))"

lemma quietD:
  "quiet T m \<Longrightarrow> copies_ok T (sy_store st) \<Longrightarrow>
   \<exists>x st'. m st = (Inr x, st') \<and> copies_ok T (sy_store st') \<and> vclock (sy_store st') = vclock (sy_store st)"
  unfolding quiet_def by blast

lemma quiet_aret [simp]: "quiet T (aret x)"
  by (simp add: quiet_def aret_def)

lemma quiet_bind:
  assumes "quiet T m" and "\<And>x. quiet T (k x)"
  shows "quiet T (abind m k)"
  unfolding quiet_def
proof (intro allI impI)
  fix st :: "'s sync" assume "copies_ok T (sy_store st)"
  then obtain x t where 1: "m st = (Inr x, t)" "copies_ok T (sy_store t)" "vclock (sy_store t) = vclock (sy_store st)"
    "sy_leases t = sy_leases st" "sy_enrolls t = sy_enrolls st" using assms(1) by (auto simp: quiet_def)
  obtain y u where "k x t = (Inr y, u)" "copies_ok T (sy_store u)" "vclock (sy_store u) = vclock (sy_store t)"
    "sy_leases u = sy_leases t" "sy_enrolls u = sy_enrolls t" using assms(2) [of x] 1(2) by (auto simp: quiet_def)
  then show "\<exists>x st'. abind m k st = (Inr x, st') \<and> copies_ok T (sy_store st') \<and>
     vclock (sy_store st') = vclock (sy_store st) \<and> sy_leases st' = sy_leases st \<and> sy_enrolls st' = sy_enrolls st"
    using 1 by (simp add: abind_def)
qed

lemma quiet_aread: "(\<And>s. inv s \<Longrightarrow> \<exists>x. f s = Inr x) \<Longrightarrow> quiet T (aread f)"
  by (fastforce simp: quiet_def aread_def copies_ok_def)

lemma quiet_awrite: "(\<And>s. copies_ok T s \<Longrightarrow> \<exists>s'. f s = Inr s' \<and> copies_ok T s' \<and> vclock s' = vclock s) \<Longrightarrow> quiet T (awrite f)"
  by (fastforce simp: quiet_def awrite_def acommit_def)

lemma quiet_facts: "quiet T (round_facts ops resp)"
proof -
  have "quiet T (acommit (merge_attests ops as))" for as
    unfolding quiet_def
  proof (intro allI impI)
    fix st :: "'s sync" assume "copies_ok T (sy_store st)"
    then obtain n s' where "merge_attests ops as (sy_store st) = Inr (n, s')" "copies_ok T s'" "vclock s' = vclock (sy_store st)"
      using merge_attests_true by blast
    then show "\<exists>x st'. acommit (merge_attests ops as) st = (Inr x, st') \<and> copies_ok T (sy_store st') \<and>
       vclock (sy_store st') = vclock (sy_store st) \<and> sy_leases st' = sy_leases st \<and> sy_enrolls st' = sy_enrolls st"
      by (simp add: acommit_def)
  qed
  then show ?thesis by (auto simp: round_facts_def intro: quiet_bind)
qed

lemma quiet_park: "quiet T (park_cursor ops I peer req resp)"
proof -
  have "quiet T (awrite (restart_all_dumps ops I))"
    using restart_dumps_true by (intro quiet_awrite) blast
  moreover have "quiet T (aread (dump_cursor ops peer))"
    by (rule quiet_aread) (simp add: dump_cursor_def meta_read)
  ultimately show ?thesis
    by (auto simp: park_cursor_def Let_def intro!: quiet_bind quiet_awrite set_cursor_true)
qed

end

lemma settle_enrolls:
  assumes "(o', g, q, True) \<in> set adv"
  shows "\<lparr>en_origin = o', en_generation = g, en_target = q\<rparr> \<in> set (sy_enrolls (settle_leases now idx adv st))"
proof -
  have mono: "set es \<subseteq> set (snd (fold (settle_one now) xs (l, es)))" for xs l es
  proof (induction xs arbitrary: l es)
    case (Cons x xs)
    obtain a b c d where x: "x = (a, b, c, d)" by (cases x)
    obtain l' es' where r: "settle_one now x (l, es) = (l', es')" by fastforce
    moreover from this have "set es \<subseteq> set es'" by (auto simp: x Let_def split: if_splits)
    ultimately show ?case using Cons.IH [of es' l'] by auto
  qed simp
  have "\<lparr>en_origin = o', en_generation = g, en_target = q\<rparr> \<in> set (snd (fold (settle_one now) adv (l, es)))" for l es
    using assms
  proof (induction adv arbitrary: l es)
    case (Cons x xs)
    show ?case
    proof (cases "x = (o', g, q, True)")
      case True
      then show ?thesis
        using mono [of "es @ [\<lparr>en_origin = o', en_generation = g, en_target = q\<rparr>]" xs] by (auto simp: Let_def)
    next
      case False
      obtain l' es' where "settle_one now x (l, es) = (l', es')" by fastforce
      then show ?thesis using Cons False by simp
    qed
  qed simp
  then show ?thesis by (auto simp: settle_leases_def split: prod.split) (metis snd_conv)
qed

section \<open>What a round achieves\<close>

text \<open>The answer of a node whose store is \<open>s\<close>.\<close>

definition peer_of :: "'s store_ops \<Rightarrow> index_cfg \<Rightarrow> 's \<Rightarrow> sync_request \<Rightarrow> sync_response option" where
  "peer_of ops I s req = (case respond ops I s req of Inr b \<Rightarrow> Some (answer_of I b) | Inl _ \<Rightarrow> None)"

text \<open>The origins a requester leaves to others in a round.\<close>

definition skipped :: "nat \<Rightarrow> nat \<Rightarrow> index_cfg \<Rightarrow> (string \<Rightarrow> clock) \<Rightarrow> (string \<rightharpoonup> lease) \<Rightarrow> string list" where
  "skipped now idx I vc leases = fst (claim_origins now idx
     (map (\<lambda>a. \<lparr>oc_origin = a, oc_generation = generation (vc a), oc_seq = seq (vc a)\<rparr>) (origin_names I)) leases)"

context mesh_store
begin

lemma round_request_true:
  assumes s: "copies_ok T (sy_store st)" and ok: "\<And>a. is_known_origin I a \<Longrightarrow> ok_name a"
  shows "\<exists>req leases. round_request ops I now idx st = (Inr req, st\<lparr>sy_leases := leases\<rparr>) \<and> sr_ranges req = [] \<and> sr_merkle req = [] \<and>
     sr_skip_origins req = skipped now idx I (vclock (sy_store st)) (sy_leases st) \<and>
     (\<forall>a. is_known_origin I a \<longrightarrow> their_clock req a = (generation (vclock (sy_store st) a), seq (vclock (sy_store st) a)))"
proof -
  let ?s = "sy_store st"
  let ?hv = "map (\<lambda>a. \<lparr>oc_origin = a, oc_generation = generation (vclock ?s a), oc_seq = seq (vclock ?s a)\<rparr>) (origin_names I)"
  have inv: "inv ?s" using s by (simp add: copies_ok_def)
  obtain skip leases where c: "claim_origins now idx ?hv (sy_leases st) = (skip, leases)" by fastforce
  obtain cur where cur: "dump_cursor ops (ix_peers I ! idx) ?s = Inr cur" by (simp add: dump_cursor_def meta_read [OF inv])
  let ?req = "\<lparr>sr_requester = ix_self I, sr_have = ?hv, sr_atts_cursor = cur, sr_skip_origins = skip, sr_ranges = [], sr_merkle = []\<rparr>"
  have "round_request ops I now idx st = (Inr ?req, st\<lparr>sy_leases := leases\<rparr>)"
    by (simp add: round_request_def abind_def aread_def clock_vector_read [OF inv ok] c cur aret_def)
  moreover have "their_clock ?req a = (generation (vclock ?s a), seq (vclock ?s a))" if "is_known_origin I a" for a
    by (rule their_clock_vector) (use that in simp_all)
  ultimately show ?thesis by (intro exI [of _ ?req] exI [of _ leases]) (simp add: skipped_def c)
qed

text \<open>
  A round with an honest peer whose store holds copies of the same histories, and that is not
  ahead of the requester on the requester's own origin: it returns, and unless it asks for
  another round every origin the peer knows is skipped, caught up, or given to the engine.
\<close>

lemma pull_round_progress:
  assumes s: "copies_ok T (sy_store st)" and sp: "copies_ok T sp" and T: "u64_histories T"
    and I: "ix_codec I = C" "\<And>a. is_known_origin I a \<Longrightarrow> ok_name a"
    and P: "ix_codec P = C" "\<And>a. is_known_origin P a \<Longrightarrow> ok_name a" "ix_self P = ix_peers I ! idx"
    and own: "clock_le (vclock sp (ix_self I)) (vclock (sy_store st) (ix_self I))"
  shows "\<exists>ch tr root st'. pull_round ops I now wall idx (peer_of ops P sp) st = (Inr (ch, tr, root), st') \<and>
     copies_ok T (sy_store st') \<and> advanced (sy_store st) (sy_store st') \<and>
     (tr \<or> (\<forall>a. is_known_origin P a \<longrightarrow> is_known_origin I a \<longrightarrow>
        a \<in> set (skipped now idx I (vclock (sy_store st)) (sy_leases st)) \<or> clock_le (vclock sp a) (vclock (sy_store st') a) \<or>
        \<lparr>en_origin = a, en_generation = generation (vclock sp a), en_target = seq (vclock sp a)\<rparr> \<in> set (sy_enrolls st')))"
proof -
  let ?s = "sy_store st" and ?skip = "\<lambda>a. a \<in> set (skipped now idx I (vclock (sy_store st)) (sy_leases st))"
  obtain req leases where req: "round_request ops I now idx st = (Inr req, st\<lparr>sy_leases := leases\<rparr>)" "sr_ranges req = []" "sr_merkle req = []"
     "sr_skip_origins req = skipped now idx I (vclock ?s) (sy_leases st)"
     "\<forall>a. is_known_origin I a \<longrightarrow> their_clock req a = (generation (vclock ?s a), seq (vclock ?s a))"
    using round_request_true [OF s I(2)] by blast
  have pn: "ok_name n" if "n \<in> set (origin_names P)" for n using that P(2) by (simp add: set_origin_names is_known_origin_def)
  obtain b where b: "respond ops P sp req = Inr b" "answers T sp req (origin_names P) (rb_origins b)"
    using respond_true [OF sp pn P(1), of req RESPONSE_BYTES_CAP] req(2,3) by (auto simp: respond_def)
  have peer: "peer_of ops P sp req = Some (answer_of P b)" by (simp add: peer_of_def b)
  let ?resp = "answer_of P b" and ?t = "st\<lparr>sy_leases := leases\<rparr>"
  obtain c1 st1 where 1: "round_facts ops ?resp ?t = (Inr c1, st1)" "copies_ok T (sy_store st1)" "vclock (sy_store st1) = vclock ?s"
    using quietD [OF quiet_facts, of T ?t ?resp] s by auto
  obtain x2 st2 where 2: "park_cursor ops I (ix_peers I ! idx) req ?resp st1 = (Inr x2, st2)" "copies_ok T (sy_store st2)"
     "vclock (sy_store st2) = vclock (sy_store st1)"
    using quietD [OF quiet_park 1(2)] by blast
  have vc: "vclock (sy_store st2) = vclock ?s" using 1(3) 2(3) by simp
  have upd: "update_for T sp (ou_origin u) u \<and> serves (their_clock req (ou_origin u)) (vclock sp (ou_origin u)) (ou_origin u \<in> set (sr_skip_origins req)) u"
    if "u \<in> set (rb_origins b)" for u using b(2) that by (simp add: answers_def)
  have at: "ou_generation u = generation (vclock sp (ou_origin u))" "ou_seq u = seq (vclock sp (ou_origin u))"
    if "u \<in> set (rb_origins b)" for u using upd [OF that] by (simp_all add: update_for_def)
  have "\<exists>ch tr adv st3. aeach (round_update ops I wall) (rb_origins b) (c1, sp_atts_truncated ?resp \<or> next_cursor ?resp = DUMP_RESTART, []) st2
      = (Inr (ch, tr, adv), st3) \<and> copies_ok T (sy_store st3) \<and> advanced (sy_store st2) (sy_store st3) \<and>
      ((sp_atts_truncated ?resp \<or> next_cursor ?resp = DUMP_RESTART) \<longrightarrow> tr) \<and> set [] \<subseteq> set adv \<and>
      (\<forall>u\<in>set (rb_origins b). is_known_origin I (ou_origin u) \<longrightarrow> reached ?skip (sy_store st3) tr adv u)"
  proof (rule updates_progress [OF 2(2) T I(1,2)])
    show "distinct (map ou_origin (rb_origins b))" using b(2) by (simp add: answers_def)
    show "clock_le (clock_of_update u) (vclock (sy_store st2) (ix_self I))" if "u \<in> set (rb_origins b)" "ou_origin u = ix_self I" for u
      using own at [OF that(1)] that(2) by (simp add: vc clock_le_def)
    show "fits T (sy_store st2) (?skip (ou_origin u)) u" if "u \<in> set (rb_origins b)" "is_known_origin I (ou_origin u)" for u
      using upd [OF that(1)] req(4,5) that(2) at [OF that(1)]
      by (auto simp: fits_def vc update_for_def split: option.splits update_body.splits)
  qed
  then obtain ch tr adv st3 where 3: "aeach (round_update ops I wall) (rb_origins b) (c1, sp_atts_truncated ?resp \<or> next_cursor ?resp = DUMP_RESTART, []) st2
      = (Inr (ch, tr, adv), st3)" "copies_ok T (sy_store st3)" "advanced (sy_store st2) (sy_store st3)"
      "\<forall>u\<in>set (rb_origins b). is_known_origin I (ou_origin u) \<longrightarrow> reached ?skip (sy_store st3) tr adv u" by blast
  let ?st4 = "settle_leases now idx adv st3"
  have store4: "sy_store ?st4 = sy_store st3" by (simp add: settle_leases_def split: prod.split)
  have "sp_responder ?resp = ix_peers I ! idx" "sp_origins ?resp = rb_origins b" by (simp_all add: answer_of_def P(3))
  then have run: "pull_round ops I now wall idx (peer_of ops P sp) st = (Inr (ch, tr, sp_fact_root ?resp), ?st4)"
    by (simp add: pull_round_def abind_def req(1) peer 1(1) 2(1) 3(1) amodify_def aret_def)
  have adv3: "advanced ?s (sy_store st3)" using 3(3) by (simp add: advanced_def vc)
  have "?skip a \<or> clock_le (vclock sp a) (vclock (sy_store st3) a) \<or>
      \<lparr>en_origin = a, en_generation = generation (vclock sp a), en_target = seq (vclock sp a)\<rparr> \<in> set (sy_enrolls ?st4)"
    if tr: "\<not> tr" and a: "is_known_origin P a" "is_known_origin I a" for a
  proof -
    have "a \<in> set (origin_names P)" using a(1) by (simp add: set_origin_names is_known_origin_def)
    then consider u where "u \<in> set (rb_origins b)" "ou_origin u = a" | "generation (vclock sp a) = 0"
      | "fst (their_clock req a) > generation (vclock sp a)" using b(2) by (auto simp: answers_def)
    then show ?thesis
    proof cases
      case 1
      then have "reached ?skip (sy_store st3) tr adv u" using 3(4) a(2) by simp
      then show ?thesis using tr 1 at [OF 1(1)] settle_enrolls [of a "ou_generation u" "ou_seq u" adv now idx st3]
        by (auto simp: reached_def clock_le_def)
    next
      case 2
      have "known_copy C T a (vclock sp a) (vjournal sp a) (vheld sp a)" using sp by (simp add: copies_ok_def)
      then have "vclock sp a = clock_default" using 2 by (auto simp: known_copy_def)
      then show ?thesis by (auto simp: clock_le_def clock_default_def)
    next
      case 3
      then have "clock_le (vclock sp a) (vclock ?s a)" using req(5) a(2) by (simp add: clock_le_def)
      then show ?thesis using adv3 clock_le_trans unfolding advanced_def by blast
    qed
  qed
  then show ?thesis using run 3(2) adv3 store4 by (intro exI [of _ ch] exI [of _ tr] exI [of _ "sp_fact_root ?resp"] exI [of _ ?st4]) auto
qed

end

end
