(* ===== verification/Sync_Net.thy ===== *)
theory Sync_Net
  imports Sync Net
begin

text \<open>
  The actions of a node are runs of the transition system of theory \<open>Net\<close>: whatever an
  action returns, an error included, the store it leaves is reached by steps of its node,
  and no other store changes. \<open>sim P m Q\<close> is this statement for an action \<open>m\<close> under a
  condition \<open>P\<close> on the network before and \<open>Q\<close> after; it composes like a Hoare triple.
\<close>

section \<open>The simulation\<close>

definition sim :: "'s store_ops \<Rightarrow> (string \<Rightarrow> index_cfg) \<Rightarrow> string set \<Rightarrow> 's \<Rightarrow> string \<Rightarrow>
    ('s net \<Rightarrow> bool) \<Rightarrow> ('s, 'a) act \<Rightarrow> ('s net \<Rightarrow> bool) \<Rightarrow> bool" where
  "sim ops cfg M blank n P m Q \<longleftrightarrow>
     (\<forall>N st r st'. P N \<longrightarrow> nodes N n = sy_store st \<longrightarrow> m st = (r, st') \<longrightarrow>
        (\<exists>N'. (net_step ops cfg M blank)\<^sup>*\<^sup>* N N' \<and> nodes N' n = sy_store st' \<and>
           (\<forall>k. k \<noteq> n \<longrightarrow> nodes N' k = nodes N k) \<and> Q N'))"

lemma simI:
  assumes "\<And>N st r st'. P N \<Longrightarrow> nodes N n = sy_store st \<Longrightarrow> m st = (r, st') \<Longrightarrow>
     \<exists>N'. (net_step ops cfg M blank)\<^sup>*\<^sup>* N N' \<and> nodes N' n = sy_store st' \<and> (\<forall>k. k \<noteq> n \<longrightarrow> nodes N' k = nodes N k) \<and> Q N'"
  shows "sim ops cfg M blank n P m Q"
  using assms unfolding sim_def by blast

lemma simD:
  "sim ops cfg M blank n P m Q \<Longrightarrow> P N \<Longrightarrow> nodes N n = sy_store st \<Longrightarrow> m st = (r, st') \<Longrightarrow>
   \<exists>N'. (net_step ops cfg M blank)\<^sup>*\<^sup>* N N' \<and> nodes N' n = sy_store st' \<and> (\<forall>k. k \<noteq> n \<longrightarrow> nodes N' k = nodes N k) \<and> Q N'"
  unfolding sim_def by blast

text \<open>Actions that leave the store alone.\<close>

lemma sim_same_store:
  assumes "\<And>st. sy_store (snd (m st)) = sy_store st" and "\<And>N. P N \<Longrightarrow> Q N"
  shows "sim ops cfg M blank n P m Q"
proof (rule simI)
  fix N :: "'a net" and st r st' assume "P N" "nodes N n = sy_store st" "m st = (r, st')"
  then show "\<exists>N'. (net_step ops cfg M blank)\<^sup>*\<^sup>* N N' \<and> nodes N' n = sy_store st' \<and> (\<forall>k. k \<noteq> n \<longrightarrow> nodes N' k = nodes N k) \<and> Q N'"
    using assms(1) [of st] assms(2) by (intro exI [of _ N]) simp
qed

lemma sim_aret: "(\<And>N. P N \<Longrightarrow> Q N) \<Longrightarrow> sim ops cfg M blank n P (aret x) Q"
  by (rule sim_same_store) (simp_all add: aret_def)

lemma sim_afail: "(\<And>N. P N \<Longrightarrow> Q N) \<Longrightarrow> sim ops cfg M blank n P (afail e) Q"
  by (rule sim_same_store) (simp_all add: afail_def)

lemma sim_aread: "(\<And>N. P N \<Longrightarrow> Q N) \<Longrightarrow> sim ops cfg M blank n P (aread f) Q"
  by (rule sim_same_store) (simp_all add: aread_def split: sum.split)

lemma sim_amodify:
  "(\<And>st. sy_store (f st) = sy_store st) \<Longrightarrow> (\<And>N. P N \<Longrightarrow> Q N) \<Longrightarrow> sim ops cfg M blank n P (amodify f) Q"
  by (rule sim_same_store) (simp_all add: amodify_def)

text \<open>A commit is one step.\<close>

lemma sim_acommit:
  assumes step: "\<And>N x s'. P N \<Longrightarrow> f (nodes N n) = Inr (x, s') \<Longrightarrow>
      \<exists>N'. net_step ops cfg M blank N N' \<and> nodes N' = (nodes N)(n := s') \<and> Q N'"
    and "\<And>N. P N \<Longrightarrow> Q N"
  shows "sim ops cfg M blank n P (acommit f) Q"
proof (rule simI)
  fix N :: "'a net" and st :: "'a sync" and r st' assume P: "P N" and s: "nodes N n = sy_store st" and m: "acommit f st = (r, st')"
  show "\<exists>N'. (net_step ops cfg M blank)\<^sup>*\<^sup>* N N' \<and> nodes N' n = sy_store st' \<and> (\<forall>k. k \<noteq> n \<longrightarrow> nodes N' k = nodes N k) \<and> Q N'"
  proof (cases "f (sy_store st)")
    case (Inl e)
    then show ?thesis using m s assms(2) [OF P] by (intro exI [of _ N]) (auto simp: acommit_def)
  next
    case (Inr p)
    obtain x s' where p: "p = (x, s')" by (cases p)
    then obtain N' where "net_step ops cfg M blank N N'" "nodes N' = (nodes N)(n := s')" "Q N'"
      using step [OF P, of x s'] Inr s by auto
    then show ?thesis using m p Inr by (intro exI [of _ N']) (auto simp: acommit_def)
  qed
qed

lemma sim_awrite:
  assumes step: "\<And>N s'. P N \<Longrightarrow> f (nodes N n) = Inr s' \<Longrightarrow>
      \<exists>N'. net_step ops cfg M blank N N' \<and> nodes N' = (nodes N)(n := s') \<and> Q N'"
    and "\<And>N. P N \<Longrightarrow> Q N"
  shows "sim ops cfg M blank n P (awrite f) Q"
  unfolding awrite_def using assms by (intro sim_acommit) (auto simp: bindr_eq_Inr)

lemma sim_bind:
  assumes m: "sim ops cfg M blank n P m Q" and k: "\<And>x. sim ops cfg M blank n Q (k x) R" and QR: "\<And>N. Q N \<Longrightarrow> R N"
  shows "sim ops cfg M blank n P (abind m k) R"
proof (rule simI)
  fix N :: "'a net" and st r st' assume P: "P N" and s: "nodes N n = sy_store st" and run: "abind m k st = (r, st')"
  obtain x t where mt: "m st = (x, t)" by fastforce
  obtain N1 where N1: "(net_step ops cfg M blank)\<^sup>*\<^sup>* N N1" "nodes N1 n = sy_store t"
     "\<forall>k. k \<noteq> n \<longrightarrow> nodes N1 k = nodes N k" "Q N1"
    using simD [OF m P s mt] by blast
  show "\<exists>N'. (net_step ops cfg M blank)\<^sup>*\<^sup>* N N' \<and> nodes N' n = sy_store st' \<and> (\<forall>k. k \<noteq> n \<longrightarrow> nodes N' k = nodes N k) \<and> R N'"
  proof (cases x)
    case (Inl e)
    then show ?thesis using run mt N1 QR by (intro exI [of _ N1]) (auto simp: abind_def)
  next
    case (Inr y)
    then have "k y t = (r, st')" using run mt by (simp add: abind_def)
    from simD [OF k N1(4,2) this] obtain N2 where "(net_step ops cfg M blank)\<^sup>*\<^sup>* N1 N2" "nodes N2 n = sy_store st'"
      "\<forall>k. k \<noteq> n \<longrightarrow> nodes N2 k = nodes N1 k" "R N2" by blast
    then show ?thesis using N1 by (intro exI [of _ N2]) (auto intro: rtranclp_trans)
  qed
qed

lemma sim_if:
  "(b \<Longrightarrow> sim ops cfg M blank n P m Q) \<Longrightarrow> (\<not> b \<Longrightarrow> sim ops cfg M blank n P m' Q) \<Longrightarrow>
   sim ops cfg M blank n P (if b then m else m') Q"
  by simp

lemma sim_weaken: "sim ops cfg M blank n P m Q \<Longrightarrow> (\<And>N. P' N \<Longrightarrow> P N) \<Longrightarrow> (\<And>N. Q N \<Longrightarrow> Q' N) \<Longrightarrow> sim ops cfg M blank n P' m Q'"
  unfolding sim_def by blast

section \<open>The steps of the actions\<close>

text \<open>The condition: the answers \<open>B\<close> are in the network, the generations \<open>G\<close> were never used.\<close>

definition holds :: "respond_bundle set \<Rightarrow> string \<Rightarrow> nat set \<Rightarrow> 's net \<Rightarrow> bool" where
  "holds B n G N \<longleftrightarrow> B \<subseteq> mail N \<and> (\<forall>g\<in>G. fresh_gen N n g)"

lemma holds_put [simp]: "holds B n G (put_node k s N) = holds B n G N"
  by (simp add: holds_def fresh_gen_def)

lemma holds_mail: "holds B n G N \<Longrightarrow> holds B n G (N\<lparr>mail := insert b (mail N)\<rparr>)"
  by (auto simp: holds_def fresh_gen_def)

lemma holds_minted: "holds B n (insert g G) N \<Longrightarrow> g \<notin> G \<Longrightarrow> holds B n G (put_node n s N\<lparr>minted := insert (n, g) (minted N)\<rparr>)"
  by (auto simp: holds_def fresh_gen_def)

lemma holds_mono: "holds B n G N \<Longrightarrow> G' \<subseteq> G \<Longrightarrow> holds B n G' N"
  by (auto simp: holds_def)

abbreviation member_sim :: "'s store_ops \<Rightarrow> (string \<Rightarrow> index_cfg) \<Rightarrow> string set \<Rightarrow> 's \<Rightarrow> string \<Rightarrow> respond_bundle set \<Rightarrow> nat set \<Rightarrow>
    ('s, 'a) act \<Rightarrow> bool" where
  "member_sim ops cfg M blank n B G m \<equiv> sim ops cfg M blank n (holds B n G) m (holds B n G)"

lemma sim_facts: "n \<in> M \<Longrightarrow> member_sim ops cfg M blank n B G (round_facts ops resp)"
  unfolding round_facts_def
  by (intro sim_if sim_bind [where Q = "holds B n G"] sim_aret sim_acommit) (auto dest: net_step.facts)

lemma sim_dump:
  "n \<in> M \<Longrightarrow> member_sim ops cfg M blank n B G (awrite (set_dump_cursor ops p cur))"
  by (rule sim_awrite) (auto dest: net_step.dump)

text \<open>Restarting all dumps is one step per peer.\<close>

lemma dumps_steps:
  assumes n: "n \<in> M" and h: "holds B n G N" and run: "for_each (\<lambda>peer. set_dump_cursor ops peer DUMP_RESTART) ps (nodes N n) = Inr s'"
  shows "\<exists>N'. (net_step ops cfg M blank)\<^sup>*\<^sup>* N N' \<and> nodes N' = (nodes N)(n := s') \<and> holds B n G N'"
  using h run
proof (induction ps arbitrary: N)
  case Nil
  then show ?case by (intro exI [of _ N]) auto
next
  case (Cons p ps)
  then obtain t where t: "set_dump_cursor ops p DUMP_RESTART (nodes N n) = Inr t"
    "for_each (\<lambda>peer. set_dump_cursor ops peer DUMP_RESTART) ps t = Inr s'" by (auto simp: bindr_eq_Inr)
  have s: "net_step ops cfg M blank N (put_node n t N)" by (rule net_step.dump [where p = p and cur = DUMP_RESTART, OF n t(1)])
  have "\<exists>N'. (net_step ops cfg M blank)\<^sup>*\<^sup>* (put_node n t N) N' \<and> nodes N' = (nodes (put_node n t N))(n := s') \<and> holds B n G N'"
    by (rule Cons.IH) (use Cons.prems(1) t(2) in simp_all)
  then obtain N' where "(net_step ops cfg M blank)\<^sup>*\<^sup>* (put_node n t N) N'" "nodes N' = (nodes N)(n := s')" "holds B n G N'"
    by (auto simp del: fun_upd_apply)
  then show ?case using s by (auto intro: converse_rtranclp_into_rtranclp)
qed

lemma sim_restart_dumps:
  assumes n: "n \<in> M"
  shows "member_sim ops cfg M blank n B G (awrite (restart_all_dumps ops I))"
proof (rule simI)
  fix N :: "'a net" and st :: "'a sync" and r st'
  assume h: "holds B n G N" and s: "nodes N n = sy_store st" and run: "awrite (restart_all_dumps ops I) st = (r, st')"
  show "\<exists>N'. (net_step ops cfg M blank)\<^sup>*\<^sup>* N N' \<and> nodes N' n = sy_store st' \<and> (\<forall>k. k \<noteq> n \<longrightarrow> nodes N' k = nodes N k) \<and> holds B n G N'"
  proof (cases "restart_all_dumps ops I (sy_store st)")
    case (Inl e)
    then show ?thesis using run s h by (intro exI [of _ N]) (auto simp: awrite_def acommit_def)
  next
    case (Inr s')
    then obtain N' where "(net_step ops cfg M blank)\<^sup>*\<^sup>* N N'" "nodes N' = (nodes N)(n := s')" "holds B n G N'"
      using dumps_steps [OF n h, of ops "ix_peers I" s'] s by (auto simp: restart_all_dumps_def)
    then show ?thesis using run Inr by (intro exI [of _ N']) (auto simp: awrite_def acommit_def)
  qed
qed

lemma sim_park: "n \<in> M \<Longrightarrow> member_sim ops cfg M blank n B G (park_cursor ops I peer req resp)"
  unfolding park_cursor_def Let_def
  by (intro sim_if sim_bind [where Q = "holds B n G"] sim_aret sim_aread sim_dump sim_restart_dumps) auto

lemma sim_apply_body:
  assumes n: "n \<in> M" and b: "b \<in> B" "u \<in> set (rb_origins b)"
  shows "member_sim ops cfg M blank n B G (apply_body ops (cfg n) u)"
proof -
  have suffix: "member_sim ops cfg M blank n B G (acommit (apply_suffix ops (cfg n) (ou_origin u) (ou_generation u) es))"
    if "ou_body u = Some (Suffix es)" for es
  proof (rule sim_acommit)
    fix N :: "'a net" and x s' assume h: "holds B n G N"
      and run: "apply_suffix ops (cfg n) (ou_origin u) (ou_generation u) es (nodes N n) = Inr (x, s')"
    have bm: "b \<in> mail N" using h b(1) by (auto simp: holds_def)
    have "net_step ops cfg M blank N (put_node n s' N)"
      by (rule net_step.suffix [where n = n and N = N and cfg = cfg and u = u and es = es and r = x and s' = s']) (use bm n b(2) that run in simp_all)
    then
    show "\<exists>N'. net_step ops cfg M blank N N' \<and> nodes N' = (nodes N)(n := s') \<and> holds B n G N'"
      using h by (intro exI [of _ "put_node n s' N"]) simp
  qed
  have snapshot: "member_sim ops cfg M blank n B G (acommit (apply_snapshot ops (cfg n) (ou_origin u) (ou_generation u) (ou_seq u) held))"
    if "ou_body u = Some (Snapshot held)" for held
  proof (rule sim_acommit)
    fix N :: "'a net" and x s' assume h: "holds B n G N"
      and run: "apply_snapshot ops (cfg n) (ou_origin u) (ou_generation u) (ou_seq u) held (nodes N n) = Inr (x, s')"
    have bm: "b \<in> mail N" using h b(1) by (auto simp: holds_def)
    have "net_step ops cfg M blank N (put_node n s' N)"
      by (rule net_step.snapshot [where n = n and N = N and cfg = cfg and u = u and held = held and k = x and s' = s']) (use bm n b(2) that run in simp_all)
    then
    show "\<exists>N'. net_step ops cfg M blank N N' \<and> nodes N' = (nodes N)(n := s') \<and> holds B n G N'"
      using h by (intro exI [of _ "put_node n s' N"]) simp
  qed
  show ?thesis unfolding apply_body_def
    by (cases "ou_body u")
      (auto split: update_body.split apply_result.split intro!: sim_aret sim_bind [where Q = "holds B n G"] suffix snapshot)
qed

text \<open>Reminting uses up a fresh generation.\<close>

lemma bump_generation: "bump_self_generation ops I wall floor s = Inr (g, s') \<Longrightarrow> g = max wall (sat_add64 floor 1)"
  by (auto simp: bump_self_generation_def Let_def bindr_eq_Inr)

definition mint_of :: "nat \<Rightarrow> origin_update \<Rightarrow> nat" where
  "mint_of wall u = max wall (sat_add64 (ou_generation u) 1)"

lemma sim_own_update:
  assumes n: "n \<in> M" and g: "mint_of wall u \<notin> G"
  shows "sim ops cfg M blank n (holds B n (insert (mint_of wall u) G)) (own_update ops (cfg n) wall u) (holds B n G)"
proof -
  have bump: "sim ops cfg M blank n (holds B n (insert (mint_of wall u) G))
      (acommit (bump_self_generation ops (cfg n) wall (ou_generation u))) (holds B n G)"
  proof (rule sim_acommit)
    fix N :: "'a net" and x s' assume h: "holds B n (insert (mint_of wall u) G) N"
      and run: "bump_self_generation ops (cfg n) wall (ou_generation u) (nodes N n) = Inr (x, s')"
    have x: "x = mint_of wall u" using bump_generation [OF run] by (simp add: mint_of_def)
    have fr: "fresh_gen N n (max wall (sat_add64 (ou_generation u) 1))" using h by (simp add: holds_def mint_of_def)
    have "net_step ops cfg M blank N (put_node n s' N\<lparr>minted := insert (n, x) (minted N)\<rparr>)"
      by (rule net_step.remint [where n = n and N = N and cfg = cfg and now = wall and floor = "ou_generation u"])
        (use n fr run in simp_all)
    then show "\<exists>N'. net_step ops cfg M blank N N' \<and> nodes N' = (nodes N)(n := s') \<and> holds B n G N'"
      using holds_minted [OF h g, of s'] by (intro exI [of _ "put_node n s' N\<lparr>minted := insert (n, x) (minted N)\<rparr>"]) (simp add: x)
  qed (auto intro: holds_mono)
  show ?thesis unfolding own_update_def
    by (intro sim_bind [where Q = "holds B n (insert (mint_of wall u) G)"] sim_aread)
      (auto split: prod.split intro!: sim_aret sim_bind [OF bump] sim_amodify simp: hint_peers_def elim: holds_mono)
qed

text \<open>A round over the updates of one answer; the generations it may mint are pairwise distinct.\<close>

definition own_mints :: "string \<Rightarrow> nat \<Rightarrow> origin_update list \<Rightarrow> nat list" where
  "own_mints me wall us = map (mint_of wall) (filter (\<lambda>u. ou_origin u = me) us)"

lemma sim_round_update:
  assumes n: "n \<in> M" and b: "b \<in> B" "u \<in> set (rb_origins b)" and o: "ou_origin u \<noteq> ix_self (cfg n)"
  shows "member_sim ops cfg M blank n B G (round_update ops (cfg n) wall u acc)"
proof -
  obtain ch tr adv where acc: "acc = (ch, tr, adv)" by (cases acc)
  have tail: "member_sim ops cfg M blank n B G (abind (amodify f) (\<lambda>_. aret x))"
    if "\<And>st. sy_store (f st) = sy_store st" for f and x :: "bool \<times> bool \<times> advert list"
    by (rule sim_bind [where Q = "holds B n G"]) (auto intro: sim_amodify sim_aret that)
  show ?thesis
    unfolding acc by (simp add: o) (auto split: prod.split simp: Let_def
        intro!: sim_aret sim_bind [OF sim_apply_body [OF n b]] tail)
qed

lemma sim_round_updates:
  assumes n: "n \<in> M" and b: "b \<in> B" "set us \<subseteq> set (rb_origins b)" and d: "distinct (own_mints (ix_self (cfg n)) wall us)"
  shows "sim ops cfg M blank n (holds B n (set (own_mints (ix_self (cfg n)) wall us)))
     (aeach (round_update ops (cfg n) wall) us acc) (holds B n {})"
  using b(2) d
proof (induction us arbitrary: acc)
  case Nil
  then show ?case by (simp add: sim_aret own_mints_def)
next
  case (Cons u us)
  let ?G = "\<lambda>us. set (own_mints (ix_self (cfg n)) wall us)"
  have IH: "sim ops cfg M blank n (holds B n (?G us)) (aeach (round_update ops (cfg n) wall) us a) (holds B n {})" for a
    by (rule Cons.IH) (use Cons.prems in \<open>auto simp: own_mints_def split: if_splits\<close>)
  show ?case
  proof (cases "ou_origin u = ix_self (cfg n)")
    case True
    obtain ch tr adv where acc: "acc = (ch, tr, adv)" by (cases acc)
    have G: "?G (u # us) = insert (mint_of wall u) (?G us)" "mint_of wall u \<notin> ?G us"
      using True Cons.prems(2) by (auto simp: own_mints_def)
    have "sim ops cfg M blank n (holds B n (?G (u # us))) (round_update ops (cfg n) wall u acc) (holds B n (?G us))"
      unfolding acc G(1) by (simp add: True) (intro sim_bind [OF sim_own_update [OF n G(2)]] sim_aret)
    then show ?thesis by (auto intro!: sim_bind IH elim: holds_mono)
  next
    case False
    then have "?G (u # us) = ?G us" by (simp add: own_mints_def)
    moreover have "member_sim ops cfg M blank n B (?G us) (round_update ops (cfg n) wall u acc)"
      by (rule sim_round_update [where b = b and cfg = cfg]) (use n b(1) False Cons.prems(1) in simp_all)
    ultimately show ?thesis by (auto intro!: sim_bind IH elim: holds_mono)
  qed
qed

lemma sim_settle: "member_sim ops cfg M blank n B G (amodify (settle_leases now idx adv))"
  by (rule sim_amodify) (simp_all add: settle_leases_def split: prod.split)

lemma sim_request: "member_sim ops cfg M blank n B G (round_request ops I now idx)"
  unfolding round_request_def
  by (intro sim_bind [where Q = "holds B n G"] sim_aread sim_aret sim_same_store) (auto split: prod.split)

text \<open>
  A pull round: the peer answers with bundles that are in the network, and the wall clock of
  the round would mint distinct fresh generations.
\<close>

definition honest_peer :: "(string \<Rightarrow> index_cfg) \<Rightarrow> respond_bundle set \<Rightarrow> string \<Rightarrow> (sync_request \<Rightarrow> sync_response option) \<Rightarrow> bool" where
  "honest_peer cfg B p peer \<longleftrightarrow> (\<forall>req resp. peer req = Some resp \<longrightarrow> (\<exists>b\<in>B. resp = answer_of (cfg p) b))"

definition mints_ok :: "string \<Rightarrow> nat \<Rightarrow> respond_bundle set \<Rightarrow> nat set \<Rightarrow> bool" where
  "mints_ok me wall B G \<longleftrightarrow> (\<forall>b\<in>B. distinct (own_mints me wall (rb_origins b)) \<and> set (own_mints me wall (rb_origins b)) \<subseteq> G)"

lemma sim_pull_round:
  assumes n: "n \<in> M" and me: "ix_self (cfg n) = n" and peer: "honest_peer cfg B p peer" and mint: "mints_ok n wall B G"
  shows "sim ops cfg M blank n (holds B n G) (pull_round ops (cfg n) now wall idx peer) (holds B n {})"
  unfolding pull_round_def
proof (rule sim_bind [OF sim_request])
  fix req
  show "sim ops cfg M blank n (holds B n G)
    (case peer req of None \<Rightarrow> afail PullFailed
       | Some resp \<Rightarrow>
           if sp_responder resp \<noteq> ix_peers (cfg n) ! idx then afail (Misnamed (sp_responder resp) (ix_peers (cfg n) ! idx))
           else abind (round_facts ops resp) (\<lambda>changed.
             abind (park_cursor ops (cfg n) (ix_peers (cfg n) ! idx) req resp) (\<lambda>_.
             abind (aeach (round_update ops (cfg n) wall) (sp_origins resp)
                     (changed, sp_atts_truncated resp \<or> next_cursor resp = DUMP_RESTART, []))
               (\<lambda>(changed, truncated, adv).
             abind (amodify (settle_leases now idx adv)) (\<lambda>_.
               aret (changed, truncated, sp_fact_root resp)))))) (holds B n {})"
  proof (cases "peer req")
    case None
    then show ?thesis by (auto intro: sim_afail holds_mono)
  next
    case (Some resp)
    then obtain b where b: "b \<in> B" "resp = answer_of (cfg p) b"
      using peer by (auto simp: honest_peer_def)
    then have o: "sp_origins resp = rb_origins b" by (simp add: answer_of_def)
    let ?G = "set (own_mints (ix_self (cfg n)) wall (sp_origins resp))"
    have d: "distinct (own_mints (ix_self (cfg n)) wall (sp_origins resp))" and G: "?G \<subseteq> G"
      using mint b(1) o me by (auto simp: mints_ok_def)
    have loop: "sim ops cfg M blank n (holds B n G) (aeach (round_update ops (cfg n) wall) (sp_origins resp) acc) (holds B n {})" for acc
      by (rule sim_weaken [OF sim_round_updates [where b = b and wall = wall and us = "sp_origins resp" and cfg = cfg and acc = acc and n = n and B = B]])
        (use n b(1) o d G in \<open>auto intro: holds_mono\<close>)
    have settle: "sim ops cfg M blank n (holds B n {}) (abind (amodify (settle_leases now idx adv)) (\<lambda>_. aret r)) (holds B n {})" for adv and r :: "bool \<times> bool \<times> bytes"
      by (rule sim_bind [OF sim_settle]) (auto intro: sim_aret)
    show ?thesis
      by (simp add: Some) (auto split: prod.split intro!: sim_afail sim_bind [OF sim_facts [OF n]] sim_bind [OF sim_park [OF n]]
          sim_bind [OF loop] settle intro: holds_mono)
  qed
qed (auto intro: holds_mono)

lemma sim_maintain:
  assumes n: "n \<in> M"
  shows "member_sim ops cfg M blank n B G (amaintain ops (cfg n) now)"
proof (rule simI)
  fix N :: "'a net" and st :: "'a sync" and r st'
  assume h: "holds B n G N" and s: "nodes N n = sy_store st" and run: "amaintain ops (cfg n) now st = (r, st')"
  consider "sy_store st' = sy_store st" | t where "compact ops (cfg n) (sy_store st) = Inr t" "sy_store st' = t"
    using run by (auto simp: amaintain_def maybe_compact_def split: if_splits option.splits sum.splits)
  then show "\<exists>N'. (net_step ops cfg M blank)\<^sup>*\<^sup>* N N' \<and> nodes N' n = sy_store st' \<and> (\<forall>k. k \<noteq> n \<longrightarrow> nodes N' k = nodes N k) \<and> holds B n G N'"
  proof cases
    case 1
    then show ?thesis using h s by (intro exI [of _ N]) simp
  next
    case 2
    have "net_step ops cfg M blank N (put_node n t N)"
      by (rule net_step.compaction [where n = n and cfg = cfg]) (use n 2 s in simp_all)
    then show ?thesis using h 2 by (intro exI [of _ "put_node n t N"]) auto
  qed
qed

text \<open>Serving a request: the watermarks, the answer (which enters the network), the paced compaction.\<close>

lemma sim_watermarks:
  fixes ops :: "'a store_ops"
  assumes n: "n \<in> M" and req: "is_known_origin (cfg n) (sr_requester req)" "\<forall>c\<in>set (sr_have req). oc_seq c < 2 ^ 64"
  shows "member_sim ops cfg M blank n B G (awrite (record_watermarks ops (cfg n) (sr_requester req) (sr_have req)))"
proof (rule sim_awrite)
  fix N :: "'a net" and s' assume "holds B n G N" and run: "record_watermarks ops (cfg n) (sr_requester req) (sr_have req) (nodes N n) = Inr s'"
  then show "\<exists>N'. net_step ops cfg M blank N N' \<and> nodes N' = (nodes N)(n := s') \<and> holds B n G N'"
    using net_step.watermark [where n = n and N = N and cfg = cfg and p = "sr_requester req" and clocks = "sr_have req" and s' = s', of M ops blank] n req
    by (intro exI [of _ "put_node n s' N"]) simp
qed

lemma serve_steps:
  assumes n: "n \<in> M" and req: "is_known_origin (cfg n) (sr_requester req)" "\<forall>c\<in>set (sr_have req). oc_seq c < 2 ^ 64" "u64_asks req"
    and s: "nodes N n = sy_store st" and run: "serve_sync ops (cfg n) now req st = (Inr resp, st')"
  shows "\<exists>N' b. (net_step ops cfg M blank)\<^sup>*\<^sup>* N N' \<and> nodes N' = (nodes N)(n := sy_store st') \<and>
     resp = answer_of (cfg n) b \<and> b \<in> mail N'"
proof -
  obtain t b where t: "awrite (record_watermarks ops (cfg n) (sr_requester req) (sr_have req)) st = (Inr (), t)"
     "respond ops (cfg n) (sy_store t) req = Inr b" "amaintain ops (cfg n) now t = (Inr (), st')" "resp = answer_of (cfg n) b"
    using run by (auto simp: serve_sync_def abind_def aread_def aret_def split: sum.splits prod.splits)
  have h: "holds {} n {} N" by (simp add: holds_def)
  obtain N1 where N1: "(net_step ops cfg M blank)\<^sup>*\<^sup>* N N1" "nodes N1 n = sy_store t" "\<forall>k. k \<noteq> n \<longrightarrow> nodes N1 k = nodes N k"
    using simD [OF sim_watermarks [where cfg = cfg and req = req, OF n req(1,2)] h s t(1)] by blast
  let ?N2 = "N1\<lparr>mail := insert b (mail N1)\<rparr>"
  have a: "net_step ops cfg M blank N1 ?N2" by (rule net_step.answer [OF n req(3)]) (simp add: N1(2) t(2))
  have h2: "holds {b} n {} ?N2" "nodes ?N2 n = sy_store t" using N1(2) by (simp_all add: holds_def)
  obtain N3 where N3: "(net_step ops cfg M blank)\<^sup>*\<^sup>* ?N2 N3" "nodes N3 n = sy_store st'" "\<forall>k. k \<noteq> n \<longrightarrow> nodes N3 k = nodes ?N2 k"
     "holds {b} n {} N3"
    using simD [OF sim_maintain [where cfg = cfg and n = n, OF n] h2 t(3)] by blast
  have "(net_step ops cfg M blank)\<^sup>*\<^sup>* N N3" using N1(1) a N3(1) by (meson r_into_rtranclp rtranclp_trans)
  moreover have "nodes N3 = (nodes N)(n := sy_store st')" using N1(3) N3(2,3) by (auto simp: fun_eq_iff)
  moreover have "b \<in> mail N3" using N3(4) by (simp add: holds_def)
  ultimately show ?thesis using t(4) by blast
qed

end
