(* ===== verification/Mesh.thy ===== *)
theory Mesh
  imports Sync_Net Progress Rocks_Store
begin

text \<open>
  The mesh on the embedded backend: the invariants of theory \<open>Net\<close>, the simulation of
  theory \<open>Sync_Net\<close> and the progress of theory \<open>Progress\<close>, with the store instantiated by
  the model of \<open>src/store/rocks.rs\<close>. The witnesses run two nodes, \<open>a\<close> and \<open>b\<close>.
\<close>

section \<open>The empty store\<close>

lemma rocks_empty_views:
  "rk_clock rocks_empty = (\<lambda>_. clock_default)" "rk_journal rocks_empty = (\<lambda>_. Map.empty)"
  "rk_held rocks_empty = (\<lambda>_. {})" "rk_meta rocks_empty k = None"
  by (auto simp: rk_views rocks_empty_def get_cf_def clock_view_def journal_view_def held_view_def meta_view_def fun_eq_iff
      split: option.splits)

lemma net_reach_steps:
  "(net_step ops cfg M blank)\<^sup>*\<^sup>* N N' \<Longrightarrow> net_reach ops cfg M blank N \<Longrightarrow> net_reach ops cfg M blank N'"
  by (induction rule: rtranclp_induct) (auto intro: net_reach.step)

context wire_codec
begin

lemma rocks_reach_ok:
  assumes "mesh_cfg C M cfg" and "net_reach (rocks_ops C) cfg M rocks_empty N"
  shows "\<exists>T. rocks_mesh.net_ok M T N"
  by (rule rocks_mesh.net_reach_ok [OF assms(1) rocks_inv_empty rocks_empty_views assms(2)])

lemmas rocks_same_clock = rocks_mesh.same_clock_same_held
lemmas rocks_never_ahead = rocks_mesh.never_ahead
lemmas rocks_round_progress = rocks_mesh.pull_round_progress
lemmas rocks_net_ok_def = rocks_mesh.net_ok_def
lemmas rocks_advanced_def = rocks_mesh.advanced_def

end

section \<open>A run of two nodes\<close>

definition demo_cfg :: "string \<Rightarrow> index_cfg" where
  "demo_cfg n = \<lparr>ix_self = n, ix_peers = filter (\<lambda>p. p \<noteq> n) [''a'', ''b''], ix_trusted = [], ix_crypto = demo_crypto,
     ix_codec = plain_codec\<rparr>"

abbreviation "demo_members \<equiv> {''a'', ''b''} :: string set"
abbreviation "demo_ops \<equiv> rocks_ops plain_codec"
abbreviation "demo_reach \<equiv> net_reach demo_ops demo_cfg demo_members rocks_empty"

lemma demo_mesh_cfg: "mesh_cfg plain_codec demo_members demo_cfg"
  by (auto simp: mesh_cfg_def demo_cfg_def is_known_origin_def ok_name_def)

lemma demo_known: "is_known_origin (demo_cfg ''a'') ''b''" "is_known_origin (demo_cfg ''b'') ''a''"
  by (simp_all add: demo_cfg_def is_known_origin_def)

definition demo_history :: "string \<Rightarrow> op list \<Rightarrow> histories" where
  "demo_history n H = extend_history (\<lambda>_. Map.empty) n 1 H"

text \<open>A member right after it opened an empty store at time 1.\<close>

lemma demo_open:
  assumes "n \<in> demo_members"
  shows "\<exists>s. index_open demo_ops (demo_cfg n) 1 rocks_empty = Inr s \<and> rocks.copies_ok (demo_history n []) s \<and>
     rocks.own_head (demo_history n []) n s"
proof -
  have "\<exists>s'. index_open demo_ops (demo_cfg n) 1 rocks_empty = Inr s' \<and>
     rocks.copies_ok (extend_history (\<lambda>_. Map.empty) (ix_self (demo_cfg n)) 1 []) s' \<and>
     rocks.own_head (extend_history (\<lambda>_. Map.empty) (ix_self (demo_cfg n)) 1 []) (ix_self (demo_cfg n)) s' \<and>
     rocks.self_gen_ok (ix_self (demo_cfg n)) s'"
    by (rule rocks.open_fresh_true [OF rocks_inv_empty rocks_empty_views]) (use assms in \<open>auto simp: demo_cfg_def ok_name_def\<close>)
  moreover have "ix_self (demo_cfg n) = n" by (simp add: demo_cfg_def)
  ultimately show ?thesis by (auto simp: demo_history_def)
qed

lemma demo_history_at: "demo_history n H o' g = (if o' = n \<and> g = 1 then Some H else None)"
  by (simp add: demo_history_def extend_history_def)

lemma demo_copies:
  assumes "rocks.copies_ok (demo_history n H) s"
  shows "o' \<noteq> n \<Longrightarrow> rk_clock s o' = clock_default \<and> rk_held s o' = {}"
    and "generation (rk_clock s n) = 1 \<Longrightarrow> seq (rk_clock s n) = length H \<Longrightarrow> rk_held s n = held_after H"
proof -
  have c: "known_copy plain_codec (demo_history n H) o' (rk_clock s o') (rk_journal s o') (rk_held s o')" for o'
    using assms by (simp add: rocks.copies_ok_def)
  show "rk_clock s o' = clock_default \<and> rk_held s o' = {}" if "o' \<noteq> n"
    using c [of o'] that by (auto simp: known_copy_def demo_history_at)
  show "rk_held s n = held_after H" if "generation (rk_clock s n) = 1" "seq (rk_clock s n) = length H"
    using c [of n] that by (auto simp: known_copy_def demo_history_at copy_of_def clock_default_def)
qed

lemma demo_own:
  "rocks.own_head (demo_history n H) n s \<Longrightarrow> generation (rk_clock s n) = 1 \<and> seq (rk_clock s n) = length H"
  by (auto simp: rocks.own_head_def demo_history_at split: if_splits)

definition demo_hash :: bytes where "demo_hash = replicate 32 7"

definition demo_request :: sync_request where
  "demo_request = \<lparr>sr_requester = ''b'', sr_have = [], sr_atts_cursor = [], sr_skip_origins = [], sr_ranges = [], sr_merkle = []\<rparr>"

lemma demo_names: "origin_names (demo_cfg ''a'') = [''a'', ''b'']"
  by (simp add: demo_cfg_def origin_names_def)

text \<open>Node \<open>a\<close> exports one hash; a first request is answered with a snapshot of it.\<close>

lemma demo_answer:
  assumes s: "rocks.copies_ok (demo_history ''a'' H) s" and own: "rocks.own_head (demo_history ''a'' H) ''a'' s"
  shows "\<exists>b hs. respond demo_ops (demo_cfg ''a'') s demo_request = Inr b \<and> set hs = rk_held s ''a'' \<and>
     rb_origins b = [\<lparr>ou_origin = ''a'', ou_generation = 1, ou_seq = length H, ou_body = Some (Snapshot hs), ou_truncated = False\<rparr>]"
proof -
  have inv: "rocks_inv plain_codec s" using s by (simp add: rocks.copies_ok_def)
  have a: "so_clock demo_ops s ''a'' = Inr (rk_clock s ''a'')" "so_clock demo_ops s ''b'' = Inr clock_default"
    using rocks.clock_read [OF inv, of "''a''"] rocks.clock_read [OF inv, of "''b''"] demo_copies(1) [OF s, of "''b''"]
    by (simp_all add: ok_name_def)
  have c: "generation (rk_clock s ''a'') = 1" "seq (rk_clock s ''a'') = length H" using demo_own [OF own] by auto
  obtain hs where hs: "so_holdings demo_ops s ''a'' = Inr hs" "set hs = rk_held s ''a''"
    using rocks.holdings_read [OF inv, of "''a''"] by (auto simp: ok_name_def)
  let ?u = "\<lparr>ou_origin = ''a'', ou_generation = 1, ou_seq = length H, ou_body = Some (Snapshot hs), ou_truncated = False\<rparr>"
  obtain used where loop: "for_each (respond_origin demo_ops (demo_cfg ''a'') s demo_request RESPONSE_BYTES_CAP) [''a'', ''b''] ([], False, 0)
      = Inr ([?u], True, used)"
    by (simp add: a c hs(1) demo_request_def RESPONSE_BYTES_CAP_def clock_default_def)
  obtain page nxt where p: "so_attestation_page demo_ops s [] (sr_atts_cursor demo_request)
      (max (min ATTS_PAGE_CAP (RESPONSE_BYTES_CAP - used)) ATTS_PAGE_FLOOR) = Inr (page, nxt)"
    using rocks.page_read [OF inv] by blast
  obtain r where "so_merkle_root demo_ops s = Inr r" using rocks.root_read [OF inv] by blast
  moreover have "sr_ranges demo_request = []" "sr_merkle demo_request = []" by (simp_all add: demo_request_def)
  ultimately obtain b where "respond demo_ops (demo_cfg ''a'') s demo_request = Inr b" "rb_origins b = [?u]"
    unfolding respond_def respond_budgeted_def demo_names by (simp add: loop p del: for_each.simps)
  then show ?thesis using hs(2) by blast
qed

text \<open>The run: both nodes open, \<open>a\<close> exports \<open>demo_hash\<close>, answers, and \<open>b\<close> applies the answer.\<close>

lemma demo_run:
  "\<exists>N. demo_reach N \<and> rk_held (nodes N ''a'') ''a'' = {demo_hash} \<and>
     generation (rk_clock (nodes N ''a'') ''a'') = 1 \<and> seq (rk_clock (nodes N ''a'') ''a'') = 1 \<and>
     generation (rk_clock (nodes N ''b'') ''a'') = 1 \<and> seq (rk_clock (nodes N ''b'') ''a'') = 1 \<and>
     rk_clock (nodes N ''a'') ''b'' = clock_default \<and>
     rocks.copies_ok (demo_history ''a'' [Have demo_hash]) (nodes N ''a'') \<and>
     rocks.own_head (demo_history ''a'' [Have demo_hash]) ''a'' (nodes N ''a'')"
proof -
  obtain sa sb where sa: "index_open demo_ops (demo_cfg ''a'') 1 rocks_empty = Inr sa" "rocks.copies_ok (demo_history ''a'' []) sa"
     "rocks.own_head (demo_history ''a'' []) ''a'' sa"
    and sb: "index_open demo_ops (demo_cfg ''b'') 1 rocks_empty = Inr sb" "rocks.copies_ok (demo_history ''b'' []) sb"
    using demo_open [of "''a''"] demo_open [of "''b''"] by blast
  define N0 where "N0 = \<lparr>nodes = (\<lambda>n. if n = ''a'' then sa else sb), mail = {}, minted = (\<lambda>n. (n, 1)) ` demo_members\<rparr>"
  have "net_start demo_ops demo_cfg demo_members rocks_empty N0"
    unfolding net_start_def using sa(1) sb(1) by (auto simp: N0_def intro!: exI [of _ "\<lambda>_. 1"])
  then have r0: "demo_reach N0" by (rule net_reach.start)
  have ca: "generation (rk_clock sa ''a'') = 1" "seq (rk_clock sa ''a'') = 0" using demo_own [OF sa(3)] by auto
  have cfga: "ix_self (demo_cfg ''a'') = ''a''" "ix_codec (demo_cfg ''a'') = plain_codec" by (simp_all add: demo_cfg_def)
  have inva: "rocks_inv plain_codec sa" using sa(2) by (simp add: rocks.copies_ok_def)
  have u: "u64_histories (demo_history ''a'' [])" by (simp add: u64_histories_def demo_history_at)
  have h32: "length demo_hash = 32" by (simp add: demo_hash_def)
  have "\<exists>s' H. export_ops demo_ops (demo_cfg ''a'') [] [HAdd demo_hash] sa = Inr (length [] + length [HAdd demo_hash], s') \<and>
     demo_history ''a'' [] ''a'' 1 = Some H \<and>
     rocks.copies_ok (extend_history (demo_history ''a'' []) ''a'' 1 (H @ [Have demo_hash])) s' \<and>
     rocks.own_head (extend_history (demo_history ''a'' []) ''a'' 1 (H @ [Have demo_hash])) ''a'' s'"
    using rocks.export_ops_true [OF sa(2) u, of "demo_cfg ''a''" "[HAdd demo_hash]" "[]"] sa(3) ca h32
    by (simp add: cfga ok_name_def) blast
  then obtain ta where ta: "export_ops demo_ops (demo_cfg ''a'') [] [HAdd demo_hash] sa = Inr (1, ta)"
     "rocks.copies_ok (demo_history ''a'' [Have demo_hash]) ta" "rocks.own_head (demo_history ''a'' [Have demo_hash]) ''a'' ta"
    by (auto simp: demo_history_at) (simp add: demo_history_def)
  have held: "rk_held ta ''a'' = {demo_hash}"
    using demo_copies(2) [OF ta(2)] demo_own [OF ta(3)] h32 by (simp add: held_after_def)
  have "net_step demo_ops demo_cfg demo_members rocks_empty N0 (put_node ''a'' ta N0)"
  proof (rule net_step.export [where n = "''a''" and holds = "[HAdd demo_hash]" and attests = "[]" and c = "rk_clock sa ''a''" and k = 1])
    show "so_clock demo_ops (nodes N0 ''a'') ''a'' = Inr (rk_clock sa ''a'')"
      using rocks.clock_read [OF inva, of "''a''"] by (simp add: N0_def ok_name_def)
  qed (simp_all add: h32 N0_def ca ta(1))
  with r0 have r1: "demo_reach (put_node ''a'' ta N0)" by (rule net_reach.step)
  let ?N1 = "put_node ''a'' ta N0"
  obtain b hs where b: "respond demo_ops (demo_cfg ''a'') ta demo_request = Inr b" "set hs = {demo_hash}"
     "rb_origins b = [\<lparr>ou_origin = ''a'', ou_generation = 1, ou_seq = 1, ou_body = Some (Snapshot hs), ou_truncated = False\<rparr>]"
    using demo_answer [OF ta(2,3)] held by auto
  have ask: "u64_asks demo_request" by (simp add: u64_asks_def demo_request_def)
  let ?N2 = "?N1\<lparr>mail := insert b (mail ?N1)\<rparr>"
  have "net_step demo_ops demo_cfg demo_members rocks_empty ?N1 ?N2"
    by (rule net_step.answer [where n = "''a''" and req = demo_request]) (simp_all add: b(1) ask)
  with r1 have r2: "demo_reach ?N2" by (rule net_reach.step)
  have invb: "rocks_inv plain_codec sb" using sb(2) by (simp add: rocks.copies_ok_def)
  have cb: "rk_clock sb ''a'' = clock_default" using demo_copies(1) [OF sb(2)] by simp
  have f: "filter (\<lambda>h. length h = 32) hs = hs" using b(2) h32 by (auto intro: filter_True)
  obtain tb where tb: "so_replace_holdings demo_ops sb ''a'' 1 1 hs = Inr (True, tb)"
     "rk_clock tb = (rk_clock sb)(''a'' := \<lparr>generation = 1, seq = 1, tail_seq = 1\<rparr>)"
    using rocks.replace_done [OF invb, of "''a''" 1 1 hs] b(2) h32 by (auto simp: ok_name_def cb clock_default_def)
  have ap: "apply_snapshot demo_ops (demo_cfg ''b'') ''a'' 1 1 hs sb = Inr (length hs, tb)"
    using tb(1) by (simp add: apply_snapshot_def Let_def f demo_cfg_def is_known_origin_def del: One_nat_def)
  have "net_step demo_ops demo_cfg demo_members rocks_empty ?N2 (put_node ''b'' tb ?N2)"
    by (rule net_step.snapshot [where n = "''b''" and b = b and u = "hd (rb_origins b)" and held = hs and k = "length hs"])
      (simp_all add: b(3) ap N0_def del: One_nat_def)
  with r2 have r3: "demo_reach (put_node ''b'' tb ?N2)" by (rule net_reach.step)
  show ?thesis
    by (rule exI [of _ "put_node ''b'' tb ?N2"]) (use r3 held tb(2) demo_own [OF ta(3)] ta(2,3) demo_copies(1) [OF ta(2)] in simp)
qed

section \<open>Agreement\<close>

text \<open>
  C8: In every reachable state of the mesh, whatever was lost, delivered twice or out of
  order, compacted, restarted, wiped or reminted, two nodes that are at the same clock of an
  origin (generation and sequence number) list the same paths as held by it.
\<close>
theorem same_clock_same_possession:
  assumes "wire_codec C" and "mesh_cfg C M cfg" and "net_reach (rocks_ops C) cfg M rocks_empty N" and "n \<in> M" and "m \<in> M"
    and "generation (rk_clock (nodes N n) o') = generation (rk_clock (nodes N m) o')"
    and "seq (rk_clock (nodes N n) o') = seq (rk_clock (nodes N m) o')"
  shows "rk_held (nodes N n) o' = rk_held (nodes N m) o'"
proof -
  obtain T where "mesh_store.net_ok C (rocks_inv C) rk_clock rk_journal rk_held rk_meta M T N"
    using wire_codec.rocks_reach_ok [OF assms(1-3)] by blast
  then show ?thesis by (rule wire_codec.rocks_same_clock [OF assms(1) _ assms(4-7)])
qed

theorem same_clock_same_possession_witness:
  "\<exists>N. demo_reach N \<and> rk_held (nodes N ''b'') ''a'' = {demo_hash}"
proof -
  obtain N where N: "demo_reach N" "rk_held (nodes N ''a'') ''a'' = {demo_hash}"
     "generation (rk_clock (nodes N ''b'') ''a'') = generation (rk_clock (nodes N ''a'') ''a'')"
     "seq (rk_clock (nodes N ''b'') ''a'') = seq (rk_clock (nodes N ''a'') ''a'')" using demo_run by auto
  have "rk_held (nodes N ''b'') ''a'' = rk_held (nodes N ''a'') ''a''"
    by (rule same_clock_same_possession [OF plain.wire_codec_axioms demo_mesh_cfg N(1) _ _ N(3,4)]) simp_all
  then show ?thesis using N by auto
qed

text \<open>
  Within a generation no node is ever ahead of an origin on that origin's own journal:
  nobody invents events.
\<close>
theorem no_copy_ahead_of_its_origin:
  assumes "wire_codec C" and "mesh_cfg C M cfg" and "net_reach (rocks_ops C) cfg M rocks_empty N" and "n \<in> M" and "m \<in> M"
    and "generation (rk_clock (nodes N n) m) = generation (rk_clock (nodes N m) m)"
  shows "seq (rk_clock (nodes N n) m) \<le> seq (rk_clock (nodes N m) m)"
proof -
  obtain T where "mesh_store.net_ok C (rocks_inv C) rk_clock rk_journal rk_held rk_meta M T N"
    using wire_codec.rocks_reach_ok [OF assms(1-3)] by blast
  then show ?thesis by (rule wire_codec.rocks_never_ahead [OF assms(1) _ assms(4-6)])
qed

theorem no_copy_ahead_of_its_origin_witness:
  "\<exists>N. demo_reach N \<and> generation (rk_clock (nodes N ''b'') ''a'') = 1 \<and>
     seq (rk_clock (nodes N ''b'') ''a'') \<le> seq (rk_clock (nodes N ''a'') ''a'')"
proof -
  obtain N where N: "demo_reach N" "generation (rk_clock (nodes N ''b'') ''a'') = 1"
     "generation (rk_clock (nodes N ''b'') ''a'') = generation (rk_clock (nodes N ''a'') ''a'')" using demo_run by auto
  have "seq (rk_clock (nodes N ''b'') ''a'') \<le> seq (rk_clock (nodes N ''a'') ''a'')"
    by (rule no_copy_ahead_of_its_origin [OF plain.wire_codec_axioms demo_mesh_cfg N(1) _ _ N(3)]) simp_all
  then show ?thesis using N by blast
qed

section \<open>The code runs the transition system\<close>





section \<open>Progress\<close>

text \<open>
  C10: A pull round from a peer that knows no future of our own origin returns, never moves a
  clock back, and, unless it says that another round is due, leaves every origin the peer
  knows skipped (another loop serves it), at least at the peer's clock, or given to the
  catch-up engine with the peer's clock as its target.
\<close>
theorem pull_round_catches_up:
  assumes "wire_codec C" and "mesh_cfg C M cfg" and "net_reach (rocks_ops C) cfg M rocks_empty N" and "n \<in> M" and "p \<in> M"
    and "nodes N n = sy_store st" and "ix_peers (cfg n) ! idx = p"
    and "clock_le (rk_clock (nodes N p) n) (rk_clock (nodes N n) n)"
  shows "\<exists>ch tr root st'. pull_round (rocks_ops C) (cfg n) now wall idx (peer_of (rocks_ops C) (cfg p) (nodes N p)) st = (Inr (ch, tr, root), st') \<and>
     (\<forall>a. clock_le (rk_clock (nodes N n) a) (rk_clock (sy_store st') a)) \<and>
     (tr \<or> (\<forall>a. is_known_origin (cfg p) a \<longrightarrow> is_known_origin (cfg n) a \<longrightarrow>
        a \<in> set (skipped now idx (cfg n) (rk_clock (nodes N n)) (sy_leases st)) \<or>
        clock_le (rk_clock (nodes N p) a) (rk_clock (sy_store st') a) \<or>
        \<lparr>en_origin = a, en_generation = generation (rk_clock (nodes N p) a), en_target = seq (rk_clock (nodes N p) a)\<rparr> \<in> set (sy_enrolls st')))"
proof -
  obtain T where T: "mesh_store.net_ok C (rocks_inv C) rk_clock rk_journal rk_held rk_meta M T N"
    using wire_codec.rocks_reach_ok [OF assms(1-3)] by blast
  note ok = T [unfolded wire_codec.rocks_net_ok_def [OF assms(1)]]
  have n: "ix_self (cfg n) = n" "ix_codec (cfg n) = C" and p: "ix_self (cfg p) = p" "ix_codec (cfg p) = C"
    using mesh_cfgD(1) [OF assms(2)] assms(4,5) by simp_all
  have s: "sync_store.copies_ok C (rocks_inv C) rk_clock rk_journal rk_held T (sy_store st)"
    "sync_store.copies_ok C (rocks_inv C) rk_clock rk_journal rk_held T (nodes N p)"
    using ok assms(4,5,6) by metis+
  show ?thesis
    using wire_codec.rocks_round_progress [OF assms(1) s, where I = "cfg n" and P = "cfg p" and now = now and wall = wall and idx = idx]
      ok mesh_cfgD(2) [OF assms(2,4)] mesh_cfgD(2) [OF assms(2,5)] assms(6-8)
    unfolding n p wire_codec.rocks_advanced_def [OF assms(1)] by (metis n(1) p(1))
qed

theorem pull_round_catches_up_witness:
  "\<exists>N ch tr root st'. demo_reach N \<and> generation (rk_clock (nodes N ''a'') ''a'') = 1 \<and>
     pull_round demo_ops (demo_cfg ''b'') 0 2 0 (peer_of demo_ops (demo_cfg ''a'') (nodes N ''a'')) (sync_new (nodes N ''b'')) =
       (Inr (ch, tr, root), st') \<and>
     clock_le (rk_clock (nodes N ''b'') ''a'') (rk_clock (sy_store st') ''a'')"
proof -
  obtain N where N: "demo_reach N" "generation (rk_clock (nodes N ''a'') ''a'') = 1"
     "clock_le (rk_clock (nodes N ''a'') ''b'') (rk_clock (nodes N ''b'') ''b'')"
    using demo_run by (fastforce simp: clock_le_def clock_default_def)
  have "\<exists>ch tr root st'. pull_round demo_ops (demo_cfg ''b'') 0 2 0 (peer_of demo_ops (demo_cfg ''a'') (nodes N ''a''))
       (sync_new (nodes N ''b'')) = (Inr (ch, tr, root), st') \<and>
     (\<forall>a. clock_le (rk_clock (nodes N ''b'') a) (rk_clock (sy_store st') a))"
    using pull_round_catches_up [OF plain.wire_codec_axioms demo_mesh_cfg N(1) _ _ _ _ N(3), where idx = 0 and now = 0 and wall = 2
        and st = "sync_new (nodes N ''b'')"]
    by (auto simp: demo_cfg_def sync_new_def)
  then show ?thesis using N(1,2) by blast
qed

end
