(* ===== verification/Pool.thy ===== *)
theory Pool
  imports Complex_Main Prelude Kv
begin

text \<open>
  Which peer to ask next (\<open>src/pool.rs\<close>): multiplicative weights over observed throughput,
  and the persistence of the weights in the index (\<open>save_mw\<close>, \<open>load_mw\<close> of
  \<open>src/index.rs\<close>, \<open>mw_*\<close> of \<open>src/store/rocks.rs\<close>). An \<open>f64\<close> is a real number, so rounding
  is not modelled and the branches for NaN are those of a total that is not positive; a
  persisted value that is not finite is None. An index outside the pool panics in
  \<open>pick_among\<close> and \<open>hedge_shares\<close>: None.
\<close>

section \<open>State\<close>

definition ETA :: real where "ETA = 7 / 10"
definition W_MIN :: real where "W_MIN = 3 / 100"
definition BEST_DECAY :: real where "BEST_DECAY = 999 / 1000"
definition AVG_ALPHA :: real where "AVG_ALPHA = 1 / 10"
definition SHARE :: real where "SHARE = 5 / 1000"

record pool =
  pl_weight :: "real list"
  pl_best_rate :: real
  pl_avg_loss :: real
  pl_rng :: "64 word"
  pl_observations :: nat
  pl_eta :: real
  pl_share :: real

definition pool_new :: "nat \<Rightarrow> pool" where
  "pool_new n = \<lparr>pl_weight = replicate (max n 1) 1, pl_best_rate = 0, pl_avg_loss = 0, pl_rng = 0x9E3779B97F4A7C15,
     pl_observations = 0, pl_eta = ETA, pl_share = SHARE\<rparr>"

text \<open>SplitMix64: the output and the next state.\<close>

definition next_u64 :: "64 word \<Rightarrow> 64 word \<times> 64 word" where
  "next_u64 s =
     (let s = s + 0x9E3779B97F4A7C15;
          z = (s XOR drop_bit 30 s) * 0xBF58476D1CE4E5B9;
          z = (z XOR drop_bit 27 z) * 0x94D049BB133111EB
      in (z XOR drop_bit 31 z, s))"

definition unit_f64 :: "64 word \<Rightarrow> real" where
  "unit_f64 x = real (unat (drop_bit 11 x)) / 2 ^ 53"

section \<open>Observations\<close>

definition pool_apply :: "nat \<Rightarrow> real \<Rightarrow> pool \<Rightarrow> pool" where
  "pool_apply idx loss p =
     (if idx \<ge> length (pl_weight p) then p
      else
        let ws = (pl_weight p)[idx := pl_weight p ! idx * exp (- pl_eta p * (loss - pl_avg_loss p))];
            avg = pl_avg_loss p + AVG_ALPHA * (loss - pl_avg_loss p);
            mx = foldl max 0 ws;
            ws = (if mx > 0 then map (\<lambda>w. w / mx) ws else map (\<lambda>_. 1) ws);
            mean = sum_list ws / real (length ws);
            ws = map (\<lambda>w. max ((1 - pl_share p) * w + pl_share p * mean) W_MIN) ws
        in p\<lparr>pl_observations := pl_observations p + 1, pl_avg_loss := avg, pl_weight := ws\<rparr>)"

text \<open>A completed transfer of \<open>n\<close> bytes in \<open>elapsed\<close> nanoseconds.\<close>

definition record_success :: "nat \<Rightarrow> nat \<Rightarrow> nat \<Rightarrow> pool \<Rightarrow> pool" where
  "record_success idx n elapsed p =
     (let secs = real elapsed / 10 ^ 9 in
      if n = 0 \<or> secs \<le> 5 / 10000 then p
      else
        let rate = real n / secs;
            p = p\<lparr>pl_best_rate := max (pl_best_rate p * BEST_DECAY) rate\<rparr>;
            loss = (if pl_best_rate p > 0 then min (max (1 - rate / pl_best_rate p) 0) 1 else 0)
        in pool_apply idx loss p)"

definition record_failure :: "nat \<Rightarrow> pool \<Rightarrow> pool" where
  "record_failure idx p = pool_apply idx 1 p"

fun restore_weights :: "real list \<Rightarrow> real option list \<Rightarrow> real list" where
  "restore_weights (w # ws) (v # vs) = (case v of Some x \<Rightarrow> min (max x W_MIN) 1 | None \<Rightarrow> 1) # restore_weights ws vs"
| "restore_weights ws _ = ws"

definition restore :: "real option list \<Rightarrow> real option \<Rightarrow> real option \<Rightarrow> pool \<Rightarrow> pool" where
  "restore weights best_rate avg_loss p =
     p\<lparr>pl_weight := restore_weights (pl_weight p) weights,
       pl_best_rate := (case best_rate of Some b \<Rightarrow> max b 0 | None \<Rightarrow> 0),
       pl_avg_loss := (case avg_loss of Some a \<Rightarrow> min (max a 0) 1 | None \<Rightarrow> 0)\<rparr>"

definition pool_snapshot :: "pool \<Rightarrow> real list \<times> real \<times> real \<times> nat" where
  "pool_snapshot p = (pl_weight p, pl_best_rate p, pl_avg_loss p, pl_observations p)"

section \<open>Draws\<close>

definition weights_at :: "pool \<Rightarrow> nat list \<Rightarrow> real list option" where
  "weights_at p allowed =
     (if list_all (\<lambda>i. i < length (pl_weight p)) allowed then Some (map (\<lambda>i. pl_weight p ! i) allowed) else None)"

text \<open>The routing share of \<open>idx\<close> among \<open>allowed\<close>, and the share it would have at the floor.\<close>

definition hedge_shares :: "pool \<Rightarrow> nat list \<Rightarrow> nat \<Rightarrow> (real \<times> real) option" where
  "hedge_shares p allowed idx =
     (case weights_at p allowed of
        None \<Rightarrow> None
      | Some ws \<Rightarrow>
          let total = sum_list ws in
          if \<not> total > 0 then let u = 1 / real (max (length allowed) 1) in Some (u, u)
          else
            let w = (if idx < length (pl_weight p) then pl_weight p ! idx else 0);
                others = max (total - w) 0
            in Some (w / total, W_MIN / (W_MIN + others)))"

definition chance :: "real \<Rightarrow> pool \<Rightarrow> bool \<times> pool" where
  "chance q p =
     (if q \<le> 0 then (False, p)
      else case next_u64 (pl_rng p) of (x, s) \<Rightarrow> (unit_f64 x < q, p\<lparr>pl_rng := s\<rparr>))"

fun pick_loop :: "real \<Rightarrow> nat list \<Rightarrow> real list \<Rightarrow> nat option" where
  "pick_loop r (i # is) (w # ws) = (let r = r - w in if r \<le> 0 then Some i else pick_loop r is ws)"
| "pick_loop r _ _ = None"

definition pick_among :: "nat list \<Rightarrow> pool \<Rightarrow> (nat option \<times> pool) option" where
  "pick_among allowed p =
     (if allowed = [] then Some (None, p)
      else case weights_at p allowed of
        None \<Rightarrow> None
      | Some ws \<Rightarrow>
          let total = sum_list ws; (x, s) = next_u64 (pl_rng p); p = p\<lparr>pl_rng := s\<rparr> in
          if \<not> total > 0 then Some (Some (allowed ! (unat x mod length allowed)), p)
          else case pick_loop (unit_f64 x * total) allowed ws of
            Some i \<Rightarrow> Some (Some i, p)
          | None \<Rightarrow> Some (Some (last allowed), p))"

section \<open>Persistence\<close>

text \<open>
  The rows of the \<open>mw\<close> column family (weight and Unix time, by peer name) and the line of
  \<open>mw_globals\<close>, its three fields as parsed back (\<open>f64\<close> and integers print and parse exactly).
\<close>

record mw_store =
  mw_rows :: "(string, real \<times> nat) kv"
  mw_globals :: "(real \<times> real \<times> int) option"

definition MW_HALF_LIFE_SECS :: real where "MW_HALF_LIFE_SECS = 86400"

definition mw_save :: "(string \<times> real) list \<Rightarrow> nat \<Rightarrow> real \<times> real \<times> int \<Rightarrow> mw_store \<Rightarrow> mw_store" where
  "mw_save rows updated globals m =
     \<lparr>mw_rows = fold (\<lambda>(peer, w). kv_put peer (w, updated)) rows (mw_rows m), mw_globals = Some globals\<rparr>"

definition mw_prune :: "string list \<Rightarrow> mw_store \<Rightarrow> mw_store" where
  "mw_prune keep m = m\<lparr>mw_rows := filter (\<lambda>(peer, _). peer \<in> set keep) (mw_rows m)\<rparr>"

definition save_mw :: "nat \<Rightarrow> string list \<Rightarrow> real list \<Rightarrow> real \<Rightarrow> real \<Rightarrow> mw_store \<Rightarrow> mw_store" where
  "save_mw now peers weights best_rate avg_loss m = mw_save (zip peers weights) now (best_rate, avg_loss, int now) m"

definition decay :: "int \<Rightarrow> real" where
  "decay age = (1 / 2) powr (real_of_int (max age 0) / MW_HALF_LIFE_SECS)"

definition load_mw :: "nat \<Rightarrow> string list \<Rightarrow> mw_store \<Rightarrow> (real list \<times> real \<times> real) option \<times> mw_store" where
  "load_mw now peers m =
     (let rows = mw_rows m in
      if rows = [] then (None, m)
      else
        let m' = (if list_ex (\<lambda>(name, _). name \<notin> set peers) rows then mw_prune peers m else m);
            weight_of = (\<lambda>name. case map_of rows name of
              Some (w, updated) \<Rightarrow> 1 + (w - 1) * decay (int now - int updated)
            | None \<Rightarrow> 1)
        in if \<not> list_ex (\<lambda>name. map_of rows name \<noteq> None) peers then (None, m')
           else (Some (map weight_of peers,
             (case mw_globals m of
                Some (br, al, updated) \<Rightarrow> let f = decay (int now - updated) in (br * f, al * f)
              | None \<Rightarrow> (0, 0))), m'))"

section \<open>The invariant\<close>

definition pool_ok :: "nat \<Rightarrow> pool \<Rightarrow> bool" where
  "pool_ok n p \<longleftrightarrow> n > 0 \<and> length (pl_weight p) = n \<and> (\<forall>w\<in>set (pl_weight p). W_MIN \<le> w \<and> w \<le> 1) \<and>
     0 \<le> pl_best_rate p \<and> 0 \<le> pl_avg_loss p \<and> pl_avg_loss p \<le> 1 \<and> pl_eta p = ETA \<and> pl_share p = SHARE"

lemma W_MIN_range: "0 < W_MIN" "W_MIN \<le> 1" "0 \<le> W_MIN" "W_MIN \<noteq> 0"
  by (simp_all add: W_MIN_def)

lemma pool_ok_new: "pool_ok (max n 1) (pool_new n)"
  by (auto simp: pool_ok_def pool_new_def W_MIN_def)

lemma foldl_max: "(a :: real) \<le> foldl max a xs" "x \<in> set xs \<Longrightarrow> x \<le> foldl max a xs"
proof -
  show ge: "a \<le> foldl max a xs" for a :: real and xs
  proof (induction xs arbitrary: a)
    case (Cons y xs)
    show ?case using Cons.IH [of "max a y"] by (simp del: max.bounded_iff)
  qed simp
  show "x \<in> set xs \<Longrightarrow> x \<le> foldl max a xs"
  proof (induction xs arbitrary: a)
    case (Cons y xs)
    then show ?case using ge [of "max a y" xs] by auto
  qed simp
qed

lemma sum_list_bounds:
  assumes "\<And>x. x \<in> set xs \<Longrightarrow> a \<le> x \<and> x \<le> (b :: real)"
  shows "real (length xs) * a \<le> sum_list xs \<and> sum_list xs \<le> real (length xs) * b"
  using assms by (induction xs) (force simp: algebra_simps)+

lemma mix_le_1: "0 \<le> s \<Longrightarrow> s \<le> 1 \<Longrightarrow> w \<le> 1 \<Longrightarrow> m \<le> 1 \<Longrightarrow> (1 - s) * w + s * m \<le> (1 :: real)"
  using convex_bound_le [of w 1 m "1 - s" s] by simp

lemma pool_apply_ok:
  assumes p: "pool_ok n p" and l: "0 \<le> loss" "loss \<le> 1"
  shows "pool_ok n (pool_apply idx loss p)"
proof (cases "idx < length (pl_weight p)")
  case True
  define ws where "ws = (pl_weight p)[idx := pl_weight p ! idx * exp (- pl_eta p * (loss - pl_avg_loss p))]"
  let ?mx = "foldl max 0 ws"
  have pos: "0 < w" if "w \<in> set (pl_weight p)" for w using p W_MIN_range(1) that by (fastforce simp: pool_ok_def)
  have wpos: "0 < w" if "w \<in> set ws" for w
  proof -
    obtain j where "j < length (pl_weight p)" "w = ws ! j" using \<open>w \<in> set ws\<close> by (auto simp: ws_def in_set_conv_nth)
    then show ?thesis using pos [OF nth_mem] True by (cases "j = idx") (simp_all add: ws_def)
  qed
  have ne: "ws \<noteq> []" "length ws = n" using p True by (auto simp: ws_def pool_ok_def)
  then obtain w0 where w0: "w0 \<in> set ws" by (cases ws) auto
  have mx: "0 < ?mx" using foldl_max(2) [OF w0, of 0] wpos [OF w0] by linarith
  let ?vs = "map (\<lambda>w. w / ?mx) ws"
  have v: "0 \<le> v \<and> v \<le> 1" if "v \<in> set ?vs" for v
    using that mx foldl_max(2) [of _ ws 0] wpos by (auto simp: less_imp_le)
  have mean: "sum_list ?vs / real (length ?vs) \<le> 1"
    using sum_list_bounds [of ?vs 0 1] v ne by (auto simp: divide_le_eq_1)
  have s: "0 \<le> SHARE" "SHARE \<le> 1" by (simp_all add: SHARE_def)
  have avg: "0 \<le> pl_avg_loss p + AVG_ALPHA * (loss - pl_avg_loss p)" "pl_avg_loss p + AVG_ALPHA * (loss - pl_avg_loss p) \<le> 1"
  proof -
    have "pl_avg_loss p + AVG_ALPHA * (loss - pl_avg_loss p) = 9 / 10 * pl_avg_loss p + 1 / 10 * loss"
      by (simp add: AVG_ALPHA_def field_simps)
    moreover have "0 \<le> pl_avg_loss p" "pl_avg_loss p \<le> 1" using p by (simp_all add: pool_ok_def)
    ultimately show "0 \<le> pl_avg_loss p + AVG_ALPHA * (loss - pl_avg_loss p)" "pl_avg_loss p + AVG_ALPHA * (loss - pl_avg_loss p) \<le> 1"
      using l by linarith+
  qed
  let ?f = "\<lambda>w. max ((1 - SHARE) * w + SHARE * (sum_list ?vs / real (length ?vs))) W_MIN"
  have f: "W_MIN \<le> ?f v \<and> ?f v \<le> 1" if "v \<in> set ?vs" for v
    using mix_le_1 [OF s _ mean, of v] v [OF that] W_MIN_range by (simp only: max.bounded_iff max.cobounded2 simp_thms)
  have share: "pl_share p = SHARE" using p by (simp add: pool_ok_def)
  have "pool_apply idx loss p = p\<lparr>pl_observations := pl_observations p + 1,
      pl_avg_loss := pl_avg_loss p + AVG_ALPHA * (loss - pl_avg_loss p), pl_weight := map ?f ?vs\<rparr>"
    unfolding pool_apply_def Let_def ws_def [symmetric] share using True mx by simp
  moreover have "\<forall>w\<in>set (map ?f ?vs). W_MIN \<le> w \<and> w \<le> 1" using f by (metis (no_types, lifting) image_iff list.set_map)
  moreover have "length (map ?f ?vs) = n" using ne(2) by simp
  ultimately show ?thesis using p avg unfolding pool_ok_def by (simp del: set_map max.bounded_iff)
qed (use p in \<open>simp add: pool_apply_def\<close>)

lemma record_success_ok:
  assumes "pool_ok n p"
  shows "pool_ok n (record_success idx b t p)"
  using assms by (auto simp: record_success_def Let_def intro!: pool_apply_ok) (auto simp: pool_ok_def BEST_DECAY_def)

lemma restore_weights_ok:
  "length (restore_weights ws vs) = length ws"
  "(\<And>w. w \<in> set ws \<Longrightarrow> W_MIN \<le> w \<and> w \<le> 1) \<Longrightarrow> w \<in> set (restore_weights ws vs) \<Longrightarrow> W_MIN \<le> w \<and> w \<le> 1"
  by (induction ws vs rule: restore_weights.induct) (auto simp: W_MIN_def split: option.splits)

lemma restore_ok:
  assumes "pool_ok n p"
  shows "pool_ok n (restore ws br al p)"
proof -
  have "W_MIN \<le> w \<and> w \<le> 1" if "w \<in> set (restore_weights (pl_weight p) ws)" for w
    by (rule restore_weights_ok(2) [OF _ that]) (use assms in \<open>simp add: pool_ok_def\<close>)
  then show ?thesis
    using assms by (cases br; cases al) (simp_all add: pool_ok_def restore_def restore_weights_ok(1))
qed

section \<open>What a pool promises\<close>

datatype pool_op = Succeed nat nat nat | Fail nat | Restore "real option list" "real option" "real option"
  | Chance real | Pick "nat list"

fun pool_step :: "pool_op \<Rightarrow> pool \<Rightarrow> pool" where
  "pool_step (Succeed idx b t) p = record_success idx b t p"
| "pool_step (Fail idx) p = record_failure idx p"
| "pool_step (Restore ws br al) p = restore ws br al p"
| "pool_step (Chance q) p = snd (chance q p)"
| "pool_step (Pick allowed) p = (case pick_among allowed p of Some (_, p') \<Rightarrow> p' | None \<Rightarrow> p)"

lemma pool_ok_rng [simp]: "pool_ok n (p\<lparr>pl_rng := s\<rparr>) = pool_ok n p"
  by (simp add: pool_ok_def)

lemma pool_step_ok: "pool_ok n p \<Longrightarrow> pool_ok n (pool_step x p)"
  by (cases x) (auto simp: record_success_ok restore_ok record_failure_def pool_apply_ok chance_def pick_among_def Let_def split: prod.splits option.splits if_splits)

lemma pool_run_ok: "pool_ok (max n 1) (fold pool_step xs (pool_new n))"
proof -
  have "pool_ok m p \<Longrightarrow> pool_ok m (fold pool_step xs p)" for m p
    by (induction xs arbitrary: p) (simp_all add: pool_step_ok)
  then show ?thesis using pool_ok_new by blast
qed

lemma pool_run_length: "length (pl_weight (fold pool_step xs (pool_new n))) = max n 1"
  using pool_run_ok [of n xs] by (simp add: pool_ok_def)

lemma unit_f64_range: "0 \<le> unit_f64 x" "unit_f64 x < 1"
proof -
  have "unat x < 2 ^ 64" using unsigned_less [of x, where ?'a = nat] by simp
  then have "unat x div 2 ^ 11 < 2 ^ 53" by (intro less_mult_imp_div_less) simp
  then have "unat (drop_bit 11 x) < 2 ^ 53" by (subst unat_drop_bit_eq) (simp only: drop_bit_eq_div)
  then have "real (unat (drop_bit 11 x)) < 2 ^ 53" by (metis of_nat_less_iff of_nat_numeral of_nat_power)
  then show "unit_f64 x < 1" by (simp add: unit_f64_def)
  show "0 \<le> unit_f64 x" unfolding unit_f64_def by (rule divide_nonneg_nonneg) (rule of_nat_0_le_iff, simp)
qed

lemma pick_loop_spec:
  assumes "length is = length ws" "ws \<noteq> []" "r \<le> sum_list ws"
  shows "\<exists>k<length is. pick_loop r is ws = Some (is ! k) \<and> (k = 0 \<or> sum_list (take k ws) < r) \<and> r \<le> sum_list (take (Suc k) ws)"
  using assms
proof (induction r "is" ws rule: pick_loop.induct)
  case (1 r i "is" w ws)
  show ?case
  proof (cases "r - w \<le> 0")
    case True
    then show ?thesis by (intro exI [of _ 0]) simp
  next
    case False
    then have "ws \<noteq> []" using 1(4) by auto
    then obtain k where k: "k < length is" "pick_loop (r - w) is ws = Some (is ! k)" "k = 0 \<or> sum_list (take k ws) < r - w"
       "r - w \<le> sum_list (take (Suc k) ws)"
      using 1(1) [OF refl False] 1(2,4) by (auto simp: algebra_simps)
    then show ?thesis using False by (intro exI [of _ "Suc k"]) auto
  qed
qed simp_all

text \<open>
  However the pool was driven, a draw among peers of the pool takes the next random
  number \<open>u\<close> in [0,1) and picks the peer in whose stretch of the cumulated weights \<open>u\<close> times the
  total falls, so the chance of a peer is its share of the weight and the fallback for
  rounding is not reached.
\<close>
theorem pick_follows_the_weights:
  assumes "allowed \<noteq> []" and "set allowed \<subseteq> {..<max n 1}" and "p = fold pool_step xs (pool_new n)"
    and "ws = map (\<lambda>i. pl_weight p ! i) allowed" and "next_u64 (pl_rng p) = (x, s)"
  shows "\<exists>k<length allowed. pick_among allowed p = Some (Some (allowed ! k), p\<lparr>pl_rng := s\<rparr>) \<and>
     (k = 0 \<or> sum_list (take k ws) < unit_f64 x * sum_list ws) \<and> unit_f64 x * sum_list ws \<le> sum_list (take (Suc k) ws) \<and>
     0 \<le> unit_f64 x \<and> unit_f64 x < 1"
proof -
  have ok: "pool_ok (max n 1) p" using pool_run_ok assms(3) by simp
  have at: "weights_at p allowed = Some ws"
    using assms(2,4) ok by (auto simp: weights_at_def list_all_iff pool_ok_def)
  have w: "W_MIN \<le> w" if "w \<in> set ws" for w
    using that assms(2,4) ok by (auto simp: pool_ok_def)
  have tot: "0 < sum_list ws"
  proof -
    obtain v vs where "ws = v # vs" using assms(1,4) by (cases allowed) auto
    moreover have "0 \<le> sum_list vs" using w W_MIN_range calculation by (intro sum_list_nonneg) force
    ultimately show ?thesis using w [of v] W_MIN_range by simp
  qed
  have "unit_f64 x * sum_list ws \<le> sum_list ws" using tot unit_f64_range [of x] by simp
  then obtain k where "k < length allowed" "pick_loop (unit_f64 x * sum_list ws) allowed ws = Some (allowed ! k)"
     "k = 0 \<or> sum_list (take k ws) < unit_f64 x * sum_list ws" "unit_f64 x * sum_list ws \<le> sum_list (take (Suc k) ws)"
    using pick_loop_spec [of allowed ws] assms(1,4) by auto
  then show ?thesis using assms(1,5) at tot unit_f64_range [of x] by (auto simp: pick_among_def Let_def)
qed

theorem pick_follows_the_weights_witness:
  "\<exists>k<2. pick_among [0, 1] (pool_new 2) = Some (Some ([0, 1] ! k), (pool_new 2)\<lparr>pl_rng := snd (next_u64 (pl_rng (pool_new 2)))\<rparr>)"
proof -
  let ?p = "pool_new 2" and ?r = "next_u64 (pl_rng (pool_new 2))"
  have "[0, 1] \<noteq> ([] :: nat list)" "set [0, 1 :: nat] \<subseteq> {..<max 2 1}" "?p = fold pool_step [] ?p" "?r = (fst ?r, snd ?r)" by auto
  from pick_follows_the_weights [OF this(1-3) refl this(4)]
  obtain k where "k < length [0, 1 :: nat]" "pick_among [0, 1] ?p = Some (Some ([0, 1] ! k), ?p\<lparr>pl_rng := snd ?r\<rparr>)" by blast
  moreover have "length [0, 1 :: nat] = 2" by simp
  ultimately show ?thesis by metis
qed

text \<open>
  C21: However the pool was driven, every allowed peer keeps a routing share of at least
  \<open>W_MIN\<close> over the number of allowed peers, so a peer that collapsed is found again, and its share
  is never below the share at the floor that anchors the hedge.
\<close>
theorem every_peer_keeps_a_share:
  assumes "i \<in> set allowed" and "set allowed \<subseteq> {..<max n 1}"
  shows "\<exists>a b. hedge_shares (fold pool_step xs (pool_new n)) allowed i = Some (a, b) \<and>
     W_MIN / real (length allowed) \<le> a \<and> a \<le> 1 \<and> 0 < b \<and> b \<le> a"
proof -
  let ?p = "fold pool_step xs (pool_new n)"
  let ?ws = "map (\<lambda>i. pl_weight ?p ! i) allowed" and ?w = "pl_weight ?p ! i"
  have ok: "pool_ok (max n 1) ?p" by (rule pool_run_ok)
  have at: "weights_at ?p allowed = Some ?ws" using assms(2) ok by (auto simp: weights_at_def list_all_iff pool_ok_def)
  have rng: "W_MIN \<le> w \<and> w \<le> 1" if "w \<in> set ?ws" for w using that assms(2) ok by (auto simp: pool_ok_def)
  have w: "W_MIN \<le> ?w" "?w \<le> 1" "0 < ?w" using rng [of ?w] assms(1) W_MIN_range(1) by auto
  have le: "?w \<le> sum_list ?ws"
  proof (rule member_le_sum_list)
    show "?w \<in> set ?ws" using assms(1) by simp
    show "0 \<le> w" if "w \<in> set ?ws" for w using rng [OF that] W_MIN_range(3) by linarith
  qed
  have len: "0 < length allowed" using assms(1) by (cases allowed) auto
  have tot: "0 < sum_list ?ws" "sum_list ?ws \<le> real (length allowed)"
  proof -
    show "0 < sum_list ?ws" using le w(3) by linarith
    show "sum_list ?ws \<le> real (length allowed)" using sum_list_bounds [of ?ws W_MIN 1, OF rng] by simp
  qed
  have i: "i < length (pl_weight ?p)" using assms ok by (auto simp: pool_ok_def)
  let ?a = "?w / sum_list ?ws" and ?b = "W_MIN / (W_MIN + (sum_list ?ws - ?w))"
  have h: "hedge_shares ?p allowed i = Some (?a, ?b)"
    using at tot(1) i le by (simp add: hedge_shares_def Let_def)
  have "W_MIN / real (length allowed) \<le> ?a"
    by (rule frac_le) (use tot len w in simp_all)
  moreover have "?a \<le> 1" using le divide_le_eq_1_pos [OF tot(1)] by blast
  moreover have "0 < ?b" by (rule divide_pos_pos) (use le W_MIN_range(1) in linarith)+
  moreover have "?b \<le> ?a"
  proof -
    have "W_MIN * (sum_list ?ws - ?w) \<le> ?w * (sum_list ?ws - ?w)" using w le by (intro mult_right_mono) auto
    then have "W_MIN * sum_list ?ws \<le> ?w * (W_MIN + (sum_list ?ws - ?w))" by (simp add: algebra_simps)
    moreover have "0 < W_MIN + (sum_list ?ws - ?w)" using le W_MIN_range(1) by linarith
    ultimately show ?thesis using tot(1) by (simp only: pos_divide_le_eq times_divide_eq_left pos_le_divide_eq)
  qed
  ultimately show ?thesis using h by blast
qed

theorem every_peer_keeps_a_share_witness:
  "\<exists>a b. hedge_shares (record_failure 1 (pool_new 2)) [0, 1] 1 = Some (a, b) \<and> 3 / 200 \<le> a"
  using every_peer_keeps_a_share [of 1 "[0, 1]" 2 "[Fail 1]"] by (auto simp: W_MIN_def)

section \<open>What is persisted\<close>

lemma decay_range: "0 < decay a" "decay a \<le> 1"
proof -
  show "0 < decay a" by (simp add: decay_def)
  have "(2 :: real) powr (- (real_of_int (max a 0) / MW_HALF_LIFE_SECS)) \<le> 2 powr 0"
    by (rule powr_mono) (simp_all add: MW_HALF_LIFE_SECS_def)
  then show "decay a \<le> 1" by (simp add: decay_def powr_divide powr_minus inverse_eq_divide)
qed

lemma map_of_fold_put:
  "map_of (fold (\<lambda>(k, w). kv_put k (w, u)) rows t) = map_of t ++ map_of (rev (map (\<lambda>(k, w). (k, (w, u))) rows))"
  by (induction rows arbitrary: t) (auto simp: map_add_def fun_eq_iff split: option.splits prod.splits)

text \<open>
  What \<open>save_mw\<close> stores \<open>load_mw\<close> returns in the order asked for, each weight pulled
  towards 1 and the yardstick and mean loss towards 0 by the age, and within the bounds of
  the pool; rows of peers that left are reaped.
\<close>
theorem load_saved_weights:
  assumes "distinct peers" and "peers \<noteq> []" and "length weights = length peers"
  shows "\<exists>m'. load_mw now' peers (save_mw now peers weights br al m) =
       (Some (map (\<lambda>w. 1 + (w - 1) * decay (int now' - int now)) weights,
              br * decay (int now' - int now), al * decay (int now' - int now)), m') \<and>
     fst ` set (mw_rows m') \<subseteq> set peers"
proof -
  let ?rows = "mw_rows (save_mw now peers weights br al m)"
  have r: "map_of ?rows name = (case map_of (zip peers weights) name of Some w \<Rightarrow> Some (w, now) | None \<Rightarrow> map_of (mw_rows m) name)" for name
  proof -
    have d: "distinct (map fst (zip peers weights))" using assms(1,3) by simp
    have "map_of (rev (map (\<lambda>(k, w). (k, (w, now))) (zip peers weights))) = map_of (map (\<lambda>(k, w). (k, (w, now))) (zip peers weights))"
      using d by (intro map_of_inject_set [THEN iffD2]) (auto simp: rev_map [symmetric] comp_def split_def)
    moreover have "map_of (map (\<lambda>(k, w). (k, (w, now))) zs) name = map_option (\<lambda>w. (w, now)) (map_of zs name)" for zs
      by (induction zs) auto
    ultimately have "map_of (rev (map (\<lambda>(k, w). (k, (w, now))) (zip peers weights))) name =
        map_option (\<lambda>w. (w, now)) (map_of (zip peers weights) name)" by metis
    then show ?thesis
      unfolding save_mw_def mw_save_def mw_store.simps map_of_fold_put map_add_def by (simp split: option.splits)
  qed
  have at: "map_of (zip peers weights) (peers ! j) = Some (weights ! j)" if "j < length peers" for j
    using that assms(1,3) by (simp add: map_of_zip_nth)
  have hd: "map_of ?rows (hd peers) \<noteq> None" using at [of 0] r [of "hd peers"] assms(2) by (simp add: hd_conv_nth)
  then have ne: "?rows \<noteq> []" by auto
  have any: "list_ex (\<lambda>name. map_of ?rows name \<noteq> None) peers"
    using hd assms(2) by (auto simp: list_ex_iff intro!: bexI [of _ "hd peers"])
  have ws: "map (\<lambda>name. case map_of ?rows name of Some (w, u) \<Rightarrow> 1 + (w - 1) * decay (int now' - int u) | None \<Rightarrow> 1) peers =
      map (\<lambda>w. 1 + (w - 1) * decay (int now' - int now)) weights"
    using assms(3) by (intro nth_equalityI) (simp_all add: r at)
  have g: "mw_globals (save_mw now peers weights br al m) = Some (br, al, int now)" by (simp add: save_mw_def mw_save_def)
  have reap: "fst ` set (mw_rows (if list_ex (\<lambda>(name, _). name \<notin> set peers) ?rows then mw_prune peers (save_mw now peers weights br al m)
      else save_mw now peers weights br al m)) \<subseteq> set peers"
    by (auto simp: list_ex_iff mw_prune_def)
  then show ?thesis
    using ne any by (auto simp: load_mw_def Let_def ws g intro!: exI)
qed

theorem load_saved_weights_witness:
  "\<exists>m'. load_mw 5 [''p''] (save_mw 5 [''p''] [1 / 2] 10 (1 / 4) \<lparr>mw_rows = [(''q'', (1, 0))], mw_globals = None\<rparr>) =
     (Some ([1 / 2], 10, 1 / 4), m') \<and> fst ` set (mw_rows m') \<subseteq> {''p''}"
  using load_saved_weights [of "[''p'']" "[1 / 2]" 5 5 10 "1 / 4" "\<lparr>mw_rows = [(''q'', (1, 0))], mw_globals = None\<rparr>"]
  by (simp add: decay_def)

end
