(* ===== verification/Peers.thy ===== *)
theory Peers
  imports Strings
begin

text \<open>
  The client of a peer (\<open>src/peers.rs\<close>): the circuit breaker, and the exchanges as functions of
  what the HTTP client delivers: a connection error, another send error, or a response
  whose body arrives in fragments (None when the stream breaks). Time is a number of
  nanoseconds. The zstd decoder is an argument: \<open>unz n b\<close> reads at most \<open>n\<close> bytes of the
  decompressed stream, None for a bad frame; so are the decoders of protobuf and JSON.
\<close>

section \<open>The breaker\<close>

record health =
  hl_strikes :: nat
  hl_open_until :: "nat option"
  hl_opens :: nat

definition health_default :: health where
  "health_default = \<lparr>hl_strikes = 0, hl_open_until = None, hl_opens = 0\<rparr>"

definition available :: "nat \<Rightarrow> health \<Rightarrow> bool" where
  "available now h = (case hl_open_until h of None \<Rightarrow> True | Some until \<Rightarrow> now \<ge> until)"

definition record_ok :: "health \<Rightarrow> health" where
  "record_ok h = h\<lparr>hl_strikes := 0, hl_open_until := None\<rparr>"

definition record_strike :: "nat \<Rightarrow> nat \<Rightarrow> nat \<Rightarrow> health \<Rightarrow> health" where
  "record_strike threshold cooldown now h =
     (let h = h\<lparr>hl_strikes := min (hl_strikes h + 1) (2 ^ 32 - 1)\<rparr> in
      if hl_strikes h \<ge> threshold then
        let h = (if available now h then h\<lparr>hl_opens := add64 (hl_opens h) 1\<rparr> else h)
        in h\<lparr>hl_open_until := Some (now + cooldown)\<rparr>
      else h)"

record breaker_status =
  bs_strikes :: nat
  bs_open_ms_remaining :: "nat option"
  bs_opens_total :: nat

definition breaker_status_of :: "nat \<Rightarrow> health \<Rightarrow> breaker_status" where
  "breaker_status_of now h = \<lparr>bs_strikes = hl_strikes h,
     bs_open_ms_remaining = (case hl_open_until h of
        Some u \<Rightarrow> if u > now then Some ((u - now) div 10 ^ 6) else None | None \<Rightarrow> None),
     bs_opens_total = hl_opens h\<rparr>"

text \<open>None if a peer is available or none is asked about.\<close>

fun soonest_from :: "nat \<Rightarrow> nat option \<Rightarrow> health list \<Rightarrow> nat option" where
  "soonest_from now soonest [] = soonest"
| "soonest_from now soonest (h # hs) =
     (case hl_open_until h of
        None \<Rightarrow> None
      | Some t \<Rightarrow> if t \<le> now then None
                  else soonest_from now (Some (case soonest of None \<Rightarrow> t | Some s \<Rightarrow> min s t)) hs)"

definition soonest_recovery :: "nat \<Rightarrow> health list \<Rightarrow> nat option" where
  "soonest_recovery now hs = soonest_from now None hs"

section \<open>Bodies\<close>

definition MANIFEST_CAP :: nat where "MANIFEST_CAP = 256 * 2 ^ 20"
definition SYNC_CAP :: nat where "SYNC_CAP = 64 * 2 ^ 20"
definition SYNC_RAW_CAP :: nat where "SYNC_RAW_CAP = 256 * 2 ^ 20"
definition WIRE_SLACK :: nat where "WIRE_SLACK = 64 * 2 ^ 10"

record http_resp =
  hr_status :: nat
  hr_header :: "string \<Rightarrow> string option"
  hr_length :: "nat option"
  hr_body :: "bytes option list"

datatype http_outcome = ConnectErr | SendErr | Answered http_resp

datatype fetch_err = LengthOverCap | BodyOverCap | BodyBroken | BadUrl | NotSent | Gone | Status nat | BadFrame
  | WrongLength nat | RawOverCap | BadProto | TimedOut

text \<open>The body read so far and the number of bytes reported to the watchdog.\<close>

fun read_stream :: "nat \<Rightarrow> bytes option list \<Rightarrow> bytes \<Rightarrow> nat \<Rightarrow> (fetch_err + bytes) \<times> nat" where
  "read_stream cap [] buf progress = (Inr buf, progress)"
| "read_stream cap (None # _) buf progress = (Inl BodyBroken, progress)"
| "read_stream cap (Some chunk # rest) buf progress =
     (if length buf + length chunk > cap then (Inl BodyOverCap, progress)
      else read_stream cap rest (buf @ chunk) (progress + length chunk))"

definition read_capped_progress :: "nat \<Rightarrow> http_resp \<Rightarrow> (fetch_err + bytes) \<times> nat" where
  "read_capped_progress cap r =
     (case hr_length r of
        Some len \<Rightarrow> if len > cap then (Inl LengthOverCap, 0) else read_stream cap (hr_body r) [] 0
      | None \<Rightarrow> read_stream cap (hr_body r) [] 0)"

definition read_capped :: "nat \<Rightarrow> http_resp \<Rightarrow> fetch_err + bytes" where
  "read_capped cap r = fst (read_capped_progress cap r)"

abbreviation is_success :: "http_resp \<Rightarrow> bool" where
  "is_success r \<equiv> 200 \<le> hr_status r \<and> hr_status r < 300"

section \<open>Exchanges\<close>

text \<open>A round trip of the mesh protocol; \<open>out\<close> is None when \<open>SYNC_TIMEOUT\<close> passes first.\<close>

definition sync_exchange :: "(nat \<Rightarrow> bytes \<Rightarrow> bytes option) \<Rightarrow> (bytes \<Rightarrow> 'r option) \<Rightarrow> http_outcome \<Rightarrow> fetch_err + ('r \<times> nat)" where
  "sync_exchange unz dec out =
     (case out of
        ConnectErr \<Rightarrow> Inl NotSent
      | SendErr \<Rightarrow> Inl NotSent
      | Answered r \<Rightarrow>
          if \<not> is_success r then Inl (Status (hr_status r))
          else bindr (read_capped SYNC_CAP r) (\<lambda>body.
            case unz (SYNC_RAW_CAP + 1) body of
              None \<Rightarrow> Inl BadFrame
            | Some raw \<Rightarrow>
                if length raw > SYNC_RAW_CAP then Inl RawOverCap
                else bindr (ok_or BadProto (dec raw)) (\<lambda>d. Inr (d, length body))))"

definition sync_pull :: "nat \<Rightarrow> nat \<Rightarrow> (nat \<Rightarrow> bytes \<Rightarrow> bytes option) \<Rightarrow> (bytes \<Rightarrow> 'r option) \<Rightarrow> nat \<Rightarrow> http_outcome option \<Rightarrow>
    health \<Rightarrow> (fetch_err + ('r \<times> nat)) \<times> health" where
  "sync_pull threshold cooldown unz dec now out h =
     (case out of
        None \<Rightarrow> (Inl TimedOut, record_strike threshold cooldown now h)
      | Some o' \<Rightarrow> (case sync_exchange unz dec o' of
          Inr x \<Rightarrow> (Inr x, record_ok h)
        | Inl e \<Rightarrow> (Inl e, record_strike threshold cooldown now h)))"

text \<open>The manifest of a NAR; anything but a manifest of our version is absence.\<close>

definition fetch_manifest :: "nat \<Rightarrow> nat \<Rightarrow> (bytes \<Rightarrow> 'm option) \<Rightarrow> ('m \<Rightarrow> nat) \<Rightarrow> nat \<Rightarrow> nat \<Rightarrow> http_outcome option \<Rightarrow> health \<Rightarrow>
    'm option \<times> health" where
  "fetch_manifest threshold cooldown json version_of our_version now out h =
     (case out of
        None \<Rightarrow> (None, h)
      | Some ConnectErr \<Rightarrow> (None, record_strike threshold cooldown now h)
      | Some SendErr \<Rightarrow> (None, h)
      | Some (Answered r) \<Rightarrow>
          (if \<not> is_success r then None
           else case read_capped MANIFEST_CAP r of
             Inl _ \<Rightarrow> None
           | Inr body \<Rightarrow> (case json body of
               Some m \<Rightarrow> if version_of m = our_version then Some m else None
             | None \<Rightarrow> None), h))"

text \<open>Times are in microseconds.\<close>

record chunk =
  ch_bytes :: bytes
  ch_wire :: nat
  ch_srv_read :: nat
  ch_srv_encode :: nat
  ch_pipelined :: bool

definition micros_header :: "http_resp \<Rightarrow> string \<Rightarrow> nat" where
  "micros_header r name = (case hr_header r name of None \<Rightarrow> 0 | Some v \<Rightarrow> (case parse_u64 v of None \<Rightarrow> 0 | Some n \<Rightarrow> n))"

text \<open>
  One chunk [start, end) of a NAR, with the breaker it leaves and the bytes reported to the
  watchdog. \<open>url_ok\<close>: the URL the peer gave joins with its base.
\<close>

definition fetch_range :: "nat \<Rightarrow> nat \<Rightarrow> (nat \<Rightarrow> bytes \<Rightarrow> bytes option) \<Rightarrow> nat \<Rightarrow> bool \<Rightarrow> http_outcome \<Rightarrow> nat \<Rightarrow> nat \<Rightarrow> health \<Rightarrow>
    (fetch_err + chunk) \<times> health \<times> nat" where
  "fetch_range threshold cooldown unz now url_ok out start fin h =
     (let strike = record_strike threshold cooldown now h in
      if \<not> url_ok then (Inl BadUrl, h, 0)
      else case out of
        ConnectErr \<Rightarrow> (Inl NotSent, strike, 0)
      | SendErr \<Rightarrow> (Inl NotSent, h, 0)
      | Answered r \<Rightarrow>
          if hr_status r = 410 then (Inl Gone, h, 0)
          else if 500 \<le> hr_status r \<and> hr_status r < 600 then (Inl (Status (hr_status r)), strike, 0)
          else if hr_status r \<noteq> 206 then (Inl (Status (hr_status r)), h, 0)
          else
            let encoded = (hr_header r ''x-narshare-encoding'' = Some ''zstd'');
                want = fin - start;
                wire_cap = (if encoded then want + WIRE_SLACK else want)
            in case read_capped_progress wire_cap r of
              (Inl e, n) \<Rightarrow> (Inl e, strike, n)
            | (Inr body, n) \<Rightarrow>
                (case (if encoded then unz (want + 1) body else Some body) of
                   None \<Rightarrow> (Inl BadFrame, h, n)
                 | Some raw \<Rightarrow>
                     if length raw \<noteq> want then (Inl (WrongLength (length raw)), h, n)
                     else (Inr \<lparr>ch_bytes = raw, ch_wire = length body,
                             ch_srv_read = micros_header r ''x-narshare-read-us'',
                             ch_srv_encode = micros_header r ''x-narshare-encode-us'',
                             ch_pipelined = (hr_header r ''x-narshare-timing'' = Some ''pipelined'')\<rparr>,
                           record_ok h, n)))"

section \<open>The breaker against its contract\<close>

text \<open>What a peer did, in order: an exchange that succeeded, or a strike at a time.\<close>

datatype outcome = Good | Bad nat

fun health_event :: "nat \<Rightarrow> nat \<Rightarrow> outcome \<Rightarrow> health \<Rightarrow> health" where
  "health_event threshold cooldown Good h = record_ok h"
| "health_event threshold cooldown (Bad t) h = record_strike threshold cooldown t h"

text \<open>The contract: the times of the strikes since the last success, the latest first.\<close>

fun outage :: "outcome list \<Rightarrow> nat list" where
  "outage [] = []"
| "outage (Bad t # es) = t # outage es"
| "outage (Good # es) = []"

definition breaker_after :: "nat \<Rightarrow> nat \<Rightarrow> outcome list \<Rightarrow> health" where
  "breaker_after threshold cooldown es = fold (health_event threshold cooldown) es health_default"

lemma breaker_after_snoc: "breaker_after th c (es @ [e]) = health_event th c e (breaker_after th c es)"
  by (simp add: breaker_after_def)

lemma breaker_after_outage:
  assumes "threshold < 2 ^ 32"
  shows "hl_strikes (breaker_after threshold cooldown es) = min (length (outage (rev es))) (2 ^ 32 - 1) \<and>
     hl_open_until (breaker_after threshold cooldown es) =
       (if outage (rev es) = [] \<or> length (outage (rev es)) < threshold then None else Some (hd (outage (rev es)) + cooldown))"
proof (induction es rule: rev_induct)
  case Nil
  then show ?case by (simp add: breaker_after_def health_default_def)
next
  case (snoc e es)
  show ?case
  proof (cases e)
    case Good
    then show ?thesis by (simp add: breaker_after_snoc record_ok_def)
  next
    case (Bad t)
    then show ?thesis using snoc assms
      by (auto simp: breaker_after_snoc record_strike_def Let_def min_def)
  qed
qed

text \<open>
  C19: The breaker of a peer is exactly its contract: after any history, the peer is skipped at
  a moment iff its latest strikes without a success reach the threshold and the cooldown
  after the last of them has not passed.
\<close>
theorem breaker_meets_contract:
  assumes "threshold < 2 ^ 32"
  shows "available now (breaker_after threshold cooldown es) \<longleftrightarrow>
     outage (rev es) = [] \<or> length (outage (rev es)) < threshold \<or> hd (outage (rev es)) + cooldown \<le> now"
  using breaker_after_outage [OF assms] by (auto simp: available_def)

theorem breaker_meets_contract_witness:
  "\<not> available 12 (breaker_after 2 10 [Bad 1, Good, Bad 3, Bad 5]) \<and> available 15 (breaker_after 2 10 [Bad 1, Good, Bad 3, Bad 5])"
  by (simp add: breaker_meets_contract)

section \<open>The exchanges\<close>

lemma read_stream_bounds:
  assumes "read_stream cap frs buf n = (r, m)" and "length buf = n" and "n \<le> cap"
  shows "m \<le> cap \<and> (\<forall>b. r = Inr b \<longrightarrow> length b = m \<and> b = buf @ concat (map the frs))"
  using assms
proof (induction cap frs buf n rule: read_stream.induct)
  case (3 cap chunk rest buf n)
  show ?case
  proof (cases "length buf + length chunk > cap")
    case False
    then have "m \<le> cap \<and> (\<forall>b. r = Inr b \<longrightarrow> length b = m \<and> b = (buf @ chunk) @ concat (map the rest))"
      using 3(1) [OF False] 3(2-4) by simp
    then show ?thesis by simp
  qed (use 3(2-4) in auto)
qed auto

lemma read_capped_bounds:
  assumes "read_capped_progress cap r = (x, m)"
  shows "m \<le> cap" and "x = Inr b \<Longrightarrow> length b = m \<and> b = concat (map the (hr_body r))"
  using assms read_stream_bounds [of cap "hr_body r" "[]" 0 x m]
  by (auto simp: read_capped_progress_def split: option.splits if_splits)

lemma read_capped_errors:
  assumes "read_capped_progress cap r = (Inl e, m)"
  shows "e \<in> {BodyBroken, BodyOverCap, LengthOverCap}"
proof -
  have "read_stream cap frs buf n = (Inl e, m) \<Longrightarrow> e \<in> {BodyBroken, BodyOverCap, LengthOverCap}" for frs buf n
    by (induction cap frs buf n rule: read_stream.induct) (auto split: if_splits)
  then show ?thesis using assms by (auto simp: read_capped_progress_def split: option.splits if_splits)
qed

text \<open>
  C20: Whatever a peer sends, a chunk request never buffers more than the requested length
  (plus the slack of a compressed frame), a chunk it returns has exactly the requested
  length, and only that closes the breaker; the breaker is struck exactly when the
  connection is refused, the peer answers 5xx, or a 206 body breaks or overruns its cap.
\<close>
theorem fetch_range_contract:
  assumes "fetch_range threshold cooldown unz now url_ok out start fin h = (r, h', n)"
  shows "n \<le> fin - start + WIRE_SLACK \<and>
     (case r of
        Inr c \<Rightarrow> length (ch_bytes c) = fin - start \<and> ch_wire c = n \<and> h' = record_ok h
      | Inl e \<Rightarrow> h' = (if e \<in> {BodyBroken, BodyOverCap, LengthOverCap} \<or> url_ok \<and> out = ConnectErr \<or>
                       (\<exists>s. e = Status s \<and> 500 \<le> s \<and> s < 600)
                     then record_strike threshold cooldown now h else h))"
proof (cases out)
  case (Answered resp)
  let ?enc = "hr_header resp ''x-narshare-encoding'' = Some ''zstd''"
  let ?cap = "if ?enc then fin - start + WIRE_SLACK else fin - start"
  obtain x m where x: "read_capped_progress ?cap resp = (x, m)" by fastforce
  have m: "m \<le> ?cap" and b: "x = Inr b \<Longrightarrow> length b = m" for b using read_capped_bounds [OF x] by auto
  have e: "e \<in> {BodyBroken, BodyOverCap, LengthOverCap}" if "x = Inl e" for e using read_capped_errors x that by blast
  show ?thesis
  proof (cases "url_ok \<and> hr_status resp = 206")
    case True
    then show ?thesis using assms m e b x Answered
      by (cases x) (auto simp: fetch_range_def Let_def split: option.splits if_splits)
  next
    case False
    then show ?thesis using assms Answered by (auto simp: fetch_range_def Let_def split: if_splits)
  qed
qed (use assms in \<open>auto simp: fetch_range_def Let_def split: if_splits\<close>)

theorem fetch_range_contract_witness:
  "\<exists>r h' n. fetch_range 3 10 (\<lambda>_. Some) 0 True (Answered \<lparr>hr_status = 206, hr_header = Map.empty, hr_length = None,
       hr_body = [Some [1], Some [2, 3]]\<rparr>) 4 6 health_default = (r, h', n) \<and> r = Inl BodyOverCap \<and> n \<le> 2 + WIRE_SLACK"
proof -
  let ?run = "fetch_range 3 10 (\<lambda>_. Some) 0 True (Answered \<lparr>hr_status = 206, hr_header = Map.empty, hr_length = None,
       hr_body = [Some [1], Some [2, 3]]\<rparr>) 4 6 health_default"
  obtain r h' n where run: "?run = (r, h', n)" using prod_cases3 by blast
  then have "r = Inl BodyOverCap" by (simp add: fetch_range_def Let_def read_capped_progress_def)
  with fetch_range_contract [OF run] run show ?thesis by simp
qed

end
