(* ===== verification/Engine.thy ===== *)
theory Engine
  imports Sync Pool Peers Rocks_Store
begin

text \<open>
  The catch-up engine (\<open>engine_loop\<close> and \<open>drain_applies\<close> of \<open>src/sync.rs\<close>): the planner of
  theory \<open>Catchup\<close> driven by enrollments, by range replies and by a timer, its asks routed by
  the pool of theory \<open>Pool\<close> among the peers whose breaker (theory \<open>Peers\<close>) is closed, its
  chunks applied to the index. One event is handled to its end before the next, as the loop
  does; the fetches it spawns are the list of asks in flight with their peers, and the end
  of a fetch is an event of its own, at any later time and in any order.
\<close>

section \<open>State\<close>

definition MW_MIN_BYTES :: nat where "MW_MIN_BYTES = 64 * 2 ^ 10"

record 's engine =
  eg_plan :: catchup
  eg_sync :: "'s sync"
  eg_pool :: pool
  eg_health :: "health list"
  eg_flight :: "(range_ask \<times> nat) list"

text \<open>The peers' configuration and the two decoders of an exchange.\<close>

record exchange_cfg =
  xc_threshold :: nat
  xc_cooldown :: nat
  xc_unz :: "nat \<Rightarrow> bytes \<Rightarrow> bytes option"
  xc_dec :: "bytes \<Rightarrow> sync_response option"

section \<open>Applying\<close>

text \<open>
  The loop applies the contiguous chunks at the head of the buffer; each round takes one
  out, so as many rounds as there are chunks are enough. Any outcome but \<open>Applied\<close> gives the
  origin back.
\<close>

fun drain_loop :: "nat \<Rightarrow> 's store_ops \<Rightarrow> index_cfg \<Rightarrow> string \<Rightarrow> bool \<Rightarrow> catchup \<Rightarrow> 's sync \<Rightarrow> bool \<times> catchup \<times> 's sync" where
  "drain_loop 0 ops I o' any c st = (any, c, st)"
| "drain_loop (Suc k) ops I o' any c st =
     (case take_ready o' c of
        None \<Rightarrow> (any, c, st)
      | Some ((g, es), c') \<Rightarrow>
          let upto = (if es = [] then 0 else ev_seq (last es)) in
          (case acommit (apply_suffix ops I o' g es) st of
             (Inr (Applied n), st') \<Rightarrow>
               drain_loop k ops I o' (any \<or> n > 0) (applied o' upto c') (bump_stat suffix_events_applied_update n st')
           | (_, st') \<Rightarrow> (any, drop_origin o' c', unenroll I o' st')))"

definition buffered_chunks :: "string \<Rightarrow> catchup \<Rightarrow> nat" where
  "buffered_chunks o' c = (case cu_origins c o' of None \<Rightarrow> 0 | Some p \<Rightarrow> length (pl_buffered p))"

definition drain_applies :: "'s store_ops \<Rightarrow> index_cfg \<Rightarrow> string \<Rightarrow> catchup \<Rightarrow> 's sync \<Rightarrow> catchup \<times> 's sync" where
  "drain_applies ops I o' c st =
     (let (any, c, st) = drain_loop (buffered_chunks o' c) ops I o' False c st;
          (c, st) = (if finished o' c then (drop_origin o' c, unenroll I o' st) else (c, st))
      in (c, if any then hint_peers st else st))"

section \<open>The events\<close>

text \<open>A classic round hands an origin over, or tells a new target.\<close>

definition on_enroll :: "'s store_ops \<Rightarrow> index_cfg \<Rightarrow> enroll_msg \<Rightarrow> catchup \<Rightarrow> 's sync \<Rightarrow> catchup \<times> 's sync" where
  "on_enroll ops I e c st =
     (let idle = (if cu_origins c (en_origin e) = None then unenroll I (en_origin e) st else st) in
      case origin_clock ops (en_origin e) (sy_store st) of
        Inl _ \<Rightarrow> (c, idle)
      | Inr (g, q) \<Rightarrow>
          if g = en_generation e \<and> q < en_target e
          then (let (ok, c) = enroll (en_origin e) (en_generation e) q (en_target e) c
                in (c, if ok then st else unenroll I (en_origin e) st))
          else (c, idle))"

definition range_request :: "index_cfg \<Rightarrow> range_ask \<Rightarrow> sync_request" where
  "range_request I ask = \<lparr>sr_requester = ix_self I, sr_have = [], sr_atts_cursor = [], sr_skip_origins = [],
     sr_ranges = [ask], sr_merkle = []\<rparr>"

text \<open>The end of a fetch: the reply that answers the ask, if any, and what the pool learns.\<close>

definition fetched :: "range_ask \<Rightarrow> nat \<Rightarrow> nat \<Rightarrow> fetch_err + (sync_response \<times> nat) \<Rightarrow> pool \<Rightarrow> range_reply option \<times> pool" where
  "fetched ask peer elapsed r p =
     (case r of
        Inl _ \<Rightarrow> (None, record_failure peer p)
      | Inr (resp, wire) \<Rightarrow>
          (case find (\<lambda>r. rr_origin r = ra_origin ask \<and> rr_after r = ra_after ask) (sp_ranges resp) of
             Some r \<Rightarrow> (Some r, if wire \<ge> MW_MIN_BYTES then record_success peer wire elapsed p else p)
           | None \<Rightarrow> (None, record_failure peer p)))"

definition good_reply :: "range_ask \<Rightarrow> range_reply option \<Rightarrow> event list option" where
  "good_reply ask reply =
     (case reply of
        Some r \<Rightarrow> if rr_reachable r \<and> rr_generation r = ra_generation ask \<and> rr_events r \<noteq> [] then Some (rr_events r) else None
      | None \<Rightarrow> None)"

definition on_reply :: "'s store_ops \<Rightarrow> index_cfg \<Rightarrow> range_ask \<Rightarrow> range_reply option \<Rightarrow> catchup \<Rightarrow> 's sync \<Rightarrow> catchup \<times> 's sync" where
  "on_reply ops I ask reply c st =
     (case good_reply ask reply of
        Some es \<Rightarrow> drain_applies ops I (ra_origin ask) (Catchup.complete (ra_origin ask) (ra_after ask) (ra_until ask) es c) st
      | None \<Rightarrow>
          (let (ok, c) = strike (ra_origin ask) (ra_after ask) (ra_until ask) c
           in if ok then (c, st) else (drop_origin (ra_origin ask) c, unenroll I (ra_origin ask) st)))"

section \<open>Filling the window\<close>

text \<open>
  One weighted draw per chunk until the window is full, nothing is left to ask for or no
  peer is available; \<open>order k\<close> is the order of the hash map when \<open>k\<close> more asks may follow.
  Every round takes a slot of the window, so \<open>ENGINE_WINDOW\<close> rounds are enough.
\<close>

fun fill_window :: "nat \<Rightarrow> (nat \<Rightarrow> string list) \<Rightarrow> nat \<Rightarrow> 's engine \<Rightarrow> 's engine" where
  "fill_window 0 order now e = e"
| "fill_window (Suc k) order now e =
     (case next_ask (order k) (eg_plan e) of
        None \<Rightarrow> e
      | Some (ask, c) \<Rightarrow>
          (case pick_among (filter (\<lambda>i. available now (eg_health e ! i)) [0..<length (eg_health e)]) (eg_pool e) of
             Some (Some peer, p) \<Rightarrow>
               fill_window k order now (e\<lparr>eg_plan := c, eg_pool := p, eg_flight := (ask, peer) # eg_flight e\<rparr>)
           | _ \<Rightarrow> e\<lparr>eg_plan := unpick ask c\<rparr>))"

datatype engine_event = Enrolled enroll_msg | Fetched range_ask nat "http_outcome option" nat | Timer

fun handle_event :: "'s store_ops \<Rightarrow> index_cfg \<Rightarrow> exchange_cfg \<Rightarrow> nat \<Rightarrow> engine_event \<Rightarrow> 's engine \<Rightarrow> 's engine" where
  "handle_event ops I X now (Enrolled m) e =
     (let (c, st) = on_enroll ops I m (eg_plan e) (eg_sync e) in e\<lparr>eg_plan := c, eg_sync := st\<rparr>)"
| "handle_event ops I X now (Fetched ask peer out elapsed) e =
     (let (r, h) = sync_pull (xc_threshold X) (xc_cooldown X) (xc_unz X) (xc_dec X) now out (eg_health e ! peer);
          (reply, p) = fetched ask peer elapsed r (eg_pool e);
          (c, st) = on_reply ops I ask reply (eg_plan e) (eg_sync e)
      in e\<lparr>eg_plan := c, eg_sync := st, eg_pool := p, eg_health := (eg_health e)[peer := h],
           eg_flight := remove1 (ask, peer) (eg_flight e)\<rparr>)"
| "handle_event ops I X now Timer e = e"

definition engine_step :: "'s store_ops \<Rightarrow> index_cfg \<Rightarrow> exchange_cfg \<Rightarrow> (nat \<Rightarrow> string list) \<Rightarrow> nat \<Rightarrow> engine_event \<Rightarrow>
    's engine \<Rightarrow> 's engine" where
  "engine_step ops I X order now ev e = fill_window ENGINE_WINDOW order now (handle_event ops I X now ev e)"

section \<open>Both loops end\<close>

lemma buffered_applied [simp]: "buffered_chunks o' (applied o' q c) = buffered_chunks o' c"
  by (auto simp: buffered_chunks_def applied_def Let_def split: option.splits)

lemma buffered_take:
  "take_ready o' c = Some (x, c') \<Longrightarrow> buffered_chunks o' c = Suc (buffered_chunks o' c')"
  by (auto simp: buffered_chunks_def take_ready_def split: option.splits list.splits if_splits)

lemma drain_loop_ends:
  assumes "buffered_chunks o' c \<le> k" and "drain_loop k ops I o' any c st = (any', c', st')"
  shows "take_ready o' c' = None"
  using assms
proof (induction k arbitrary: any c st)
  case 0
  then show ?case by (auto simp: buffered_chunks_def take_ready_def split: option.splits)
next
  case (Suc k)
  show ?case
  proof (cases "take_ready o' c")
    case (Some x)
    then obtain g es c1 where x: "take_ready o' c = Some ((g, es), c1)" by (cases x) auto
    note b = buffered_take [OF x]
    obtain r t where run: "acommit (apply_suffix ops I o' g es) st = (r, t)" by fastforce
    have dropped: "take_ready o' (drop_origin o' c1) = None" by (simp add: take_ready_def)
    show ?thesis
    proof (cases "\<exists>n. r = Inr (Applied n)")
      case True
      then obtain n where n: "r = Inr (Applied n)" by blast
      let ?c = "applied o' (if es = [] then 0 else ev_seq (last es)) c1"
      have "drain_loop k ops I o' (any \<or> n > 0) ?c (bump_stat suffix_events_applied_update n t) = (any', c', st')"
        using Suc.prems(2) x run n by (simp add: Let_def)
      moreover have "buffered_chunks o' ?c \<le> k" using Suc.prems(1) b by simp
      ultimately show ?thesis using Suc.IH by blast
    next
      case False
      then show ?thesis using Suc.prems x run dropped
        by (auto simp: Let_def split: sum.splits apply_result.splits)
    qed
  qed (use Suc.prems in simp)
qed

lemma next_ask_inflight: "next_ask order c = Some (ask, c') \<Longrightarrow> cu_inflight c' = Suc (cu_inflight c) \<and> cu_inflight c < ENGINE_WINDOW"
proof -
  have "next_ask_in order c = Some (ask, c') \<Longrightarrow> cu_inflight c' = Suc (cu_inflight c)"
    by (induction order c rule: next_ask_in.induct) (auto split: option.splits)
  then show "next_ask order c = Some (ask, c') \<Longrightarrow> ?thesis" by (auto simp: next_ask_def split: if_splits)
qed

text \<open>What the events leave alone.\<close>

lemma length_pool_apply [simp]: "length (pl_weight (pool_apply idx l p)) = length (pl_weight p)"
  by (simp add: pool_apply_def Let_def)

lemma length_fetched: "fetched ask peer t r p = (reply, p') \<Longrightarrow> length (pl_weight p') = length (pl_weight p)"
  by (auto simp: fetched_def record_failure_def record_success_def Let_def split: sum.splits option.splits if_splits)

lemma pick_some:
  assumes "allowed \<noteq> []" and "\<forall>i\<in>set allowed. i < length (pl_weight p)"
  shows "\<exists>i p'. pick_among allowed p = Some (Some i, p') \<and> pl_weight p' = pl_weight p"
proof -
  have "weights_at p allowed = Some (map (\<lambda>i. pl_weight p ! i) allowed)" using assms(2) by (simp add: weights_at_def list_all_iff)
  then show ?thesis using assms(1)
    by (cases "next_u64 (pl_rng p)") (auto simp: pick_among_def Let_def split: option.split)
qed

lemma has_work_iff: "next_ask_in order c = None \<longleftrightarrow> \<not> has_work order c"
proof (induction order)
  case (Cons o' order)
  have e: "(pl_retry p \<noteq> [] \<or> pl_next p < pl_target p) \<longleftrightarrow> plan_ask p \<noteq> None" for p
    by (auto simp: plan_ask_def Let_def split: list.split)
  have "has_work (o' # order) c \<longleftrightarrow> Option.bind (cu_origins c o') plan_ask \<noteq> None \<or> has_work order c"
    by (cases "cu_origins c o'") (simp_all only: has_work_def list_ex_iff list.set Set.ball_simps Set.bex_simps option.case Option.bind.simps e simp_thms)
  then show ?case using Cons by (cases "Option.bind (cu_origins c o') plan_ask") auto
qed (simp add: has_work_def)

lemma fill_window_ends:
  assumes "ENGINE_WINDOW \<le> cu_inflight (eg_plan e) + k"
    and "length (eg_health e) \<le> length (pl_weight (eg_pool e))"
    and "i < length (eg_health e)" "available now (eg_health e ! i)"
  shows "ENGINE_WINDOW \<le> cu_inflight (eg_plan (fill_window k order now e)) \<or>
     (\<exists>j. \<not> has_work (order j) (eg_plan (fill_window k order now e)))"
  using assms
proof (induction k arbitrary: e)
  case (Suc k)
  show ?case
  proof (cases "next_ask (order k) (eg_plan e)")
    case None
    then show ?thesis by (auto simp: next_ask_def has_work_iff split: if_splits)
  next
    case (Some x)
    then obtain ask c where x: "next_ask (order k) (eg_plan e) = Some (ask, c)" by (cases x) auto
    let ?av = "filter (\<lambda>i. available now (eg_health e ! i)) [0..<length (eg_health e)]"
    have "?av \<noteq> []" using Suc.prems(3,4) by (auto simp: filter_empty_conv)
    moreover have "\<forall>i\<in>set ?av. i < length (pl_weight (eg_pool e))" using Suc.prems(2) by auto
    ultimately obtain peer p where p: "pick_among ?av (eg_pool e) = Some (Some peer, p)" "pl_weight p = pl_weight (eg_pool e)"
      using pick_some by blast
    let ?e = "e\<lparr>eg_plan := c, eg_pool := p, eg_flight := (ask, peer) # eg_flight e\<rparr>"
    have "fill_window (Suc k) order now e = fill_window k order now ?e" using x p(1) by simp
    moreover have "ENGINE_WINDOW \<le> cu_inflight (eg_plan ?e) + k" using next_ask_inflight [OF x] Suc.prems(1) by simp
    ultimately show ?thesis using Suc.IH [of ?e] Suc.prems(2-4) p(2) by simp
  qed
qed simp

lemma handle_event_sizes:
  "length (eg_health (handle_event ops I X now ev e)) = length (eg_health e)"
  "length (pl_weight (eg_pool (handle_event ops I X now ev e))) = length (pl_weight (eg_pool e))"
  by (cases ev; auto simp: Let_def length_fetched split: prod.splits)+

text \<open>
  The engine does not idle: after any event, if the breaker of some peer is closed, the
  window is full or no origin has anything left to ask for.
\<close>
theorem engine_uses_its_window:
  assumes "length (eg_health e) \<le> length (pl_weight (eg_pool e))"
    and "i < length (eg_health e)" and "available now (eg_health (handle_event ops I X now ev e) ! i)"
  shows "ENGINE_WINDOW \<le> cu_inflight (eg_plan (engine_step ops I X order now ev e)) \<or>
     (\<exists>j. \<not> has_work (order j) (eg_plan (engine_step ops I X order now ev e)))"
  unfolding engine_step_def by (rule fill_window_ends) (use assms in \<open>simp_all add: handle_event_sizes\<close>)

text \<open>An engine at rest with one enrolled origin and one healthy peer.\<close>

definition wit_cfg :: index_cfg where
  "wit_cfg = \<lparr>ix_self = ''b'', ix_peers = [''a''], ix_trusted = [], ix_crypto = demo_crypto, ix_codec = plain_codec\<rparr>"

definition wit_exchange :: exchange_cfg where
  "wit_exchange = \<lparr>xc_threshold = 3, xc_cooldown = 10, xc_unz = (\<lambda>n b. Some (take n b)), xc_dec = (\<lambda>_. None)\<rparr>"

definition wit_engine :: "rocks engine" where
  "wit_engine = \<lparr>eg_plan = snd (enroll ''a'' 1 0 10 catchup_default), eg_sync = sync_new rocks_empty, eg_pool = pool_new 1,
     eg_health = [health_default], eg_flight = []\<rparr>"

abbreviation "wit_run \<equiv> engine_step (rocks_ops plain_codec) wit_cfg wit_exchange (\<lambda>_. [''a'']) 0"

theorem engine_uses_its_window_witness:
  "ENGINE_WINDOW \<le> cu_inflight (eg_plan (wit_run Timer wit_engine)) \<or>
   (\<exists>j :: nat. \<not> has_work [''a''] (eg_plan (wit_run Timer wit_engine)))"
  by (rule engine_uses_its_window [where i = 0])
    (simp_all add: wit_engine_def pool_new_def health_default_def available_def)

section \<open>The engine keeps to the planner\<close>

lemma take_drop: "take_ready o' c = Some (x, c1) \<Longrightarrow> drop_origin o' c1 = drop_origin o' c"
  by (auto simp: take_ready_def drop_origin_def put_plan_def split: option.splits list.splits if_splits)

lemma take_nonempty:
  assumes "plan_reach (c, F)" and "take_ready o' c = Some ((g, es), c')"
  shows "es \<noteq> []"
proof -
  obtain p after rest where p: "cu_origins c o' = Some p" "pl_buffered p = (after, es) # rest"
    using assms(2) by (auto simp: take_ready_def split: option.splits list.splits if_splits)
  then show ?thesis using catchup_okD(2) [OF plan_reach_ok [OF assms(1)] p(1)] by (auto simp: plan_ok_def run_above_def)
qed

lemma drain_loop_reach:
  assumes "plan_reach (c, F)" and "drain_loop k ops I o' any c st = (any', c', st')"
  shows "plan_reach (c', F)"
  using assms
proof (induction k arbitrary: any c st)
  case (Suc k)
  show ?case
  proof (cases "take_ready o' c")
    case (Some x)
    then obtain g es c1 where x: "take_ready o' c = Some ((g, es), c1)" by (cases x) auto
    obtain r t where run: "acommit (apply_suffix ops I o' g es) st = (r, t)" by fastforce
    have ne: "es \<noteq> []" by (rule take_nonempty [OF Suc.prems(1) x])
    show ?thesis
    proof (cases "\<exists>n. r = Inr (Applied n)")
      case True
      then obtain n where n: "r = Inr (Applied n)" by blast
      have "plan_reach (applied o' (ev_seq (last es)) c1, F)"
        by (rule plan_reach.step [OF Suc.prems(1)]) (rule plan_step.drain [OF x])
      then show ?thesis using Suc.IH Suc.prems(2) x run n ne by simp
    next
      case False
      then have "c' = drop_origin o' c" using Suc.prems(2) x run take_drop [OF x]
        by (auto simp: Let_def split: sum.splits apply_result.splits)
      then show ?thesis using plan_reach.step [OF Suc.prems(1) plan_step.abandon] by simp
    qed
  qed (use Suc.prems in simp)
qed simp

lemma drain_applies_reach:
  assumes "plan_reach (c, F)" and "drain_applies ops I o' c st = (c', st')"
  shows "plan_reach (c', F)"
proof -
  obtain any c1 st1 where d: "drain_loop (buffered_chunks o' c) ops I o' False c st = (any, c1, st1)" using prod_cases3 by blast
  have "plan_reach (c1, F)" by (rule drain_loop_reach [OF assms(1) d])
  moreover from this have "plan_reach (drop_origin o' c1, F)" by (rule plan_reach.step) (rule plan_step.abandon)
  ultimately show ?thesis using assms(2) d by (auto simp: drain_applies_def Let_def split: if_splits)
qed

lemma fill_window_reach:
  "plan_reach (eg_plan e, map fst (eg_flight e)) \<Longrightarrow>
   plan_reach (eg_plan (fill_window k order now e), map fst (eg_flight (fill_window k order now e)))"
proof (induction k arbitrary: e)
  case (Suc k)
  show ?case
  proof (cases "next_ask (order k) (eg_plan e)")
    case (Some x)
    then obtain ask c where x: "next_ask (order k) (eg_plan e) = Some (ask, c)" by (cases x) auto
    have d: "plan_reach (c, ask # map fst (eg_flight e))"
      by (rule plan_reach.step [OF Suc.prems plan_step.dispatch [OF x]])
    have "plan_reach (unpick ask c, map fst (eg_flight e))"
      using plan_reach.step [OF d plan_step.unpick [of ask]] by simp
    then show ?thesis using Suc.IH d x by (auto split: option.split)
  qed (use Suc.prems in simp)
qed simp

text \<open>
  What the planner relies on: an origin is enrolled afresh only when none of its asks is in
  flight, and a reply that is taken for good is a run of the ask.
\<close>

fun sound_event :: "'s engine \<Rightarrow> exchange_cfg \<Rightarrow> nat \<Rightarrow> engine_event \<Rightarrow> bool" where
  "sound_event e X now (Enrolled m) \<longleftrightarrow>
     (cu_origins (eg_plan e) (en_origin m) \<noteq> None \<or> flight_of (en_origin m) (map fst (eg_flight e)) = []) \<and>
     en_target m + CHUNK_EVENTS < 2 ^ 64"
| "sound_event e X now (Fetched ask peer out elapsed) \<longleftrightarrow> (ask, peer) \<in> set (eg_flight e) \<and>
     (case sync_pull (xc_threshold X) (xc_cooldown X) (xc_unz X) (xc_dec X) now out (eg_health e ! peer) of
        (r, _) \<Rightarrow> (case good_reply ask (fst (fetched ask peer elapsed r (eg_pool e))) of
          None \<Rightarrow> True | Some es \<Rightarrow> run_above (ra_after ask) (ra_until ask) es))"
| "sound_event e X now Timer \<longleftrightarrow> True"

lemma on_enroll_reach:
  assumes "plan_reach (c, F)" and "cu_origins c (en_origin m) \<noteq> None \<or> flight_of (en_origin m) F = []"
    and "en_target m + CHUNK_EVENTS < 2 ^ 64" and "on_enroll ops I m c st = (c', st')"
  shows "plan_reach (c', F)"
proof -
  have "plan_reach (snd (enroll (en_origin m) (en_generation m) q (en_target m) c), F)" if "q < en_target m" for q
    by (rule plan_reach.step [OF assms(1)]) (rule plan_step.enroll [OF assms(2) _ assms(3)], use that in simp)
  then show ?thesis using assms(1,4)
    by (fastforce simp: on_enroll_def Let_def split: sum.splits prod.splits if_splits)
qed

lemma on_reply_reach:
  assumes "plan_reach (c, F)" and "ask \<in> set F"
    and "case good_reply ask reply of None \<Rightarrow> True | Some es \<Rightarrow> run_above (ra_after ask) (ra_until ask) es"
    and "on_reply ops I ask reply c st = (c', st')"
  shows "plan_reach (c', remove1 ask F)"
proof (cases "good_reply ask reply")
  case None
  let ?s = "snd (strike (ra_origin ask) (ra_after ask) (ra_until ask) c)"
  have s: "plan_reach (?s, remove1 ask F)" by (rule plan_reach.step [OF assms(1)]) (rule plan_step.strike [OF assms(2)])
  have "plan_reach (drop_origin (ra_origin ask) ?s, remove1 ask F)" by (rule plan_reach.step [OF s]) (rule plan_step.abandon)
  then show ?thesis using s assms(4) None by (auto simp: on_reply_def Let_def split: prod.splits if_splits)
next
  case (Some es)
  then have "plan_reach (Catchup.complete (ra_origin ask) (ra_after ask) (ra_until ask) es c, remove1 ask F)"
    using assms(3) by (intro plan_reach.step [OF assms(1)] plan_step.complete [OF assms(2)]) simp
  then show ?thesis using drain_applies_reach assms(4) Some by (simp add: on_reply_def)
qed

text \<open>
  Every step of the engine is a run of the planner's transition system, so what theory
  \<open>Catchup\<close> proves of the planner holds of the engine at every moment.
\<close>
theorem engine_refines_planner:
  assumes "plan_reach (eg_plan e, map fst (eg_flight e))" and "sound_event e X now ev"
  shows "plan_reach (eg_plan (engine_step ops I X order now ev e), map fst (eg_flight (engine_step ops I X order now ev e)))"
proof -
  let ?e = "handle_event ops I X now ev e"
  have "plan_reach (eg_plan ?e, map fst (eg_flight ?e))"
  proof (cases ev)
    case (Enrolled m)
    then show ?thesis using on_enroll_reach [OF assms(1), of m] assms(2)
      by (cases "on_enroll ops I m (eg_plan e) (eg_sync e)") simp
  next
    case (Fetched ask peer out elapsed)
    let ?F = "map fst (eg_flight e)"
    obtain r h where r: "sync_pull (xc_threshold X) (xc_cooldown X) (xc_unz X) (xc_dec X) now out (eg_health e ! peer) = (r, h)"
      by fastforce
    obtain reply p where f: "fetched ask peer elapsed r (eg_pool e) = (reply, p)" by fastforce
    obtain c st where c: "on_reply ops I ask reply (eg_plan e) (eg_sync e) = (c, st)" by fastforce
    have m: "(ask, peer) \<in> set (eg_flight e)" using assms(2) Fetched by simp
    then have "ask \<in> set ?F" by force
    then have "plan_reach (c, remove1 ask ?F)"
      using on_reply_reach [OF assms(1) _ _ c] assms(2) Fetched r f by simp
    moreover have "mset (map fst (remove1 (ask, peer) (eg_flight e))) = mset (remove1 ask ?F)"
      using m by (simp add: image_mset_Diff)
    ultimately have "plan_reach (c, map fst (remove1 (ask, peer) (eg_flight e)))"
      using plan_reach.step plan_step.reorder by blast
    then show ?thesis using Fetched r f c by simp
  qed (use assms in simp)
  then show ?thesis unfolding engine_step_def by (rule fill_window_reach)
qed

lemma wit_engine_reach: "plan_reach (eg_plan wit_engine, map fst (eg_flight wit_engine))"
proof -
  have "plan_step (catchup_default, []) (snd (enroll ''a'' 1 0 10 catchup_default), [])"
    by (rule plan_step.enroll) (simp_all add: CHUNK_EVENTS_def)
  then show ?thesis by (simp add: wit_engine_def plan_reach.step [OF plan_reach.start])
qed

theorem engine_refines_planner_witness:
  "plan_reach (eg_plan (wit_run Timer wit_engine), map fst (eg_flight (wit_run Timer wit_engine)))"
  by (rule engine_refines_planner [OF wit_engine_reach]) simp

end
