(* ===== verification/Engine_Net.thy ===== *)
theory Engine_Net
  imports Engine Mesh
begin

text \<open>
  The catch-up engine in the mesh: what it applies are ranges that members really served, so
  every step of the engine is a run of the transition system of theory \<open>Net\<close>. \<open>fed\<close> is the
  invariant that carries the origin and the generation of a reply through the planner.
\<close>

section \<open>Where the buffered events come from\<close>

definition served :: "respond_bundle set \<Rightarrow> string \<Rightarrow> nat \<Rightarrow> event list \<Rightarrow> bool" where
  "served B o' g es \<longleftrightarrow> (\<exists>b\<in>B. \<exists>rr\<in>set (rb_ranges b). rr_origin rr = o' \<and> rr_generation rr = g \<and> rr_events rr = es)"

definition fed :: "respond_bundle set \<Rightarrow> catchup \<Rightarrow> range_ask list \<Rightarrow> bool" where
  "fed B c F \<longleftrightarrow> (\<forall>o' p. cu_origins c o' = Some p \<longrightarrow>
     (\<forall>(a, es)\<in>set (pl_buffered p). served B o' (pl_generation p) es) \<and>
     (\<forall>ask\<in>set F. ra_origin ask = o' \<longrightarrow> ra_generation ask = pl_generation p))"

lemma fedI:
  "(\<And>o' p. cu_origins c o' = Some p \<Longrightarrow> (\<forall>(a, es)\<in>set (pl_buffered p). served B o' (pl_generation p) es) \<and>
     (\<forall>ask\<in>set F. ra_origin ask = o' \<longrightarrow> ra_generation ask = pl_generation p)) \<Longrightarrow> fed B c F"
  by (simp add: fed_def)

lemma fedD:
  "fed B c F \<Longrightarrow> cu_origins c o' = Some p \<Longrightarrow> (\<forall>(a, es)\<in>set (pl_buffered p). served B o' (pl_generation p) es) \<and>
     (\<forall>ask\<in>set F. ra_origin ask = o' \<longrightarrow> ra_generation ask = pl_generation p)"
  by (simp add: fed_def)

lemma fed_start: "fed B catchup_default []"
  by (simp add: fed_def catchup_default_def)

lemma fed_subset: "fed B c F \<Longrightarrow> set F' \<subseteq> set F \<Longrightarrow> fed B c F'"
  unfolding fed_def by blast

lemma fed_drop: "fed B c F \<Longrightarrow> fed B (drop_origin o' c) F"
  by (simp add: fed_def)

text \<open>A plan changes but not its generation, and what it buffers was buffered or served.\<close>

lemma fed_put:
  assumes "fed B c F" and "cu_origins c o' = Some p" and "cu_origins c' = (cu_origins c)(o' \<mapsto> p')"
    and "pl_generation p' = pl_generation p"
    and "\<And>a es. (a, es) \<in> set (pl_buffered p') \<Longrightarrow> (a, es) \<in> set (pl_buffered p) \<or> served B o' (pl_generation p) es"
  shows "fed B c' F"
proof (rule fedI)
  have new: "served B o' (pl_generation p) es" if "(x, es) \<in> set (pl_buffered p')" for x es
    using assms(5) [OF that] fedD [OF assms(1,2)] by blast
  fix a q assume "cu_origins c' a = Some q"
  then show "(\<forall>(x, es)\<in>set (pl_buffered q). served B a (pl_generation q) es) \<and>
      (\<forall>ask\<in>set F. ra_origin ask = a \<longrightarrow> ra_generation ask = pl_generation q)"
    using fedD [OF assms(1), of a] fedD [OF assms(1,2)] new assms(3,4) by (auto split: if_splits)
qed

lemma fed_same: "fed B c F \<Longrightarrow> cu_origins c' = cu_origins c \<Longrightarrow> fed B c' F"
  by (simp add: fed_def)

lemma fed_take:
  assumes "fed B c F" and "take_ready o' c = Some ((g, es), c')"
  shows "fed B c' F" and "served B o' g es"
proof -
  obtain p after rest where p: "cu_origins c o' = Some p" "pl_buffered p = (after, es) # rest"
    "g = pl_generation p" "c' = put_plan o' (p\<lparr>pl_buffered := rest\<rparr>) c"
    using assms(2) by (auto simp: take_ready_def split: option.splits list.splits if_splits)
  show "served B o' g es" using fedD [OF assms(1) p(1)] p by simp
  show "fed B c' F" by (rule fed_put [OF assms(1) p(1), where p' = "p\<lparr>pl_buffered := rest\<rparr>"]) (simp_all add: p put_plan_def)
qed

lemma fed_applied: "fed B c F \<Longrightarrow> fed B (applied o' q c) F"
  by (cases "cu_origins c o'") (auto simp: applied_def Let_def intro: fed_put)

lemma set_kv_put_subset: "x \<in> set (kv_put k v t) \<Longrightarrow> x = (k, v) \<or> x \<in> set t"
  by (induction k v t rule: kv_put.induct) (auto split: if_splits)

lemma fed_complete:
  assumes f: "fed B c F" and ask: "ask \<in> set F" and es: "served B (ra_origin ask) (ra_generation ask) es"
  shows "fed B (Catchup.complete (ra_origin ask) a u es c) F"
proof (cases "cu_origins c (ra_origin ask)")
  case None
  then show ?thesis using f by (simp add: Catchup.complete_def fed_same [of B c])
next
  case (Some p)
  have "ra_generation ask = pl_generation p" using fedD [OF f Some] ask by blast
  then show ?thesis using Some es
    by (auto simp: Catchup.complete_def Let_def intro!: fed_put [OF f Some] dest!: set_kv_put_subset split: if_splits)
qed

lemma fed_strike: "fed B c F \<Longrightarrow> fed B (snd (strike o' a u c)) F"
  by (cases "cu_origins c o'") (auto simp: strike_def Let_def intro: fed_put fed_same)

lemma fed_unpick: "fed B c F \<Longrightarrow> fed B (unpick ask c) F"
  by (cases "cu_origins c (ra_origin ask)") (auto simp: unpick_def intro: fed_put fed_same)

lemma fed_next:
  assumes "fed B c F" and "next_ask order c = Some (ask, c')"
  shows "fed B c' (ask # F)"
proof -
  have "next_ask_in order c = Some (ask, c') \<Longrightarrow> fed B c' (ask # F)" using assms(1)
  proof (induction order c rule: next_ask_in.induct)
    case (2 o' order c)
    show ?case
    proof (cases "Option.bind (cu_origins c o') plan_ask")
      case (Some x)
      then obtain p a u p' where p: "cu_origins c o' = Some p" "plan_ask p = Some ((a, u), p')" "x = ((a, u), p')"
        by (cases "cu_origins c o'"; cases x) auto
      have g: "pl_generation p' = pl_generation p" "pl_buffered p' = pl_buffered p"
        using p(2) by (auto simp: plan_ask_def Let_def split: list.splits if_splits)
      have c: "cu_origins c' = (cu_origins c)(o' \<mapsto> p')" "ra_origin ask = o'" "ra_generation ask = pl_generation p'"
        using 2(2) Some p(3) by (auto simp: put_plan_def)
      have "fed B c' F" by (rule fed_put [OF 2(3) p(1) c(1)]) (simp_all add: g)
      then show ?thesis using c by (auto simp: fed_def)
    qed (use 2 in simp)
  qed simp
  then show ?thesis using assms(2) by (auto simp: next_ask_def split: if_splits)
qed

lemma fed_enroll:
  assumes f: "fed B c F" and fresh: "cu_origins c o' \<noteq> None \<or> flight_of o' F = []"
  shows "fed B (snd (enroll o' g q t c)) F"
proof (cases "cu_origins c o'")
  case None
  then have "ra_origin ask \<noteq> o'" if "ask \<in> set F" for ask
    using fresh that by (auto simp: flight_of_def filter_empty_conv)
  then show ?thesis using f None
    by (auto simp: enroll_def Let_def new_plan_def fed_drop put_plan_def fed_def split: if_splits)
next
  case (Some p)
  then show ?thesis using f by (auto simp: enroll_def Let_def fed_drop intro: fed_put)
qed

section \<open>The steps\<close>

lemma put_same: "nodes N n = s \<Longrightarrow> put_node n s N = N"
  by (cases N) auto

lemma drain_loop_net:
  assumes n: "n \<in> M" and B: "B \<subseteq> mail N"
    and "fed B c F" and "nodes N n = sy_store st" and "drain_loop k ops (cfg n) o' any c st = (any', c', st')"
  shows "\<exists>N'. (net_step ops cfg M blank)\<^sup>*\<^sup>* N N' \<and> nodes N' = (nodes N)(n := sy_store st') \<and> mail N' = mail N \<and> fed B c' F"
  using assms(2-)
proof (induction k arbitrary: any c st N)
  case 0
  then show ?case by (intro exI [of _ N]) auto
next
  case (Suc k)
  show ?case
  proof (cases "take_ready o' c")
    case None
    then show ?thesis using Suc.prems by (intro exI [of _ N]) auto
  next
    case (Some x)
    then obtain g es c1 where x: "take_ready o' c = Some ((g, es), c1)" by (cases x) auto
    note f = fed_take [OF Suc.prems(2) x]
    obtain b rr where rr: "b \<in> mail N" "rr \<in> set (rb_ranges b)" "rr_origin rr = o'" "rr_generation rr = g" "rr_events rr = es"
      using f(2) Suc.prems(1) by (auto simp: served_def)
    obtain r t where run: "acommit (apply_suffix ops (cfg n) o' g es) st = (r, t)" by fastforce
    let ?N = "put_node n (sy_store t) N"
    have step: "(net_step ops cfg M blank)\<^sup>*\<^sup>* N ?N"
    proof (cases "apply_suffix ops (cfg n) o' g es (sy_store st)")
      case (Inl e)
      then have "?N = N" using run Suc.prems(3) by (intro put_same) (auto simp: acommit_def)
      then show ?thesis by simp
    next
      case (Inr p)
      then have "apply_suffix ops (cfg n) (rr_origin rr) (rr_generation rr) (rr_events rr) (nodes N n) = Inr (fst p, sy_store t)"
        using run rr(3-5) Suc.prems(3) by (auto simp: acommit_def split: prod.splits)
      then show ?thesis using net_step.range [OF n rr(1,2)] by blast
    qed
    show ?thesis
    proof (cases "\<exists>m. r = Inr (Applied m)")
      case True
      then obtain m where m: "r = Inr (Applied m)" by blast
      let ?c = "applied o' (if es = [] then 0 else ev_seq (last es)) c1"
      let ?t = "bump_stat suffix_events_applied_update m t"
      have run2: "drain_loop k ops (cfg n) o' (any \<or> m > 0) ?c ?t = (any', c', st')"
        using Suc.prems(4) x run m by (simp add: Let_def)
      have "B \<subseteq> mail ?N" "fed B ?c F" "nodes ?N n = sy_store ?t" using Suc.prems(1) f(1) fed_applied by auto
      from Suc.IH [OF this run2] obtain N' where "(net_step ops cfg M blank)\<^sup>*\<^sup>* ?N N'" "nodes N' = (nodes ?N)(n := sy_store st')"
        "mail N' = mail ?N" "fed B c' F" by blast
      then show ?thesis using rtranclp_trans [OF step] by (intro exI [of _ N']) auto
    next
      case False
      then have "c' = drop_origin o' c1" "sy_store st' = sy_store t" using Suc.prems(4) x run
        by (auto simp: Let_def unenroll_def split: sum.splits apply_result.splits)
      then show ?thesis using step f(1) fed_drop by (intro exI [of _ ?N]) auto
    qed
  qed
qed

lemma drain_applies_net:
  assumes "n \<in> M" and "B \<subseteq> mail N"
    and "fed B c F" and "nodes N n = sy_store st" and "drain_applies ops (cfg n) o' c st = (c', st')"
  shows "\<exists>N'. (net_step ops cfg M blank)\<^sup>*\<^sup>* N N' \<and> nodes N' = (nodes N)(n := sy_store st') \<and> mail N' = mail N \<and> fed B c' F"
proof -
  obtain any c1 st1 where d: "drain_loop (buffered_chunks o' c) ops (cfg n) o' False c st = (any, c1, st1)" using prod_cases3 by blast
  obtain N' where "(net_step ops cfg M blank)\<^sup>*\<^sup>* N N'" "nodes N' = (nodes N)(n := sy_store st1)" "mail N' = mail N" "fed B c1 F"
    using drain_loop_net [where cfg = cfg and n = n and N = N, OF assms(1-4) d] by blast
  moreover have "sy_store st' = sy_store st1" "c' = c1 \<or> c' = drop_origin o' c1"
    using assms(5) d by (auto simp: drain_applies_def Let_def unenroll_def hint_peers_def split: if_splits)
  ultimately show ?thesis using fed_drop by (intro exI [of _ N']) auto
qed

lemma fill_window_fed:
  "fed B (eg_plan e) (map fst (eg_flight e)) \<Longrightarrow>
   fed B (eg_plan (fill_window k order now e)) (map fst (eg_flight (fill_window k order now e))) \<and>
   eg_sync (fill_window k order now e) = eg_sync e"
proof (induction k arbitrary: e)
  case (Suc k)
  show ?case
  proof (cases "next_ask (order k) (eg_plan e)")
    case (Some x)
    then obtain ask c where x: "next_ask (order k) (eg_plan e) = Some (ask, c)" by (cases x) auto
    have d: "fed B c (ask # map fst (eg_flight e))" by (rule fed_next [OF Suc.prems x])
    have u: "fed B (unpick ask c) (map fst (eg_flight e))" by (rule fed_unpick, rule fed_subset [OF d]) auto
    show ?thesis using Suc.IH d u x by (auto split: option.split)
  qed (use Suc.prems in simp)
qed simp

text \<open>
  The replies of an event come from answers in \<open>B\<close>; an origin is enrolled afresh only when
  none of its asks is in flight.
\<close>

fun honest_event :: "respond_bundle set \<Rightarrow> 's engine \<Rightarrow> exchange_cfg \<Rightarrow> nat \<Rightarrow> engine_event \<Rightarrow> bool" where
  "honest_event B e X now (Enrolled m) \<longleftrightarrow>
     cu_origins (eg_plan e) (en_origin m) \<noteq> None \<or> flight_of (en_origin m) (map fst (eg_flight e)) = []"
| "honest_event B e X now (Fetched ask peer out elapsed) \<longleftrightarrow> (ask, peer) \<in> set (eg_flight e) \<and>
     (case fst (sync_pull (xc_threshold X) (xc_cooldown X) (xc_unz X) (xc_dec X) now out (eg_health e ! peer)) of
        Inl _ \<Rightarrow> True
      | Inr (resp, _) \<Rightarrow> \<exists>b\<in>B. set (sp_ranges resp) \<subseteq> set (rb_ranges b))"
| "honest_event B e X now Timer \<longleftrightarrow> True"

lemma fetched_served:
  assumes "fetched ask peer elapsed r p = (reply, p')" and "good_reply ask reply = Some es"
    and "case r of Inl _ \<Rightarrow> True | Inr (resp, _) \<Rightarrow> \<exists>b\<in>B. set (sp_ranges resp) \<subseteq> set (rb_ranges b)"
  shows "served B (ra_origin ask) (ra_generation ask) es"
proof -
  obtain resp wire rr where r: "r = Inr (resp, wire)" "reply = Some rr"
    "find (\<lambda>r. rr_origin r = ra_origin ask \<and> rr_after r = ra_after ask) (sp_ranges resp) = Some rr"
    using assms(1,2) by (auto simp: fetched_def good_reply_def split: sum.splits option.splits)
  then have "rr \<in> set (sp_ranges resp)" "rr_origin rr = ra_origin ask" by (auto simp: find_Some_iff)
  then show ?thesis using assms(2,3) r by (auto simp: served_def good_reply_def split: if_splits)
qed

lemma on_enroll_fed:
  assumes "fed B c F" and "cu_origins c (en_origin m) \<noteq> None \<or> flight_of (en_origin m) F = []"
    and "on_enroll ops I m c st = (c', st')"
  shows "fed B c' F \<and> sy_store st' = sy_store st"
  using assms(3) fed_enroll [OF assms(1,2)] assms(1)
  by (auto simp: on_enroll_def Let_def unenroll_def split: sum.splits prod.splits if_splits) (metis snd_conv)+

lemma handle_event_net:
  assumes n: "n \<in> M" and B: "B \<subseteq> mail N"
    and f: "fed B (eg_plan e) (map fst (eg_flight e))" and s: "nodes N n = sy_store (eg_sync e)" and h: "honest_event B e X now ev"
  shows "\<exists>N'. (net_step ops cfg M blank)\<^sup>*\<^sup>* N N' \<and> nodes N' = (nodes N)(n := sy_store (eg_sync (handle_event ops (cfg n) X now ev e))) \<and>
     mail N' = mail N \<and> fed B (eg_plan (handle_event ops (cfg n) X now ev e)) (map fst (eg_flight (handle_event ops (cfg n) X now ev e)))"
proof (cases ev)
  case (Enrolled m)
  obtain c st where c: "on_enroll ops (cfg n) m (eg_plan e) (eg_sync e) = (c, st)" by fastforce
  have "fed B c (map fst (eg_flight e)) \<and> sy_store st = sy_store (eg_sync e)"
    by (rule on_enroll_fed [OF f _ c]) (use h Enrolled in simp)
  then show ?thesis using s by (intro exI [of _ N]) (auto simp: Enrolled c)
next
  case (Fetched ask peer out elapsed)
  let ?F = "map fst (eg_flight e)" and ?F' = "map fst (remove1 (ask, peer) (eg_flight e))"
  obtain r hl where r: "sync_pull (xc_threshold X) (xc_cooldown X) (xc_unz X) (xc_dec X) now out (eg_health e ! peer) = (r, hl)"
    by fastforce
  obtain reply p where ft: "fetched ask peer elapsed r (eg_pool e) = (reply, p)" by fastforce
  obtain c st where c: "on_reply ops (cfg n) ask reply (eg_plan e) (eg_sync e) = (c, st)" by fastforce
  have m: "ask \<in> set ?F" using h Fetched by force
  have sub: "set ?F' \<subseteq> set ?F" using set_remove1_subset by force
  have "\<exists>N'. (net_step ops cfg M blank)\<^sup>*\<^sup>* N N' \<and> nodes N' = (nodes N)(n := sy_store st) \<and> mail N' = mail N \<and> fed B c ?F"
  proof (cases "good_reply ask reply")
    case None
    have "sy_store st = sy_store (eg_sync e)" "fed B c ?F"
      using c None fed_strike [OF f, of "ra_origin ask" "ra_after ask" "ra_until ask"] fed_drop
      by (auto simp: on_reply_def Let_def unenroll_def split: prod.splits if_splits)
    then show ?thesis using s by (intro exI [of _ N]) auto
  next
    case (Some es)
    have "served B (ra_origin ask) (ra_generation ask) es"
      using fetched_served [OF ft Some] h Fetched r by simp
    then have "fed B (Catchup.complete (ra_origin ask) (ra_after ask) (ra_until ask) es (eg_plan e)) ?F"
      by (rule fed_complete [OF f m])
    then show ?thesis using drain_applies_net [where cfg = cfg and n = n and N = N, OF n B _ s] c Some by (simp add: on_reply_def)
  qed
  then show ?thesis using fed_subset [OF _ sub] Fetched r ft c by auto
qed (use assms in \<open>auto intro!: exI [of _ N]\<close>)



end
