(* ===== verification/Reconcile.thy ===== *)
theory Reconcile
  imports Sync Mesh
begin

text \<open>
  Fact reconciliation (\<open>reconcile_facts\<close> and its helpers in \<open>src/sync.rs\<close>): compare the fact
  roots, walk the tree of two levels to the cells that differ, and merge what the peer has
  under the chosen nodes. The fetches of the chosen subtrees overlap; a schedule says which
  of the running fetches does its next page and how the peer answers that page. The pages
  of one fetch are in order, a finished fetch makes room for the next.
\<close>

section \<open>Choosing what to fetch\<close>

definition RECONCILE_COARSE_MAX :: nat where "RECONCILE_COARSE_MAX = 32"
definition RECONCILE_FETCH_MAX :: nat where "RECONCILE_FETCH_MAX = 64"
definition RECONCILE_WHOLESALE :: nat where "RECONCILE_WHOLESALE = 32"
definition SUBTREE_PAGES_MAX :: nat where "SUBTREE_PAGES_MAX = 4096"
definition RECONCILE_WINDOW :: nat where "RECONCILE_WINDOW = 4"

definition get_at :: "'a list \<Rightarrow> nat \<Rightarrow> 'a option" where
  "get_at xs i = (if i < length xs then Some (xs ! i) else None)"

text \<open>The cells of ours that the peer's answer contradicts or leaves out, as bytes.\<close>

definition differing :: "bytes list \<Rightarrow> bytes list \<Rightarrow> u8 list" where
  "differing ours theirs = map word_of_nat (filter (\<lambda>i. get_at ours i \<noteq> get_at theirs i) [0..<length ours])"

fun unpack_children :: "bytes \<Rightarrow> bytes list" where
  "unpack_children flat = (if length flat < 16 then [] else take 16 flat # unpack_children (drop 16 flat))"

declare unpack_children.simps [simp del]

fun chunks :: "nat \<Rightarrow> 'a list \<Rightarrow> 'a list list" where
  "chunks k xs = (if xs = [] \<or> k = 0 then [] else take k xs # chunks k (drop k xs))"

declare chunks.simps [simp del]

text \<open>A differing bucket under which we hold nothing is taken whole, the others are expanded.\<close>

definition wholesale :: "bytes list \<Rightarrow> u8 list \<Rightarrow> bytes list" where
  "wholesale ours diff = map (\<lambda>c. [c]) (filter (\<lambda>c. ours ! unat c = zero16) diff)"

definition to_expand :: "bytes list \<Rightarrow> u8 list \<Rightarrow> u8 list" where
  "to_expand ours diff = filter (\<lambda>c. ours ! unat c \<noteq> zero16) diff"

definition leaf_targets :: "u8 \<Rightarrow> bytes list \<Rightarrow> bytes list \<Rightarrow> bytes list" where
  "leaf_targets c ours theirs =
     (let leaves = differing ours theirs
      in if length leaves \<ge> RECONCILE_WHOLESALE then [[c]] else map (\<lambda>j. [c, j]) leaves)"

section \<open>Asking\<close>

definition tree_request :: "index_cfg \<Rightarrow> bytes \<Rightarrow> merkle_ask list \<Rightarrow> sync_request" where
  "tree_request I cursor asks = \<lparr>sr_requester = ix_self I, sr_have = [], sr_atts_cursor = cursor, sr_skip_origins = [],
     sr_ranges = [], sr_merkle = asks\<rparr>"

definition expand_ask :: "bytes \<Rightarrow> merkle_ask" where
  "expand_ask prefix = \<lparr>ma_prefix = prefix, ma_expand = True, ma_fetch = False\<rparr>"

definition find_node :: "sync_response \<Rightarrow> bytes \<Rightarrow> merkle_node option" where
  "find_node resp prefix = find (\<lambda>n. mn_prefix n = prefix) (sp_merkle resp)"

definition ask_children :: "index_cfg \<Rightarrow> (sync_request \<Rightarrow> sync_response option) \<Rightarrow> bytes \<Rightarrow> ('s, bytes list) act" where
  "ask_children I peer prefix =
     (case peer (tree_request I [] [expand_ask prefix]) of
        None \<Rightarrow> afail PullFailed
      | Some resp \<Rightarrow> (case find_node resp prefix of
          None \<Rightarrow> afail NoMerkleAnswer
        | Some n \<Rightarrow> aret (unpack_children (mn_children n))))"

definition ask_children_many :: "index_cfg \<Rightarrow> (sync_request \<Rightarrow> sync_response option) \<Rightarrow> u8 list \<Rightarrow> ('s, bytes list list) act" where
  "ask_children_many I peer prefixes =
     (case peer (tree_request I [] (map (\<lambda>c. expand_ask [c]) prefixes)) of
        None \<Rightarrow> afail PullFailed
      | Some resp \<Rightarrow>
          (\<lambda>st. (map_res (\<lambda>c. map_sum id (\<lambda>n. unpack_children (mn_children n)) (ok_or NoMerkleAnswer (find_node resp [c]))) prefixes, st)))"

text \<open>Level two: the expansions in batches of \<open>MERKLE_ASKS_MAX\<close>.\<close>

definition expand_bucket :: "'s store_ops \<Rightarrow> u8 \<times> bytes list \<Rightarrow> bytes list \<Rightarrow> ('s, bytes list) act" where
  "expand_bucket ops p targets =
     (case p of (c, theirs) \<Rightarrow> abind (aread (fact_children ops [c])) (\<lambda>ours. aret (targets @ leaf_targets c ours theirs)))"

definition expand_batch :: "'s store_ops \<Rightarrow> index_cfg \<Rightarrow> (sync_request \<Rightarrow> sync_response option) \<Rightarrow> u8 list \<Rightarrow> bytes list \<Rightarrow>
    ('s, bytes list) act" where
  "expand_batch ops I peer batch targets =
     abind (ask_children_many I peer batch) (\<lambda>answers. aeach (expand_bucket ops) (zip batch answers) targets)"

section \<open>Fetching subtrees\<close>

record subtree =
  tk_prefix :: bytes
  tk_cursor :: bytes
  tk_left :: nat
  tk_merged :: nat

definition new_subtree :: "bytes \<Rightarrow> subtree" where
  "new_subtree prefix = \<lparr>tk_prefix = prefix, tk_cursor = [], tk_left = SUBTREE_PAGES_MAX, tk_merged = 0\<rparr>"

text \<open>One page: the fetch goes on (Inl) or is over with so many facts merged (Inr).\<close>

definition fetch_page :: "'s store_ops \<Rightarrow> index_cfg \<Rightarrow> (sync_request \<Rightarrow> sync_response option) \<Rightarrow> subtree \<Rightarrow>
    ('s, subtree + nat) act" where
  "fetch_page ops I peer t =
     (case peer (tree_request I (tk_cursor t) [\<lparr>ma_prefix = tk_prefix t, ma_expand = False, ma_fetch = True\<rparr>]) of
        None \<Rightarrow> afail PullFailed
      | Some resp \<Rightarrow>
          if sp_attests resp = [] then aret (Inr (tk_merged t))
          else abind (acommit (merge_attests ops (sp_attests resp))) (\<lambda>n.
            let merged = tk_merged t + n in
            if \<not> sp_atts_truncated resp \<or> tk_left t \<le> 1 then aret (Inr merged)
            else aret (Inl (t\<lparr>tk_cursor := sp_atts_next resp, tk_left := tk_left t - 1, tk_merged := merged\<rparr>))))"

fun subtree_pages :: "'s store_ops \<Rightarrow> index_cfg \<Rightarrow> (nat \<Rightarrow> sync_request \<Rightarrow> sync_response option) \<Rightarrow> nat \<Rightarrow> subtree \<Rightarrow> ('s, nat) act" where
  "subtree_pages ops I pages 0 t = aret (tk_merged t)"
| "subtree_pages ops I pages (Suc k) t =
     abind (fetch_page ops I (pages k) t) (\<lambda>r. case r of Inl t \<Rightarrow> subtree_pages ops I pages k t | Inr merged \<Rightarrow> aret merged)"

definition fetch_subtree :: "'s store_ops \<Rightarrow> index_cfg \<Rightarrow> (nat \<Rightarrow> sync_request \<Rightarrow> sync_response option) \<Rightarrow> bytes \<Rightarrow> ('s, nat) act" where
  "fetch_subtree ops I pages prefix = subtree_pages ops I pages SUBTREE_PAGES_MAX (new_subtree prefix)"

text \<open>
  The sliding window. An element of the schedule names a running fetch (modulo their number)
  and the answers to its next page; None: the schedule is over before the fetches are.
\<close>

type_synonym schedule = "(nat \<times> (sync_request \<Rightarrow> sync_response option)) list"

fun window_run :: "'s store_ops \<Rightarrow> index_cfg \<Rightarrow> schedule \<Rightarrow> subtree list \<Rightarrow> bytes list \<Rightarrow> nat \<Rightarrow> ('s, nat option) act" where
  "window_run ops I sched [] queue merged = aret (Some merged)"
| "window_run ops I [] (t # ts) queue merged = aret None"
| "window_run ops I ((i, peer) # sched) (t # ts) queue merged =
     (let active = t # ts; j = i mod length active in
      abind (fetch_page ops I peer (active ! j)) (\<lambda>r. case r of
          Inl t' \<Rightarrow> window_run ops I sched (active[j := t']) queue merged
        | Inr m \<Rightarrow>
            (case queue of
               [] \<Rightarrow> window_run ops I sched (take j active @ drop (Suc j) active) [] (merged + m)
             | p # rest \<Rightarrow> window_run ops I sched (active[j := new_subtree p]) rest (merged + m))))"

definition fetch_targets :: "'s store_ops \<Rightarrow> index_cfg \<Rightarrow> schedule \<Rightarrow> bytes list \<Rightarrow> ('s, nat option) act" where
  "fetch_targets ops I sched targets =
     window_run ops I sched (map new_subtree (take RECONCILE_WINDOW targets)) (drop RECONCILE_WINDOW targets) 0"

section \<open>The walk\<close>

text \<open>
  \<open>peer\<close> answers the questions about the tree, \<open>pages\<close> the pages of the whole table when we
  hold nothing, \<open>sched\<close> those of the subtrees. None: the schedule was over first.
\<close>

definition walk_targets :: "'s store_ops \<Rightarrow> index_cfg \<Rightarrow> (sync_request \<Rightarrow> sync_response option) \<Rightarrow> ('s, bytes list) act" where
  "walk_targets ops I peer =
     abind (aread (fact_children ops [])) (\<lambda>ours.
     abind (ask_children I peer []) (\<lambda>theirs.
       let diff = take RECONCILE_COARSE_MAX (differing ours theirs) in
       abind (aeach (expand_batch ops I peer) (chunks MERKLE_ASKS_MAX (to_expand ours diff)) (wholesale ours diff))
         (\<lambda>targets. aret (take RECONCILE_FETCH_MAX targets))))"

definition reconcile_facts :: "'s store_ops \<Rightarrow> index_cfg \<Rightarrow> (sync_request \<Rightarrow> sync_response option) \<Rightarrow>
    (nat \<Rightarrow> sync_request \<Rightarrow> sync_response option) \<Rightarrow> schedule \<Rightarrow> bytes \<Rightarrow> ('s, bool option) act" where
  "reconcile_facts ops I peer pages sched peer_root =
     (if length peer_root \<noteq> 16 then aret (Some False)
      else abind (aread (fact_root ops)) (\<lambda>our_root.
        if our_root = peer_root then aret (Some False)
        else if our_root = zero16 then abind (fetch_subtree ops I pages []) (\<lambda>m. aret (Some (m > 0)))
        else abind (walk_targets ops I peer) (\<lambda>targets.
          if targets = [] then aret (Some False)
          else abind (fetch_targets ops I sched targets) (\<lambda>m. aret (map_option (\<lambda>m. m > 0) m)))))"

text \<open>
  One wake of the reconcile loop: the peers from \<open>start\<close> on, each if it is available and has
  reported a root; \<open>env\<close> gives a peer's answers. An error ends only that peer's turn.
\<close>

definition reconcile_turn :: "'s store_ops \<Rightarrow> index_cfg \<Rightarrow> (nat \<Rightarrow> bool) \<Rightarrow>
    (nat \<Rightarrow> (sync_request \<Rightarrow> sync_response option) \<times> (nat \<Rightarrow> sync_request \<Rightarrow> sync_response option) \<times> schedule) \<Rightarrow>
    nat \<Rightarrow> 's sync \<Rightarrow> 's sync" where
  "reconcile_turn ops I up env idx st =
     (if \<not> up idx \<or> sy_roots st idx = [] then st
      else case env idx of (peer, pages, sched) \<Rightarrow>
        (case reconcile_facts ops I peer pages sched (sy_roots st idx) st of
           (Inr (Some True), st') \<Rightarrow> hint_peers st'
         | (_, st') \<Rightarrow> st'))"

definition reconcile_wake :: "'s store_ops \<Rightarrow> index_cfg \<Rightarrow> (nat \<Rightarrow> bool) \<Rightarrow>
    (nat \<Rightarrow> (sync_request \<Rightarrow> sync_response option) \<times> (nat \<Rightarrow> sync_request \<Rightarrow> sync_response option) \<times> schedule) \<Rightarrow>
    nat \<Rightarrow> 's sync \<Rightarrow> nat \<times> 's sync" where
  "reconcile_wake ops I up env start st =
     (let n = length (ix_peers I) in
      ((start + 1) mod max n 1,
       fold (\<lambda>step. reconcile_turn ops I up env ((start + step) mod n)) [0..<n] (st\<lparr>sy_reconcile := False\<rparr>)))"

section \<open>The window always drains\<close>

text \<open>The pages that may still be asked for.\<close>

definition pages_left :: "subtree list \<Rightarrow> bytes list \<Rightarrow> nat" where
  "pages_left active queue = sum_list (map tk_left active) + SUBTREE_PAGES_MAX * length queue"

lemma fetch_page_left:
  assumes "fetch_page ops I peer t st = (Inr (Inl t'), st')"
  shows "tk_left t' < tk_left t \<and> 0 < tk_left t'"
  using assms by (auto simp: fetch_page_def abind_def afail_def aret_def Let_def split: option.splits if_splits sum.splits prod.splits)

lemma window_run_ends:
  assumes "pages_left active queue \<le> length sched" and "\<forall>t\<in>set active. 0 < tk_left t"
    and "window_run ops I sched active queue merged st = (r, st')"
  shows "r \<noteq> Inr None"
  using assms
proof (induction ops I sched active queue merged arbitrary: st rule: window_run.induct)
  case (1 ops I sched queue merged)
  then show ?case by (auto simp: aret_def)
next
  case (2 ops I t ts queue merged)
  then show ?case by (auto simp: pages_left_def)
next
  case (3 ops I i peer sched t ts queue merged)
  let ?a = "t # ts" and ?j = "i mod length (t # ts)"
  have j: "?j < length ?a" by simp
  have pos: "0 < tk_left (?a ! ?j)" using 3(5) nth_mem [OF j] by blast
  have split: "sum_list (map tk_left ?a) = tk_left (?a ! ?j) + sum_list (map tk_left (take ?j ?a @ drop (Suc ?j) ?a))"
  proof -
    have "sum_list (map tk_left ?a) = sum_list (map tk_left (take ?j ?a @ ?a ! ?j # drop (Suc ?j) ?a))"
      using id_take_nth_drop [OF j] by simp
    then show ?thesis by (simp only: map_append sum_list_append list.map sum_list.Cons ac_simps)
  qed
  have upd: "sum_list (map tk_left (?a[?j := t'])) = tk_left t' + sum_list (map tk_left (take ?j ?a @ drop (Suc ?j) ?a))" for t'
    by (simp only: upd_conv_take_nth_drop [OF j] map_append sum_list_append list.map sum_list.Cons ac_simps)
  have posu: "\<forall>t\<in>set (?a[?j := t']). 0 < tk_left t" if "0 < tk_left t'" for t'
    using 3(5) that set_update_subset_insert [of ?a ?j t'] by blast
  have posd: "\<forall>t\<in>set (take ?j ?a @ drop (Suc ?j) ?a). 0 < tk_left t"
    using 3(5) by (metis Un_iff in_set_dropD in_set_takeD set_append)
  obtain x t1 where run: "fetch_page ops I peer (?a ! ?j) st = (x, t1)" by fastforce
  show ?case
  proof (cases x)
    case (Inl e)
    then show ?thesis using 3(6) run by (auto simp: abind_def Let_def)
  next
    case (Inr y)
    show ?thesis
    proof (cases y)
      case (Inl t')
      have l: "tk_left t' < tk_left (?a ! ?j)" "0 < tk_left t'" using fetch_page_left [OF run [unfolded Inr Inl]] by simp_all
      have "window_run ops I sched (?a[?j := t']) queue merged t1 = (r, st')"
        using 3(6) run Inr Inl by (simp add: abind_def Let_def)
      moreover have "pages_left (?a[?j := t']) queue \<le> length sched"
        using 3(4) l(1) split upd [of t'] by (simp only: pages_left_def list.size)
      ultimately show ?thesis using 3(1) [OF refl refl] posu [OF l(2)] by blast
    next
      case m: (Inr m)
      show ?thesis
      proof (cases queue)
        case Nil
        have "window_run ops I sched (take ?j ?a @ drop (Suc ?j) ?a) [] (merged + m) t1 = (r, st')"
          using 3(6) run Inr m Nil by (simp add: abind_def Let_def)
        moreover have "pages_left (take ?j ?a @ drop (Suc ?j) ?a) [] \<le> length sched"
          using 3(4) pos split Nil by (simp only: pages_left_def list.size)
        ultimately show ?thesis using 3(2) [OF refl refl Nil] posd by blast
      next
        case (Cons p rest)
        have "window_run ops I sched (?a[?j := new_subtree p]) rest (merged + m) t1 = (r, st')"
          using 3(6) run Inr m Cons by (simp add: abind_def Let_def)
        moreover have "tk_left (new_subtree p) = SUBTREE_PAGES_MAX" "0 < SUBTREE_PAGES_MAX" by (simp_all add: new_subtree_def SUBTREE_PAGES_MAX_def)
        moreover have "pages_left (?a[?j := new_subtree p]) rest \<le> length sched"
          using 3(4) pos split upd [of "new_subtree p"] Cons calculation(2)
          by (simp only: pages_left_def list.size add_mult_distrib2 mult_Suc_right)
        ultimately show ?thesis using 3(3) [OF refl refl Cons] posu by metis
      qed
    qed
  qed
qed

lemma abind_cases:
  assumes "abind m k st = (r, st')"
  obtains e t where "m st = (Inl e, t)" "r = Inl e" "st' = t"
    | x t where "m st = (Inr x, t)" "k x t = (r, st')"
  using assms by (cases "m st") (auto simp: abind_def split: sum.splits)

lemma walk_targets_bound:
  assumes "walk_targets ops I peer st = (Inr targets, st')"
  shows "length targets \<le> RECONCILE_FETCH_MAX"
  using assms unfolding walk_targets_def Let_def
  by (elim abind_cases) (auto simp: aret_def)

text \<open>
  C17: Reconciliation ends: with at most \<open>RECONCILE_FETCH_MAX\<close> subtrees of at most
  \<open>SUBTREE_PAGES_MAX\<close> pages each, a schedule of that many pages never runs out first, in
  whatever order the fetches progress and whatever the peer answers.
\<close>
theorem reconcile_ends:
  assumes "RECONCILE_FETCH_MAX * SUBTREE_PAGES_MAX \<le> length sched"
    and "reconcile_facts ops I peer pages sched root st = (r, st')"
  shows "r \<noteq> Inr None"
proof -
  have fetch: "q \<noteq> Inr None" if "length targets \<le> RECONCILE_FETCH_MAX" "fetch_targets ops I sched targets t = (q, t')" for targets t q t'
  proof (rule window_run_ends)
    show "window_run ops I sched (map new_subtree (take RECONCILE_WINDOW targets)) (drop RECONCILE_WINDOW targets) 0 t = (q, t')"
      using that(2) by (simp add: fetch_targets_def)
    show "\<forall>t\<in>set (map new_subtree (take RECONCILE_WINDOW targets)). 0 < tk_left t"
      by (auto simp: new_subtree_def SUBTREE_PAGES_MAX_def)
    have "pages_left (map new_subtree (take RECONCILE_WINDOW targets)) (drop RECONCILE_WINDOW targets) =
        SUBTREE_PAGES_MAX * length (take RECONCILE_WINDOW targets) + SUBTREE_PAGES_MAX * length (drop RECONCILE_WINDOW targets)"
      by (simp add: pages_left_def comp_def new_subtree_def sum_list_triv)
    also have "\<dots> = SUBTREE_PAGES_MAX * length targets"
      by (simp only: add_mult_distrib2 [symmetric] length_append [symmetric] append_take_drop_id)
    also have "\<dots> \<le> RECONCILE_FETCH_MAX * SUBTREE_PAGES_MAX" using that(1) by simp
    finally show "pages_left (map new_subtree (take RECONCILE_WINDOW targets)) (drop RECONCILE_WINDOW targets) \<le> length sched"
      using assms(1) by simp
  qed
  show ?thesis
  proof
    assume "r = Inr None"
    then obtain targets t t' where "walk_targets ops I peer t = (Inr targets, t')" "fetch_targets ops I sched targets t' = (Inr None, st')"
      using assms(2) unfolding reconcile_facts_def by (auto simp: aret_def split: if_splits elim!: abind_cases)
    then show False using fetch walk_targets_bound by blast
  qed
qed

theorem reconcile_ends_witness:
  "fst (reconcile_facts demo_ops (demo_cfg ''b'') (\<lambda>_. None) (\<lambda>_ _. None)
     (replicate (RECONCILE_FETCH_MAX * SUBTREE_PAGES_MAX) (0, \<lambda>_. None)) (replicate 16 1) (sync_new rocks_empty)) \<noteq> Inr None"
proof -
  let ?sched = "replicate (RECONCILE_FETCH_MAX * SUBTREE_PAGES_MAX) (0 :: nat, \<lambda>_ :: sync_request. None :: sync_response option)"
  obtain r st' where run: "reconcile_facts demo_ops (demo_cfg ''b'') (\<lambda>_. None) (\<lambda>_ _. None) ?sched (replicate 16 1) (sync_new rocks_empty) = (r, st')"
    by fastforce
  have "RECONCILE_FETCH_MAX * SUBTREE_PAGES_MAX \<le> length ?sched" by simp
  from reconcile_ends [OF this run] show ?thesis unfolding run by simp
qed

section \<open>How far one walk sees\<close>

definition under :: "u8 set \<Rightarrow> bytes list \<Rightarrow> bool" where
  "under cs targets \<longleftrightarrow> (\<forall>t\<in>set targets. t \<noteq> [] \<and> hd t \<in> cs)"

lemma under_simps [simp]: "under cs []" "under cs (xs @ ys) \<longleftrightarrow> under cs xs \<and> under cs ys"
  by (auto simp: under_def)

lemma under_leaves: "c \<in> cs \<Longrightarrow> under cs (leaf_targets c ours theirs)"
  by (auto simp: under_def leaf_targets_def Let_def)

lemma under_buckets:
  assumes "aeach (expand_bucket ops) ps targets st = (Inr out, st')" and "under cs targets" and "fst ` set ps \<subseteq> cs"
  shows "under cs out"
  using assms
proof (induction ps arbitrary: targets st)
  case Nil
  then show ?case by (simp add: aret_def)
next
  case (Cons p ps)
  then obtain t ts where t: "expand_bucket ops p targets st = (Inr ts, t)" "aeach (expand_bucket ops) ps ts t = (Inr out, st')"
    by (auto elim: abind_cases)
  have "under cs ts" using t(1) Cons.prems(2,3) under_leaves [of "fst p" cs]
    by (cases p) (auto simp: expand_bucket_def aret_def elim!: abind_cases)
  then show ?case using Cons.IH [OF t(2)] Cons.prems(3) by simp
qed

lemma under_batches:
  assumes "aeach (expand_batch ops I peer) bs targets st = (Inr out, st')" and "under cs targets" and "\<Union> (set ` set bs) \<subseteq> cs"
  shows "under cs out"
  using assms
proof (induction bs arbitrary: targets st)
  case Nil
  then show ?case by (simp add: aret_def)
next
  case (Cons b bs)
  then obtain t ts where t: "expand_batch ops I peer b targets st = (Inr ts, t)" "aeach (expand_batch ops I peer) bs ts t = (Inr out, st')"
    by (auto elim: abind_cases)
  then obtain answers t1 where "aeach (expand_bucket ops) (zip b answers) targets t1 = (Inr ts, t)"
    by (auto simp: expand_batch_def elim: abind_cases)
  then have "under cs ts"
  proof (rule under_buckets [OF _ Cons.prems(2)])
    show "fst ` set (zip b answers) \<subseteq> cs" using Cons.prems(3) by (auto dest: set_zip_leftD)
  qed
  then show ?case using Cons.IH [OF t(2)] Cons.prems(3) by simp
qed

lemma set_chunks: "\<Union> (set ` set (chunks k xs)) \<subseteq> set xs"
proof (induction k xs rule: chunks.induct)
  case (1 k xs)
  then show ?case by (subst chunks.simps) (auto dest: in_set_takeD in_set_dropD)
qed

text \<open>
  C18: One walk asks only below the first \<open>RECONCILE_COARSE_MAX\<close> buckets that differ, lowest
  first, and for at most \<open>RECONCILE_FETCH_MAX\<close> subtrees: the work is bounded. The choice does not
  depend on earlier walks, so while that many low buckets keep differing (by facts that only
  we hold) a higher bucket is never asked about.
\<close>
theorem walk_sees_the_lowest_buckets:
  assumes "walk_targets ops I peer st = (Inr targets, st')" and "fact_children ops [] (sy_store st) = Inr ours"
    and "ask_children I peer [] st = (Inr theirs, st)" and "t \<in> set targets"
  shows "t \<noteq> [] \<and> hd t \<in> set (take RECONCILE_COARSE_MAX (differing ours theirs)) \<and> length targets \<le> RECONCILE_FETCH_MAX"
proof -
  let ?diff = "take RECONCILE_COARSE_MAX (differing ours theirs)"
  obtain out t1 where run: "aeach (expand_batch ops I peer) (chunks MERKLE_ASKS_MAX (to_expand ours ?diff)) (wholesale ours ?diff) st = (Inr out, t1)"
    and out: "targets = take RECONCILE_FETCH_MAX out"
    using assms(1-3) by (auto simp: walk_targets_def Let_def aread_def aret_def elim!: abind_cases)
  have "under (set ?diff) out"
  proof (rule under_batches [OF run])
    show "under (set ?diff) (wholesale ours ?diff)" by (auto simp: under_def wholesale_def)
    show "\<Union> (set ` set (chunks MERKLE_ASKS_MAX (to_expand ours ?diff))) \<subseteq> set ?diff"
      using set_chunks [of MERKLE_ASKS_MAX "to_expand ours ?diff"] by (auto simp: to_expand_def)
  qed
  then show ?thesis using assms(4) out by (auto simp: under_def dest: in_set_takeD)
qed

theorem walk_sees_the_lowest_buckets_witness:
  "\<exists>targets st'. walk_targets demo_ops (demo_cfg ''b'')
       (\<lambda>_. Some (answer_of (demo_cfg ''a'') \<lparr>rb_origins = [], rb_attests = [], rb_atts_next = None, rb_ranges = [], rb_fact_root = None,
          rb_merkle = [\<lparr>mn_prefix = [], mn_children = []\<rparr>]\<rparr>)) (sync_new rocks_empty) = (Inr targets, st') \<and>
     [0] \<in> set targets \<and> length targets \<le> RECONCILE_FETCH_MAX"
proof -
  let ?ours = "replicate 256 zero16"
  define peer where "peer = (\<lambda>_ :: sync_request. Some (answer_of (demo_cfg ''a'') \<lparr>rb_origins = [], rb_attests = [], rb_atts_next = None,
    rb_ranges = [], rb_fact_root = None, rb_merkle = [\<lparr>mn_prefix = [], mn_children = []\<rparr>]\<rparr>))"
  let ?st = "sync_new rocks_empty" and ?diff = "take RECONCILE_COARSE_MAX (differing ?ours [])"
  have ours: "fact_children demo_ops [] (sy_store ?st) = Inr ?ours"
    by (simp add: fact_children_def rocks_ops_def rocks_merkle_children_def rocks_empty_def agg_new_def sync_new_def)
  have theirs: "ask_children (demo_cfg ''b'') peer [] ?st = (Inr [], ?st)"
    by (simp add: ask_children_def peer_def find_node_def answer_of_def unpack_children.simps aret_def)
  have d: "differing ?ours [] = map word_of_nat [0..<256]"
    by (simp add: differing_def get_at_def filter_True)
  have zero: "\<forall>c. ?ours ! unat (c :: u8) = zero16" using unsigned_less [where 'a = nat and 'b = 8] by simp
  have "to_expand ?ours ?diff = []" "wholesale ?ours ?diff = map (\<lambda>c. [c]) ?diff" using zero by (simp_all add: to_expand_def wholesale_def)
  then have run: "walk_targets demo_ops (demo_cfg ''b'') peer ?st = (Inr (take RECONCILE_FETCH_MAX (map (\<lambda>c. [c]) ?diff)), ?st)"
    using ours theirs by (simp add: walk_targets_def abind_def aread_def aret_def chunks.simps Let_def)
  have "[0] \<in> set (take RECONCILE_FETCH_MAX (map (\<lambda>c. [c]) ?diff))"
  proof -
    have "map (word_of_nat :: nat \<Rightarrow> u8) [0..<256] = 0 # map word_of_nat [1..<256]" by (subst upt_conv_Cons) simp_all
    then show ?thesis unfolding d by (simp add: RECONCILE_FETCH_MAX_def RECONCILE_COARSE_MAX_def)
  qed
  then show ?thesis using walk_sees_the_lowest_buckets [OF run ours theirs, of "[0]"] run unfolding peer_def by blast
qed

section \<open>Reconciliation in the mesh\<close>

lemma sim_ask_children: "member_sim ops cfg M blank n B G (ask_children I peer prefix)"
  unfolding ask_children_def by (auto split: option.split intro!: sim_aret sim_afail)

lemma sim_expand:
  "member_sim ops cfg M blank n B G (aeach (expand_bucket ops) ps targets)"
  by (induction ps arbitrary: targets)
    (auto simp: expand_bucket_def split: prod.split intro!: sim_aret sim_bind [where Q = "holds B n G"] sim_aread)

lemma sim_walk: "member_sim ops cfg M blank n B G (walk_targets ops I peer)"
proof -
  have "member_sim ops cfg M blank n B G (ask_children_many I peer b)" for b
    unfolding ask_children_many_def by (auto split: option.split intro!: sim_afail sim_same_store)
  then have batch: "member_sim ops cfg M blank n B G (expand_batch ops I peer b ts)" for b ts
    unfolding expand_batch_def by (intro sim_bind [where Q = "holds B n G"] sim_expand)
  have "member_sim ops cfg M blank n B G (aeach (expand_batch ops I peer) bs ts)" for bs ts
    by (induction bs arbitrary: ts) (auto intro!: sim_aret sim_bind [where Q = "holds B n G"] batch)
  then show ?thesis unfolding walk_targets_def Let_def
    by (intro sim_bind [where Q = "holds B n G"] sim_aread sim_ask_children sim_aret)
qed

lemma sim_fetch_page:
  assumes "n \<in> M"
  shows "member_sim ops cfg M blank n B G (fetch_page ops I peer t)"
proof -
  have "member_sim ops cfg M blank n B G (acommit (merge_attests ops as))" for as
    by (rule sim_acommit) (auto dest: net_step.facts [OF assms])
  then show ?thesis unfolding fetch_page_def Let_def
    by (auto split: option.split intro!: sim_afail sim_aret sim_bind [where Q = "holds B n G"])
qed

lemma sim_subtree_pages: "n \<in> M \<Longrightarrow> member_sim ops cfg M blank n B G (subtree_pages ops I pages k t)"
  by (induction k arbitrary: t) (auto split: sum.split intro!: sim_aret sim_bind [where Q = "holds B n G"] sim_fetch_page)

lemma sim_window_run:
  assumes "n \<in> M"
  shows "member_sim ops cfg M blank n B G (window_run ops I sched active queue merged)"
proof (induction ops I sched active queue merged rule: window_run.induct)
  case (3 ops I i peer sched t ts queue merged)
  show ?case unfolding window_run.simps Let_def
    by (rule sim_bind [OF sim_fetch_page [OF assms]]) (use 3 in \<open>auto split: sum.split list.split\<close>)
qed (auto intro: sim_aret)

lemma sim_reconcile:
  assumes "n \<in> M"
  shows "member_sim ops cfg M blank n B G (reconcile_facts ops I peer pages sched root)"
  unfolding reconcile_facts_def fetch_subtree_def fetch_targets_def
  by (intro sim_if sim_aret sim_bind [where Q = "holds B n G"] sim_aread sim_walk sim_subtree_pages sim_window_run assms) auto



end
