(* ===== verification/Loops.thy ===== *)
theory Loops
  imports Reconcile Engine_Net
begin

text \<open>
  The loops around the actions of theory \<open>Sync\<close> (\<open>peer_loop\<close>, \<open>hint_loop\<close>, \<open>own_db_loop\<close> of
  \<open>src/sync.rs\<close>): one pass of each, with the time to sleep after it, and the lease discipline
  between the peer loops.
\<close>

section \<open>One pass of each loop\<close>

definition SYNC_INTERVAL :: nat where "SYNC_INTERVAL = 60 * 10 ^ 9"
definition CATCHUP_INTERVAL :: nat where "CATCHUP_INTERVAL = 5 * 10 ^ 9"
definition CATCHUP_WINDOW :: nat where "CATCHUP_WINDOW = 180 * 10 ^ 9"

text \<open>\<open>was_ok\<close> only decides the log level. A change is told to the peers.\<close>

definition peer_pass :: "'s store_ops \<Rightarrow> index_cfg \<Rightarrow> nat \<Rightarrow> bool \<Rightarrow> (nat \<Rightarrow> nat \<times> nat \<times> (sync_request \<Rightarrow> sync_response option)) \<Rightarrow>
    nat \<Rightarrow> bool \<times> 's sync \<Rightarrow> bool \<times> 's sync" where
  "peer_pass ops I idx up env now p =
     (case p of (was_ok, st) \<Rightarrow>
       if \<not> up then (was_ok, st)
       else (case pull_from ops I idx env now st of
           (Inr changed, st') \<Rightarrow> (True, if changed then hint_peers st' else st')
         | (Inl _, st') \<Rightarrow> (False, st')))"

definition peer_interval :: "'s store_ops \<Rightarrow> index_cfg \<Rightarrow> nat \<Rightarrow> nat \<Rightarrow> 's sync \<Rightarrow> nat" where
  "peer_interval ops I idx elapsed st =
     (if elapsed < CATCHUP_WINDOW \<and>
         (case origin_clock ops (ix_peers I ! idx) (sy_store st) of Inr (g, _) \<Rightarrow> g = 0 | Inl _ \<Rightarrow> False)
      then CATCHUP_INTERVAL else SYNC_INTERVAL)"

text \<open>A kick is consumed with every repeat that is queued.\<close>

definition take_kick :: "nat \<Rightarrow> 's sync \<Rightarrow> bool \<times> 's sync" where
  "take_kick idx st = (idx \<in> sy_kicks st, st\<lparr>sy_kicks := sy_kicks st - {idx}\<rparr>)"

text \<open>The peers to hint: those whose breaker is closed.\<close>

definition hint_pass :: "index_cfg \<Rightarrow> (nat \<Rightarrow> bool) \<Rightarrow> 's sync \<Rightarrow> nat list \<times> 's sync" where
  "hint_pass I up st =
     (filter up [0..<length (ix_peers I)], bump_stat hint_rounds_sent_update 1 (st\<lparr>sy_hint := False\<rparr>))"

definition own_db_pass :: "'s store_ops \<Rightarrow> index_cfg \<Rightarrow> nat \<Rightarrow> nix_env \<Rightarrow> nix_db option \<Rightarrow> nat \<Rightarrow> 's sync \<Rightarrow> 's sync" where
  "own_db_pass ops I reconcile_every N db now st =
     (case export_own_db ops I reconcile_every N db now st of
        (Inr n, st') \<Rightarrow> if n > 0 then hint_peers st' else st'
      | (Inl _, st') \<Rightarrow> st')"

definition next_reconcile :: "nat \<Rightarrow> nat \<Rightarrow> 's sync \<Rightarrow> nat" where
  "next_reconcile reconcile_every now st =
     max (case sy_diff st of Some d \<Rightarrow> df_last_full d + reconcile_every | None \<Rightarrow> now) (now + 10 ^ 9)"

section \<open>Leases\<close>

lemma claim_one_other: "oc_origin c \<noteq> a \<Longrightarrow> claim_one now idx c (skip, L) = (skip', L') \<Longrightarrow>
    L' a = L a \<and> (a \<in> set skip' \<longleftrightarrow> a \<in> set skip)"
  by (auto split: option.splits if_splits)

text \<open>What a lease table says about an origin after a loop claimed it.\<close>

definition settled :: "nat \<Rightarrow> nat \<Rightarrow> string \<Rightarrow> string list \<times> (string \<rightharpoonup> lease) \<Rightarrow> bool" where
  "settled now idx a p \<longleftrightarrow>
     (case snd p a of
        Some l \<Rightarrow> if a \<in> set (fst p) then ls_holder l \<noteq> PeerLoop idx \<and> (ls_holder l = Engine \<or> now - ls_at l < LEASE_TTL)
                  else ls_holder l = PeerLoop idx \<and> ls_at l = now
      | None \<Rightarrow> False)"

lemma claim_one_settles:
  "oc_origin c = a \<Longrightarrow> a \<notin> set skip \<or> settled now idx a (skip, L) \<Longrightarrow> settled now idx a (claim_one now idx c (skip, L))"
  by (auto simp: settled_def split: option.splits if_splits)

lemma claim_settles:
  assumes "\<And>a. a \<in> set skip \<Longrightarrow> settled now idx a (skip, L)"
  shows "(\<forall>a. a \<in> set (fst (fold (claim_one now idx) hv (skip, L))) \<or> a \<in> oc_origin ` set hv \<longrightarrow>
     settled now idx a (fold (claim_one now idx) hv (skip, L)))"
  using assms
proof (induction hv arbitrary: skip L)
  case (Cons c hv)
  obtain skip' L' where one: "claim_one now idx c (skip, L) = (skip', L')" by fastforce
  have here: "settled now idx (oc_origin c) (skip', L')"
    using claim_one_settles [of c "oc_origin c" skip now idx L] Cons.prems one by metis
  have all: "settled now idx a (skip', L')" if "a \<in> set skip'" for a
  proof (cases "a = oc_origin c")
    case False
    then show ?thesis using claim_one_other [OF _ one, of a] Cons.prems [of a] that by (auto simp: settled_def split: option.splits)
  qed (use here in simp)
  have keep: "settled now idx a (fold (claim_one now idx) hv (s, K))" if "settled now idx a (s, K)" for a s K
    using that
  proof (induction hv arbitrary: s K)
    case (Cons d ds)
    obtain s' K' where d: "claim_one now idx d (s, K) = (s', K')" by fastforce
    have "settled now idx a (s', K')"
      using claim_one_settles [of d a s now idx K] claim_one_other [OF _ d, of a] Cons.prems d
      by (cases "oc_origin d = a") (auto simp: settled_def split: option.splits)
    then show ?case using Cons.IH d by simp
  qed simp
  show ?case using Cons.IH [OF all] keep [OF here] one by auto
qed simp

text \<open>
  Between two loops the leases exclude each other: an origin that one loop claimed for its
  round is skipped by any other loop that asks before the lease expires, so its bodies
  travel from one place at a time.
\<close>
theorem leases_are_exclusive:
  assumes "claim_origins now idx hv L = (skip, L')" and "claim_origins now' idx' hv' L' = (skip', L'')"
    and "idx \<noteq> idx'" and "now \<le> now'" and "now' < now + LEASE_TTL"
    and "a \<in> oc_origin ` set hv" and "a \<notin> set skip" and "a \<in> oc_origin ` set hv'"
  shows "a \<in> set skip'"
proof (rule ccontr)
  assume no: "a \<notin> set skip'"
  have "settled now idx a (skip, L')"
    using claim_settles [of "[]" now idx L hv] assms(1,6) by (simp add: claim_origins_def)
  then obtain l where l: "L' a = Some l" "ls_holder l = PeerLoop idx" "ls_at l = now"
    using assms(7) by (auto simp: settled_def split: option.splits)
  have inv: "L'' a = Some l \<or> a \<in> set skip'"
  proof -
    have "(fst p, snd p) = p \<Longrightarrow> snd p a = Some l \<or> a \<in> set (fst p) \<Longrightarrow>
        snd (fold (claim_one now' idx') ds p) a = Some l \<or> a \<in> set (fst (fold (claim_one now' idx') ds p))" for p ds
    proof (induction ds arbitrary: p)
      case (Cons d ds)
      have "snd (claim_one now' idx' d p) a = Some l \<or> a \<in> set (fst (claim_one now' idx' d p))"
        using Cons.prems(2) l(2,3) assms(3-5) by (cases p) (auto split: option.splits)
      then show ?case using Cons.IH [of "claim_one now' idx' d p"] by simp
    qed simp
    from this [of "([], L')" hv'] show ?thesis using l(1) assms(2) by (simp add: claim_origins_def)
  qed
  moreover have "settled now' idx' a (skip', L'')"
    using claim_settles [of "[]" now' idx' L' hv'] assms(2,8) by (simp add: claim_origins_def)
  ultimately show False using no l(2) assms(3) by (auto simp: settled_def)
qed

theorem leases_are_exclusive_witness:
  "fst (claim_origins 5 1 [\<lparr>oc_origin = ''x'', oc_generation = 0, oc_seq = 0\<rparr>]
     (snd (claim_origins 0 0 [\<lparr>oc_origin = ''x'', oc_generation = 0, oc_seq = 0\<rparr>] Map.empty))) \<noteq> []"
proof -
  let ?h = "[\<lparr>oc_origin = ''x'', oc_generation = 0, oc_seq = 0\<rparr>]"
  obtain s1 L1 where 1: "claim_origins 0 0 ?h Map.empty = (s1, L1)" by fastforce
  obtain s2 L2 where 2: "claim_origins 5 1 ?h L1 = (s2, L2)" by fastforce
  have "s1 = []" using 1 by (simp add: claim_origins_def)
  then have "''x'' \<in> set s2" using leases_are_exclusive [OF 1 2, of "''x''"] by (simp add: LEASE_TTL_def)
  then show ?thesis using 1 2 by auto
qed

end
