(* ===== verification/Dedup.thy ===== *)
theory Dedup
  imports Prelude
begin

text \<open>
  The retention planner (\<open>src/dedup.rs\<close>): which occurrences of a segment are fetched and which
  replay a retained copy, decided up front under a byte budget. Byte counts are natural
  numbers. The contract is the execution of the plan: every replay finds its copy, every
  occurrence delivers its own segment, and the retained bytes never exceed the budget.
\<close>

section \<open>The plan\<close>

datatype step = Fetch nat nat | Cached nat

text \<open>Pass 1: dense identities, occurrence counts, last positions, sizes.\<close>

record 'k ident =
  id_of :: "'k \<rightharpoonup> nat"
  unique_at :: "nat list"
  occurrences :: "nat list"
  last_pos :: "nat list"
  size_at :: "nat list"

definition ident_empty :: "'k ident" where
  "ident_empty = \<lparr>id_of = Map.empty, unique_at = [], occurrences = [], last_pos = [], size_at = []\<rparr>"

definition identify_one :: "nat \<Rightarrow> 'k \<Rightarrow> nat \<Rightarrow> 'k ident \<Rightarrow> 'k ident" where
  "identify_one p k sz st =
     (let next_id = length (occurrences st);
          (i, st) = (case id_of st k of
             Some i \<Rightarrow> (i, st)
           | None \<Rightarrow> (next_id, st\<lparr>id_of := (id_of st)(k \<mapsto> next_id), occurrences := occurrences st @ [0],
                                  last_pos := last_pos st @ [0], size_at := size_at st @ [sz]\<rparr>))
      in st\<lparr>occurrences := (occurrences st)[i := occurrences st ! i + 1], last_pos := (last_pos st)[i := p],
            unique_at := unique_at st @ [i]\<rparr>)"

fun identify :: "nat \<Rightarrow> ('k \<times> nat) list \<Rightarrow> 'k ident \<Rightarrow> 'k ident" where
  "identify p [] st = st"
| "identify p ((k, sz) # ks) st = identify (p + 1) ks (identify_one p k sz st)"

text \<open>Pass 2: residency under the budget.\<close>

fun retain_plan :: "'k ident \<Rightarrow> nat \<Rightarrow> nat \<Rightarrow> nat list \<Rightarrow> bool list \<Rightarrow> bool list \<Rightarrow> nat \<Rightarrow> step list" where
  "retain_plan st budget p [] resident seen resident_bytes = []"
| "retain_plan st budget p (u # us) resident seen resident_bytes =
     (if \<not> seen ! u then
        (let later = occurrences st ! u - 1 in
         if later > 0 \<and> resident_bytes + size_at st ! u \<le> budget
         then Fetch u later # retain_plan st budget (p + 1) us (resident[u := True]) (seen[u := True]) (resident_bytes + size_at st ! u)
         else Fetch u 0 # retain_plan st budget (p + 1) us resident (seen[u := True]) resident_bytes)
      else if resident ! u then
        Cached u # (if p = last_pos st ! u
          then retain_plan st budget (p + 1) us (resident[u := False]) seen (resident_bytes - size_at st ! u)
          else retain_plan st budget (p + 1) us resident seen resident_bytes)
      else Fetch u 0 # retain_plan st budget (p + 1) us resident seen resident_bytes)"

definition plan :: "'k list \<Rightarrow> nat list \<Rightarrow> nat \<Rightarrow> step list" where
  "plan keys sizes budget =
     (let st = identify 0 (zip keys sizes) ident_empty; n = length (occurrences st)
      in retain_plan st budget 0 (unique_at st) (replicate n False) (replicate n False) 0)"

section \<open>Executing a plan\<close>

text \<open>
  The retained copies: the segment and the replays left. A fetch delivers the segment of its
  occurrence, a replay the retained one; None if there is none.
\<close>

type_synonym 'k retained = "nat \<rightharpoonup> 'k \<times> nat"

fun execute :: "step \<Rightarrow> 'k \<Rightarrow> 'k retained \<Rightarrow> ('k \<times> 'k retained) option" where
  "execute (Fetch u r) k R = Some (k, if r > 0 then R(u \<mapsto> (k, r)) else R)"
| "execute (Cached u) k R =
     (case R u of None \<Rightarrow> None
      | Some (k', r) \<Rightarrow> Some (k', if r \<le> 1 then R(u := None) else R(u \<mapsto> (k', r - 1))))"

text \<open>The deliveries with the copies retained after each.\<close>

fun execute_all :: "step list \<Rightarrow> 'k list \<Rightarrow> 'k retained \<Rightarrow> ('k \<times> 'k retained) list option" where
  "execute_all (s # ss) (k # ks) R =
     (case execute s k R of None \<Rightarrow> None
      | Some (d, R') \<Rightarrow> map_option (Cons (d, R')) (execute_all ss ks R'))"
| "execute_all [] [] R = Some []"
| "execute_all _ _ R = None"

definition held_bytes :: "('k \<Rightarrow> nat) \<Rightarrow> 'k retained \<Rightarrow> nat" where
  "held_bytes sz R = (\<Sum>u\<in>dom R. sz (fst (the (R u))))"

section \<open>Pass 1 identifies\<close>

definition entry_ok :: "('k \<Rightarrow> nat) \<Rightarrow> 'k list \<Rightarrow> 'k ident \<Rightarrow> 'k \<Rightarrow> nat \<Rightarrow> bool" where
  "entry_ok sz ks st k i \<longleftrightarrow> i < length (occurrences st) \<and> occurrences st ! i = count_list ks k \<and> size_at st ! i = sz k \<and>
     last_pos st ! i < length ks \<and> ks ! (last_pos st ! i) = k \<and> (\<forall>q<length ks. ks ! q = k \<longrightarrow> q \<le> last_pos st ! i)"

definition ident_ok :: "('k \<Rightarrow> nat) \<Rightarrow> 'k list \<Rightarrow> 'k ident \<Rightarrow> bool" where
  "ident_ok sz ks st \<longleftrightarrow> dom (id_of st) = set ks \<and>
     (\<forall>a b i. id_of st a = Some i \<longrightarrow> id_of st b = Some i \<longrightarrow> a = b) \<and>
     length (last_pos st) = length (occurrences st) \<and> length (size_at st) = length (occurrences st) \<and>
     unique_at st = map (\<lambda>k. the (id_of st k)) ks \<and> (\<forall>k i. id_of st k = Some i \<longrightarrow> entry_ok sz ks st k i)"

lemma ident_ok_empty: "ident_ok sz [] ident_empty"
  by (simp add: ident_ok_def ident_empty_def)

lemma identify_new:
  assumes "id_of st k = None" and "length (last_pos st) = length (occurrences st)" and "length (size_at st) = length (occurrences st)"
  shows "identify_one p k s st = st\<lparr>id_of := (id_of st)(k \<mapsto> length (occurrences st)), occurrences := occurrences st @ [1],
     last_pos := last_pos st @ [p], size_at := size_at st @ [s], unique_at := unique_at st @ [length (occurrences st)]\<rparr>"
  using assms by (simp add: identify_one_def Let_def list_update_append)

lemma identify_old:
  "id_of st k = Some i \<Longrightarrow> identify_one p k s st = st\<lparr>occurrences := (occurrences st)[i := occurrences st ! i + 1],
     last_pos := (last_pos st)[i := p], unique_at := unique_at st @ [i]\<rparr>"
  by (simp add: identify_one_def)

lemma entry_other:
  assumes "entry_ok sz ks st a i" and "a \<noteq> k" and "i < length (occurrences st')"
    and "occurrences st' ! i = occurrences st ! i" "size_at st' ! i = size_at st ! i" "last_pos st' ! i = last_pos st ! i"
  shows "entry_ok sz (ks @ [k]) st' a i"
  using assms by (auto simp: entry_ok_def nth_append)

lemma entry_here:
  assumes "i < length (occurrences st')" and "occurrences st' ! i = count_list ks k + 1" and "size_at st' ! i = sz k"
    and "last_pos st' ! i = length ks"
  shows "entry_ok sz (ks @ [k]) st' k i"
  using assms by (auto simp: entry_ok_def)

lemma identify_one_ok:
  assumes ok: "ident_ok sz ks st"
  shows "ident_ok sz (ks @ [k]) (identify_one (length ks) k (sz k) st)"
proof (cases "id_of st k")
  case None
  let ?n = "length (occurrences st)" and ?st = "identify_one (length ks) k (sz k) st"
  have lens: "length (last_pos st) = ?n" "length (size_at st) = ?n" using ok by (simp_all add: ident_ok_def)
  note new = identify_new [OF None lens, of "length ks" "sz k"]
  have fresh: "k \<notin> set ks" "count_list ks k = 0" using None ok by (auto simp: ident_ok_def count_list_0_iff)
  have less: "i < ?n" if "id_of st a = Some i" for a i using ok that by (simp add: ident_ok_def entry_ok_def)
  have "entry_ok sz (ks @ [k]) ?st a i" if "id_of ?st a = Some i" for a i
  proof (cases "a = k")
    case True
    then show ?thesis using that fresh lens unfolding new by (auto intro!: entry_here simp: nth_append)
  next
    case False
    then have a: "id_of st a = Some i" using that by (simp add: new)
    show ?thesis
      by (rule entry_other [of sz ks st]) (use False a ok less [OF a] lens in \<open>auto simp: new nth_append ident_ok_def\<close>)
  qed
  moreover have "a = b" if "id_of ?st a = Some i" "id_of ?st b = Some i" for a b i
    using that ok less unfolding new by (auto simp: ident_ok_def split: if_splits)
  moreover have "unique_at ?st = map (\<lambda>a. the (id_of ?st a)) (ks @ [k])"
    using fresh ok by (auto simp: new ident_ok_def)
  moreover have "dom (id_of ?st) = set (ks @ [k])" using ok by (simp add: new ident_ok_def)
  moreover have "length (last_pos ?st) = length (occurrences ?st)" "length (size_at ?st) = length (occurrences ?st)"
    using lens by (simp_all add: new)
  ultimately show ?thesis unfolding ident_ok_def by blast
next
  case (Some i)
  let ?st = "identify_one (length ks) k (sz k) st"
  note old = identify_old [OF Some, of "length ks" "sz k"]
  have e: "entry_ok sz ks st k i" and k: "k \<in> set ks" using Some ok by (auto simp: ident_ok_def)
  have lens: "length (last_pos st) = length (occurrences st)" using ok by (simp add: ident_ok_def)
  have "entry_ok sz (ks @ [k]) ?st a j" if a: "id_of ?st a = Some j" for a j
  proof (cases "a = k")
    case True
    then show ?thesis using a e Some lens unfolding old by (auto intro!: entry_here simp: entry_ok_def)
  next
    case False
    then have a': "id_of st a = Some j" "j \<noteq> i" using a Some ok by (auto simp: old ident_ok_def)
    then have "entry_ok sz ks st a j" using ok by (simp add: ident_ok_def)
    then show ?thesis
      by (rule entry_other) (use False a' \<open>entry_ok sz ks st a j\<close> in \<open>auto simp: old entry_ok_def\<close>)
  qed
  moreover have "unique_at ?st = map (\<lambda>a. the (id_of ?st a)) (ks @ [k])"
    using Some ok by (simp add: old ident_ok_def)
  moreover have "dom (id_of ?st) = set (ks @ [k])" using ok k by (auto simp: old ident_ok_def)
  moreover have "\<forall>a b i. id_of ?st a = Some i \<longrightarrow> id_of ?st b = Some i \<longrightarrow> a = b"
    "length (last_pos ?st) = length (occurrences ?st)" "length (size_at ?st) = length (occurrences ?st)"
    using ok unfolding old by (simp_all add: ident_ok_def)
  ultimately show ?thesis unfolding ident_ok_def by blast
qed

lemma identify_ok:
  assumes "ident_ok sz ks st" and "\<forall>(k, s)\<in>set ps. s = sz k"
  shows "ident_ok sz (ks @ map fst ps) (identify (length ks) ps st)"
  using assms
proof (induction ps arbitrary: ks st)
  case (Cons p ps)
  obtain k s where p: "p = (k, s)" by (cases p)
  have "ident_ok sz (ks @ [k]) (identify_one (length ks) k s st)"
    using identify_one_ok [OF Cons.prems(1), of k] Cons.prems(2) p by simp
  from Cons.IH [OF this] show ?case using Cons.prems(2) p by simp
qed simp

section \<open>Pass 2 stays under the budget\<close>

text \<open>
  The invariant at position \<open>p\<close>: what is resident has occurrences left and is retained for
  exactly those, and the resident bytes are the retained ones.
\<close>

definition plan_inv :: "('k \<Rightarrow> nat) \<Rightarrow> 'k list \<Rightarrow> 'k ident \<Rightarrow> nat \<Rightarrow> nat \<Rightarrow> bool list \<Rightarrow> bool list \<Rightarrow> nat \<Rightarrow> 'k retained \<Rightarrow> bool" where
  "plan_inv sz ks st budget p resident seen rb R \<longleftrightarrow>
     length resident = length (occurrences st) \<and> length seen = length (occurrences st) \<and>
     (\<forall>k i. id_of st k = Some i \<longrightarrow>
        (seen ! i \<longleftrightarrow> k \<in> set (take p ks)) \<and> (resident ! i \<longrightarrow> seen ! i) \<and>
        R i = (if resident ! i then Some (k, count_list (drop p ks) k) else None) \<and>
        (resident ! i \<longrightarrow> 0 < count_list (drop p ks) k)) \<and>
     dom R \<subseteq> ran (id_of st) \<and> rb = held_bytes sz R \<and> rb \<le> budget"

lemma dom_finite: "ident_ok sz ks st \<Longrightarrow> dom R \<subseteq> ran (id_of st) \<Longrightarrow> finite (dom R)"
  using finite_subset [OF _ finite_ran [of "id_of st"]] by (simp add: ident_ok_def)

lemma held_put:
  assumes "finite (dom R)" and "R u = None"
  shows "held_bytes sz (R(u \<mapsto> (k, r))) = held_bytes sz R + sz k"
proof -
  have "(\<Sum>v\<in>dom R. sz (fst (the ((R(u \<mapsto> (k, r))) v)))) = (\<Sum>v\<in>dom R. sz (fst (the (R v))))"
    using assms(2) by (intro sum.cong) auto
  then show ?thesis using assms by (simp add: held_bytes_def domIff)
qed

lemma held_del:
  assumes "finite (dom R)" and "R u = Some (k, r)"
  shows "held_bytes sz (R(u := None)) = held_bytes sz R - sz k"
proof -
  have "held_bytes sz R = sz k + (\<Sum>v\<in>dom R - {u}. sz (fst (the (R v))))"
    using assms by (simp add: held_bytes_def sum.remove [of "dom R" u] domI)
  moreover have "held_bytes sz (R(u := None)) = (\<Sum>v\<in>dom R - {u}. sz (fst (the (R v))))"
    unfolding held_bytes_def by (rule sum.cong) auto
  ultimately show ?thesis by simp
qed

lemma held_change:
  "R u = Some (k, r) \<Longrightarrow> held_bytes sz (R(u \<mapsto> (k, r'))) = held_bytes sz R"
  unfolding held_bytes_def by (rule sum.cong) auto

lemma plan_inv_next:
  assumes ok: "ident_ok sz ks st" and inv: "plan_inv sz ks st budget p resident seen rb R"
    and p: "p < length ks" and u: "id_of st (ks ! p) = Some u"
    and b: "b \<Longrightarrow> 0 < count_list (drop (Suc p) ks) (ks ! p)"
    and R': "R' = R(u := (if b then Some (ks ! p, count_list (drop (Suc p) ks) (ks ! p)) else None))"
    and rb: "rb' = held_bytes sz R'" "rb' \<le> budget"
  shows "plan_inv sz ks st budget (Suc p) (resident[u := b]) (seen[u := True]) rb' R'"
proof -
  have ul: "u < length (occurrences st)" using ok u by (simp add: ident_ok_def entry_ok_def)
  have lens: "length resident = length (occurrences st)" "length seen = length (occurrences st)" using inv by (simp_all add: plan_inv_def)
  have d: "drop p ks = ks ! p # drop (Suc p) ks" "take (Suc p) ks = take p ks @ [ks ! p]"
    using p by (simp_all add: Cons_nth_drop_Suc take_Suc_conv_app_nth)
  have "(seen[u := True] ! i \<longleftrightarrow> k \<in> set (take (Suc p) ks)) \<and> (resident[u := b] ! i \<longrightarrow> seen[u := True] ! i) \<and>
      R' i = (if resident[u := b] ! i then Some (k, count_list (drop (Suc p) ks) k) else None) \<and>
      (resident[u := b] ! i \<longrightarrow> 0 < count_list (drop (Suc p) ks) k)" if k: "id_of st k = Some i" for k i
  proof (cases "i = u")
    case True
    then have "k = ks ! p" using ok k u by (auto simp: ident_ok_def)
    then show ?thesis using True ul lens b by (simp add: R' d(2))
  next
    case False
    then have "k \<noteq> ks ! p" using k u by auto
    moreover have "seen ! i \<longleftrightarrow> k \<in> set (take p ks)" "resident ! i \<longrightarrow> seen ! i"
      "R i = (if resident ! i then Some (k, count_list (drop p ks) k) else None)" "resident ! i \<longrightarrow> 0 < count_list (drop p ks) k"
      using inv k unfolding plan_inv_def by blast+
    ultimately show ?thesis using False unfolding d R' by auto
  qed
  then have "\<forall>k i. id_of st k = Some i \<longrightarrow>
      (seen[u := True] ! i \<longleftrightarrow> k \<in> set (take (Suc p) ks)) \<and> (resident[u := b] ! i \<longrightarrow> seen[u := True] ! i) \<and>
      R' i = (if resident[u := b] ! i then Some (k, count_list (drop (Suc p) ks) k) else None) \<and>
      (resident[u := b] ! i \<longrightarrow> 0 < count_list (drop (Suc p) ks) k)" by blast
  moreover have "dom R' \<subseteq> ran (id_of st)" using inv u by (auto simp: plan_inv_def R' ran_def split: if_splits)
  ultimately show ?thesis using lens rb unfolding plan_inv_def by (simp only: length_list_update simp_thms)
qed

lemma last_occurrence:
  assumes "ident_ok sz ks st" and "p < length ks" and "id_of st (ks ! p) = Some u"
  shows "p = last_pos st ! u \<longleftrightarrow> count_list (drop (Suc p) ks) (ks ! p) = 0"
proof -
  have e: "entry_ok sz ks st (ks ! p) u" using assms by (simp add: ident_ok_def)
  then have l: "last_pos st ! u < length ks" "ks ! (last_pos st ! u) = ks ! p" "p \<le> last_pos st ! u"
    and m: "\<forall>q<length ks. ks ! q = ks ! p \<longrightarrow> q \<le> last_pos st ! u"
    using assms(2) by (auto simp: entry_ok_def)
  show ?thesis
  proof
    assume "p = last_pos st ! u"
    then have "ks ! p \<noteq> drop (Suc p) ks ! j" if "j < length (drop (Suc p) ks)" for j
      using m [rule_format, of "Suc p + j"] that by fastforce
    then have "ks ! p \<notin> set (drop (Suc p) ks)" by (metis in_set_conv_nth)
    then show "count_list (drop (Suc p) ks) (ks ! p) = 0" by (simp add: count_list_0_iff)
  next
    assume "count_list (drop (Suc p) ks) (ks ! p) = 0"
    then have no: "ks ! p \<notin> set (drop (Suc p) ks)" by (simp add: count_list_0_iff)
    show "p = last_pos st ! u"
    proof (rule ccontr)
      assume "p \<noteq> last_pos st ! u"
      then have "ks ! (last_pos st ! u) \<in> set (drop (Suc p) ks)"
        using l by (auto simp: in_set_conv_nth intro!: exI [of _ "last_pos st ! u - Suc p"])
      then show False using no l(2) by simp
    qed
  qed
qed

lemma execute_plan:
  assumes ok: "ident_ok sz ks st" and inv: "plan_inv sz ks st budget p resident seen rb R" and p: "p \<le> length ks"
  shows "\<exists>tr. execute_all (retain_plan st budget p (drop p (unique_at st)) resident seen rb) (drop p ks) R = Some tr \<and>
     map fst tr = drop p ks \<and> (\<forall>(k, R')\<in>set tr. held_bytes sz R' \<le> budget) \<and> (if tr = [] then R else snd (last tr)) = Map.empty"
  using inv p
proof (induction "length ks - p" arbitrary: p resident seen rb R)
  case 0
  then have p: "p = length ks" by simp
  have ua: "length (unique_at st) = length ks" using ok by (simp add: ident_ok_def)
  have "R i = None" for i
  proof (cases "i \<in> ran (id_of st)")
    case True
    then obtain k where "id_of st k = Some i" by (auto simp: ran_def)
    then show ?thesis using 0(2) p by (fastforce simp: plan_inv_def)
  next
    case False
    then show ?thesis using 0(2) by (auto simp: plan_inv_def)
  qed
  then show ?case using p ua by auto
next
  case (Suc n)
  then have p: "p < length ks" by simp
  have "ks ! p \<in> dom (id_of st)" using ok p by (simp add: ident_ok_def)
  then obtain u where u: "id_of st (ks ! p) = Some u" by blast
  have ua: "drop p (unique_at st) = u # drop (Suc p) (unique_at st)"
    using ok p u Cons_nth_drop_Suc [of p "unique_at st"] by (simp add: ident_ok_def)
  have d: "drop p ks = ks ! p # drop (Suc p) ks" using p by (simp add: Cons_nth_drop_Suc)
  let ?k = "ks ! p" and ?c = "count_list (drop (Suc p) ks) (ks ! p)"
  have lens: "length resident = length (occurrences st)" "length seen = length (occurrences st)"
    and at: "seen ! u \<longleftrightarrow> ?k \<in> set (take p ks)" "resident ! u \<Longrightarrow> seen ! u" "R u = (if resident ! u then Some (?k, Suc ?c) else None)"
    and rb: "dom R \<subseteq> ran (id_of st)" "rb = held_bytes sz R" "rb \<le> budget"
    using Suc.prems(1) u by (auto simp: plan_inv_def d)
  have fin: "finite (dom R)" by (rule dom_finite [OF ok rb(1)])
  have e: "occurrences st ! u = count_list ks ?k" "size_at st ! u = sz ?k" using ok u by (auto simp: ident_ok_def entry_ok_def)
  have cnt: "count_list ks ?k = count_list (take p ks) ?k + Suc ?c"
    using arg_cong [OF append_take_drop_id [of p ks], of "\<lambda>xs. count_list xs ?k"] by (simp only: count_list_append d) simp
  have resume: "\<exists>tr. execute_all (s # retain_plan st budget (Suc p) (drop (Suc p) (unique_at st)) res' seen' rb') (drop p ks) R = Some tr \<and>
     map fst tr = drop p ks \<and> (\<forall>(k, R')\<in>set tr. held_bytes sz R' \<le> budget) \<and> (if tr = [] then R else snd (last tr)) = Map.empty"
    if s: "execute s ?k R = Some (?k, R')" and i: "plan_inv sz ks st budget (Suc p) res' seen' rb' R'" for s res' seen' rb' R'
  proof -
    obtain tr where tr: "execute_all (retain_plan st budget (Suc p) (drop (Suc p) (unique_at st)) res' seen' rb') (drop (Suc p) ks) R' = Some tr"
      "map fst tr = drop (Suc p) ks" "\<forall>(k, R')\<in>set tr. held_bytes sz R' \<le> budget" "(if tr = [] then R' else snd (last tr)) = Map.empty"
    proof -
      have "n = length ks - Suc p" "Suc p \<le> length ks" using Suc.hyps(2) p by simp_all
      from Suc.hyps(1) [OF this(1) i this(2)] show ?thesis using that by blast
    qed
    have "held_bytes sz R' \<le> budget" using i by (simp add: plan_inv_def)
    then show ?thesis using s tr d by (intro exI [of _ "(?k, R') # tr"]) (auto split: if_splits)
  qed
  note step = plan_inv_next [OF ok Suc.prems(1) p u]
  show ?case
  proof (cases "seen ! u")
    case False
    then have Ru: "R u = None" "\<not> resident ! u" using at by auto
    have later: "occurrences st ! u - 1 = ?c" using e(1) cnt False at(1) by (simp add: count_list_0_iff)
    show ?thesis
    proof (cases "?c > 0 \<and> rb + sz ?k \<le> budget")
      case True
      have h: "held_bytes sz (R(u \<mapsto> (?k, ?c))) = rb + sz ?k" using held_put [OF fin Ru(1)] rb(2) by simp
      have "plan_inv sz ks st budget (Suc p) (resident[u := True]) (seen[u := True]) (rb + sz ?k) (R(u \<mapsto> (?k, ?c)))"
        by (rule step) (use True h in simp_all)
      from resume [OF _ this, of "Fetch u ?c"] show ?thesis using False True later e(2) by (simp add: ua)
    next
      case no: False
      have "resident[u := False] = resident" using Ru(2) by (metis list_update_id)
      moreover have "R(u := None) = R" using Ru(1) by auto
      ultimately have "plan_inv sz ks st budget (Suc p) resident (seen[u := True]) rb R"
        using step [of False R rb] rb by simp
      from resume [OF _ this, of "Fetch u 0"] show ?thesis using False later e(2) by (simp add: ua Let_def no)
    qed
  next
    case seen: True
    then have s: "seen[u := True] = seen" by (metis list_update_id)
    show ?thesis
    proof (cases "resident ! u")
      case True
      then have Ru: "R u = Some (?k, Suc ?c)" using at(3) by simp
      show ?thesis
      proof (cases "p = last_pos st ! u")
        case last: True
        then have c: "?c = 0" using last_occurrence [OF ok p u] by simp
        have h: "held_bytes sz (R(u := None)) = rb - sz ?k" using held_del [OF fin Ru] rb(2) by simp
        have "plan_inv sz ks st budget (Suc p) (resident[u := False]) seen (rb - sz ?k) (R(u := None))"
          using step [of False "R(u := None)" "rb - sz ?k"] h rb(3) s by simp
        moreover have "retain_plan st budget p (drop p (unique_at st)) resident seen rb =
            Cached u # retain_plan st budget (Suc p) (drop (Suc p) (unique_at st)) (resident[u := False]) seen (rb - sz ?k)"
          using seen True e(2) by (simp add: ua last [symmetric])
        moreover have "execute (Cached u) ?k R = Some (?k, R(u := None))" using Ru c by simp
        ultimately show ?thesis using resume by simp
      next
        case notlast: False
        then have c: "?c > 0" using last_occurrence [OF ok p u] by simp
        have h: "held_bytes sz (R(u \<mapsto> (?k, ?c))) = rb" using held_change [of R u ?k "Suc ?c" sz ?c] Ru rb(2) by simp
        have "resident[u := True] = resident" using True by (metis list_update_id)
        then have "plan_inv sz ks st budget (Suc p) resident seen rb (R(u \<mapsto> (?k, ?c)))"
          using step [of True "R(u \<mapsto> (?k, ?c))" rb] h rb(3) s c by simp
        from resume [OF _ this, of "Cached u"] show ?thesis using seen True notlast Ru c by (simp add: ua)
      qed
    next
      case False
      then have Ru: "R u = None" using at(3) by simp
      have "resident[u := False] = resident" using False by (metis list_update_id)
      moreover have "R(u := None) = R" using Ru by auto
      ultimately have "plan_inv sz ks st budget (Suc p) resident seen rb R"
        using step [of False R rb] rb s by simp
      from resume [OF _ this, of "Fetch u 0"] show ?thesis using seen False by (simp add: ua)
    qed
  qed
qed

lemma plan_run:
  assumes "sizes = map sz keys"
  shows "\<exists>tr. execute_all (plan keys sizes budget) keys Map.empty = Some tr \<and> map fst tr = keys \<and>
     (\<forall>(k, R)\<in>set tr. held_bytes sz R \<le> budget) \<and> (tr = [] \<or> snd (last tr) = Map.empty)"
proof -
  let ?st = "identify 0 (zip keys sizes) ident_empty"
  have ok: "ident_ok sz keys ?st"
  proof -
    have "\<forall>(k, s)\<in>set (zip keys sizes). s = sz k" by (auto simp: assms set_zip)
    from identify_ok [OF ident_ok_empty this] show ?thesis by (simp add: assms)
  qed
  have l: "i < length (occurrences ?st)" if "id_of ?st k = Some i" for k i using ok that by (simp add: ident_ok_def entry_ok_def)
  have inv: "plan_inv sz keys ?st budget 0 (replicate (length (occurrences ?st)) False) (replicate (length (occurrences ?st)) False) 0 Map.empty"
    using l by (auto simp: plan_inv_def held_bytes_def)
  from execute_plan [OF ok inv] show ?thesis by (auto simp: plan_def Let_def split: if_splits)
qed



end
