(* ===== verification/Framing.thy ===== *)
theory Framing
  imports Prelude
begin

text \<open>
  The layout of an archive as contiguous pieces: literal bytes in one shared buffer and
  pieces whose bytes live elsewhere. The seek table of a store path and the layout of a
  manifest are built the same way, a literal piece being open while bytes are appended to
  it; the locale \<open>framing\<close> states the invariant of such a builder once. \<open>off\<close> and \<open>len\<close> read
  the place of a piece, \<open>data\<close> its bytes given the literal buffer.
\<close>

fun contig :: "('g \<Rightarrow> nat) \<Rightarrow> ('g \<Rightarrow> nat) \<Rightarrow> nat \<Rightarrow> 'g list \<Rightarrow> nat \<Rightarrow> bool" where
  "contig off len n [] m \<longleftrightarrow> n = m"
| "contig off len n (s # ss) m \<longleftrightarrow> off s = n \<and> contig off len (n + len s) ss m"

lemma contig_snoc: "contig off len n (ss @ [s]) m \<longleftrightarrow> contig off len n ss (off s) \<and> m = off s + len s"
  by (induction ss arbitrary: n) auto

lemma contig_append: "contig off len n (ss @ ts) m \<longleftrightarrow> (\<exists>k. contig off len n ss k \<and> contig off len k ts m)"
  by (induction ss arbitrary: n) auto

lemma contig_end: "contig off len n ss m \<Longrightarrow> m = n + sum_list (map len ss)"
  by (induction ss arbitrary: n) (auto, metis add.assoc)

text \<open>The format: every string with its length and padded to eight bytes.\<close>

definition pad_len :: "nat \<Rightarrow> nat" where
  "pad_len n = (8 - n mod 8) mod 8"

definition frame :: "bytes \<Rightarrow> bytes" where
  "frame s = le_bytes64 (length s) @ s @ replicate (pad_len (length s)) 0"

abbreviation str :: "string \<Rightarrow> bytes" where
  "str s \<equiv> frame (bytes_of s)"

locale framing =
  fixes off :: "'g \<Rightarrow> nat" and len :: "'g \<Rightarrow> nat" and data :: "bytes \<Rightarrow> 'g \<Rightarrow> bytes"
  assumes data_append: "0 < len s \<Longrightarrow> length (data lits s) = len s \<Longrightarrow> data (lits @ x) s = data lits s"
begin

definition pieces_ok :: "bytes \<Rightarrow> 'g list \<Rightarrow> bytes \<Rightarrow> bool" where
  "pieces_ok lits segs E \<longleftrightarrow> contig off len 0 segs (length E) \<and> (\<forall>s\<in>set segs. 0 < len s \<and> length (data lits s) = len s) \<and>
     concat (map (data lits) segs) = E"

text \<open>The builder has written \<open>E\<close>, the part from \<open>m\<close> on in the open literal.\<close>

definition written :: "bytes \<Rightarrow> 'g list \<Rightarrow> nat \<Rightarrow> (nat \<times> nat) option \<Rightarrow> bytes \<Rightarrow> bool" where
  "written lits segs n opn E \<longleftrightarrow> n = length E \<and>
     (case opn of
        None \<Rightarrow> pieces_ok lits segs E
      | Some (m, lo) \<Rightarrow> m < length E \<and> lo \<le> length lits \<and> drop lo lits = drop m E \<and> pieces_ok lits segs (take m E))"

lemma pieces_ok_append:
  assumes "pieces_ok lits segs E"
  shows "pieces_ok (lits @ x) segs E"
proof -
  have "\<forall>s\<in>set segs. data (lits @ x) s = data lits s" using assms data_append by (simp add: pieces_ok_def)
  then show ?thesis using assms by (simp add: pieces_ok_def cong: map_cong)
qed

lemma pieces_ok_snoc:
  assumes "pieces_ok lits segs E" and "off s = length E" and "0 < len s" and "data lits s = x" and "length x = len s"
  shows "pieces_ok lits (segs @ [s]) (E @ x)"
  using assms by (auto simp: pieces_ok_def contig_snoc)

lemma written_empty: "written [] [] 0 None []"
  by (simp add: written_def pieces_ok_def)

lemma written_open:
  "written lits segs n None E \<Longrightarrow> bs \<noteq> [] \<Longrightarrow> written (lits @ bs) segs (n + length bs) (Some (n, length lits)) (E @ bs)"
  by (simp add: written_def pieces_ok_append)

lemma written_more:
  "written lits segs n (Some p) E \<Longrightarrow> written (lits @ bs) segs (n + length bs) (Some p) (E @ bs)"
  by (cases p) (simp add: written_def pieces_ok_append)

lemma written_close:
  assumes "written lits segs n (Some (m, lo)) E" and "off s = m" and "len s = n - m" and "data lits s = take (n - m) (drop lo lits)"
  shows "written lits (segs @ [s]) n None E"
proof -
  have b: "m < length E" "drop lo lits = drop m E" "pieces_ok lits segs (take m E)" "n = length E"
    using assms(1) by (simp_all add: written_def)
  have "pieces_ok lits (segs @ [s]) (take m E @ drop m E)"
    by (rule pieces_ok_snoc [OF b(3)]) (use assms b in simp_all)
  then show ?thesis using b(4) by (simp add: written_def)
qed

lemma written_piece:
  assumes "written lits segs n None E" and "off s = n" and "data lits s = x" and "length x = len s" and "0 < len s"
  shows "written lits (segs @ [s]) (n + len s) None (E @ x)"
  using assms pieces_ok_snoc by (simp add: written_def)

end

end
