(* ===== verification/Nar.thy ===== *)
theory Nar
  imports Framing
begin

text \<open>
  The canonical archive of a store path as a seek table (\<open>src/nar.rs\<close>): literal framing bytes
  in one buffer and file contents by reference. A file system below the root is a tree
  \<open>fs_node\<close> with the entries of a directory in the order the system lists them; a path is the
  list of names from the root. The tree does not change while it is walked and read; I/O
  errors other than an unsupported file type are left out. Offsets are natural numbers
  (an archive is shorter than \<open>2\<^sup>6\<^sup>4\<close> bytes).
\<close>

section \<open>The file system and the format\<close>

datatype fs_node = Symlink string | Regular bool bytes | Directory "(string \<times> fs_node) list" | Special

type_synonym path = "string list"

fun fs_at :: "fs_node \<Rightarrow> path \<Rightarrow> fs_node option" where
  "fs_at n [] = Some n"
| "fs_at (Directory es) (name # p) = Option.bind (map_of es name) (\<lambda>c. fs_at c p)"
| "fs_at _ (_ # _) = None"

definition file_bytes :: "fs_node \<Rightarrow> path \<Rightarrow> nat \<Rightarrow> nat \<Rightarrow> bytes" where
  "file_bytes root p off len = (case fs_at root p of Some (Regular _ c) \<Rightarrow> take len (drop off c) | _ \<Rightarrow> [])"

definition nar_entry :: "string \<times> bytes \<Rightarrow> bytes" where
  "nar_entry e = str ''entry'' @ str ''('' @ str ''name'' @ str (fst e) @ str ''node'' @ snd e @ str '')''"

fun nar_node :: "fs_node \<Rightarrow> bytes" where
  "nar_node (Symlink target) = str ''('' @ str ''type'' @ str ''symlink'' @ str ''target'' @ str target @ str '')''"
| "nar_node (Regular executable content) = str ''('' @ str ''type'' @ str ''regular'' @
     (if executable then str ''executable'' @ str '''' else []) @ str ''contents'' @ frame content @ str '')''"
| "nar_node (Directory es) = str ''('' @ str ''type'' @ str ''directory'' @
     concat (map nar_entry (sort_key fst (map (\<lambda>(name, c). (name, nar_node c)) es))) @ str '')''"
| "nar_node Special = []"

definition nar :: "fs_node \<Rightarrow> bytes" where
  "nar root = str ''nix-archive-1'' @ nar_node root"

fun supported :: "fs_node \<Rightarrow> bool" where
  "supported (Directory es) \<longleftrightarrow> list_all (\<lambda>(_, c). supported c) es"
| "supported Special \<longleftrightarrow> False"
| "supported _ \<longleftrightarrow> True"

text \<open>The names of a directory are distinct.\<close>

fun fs_ok :: "fs_node \<Rightarrow> bool" where
  "fs_ok (Directory es) \<longleftrightarrow> distinct (map fst es) \<and> list_all (\<lambda>(_, c). fs_ok c) es"
| "fs_ok _ \<longleftrightarrow> True"

section \<open>Building the table\<close>

datatype src = LitAt nat | FileAt path nat

record seg =
  sg_off :: nat
  sg_len :: nat
  sg_src :: src

record builder =
  bd_lits :: bytes
  bd_segs :: "seg list"
  bd_off :: nat
  bd_open :: "(nat \<times> nat) option"

record seek_table =
  st_size :: nat
  st_lits :: bytes
  st_segs :: "seg list"

definition raw_lit :: "bytes \<Rightarrow> builder \<Rightarrow> builder" where
  "raw_lit bs b =
     (if bs = [] then b
      else let b = (if bd_open b = None then b\<lparr>bd_open := Some (bd_off b, length (bd_lits b))\<rparr> else b)
           in b\<lparr>bd_lits := bd_lits b @ bs, bd_off := bd_off b + length bs\<rparr>)"

definition close_lit :: "builder \<Rightarrow> builder" where
  "close_lit b =
     (case bd_open b of
        None \<Rightarrow> b
      | Some (nar_off, lit_off) \<Rightarrow>
          b\<lparr>bd_open := None, bd_segs := bd_segs b @ [\<lparr>sg_off = nar_off, sg_len = bd_off b - nar_off, sg_src = LitAt lit_off\<rparr>]\<rparr>)"

definition tok :: "bytes \<Rightarrow> builder \<Rightarrow> builder" where
  "tok s b = raw_lit (replicate (pad_len (length s)) 0) (raw_lit s (raw_lit (le_bytes64 (length s)) b))"

abbreviation token :: "string \<Rightarrow> builder \<Rightarrow> builder" where
  "token s \<equiv> tok (bytes_of s)"

definition file_seg :: "path \<Rightarrow> nat \<Rightarrow> builder \<Rightarrow> builder" where
  "file_seg p len b =
     (let b = close_lit b
      in b\<lparr>bd_segs := bd_segs b @ [\<lparr>sg_off = bd_off b, sg_len = len, sg_src = FileAt p 0\<rparr>], bd_off := bd_off b + len\<rparr>)"

datatype nar_err = UnsupportedType path

text \<open>Between the directory's tokens, each entry with the walk of its node, sorted by name.\<close>

definition walk_entry :: "string \<times> (builder \<Rightarrow> nar_err + builder) \<Rightarrow> builder \<Rightarrow> nar_err + builder" where
  "walk_entry e b =
     bindr (snd e (token ''node'' (token (fst e) (token ''name'' (token ''('' (token ''entry'' b))))))
       (\<lambda>b. Inr (token '')'' b))"

fun node :: "path \<Rightarrow> fs_node \<Rightarrow> builder \<Rightarrow> nar_err + builder" where
  "node p (Symlink target) b =
     Inr (token '')'' (token target (token ''target'' (token ''symlink'' (token ''type'' (token ''('' b))))))"
| "node p (Regular executable content) b =
     (let b = token ''regular'' (token ''type'' (token ''('' b));
          b = (if executable then token '''' (token ''executable'' b) else b);
          len = length content;
          b = raw_lit (le_bytes64 len) (token ''contents'' b);
          b = (if len > 0 then file_seg p len b else b)
      in Inr (token '')'' (raw_lit (replicate (pad_len len) 0) b)))"
| "node p (Directory es) b =
     bindr (for_each walk_entry (sort_key fst (map (\<lambda>(name, c). (name, node (p @ [name]) c)) es))
              (token ''directory'' (token ''type'' (token ''('' b))))
       (\<lambda>b. Inr (token '')'' b))"
| "node p Special b = Inl (UnsupportedType p)"

definition build :: "fs_node \<Rightarrow> nar_err + seek_table" where
  "build root =
     bindr (node [] root (token ''nix-archive-1'' \<lparr>bd_lits = [], bd_segs = [], bd_off = 0, bd_open = None\<rparr>)) (\<lambda>b.
       let b = close_lit b in Inr \<lparr>st_size = bd_off b, st_lits = bd_lits b, st_segs = bd_segs b\<rparr>)"

section \<open>Reading ranges\<close>

datatype slice = SliceLit bytes | SliceFile path nat nat

text \<open>\<open>partition_point\<close>: the number of leading segments that end at or before \<open>start\<close>.\<close>

definition first_seg :: "seek_table \<Rightarrow> nat \<Rightarrow> nat" where
  "first_seg t start = length (takeWhile (\<lambda>s. sg_off s + sg_len s \<le> start) (st_segs t))"

definition clamp_seg :: "bytes \<Rightarrow> nat \<Rightarrow> nat \<Rightarrow> seg \<Rightarrow> slice option" where
  "clamp_seg lits start fin sg =
     (if sg_off sg \<ge> fin then None
      else
        let s = max start (sg_off sg); e = min fin (sg_off sg + sg_len sg); skip = s - sg_off sg; len = e - s
        in Some (case sg_src sg of
             LitAt lo \<Rightarrow> SliceLit (take len (drop (lo + skip) lits))
           | FileAt p fo \<Rightarrow> SliceFile p (fo + skip) len))"

definition seg_slice :: "seek_table \<Rightarrow> nat \<Rightarrow> nat \<Rightarrow> nat \<Rightarrow> slice option" where
  "seg_slice t i start fin = (if i < length (st_segs t) then clamp_seg (st_lits t) start fin (st_segs t ! i) else None)"

function slices_from :: "seek_table \<Rightarrow> nat \<Rightarrow> nat \<Rightarrow> nat \<Rightarrow> slice list" where
  "slices_from t i start fin =
     (case seg_slice t i start fin of None \<Rightarrow> [] | Some s \<Rightarrow> s # slices_from t (i + 1) start fin)"
  by pat_completeness auto
termination
  by (relation "measure (\<lambda>(t, i, _). length (st_segs t) - i)") (auto simp: seg_slice_def split: if_splits)

declare slices_from.simps [simp del]

definition slices :: "seek_table \<Rightarrow> nat \<Rightarrow> nat \<Rightarrow> slice list" where
  "slices t start fin = (if start = fin then [] else slices_from t (first_seg t start) start fin)"

text \<open>What is sent for a slice.\<close>

fun slice_bytes :: "fs_node \<Rightarrow> slice \<Rightarrow> bytes" where
  "slice_bytes root (SliceLit bs) = bs"
| "slice_bytes root (SliceFile p off len) = file_bytes root p off len"

section \<open>The table describes the archive\<close>

definition seg_bytes :: "fs_node \<Rightarrow> bytes \<Rightarrow> seg \<Rightarrow> bytes" where
  "seg_bytes root lits s = (case sg_src s of LitAt lo \<Rightarrow> take (sg_len s) (drop lo lits) | FileAt p fo \<Rightarrow> file_bytes root p fo (sg_len s))"

interpretation tab: framing sg_off sg_len "seg_bytes root" for root
  by unfold_locales (auto simp: seg_bytes_def split: src.splits)

abbreviation builder_ok :: "fs_node \<Rightarrow> builder \<Rightarrow> bytes \<Rightarrow> bool" where
  "builder_ok root b E \<equiv> tab.written root (bd_lits b) (bd_segs b) (bd_off b) (bd_open b) E"

lemma raw_lit_ok: "builder_ok root b E \<Longrightarrow> builder_ok root (raw_lit bs b) (E @ bs)"
  by (cases "bd_open b") (auto simp: raw_lit_def Let_def tab.written_open tab.written_more)

lemma tok_ok: "builder_ok root b E \<Longrightarrow> builder_ok root (tok s b) (E @ frame s)"
  unfolding tok_def frame_def append_assoc [symmetric] by (intro raw_lit_ok)

lemma close_lit_ok:
  assumes "builder_ok root b E"
  shows "builder_ok root (close_lit b) E" and "bd_open (close_lit b) = None"
  using assms by (auto simp: close_lit_def seg_bytes_def intro!: tab.written_close split: option.split prod.split)

lemma file_seg_ok:
  assumes "builder_ok root b E" and "fs_at root p = Some (Regular x c)" and "c \<noteq> []"
  shows "builder_ok root (file_seg p (length c) b) (E @ c)"
proof -
  let ?s = "\<lparr>sg_off = bd_off (close_lit b), sg_len = length c, sg_src = FileAt p 0\<rparr>"
  note b = close_lit_ok [OF assms(1)]
  have "tab.written root (bd_lits (close_lit b)) (bd_segs (close_lit b) @ [?s]) (bd_off (close_lit b) + sg_len ?s) None (E @ c)"
    by (rule tab.written_piece) (use b assms in \<open>simp_all add: seg_bytes_def file_bytes_def\<close>)
  then show ?thesis using b(2) by (simp add: file_seg_def Let_def)
qed

section \<open>The walk\<close>

lemma insort_key_pairs:
  "insort_key fst (name, f name c) (map (\<lambda>(name, c). (name, f name c)) es) =
   map (\<lambda>(name, c). (name, f name c)) (insort_key fst (name, c) es)" for name :: "'a :: linorder"
  by (induction es) auto

lemma sort_key_pairs:
  "sort_key fst (map (\<lambda>(name, c). (name, f name c)) es) = map (\<lambda>(name, c). (name, f name c)) (sort_key fst es)"
  for es :: "('a :: linorder \<times> 'b) list"
  by (induction es) (auto simp: insort_key_pairs)

lemma fs_at_append: "fs_at root p = Some n \<Longrightarrow> fs_at root (p @ q) = fs_at n q"
proof (induction root p rule: fs_at.induct)
  case (2 es name p)
  then show ?case by (cases "map_of es name") auto
qed auto

lemma entries_ok:
  assumes "\<And>name c b E. (name, c) \<in> set es \<Longrightarrow> builder_ok root b E \<Longrightarrow>
      \<exists>b'. node (p @ [name]) c b = Inr b' \<and> builder_ok root b' (E @ nar_node c)"
    and "builder_ok root b E"
  shows "\<exists>b'. for_each walk_entry (map (\<lambda>(name, c). (name, node (p @ [name]) c)) es) b = Inr b' \<and>
     builder_ok root b' (E @ concat (map (\<lambda>(name, c). nar_entry (name, nar_node c)) es))"
  using assms
proof (induction es arbitrary: b E)
  case (Cons e es)
  obtain name c where e: "e = (name, c)" by (cases e)
  let ?b = "token ''node'' (token name (token ''name'' (token ''('' (token ''entry'' b))))"
  have b: "builder_ok root ?b (((((E @ str ''entry'') @ str ''('') @ str ''name'') @ str name) @ str ''node'')"
    by (intro tok_ok Cons.prems(2))
  have "(name, c) \<in> set (e # es)" by (simp add: e)
  from Cons.prems(1) [OF this b] obtain b1 where b1: "node (p @ [name]) c ?b = Inr b1"
    "builder_ok root b1 ((((((E @ str ''entry'') @ str ''('') @ str ''name'') @ str name) @ str ''node'') @ nar_node c)" by blast
  have b2: "builder_ok root (token '')'' b1) (E @ nar_entry (name, nar_node c))"
    using tok_ok [OF b1(2), of "bytes_of '')''"] by (simp add: nar_entry_def)
  have "\<exists>b'. node (p @ [name]) c b = Inr b' \<and> builder_ok root b' (E @ nar_node c)"
    if "(name, c) \<in> set es" "builder_ok root b E" for name c b E
    by (rule Cons.prems(1)) (use that in simp_all)
  from Cons.IH [OF this b2] obtain b2 where "for_each walk_entry (map (\<lambda>(name, c). (name, node (p @ [name]) c)) es) (token '')'' b1) = Inr b2"
    "builder_ok root b2 ((E @ nar_entry (name, nar_node c)) @ concat (map (\<lambda>(name, c). nar_entry (name, nar_node c)) es))" by blast
  moreover have "walk_entry (name, node (p @ [name]) c) b = Inr (token '')'' b1)" using b1(1) by (simp add: walk_entry_def)
  ultimately show ?case by (simp add: e)
qed simp

lemma node_ok:
  assumes "fs_at root p = Some n" and "supported n" and "fs_ok n" and "builder_ok root b E"
  shows "\<exists>b'. node p n b = Inr b' \<and> builder_ok root b' (E @ nar_node n)"
  using assms
proof (induction n arbitrary: p b E)
  case (Symlink target)
  have "builder_ok root (token '')'' (token target (token ''target'' (token ''symlink'' (token ''type'' (token ''('' b))))))
      ((((((E @ str ''('') @ str ''type'') @ str ''symlink'') @ str ''target'') @ str target) @ str '')'')"
    by (intro tok_ok Symlink.prems)
  then show ?case by simp
next
  case (Regular x c)
  let ?b1 = "token ''regular'' (token ''type'' (token ''('' b))"
  let ?b2 = "if x then token '''' (token ''executable'' ?b1) else ?b1"
  let ?b3 = "raw_lit (le_bytes64 (length c)) (token ''contents'' ?b2)"
  let ?b4 = "if length c > 0 then file_seg p (length c) ?b3 else ?b3"
  let ?E1 = "((E @ str ''('') @ str ''type'') @ str ''regular''"
  let ?E2 = "?E1 @ (if x then str ''executable'' @ str '''' else [])"
  have 1: "builder_ok root ?b1 ?E1" by (intro tok_ok Regular.prems)
  have 2: "builder_ok root ?b2 ?E2"
    using tok_ok [OF tok_ok [OF 1, of "bytes_of ''executable''"], of "bytes_of ''''"] 1 by simp
  have 3: "builder_ok root ?b3 ((?E2 @ str ''contents'') @ le_bytes64 (length c))" by (intro raw_lit_ok tok_ok 2)
  have 4: "builder_ok root ?b4 (((?E2 @ str ''contents'') @ le_bytes64 (length c)) @ c)"
    using file_seg_ok [OF 3 Regular.prems(1)] 3 by (cases "c = []") simp_all
  have "builder_ok root (token '')'' (raw_lit (replicate (pad_len (length c)) 0) ?b4))
     (((((?E2 @ str ''contents'') @ le_bytes64 (length c)) @ c) @ replicate (pad_len (length c)) 0) @ str '')'')"
    by (intro tok_ok raw_lit_ok 4)
  then show ?case by (simp add: Let_def frame_def [of c])
next
  case (Directory es)
  let ?es = "sort_key fst es"
  let ?E = "((E @ str ''('') @ str ''type'') @ str ''directory''"
  have b: "builder_ok root (token ''directory'' (token ''type'' (token ''('' b))) ?E" by (intro tok_ok Directory.prems)
  have "\<exists>b'. node (p @ [name]) c b = Inr b' \<and> builder_ok root b' (E @ nar_node c)"
    if "(name, c) \<in> set ?es" "builder_ok root b E" for name c b E
  proof -
    have m: "(name, c) \<in> set es" using that(1) by simp
    have "fs_at root (p @ [name]) = Some c"
      using Directory.prems(1,3) m by (simp add: fs_at_append)
    moreover have "supported c" "fs_ok c" using Directory.prems(2,3) m by (auto simp: list_all_iff)
    ultimately show ?thesis using Directory.IH [OF m _ _ _ _ that(2)] by simp
  qed
  from entries_ok [OF this b] obtain b' where b': "for_each walk_entry (map (\<lambda>(name, c). (name, node (p @ [name]) c)) ?es)
      (token ''directory'' (token ''type'' (token ''('' b))) = Inr b'"
    "builder_ok root b' (?E @ concat (map (\<lambda>(name, c). nar_entry (name, nar_node c)) ?es))" by blast
  have "builder_ok root (token '')'' b') ((?E @ concat (map (\<lambda>(name, c). nar_entry (name, nar_node c)) ?es)) @ str '')'')"
    by (rule tok_ok [OF b'(2)])
  moreover have "map nar_entry (sort_key fst (map (\<lambda>(name, c). (name, nar_node c)) es)) = map (\<lambda>(name, c). nar_entry (name, nar_node c)) ?es"
    using sort_key_pairs [of "\<lambda>_. nar_node" es] by (simp add: comp_def split_def)
  ultimately show ?case using b'(1) sort_key_pairs [of "\<lambda>name. node (p @ [name])" es] by simp
qed simp

lemma node_unsupported: "\<not> supported n \<Longrightarrow> \<exists>e. node p n b = Inl e"
proof (induction n arbitrary: p b)
  case (Directory es)
  obtain name c where nc: "(name, c) \<in> set es" "\<not> supported c" using Directory.prems by (auto simp: list_all_iff)
  have stop: "\<exists>e. for_each walk_entry xs b = Inl e" if m: "(name, f) \<in> set xs" and f: "\<And>b. \<exists>e. f b = Inl e" for xs f b
    using m
  proof (induction xs arbitrary: b)
    case (Cons x xs)
    have w: "\<exists>e. walk_entry (name, f) b = Inl e" for b
    proof -
      obtain e where "f (token ''node'' (token name (token ''name'' (token ''('' (token ''entry'' b))))) = Inl e" using f by blast
      then show ?thesis by (simp add: walk_entry_def)
    qed
    show ?case
    proof (cases "walk_entry x b")
      case (Inr b')
      then have "x \<noteq> (name, f)" using w [of b] by auto
      then show ?thesis using Cons Inr by auto
    qed simp
  qed simp
  have m: "(name, node (p @ [name]) c) \<in> set (sort_key fst (map (\<lambda>(name, c). (name, node (p @ [name]) c)) es))"
    using nc(1) by force
  have "\<exists>e. node (p @ [name]) c b = Inl e" for b by (rule Directory.IH [OF nc(1) _ nc(2)]) simp
  from stop [OF m this] obtain e where "for_each walk_entry (sort_key fst (map (\<lambda>(name, c). (name, node (p @ [name]) c)) es))
     (token ''directory'' (token ''type'' (token ''('' b))) = Inl e" by blast
  then show ?case by simp
qed auto

section \<open>Serving a range\<close>

lemma build_ok:
  assumes "supported root" and "fs_ok root"
  shows "\<exists>t. build root = Inr t \<and> st_size t = length (nar root) \<and> tab.pieces_ok root (st_lits t) (st_segs t) (nar root)"
proof -
  let ?b0 = "\<lparr>bd_lits = [], bd_segs = [], bd_off = 0, bd_open = None\<rparr>"
  have "builder_ok root ?b0 []" by (simp add: tab.written_empty)
  from tok_ok [OF this] have b: "builder_ok root (token ''nix-archive-1'' ?b0) (str ''nix-archive-1'')" by simp
  obtain b' where b': "node [] root (token ''nix-archive-1'' ?b0) = Inr b'" "builder_ok root b' (nar root)"
    using node_ok [of root "[]" root, OF _ assms b] by (auto simp: nar_def)
  show ?thesis using b'(1) close_lit_ok [OF b'(2)] by (simp add: build_def Let_def tab.written_def)
qed

text \<open>What a clamped segment sends.\<close>

lemma clamp_bytes:
  assumes "0 < sg_len s" and "length (seg_bytes root lits s) = sg_len s" and "start < sg_off s + sg_len s" and "sg_off s < fin"
    and "start \<le> fin"
  shows "\<exists>x. clamp_seg lits start fin s = Some x \<and>
     slice_bytes root x = take (fin - max start (sg_off s)) (drop (start - sg_off s) (seg_bytes root lits s))"
proof -
  let ?skip = "max start (sg_off s) - sg_off s"
  have sk: "?skip = start - sg_off s" by (simp add: max_def)
  have len: "min fin (sg_off s + sg_len s) - max start (sg_off s) = min (fin - max start (sg_off s)) (sg_len s - ?skip)"
    using assms(3,4) by (simp add: min_def max_def) linarith
  show ?thesis
  proof (cases "sg_src s")
    case (LitAt lo)
    have "take (min (fin - max start (sg_off s)) (sg_len s - ?skip)) (drop (lo + ?skip) lits) =
        take (fin - max start (sg_off s)) (drop ?skip (take (sg_len s) (drop lo lits)))"
      by (simp add: drop_take min.commute add.commute)
    then show ?thesis using LitAt assms(4) by (simp add: clamp_seg_def Let_def seg_bytes_def len sk [symmetric] del: take_take drop_drop)
  next
    case (FileAt p fo)
    obtain x c where c: "fs_at root p = Some (Regular x c)"
      using assms(1,2) FileAt by (auto simp: seg_bytes_def file_bytes_def split: option.splits fs_node.splits)
    have "take (min (fin - max start (sg_off s)) (sg_len s - ?skip)) (drop (fo + ?skip) c) =
        take (fin - max start (sg_off s)) (drop ?skip (take (sg_len s) (drop fo c)))"
      by (simp add: drop_take min.commute add.commute)
    then show ?thesis using FileAt c assms(4)
      by (simp add: clamp_seg_def Let_def seg_bytes_def file_bytes_def len sk [symmetric] del: take_take drop_drop)
  qed
qed

text \<open>The slices as a function of the segments left.\<close>

fun emit :: "bytes \<Rightarrow> nat \<Rightarrow> nat \<Rightarrow> seg list \<Rightarrow> slice list" where
  "emit lits start fin [] = []"
| "emit lits start fin (s # ss) = (case clamp_seg lits start fin s of None \<Rightarrow> [] | Some x \<Rightarrow> x # emit lits start fin ss)"

lemma slices_from_emit: "slices_from t i start fin = emit (st_lits t) start fin (drop i (st_segs t))"
proof (induction t i start fin rule: slices_from.induct)
  case (1 t i start fin)
  show ?case
  proof (cases "i < length (st_segs t)")
    case True
    then show ?thesis using 1 Cons_nth_drop_Suc [OF True, symmetric]
      by (subst slices_from.simps) (auto simp: seg_slice_def split: option.split)
  qed (subst slices_from.simps, simp add: seg_slice_def)
qed

lemma emit_bytes:
  assumes "contig sg_off sg_len n ss m" and "\<forall>s\<in>set ss. 0 < sg_len s \<and> length (seg_bytes root lits s) = sg_len s"
    and "start \<le> fin" and "fin \<le> m" and "ss \<noteq> [] \<Longrightarrow> start < n + sg_len (hd ss)"
  shows "concat (map (slice_bytes root) (emit lits start fin ss)) =
     take (fin - max start n) (drop (start - n) (concat (map (seg_bytes root lits) ss)))"
  using assms
proof (induction ss arbitrary: n)
  case (Cons s ss)
  have s: "sg_off s = n" "contig sg_off sg_len (n + sg_len s) ss m" "0 < sg_len s" "length (seg_bytes root lits s) = sg_len s" "start < n + sg_len s"
    using Cons.prems by simp_all
  show ?case
  proof (cases "n < fin")
    case False
    then show ?thesis using s(1) by (simp add: clamp_seg_def)
  next
    case True
    obtain x where x: "clamp_seg lits start fin s = Some x"
      "slice_bytes root x = take (fin - max start n) (drop (start - n) (seg_bytes root lits s))"
      using clamp_bytes [of s root lits start fin] s True Cons.prems(3) by auto
    have "concat (map (slice_bytes root) (emit lits start fin ss)) =
        take (fin - max start (n + sg_len s)) (drop (start - (n + sg_len s)) (concat (map (seg_bytes root lits) ss)))"
      by (rule Cons.IH [OF s(2)]) (use Cons.prems s(5) in \<open>auto simp: neq_Nil_conv\<close>)
    moreover have "start - (n + sg_len s) = 0" "max start (n + sg_len s) = n + sg_len s" using s(5) by simp_all
    moreover have "fin - max start n - (sg_len s - (start - n)) = fin - (n + sg_len s)" using s(5) by (simp add: max_def)
    ultimately show ?thesis using x s(4,5) by (simp add: take_append drop_append)
  qed
qed simp

lemma contig_drop:
  "contig sg_off sg_len n ss m \<Longrightarrow> contig sg_off sg_len (n + length (concat (map (seg_bytes root lits) (take k ss)))) (drop k ss) m"
  if "\<forall>s\<in>set ss. length (seg_bytes root lits s) = sg_len s"
  using that
proof (induction ss arbitrary: n k)
  case (Cons s ss)
  then show ?case by (cases k) (simp_all add: add.assoc [symmetric])
qed simp

lemma contig_take:
  assumes "contig sg_off sg_len n ss m" and "\<forall>s\<in>set ss. length (seg_bytes root lits s) = sg_len s" and "k < length ss"
  shows "sg_off (ss ! k) = n + length (concat (map (seg_bytes root lits) (take k ss)))"
proof -
  have "contig sg_off sg_len (n + length (concat (map (seg_bytes root lits) (take k ss)))) (ss ! k # drop (Suc k) ss) m"
    using contig_drop [OF assms(2,1), of k] Cons_nth_drop_Suc [OF assms(3)] by simp
  then show ?thesis by simp
qed

lemma range_slices:
  assumes "supported root" and "fs_ok root"
  shows "\<exists>t. build root = Inr t \<and> st_size t = length (nar root) \<and>
     (\<forall>start fin. start \<le> fin \<longrightarrow> fin \<le> st_size t \<longrightarrow>
        concat (map (slice_bytes root) (slices t start fin)) = take (fin - start) (drop start (nar root)))"
proof -
  obtain t where t: "build root = Inr t" "st_size t = length (nar root)" "tab.pieces_ok root (st_lits t) (st_segs t) (nar root)"
    using build_ok [OF assms] by blast
  have "concat (map (slice_bytes root) (slices t start fin)) = take (fin - start) (drop start (nar root))"
    if "start \<le> fin" "fin \<le> st_size t" for start fin
  proof (cases "start = fin")
    case False
    let ?ss = "st_segs t" and ?k = "first_seg t start" and ?B = "\<lambda>ss. concat (map (seg_bytes root (st_lits t)) ss)"
    have ok: "contig sg_off sg_len 0 ?ss (length (nar root))" "\<forall>s\<in>set ?ss. 0 < sg_len s \<and> length (seg_bytes root (st_lits t) s) = sg_len s"
      "?B ?ss = nar root" using t(3) by (simp_all add: tab.pieces_ok_def)
    have len: "\<forall>s\<in>set ?ss. length (seg_bytes root (st_lits t) s) = sg_len s" using ok(2) by blast
    have split: "nar root = ?B (take ?k ?ss) @ ?B (drop ?k ?ss)"
      using ok(3) by (metis append_take_drop_id concat_append map_append)
    have before: "length (?B (take ?k ?ss)) \<le> start"
    proof (cases ?k)
      case (Suc j)
      then have j: "j < length ?ss" "j < ?k" using length_takeWhile_le [of _ ?ss] by (simp_all add: first_seg_def Suc_le_eq) (metis Suc_le_lessD)
      have "sg_off (?ss ! j) + sg_len (?ss ! j) \<le> start"
        using nth_mem [of j "takeWhile (\<lambda>s. sg_off s + sg_len s \<le> start) ?ss"] j(2) takeWhile_nth [of j _ ?ss]
        by (metis first_seg_def set_takeWhileD)
      moreover have "sg_off (?ss ! j) = length (?B (take j ?ss))" using contig_take [OF ok(1) len j(1)] by simp
      moreover have "?B (take ?k ?ss) = ?B (take j ?ss) @ seg_bytes root (st_lits t) (?ss ! j)"
        using take_Suc_conv_app_nth [OF j(1)] Suc by simp
      ultimately show ?thesis using len j(1) by simp
    qed simp
    have here: "drop ?k ?ss \<noteq> [] \<Longrightarrow> start < length (?B (take ?k ?ss)) + sg_len (hd (drop ?k ?ss))"
    proof -
      assume "drop ?k ?ss \<noteq> []"
      then have k: "?k < length ?ss" by simp
      then have "\<not> sg_off (?ss ! ?k) + sg_len (?ss ! ?k) \<le> start" unfolding first_seg_def using nth_length_takeWhile by blast
      then show ?thesis using contig_take [OF ok(1) len k] k by (simp add: hd_drop_conv_nth)
    qed
    have c: "contig sg_off sg_len (length (?B (take ?k ?ss))) (drop ?k ?ss) (length (nar root))" using contig_drop [OF len ok(1), of ?k] by simp
    have d: "\<forall>s\<in>set (drop ?k ?ss). 0 < sg_len s \<and> length (seg_bytes root (st_lits t) s) = sg_len s" using ok(2) by (auto dest: in_set_dropD)
    have "concat (map (slice_bytes root) (emit (st_lits t) start fin (drop ?k ?ss))) =
        take (fin - max start (length (?B (take ?k ?ss)))) (drop (start - length (?B (take ?k ?ss))) (?B (drop ?k ?ss)))"
      by (rule emit_bytes [OF c d that(1) _ here]) (use that(2) t(2) in simp_all)
    then show ?thesis using before False by (simp add: slices_def slices_from_emit max_absorb1 split drop_append)
  qed (simp add: slices_def)
  then show ?thesis using t by blast
qed

text \<open>
  C35: The seek table describes the canonical archive: for every store path of supported
  types the build succeeds, its size is that of the archive, and any range served from the
  table (literals from memory, file spans by positioned reads) is exactly that range of the
  archive.
\<close>
theorem served_range_is_the_archive:
  assumes "supported root" and "fs_ok root"
  shows "\<exists>t. build root = Inr t \<and> st_size t = length (nar root) \<and>
     (\<forall>start fin. start \<le> fin \<longrightarrow> fin \<le> st_size t \<longrightarrow>
        concat (map (slice_bytes root) (slices t start fin)) = take (fin - start) (drop start (nar root)))"
  using assms by (rule range_slices)

definition demo_tree :: fs_node where
  "demo_tree = Directory [(''b'', Regular True [1, 2, 3]), (''a'', Symlink ''b'')]"

theorem served_range_is_the_archive_witness:
  "\<exists>t. build demo_tree = Inr t \<and> concat (map (slice_bytes demo_tree) (slices t 100 300)) = take 200 (drop 100 (nar demo_tree))"
proof -
  have ok: "supported demo_tree" "fs_ok demo_tree" by (simp_all add: demo_tree_def)
  have len: "300 \<le> length (nar demo_tree)" by (simp add: demo_tree_def nar_def nar_entry_def frame_def pad_len_def)
  obtain t where "build demo_tree = Inr t" "st_size t = length (nar demo_tree)"
    "concat (map (slice_bytes demo_tree) (slices t 100 300)) = take (300 - 100) (drop 100 (nar demo_tree))"
    using served_range_is_the_archive [OF ok] len by auto
  then show ?thesis by auto
qed

text \<open>
  A store path with an unsupported file type anywhere has no table.
\<close>
theorem unsupported_type_fails:
  assumes "\<not> supported root"
  shows "\<exists>e. build root = Inl e"
proof -
  obtain e where "node [] root (token ''nix-archive-1'' \<lparr>bd_lits = [], bd_segs = [], bd_off = 0, bd_open = None\<rparr>) = Inl e"
    using node_unsupported [OF assms] by blast
  then show ?thesis by (simp add: build_def)
qed

theorem unsupported_type_fails_witness:
  "\<exists>e. build (Directory [(''x'', Symlink ''y''), (''d'', Directory [(''s'', Special)])]) = Inl e"
  by (rule unsupported_type_fails) simp

end
