(* ===== verification/Manifest.thy ===== *)
theory Manifest
  imports Nar Hex Nixbase32
begin

text \<open>
  The segment manifest (\<open>src/manifest.rs\<close>): the tree of a store path with a hash per segment
  of each file, and the byte layout of the archive a consumer derives from it. The hash
  (blake3) is the parameter \<open>B3\<close>. Sums of peer-supplied lengths wrap at \<open>2\<^sup>6\<^sup>4\<close>.
\<close>

section \<open>Manifests\<close>

datatype mnode = MDir "(string \<times> mnode) list" | MSymlink string | MRegular bool nat "string list"

record manifest =
  mf_version :: nat
  mf_nar_hash :: string
  mf_nar_size :: nat
  mf_segment_bytes :: nat
  mf_root :: mnode

definition VERSION :: nat where
  "VERSION = 1"

definition MAX_DEPTH :: nat where
  "MAX_DEPTH = 512"

text \<open>\<open>str::from_utf8\<close>: the well-formed sequences of its documentation.\<close>

definition in_range :: "nat \<Rightarrow> nat \<Rightarrow> char \<Rightarrow> bool" where
  "in_range lo hi c \<longleftrightarrow> lo \<le> of_char c \<and> of_char c \<le> hi"

abbreviation tail_byte :: "char \<Rightarrow> bool" where
  "tail_byte \<equiv> in_range 0x80 0xBF"

definition utf8_pair :: "char \<Rightarrow> char \<Rightarrow> bool" where
  "utf8_pair a b \<longleftrightarrow> in_range 0xC2 0xDF a \<and> tail_byte b"

definition utf8_triple :: "char \<Rightarrow> char \<Rightarrow> char \<Rightarrow> bool" where
  "utf8_triple a b c \<longleftrightarrow> tail_byte c \<and>
     (in_range 0xE0 0xE0 a \<and> in_range 0xA0 0xBF b \<or> in_range 0xE1 0xEC a \<and> tail_byte b \<or>
      in_range 0xED 0xED a \<and> in_range 0x80 0x9F b \<or> in_range 0xEE 0xEF a \<and> tail_byte b)"

definition utf8_quad :: "char \<Rightarrow> char \<Rightarrow> char \<Rightarrow> char \<Rightarrow> bool" where
  "utf8_quad a b c d \<longleftrightarrow> tail_byte c \<and> tail_byte d \<and>
     (in_range 0xF0 0xF0 a \<and> in_range 0x90 0xBF b \<or> in_range 0xF1 0xF3 a \<and> tail_byte b \<or>
      in_range 0xF4 0xF4 a \<and> in_range 0x80 0x8F b)"

fun utf8_ok :: "string \<Rightarrow> bool" where
  "utf8_ok [] \<longleftrightarrow> True"
| "utf8_ok [a] \<longleftrightarrow> in_range 0 0x7F a"
| "utf8_ok [a, b] \<longleftrightarrow> in_range 0 0x7F a \<and> utf8_ok [b] \<or> utf8_pair a b"
| "utf8_ok [a, b, c] \<longleftrightarrow> in_range 0 0x7F a \<and> utf8_ok [b, c] \<or> utf8_pair a b \<and> utf8_ok [c] \<or> utf8_triple a b c"
| "utf8_ok (a # b # c # d # s) \<longleftrightarrow>
     in_range 0 0x7F a \<and> utf8_ok (b # c # d # s) \<or> utf8_pair a b \<and> utf8_ok (c # d # s) \<or>
     utf8_triple a b c \<and> utf8_ok (d # s) \<or> utf8_quad a b c d \<and> utf8_ok s"

section \<open>Building from a store path\<close>

text \<open>\<open>Hangs\<close> is the loop over a file that does not end.\<close>

datatype tree_err = NonUtf8Target path | NonUtf8Name path | UnsupportedFile path | Hangs

text \<open>The hashes of a file's segments; with segments of no bytes the loop does not end.\<close>

partial_function (option) hash_segments :: "(bytes \<Rightarrow> bytes) \<Rightarrow> nat \<Rightarrow> bytes \<Rightarrow> string list option" where
  "hash_segments B3 sb remaining =
     (if remaining = [] then Some []
      else Option.bind (hash_segments B3 sb (drop (min (length remaining) sb) remaining))
        (\<lambda>rest. Some (hex_encode (B3 (take (min (length remaining) sb) remaining)) # rest)))"

definition tree_entry :: "path \<Rightarrow> string \<times> (tree_err + mnode) \<Rightarrow> (string \<times> mnode) list \<Rightarrow> tree_err + (string \<times> mnode) list" where
  "tree_entry p e entries =
     (if \<not> utf8_ok (fst e) then Inl (NonUtf8Name p) else bindr (snd e) (\<lambda>n. Inr (entries @ [(fst e, n)])))"

fun build_tree :: "(bytes \<Rightarrow> bytes) \<Rightarrow> nat \<Rightarrow> path \<Rightarrow> fs_node \<Rightarrow> tree_err + mnode" where
  "build_tree B3 sb p (Symlink target) = (if utf8_ok target then Inr (MSymlink target) else Inl (NonUtf8Target p))"
| "build_tree B3 sb p (Regular executable content) =
     (case hash_segments B3 sb content of None \<Rightarrow> Inl Hangs
      | Some segments \<Rightarrow> Inr (MRegular executable (length content) segments))"
| "build_tree B3 sb p (Directory es) =
     bindr (for_each (tree_entry p) (sort_key fst (map (\<lambda>(name, c). (name, build_tree B3 sb (p @ [name]) c)) es)) [])
       (\<lambda>entries. Inr (MDir entries))"
| "build_tree B3 sb p Special = Inl (UnsupportedFile p)"

section \<open>The byte layout\<close>

datatype span_kind = SpanLit nat | SpanSegment bytes

record span =
  sn_off :: nat
  sn_len :: nat
  sn_kind :: span_kind

record layout =
  ly_nar_size :: nat
  ly_lits :: bytes
  ly_spans :: "span list"

record synth =
  sb_lits :: bytes
  sb_spans :: "span list"
  sb_off :: nat
  sb_open :: "(nat \<times> nat) option"

datatype synth_err = ZeroSegmentBytes | TooDeep | SegmentCount nat | ZeroSegment | BadHashHex | BadHashLen | Unsorted | SizeMismatch nat nat

definition sub64 :: "nat \<Rightarrow> nat \<Rightarrow> nat" where
  "sub64 a b = (a + (2 ^ 64 - b)) mod 2 ^ 64"

definition syn_raw_lit :: "bytes \<Rightarrow> synth \<Rightarrow> synth" where
  "syn_raw_lit bs b =
     (if bs = [] then b
      else let b = (if sb_open b = None then b\<lparr>sb_open := Some (sb_off b, length (sb_lits b))\<rparr> else b)
           in b\<lparr>sb_lits := sb_lits b @ bs, sb_off := add64 (sb_off b) (length bs)\<rparr>)"

definition syn_close_lit :: "synth \<Rightarrow> synth" where
  "syn_close_lit b =
     (case sb_open b of
        None \<Rightarrow> b
      | Some (nar_off, lit_off) \<Rightarrow>
          b\<lparr>sb_open := None,
            sb_spans := sb_spans b @ [\<lparr>sn_off = nar_off, sn_len = sub64 (sb_off b) nar_off, sn_kind = SpanLit lit_off\<rparr>]\<rparr>)"

definition syn_tok :: "bytes \<Rightarrow> synth \<Rightarrow> synth" where
  "syn_tok s b = syn_raw_lit (replicate (pad_len (length s)) 0) (syn_raw_lit s (syn_raw_lit (le_bytes64 (length s)) b))"

abbreviation syn_token :: "string \<Rightarrow> synth \<Rightarrow> synth" where
  "syn_token s \<equiv> syn_tok (bytes_of s)"

definition syn_segment :: "bytes \<Rightarrow> nat \<Rightarrow> synth \<Rightarrow> synth" where
  "syn_segment hash len b =
     (let b = syn_close_lit b
      in b\<lparr>sb_spans := sb_spans b @ [\<lparr>sn_off = sb_off b, sn_len = len, sn_kind = SpanSegment hash\<rparr>],
           sb_off := add64 (sb_off b) len\<rparr>)"

fun syn_segments :: "nat \<Rightarrow> nat \<Rightarrow> string list \<Rightarrow> synth \<Rightarrow> synth_err + synth" where
  "syn_segments sb remaining [] b = Inr b"
| "syn_segments sb remaining (seg # segs) b =
     (let slen = min remaining sb in
      if slen = 0 then Inl ZeroSegment
      else case hex_decode seg of
          None \<Rightarrow> Inl BadHashHex
        | Some hash \<Rightarrow>
            if length hash \<noteq> 32 then Inl BadHashLen
            else syn_segments sb (remaining - slen) segs (syn_segment hash slen b))"

text \<open>The directory loop: the name before, and each entry with the walk of its child.\<close>

fun syn_entries :: "string option \<Rightarrow> (string \<times> (synth \<Rightarrow> synth_err + synth)) list \<Rightarrow> synth \<Rightarrow> synth_err + synth" where
  "syn_entries prev [] b = Inr b"
| "syn_entries prev ((name, child) # es) b =
     (if (case prev of None \<Rightarrow> False | Some p \<Rightarrow> p \<ge> name) then Inl Unsorted
      else bindr (child (syn_token ''node'' (syn_token name (syn_token ''name'' (syn_token ''('' (syn_token ''entry'' b))))))
             (\<lambda>b. syn_entries (Some name) es (syn_token '')'' b)))"

fun syn_node :: "nat \<Rightarrow> nat \<Rightarrow> mnode \<Rightarrow> synth \<Rightarrow> synth_err + synth" where
  "syn_node sb depth (MSymlink target) b =
     (if depth > MAX_DEPTH then Inl TooDeep
      else Inr (syn_token '')'' (syn_token target (syn_token ''target'' (syn_token ''symlink'' (syn_token ''type'' (syn_token ''('' b)))))))"
| "syn_node sb depth (MRegular executable len segments) b =
     (if depth > MAX_DEPTH then Inl TooDeep
      else
        let b = syn_token ''regular'' (syn_token ''type'' (syn_token ''('' b));
            b = (if executable then syn_token '''' (syn_token ''executable'' b) else b);
            b = syn_raw_lit (le_bytes64 len) (syn_token ''contents'' b);
            expect = (len + (max sb 1 - 1)) div max sb 1
        in if length segments \<noteq> expect then Inl (SegmentCount expect)
           else bindr (syn_segments sb len segments b) (\<lambda>b.
             Inr (syn_token '')'' (syn_raw_lit (replicate (pad_len len) 0) b))))"
| "syn_node sb depth (MDir entries) b =
     (if depth > MAX_DEPTH then Inl TooDeep
      else bindr (syn_entries None (map (\<lambda>(name, c). (name, syn_node sb (depth + 1) c)) entries)
                    (syn_token ''directory'' (syn_token ''type'' (syn_token ''('' b))))
             (\<lambda>b. Inr (syn_token '')'' b)))"

definition synth_layout :: "manifest \<Rightarrow> synth_err + layout" where
  "synth_layout m =
     (if mf_segment_bytes m = 0 then Inl ZeroSegmentBytes
      else bindr (syn_node (mf_segment_bytes m) 0 (mf_root m)
                    (syn_token ''nix-archive-1'' \<lparr>sb_lits = [], sb_spans = [], sb_off = 0, sb_open = None\<rparr>)) (\<lambda>b.
        let b = syn_close_lit b in
        if sb_off b \<noteq> mf_nar_size m then Inl (SizeMismatch (sb_off b) (mf_nar_size m))
        else Inr \<lparr>ly_nar_size = sb_off b, ly_lits = sb_lits b, ly_spans = sb_spans b\<rparr>))"

definition build_manifest :: "(bytes \<Rightarrow> bytes) \<Rightarrow> fs_node \<Rightarrow> bytes \<Rightarrow> nat \<Rightarrow> nat \<Rightarrow> (tree_err + synth_err) + manifest" where
  "build_manifest B3 root nar_hash nar_size segment_bytes =
     (case build_tree B3 segment_bytes [] root of
        Inl e \<Rightarrow> Inl (Inl e)
      | Inr tree \<Rightarrow>
          let m = \<lparr>mf_version = VERSION, mf_nar_hash = ''sha256:'' @ encode nar_hash, mf_nar_size = nar_size,
                   mf_segment_bytes = segment_bytes, mf_root = tree\<rparr>
          in (case synth_layout m of Inl e \<Rightarrow> Inl (Inr e) | Inr layout \<Rightarrow> Inr m))"

section \<open>What a layout describes\<close>

text \<open>The bytes of a span, \<open>F h n\<close> being the \<open>n\<close> bytes filled in for the segment hash \<open>h\<close>.\<close>

definition span_bytes :: "(bytes \<Rightarrow> nat \<Rightarrow> bytes) \<Rightarrow> bytes \<Rightarrow> span \<Rightarrow> bytes" where
  "span_bytes F lits s =
     (case sn_kind s of SpanLit lo \<Rightarrow> take (sn_len s) (drop lo lits) | SpanSegment h \<Rightarrow> F h (sn_len s))"

definition filler :: "(bytes \<Rightarrow> nat \<Rightarrow> bytes) \<Rightarrow> bool" where
  "filler F \<longleftrightarrow> (\<forall>h n. length (F h n) = n)"

definition segment_len :: "span \<Rightarrow> nat" where
  "segment_len s = (case sn_kind s of SpanLit _ \<Rightarrow> 0 | SpanSegment _ \<Rightarrow> sn_len s)"

definition layout_bytes :: "bytes \<Rightarrow> span list \<Rightarrow> nat" where
  "layout_bytes lits spans = length lits + sum_list (map segment_len spans)"

text \<open>The store path a manifest describes.\<close>

fun seg_content :: "(bytes \<Rightarrow> nat \<Rightarrow> bytes) \<Rightarrow> nat \<Rightarrow> nat \<Rightarrow> string list \<Rightarrow> bytes" where
  "seg_content F sb remaining [] = []"
| "seg_content F sb remaining (seg # segs) =
     F (the (hex_decode seg)) (min remaining sb) @ seg_content F sb (remaining - min remaining sb) segs"

fun to_fs :: "(bytes \<Rightarrow> nat \<Rightarrow> bytes) \<Rightarrow> nat \<Rightarrow> mnode \<Rightarrow> fs_node" where
  "to_fs F sb (MSymlink target) = Symlink target"
| "to_fs F sb (MRegular executable len segs) = Regular executable (seg_content F sb len segs)"
| "to_fs F sb (MDir es) = Directory (map (\<lambda>(name, n). (name, to_fs F sb n)) es)"

interpretation lay: framing sn_off sn_len "span_bytes F" for F
  by unfold_locales (auto simp: span_bytes_def split: span_kind.splits)

definition synth_ok :: "(bytes \<Rightarrow> nat \<Rightarrow> bytes) \<Rightarrow> synth \<Rightarrow> bytes \<Rightarrow> bool" where
  "synth_ok F b E \<longleftrightarrow> length E = layout_bytes (sb_lits b) (sb_spans b) \<and>
     (length E < 2 ^ 64 \<longrightarrow> lay.written F (sb_lits b) (sb_spans b) (sb_off b) (sb_open b) E)"

lemma syn_raw_lit_ok:
  assumes "synth_ok F b E"
  shows "synth_ok F (syn_raw_lit bs b) (E @ bs)"
proof (cases "bs = []")
  case False
  have "lay.written F (sb_lits (syn_raw_lit bs b)) (sb_spans (syn_raw_lit bs b)) (sb_off (syn_raw_lit bs b)) (sb_open (syn_raw_lit bs b)) (E @ bs)"
    if small: "length (E @ bs) < 2 ^ 64"
  proof -
    have w: "lay.written F (sb_lits b) (sb_spans b) (sb_off b) (sb_open b) E" using assms small by (simp add: synth_ok_def)
    then have "add64 (sb_off b) (length bs) = sb_off b + length bs" using small by (simp add: lay.written_def)
    then show ?thesis using w False by (cases "sb_open b") (simp_all add: syn_raw_lit_def Let_def lay.written_open lay.written_more)
  qed
  then show ?thesis using assms False by (simp add: synth_ok_def syn_raw_lit_def Let_def layout_bytes_def)
qed (use assms in \<open>simp add: syn_raw_lit_def\<close>)

lemma syn_tok_ok: "synth_ok F b E \<Longrightarrow> synth_ok F (syn_tok s b) (E @ frame s)"
  unfolding syn_tok_def frame_def append_assoc [symmetric] by (intro syn_raw_lit_ok)

lemma sub64_small: "b \<le> a \<Longrightarrow> a < 2 ^ 64 \<Longrightarrow> sub64 a b = a - b"
proof -
  assume ab: "b \<le> a" "a < 2 ^ 64"
  then have "a + (2 ^ 64 - b) = a - b + 2 ^ 64" by simp
  then show ?thesis unfolding sub64_def using ab by (metis mod_add_self2 mod_less less_imp_diff_less)
qed

lemma syn_close_lit_ok:
  assumes "synth_ok F b E"
  shows "synth_ok F (syn_close_lit b) E" and "sb_open (syn_close_lit b) = None"
proof -
  show "synth_ok F (syn_close_lit b) E"
  proof (cases "sb_open b")
    case (Some p)
    obtain m lo where p: "p = (m, lo)" by (cases p)
    have "lay.written F (sb_lits b) (sb_spans b @ [\<lparr>sn_off = m, sn_len = sub64 (sb_off b) m, sn_kind = SpanLit lo\<rparr>]) (sb_off b) None E"
      if "length E < 2 ^ 64"
    proof -
      have w: "lay.written F (sb_lits b) (sb_spans b) (sb_off b) (Some (m, lo)) E" using assms that Some p by (simp add: synth_ok_def)
      then have "m \<le> sb_off b" "sb_off b < 2 ^ 64" using that by (simp_all add: lay.written_def)
      then show ?thesis by (intro lay.written_close [OF w]) (simp_all add: sub64_small span_bytes_def)
    qed
    then show ?thesis using assms Some p by (simp add: synth_ok_def syn_close_lit_def layout_bytes_def segment_len_def)
  qed (use assms in \<open>simp add: syn_close_lit_def\<close>)
  show "sb_open (syn_close_lit b) = None" by (simp add: syn_close_lit_def split: option.split prod.split)
qed

lemma syn_segment_ok:
  assumes "synth_ok F b E" and "filler F" and "0 < n"
  shows "synth_ok F (syn_segment h n b) (E @ F h n)"
proof -
  let ?b = "syn_close_lit b" and ?s = "\<lparr>sn_off = sb_off (syn_close_lit b), sn_len = n, sn_kind = SpanSegment h\<rparr>"
  note b = syn_close_lit_ok [OF assms(1)]
  have len: "length (F h n) = n" using assms(2) by (simp add: filler_def)
  have "lay.written F (sb_lits ?b) (sb_spans ?b @ [?s]) (add64 (sb_off ?b) n) None (E @ F h n)" if small: "length E + n < 2 ^ 64"
  proof -
    have w: "lay.written F (sb_lits ?b) (sb_spans ?b) (sb_off ?b) None E" using b small by (simp add: synth_ok_def)
    then have "add64 (sb_off ?b) n = sb_off ?b + sn_len ?s" using small by (simp add: lay.written_def)
    then show ?thesis using lay.written_piece [OF w, of ?s "F h n"] len assms(3) by (simp add: span_bytes_def)
  qed
  then show ?thesis using b len by (simp add: syn_segment_def Let_def synth_ok_def layout_bytes_def segment_len_def)
qed

lemma syn_segments_ok:
  assumes "syn_segments sb remaining segs b = Inr b'" and "filler F" and "synth_ok F b E"
  shows "synth_ok F b' (E @ seg_content F sb remaining segs)"
  using assms
proof (induction sb remaining segs b arbitrary: E rule: syn_segments.induct)
  case (2 sb remaining seg segs b)
  let ?n = "min remaining sb"
  obtain h where h: "?n \<noteq> 0" "hex_decode seg = Some h" "length h = 32"
      "syn_segments sb (remaining - ?n) segs (syn_segment h ?n b) = Inr b'"
    using "2.prems"(1) by (auto simp: Let_def split: if_splits option.splits)
  have "synth_ok F (syn_segment h ?n b) (E @ F h ?n)" using syn_segment_ok "2.prems"(2,3) h(1) by blast
  from "2.IH" [OF refl h(1,2) _ h(4) "2.prems"(2) this] show ?case using h by simp
qed simp

lemma seg_content_length:
  assumes "filler F"
  shows "length (seg_content F sb remaining segs) = min remaining (length segs * sb)"
proof (induction segs arbitrary: remaining)
  case (Cons seg segs)
  have "length (F h n) = n" for h n using assms by (simp add: filler_def)
  moreover have "min r sb + min (r - min r sb) m = min r (sb + m)" for r m :: nat by linarith
  ultimately show ?case using Cons by simp
qed simp

lemma ceil_covers: "0 < sb \<Longrightarrow> len \<le> (len + (sb - 1)) div sb * sb" for len :: nat
proof -
  assume sb: "0 < sb"
  have "len + (sb - 1) = (len + (sb - 1)) div sb * sb + (len + (sb - 1)) mod sb" by simp
  moreover have "(len + (sb - 1)) mod sb \<le> sb - 1" using sb by (simp add: less_Suc_eq_le [symmetric])
  ultimately show ?thesis by linarith
qed

section \<open>Every accepted layout is an archive\<close>

lemma syn_entries_sorted:
  "syn_entries prev es b = Inr b' \<Longrightarrow> sorted_wrt (<) (map fst es) \<and> (\<forall>p. prev = Some p \<longrightarrow> (\<forall>e\<in>set es. p < fst e))"
proof (induction prev es b rule: syn_entries.induct)
  case (2 prev name child es b)
  have p: "\<forall>p. prev = Some p \<longrightarrow> p < name"
    using "2.prems" by (auto simp: not_le split: if_splits option.splits)
  have "sorted_wrt (<) (map fst es)" "\<forall>e\<in>set es. name < fst e"
    using "2.prems" "2.IH" by (auto simp: bindr_eq_Inr split: if_splits)
  then show ?case using p by (auto intro: less_trans)
qed simp

lemma syn_entries_child:
  "syn_entries prev (map (\<lambda>(name, c). (name, f c)) es) b = Inr b' \<Longrightarrow> (name, c) \<in> set es \<Longrightarrow> \<exists>b b'. f c b = Inr b'"
  by (induction es arbitrary: prev b) (auto simp: bindr_eq_Inr split: if_splits, blast+)

lemma syn_entries_ok:
  assumes "\<And>name c b E b'. (name, c) \<in> set es \<Longrightarrow> f c b = Inr b' \<Longrightarrow> synth_ok F b E \<Longrightarrow> synth_ok F b' (E @ nar_node (g c))"
    and "syn_entries prev (map (\<lambda>(name, c). (name, f c)) es) b = Inr b'" and "synth_ok F b E"
  shows "synth_ok F b' (E @ concat (map (\<lambda>(name, c). nar_entry (name, nar_node (g c))) es))"
  using assms
proof (induction es arbitrary: prev b E)
  case (Cons e es)
  obtain name c where e: "e = (name, c)" by (cases e)
  let ?b = "syn_token ''node'' (syn_token name (syn_token ''name'' (syn_token ''('' (syn_token ''entry'' b))))"
  obtain b1 where b1: "f c ?b = Inr b1" "syn_entries (Some name) (map (\<lambda>(name, c). (name, f c)) es) (syn_token '')'' b1) = Inr b'"
    using Cons.prems(2) by (auto simp: e bindr_eq_Inr split: if_splits)
  have "synth_ok F ?b (((((E @ str ''entry'') @ str ''('') @ str ''name'') @ str name) @ str ''node'')"
    by (intro syn_tok_ok Cons.prems(3))
  moreover have "(name, c) \<in> set (e # es)" by (simp add: e)
  ultimately have "synth_ok F b1 ((((((E @ str ''entry'') @ str ''('') @ str ''name'') @ str name) @ str ''node'') @ nar_node (g c))"
    using Cons.prems(1) b1(1) by blast
  then have b2: "synth_ok F (syn_token '')'' b1) (E @ nar_entry (name, nar_node (g c)))"
    by (drule_tac s = "bytes_of '')''" in syn_tok_ok) (simp add: nar_entry_def)
  have "\<And>name c b E b'. (name, c) \<in> set es \<Longrightarrow> f c b = Inr b' \<Longrightarrow> synth_ok F b E \<Longrightarrow> synth_ok F b' (E @ nar_node (g c))"
    using Cons.prems(1) by (metis list.set_intros(2))
  from Cons.IH [OF this b1(2) b2] show ?case by (simp add: e)
qed simp

lemma sorted_entries:
  fixes es :: "(string \<times> 'a) list"
  assumes "sorted_wrt (<) (map fst es)"
  shows "sort_key fst es = es" and "distinct (map fst es)"
  using assms by (simp_all add: sort_key_id_if_sorted strict_sorted_iff)

lemma nar_entries_sorted:
  fixes es :: "(string \<times> 'a) list"
  assumes "sorted_wrt (<) (map fst es)"
  shows "map nar_entry (sort_key fst (map (\<lambda>(name, n). (name, f n)) es)) = map (\<lambda>(name, n). nar_entry (name, f n)) es"
proof -
  have "sorted_wrt (<) (map fst (map (\<lambda>(name, n). (name, f n)) es))"
    using assms by (simp add: comp_def split_def)
  from sorted_entries(1) [OF this] show ?thesis by (simp add: comp_def split_def)
qed

lemma supported_to_fs [simp]: "supported (to_fs F sb n)"
  by (induction n) (auto simp: list_all_iff)

lemma nar_node_to_fs_dir:
  assumes "sorted_wrt (<) (map fst es)"
  shows "nar_node (to_fs F sb (MDir es)) = str ''('' @ str ''type'' @ str ''directory'' @
     concat (map (\<lambda>(name, n). nar_entry (name, nar_node (to_fs F sb n))) es) @ str '')''"
  using nar_entries_sorted [OF assms, of "\<lambda>n. nar_node (to_fs F sb n)"] by (simp add: comp_def split_def)

lemma syn_node_ok:
  assumes "syn_node sb d n b = Inr b'" and "0 < sb" and "filler F" and "synth_ok F b E"
  shows "synth_ok F b' (E @ nar_node (to_fs F sb n))"
  using assms(1,4)
proof (induction n arbitrary: d b b' E)
  case (MSymlink target)
  have "synth_ok F (syn_token '')'' (syn_token target (syn_token ''target'' (syn_token ''symlink'' (syn_token ''type'' (syn_token ''('' b))))))
      ((((((E @ str ''('') @ str ''type'') @ str ''symlink'') @ str ''target'') @ str target) @ str '')'')"
    by (intro syn_tok_ok MSymlink.prems)
  then show ?case using MSymlink.prems(1) by (auto split: if_splits)
next
  case (MRegular x len segs)
  let ?b1 = "syn_token ''regular'' (syn_token ''type'' (syn_token ''('' b))"
  let ?b2 = "if x then syn_token '''' (syn_token ''executable'' ?b1) else ?b1"
  let ?b3 = "syn_raw_lit (le_bytes64 len) (syn_token ''contents'' ?b2)"
  let ?E1 = "((E @ str ''('') @ str ''type'') @ str ''regular''"
  let ?E2 = "?E1 @ (if x then str ''executable'' @ str '''' else [])"
  let ?c = "seg_content F sb len segs"
  obtain b4 where b4: "length segs = (len + (max sb 1 - 1)) div max sb 1" "syn_segments sb len segs ?b3 = Inr b4"
      "b' = syn_token '')'' (syn_raw_lit (replicate (pad_len len) 0) b4)"
    using MRegular.prems(1) by (auto simp: Let_def bindr_eq_Inr split: if_splits)
  have "max sb 1 = sb" using assms(2) by simp
  then have "length ?c = len" using b4(1) ceil_covers [OF assms(2), of len] by (simp add: seg_content_length [OF assms(3)] min_def)
  moreover have 1: "synth_ok F ?b1 ?E1" by (intro syn_tok_ok MRegular.prems)
  have 2: "synth_ok F ?b2 ?E2"
    using syn_tok_ok [OF syn_tok_ok [OF 1, of "bytes_of ''executable''"], of "bytes_of ''''"] 1 by simp
  have 3: "synth_ok F ?b3 ((?E2 @ str ''contents'') @ le_bytes64 len)" by (intro syn_raw_lit_ok syn_tok_ok 2)
  have "synth_ok F b' ((((((?E2 @ str ''contents'') @ le_bytes64 len) @ ?c) @ replicate (pad_len len) 0)) @ str '')'')"
    unfolding b4(3) by (intro syn_tok_ok syn_raw_lit_ok syn_segments_ok [OF b4(2) assms(3)] 3)
  ultimately show ?case by (simp add: frame_def)
next
  case (MDir es)
  let ?b = "syn_token ''directory'' (syn_token ''type'' (syn_token ''('' b))"
  let ?E = "((E @ str ''('') @ str ''type'') @ str ''directory''"
  obtain b1 where b1: "syn_entries None (map (\<lambda>(name, c). (name, syn_node sb (d + 1) c)) es) ?b = Inr b1" "b' = syn_token '')'' b1"
    using MDir.prems(1) by (auto simp: bindr_eq_Inr split: if_splits)
  have ok: "synth_ok F b' (E @ nar_node (to_fs F sb c))"
    if "(name, c) \<in> set es" "syn_node sb (d + 1) c b = Inr b'" "synth_ok F b E" for name c b E b'
    using MDir.IH [OF that(1) _ that(2,3)] by simp
  have sorted: "sorted_wrt (<) (map fst es)"
    using conjunct1 [OF syn_entries_sorted [OF b1(1)]] by (simp add: comp_def split_def)
  have "synth_ok F ?b ?E" by (intro syn_tok_ok MDir.prems)
  from syn_entries_ok [where g = "to_fs F sb" and f = "syn_node sb (d + 1)", OF _ b1(1) this] ok
  have "synth_ok F b1 (?E @ concat (map (\<lambda>(name, c). nar_entry (name, nar_node (to_fs F sb c))) es))" by blast
  then have "synth_ok F b' ((?E @ concat (map (\<lambda>(name, c). nar_entry (name, nar_node (to_fs F sb c))) es)) @ str '')'')"
    unfolding b1(2) by (rule syn_tok_ok)
  then show ?case unfolding nar_node_to_fs_dir [OF sorted] by simp
qed

lemma syn_node_fs_ok: "syn_node sb d n b = Inr b' \<Longrightarrow> fs_ok (to_fs F sb n)"
proof (induction n arbitrary: d b b')
  case (MDir es)
  obtain b0 b1 where b1: "syn_entries None (map (\<lambda>(name, c). (name, syn_node sb (d + 1) c)) es) b0 = Inr b1"
    using MDir.prems(1) by (auto simp: bindr_eq_Inr split: if_splits)
  have "sorted_wrt (<) (map fst es)"
    using conjunct1 [OF syn_entries_sorted [OF b1]] by (simp add: comp_def split_def)
  moreover have "fs_ok (to_fs F sb c)" if "(name, c) \<in> set es" for name c
    using MDir.IH [OF that] syn_entries_child [OF b1 that] by auto
  ultimately show ?case using sorted_entries(2) [of es] by (auto simp: list_all_iff comp_def split_def)
qed simp_all

lemma layout_pieces:
  assumes "synth_layout m = Inr L" and "filler F"
  defines "sb \<equiv> mf_segment_bytes m" and "N \<equiv> nar (to_fs F (mf_segment_bytes m) (mf_root m))"
  shows "0 < sb" and "ly_nar_size L = mf_nar_size m" and "layout_bytes (ly_lits L) (ly_spans L) = length N"
    and "fs_ok (to_fs F sb (mf_root m))"
    and "length N < 2 ^ 64 \<Longrightarrow> lay.pieces_ok F (ly_lits L) (ly_spans L) N \<and> ly_nar_size L = length N"
proof -
  let ?b0 = "\<lparr>sb_lits = [], sb_spans = [], sb_off = 0, sb_open = None\<rparr>"
  obtain b where b: "0 < sb" "syn_node sb 0 (mf_root m) (syn_token ''nix-archive-1'' ?b0) = Inr b"
    "sb_off (syn_close_lit b) = mf_nar_size m"
    "L = \<lparr>ly_nar_size = sb_off (syn_close_lit b), ly_lits = sb_lits (syn_close_lit b), ly_spans = sb_spans (syn_close_lit b)\<rparr>"
    using assms(1) by (auto simp: sb_def synth_layout_def Let_def bindr_eq_Inr split: if_splits)
  have "synth_ok F ?b0 []" using lay.written_empty by (simp add: synth_ok_def layout_bytes_def)
  from syn_tok_ok [OF this, of "bytes_of ''nix-archive-1''"]
  have "synth_ok F (syn_token ''nix-archive-1'' ?b0) (str ''nix-archive-1'')" by simp
  from syn_close_lit_ok [OF syn_node_ok [OF b(2,1) assms(2) this]]
  have c: "synth_ok F (syn_close_lit b) N" "sb_open (syn_close_lit b) = None" by (simp_all add: nar_def N_def sb_def)
  show "0 < sb" "ly_nar_size L = mf_nar_size m" "fs_ok (to_fs F sb (mf_root m))"
    using b syn_node_fs_ok [OF b(2)] by simp_all
  show "layout_bytes (ly_lits L) (ly_spans L) = length N" using c by (simp add: b(4) synth_ok_def)
  show "length N < 2 ^ 64 \<Longrightarrow> lay.pieces_ok F (ly_lits L) (ly_spans L) N \<and> ly_nar_size L = length N"
    using c by (simp add: b(4) synth_ok_def lay.written_def)
qed


section \<open>The claimed size wraps\<close>

definition in_u64 :: "synth \<Rightarrow> bool" where
  "in_u64 b \<longleftrightarrow> sb_off b < 2 ^ 64"

lemma off_raw_lit [simp]: "in_u64 b \<Longrightarrow> sb_off (syn_raw_lit bs b) = add64 (sb_off b) (length bs)"
  and u64_raw_lit [simp]: "in_u64 b \<Longrightarrow> in_u64 (syn_raw_lit bs b)"
  by (auto simp: in_u64_def syn_raw_lit_def Let_def add64_def)

lemma off_close [simp]: "sb_off (syn_close_lit b) = sb_off b"
  by (simp add: syn_close_lit_def split: option.split prod.split)

lemma off_segment [simp]: "sb_off (syn_segment h n b) = add64 (sb_off b) n" "in_u64 (syn_segment h n b)"
  by (simp_all add: in_u64_def syn_segment_def Let_def add64_def)

lemma off_tok [simp]: "in_u64 b \<Longrightarrow> sb_off (syn_tok s b) = add64 (sb_off b) (8 + length s + pad_len (length s))"
  and u64_tok [simp]: "in_u64 b \<Longrightarrow> in_u64 (syn_tok s b)"
  by (simp_all add: syn_tok_def add64_def mod_simps ac_simps)

definition total :: "synth \<Rightarrow> nat" where
  "total b = layout_bytes (sb_lits b) (sb_spans b)"

lemma total_steps [simp]:
  "total (syn_raw_lit bs b) = total b + length bs" "total (syn_close_lit b) = total b"
  "total (syn_segment h n b) = total b + n" "total \<lparr>sb_lits = [], sb_spans = [], sb_off = x, sb_open = y\<rparr> = 0"
proof -
  show c: "total (syn_close_lit b) = total b" for b
    by (simp add: total_def layout_bytes_def syn_close_lit_def segment_len_def split: option.split prod.split)
  show "total (syn_segment h n b) = total b + n"
    using c [of b] by (simp add: total_def layout_bytes_def syn_segment_def segment_len_def Let_def)
qed (simp_all add: total_def layout_bytes_def syn_raw_lit_def Let_def)

lemma total_tok [simp]: "total (syn_tok s b) = total b + (8 + length s + pad_len (length s))"
  by (simp add: syn_tok_def)

definition wrapping_manifest :: manifest where
  "wrapping_manifest = \<lparr>mf_version = 1, mf_nar_hash = [], mf_nar_size = 112, mf_segment_bytes = 2 ^ 64 - 1,
     mf_root = MRegular False (2 ^ 64 - 1) [hex_encode (replicate 32 0)]\<rparr>"

lemma in_u64_empty [simp]: "in_u64 \<lparr>sb_lits = [], sb_spans = [], sb_off = 0, sb_open = None\<rparr>"
  by (simp add: in_u64_def)


definition small_manifest :: manifest where
  "small_manifest = \<lparr>mf_version = 1, mf_nar_hash = [], mf_nar_size = 120, mf_segment_bytes = 4,
     mf_root = MRegular False 5 [hex_encode (replicate 32 1), hex_encode (replicate 32 2)]\<rparr>"

lemma small_layout: "\<exists>L. synth_layout small_manifest = Inr L \<and> layout_bytes (ly_lits L) (ly_spans L) = 120"
  by (simp add: synth_layout_def small_manifest_def MAX_DEPTH_def Let_def pad_len_def add64_def, simp only: total_def [symmetric])
     (simp only: total_steps total_tok, simp add: add64_def pad_len_def)

definition zeros :: "bytes \<Rightarrow> nat \<Rightarrow> bytes" where
  "zeros h n = replicate n 0"

lemma filler_zeros [simp]: "filler zeros"
  by (simp add: filler_def zeros_def)


section \<open>The manifest of a store path\<close>

text \<open>The segments of a file, and of the files below a path.\<close>

function segments :: "nat \<Rightarrow> bytes \<Rightarrow> bytes list" where
  "segments sb c = (if c = [] \<or> sb = 0 then [] else take sb c # segments sb (drop sb c))"
  by pat_completeness auto
termination
  by (relation "measure (\<lambda>(_, c). length c)") auto

declare segments.simps [simp del]

fun fs_segments :: "nat \<Rightarrow> fs_node \<Rightarrow> bytes set" where
  "fs_segments sb (Regular executable content) = set (segments sb content)"
| "fs_segments sb (Directory es) = (\<Union>(name, c)\<in>set es. fs_segments sb c)"
| "fs_segments sb _ = {}"

text \<open>What a path must keep to have a manifest; \<open>d\<close> is the depth of the node.\<close>

fun publishable :: "nat \<Rightarrow> fs_node \<Rightarrow> bool" where
  "publishable d (Symlink target) \<longleftrightarrow> d \<le> MAX_DEPTH \<and> utf8_ok target"
| "publishable d (Regular executable content) \<longleftrightarrow> d \<le> MAX_DEPTH"
| "publishable d (Directory es) \<longleftrightarrow> d \<le> MAX_DEPTH \<and> list_all (\<lambda>(name, c). utf8_ok name \<and> publishable (d + 1) c) es"
| "publishable d Special \<longleftrightarrow> False"

lemma hash_segments_eq:
  assumes "0 < sb"
  shows "hash_segments B3 sb c = Some (map (\<lambda>x. hex_encode (B3 x)) (segments sb c))"
  using assms
proof (induction sb c rule: segments.induct)
  case (1 sb c)
  show ?case
  proof (cases "c = []")
    case True
    then show ?thesis by (subst hash_segments.simps, subst segments.simps) simp
  next
    case False
    have m: "take (min (length c) sb) c = take sb c" "drop (min (length c) sb) c = drop sb c" by (simp_all add: min_def)
    show ?thesis using False 1 by (subst hash_segments.simps, subst segments.simps) (auto simp: m)
  qed
qed

lemma segments_empty [simp]: "segments sb [] = []"
  by (subst segments.simps) simp

lemma segments_step: "0 < sb \<Longrightarrow> c \<noteq> [] \<Longrightarrow> segments sb c = take sb c # segments sb (drop sb c)"
  by (subst segments.simps) simp

lemma concat_segments: "0 < sb \<Longrightarrow> concat (segments sb c) = c"
  by (induction sb c rule: segments.induct) (subst segments.simps, auto)

lemma div_step: "0 < sb \<Longrightarrow> (a + sb) div sb = Suc (a div sb)" for a sb :: nat
  using div_add_self2 [of sb a] by simp

lemma ceil_step:
  fixes sb n :: nat
  assumes "0 < sb" and "0 < n"
  shows "(n + (sb - 1)) div sb = Suc ((n - sb + (sb - 1)) div sb)"
proof (cases "sb \<le> n")
  case True
  then have eq: "n + (sb - 1) = (n - sb + (sb - 1)) + sb" by linarith
  show ?thesis unfolding eq using assms(1) by (rule div_step)
next
  case False
  then have eq: "n + (sb - 1) = (n - 1) + sb" "n - sb + (sb - 1) = sb - 1" "n - 1 < sb" "sb - 1 < sb" using assms by linarith+
  then show ?thesis unfolding eq(1,2) using div_step [OF assms(1), of "n - 1"] by (simp only: div_less)
qed

lemma length_segments: "0 < sb \<Longrightarrow> length (segments sb c) = (length c + (sb - 1)) div sb"
proof (induction sb c rule: segments.induct)
  case (1 sb c)
  show ?case
  proof (cases "c = []")
    case False
    have "length (segments sb (drop sb c)) = (length (drop sb c) + (sb - 1)) div sb" using "1.IH" "1.prems" False by blast
    moreover have "0 < length c" using False by simp
    ultimately show ?thesis unfolding segments_step [OF "1.prems" False] ceil_step [OF "1.prems" \<open>0 < length c\<close>] by simp
  qed (use "1.prems" in simp)
qed

lemma seg_content_segments:
  "0 < sb \<Longrightarrow> \<forall>x. length (B3 x) = 32 \<Longrightarrow>
     seg_content F sb (length c) (map (\<lambda>x. hex_encode (B3 x)) (segments sb c)) = concat (map (\<lambda>x. F (B3 x) (length x)) (segments sb c))"
proof (induction sb c rule: segments.induct)
  case (1 sb c)
  show ?case
  proof (cases "c = []")
    case False
    have "length c - min (length c) sb = length (drop sb c)" by simp
    then show ?thesis using 1 False by (simp add: segments_step min.commute)
  qed simp
qed

lemma syn_segments_complete:
  "0 < sb \<Longrightarrow> \<forall>x. length (B3 x) = 32 \<Longrightarrow>
     \<exists>b'. syn_segments sb (length c) (map (\<lambda>x. hex_encode (B3 x)) (segments sb c)) b = Inr b'"
proof (induction sb c arbitrary: b rule: segments.induct)
  case (1 sb c)
  show ?case
  proof (cases "c = []")
    case False
    have "length c - min (length c) sb = length (drop sb c)" by simp
    then show ?thesis using 1 False by (simp add: segments_step Let_def)
  qed simp
qed

lemma tree_entries:
  "for_each (tree_entry p) (map (\<lambda>(name, c). (name, f name c)) es) acc = Inr r \<longleftrightarrow>
     list_all (\<lambda>(name, c). utf8_ok name \<and> (\<exists>t. f name c = Inr t)) es \<and> r = acc @ map (\<lambda>(name, c). (name, projr (f name c))) es"
  by (induction es arbitrary: acc) (auto simp: tree_entry_def bindr_eq_Inr)

lemma sorted_names:
  fixes es :: "(string \<times> 'a) list"
  assumes "distinct (map fst es)"
  shows "sorted_wrt (<) (map fst (sort_key fst es))"
proof -
  have "distinct (map fst (sort_key fst es))" using assms by (simp add: distinct_map)
  then show ?thesis by (simp add: strict_sorted_iff)
qed

lemma build_tree_dir:
  "build_tree B3 sb p (Directory es) = Inr t \<longleftrightarrow>
     list_all (\<lambda>(name, c). utf8_ok name \<and> (\<exists>t. build_tree B3 sb (p @ [name]) c = Inr t)) es \<and>
     t = MDir (map (\<lambda>(name, c). (name, projr (build_tree B3 sb (p @ [name]) c))) (sort_key fst es))"
  by (auto simp: sort_key_pairs [of "\<lambda>name. build_tree B3 sb (p @ [name])"] tree_entries bindr_eq_Inr list_all_iff)

lemma syn_entries_complete:
  assumes "sorted_wrt (<) (map fst es)" and "case prev of None \<Rightarrow> True | Some p \<Rightarrow> (\<forall>e\<in>set es. p < fst e)"
    and "\<And>name c b. (name, c) \<in> set es \<Longrightarrow> \<exists>b'. f c b = Inr b'"
  shows "\<exists>b'. syn_entries prev (map (\<lambda>(name, c). (name, f c)) es) b = Inr b'"
  using assms
proof (induction es arbitrary: prev b)
  case (Cons e es)
  obtain name c where e: "e = (name, c)" by (cases e)
  obtain b1 where b1: "f c (syn_token ''node'' (syn_token name (syn_token ''name'' (syn_token ''('' (syn_token ''entry'' b))))) = Inr b1"
    using Cons.prems(3) e by (metis list.set_intros(1))
  have "\<exists>b'. syn_entries (Some name) (map (\<lambda>(name, c). (name, f c)) es) (syn_token '')'' b1) = Inr b'"
    by (rule Cons.IH) (use Cons.prems e in \<open>auto simp: less_imp_le\<close>)
  moreover have "\<not> (case prev of None \<Rightarrow> False | Some p \<Rightarrow> p \<ge> name)"
    using Cons.prems(2) e by (auto split: option.splits)
  ultimately show ?case using b1 e by simp
qed simp

lemma publishable_builds:
  assumes "publishable d n" and "fs_ok n" and "0 < sb" and "\<forall>x. length (B3 x) = 32"
  shows "\<exists>t. build_tree B3 sb p n = Inr t \<and> (\<forall>b. \<exists>b'. syn_node sb d t b = Inr b')"
  using assms(1,2)
proof (induction n arbitrary: d p)
  case (Regular x c)
  have "max sb 1 = sb" using assms(3) by simp
  moreover have "\<exists>b'. bindr (syn_segments sb (length c) (map (\<lambda>x. hex_encode (B3 x)) (segments sb c)) b) 
      (\<lambda>b. Inr (syn_token '')'' (syn_raw_lit (replicate (pad_len (length c)) 0) b))) = Inr b'" for b
    using syn_segments_complete [OF assms(3,4), of c b] by auto
  ultimately show ?case using Regular.prems assms(3) by (simp add: hash_segments_eq length_segments Let_def)
next
  case (Directory es)
  have child: "\<exists>t. build_tree B3 sb (p @ [name]) c = Inr t \<and> (\<forall>b. \<exists>b'. syn_node sb (d + 1) t b = Inr b')" "utf8_ok name"
    if "(name, c) \<in> set es" for name c
  proof -
    have "publishable (d + 1) c" "fs_ok c" "utf8_ok name" using Directory.prems that by (auto simp: list_all_iff)
    then show "\<exists>t. build_tree B3 sb (p @ [name]) c = Inr t \<and> (\<forall>b. \<exists>b'. syn_node sb (d + 1) t b = Inr b')" "utf8_ok name"
      using Directory.IH [OF that] by simp_all
  qed
  let ?ts = "map (\<lambda>(name, c). (name, projr (build_tree B3 sb (p @ [name]) c))) (sort_key fst es)"
  have "build_tree B3 sb p (Directory es) = Inr (MDir ?ts)" unfolding build_tree_dir list_all_iff using child by fast
  moreover have "\<exists>b'. syn_node sb d (MDir ?ts) b = Inr b'" for b
  proof -
    have "sorted_wrt (<) (map fst ?ts)" using sorted_names [of es] Directory.prems(2) by (simp add: comp_def split_def)
    moreover have "\<exists>b'. syn_node sb (d + 1) t b = Inr b'" if "(name, t) \<in> set ?ts" for name t b
      using that child(1) by fastforce
    ultimately have "\<exists>b'. syn_entries None (map (\<lambda>(name, c). (name, syn_node sb (d + 1) c)) ?ts) b = Inr b'" for b
      by (intro syn_entries_complete) simp_all
    then show ?thesis using Directory.prems(1) by (simp del: map_map) (metis bindr_simps(2))
  qed
  ultimately show ?case by blast
qed simp_all

lemma built_is_publishable:
  assumes "build_tree B3 sb p n = Inr t" and "syn_node sb d t b = Inr b'"
  shows "publishable d n"
  using assms
proof (induction n arbitrary: d p t b b')
  case (Directory es)
  note t = Directory.prems(1) [unfolded build_tree_dir]
  let ?ts = "map (\<lambda>(name, c). (name, projr (build_tree B3 sb (p @ [name]) c))) (sort_key fst es)"
  obtain b0 b1 where d: "d \<le> MAX_DEPTH" and b1: "syn_entries None (map (\<lambda>(name, c). (name, syn_node sb (d + 1) c)) ?ts) b0 = Inr b1"
    using Directory.prems(2) unfolding conjunct2 [OF t] by (auto simp: bindr_eq_Inr simp del: map_map split: if_splits)
  have "publishable (d + 1) c" if nc: "(name, c) \<in> set es" for name c
  proof -
    obtain t' where t': "build_tree B3 sb (p @ [name]) c = Inr t'" using conjunct1 [OF t] nc unfolding list_all_iff by fast
    then have "(name, t') \<in> set ?ts" using nc by force
    from syn_entries_child [OF b1 this] show ?thesis using Directory.IH [OF nc _ t'] by auto
  qed
  then show ?case using d conjunct1 [OF t] by (auto simp: list_all_iff)
qed (auto split: if_splits option.splits)

lemma concat_map_length:
  "(\<And>x. x \<in> set xs \<Longrightarrow> length (f x) = length (g x)) \<Longrightarrow> length (concat (map f xs)) = length (concat (map g xs))"
  by (induction xs) auto

lemma built_describes:
  assumes "build_tree B3 sb p n = Inr t" and "fs_ok n" and "0 < sb" and "\<forall>x. length (B3 x) = 32" and "filler F"
  shows "length (nar_node (to_fs F sb t)) = length (nar_node n)"
    and "\<forall>x\<in>fs_segments sb n. F (B3 x) (length x) = x \<Longrightarrow> nar_node (to_fs F sb t) = nar_node n"
proof -
  have "length (nar_node (to_fs F sb t)) = length (nar_node n) \<and>
     ((\<forall>x\<in>fs_segments sb n. F (B3 x) (length x) = x) \<longrightarrow> nar_node (to_fs F sb t) = nar_node n)"
    using assms(1,2)
  proof (induction n arbitrary: p t)
    case (Regular x c)
    have t: "t = MRegular x (length c) (map (\<lambda>x. hex_encode (B3 x)) (segments sb c))"
      using Regular.prems(1) assms(3) by (simp add: hash_segments_eq)
    have c: "seg_content F sb (length c) (map (\<lambda>x. hex_encode (B3 x)) (segments sb c)) = concat (map (\<lambda>x. F (B3 x) (length x)) (segments sb c))"
      by (rule seg_content_segments [OF assms(3,4)])
    have "length (concat (map (\<lambda>x. F (B3 x) (length x)) (segments sb c))) = length (concat (map id (segments sb c)))"
      using assms(5) by (intro concat_map_length) (simp add: filler_def)
    then have l: "length (concat (map (\<lambda>x. F (B3 x) (length x)) (segments sb c))) = length c"
      using concat_segments [OF assms(3), of c] by simp
    have "concat (map (\<lambda>x. F (B3 x) (length x)) (segments sb c)) = c" if "\<forall>x\<in>set (segments sb c). F (B3 x) (length x) = x"
      using that concat_segments [OF assms(3), of c] by (simp cong: map_cong)
    then show ?case using l by (simp add: t c frame_def)
  next
    case (Directory es)
    let ?g = "\<lambda>name c. projr (build_tree B3 sb (p @ [name]) c)"
    let ?ts = "map (\<lambda>(name, c). (name, ?g name c)) (sort_key fst es)"
    have t: "t = MDir ?ts" and ok: "list_all (\<lambda>(name, c). utf8_ok name \<and> (\<exists>t. build_tree B3 sb (p @ [name]) c = Inr t)) es"
      using Directory.prems(1) unfolding build_tree_dir by simp_all
    have child: "length (nar_node (to_fs F sb (?g name c))) = length (nar_node c) \<and>
        ((\<forall>x\<in>fs_segments sb c. F (B3 x) (length x) = x) \<longrightarrow> nar_node (to_fs F sb (?g name c)) = nar_node c)"
      if nc: "(name, c) \<in> set es" for name c
    proof -
      obtain t' where t': "build_tree B3 sb (p @ [name]) c = Inr t'" using ok nc unfolding list_all_iff by fast
      have "fs_ok c" using Directory.prems(2) nc by (auto simp: list_all_iff)
      then show ?thesis using Directory.IH [OF nc _ t'] t' by simp
    qed
    have "sorted_wrt (<) (map fst ?ts)" using sorted_names [of es] Directory.prems(2) by (simp add: comp_def split_def)
    from nar_node_to_fs_dir [OF this]
    have n1: "nar_node (to_fs F sb t) = str ''('' @ str ''type'' @ str ''directory'' @
       concat (map (\<lambda>e. nar_entry (fst e, nar_node (to_fs F sb (?g (fst e) (snd e))))) (sort_key fst es)) @ str '')''"
      by (simp add: t comp_def split_def)
    have n2: "nar_node (Directory es) = str ''('' @ str ''type'' @ str ''directory'' @
       concat (map (\<lambda>e. nar_entry (fst e, nar_node (snd e))) (sort_key fst es)) @ str '')''"
      using sort_key_pairs [of "\<lambda>_. nar_node" es] by (simp add: comp_def split_def)
    have L: "length (concat (map (\<lambda>e. nar_entry (fst e, nar_node (to_fs F sb (?g (fst e) (snd e))))) (sort_key fst es))) =
        length (concat (map (\<lambda>e. nar_entry (fst e, nar_node (snd e))) (sort_key fst es)))"
      by (rule concat_map_length) (use child in \<open>auto simp: nar_entry_def\<close>)
    have Q: "map (\<lambda>e. nar_entry (fst e, nar_node (to_fs F sb (?g (fst e) (snd e))))) (sort_key fst es) =
        map (\<lambda>e. nar_entry (fst e, nar_node (snd e))) (sort_key fst es)"
      if "\<forall>x\<in>fs_segments sb (Directory es). F (B3 x) (length x) = x"
      by (rule map_cong [OF refl]) (use child that in fastforce)
    show ?case unfolding n1 n2 by (intro conjI impI) (simp only: length_append L, simp only: Q)
  qed (auto split: if_splits)
  then show "length (nar_node (to_fs F sb t)) = length (nar_node n)"
    and "\<forall>x\<in>fs_segments sb n. F (B3 x) (length x) = x \<Longrightarrow> nar_node (to_fs F sb t) = nar_node n" by blast+
qed

text \<open>What the checks of \<open>build_manifest\<close> compute once the tree is built.\<close>

lemma synth_built:
  assumes "build_tree B3 sb [] root = Inr t" and "syn_node sb 0 t (syn_token ''nix-archive-1'' \<lparr>sb_lits = [], sb_spans = [], sb_off = 0, sb_open = None\<rparr>) = Inr b"
    and "fs_ok root" and "0 < sb" and "\<forall>x. length (B3 x) = 32" and "length (nar root) < 2 ^ 64"
  shows "sb_off (syn_close_lit b) = length (nar root)"
proof -
  let ?b0 = "\<lparr>sb_lits = [], sb_spans = [], sb_off = 0, sb_open = None\<rparr>" and ?N = "nar (to_fs zeros sb t)"
  have len: "length ?N = length (nar root)"
    using built_describes(1) [OF assms(1,3,4,5) filler_zeros] by (simp add: nar_def)
  have "synth_ok zeros ?b0 []" using lay.written_empty by (simp add: synth_ok_def layout_bytes_def)
  from syn_tok_ok [OF this, of "bytes_of ''nix-archive-1''"]
  have "synth_ok zeros (syn_token ''nix-archive-1'' ?b0) (str ''nix-archive-1'')" by simp
  from syn_close_lit_ok(1) [OF syn_node_ok [OF assms(2,4) filler_zeros this]] have "synth_ok zeros (syn_close_lit b) ?N" by (simp add: nar_def)
  then show ?thesis using len assms(6) by (simp add: synth_ok_def lay.written_def)
qed

lemma build_manifest_Inr:
  "build_manifest B3 root nh ns sb = Inr m \<longleftrightarrow>
     (\<exists>t L. build_tree B3 sb [] root = Inr t \<and> synth_layout m = Inr L \<and>
        m = \<lparr>mf_version = VERSION, mf_nar_hash = ''sha256:'' @ encode nh, mf_nar_size = ns, mf_segment_bytes = sb, mf_root = t\<rparr>)"
  by (auto simp: build_manifest_def Let_def split: sum.splits)

text \<open>
  Which paths have a manifest: with segments of at least a byte, exactly those of regular
  files, directories and symbolic links with UTF-8 names and targets, at most \<open>MAX_DEPTH\<close>
  deep, whose registered size is that of the archive.
\<close>
theorem manifest_exists_iff:
  assumes "fs_ok root" and "0 < sb" and "\<forall>x. length (B3 x) = 32" and "length (nar root) < 2 ^ 64"
  shows "(\<exists>m. build_manifest B3 root nh ns sb = Inr m) \<longleftrightarrow> publishable 0 root \<and> ns = length (nar root)"
proof
  assume "\<exists>m. build_manifest B3 root nh ns sb = Inr m"
  then obtain t L where t: "build_tree B3 sb [] root = Inr t"
    and L: "synth_layout \<lparr>mf_version = VERSION, mf_nar_hash = ''sha256:'' @ encode nh, mf_nar_size = ns, mf_segment_bytes = sb, mf_root = t\<rparr> = Inr L"
    unfolding build_manifest_Inr by blast
  obtain b where b: "syn_node sb 0 t (syn_token ''nix-archive-1'' \<lparr>sb_lits = [], sb_spans = [], sb_off = 0, sb_open = None\<rparr>) = Inr b"
      "sb_off (syn_close_lit b) = ns"
    using L by (auto simp: synth_layout_def Let_def bindr_eq_Inr split: if_splits)
  show "publishable 0 root \<and> ns = length (nar root)"
    using built_is_publishable [OF t b(1)] synth_built [OF t b(1) assms] b(2) by simp
next
  assume pub: "publishable 0 root \<and> ns = length (nar root)"
  then obtain t where t: "build_tree B3 sb [] root = Inr t" "\<forall>b. \<exists>b'. syn_node sb 0 t b = Inr b'"
    using publishable_builds [of 0 root sb B3 "[]"] assms by blast
  obtain b where b: "syn_node sb 0 t (syn_token ''nix-archive-1'' \<lparr>sb_lits = [], sb_spans = [], sb_off = 0, sb_open = None\<rparr>) = Inr b"
    using t(2) by blast
  show "\<exists>m. build_manifest B3 root nh ns sb = Inr m"
    unfolding build_manifest_Inr using t(1) b synth_built [OF t(1) b assms] pub assms(2) by (simp add: synth_layout_def Let_def)
qed

text \<open>
  C37: A published manifest describes its path: a consumer who accepts it and fills every
  segment with the bytes that have its hash rebuilds the canonical archive, provided no two
  different segments of the path share a hash.
\<close>
theorem manifest_describes_path:
  assumes "build_manifest B3 root nh ns sb = Inr m" and "fs_ok root" and "0 < sb" and "\<forall>x. length (B3 x) = 32"
    and "length (nar root) < 2 ^ 64" and "filler F" and "\<forall>x\<in>fs_segments sb root. F (B3 x) (length x) = x"
  shows "\<exists>L. synth_layout m = Inr L \<and> ly_nar_size L = length (nar root) \<and>
     concat (map (span_bytes F (ly_lits L)) (ly_spans L)) = nar root"
proof -
  obtain t L where t: "build_tree B3 sb [] root = Inr t" and L: "synth_layout m = Inr L"
    and m: "mf_root m = t" "mf_segment_bytes m = sb"
    using assms(1) unfolding build_manifest_Inr by auto
  have "nar (to_fs F sb t) = nar root"
    using built_describes(2) [OF t assms(2,3,4,6,7)] by (simp add: nar_def)
  then show ?thesis using layout_pieces(5) [OF L assms(6)] L assms(5) by (simp add: m lay.pieces_ok_def)
qed

text \<open>For the witnesses: a hash that keeps the first 32 bytes and their number is injective on short segments.\<close>

definition toy_hash :: "bytes \<Rightarrow> bytes" where
  "toy_hash x = take 32 (x @ replicate 32 0)"

definition toy_fill :: "bytes \<Rightarrow> nat \<Rightarrow> bytes" where
  "toy_fill h n = take n (h @ replicate n 0)"

definition demo_dir :: fs_node where
  "demo_dir = Directory [(''b'', Regular True [1, 2, 3]), (''a'', Symlink ''b'')]"

lemma demo_dir_ok: "fs_ok demo_dir" "publishable 0 demo_dir" "length (nar demo_dir) < 2 ^ 64"
  "fs_segments 2 demo_dir = {[1, 2], [3]}"
  by (simp_all add: demo_dir_def MAX_DEPTH_def in_range_def nar_def nar_entry_def frame_def pad_len_def segments_step)

lemma toy_ok: "\<forall>x. length (toy_hash x) = 32" "filler toy_fill"
  by (auto simp: toy_hash_def toy_fill_def filler_def min_def)

theorem manifest_exists_iff_witness:
  "\<exists>m. build_manifest toy_hash demo_dir [] (length (nar demo_dir)) 2 = Inr m"
  using manifest_exists_iff [OF demo_dir_ok(1) _ toy_ok(1) demo_dir_ok(3), of 2] demo_dir_ok(2) by simp

theorem manifest_describes_path_witness:
  "\<exists>m L. build_manifest toy_hash demo_dir [] (length (nar demo_dir)) 2 = Inr m \<and> synth_layout m = Inr L \<and>
     concat (map (span_bytes toy_fill (ly_lits L)) (ly_spans L)) = nar demo_dir"
proof -
  obtain t where t: "build_tree toy_hash 2 [] demo_dir = Inr t" "\<forall>b. \<exists>b'. syn_node 2 0 t b = Inr b'"
    using publishable_builds [of 0 demo_dir 2 toy_hash "[]"] demo_dir_ok toy_ok by auto
  obtain b where b: "syn_node 2 0 t (syn_token ''nix-archive-1'' \<lparr>sb_lits = [], sb_spans = [], sb_off = 0, sb_open = None\<rparr>) = Inr b"
    using t(2) by blast
  obtain m where m: "build_manifest toy_hash demo_dir [] (length (nar demo_dir)) 2 = Inr m"
    unfolding build_manifest_Inr using t(1) b synth_built [OF t(1) b demo_dir_ok(1) _ toy_ok(1) demo_dir_ok(3)]
    by (simp add: synth_layout_def Let_def)
  have "\<forall>x\<in>fs_segments 2 demo_dir. toy_fill (toy_hash x) (length x) = x"
    by (simp add: demo_dir_ok(4) toy_fill_def toy_hash_def)
  from manifest_describes_path [OF m demo_dir_ok(1) _ toy_ok(1) demo_dir_ok(3) toy_ok(2) this] m show ?thesis by auto
qed

end
