(* ===== verification/Governor.thy ===== *)
theory Governor
  imports Complex_Main Prelude
begin

text \<open>
  How many streams to keep open per peer: the hill-climbing governor (\<open>src/governor.rs\<close>) and
  the stream budget around it (\<open>PeerLimit\<close> of \<open>src/fetch.rs\<close>). An \<open>f64\<close> is a real number;
  times are nanoseconds.
\<close>

section \<open>The governor\<close>

definition NOISE :: real where "NOISE = 3 / 100"
definition PROBE_EPOCHS :: nat where "PROBE_EPOCHS = 5"
definition STEP_UP :: real where "STEP_UP = 13 / 10"
definition BACKOFF :: real where "BACKOFF = 7 / 10"
definition ERROR_RATE_BACKOFF :: real where "ERROR_RATE_BACKOFF = 1 / 4"
definition MIN_RATE_ATTEMPTS :: nat where "MIN_RATE_ATTEMPTS = 4"

datatype pressure = Network | ConsumerBound

record governor =
  gv_limit :: real
  gv_min :: real
  gv_max :: real
  gv_dir :: real
  gv_samples :: "real list"
  gv_prev :: "real option"

definition clamp :: "real \<Rightarrow> real \<Rightarrow> real \<Rightarrow> real" where
  "clamp x lo hi = (if x < lo then lo else if x > hi then hi else x)"

text \<open>\<open>f64::round\<close>: half away from zero.\<close>

definition round_away :: "real \<Rightarrow> int" where
  "round_away x = (if x \<ge> 0 then \<lfloor>x + 1 / 2\<rfloor> else \<lceil>x - 1 / 2\<rceil>)"

definition gov_new :: "nat \<Rightarrow> nat \<Rightarrow> nat \<Rightarrow> governor" where
  "gov_new start mn mx =
     (let lo = real (max mn 1); hi = max (real mx) lo
      in \<lparr>gv_limit = clamp (real start) lo hi, gv_min = lo, gv_max = hi, gv_dir = 1, gv_samples = [], gv_prev = None\<rparr>)"

definition gov_limit :: "governor \<Rightarrow> nat" where
  "gov_limit g = nat (max (round_away (gv_limit g)) 1)"

definition median :: "real list \<Rightarrow> real" where
  "median v = sort v ! (length v div 2)"

text \<open>The decision at the end of a probe.\<close>

definition probe_dir :: "governor \<Rightarrow> real \<Rightarrow> real" where
  "probe_dir g reading =
     (case gv_prev g of
        None \<Rightarrow> gv_dir g
      | Some prev \<Rightarrow>
          let change = (if prev > 0 then (reading - prev) / prev else 1)
          in if change < - NOISE then - gv_dir g else if \<bar>change\<bar> \<le> NOISE then - gv_dir g else gv_dir g)"

definition probe_next :: "governor \<Rightarrow> real" where
  "probe_next g =
     (let next = gv_limit g * (if gv_dir g > 0 then STEP_UP else 1 / STEP_UP);
          next = (if round_away next = round_away (gv_limit g) then gv_limit g + sgn (gv_dir g) else next)
      in clamp next (gv_min g) (gv_max g))"

definition gov_observe :: "real \<Rightarrow> pressure \<Rightarrow> nat \<Rightarrow> nat \<Rightarrow> governor \<Rightarrow> nat \<times> governor" where
  "gov_observe throughput pressure ok errors g =
     (if pressure = ConsumerBound then
        (let g = g\<lparr>gv_prev := None, gv_samples := []\<rparr> in (gov_limit g, g))
      else
        let attempts = ok + errors;
            error_rate = (if attempts \<ge> MIN_RATE_ATTEMPTS then real errors / real attempts else 0)
        in if error_rate > ERROR_RATE_BACKOFF then
             (let g = g\<lparr>gv_limit := clamp (gv_limit g * BACKOFF) (gv_min g) (gv_max g), gv_dir := - 1, gv_prev := None, gv_samples := []\<rparr>
              in (gov_limit g, g))
           else
             let g = g\<lparr>gv_samples := gv_samples g @ [throughput]\<rparr>
             in if length (gv_samples g) < PROBE_EPOCHS then (gov_limit g, g)
                else
                  let reading = median (gv_samples g);
                      g = g\<lparr>gv_samples := [], gv_dir := probe_dir g reading, gv_prev := Some reading\<rparr>;
                      g = g\<lparr>gv_limit := probe_next g\<rparr>
                  in (gov_limit g, g))"

section \<open>Its limits\<close>

text \<open>Bounds are whole numbers and at least one, the direction is up or down.\<close>

definition gov_inv :: "nat \<Rightarrow> nat \<Rightarrow> governor \<Rightarrow> bool" where
  "gov_inv lo hi g \<longleftrightarrow> 1 \<le> lo \<and> lo \<le> hi \<and> gv_min g = real lo \<and> gv_max g = real hi \<and>
     real lo \<le> gv_limit g \<and> gv_limit g \<le> real hi \<and> (gv_dir g = 1 \<or> gv_dir g = - 1) \<and> length (gv_samples g) < PROBE_EPOCHS"

lemma clamp_bounds: "lo \<le> hi \<Longrightarrow> lo \<le> clamp x lo hi \<and> clamp x lo hi \<le> hi"
  by (simp add: clamp_def)

lemma gov_inv_new: "gov_inv (max mn 1) (max mx (max mn 1)) (gov_new start mn mx)"
  using clamp_bounds [of "real (max mn 1)" "max (real mx) (real (max mn 1))" "real start"]
  by (simp add: gov_inv_def gov_new_def Let_def PROBE_EPOCHS_def of_nat_max)

lemma gov_inv_observe:
  assumes "gov_inv lo hi g"
  shows "gov_inv lo hi (snd (gov_observe t p ok err g))"
proof -
  have c: "real lo \<le> clamp x (real lo) (real hi) \<and> clamp x (real lo) (real hi) \<le> real hi" for x
    by (rule clamp_bounds) (use assms in \<open>simp add: gov_inv_def\<close>)
  show ?thesis using assms c
    by (auto simp: gov_inv_def gov_observe_def probe_next_def probe_dir_def Let_def PROBE_EPOCHS_def split: option.split)
qed

lemma round_away_bounds: "real lo \<le> x \<Longrightarrow> x \<le> real hi \<Longrightarrow> int lo \<le> round_away x \<and> round_away x \<le> int hi"
  by (auto simp: round_away_def le_floor_iff floor_le_iff)

lemma gov_limit_bounds: "gov_inv lo hi g \<Longrightarrow> lo \<le> gov_limit g \<and> gov_limit g \<le> hi"
  using round_away_bounds [of lo "gv_limit g" hi] by (auto simp: gov_inv_def gov_limit_def)

lemma gov_observe_limit: "fst (gov_observe t p ok err g) = gov_limit (snd (gov_observe t p ok err g))"
  by (simp add: gov_observe_def Let_def)

text \<open>A probe moves the rounded limit, unless it runs into a bound.\<close>

lemma round_away_shift: "0 \<le> x \<Longrightarrow> 0 \<le> x + of_int k \<Longrightarrow> round_away (x + of_int k) = round_away x + k"
proof -
  have "x + of_int k + 1 / 2 = (x + 1 / 2) + of_int k" by simp
  then have "\<lfloor>x + of_int k + 1 / 2\<rfloor> = \<lfloor>x + 1 / 2\<rfloor> + k" by (metis floor_add_int)
  then show "0 \<le> x \<Longrightarrow> 0 \<le> x + of_int k \<Longrightarrow> round_away (x + of_int k) = round_away x + k" by (simp add: round_away_def)
qed

lemma probe_moves:
  assumes "gov_inv lo hi g"
  shows "round_away (probe_next g) \<noteq> round_away (gv_limit g) \<or> probe_next g = gv_min g \<or> probe_next g = gv_max g"
proof -
  have b: "1 \<le> gv_limit g" "gv_dir g = 1 \<or> gv_dir g = - 1" using assms by (auto simp: gov_inv_def)
  let ?n = "gv_limit g * (if gv_dir g > 0 then STEP_UP else 1 / STEP_UP)"
  have one: "round_away (gv_limit g + sgn (gv_dir g)) \<noteq> round_away (gv_limit g)"
    using b round_away_shift [of "gv_limit g" 1] round_away_shift [of "gv_limit g" "- 1"] by auto
  show ?thesis using one by (auto simp: probe_next_def clamp_def Let_def)
qed

section \<open>The stream budget of a peer\<close>

definition EPOCH :: nat where "EPOCH = 1000000000"

record epoch =
  ep_started :: nat
  ep_bytes :: nat
  ep_ok :: nat
  ep_err :: nat
  ep_blocked :: bool

record peer_limit =
  lm_inflight :: nat
  lm_limit :: nat
  lm_governor :: governor
  lm_epoch :: epoch

definition epoch_new :: "nat \<Rightarrow> epoch" where
  "epoch_new now = \<lparr>ep_started = now, ep_bytes = 0, ep_ok = 0, ep_err = 0, ep_blocked = False\<rparr>"

definition limit_new :: "nat \<Rightarrow> nat \<Rightarrow> peer_limit" where
  "limit_new now mx =
     (let start = min 2 mx
      in \<lparr>lm_inflight = 0, lm_limit = start, lm_governor = gov_new start 1 mx, lm_epoch = epoch_new now\<rparr>)"

definition try_acquire :: "peer_limit \<Rightarrow> bool \<times> peer_limit" where
  "try_acquire l = (if lm_inflight l < lm_limit l then (True, l\<lparr>lm_inflight := lm_inflight l + 1\<rparr>) else (False, l))"

definition limit_release :: "peer_limit \<Rightarrow> peer_limit" where
  "limit_release l = l\<lparr>lm_inflight := lm_inflight l - 1\<rparr>"

definition has_idle_capacity :: "peer_limit \<Rightarrow> bool" where
  "has_idle_capacity l \<longleftrightarrow> lm_inflight l < lm_limit l"

definition limit_snapshot :: "peer_limit \<Rightarrow> nat \<times> nat" where
  "limit_snapshot l = (lm_inflight l, lm_limit l)"

definition limit_observe :: "nat \<Rightarrow> bool \<Rightarrow> nat \<Rightarrow> peer_limit \<Rightarrow> peer_limit" where
  "limit_observe now ok bytes l =
     (let e = lm_epoch l;
          e = (if ok then e\<lparr>ep_ok := add64 (ep_ok e) 1, ep_bytes := add64 (ep_bytes e) bytes\<rparr> else e\<lparr>ep_err := add64 (ep_err e) 1\<rparr>)
      in if now - ep_started e \<ge> EPOCH then
           (let throughput = real (ep_bytes e) / (real (now - ep_started e) / 10 ^ 9);
                pressure = (if ep_blocked e \<and> ep_bytes e = 0 then ConsumerBound else Network);
                (new_limit, g) = gov_observe throughput pressure (ep_ok e) (ep_err e) (lm_governor l)
            in l\<lparr>lm_epoch := epoch_new now, lm_governor := g, lm_limit := new_limit\<rparr>)
         else l\<lparr>lm_epoch := e\<rparr>)"

definition note_blocked :: "peer_limit \<Rightarrow> peer_limit" where
  "note_blocked l = l\<lparr>lm_epoch := (lm_epoch l)\<lparr>ep_blocked := True\<rparr>\<rparr>"

text \<open>The budget is between one and the configured number of connections.\<close>

definition limit_inv :: "nat \<Rightarrow> peer_limit \<Rightarrow> bool" where
  "limit_inv mx l \<longleftrightarrow> 1 \<le> lm_limit l \<and> lm_limit l \<le> mx \<and> gov_inv 1 mx (lm_governor l)"

lemma limit_inv_new: "1 \<le> mx \<Longrightarrow> limit_inv mx (limit_new now mx)"
  using gov_inv_new [of 1 mx "min 2 mx"] by (simp add: limit_inv_def limit_new_def Let_def max_def split: if_splits)

text \<open>What the observation does to the limit: it leaves it, or it takes the governor's.\<close>

lemma limit_observe_cases:
  obtains "lm_limit (limit_observe now ok bytes l) = lm_limit l" "lm_governor (limit_observe now ok bytes l) = lm_governor l"
  | t p a b where "lm_limit (limit_observe now ok bytes l) = fst (gov_observe t p a b (lm_governor l))"
      "lm_governor (limit_observe now ok bytes l) = snd (gov_observe t p a b (lm_governor l))"
proof -
  define e where "e = (let e = lm_epoch l in if ok then e\<lparr>ep_ok := add64 (ep_ok e) 1, ep_bytes := add64 (ep_bytes e) bytes\<rparr>
      else e\<lparr>ep_err := add64 (ep_err e) 1\<rparr>)"
  define t where "t = real (ep_bytes e) / (real (now - ep_started e) / 10 ^ 9)"
  define p where "p = (if ep_blocked e \<and> ep_bytes e = 0 then ConsumerBound else Network)"
  have *: "limit_observe now ok bytes l = (if now - ep_started e \<ge> EPOCH then
      (let (n, g) = gov_observe t p (ep_ok e) (ep_err e) (lm_governor l) in l\<lparr>lm_epoch := epoch_new now, lm_governor := g, lm_limit := n\<rparr>)
      else l\<lparr>lm_epoch := e\<rparr>)"
    unfolding limit_observe_def e_def t_def p_def Let_def by (rule refl)
  show ?thesis
  proof (cases "now - ep_started e \<ge> EPOCH")
    case True
    then show ?thesis using that(2) [of t p "ep_ok e" "ep_err e"] * by (simp add: case_prod_beta)
  next
    case False
    then show ?thesis using that(1) * by simp
  qed
qed

lemma limit_inv_observe:
  assumes "limit_inv mx l"
  shows "limit_inv mx (limit_observe now ok bytes l)"
proof -
  have g: "gov_inv 1 mx (lm_governor l)" using assms by (simp add: limit_inv_def)
  have b: "1 \<le> fst (gov_observe t p a b (lm_governor l)) \<and> fst (gov_observe t p a b (lm_governor l)) \<le> mx \<and>
      gov_inv 1 mx (snd (gov_observe t p a b (lm_governor l)))" for t p a b
    using gov_limit_bounds [OF gov_inv_observe [OF g]] gov_inv_observe [OF g] by (simp add: gov_observe_limit)
  show ?thesis
    by (rule limit_observe_cases [where now = now and ok = ok and bytes = bytes and l = l])
      (use assms b in \<open>simp_all add: limit_inv_def\<close>)
qed

lemma limit_inv_rest:
  "limit_inv mx l \<Longrightarrow> limit_inv mx (snd (try_acquire l))" "limit_inv mx l \<Longrightarrow> limit_inv mx (limit_release l)"
  "limit_inv mx l \<Longrightarrow> limit_inv mx (note_blocked l)"
  by (simp_all add: limit_inv_def try_acquire_def limit_release_def note_blocked_def)


section \<open>The budget under every schedule\<close>

text \<open>What the transfers do to the budget of a peer, in any order.\<close>

datatype limit_op = Acquire | Release | Observe nat bool nat | Blocked

fun limit_step :: "limit_op \<Rightarrow> peer_limit \<Rightarrow> peer_limit" where
  "limit_step Acquire l = snd (try_acquire l)"
| "limit_step Release l = limit_release l"
| "limit_step (Observe now ok bytes) l = limit_observe now ok bytes l"
| "limit_step Blocked l = note_blocked l"

lemma limit_run_inv: "limit_inv mx l \<Longrightarrow> limit_inv mx (fold limit_step ops l)"
proof (induction ops arbitrary: l)
  case (Cons x ops)
  have "limit_inv mx (limit_step x l)" using Cons.prems by (cases x) (simp_all add: limit_inv_rest limit_inv_observe)
  then show ?case using Cons.IH by simp
qed simp

text \<open>The epochs a probe takes: the last of them moves the limit.\<close>

lemma gov_observe_probe:
  assumes "Suc (length (gv_samples g)) = PROBE_EPOCHS" and "ok + errors < MIN_RATE_ATTEMPTS \<or> 4 * errors \<le> ok + errors"
  obtains g0 where "snd (gov_observe t Network ok errors g) = g0\<lparr>gv_limit := probe_next g0\<rparr>"
    and "gv_limit g0 = gv_limit g" and "gv_min g0 = gv_min g" and "gv_max g0 = gv_max g" and "gv_dir g0 = gv_dir g \<or> gv_dir g0 = - gv_dir g"
    and "length (gv_samples g0) = 0"
proof -
  define g0 where "g0 = (let g' = g\<lparr>gv_samples := gv_samples g @ [t]\<rparr>; r = median (gv_samples g')
      in g'\<lparr>gv_samples := [], gv_dir := probe_dir g' r, gv_prev := Some r\<rparr>)"
  have rate: "\<not> (if ok + errors \<ge> MIN_RATE_ATTEMPTS then real errors / real (ok + errors) else 0) > ERROR_RATE_BACKOFF"
  proof (cases "ok + errors \<ge> MIN_RATE_ATTEMPTS")
    case True
    have "4 * errors \<le> ok + errors" using assms(2) True by simp
    then have "4 * real errors \<le> real (ok + errors)" by (metis of_nat_le_iff of_nat_mult of_nat_numeral)
    moreover have "real (ok + errors) > 0" using True by (simp add: MIN_RATE_ATTEMPTS_def)
    ultimately show ?thesis by (simp add: ERROR_RATE_BACKOFF_def divide_le_eq)
  qed (simp add: ERROR_RATE_BACKOFF_def)
  have "snd (gov_observe t Network ok errors g) = g0\<lparr>gv_limit := probe_next g0\<rparr>"
    using assms(1) rate unfolding gov_observe_def g0_def Let_def by (simp del: of_nat_add)
  then show ?thesis using that [of g0] by (simp add: g0_def Let_def probe_dir_def split: option.split)
qed

lemma probe_moves_limit:
  assumes g: "gov_inv lo hi g" and s: "Suc (length (gv_samples g)) = PROBE_EPOCHS"
    and rate: "ok + errors < MIN_RATE_ATTEMPTS \<or> 4 * errors \<le> ok + errors"
  shows "gov_limit (snd (gov_observe t Network ok errors g)) \<noteq> gov_limit g \<or> gov_limit (snd (gov_observe t Network ok errors g)) \<in> {lo, hi}"
proof -
  obtain g0 where g0: "snd (gov_observe t Network ok errors g) = g0\<lparr>gv_limit := probe_next g0\<rparr>"
    "gv_limit g0 = gv_limit g" "gv_min g0 = gv_min g" "gv_max g0 = gv_max g" "gv_dir g0 = gv_dir g \<or> gv_dir g0 = - gv_dir g" "length (gv_samples g0) = 0"
    using gov_observe_probe [OF s rate] by metis
  have i: "gov_inv lo hi g0" using g g0 by (auto simp: gov_inv_def PROBE_EPOCHS_def)
  have i': "gov_inv lo hi (g0\<lparr>gv_limit := probe_next g0\<rparr>)" using gov_inv_observe [OF g, of t Network ok errors] g0(1) by simp
  have lo: "1 \<le> round_away (gv_limit g)" "1 \<le> round_away (probe_next g0)"
    using round_away_bounds [of lo "gv_limit g" hi] round_away_bounds [of lo "probe_next g0" hi] g i' by (auto simp: gov_inv_def)
  show ?thesis
  proof (cases "round_away (probe_next g0) = round_away (gv_limit g0)")
    case False
    then have "nat (round_away (probe_next g0)) \<noteq> nat (round_away (gv_limit g))" using lo by (simp add: g0(2))
    then show ?thesis using lo by (simp add: g0(1) gov_limit_def)
  next
    case True
    then have "probe_next g0 = real lo \<or> probe_next g0 = real hi" using probe_moves [OF i] i by (auto simp: gov_inv_def)
    then have "round_away (probe_next g0) = int lo \<or> round_away (probe_next g0) = int hi"
      by (auto simp: round_away_def) 
    then show ?thesis using lo(2) by (auto simp: g0(1) gov_limit_def)
  qed
qed

text \<open>
  C40: The number of streams allowed to a peer stays between one and the configured maximum,
  whatever sequence of acquisitions, releases, completions, failures and blocked epochs drives
  it; and the epoch that completes a probe moves the limit, or leaves it at a bound, so that the
  climb cannot get stuck at one stream.
\<close>

theorem stream_budget_is_bounded_and_live:
  assumes "1 \<le> mx"
  shows "1 \<le> lm_limit (fold limit_step ops (limit_new t0 mx)) \<and> lm_limit (fold limit_step ops (limit_new t0 mx)) \<le> mx \<and>
    (\<forall>t ok errors. let g = lm_governor (fold limit_step ops (limit_new t0 mx)); n = fst (gov_observe t Network ok errors g) in
       Suc (length (gv_samples g)) = PROBE_EPOCHS \<and> 4 * errors \<le> ok + errors \<longrightarrow> n \<noteq> gov_limit g \<or> n = 1 \<or> n = mx)"
proof -
  have i: "limit_inv mx (fold limit_step ops (limit_new t0 mx))" by (rule limit_run_inv [OF limit_inv_new [OF assms]])
  then have g: "gov_inv 1 mx (lm_governor (fold limit_step ops (limit_new t0 mx)))" by (simp add: limit_inv_def)
  show ?thesis using i probe_moves_limit [OF g] by (auto simp: limit_inv_def Let_def gov_observe_limit)
qed

theorem stream_budget_is_bounded_and_live_witness:
  "lm_limit (fold limit_step [Acquire, Observe 2000000000 True 5, Release] (limit_new 0 4)) \<le> (4::nat)"
  using stream_budget_is_bounded_and_live [of 4 "[Acquire, Observe 2000000000 True 5, Release]" 0] by simp

end
