(* ===== verification/Transfer_Plan.thy ===== *)
theory Transfer_Plan
  imports Dedup Manifest Narinfo
begin

text \<open>
  The execution plan of a transfer (\<open>fallback_plan\<close> and \<open>manifest_plan\<close> of \<open>src/fetch.rs\<close>):
  which spans of the archive are literal, fetched or replayed, and the ranges the fetcher
  carves. The contract of a plan is stated through \<open>ideal\<close>: the bytes every span delivers
  when position \<open>i\<close> of the archive was fetched as the byte \<open>V i\<close>.
\<close>

section \<open>Plans\<close>

definition RANGE_MERGE_GAP :: nat where
  "RANGE_MERGE_GAP = 65536"

text \<open>\<open>XFetch\<close> carries the identity and the number of replays when the span is retained.\<close>

datatype span_exec = XLit nat nat | XFetch nat "(nat \<times> nat) option" | XReplay nat nat

record xplan =
  xp_spans :: "(nat \<times> span_exec) list"
  xp_lits :: bytes
  xp_ranges :: "(nat \<times> nat) list"

definition fallback_plan :: "nat \<Rightarrow> nat \<Rightarrow> xplan" where
  "fallback_plan start fin =
     \<lparr>xp_spans = [(start, XFetch (fin - start) None)], xp_lits = [], xp_ranges = [(start, fin - start)]\<rparr>"

datatype plan_err = HashDisagrees | BadLayout synth_err | SizeDisagrees nat nat | SegmentTooBig nat nat | HashTwoLengths | StepsShort

text \<open>The scan of the segments: keys and sizes in archive order, under the two guards.\<close>

fun seg_keys :: "nat \<Rightarrow> span list \<Rightarrow> (bytes \<rightharpoonup> nat) \<Rightarrow> bytes list \<times> nat list \<Rightarrow> plan_err + bytes list \<times> nat list" where
  "seg_keys window [] lens (keys, sizes) = Inr (keys, sizes)"
| "seg_keys window (s # ss) lens (keys, sizes) =
     (case sn_kind s of
        SpanLit _ \<Rightarrow> seg_keys window ss lens (keys, sizes)
      | SpanSegment h \<Rightarrow>
          if sn_len s > window then Inl (SegmentTooBig (sn_len s) window)
          else (case lens h of
              Some prev \<Rightarrow>
                if prev \<noteq> sn_len s then Inl HashTwoLengths
                else seg_keys window ss lens (keys @ [h], sizes @ [sn_len s])
            | None \<Rightarrow> seg_keys window ss (lens(h \<mapsto> sn_len s)) (keys @ [h], sizes @ [sn_len s])))"

text \<open>Coalescing adjacent fetch ranges over small gaps.\<close>

definition add_range :: "nat \<Rightarrow> nat \<Rightarrow> (nat \<times> nat) list \<Rightarrow> (nat \<times> nat) list" where
  "add_range off len rs =
     (case rs of
        [] \<Rightarrow> [(off, len)]
      | _ \<Rightarrow>
          (case last rs of (o', l) \<Rightarrow>
             if off \<ge> o' + l \<and> off - (o' + l) \<le> RANGE_MERGE_GAP then butlast rs @ [(o', off + len - o')]
             else rs @ [(off, len)]))"

text \<open>The second pass, with the steps still to be used; running out of them would panic.\<close>

fun exec_spans :: "span list \<Rightarrow> step list \<Rightarrow> (nat \<times> span_exec) list \<Rightarrow> (nat \<times> nat) list \<Rightarrow>
    plan_err + (nat \<times> span_exec) list \<times> (nat \<times> nat) list" where
  "exec_spans [] steps spans ranges = Inr (spans, ranges)"
| "exec_spans (s # ss) steps spans ranges =
     (case sn_kind s of
        SpanLit lo \<Rightarrow> exec_spans ss steps (spans @ [(sn_off s, XLit lo (sn_len s))]) ranges
      | SpanSegment _ \<Rightarrow>
          (case steps of
             [] \<Rightarrow> Inl StepsShort
           | Fetch u retain_for # steps \<Rightarrow>
               exec_spans ss steps (spans @ [(sn_off s, XFetch (sn_len s) (if retain_for > 0 then Some (u, retain_for) else None))])
                 (add_range (sn_off s) (sn_len s) ranges)
           | Cached u # steps \<Rightarrow> exec_spans ss steps (spans @ [(sn_off s, XReplay u (sn_len s))]) ranges))"

definition manifest_plan :: "manifest \<Rightarrow> remote_narinfo \<Rightarrow> nat \<Rightarrow> nat \<Rightarrow> plan_err + xplan" where
  "manifest_plan m info budget window =
     (if mf_nar_hash m \<noteq> ''sha256:'' @ encode (ri_nar_hash info) then Inl HashDisagrees
      else case synth_layout m of
          Inl e \<Rightarrow> Inl (BadLayout e)
        | Inr layout \<Rightarrow>
            if ly_nar_size layout \<noteq> ri_nar_size info then Inl (SizeDisagrees (ly_nar_size layout) (ri_nar_size info))
            else bindr (seg_keys window (ly_spans layout) Map.empty ([], [])) (\<lambda>(keys, sizes).
              bindr (exec_spans (ly_spans layout) (plan keys sizes budget) [] []) (\<lambda>(spans, ranges).
                Inr \<lparr>xp_spans = spans, xp_lits = ly_lits layout, xp_ranges = ranges\<rparr>)))"

section \<open>What a plan delivers\<close>

type_synonym held = "nat \<rightharpoonup> bytes \<times> nat"

definition fetched_bytes :: "(nat \<Rightarrow> u8) \<Rightarrow> nat \<Rightarrow> nat \<Rightarrow> bytes" where
  "fetched_bytes V off len = map V [off..<off + len]"

lemma length_fetched_bytes [simp]: "length (fetched_bytes V off len) = len"
  by (simp add: fetched_bytes_def)

fun span_len :: "span_exec \<Rightarrow> nat" where
  "span_len (XLit _ n) = n"
| "span_len (XFetch n _) = n"
| "span_len (XReplay _ n) = n"

text \<open>One span: its bytes and the copies held after it; None where a replay finds no copy of its length.\<close>

fun ideal_span :: "(nat \<Rightarrow> u8) \<Rightarrow> bytes \<Rightarrow> nat \<times> span_exec \<Rightarrow> held \<Rightarrow> (bytes \<times> held) option" where
  "ideal_span V lits (off, XLit lo n) H = Some (take n (drop lo lits), H)"
| "ideal_span V lits (off, XFetch n retain) H =
     (let bs = fetched_bytes V off n in Some (bs, case retain of None \<Rightarrow> H | Some (u, c) \<Rightarrow> H(u \<mapsto> (bs, c))))"
| "ideal_span V lits (off, XReplay u n) H =
     (case H u of
        None \<Rightarrow> None
      | Some (bs, c) \<Rightarrow> if length bs \<noteq> n then None else Some (bs, if c \<le> 1 then H(u := None) else H(u \<mapsto> (bs, c - 1))))"

fun ideal :: "(nat \<Rightarrow> u8) \<Rightarrow> bytes \<Rightarrow> (nat \<times> span_exec) list \<Rightarrow> held \<Rightarrow> bytes list option" where
  "ideal V lits [] H = Some []"
| "ideal V lits (s # ss) H =
     (case ideal_span V lits s H of None \<Rightarrow> None | Some (bs, H') \<Rightarrow> map_option (Cons bs) (ideal V lits ss H'))"

text \<open>The ranges: in order, disjoint, not empty, within the archive, and covering what is fetched.\<close>

definition ranges_ok :: "nat \<Rightarrow> nat \<Rightarrow> (nat \<times> nat) list \<Rightarrow> bool" where
  "ranges_ok lo hi rs \<longleftrightarrow> sorted_wrt (\<lambda>x y. fst x + snd x \<le> fst y) rs \<and> (\<forall>(o', l)\<in>set rs. lo \<le> o' \<and> 0 < l \<and> o' + l \<le> hi)"

definition in_ranges :: "(nat \<times> nat) list \<Rightarrow> nat \<Rightarrow> bool" where
  "in_ranges rs i \<longleftrightarrow> (\<exists>(o', l)\<in>set rs. o' \<le> i \<and> i < o' + l)"

definition fetches :: "(nat \<times> span_exec) list \<Rightarrow> nat \<Rightarrow> bool" where
  "fetches spans i \<longleftrightarrow> (\<exists>off n r. (off, XFetch n r) \<in> set spans \<and> off \<le> i \<and> i < off + n)"

text \<open>A plan for \<open>[start, fin)\<close> with retained spans no longer than the window.\<close>

definition plan_ok :: "nat \<Rightarrow> nat \<Rightarrow> nat \<Rightarrow> xplan \<Rightarrow> bool" where
  "plan_ok window start fin P \<longleftrightarrow> contig fst (span_len \<circ> snd) start (xp_spans P) fin \<and>
     ranges_ok start fin (xp_ranges P) \<and> (\<forall>i. fetches (xp_spans P) i \<longrightarrow> in_ranges (xp_ranges P) i) \<and>
     (\<forall>off n u c. (off, XFetch n (Some (u, c))) \<in> set (xp_spans P) \<longrightarrow> 0 < n \<and> n \<le> window \<and> 0 < c) \<and>
     (\<forall>off lo n. (off, XLit lo n) \<in> set (xp_spans P) \<longrightarrow> lo + n \<le> length (xp_lits P)) \<and>
     (\<forall>V. \<exists>ps. ideal V (xp_lits P) (xp_spans P) Map.empty = Some ps)"

section \<open>The fallback\<close>

lemma fallback_plan_ok: "start < fin \<Longrightarrow> plan_ok window start fin (fallback_plan start fin)"
  by (auto simp: plan_ok_def fallback_plan_def ranges_ok_def in_ranges_def fetches_def)

lemma fallback_ideal: "ideal V (xp_lits (fallback_plan start fin)) (xp_spans (fallback_plan start fin)) Map.empty = Some [fetched_bytes V start (fin - start)]"
  by (simp add: fallback_plan_def)

section \<open>Manifest plans\<close>

text \<open>The guards: one length per hash, none above the window.\<close>

definition seg_hashes :: "span list \<Rightarrow> bytes list" where
  "seg_hashes spans = concat (map (\<lambda>s. case sn_kind s of SpanLit _ \<Rightarrow> [] | SpanSegment h \<Rightarrow> [h]) spans)"

definition seg_lens :: "span list \<Rightarrow> nat list" where
  "seg_lens spans = concat (map (\<lambda>s. case sn_kind s of SpanLit _ \<Rightarrow> [] | SpanSegment h \<Rightarrow> [sn_len s]) spans)"

lemma seg_keys_ok:
  assumes "seg_keys window ss lens (keys, sizes) = Inr (ks, zs)"
  shows "ks = keys @ seg_hashes ss \<and> zs = sizes @ seg_lens ss \<and>
     (\<exists>sz. (\<forall>h n. lens h = Some n \<longrightarrow> sz h = n) \<and> (\<forall>s\<in>set ss. \<forall>h. sn_kind s = SpanSegment h \<longrightarrow> sn_len s = sz h \<and> sn_len s \<le> window))"
  using assms
proof (induction window ss lens "(keys, sizes)" arbitrary: keys sizes rule: seg_keys.induct)
  case (1 window lens keys sizes)
  have "\<exists>sz. \<forall>h n. lens h = Some n \<longrightarrow> sz h = n" by (rule exI [of _ "\<lambda>h. the (lens h)"]) simp
  then show ?case using 1 by (simp add: seg_hashes_def seg_lens_def)
next
  case (2 window s ss lens keys sizes)
  show ?case
  proof (cases "sn_kind s")
    case (SpanLit lo)
    then show ?thesis using 2 by (simp add: seg_hashes_def seg_lens_def)
  next
    case (SpanSegment h)
    have w: "sn_len s \<le> window" using 2(4) SpanSegment by (auto split: if_splits)
    show ?thesis
    proof (cases "lens h")
      case None
      have r: "seg_keys window ss (lens(h \<mapsto> sn_len s)) (keys @ [h], sizes @ [sn_len s]) = Inr (ks, zs)"
        using 2(4) SpanSegment None by (auto split: if_splits)
      from "2.hyps"(2) [OF SpanSegment _ None r] w
      obtain sz where sz: "ks = (keys @ [h]) @ seg_hashes ss" "zs = (sizes @ [sn_len s]) @ seg_lens ss"
        "\<forall>h' n. (lens(h \<mapsto> sn_len s)) h' = Some n \<longrightarrow> sz h' = n"
        "\<forall>s\<in>set ss. \<forall>h. sn_kind s = SpanSegment h \<longrightarrow> sn_len s = sz h \<and> sn_len s \<le> window" by auto
      have "\<forall>h' n. lens h' = Some n \<longrightarrow> sz h' = n" using sz(3) None by (metis fun_upd_other option.distinct(1))
      moreover have "sz h = sn_len s" using sz(3) by simp
      ultimately have "\<exists>sz. (\<forall>h n. lens h = Some n \<longrightarrow> sz h = n) \<and> (\<forall>s\<in>set (s # ss). \<forall>h. sn_kind s = SpanSegment h \<longrightarrow> sn_len s = sz h \<and> sn_len s \<le> window)"
        using sz(4) SpanSegment w by (intro exI [of _ sz]) auto
      then show ?thesis using sz(1,2) SpanSegment by (simp add: seg_hashes_def seg_lens_def)
    next
      case (Some prev)
      have r: "seg_keys window ss lens (keys @ [h], sizes @ [sn_len s]) = Inr (ks, zs)" "prev = sn_len s"
        using 2(4) SpanSegment Some by (auto split: if_splits)
      from "2.hyps"(3) [OF SpanSegment _ Some _ r(1)] w r(2)
      obtain sz where sz: "ks = (keys @ [h]) @ seg_hashes ss" "zs = (sizes @ [sn_len s]) @ seg_lens ss"
        "\<forall>h' n. lens h' = Some n \<longrightarrow> sz h' = n"
        "\<forall>s\<in>set ss. \<forall>h. sn_kind s = SpanSegment h \<longrightarrow> sn_len s = sz h \<and> sn_len s \<le> window" by auto
      have "\<exists>sz. (\<forall>h n. lens h = Some n \<longrightarrow> sz h = n) \<and> (\<forall>s\<in>set (s # ss). \<forall>h. sn_kind s = SpanSegment h \<longrightarrow> sn_len s = sz h \<and> sn_len s \<le> window)"
        using sz(3,4) SpanSegment w Some r(2) by (intro exI [of _ sz]) auto
      then show ?thesis using sz(1,2) SpanSegment by (simp add: seg_hashes_def seg_lens_def)
    qed
  qed
qed

text \<open>Executing the retention plan on the spans. \<open>B h bs\<close> is what is known of bytes fetched for the hash \<open>h\<close>.\<close>

definition copy_rel :: "(bytes \<Rightarrow> nat) \<Rightarrow> (bytes \<Rightarrow> bytes \<Rightarrow> bool) \<Rightarrow> (bytes \<times> nat) option \<Rightarrow> (bytes \<times> nat) option \<Rightarrow> bool" where
  "copy_rel sz B x y \<longleftrightarrow>
     (case x of None \<Rightarrow> y = None | Some (k, r) \<Rightarrow> \<exists>bs. y = Some (bs, r) \<and> 0 < r \<and> length bs = sz k \<and> B k bs)"

definition copies_rel :: "(bytes \<Rightarrow> nat) \<Rightarrow> (bytes \<Rightarrow> bytes \<Rightarrow> bool) \<Rightarrow> bytes retained \<Rightarrow> held \<Rightarrow> bool" where
  "copies_rel sz B R H \<longleftrightarrow> (\<forall>u. copy_rel sz B (R u) (H u))"

lemma copies_rel_empty: "copies_rel sz B Map.empty Map.empty"
  by (simp add: copies_rel_def copy_rel_def)

lemma copies_rel_upd:
  assumes "copies_rel sz B R H" and "length bs = sz k" and "B k bs" and "0 < r"
  shows "copies_rel sz B (R(u \<mapsto> (k, r))) (H(u \<mapsto> (bs, r)))"
proof -
  have "copy_rel sz B (Some (k, r)) (Some (bs, r))" using assms(2-) by (simp add: copy_rel_def)
  then show ?thesis using assms(1) by (simp add: copies_rel_def)
qed

lemma copies_rel_del: "copies_rel sz B R H \<Longrightarrow> copies_rel sz B (R(u := None)) (H(u := None))"
  by (simp add: copies_rel_def) (simp add: copy_rel_def)

lemma copies_relD:
  assumes "copies_rel sz B R H" and "R u = Some (k, r)"
  shows "\<exists>bs. H u = Some (bs, r) \<and> 0 < r \<and> length bs = sz k \<and> B k bs"
proof -
  have "copy_rel sz B (R u) (H u)" using assms(1) by (simp add: copies_rel_def)
  then show ?thesis using assms(2) by (simp add: copy_rel_def)
qed

definition delivers :: "bytes \<Rightarrow> (bytes \<Rightarrow> bytes \<Rightarrow> bool) \<Rightarrow> bytes \<Rightarrow> span \<Rightarrow> bool" where
  "delivers lits B p s \<longleftrightarrow>
     (case sn_kind s of SpanLit lo \<Rightarrow> p = take (sn_len s) (drop lo lits) | SpanSegment h \<Rightarrow> length p = sn_len s \<and> B h p)"

lemma exec_spans_ideal:
  assumes "execute_all steps (seg_hashes ss) R = Some tr" and "map fst tr = seg_hashes ss" and "copies_rel sz B R H"
    and "\<And>s h. s \<in> set ss \<Longrightarrow> sn_kind s = SpanSegment h \<Longrightarrow> sn_len s = sz h \<and> B h (fetched_bytes V (sn_off s) (sn_len s))"
  shows "\<exists>new rs'. exec_spans ss steps acc rs = Inr (acc @ new, rs') \<and>
     map (\<lambda>(off, x). (off, span_len x)) new = map (\<lambda>s. (sn_off s, sn_len s)) ss \<and>
     (\<exists>ps. ideal V lits new H = Some ps \<and> list_all2 (delivers lits B) ps ss)"
  using assms
proof (induction ss arbitrary: steps R tr H acc rs)
  case (Cons s ss)
  have rest: "sn_len s' = sz h \<and> B h (fetched_bytes V (sn_off s') (sn_len s'))" if "s' \<in> set ss" "sn_kind s' = SpanSegment h" for s' h
    by (rule Cons.prems(4)) (use that in simp_all)
  show ?case
  proof (cases "sn_kind s")
    case (SpanLit lo)
    then have h: "seg_hashes (s # ss) = seg_hashes ss" by (simp add: seg_hashes_def)
    from Cons.IH [OF Cons.prems(1) [unfolded h] Cons.prems(2) [unfolded h] Cons.prems(3) rest, of "acc @ [(sn_off s, XLit lo (sn_len s))]" rs]
    obtain new rs' ps where "exec_spans ss steps (acc @ [(sn_off s, XLit lo (sn_len s))]) rs = Inr ((acc @ [(sn_off s, XLit lo (sn_len s))]) @ new, rs')"
      "map (\<lambda>(off, x). (off, span_len x)) new = map (\<lambda>s. (sn_off s, sn_len s)) ss" "ideal V lits new H = Some ps" "list_all2 (delivers lits B) ps ss"
      by blast
    moreover have "delivers lits B (take (sn_len s) (drop lo lits)) s" using SpanLit by (simp add: delivers_def)
    ultimately show ?thesis using SpanLit by (intro exI [of _ "(sn_off s, XLit lo (sn_len s)) # new"]) simp
  next
    case (SpanSegment k)
    then have h: "seg_hashes (s # ss) = k # seg_hashes ss" by (simp add: seg_hashes_def)
    have len: "sn_len s = sz k" "B k (fetched_bytes V (sn_off s) (sn_len s))" using Cons.prems(4) [OF list.set_intros(1) SpanSegment] by blast+
    obtain st steps' where st: "steps = st # steps'" using Cons.prems(1) h by (cases steps) auto
    obtain d R' tr' where e: "execute st k R = Some (d, R')" "execute_all steps' (seg_hashes ss) R' = Some tr'" "tr = (d, R') # tr'"
      using Cons.prems(1) by (auto simp: st h split: option.splits)
    have tr: "d = k" "map fst tr' = seg_hashes ss" using Cons.prems(2) e(3) h by simp_all
    show ?thesis
    proof (cases st)
      case (Fetch u c)
      let ?x = "XFetch (sn_len s) (if c > 0 then Some (u, c) else None)" and ?bs = "fetched_bytes V (sn_off s) (sn_len s)"
      let ?H = "if c > 0 then H(u \<mapsto> (?bs, c)) else H"
      have "R' = (if c > 0 then R(u \<mapsto> (k, c)) else R)" using e(1) Fetch by simp
      then have "copies_rel sz B R' ?H" using Cons.prems(3) len by (simp add: copies_rel_upd)
      from Cons.IH [OF e(2) tr(2) this rest, of "acc @ [(sn_off s, ?x)]" "add_range (sn_off s) (sn_len s) rs"]
      obtain new rs' ps where "exec_spans ss steps' (acc @ [(sn_off s, ?x)]) (add_range (sn_off s) (sn_len s) rs) = Inr ((acc @ [(sn_off s, ?x)]) @ new, rs')"
        "map (\<lambda>(off, x). (off, span_len x)) new = map (\<lambda>s. (sn_off s, sn_len s)) ss" "ideal V lits new ?H = Some ps" "list_all2 (delivers lits B) ps ss"
        by blast
      moreover have "delivers lits B ?bs s" using SpanSegment len by (simp add: delivers_def)
      ultimately show ?thesis using SpanSegment Fetch st by (intro exI [of _ "(sn_off s, ?x) # new"]) (cases "c > 0"; simp add: Let_def)
    next
      case (Cached u)
      obtain r where R: "R u = Some (k, r)" "R' = (if r \<le> 1 then R(u := None) else R(u \<mapsto> (k, r - 1)))"
        using e(1) Cached tr(1) by (auto split: option.splits)
      obtain bs where bs: "H u = Some (bs, r)" "0 < r" "length bs = sz k" "B k bs" using copies_relD [OF Cons.prems(3) R(1)] by blast
      let ?x = "XReplay u (sn_len s)" and ?H = "if r \<le> 1 then H(u := None) else H(u \<mapsto> (bs, r - 1))"
      have "copies_rel sz B R' ?H" using Cons.prems(3) bs by (simp add: R(2) copies_rel_upd copies_rel_del)
      from Cons.IH [OF e(2) tr(2) this rest, of "acc @ [(sn_off s, ?x)]" rs]
      obtain new rs' ps where "exec_spans ss steps' (acc @ [(sn_off s, ?x)]) rs = Inr ((acc @ [(sn_off s, ?x)]) @ new, rs')"
        "map (\<lambda>(off, x). (off, span_len x)) new = map (\<lambda>s. (sn_off s, sn_len s)) ss" "ideal V lits new ?H = Some ps" "list_all2 (delivers lits B) ps ss"
        by blast
      moreover have "delivers lits B bs s" using SpanSegment len bs by (simp add: delivers_def)
      ultimately show ?thesis using SpanSegment Cached st len bs by (intro exI [of _ "(sn_off s, ?x) # new"]) simp
    qed
  qed
qed (simp add: seg_hashes_def)

text \<open>The ranges built on the way.\<close>

definition covers :: "(nat \<times> nat) list \<Rightarrow> (nat \<times> span_exec) list \<Rightarrow> bool" where
  "covers rs spans \<longleftrightarrow> (\<forall>i. fetches spans i \<longrightarrow> in_ranges rs i)"

lemma in_ranges_append: "in_ranges (rs @ rs') i \<longleftrightarrow> in_ranges rs i \<or> in_ranges rs' i"
  by (auto simp: in_ranges_def)

lemma fetches_snoc: "fetches (spans @ [(off, x)]) i \<longleftrightarrow> fetches spans i \<or> (\<exists>n r. x = XFetch n r \<and> off \<le> i \<and> i < off + n)"
  by (auto simp: fetches_def)

lemma add_range_ok:
  assumes "ranges_ok lo off rs" and "0 < len" and "lo \<le> off"
  shows "ranges_ok lo (off + len) (add_range off len rs)"
    and "in_ranges rs i \<or> off \<le> i \<and> i < off + len \<Longrightarrow> in_ranges (add_range off len rs) i"
proof -
  have "ranges_ok lo (off + len) (add_range off len rs) \<and> (\<forall>i. in_ranges rs i \<or> off \<le> i \<and> i < off + len \<longrightarrow> in_ranges (add_range off len rs) i)"
  proof (cases rs rule: rev_cases)
    case Nil
    then show ?thesis using assms by (auto simp: add_range_def ranges_ok_def in_ranges_def)
  next
    case (snoc ys y)
    obtain o' l where y: "y = (o', l)" by (cases y)
    have e: "add_range off len rs = (if off \<ge> o' + l \<and> off - (o' + l) \<le> RANGE_MERGE_GAP then ys @ [(o', off + len - o')] else rs @ [(off, len)])"
      by (cases ys) (simp_all add: add_range_def snoc y split: list.split)
    show ?thesis using assms unfolding e
      by (auto simp: snoc y ranges_ok_def sorted_wrt_append in_ranges_def split: if_splits)
  qed
  then show "ranges_ok lo (off + len) (add_range off len rs)"
    and "in_ranges rs i \<or> off \<le> i \<and> i < off + len \<Longrightarrow> in_ranges (add_range off len rs) i" by blast+
qed

lemma ranges_ok_mono: "ranges_ok lo hi rs \<Longrightarrow> hi \<le> hi' \<Longrightarrow> ranges_ok lo hi' rs"
  by (fastforce simp: ranges_ok_def)

lemma exec_spans_ranges:
  assumes "exec_spans ss steps acc rs = Inr (spans, rs')" and "contig sn_off sn_len n ss m" and "\<forall>s\<in>set ss. 0 < sn_len s"
    and "ranges_ok lo n rs" and "covers rs acc" and "lo \<le> n"
  shows "ranges_ok lo m rs' \<and> covers rs' spans"
  using assms
proof (induction ss arbitrary: steps acc rs n)
  case (Cons s ss)
  have s: "sn_off s = n" "contig sn_off sn_len (n + sn_len s) ss m" "0 < sn_len s" "lo \<le> n + sn_len s" "\<forall>s\<in>set ss. 0 < sn_len s"
    using Cons.prems by auto
  show ?case
  proof (cases "sn_kind s")
    case (SpanLit lo')
    have "exec_spans ss steps (acc @ [(n, XLit lo' (sn_len s))]) rs = Inr (spans, rs')" using Cons.prems(1) SpanLit s(1) by simp
    moreover have "ranges_ok lo (n + sn_len s) rs" by (rule ranges_ok_mono [OF Cons.prems(4)]) simp
    moreover have "covers rs (acc @ [(n, XLit lo' (sn_len s))])" using Cons.prems(5) by (simp add: covers_def fetches_snoc)
    ultimately show ?thesis using Cons.IH s by blast
  next
    case (SpanSegment h)
    show ?thesis
    proof (cases steps)
      case Nil
      then show ?thesis using Cons.prems(1) SpanSegment by simp
    next
      case st: (Cons st steps')
      show ?thesis
      proof (cases st)
        case (Fetch u c)
        let ?x = "(n, XFetch (sn_len s) (if c > 0 then Some (u, c) else None))"
        have "exec_spans ss steps' (acc @ [?x]) (add_range n (sn_len s) rs) = Inr (spans, rs')"
          using Cons.prems(1) SpanSegment st Fetch s(1) by simp
        moreover have "covers (add_range n (sn_len s) rs) (acc @ [?x])"
          using Cons.prems(5) add_range_ok(2) [OF Cons.prems(4) s(3) Cons.prems(6)] by (auto simp: covers_def fetches_snoc)
        ultimately show ?thesis using Cons.IH s add_range_ok(1) [OF Cons.prems(4) s(3) Cons.prems(6)] by blast
      next
        case (Cached u)
        have "exec_spans ss steps' (acc @ [(n, XReplay u (sn_len s))]) rs = Inr (spans, rs')"
          using Cons.prems(1) SpanSegment st Cached s(1) by simp
        moreover have "ranges_ok lo (n + sn_len s) rs" by (rule ranges_ok_mono [OF Cons.prems(4)]) simp
        moreover have "covers rs (acc @ [(n, XReplay u (sn_len s))])" using Cons.prems(5) by (simp add: covers_def fetches_snoc)
        ultimately show ?thesis using Cons.IH s by blast
      qed
    qed
  qed
qed simp

lemma exec_spans_retained:
  "exec_spans ss steps acc rs = Inr (spans, rs') \<Longrightarrow> (off, XFetch n (Some (u, c))) \<in> set spans \<Longrightarrow>
     (off, XFetch n (Some (u, c))) \<in> set acc \<or> 0 < c \<and> (\<exists>s\<in>set ss. \<exists>h. sn_kind s = SpanSegment h \<and> n = sn_len s)"
  by (induction ss steps acc rs rule: exec_spans.induct) (fastforce split: span_kind.splits list.splits step.splits if_splits)+

lemma exec_spans_lits:
  "exec_spans ss steps acc rs = Inr (spans, rs') \<Longrightarrow> (off, XLit lo n) \<in> set spans \<Longrightarrow>
     (off, XLit lo n) \<in> set acc \<or> (\<exists>s\<in>set ss. sn_kind s = SpanLit lo \<and> n = sn_len s)"
  by (induction ss steps acc rs rule: exec_spans.induct) (fastforce split: span_kind.splits list.splits step.splits if_splits)+

lemma execute_all_length: "execute_all steps keys R = Some tr \<Longrightarrow> length steps = length keys"
  by (induction steps keys R arbitrary: tr rule: execute_all.induct) (auto split: option.splits)

lemma contig_same:
  assumes "map (\<lambda>x. (f x, g x)) xs = map (\<lambda>y. (f' y, g' y)) ys"
  shows "contig f g n xs m \<longleftrightarrow> contig f' g' n ys m"
  using assms
proof (induction xs arbitrary: ys n)
  case (Cons x xs)
  then show ?case by (cases ys) auto
qed simp

lemma segment_total_le:
  "(\<forall>s\<in>set ss. \<forall>h. sn_kind s = SpanSegment h \<longrightarrow> sn_len s \<le> window) \<Longrightarrow> sum_list (map segment_len ss) \<le> length ss * window"
proof (induction ss)
  case (Cons s ss)
  then have "segment_len s \<le> window" by (auto simp: segment_len_def split: span_kind.split)
  then show ?case using Cons by simp
qed simp

lemma manifest_plan_split:
  assumes "manifest_plan m info budget window = Inr P"
  obtains L rs' sz where "synth_layout m = Inr L" and "ly_nar_size L = ri_nar_size info" and "xp_lits P = ly_lits L" and "xp_ranges P = rs'"
    and "seg_lens (ly_spans L) = map sz (seg_hashes (ly_spans L))"
    and "\<forall>s\<in>set (ly_spans L). \<forall>h. sn_kind s = SpanSegment h \<longrightarrow> sn_len s = sz h \<and> sn_len s \<le> window"
    and "exec_spans (ly_spans L) (plan (seg_hashes (ly_spans L)) (seg_lens (ly_spans L)) budget) [] [] = Inr (xp_spans P, rs')"
proof -
  obtain L ks zs rs where L: "synth_layout m = Inr L" "ly_nar_size L = ri_nar_size info"
    "seg_keys window (ly_spans L) Map.empty ([], []) = Inr (ks, zs)"
    "exec_spans (ly_spans L) (plan ks zs budget) [] [] = Inr (xp_spans P, rs)" "xp_lits P = ly_lits L" "xp_ranges P = rs"
    using assms by (auto simp: manifest_plan_def bindr_eq_Inr split: if_splits sum.splits)
  obtain sz where sz: "ks = seg_hashes (ly_spans L)" "zs = seg_lens (ly_spans L)"
    "\<forall>s\<in>set (ly_spans L). \<forall>h. sn_kind s = SpanSegment h \<longrightarrow> sn_len s = sz h \<and> sn_len s \<le> window"
    using seg_keys_ok [OF L(3)] by auto
  have "seg_lens ss = map sz (seg_hashes ss)" if "\<forall>s\<in>set ss. \<forall>h. sn_kind s = SpanSegment h \<longrightarrow> sn_len s = sz h" for ss
    using that by (induction ss) (auto simp: seg_lens_def seg_hashes_def split: span_kind.splits)
  then have "seg_lens (ly_spans L) = map sz (seg_hashes (ly_spans L))" using sz(3) by blast
  then show ?thesis using that L sz by blast
qed

text \<open>The number of spans bounds what a layout can describe once every segment fits the window.\<close>

definition plan_fits :: "nat \<Rightarrow> xplan \<Rightarrow> bool" where
  "plan_fits window P \<longleftrightarrow> length (xp_lits P) + length (xp_spans P) * window < 2 ^ 64"

lemma manifest_plan_run:
  assumes P: "manifest_plan m info budget window = Inr P" and fits: "plan_fits window P" and F: "filler F"
  obtains L where "synth_layout m = Inr L"
    and "lay.pieces_ok F (ly_lits L) (ly_spans L) (nar (to_fs F (mf_segment_bytes m) (mf_root m)))"
    and "ri_nar_size info = length (nar (to_fs F (mf_segment_bytes m) (mf_root m)))" and "plan_ok window 0 (ri_nar_size info) P"
    and "\<And>V B. (\<And>s h. s \<in> set (ly_spans L) \<Longrightarrow> sn_kind s = SpanSegment h \<Longrightarrow> B h (fetched_bytes V (sn_off s) (sn_len s))) \<Longrightarrow>
        \<exists>ps. ideal V (xp_lits P) (xp_spans P) Map.empty = Some ps \<and> list_all2 (delivers (ly_lits L) B) ps (ly_spans L)"
proof -
  obtain L rs sz where L: "synth_layout m = Inr L" "ly_nar_size L = ri_nar_size info" "xp_lits P = ly_lits L" "xp_ranges P = rs"
    "seg_lens (ly_spans L) = map sz (seg_hashes (ly_spans L))"
    "\<forall>s\<in>set (ly_spans L). \<forall>h. sn_kind s = SpanSegment h \<longrightarrow> sn_len s = sz h \<and> sn_len s \<le> window"
    "exec_spans (ly_spans L) (plan (seg_hashes (ly_spans L)) (seg_lens (ly_spans L)) budget) [] [] = Inr (xp_spans P, rs)"
    by (rule manifest_plan_split [OF P])
  let ?steps = "plan (seg_hashes (ly_spans L)) (seg_lens (ly_spans L)) budget" and ?N = "nar (to_fs F (mf_segment_bytes m) (mf_root m))"
  obtain tr where tr: "execute_all ?steps (seg_hashes (ly_spans L)) Map.empty = Some tr" "map fst tr = seg_hashes (ly_spans L)"
    using plan_run [OF L(5)] by blast
  have run: "map (\<lambda>(off, x). (off, span_len x)) (xp_spans P) = map (\<lambda>s. (sn_off s, sn_len s)) (ly_spans L) \<and>
      (\<exists>ps. ideal V (xp_lits P) (xp_spans P) Map.empty = Some ps \<and> list_all2 (delivers (ly_lits L) B) ps (ly_spans L))"
    if "\<And>s h. s \<in> set (ly_spans L) \<Longrightarrow> sn_kind s = SpanSegment h \<Longrightarrow> B h (fetched_bytes V (sn_off s) (sn_len s))" for V B
  proof -
    have "sn_len s = sz h \<and> B h (fetched_bytes V (sn_off s) (sn_len s))" if "s \<in> set (ly_spans L)" "sn_kind s = SpanSegment h" for s h
      using L(6) that \<open>\<And>s h. s \<in> set (ly_spans L) \<Longrightarrow> sn_kind s = SpanSegment h \<Longrightarrow> B h (fetched_bytes V (sn_off s) (sn_len s))\<close> by blast
    from exec_spans_ideal [where B = B and V = V and lits = "ly_lits L" and acc = "[]" and rs = "[]", OF tr copies_rel_empty this]
    obtain new rs' where "exec_spans (ly_spans L) ?steps [] [] = Inr ([] @ new, rs')"
      "map (\<lambda>(off, x). (off, span_len x)) new = map (\<lambda>s. (sn_off s, sn_len s)) (ly_spans L)"
      "\<exists>ps. ideal V (ly_lits L) new Map.empty = Some ps \<and> list_all2 (delivers (ly_lits L) B) ps (ly_spans L)" by blast
    then show ?thesis using L(3,7) by simp
  qed
  have shape: "map (\<lambda>p. (fst p, (span_len \<circ> snd) p)) (xp_spans P) = map (\<lambda>s. (sn_off s, sn_len s)) (ly_spans L)"
    using run [of "\<lambda>_ _. True"] by (simp add: split_def)
  have "length (xp_spans P) = length (ly_spans L)" using arg_cong [OF shape, of length] by simp
  moreover have "sum_list (map segment_len (ly_spans L)) \<le> length (ly_spans L) * window"
    by (rule segment_total_le) (use L(6) in blast)
  ultimately have "layout_bytes (ly_lits L) (ly_spans L) < 2 ^ 64"
    using fits L(3) by (simp add: plan_fits_def layout_bytes_def)
  then have small: "length ?N < 2 ^ 64" using layout_pieces(3) [OF L(1) F] by simp
  have ok: "lay.pieces_ok F (ly_lits L) (ly_spans L) ?N" "ri_nar_size info = length ?N"
    using layout_pieces(5) [OF L(1) F small] L(2) by simp_all
  have cont: "contig sn_off sn_len 0 (ly_spans L) (length ?N)" "\<forall>s\<in>set (ly_spans L). 0 < sn_len s" using ok(1) by (auto simp: lay.pieces_ok_def)
  have "ranges_ok 0 (length ?N) rs \<and> covers rs (xp_spans P)"
    by (rule exec_spans_ranges [OF L(7) cont]) (simp_all add: ranges_ok_def covers_def fetches_def)
  moreover have "0 < n \<and> n \<le> window \<and> 0 < c" if "(off, XFetch n (Some (u, c))) \<in> set (xp_spans P)" for off n u c
    using exec_spans_retained [OF L(7) that] L(6) cont(2) by auto
  moreover have "lo + n \<le> length (xp_lits P)" if lit: "(off, XLit lo n) \<in> set (xp_spans P)" for off lo n
  proof -
    obtain s where s: "s \<in> set (ly_spans L)" "sn_kind s = SpanLit lo" "n = sn_len s" using exec_spans_lits [OF L(7) lit] by auto
    then have "length (take n (drop lo (ly_lits L))) = n" "0 < n" using ok(1) by (auto simp: lay.pieces_ok_def span_bytes_def)
    then show ?thesis using L(3) by simp
  qed
  moreover have "\<exists>ps. ideal V (xp_lits P) (xp_spans P) Map.empty = Some ps" for V using run [of "\<lambda>_ _. True"] by blast
  ultimately have "plan_ok window 0 (length ?N) P"
    using contig_same [OF shape] cont(1) L(4) unfolding plan_ok_def covers_def by blast
  then have "plan_ok window 0 (ri_nar_size info) P" using ok(2) by simp
  from that [OF L(1) ok this] run show ?thesis by blast
qed

text \<open>An accepted manifest is never empty, and its plan is well formed whatever the peer wrote in it.\<close>

lemma nar_nonempty: "0 < length (nar root)"
  by (simp add: nar_def frame_def)

lemma manifest_plan_ok:
  assumes "manifest_plan m info budget window = Inr P" and "plan_fits window P"
  shows "plan_ok window 0 (ri_nar_size info) P" and "0 < ri_nar_size info"
proof -
  have "plan_ok window 0 (ri_nar_size info) P \<and> 0 < ri_nar_size info"
    by (rule manifest_plan_run [OF assms filler_zeros]) (simp only: nar_nonempty simp_thms)
  then show "plan_ok window 0 (ri_nar_size info) P" and "0 < ri_nar_size info" by blast+
qed

text \<open>Against a manifest of the path, fetching the archive's own bytes delivers the archive.\<close>

definition fill_of :: "(bytes \<Rightarrow> bytes) \<Rightarrow> bytes set \<Rightarrow> bytes \<Rightarrow> nat \<Rightarrow> bytes" where
  "fill_of B3 S h n = (if \<exists>x\<in>S. B3 x = h \<and> length x = n then THE x. x \<in> S \<and> B3 x = h \<and> length x = n else zeros h n)"

lemma fill_of_ok:
  assumes "inj_on B3 S"
  shows "filler (fill_of B3 S)" and "\<forall>x\<in>S. fill_of B3 S (B3 x) (length x) = x"
proof -
  have the: "(THE y. y \<in> S \<and> B3 y = B3 x \<and> length y = length x) = x" if "x \<in> S" for x
    using assms that by (intro the_equality) (auto dest: inj_onD)
  then show "\<forall>x\<in>S. fill_of B3 S (B3 x) (length x) = x" by (auto simp: fill_of_def)
  show "filler (fill_of B3 S)" using the by (auto simp: filler_def fill_of_def zeros_def)
qed

lemma pieces_slice:
  assumes "lay.pieces_ok F lits spans N" and "s \<in> set spans"
  shows "fetched_bytes (\<lambda>i. N ! i) (sn_off s) (sn_len s) = span_bytes F lits s"
proof -
  obtain a b where ab: "spans = a @ s # b" using assms(2) by (meson split_list)
  have len: "\<forall>s\<in>set spans. length (span_bytes F lits s) = sn_len s" using assms(1) by (simp add: lay.pieces_ok_def)
  have "length (concat (map (span_bytes F lits) a)) = sum_list (map sn_len a)"
    using len unfolding ab by (induction a) auto
  moreover have "contig sn_off sn_len 0 (a @ s # b) (length N)" using assms(1) by (simp add: lay.pieces_ok_def ab)
  then have "sn_off s = sum_list (map sn_len a)" by (auto simp: contig_append dest: contig_end)
  moreover have "N = concat (map (span_bytes F lits) a) @ span_bytes F lits s @ concat (map (span_bytes F lits) b)"
    using assms(1) by (simp add: lay.pieces_ok_def ab)
  moreover have "length (span_bytes F lits s) = sn_len s" using len by (simp add: ab)
  ultimately show ?thesis
    by (intro nth_equalityI) (simp_all add: fetched_bytes_def nth_append)
qed

lemma honest_plan:
  assumes m: "build_manifest B3 root nh ns sb = Inr m" and P: "manifest_plan m info budget window = Inr P" and fits: "plan_fits window P"
    and root: "fs_ok root" "0 < sb" "\<forall>x. length (B3 x) = 32" and inj: "inj_on B3 (fs_segments sb root)"
  shows "\<exists>ps. ideal (\<lambda>i. nar root ! i) (xp_lits P) (xp_spans P) Map.empty = Some ps \<and> concat ps = nar root"
proof -
  let ?F = "fill_of B3 (fs_segments sb root)"
  note F = fill_of_ok [OF inj]
  obtain t where t: "build_tree B3 sb [] root = Inr t" "mf_root m = t" "mf_segment_bytes m = sb"
    using m unfolding build_manifest_Inr by auto
  have N: "nar (to_fs ?F sb t) = nar root" using built_describes(2) [OF t(1) root F] by (simp add: nar_def)
  obtain L :: layout where L: "lay.pieces_ok ?F (ly_lits L) (ly_spans L) (nar root)"
    and run: "\<And>V B. (\<And>s h. s \<in> set (ly_spans L) \<Longrightarrow> sn_kind s = SpanSegment h \<Longrightarrow> B h (fetched_bytes V (sn_off s) (sn_len s))) \<Longrightarrow>
        \<exists>ps. ideal V (xp_lits P) (xp_spans P) Map.empty = Some ps \<and> list_all2 (delivers (ly_lits L) B) ps (ly_spans L)"
  proof (rule manifest_plan_run [OF P fits F(1), unfolded t(2,3) N], goal_cases)
    case (1 L)
    show thesis by (rule 1(1) [OF 1(3)]) (rule 1(6))
  qed
  let ?B = "\<lambda>h bs. bs = ?F h (length bs)"
  have "?B h (fetched_bytes (\<lambda>i. nar root ! i) (sn_off s) (sn_len s))" if "s \<in> set (ly_spans L)" "sn_kind s = SpanSegment h" for s h
    using pieces_slice [OF L that(1)] that(2) F(1) by (simp add: span_bytes_def filler_def)
  from run [where B = ?B, OF this] obtain ps where ps: "ideal (\<lambda>i. nar root ! i) (xp_lits P) (xp_spans P) Map.empty = Some ps" "list_all2 (delivers (ly_lits L) ?B) ps (ly_spans L)"
    by blast
  have "ps = map (span_bytes ?F (ly_lits L)) (ly_spans L)"
    using ps(2) by (induction rule: list_all2_induct) (auto simp: delivers_def span_bytes_def split: span_kind.splits)
  then show ?thesis using ps(1) L by (simp add: lay.pieces_ok_def)
qed

end
