(* ===== verification/Chunk_Buffer.thy ===== *)
theory Chunk_Buffer
  imports Prelude Kv
begin

text \<open>
  The reorder buffer of a transfer (\<open>take_span\<close> and \<open>take_prefix\<close> of \<open>src/fetch.rs\<close>): fetched
  chunks by their offset, a \<open>BTreeMap\<close> as a sorted table. Chunks are disjoint and not empty;
  the buffer is then a partial map from positions to bytes (\<open>view\<close>), and taking bytes out is
  restricting that map.
\<close>

type_synonym buf = "(nat, bytes) kv"

text \<open>\<open>range(..=pos).next_back()\<close>.\<close>

definition last_le :: "nat \<Rightarrow> buf \<Rightarrow> (nat \<times> bytes) option" where
  "last_le pos b = (case filter (\<lambda>(k, _). k \<le> pos) b of [] \<Rightarrow> None | e # es \<Rightarrow> Some (last (e # es)))"

text \<open>Take \<open>[s, e)\<close> out of the chunk \<open>bs\<close> at \<open>k\<close>, putting back what is left of it on both sides.\<close>

definition cut_entry :: "nat \<Rightarrow> bytes \<Rightarrow> nat \<Rightarrow> nat \<Rightarrow> buf \<Rightarrow> bytes \<times> buf" where
  "cut_entry k bs s e b =
     (let b = kv_del k b;
          b = (if k < s then kv_put k (take (s - k) bs) b else b);
          b = (if k + length bs > e then kv_put e (drop (e - k) bs) b else b)
      in (take (e - s) (drop (s - k) bs), b))"

definition take_prefix :: "nat \<Rightarrow> nat \<Rightarrow> buf \<Rightarrow> (bytes \<times> buf) option" where
  "take_prefix pos mx b =
     (case last_le pos b of
        None \<Rightarrow> None
      | Some (k, bs) \<Rightarrow>
          let fin = k + length bs in
          if fin \<le> pos then None
          else Some (cut_entry k bs pos (pos + min (fin - pos) mx) b))"

text \<open>The coverage check of \<open>take_span\<close>: the keys of the chunks that cover \<open>[cur, fin)\<close>.\<close>

function span_keys :: "buf \<Rightarrow> nat \<Rightarrow> nat \<Rightarrow> nat list option" where
  "span_keys b cur fin =
     (if cur < fin then
        (case last_le cur b of
           None \<Rightarrow> None
         | Some (k, bs) \<Rightarrow>
             if k + length bs \<le> cur then None
             else map_option (Cons k) (span_keys b (k + length bs) fin))
      else Some [])"
  by pat_completeness auto
termination
  by (relation "measure (\<lambda>(b, cur, fin). fin - cur)") auto

declare span_keys.simps [simp del]

text \<open>The extraction; a key that is not there would panic (None), which does not happen.\<close>

fun cut_keys :: "nat \<Rightarrow> nat \<Rightarrow> nat list \<Rightarrow> buf \<Rightarrow> (bytes list \<times> buf) option" where
  "cut_keys off fin [] b = Some ([], b)"
| "cut_keys off fin (k # ks) b =
     (case map_of b k of
        None \<Rightarrow> None
      | Some bs \<Rightarrow>
          let (piece, b) = cut_entry k bs (max off k) (min fin (k + length bs)) b
          in map_option (apfst (Cons piece)) (cut_keys off fin ks b))"

definition take_span :: "nat \<Rightarrow> nat \<Rightarrow> buf \<Rightarrow> (bytes list \<times> buf) option" where
  "take_span off fin b = Option.bind (span_keys b off fin) (\<lambda>ks. cut_keys off fin ks b)"

text \<open>Dropping what the emitter has passed.\<close>

definition prune :: "nat \<Rightarrow> buf \<Rightarrow> buf" where
  "prune pos b = dropWhile (\<lambda>(k, bs). k + length bs \<le> pos) b"

section \<open>The buffer as a map of positions\<close>

definition buf_inv :: "buf \<Rightarrow> bool" where
  "buf_inv b \<longleftrightarrow> (\<forall>(k, bs)\<in>set b. bs \<noteq> []) \<and> sorted_wrt (\<lambda>x y. fst x + length (snd x) \<le> fst y) b"

definition holds_pos :: "nat \<Rightarrow> nat \<times> bytes \<Rightarrow> bool" where
  "holds_pos i e \<longleftrightarrow> fst e \<le> i \<and> i < fst e + length (snd e)"

definition entry_at :: "buf \<Rightarrow> nat \<Rightarrow> (nat \<times> bytes) option" where
  "entry_at b i = find (holds_pos i) b"

definition view :: "buf \<Rightarrow> nat \<Rightarrow> u8 option" where
  "view b i = map_option (\<lambda>(k, bs). bs ! (i - k)) (entry_at b i)"

lemma buf_inv_Nil [simp]: "buf_inv []"
  by (simp add: buf_inv_def)

lemma buf_inv_append:
  "buf_inv (b @ c) \<longleftrightarrow> buf_inv b \<and> buf_inv c \<and> (\<forall>x\<in>set b. \<forall>y\<in>set c. fst x + length (snd x) \<le> fst y)"
  by (auto simp: buf_inv_def sorted_wrt_append)

lemma buf_inv_Cons:
  "buf_inv ((k, bs) # b) \<longleftrightarrow> bs \<noteq> [] \<and> (\<forall>y\<in>set b. k + length bs \<le> fst y) \<and> buf_inv b"
  by (auto simp: buf_inv_def)

lemma buf_inv_less: "buf_inv b \<Longrightarrow> e \<in> set b \<Longrightarrow> fst e < fst e + length (snd e)"
  by (auto simp: buf_inv_def)

lemma buf_inv_kv: "buf_inv b \<Longrightarrow> kv_inv b"
proof (induction b)
  case (Cons e b)
  obtain k bs where e: "e = (k, bs)" by (cases e)
  have "k < fst y" if "y \<in> set b" for y
  proof -
    have "bs \<noteq> []" "k + length bs \<le> fst y" using Cons.prems that by (auto simp: e buf_inv_Cons)
    then show ?thesis by (cases bs) auto
  qed
  then show ?case using Cons by (auto simp: e buf_inv_Cons kv_inv_Cons)
qed simp

lemma entry_at_append: "entry_at (b @ c) i = (case entry_at b i of None \<Rightarrow> entry_at c i | Some e \<Rightarrow> Some e)"
  by (induction b) (auto simp: entry_at_def)

lemma entry_at_Cons: "entry_at (e # b) i = (if holds_pos i e then Some e else entry_at b i)"
  by (simp add: entry_at_def)

lemma entry_at_Nil [simp]: "entry_at [] i = None"
  by (simp add: entry_at_def)

lemma entry_at_Some: "entry_at b i = Some e \<Longrightarrow> e \<in> set b \<and> holds_pos i e"
  by (auto simp: entry_at_def find_Some_iff)

lemma entry_at_None: "entry_at b i = None \<longleftrightarrow> (\<forall>e\<in>set b. \<not> holds_pos i e)"
  by (auto simp: entry_at_def find_None_iff)

lemma view_None: "view b i = None \<longleftrightarrow> entry_at b i = None"
  by (simp add: view_def)

text \<open>The last chunk that starts at or before a position is the one that holds it, if one does.\<close>

lemma last_le_snoc: "last_le i (b @ [e]) = (if fst e \<le> i then Some e else last_le i b)"
  by (cases e; cases "filter (\<lambda>(k, _). k \<le> i) b") (auto simp: last_le_def)

lemma last_le_entry:
  assumes "buf_inv b"
  shows "(case last_le i b of None \<Rightarrow> None | Some (k, bs) \<Rightarrow> if k + length bs \<le> i then None else Some (k, bs)) = entry_at b i"
  using assms
proof (induction b rule: rev_induct)
  case (snoc e b)
  obtain k bs where e: "e = (k, bs)" by (cases e)
  show ?case
  proof (cases "k \<le> i")
    case True
    have "\<not> holds_pos i x" if "x \<in> set b" for x
      using snoc.prems that True by (auto simp: buf_inv_append e holds_pos_def dest!: bspec)
    then have "entry_at b i = None" by (simp add: entry_at_None)
    then show ?thesis using True by (simp add: last_le_snoc e entry_at_append entry_at_Cons holds_pos_def)
  next
    case False
    then show ?thesis using snoc by (simp add: last_le_snoc e entry_at_append entry_at_Cons holds_pos_def buf_inv_append split: option.split)
  qed
qed (simp add: last_le_def)

section \<open>Cutting one chunk\<close>

lemma kv_del_split:
  assumes "kv_inv (b @ (k, v) # c)"
  shows "kv_del k (b @ (k, v) # c) = b @ c"
proof -
  have "k \<notin> fst ` set b" "k \<notin> fst ` set c"
    using kv_inv_distinct [OF assms] by (auto simp: image_iff)
  moreover have "filter (\<lambda>(k', v). k' \<noteq> k) b = b" if "k \<notin> fst ` set b" for b :: "('a \<times> 'b) list"
    using that by (force intro!: filter_True)
  ultimately show ?thesis by (simp add: kv_del_def)
qed

lemma kv_put_split:
  "\<forall>x\<in>set b. fst x < k \<Longrightarrow> \<forall>x\<in>set c. k < fst x \<Longrightarrow> kv_put k v (b @ c) = b @ (k, v) # c"
proof (induction b)
  case Nil
  then show ?case by (cases c) auto
qed auto

lemma cut_entry_split:
  assumes inv: "buf_inv (b @ (k, bs) # c)" and s: "k \<le> s" "s < e" "e \<le> k + length bs"
  shows "cut_entry k bs s e (b @ (k, bs) # c) =
     (take (e - s) (drop (s - k) bs),
      b @ (if k < s then [(k, take (s - k) bs)] else []) @ (if e < k + length bs then [(e, drop (e - k) bs)] else []) @ c)"
proof -
  have i: "buf_inv b" "\<forall>x\<in>set b. fst x + length (snd x) \<le> k" using inv by (simp_all add: buf_inv_append)
  have below: "fst x < k" if "x \<in> set b" for x using buf_inv_less [OF i(1) that] i(2) that by (meson less_le_trans)
  have above: "k + length bs \<le> fst x" if "x \<in> set c" for x using inv that by (simp add: buf_inv_append buf_inv_Cons)
  let ?l = "if k < s then [(k, take (s - k) bs)] else []"
  have 1: "kv_del k (b @ (k, bs) # c) = b @ c" by (rule kv_del_split [OF buf_inv_kv [OF inv]])
  have 2: "(if k < s then kv_put k (take (s - k) bs) (b @ c) else b @ c) = (b @ ?l) @ c"
  proof (cases "k < s")
    case True
    have "kv_put k (take (s - k) bs) (b @ c) = b @ (k, take (s - k) bs) # c"
      by (rule kv_put_split) (use below above s in \<open>auto dest: above\<close>)
    then show ?thesis using True by simp
  qed simp
  have 3: "(if e < k + length bs then kv_put e (drop (e - k) bs) ((b @ ?l) @ c) else (b @ ?l) @ c) =
      (b @ ?l) @ (if e < k + length bs then [(e, drop (e - k) bs)] else []) @ c"
  proof (cases "e < k + length bs")
    case True
    have "kv_put e (drop (e - k) bs) ((b @ ?l) @ c) = (b @ ?l) @ (e, drop (e - k) bs) # c"
    proof (rule kv_put_split)
      show "\<forall>x\<in>set (b @ ?l). fst x < e" using below s by (auto dest!: below)
      show "\<forall>x\<in>set c. e < fst x" using above True by (auto dest!: above)
    qed
    then show ?thesis using True by simp
  qed simp
  show ?thesis unfolding cut_entry_def Let_def 1 2 3 by simp
qed

lemma cut_entry_spec:
  assumes inv: "buf_inv b" and en: "entry_at b i = Some (k, bs)" and s: "k \<le> s" "s < e" "e \<le> k + length bs"
  shows "\<exists>b'. cut_entry k bs s e b = (map (\<lambda>j. the (view b j)) [s..<e], b') \<and> buf_inv b' \<and>
     (\<forall>j. view b' j = (if s \<le> j \<and> j < e then None else view b j)) \<and>
     (\<forall>j. j < k \<or> k + length bs \<le> j \<longrightarrow> entry_at b' j = entry_at b j) \<and> (\<forall>j. s \<le> j \<longrightarrow> j < e \<longrightarrow> view b j \<noteq> None)"
proof -
  obtain b1 b2 where b: "b = b1 @ (k, bs) # b2" using entry_at_Some [OF en] by (meson split_list)
  let ?L = "if k < s then [(k, take (s - k) bs)] else []" and ?R = "if e < k + length bs then [(e, drop (e - k) bs)] else []"
  let ?b' = "b1 @ ?L @ ?R @ b2"
  have below: "\<forall>x\<in>set b1. fst x + length (snd x) \<le> k" and above: "\<forall>x\<in>set b2. k + length bs \<le> fst x"
    using inv by (auto simp: b buf_inv_append buf_inv_Cons)
  have i1: "buf_inv b1" "buf_inv b2" using inv by (auto simp: b buf_inv_append buf_inv_Cons)
  have inv': "buf_inv ?b'"
    using i1 below above s by (fastforce simp: buf_inv_append buf_inv_Cons split: if_splits)
  have out: "entry_at b1 j = None" if "k \<le> j" for j using below that by (fastforce simp: entry_at_None holds_pos_def)
  have out2: "entry_at b2 j = None" if "j < k + length bs" for j using above that by (fastforce simp: entry_at_None holds_pos_def)
  have inside: "entry_at b j = Some (k, bs)" if "k \<le> j" "j < k + length bs" for j
    using out [OF that(1)] that by (simp add: b entry_at_append entry_at_Cons holds_pos_def)
  have other: "entry_at ?b' j = entry_at b j" if "j < k \<or> k + length bs \<le> j" for j
    using that s by (auto simp: b entry_at_append entry_at_Cons holds_pos_def split: option.split)
  have v: "view b j = Some (bs ! (j - k))" if "k \<le> j" "j < k + length bs" for j using inside [OF that] by (simp add: view_def)
  have "view ?b' j = (if s \<le> j \<and> j < e then None else view b j)" for j
  proof (cases "k \<le> j \<and> j < k + length bs")
    case True
    then show ?thesis using s v [of j] out [of j] out2 [of j]
      by (auto simp: view_def entry_at_append entry_at_Cons holds_pos_def)
  next
    case False
    then show ?thesis using other [of j] s by (auto simp: view_def)
  qed
  moreover have "take (e - s) (drop (s - k) bs) = map (\<lambda>j. the (view b j)) [s..<e]"
    by (rule nth_equalityI) (use s v in auto)
  moreover have "\<forall>j. s \<le> j \<longrightarrow> j < e \<longrightarrow> view b j \<noteq> None" using s v by auto
  ultimately show ?thesis using cut_entry_split [OF inv [unfolded b] s] inv' other unfolding b by (auto simp: b)
qed

section \<open>The operations in terms of the map\<close>

lemma take_prefix_spec:
  assumes inv: "buf_inv b"
  shows "take_prefix pos mx b = None \<longleftrightarrow> view b pos = None"
    and "take_prefix pos mx b = Some (piece, b') \<Longrightarrow> 0 < mx \<Longrightarrow>
      piece \<noteq> [] \<and> length piece \<le> mx \<and> piece = map (\<lambda>j. the (view b j)) [pos..<pos + length piece] \<and> buf_inv b' \<and>
      (\<forall>j. view b' j = (if pos \<le> j \<and> j < pos + length piece then None else view b j)) \<and>
      (\<forall>j. pos \<le> j \<longrightarrow> j < pos + length piece \<longrightarrow> view b j \<noteq> None)"
proof -
  note le = last_le_entry [OF inv, of pos]
  show "take_prefix pos mx b = None \<longleftrightarrow> view b pos = None"
    using le by (cases "entry_at b pos") (auto simp: take_prefix_def Let_def view_None split: option.splits if_splits)
  assume t: "take_prefix pos mx b = Some (piece, b')" and mx: "0 < mx"
  obtain k bs where k: "last_le pos b = Some (k, bs)" "pos < k + length bs"
      "cut_entry k bs pos (pos + min (k + length bs - pos) mx) b = (piece, b')"
    using t by (auto simp: take_prefix_def Let_def split: option.splits if_splits)
  let ?e = "pos + min (k + length bs - pos) mx"
  have en: "entry_at b pos = Some (k, bs)" using le k(1,2) by simp
  have s: "k \<le> pos" "pos < ?e" "?e \<le> k + length bs" using entry_at_Some [OF en] k(2) mx by (auto simp: holds_pos_def)
  obtain c where c: "cut_entry k bs pos ?e b = (map (\<lambda>j. the (view b j)) [pos..<?e], c)" "buf_inv c"
     "\<forall>j. view c j = (if pos \<le> j \<and> j < ?e then None else view b j)" "\<forall>j. pos \<le> j \<longrightarrow> j < ?e \<longrightarrow> view b j \<noteq> None"
    using cut_entry_spec [OF inv en s] by blast
  have p: "piece = map (\<lambda>j. the (view b j)) [pos..<?e]" "b' = c" using c(1) k(3) by simp_all
  then have "length piece = ?e - pos" by simp
  then have "pos + length piece = ?e" using s by simp
  then show "piece \<noteq> [] \<and> length piece \<le> mx \<and> piece = map (\<lambda>j. the (view b j)) [pos..<pos + length piece] \<and> buf_inv b' \<and>
      (\<forall>j. view b' j = (if pos \<le> j \<and> j < pos + length piece then None else view b j)) \<and>
      (\<forall>j. pos \<le> j \<longrightarrow> j < pos + length piece \<longrightarrow> view b j \<noteq> None)"
    using p c s \<open>length piece = ?e - pos\<close> by auto
qed

lemma span_keys_step:
  assumes "buf_inv b"
  shows "span_keys b cur fin =
     (if cur < fin then (case entry_at b cur of None \<Rightarrow> None | Some (k, bs) \<Rightarrow> map_option (Cons k) (span_keys b (k + length bs) fin))
      else Some [])"
  by (subst span_keys.simps) (simp add: last_le_entry [OF assms, symmetric] split: option.split prod.split)

lemma span_keys_cong:
  assumes "buf_inv b" and "buf_inv c" and "\<And>j. cur \<le> j \<Longrightarrow> entry_at c j = entry_at b j"
  shows "span_keys c cur fin = span_keys b cur fin"
  using assms
proof (induction b cur fin rule: span_keys.induct)
  case (1 b cur fin)
  show ?case
  proof (cases "cur < fin \<and> entry_at b cur \<noteq> None")
    case True
    then obtain k bs where k: "entry_at b cur = Some (k, bs)" by auto
    have pos: "cur < k + length bs" using entry_at_Some [OF k] by (simp add: holds_pos_def)
    have ll: "last_le cur b = Some (k, bs)"
      using last_le_entry [OF "1.prems"(1), of cur] k by (auto split: option.splits if_splits)
    have "span_keys c (k + length bs) fin = span_keys b (k + length bs) fin"
      by (rule "1.IH" [OF _ ll refl _ "1.prems"(1,2)]) (use True pos "1.prems"(3) in auto)
    then show ?thesis using True k "1.prems"(3) [of cur] by (simp add: span_keys_step [OF "1.prems"(1)] span_keys_step [OF "1.prems"(2)])
  next
    case False
    then show ?thesis using "1.prems"(3) [of cur]
      by (cases "entry_at b cur") (auto simp: span_keys_step [OF "1.prems"(1)] span_keys_step [OF "1.prems"(2)])
  qed
qed

text \<open>No chunk straddles the position.\<close>

definition aligned :: "buf \<Rightarrow> nat \<Rightarrow> bool" where
  "aligned b cur \<longleftrightarrow> (\<forall>k bs. entry_at b cur = Some (k, bs) \<longrightarrow> k = cur)"

lemma aligned_end:
  assumes inv: "buf_inv b" and k: "entry_at b i = Some (k, bs)"
  shows "aligned b (k + length bs)"
  unfolding aligned_def
proof (intro allI impI)
  fix k' bs' assume k': "entry_at b (k + length bs) = Some (k', bs')"
  obtain b1 b2 where b: "b = b1 @ (k, bs) # b2" using entry_at_Some [OF k] by (meson split_list)
  have "(k', bs') \<in> set b" "k' \<le> k + length bs" "k + length bs < k' + length bs'" using entry_at_Some [OF k'] by (auto simp: holds_pos_def)
  moreover have "k' + length bs' \<le> k" if "(k', bs') \<in> set b1" using inv that by (auto simp: b buf_inv_append)
  moreover have "k + length bs \<le> k'" if "(k', bs') \<in> set b2" using inv that by (auto simp: b buf_inv_append buf_inv_Cons)
  ultimately show "k' = k + length bs" by (auto simp: b)
qed

lemma cut_keys_spec:
  assumes "buf_inv b" and "span_keys b cur fin = Some ks" and "off \<le> cur" and "cur = off \<or> aligned b cur" and "cur \<le> fin"
  shows "\<exists>ps b'. cut_keys off fin ks b = Some (ps, b') \<and> concat ps = map (\<lambda>j. the (view b j)) [cur..<fin] \<and> buf_inv b' \<and>
     (\<forall>j. view b' j = (if cur \<le> j \<and> j < fin then None else view b j)) \<and> (\<forall>j. cur \<le> j \<longrightarrow> j < fin \<longrightarrow> view b j \<noteq> None)"
  using assms
proof (induction ks arbitrary: b cur)
  case Nil
  then have "\<not> cur < fin" by (auto simp: span_keys_step [OF Nil.prems(1)] split: if_splits option.splits)
  then show ?case using Nil.prems by (auto split: if_splits)
next
  case (Cons k ks)
  note inv = Cons.prems(1)
  obtain bs where lt: "cur < fin" and k: "entry_at b cur = Some (k, bs)" and rest: "span_keys b (k + length bs) fin = Some ks"
    using Cons.prems(2) by (auto simp: span_keys_step [OF inv] split: if_splits option.splits)
  have h: "(k, bs) \<in> set b" "k \<le> cur" "cur < k + length bs" using entry_at_Some [OF k] by (auto simp: holds_pos_def)
  have m: "map_of b k = Some bs" using h(1) kv_mem_iff [OF buf_inv_kv [OF inv]] by simp
  have s: "max off k = cur"
    using Cons.prems(3,4) k h(2) by (auto simp: aligned_def)
  let ?e = "min fin (k + length bs)"
  obtain c where c: "cut_entry k bs cur ?e b = (map (\<lambda>j. the (view b j)) [cur..<?e], c)" "buf_inv c"
     "\<forall>j. view c j = (if cur \<le> j \<and> j < ?e then None else view b j)"
     "\<forall>j. j < k \<or> k + length bs \<le> j \<longrightarrow> entry_at c j = entry_at b j" "\<forall>j. cur \<le> j \<longrightarrow> j < ?e \<longrightarrow> view b j \<noteq> None"
    using cut_entry_spec [OF inv k h(2), of ?e] h lt by auto
  show ?case
  proof (cases "k + length bs \<le> fin")
    case True
    have "span_keys c (k + length bs) fin = Some ks"
      using span_keys_cong [OF inv c(2), of "k + length bs" fin] c(4) rest by simp
    moreover have "aligned c (k + length bs)" using aligned_end [OF inv k] c(4) by (simp add: aligned_def)
    ultimately obtain ps b' where r: "cut_keys off fin ks c = Some (ps, b')" "concat ps = map (\<lambda>j. the (view c j)) [k + length bs..<fin]"
       "buf_inv b'" "\<forall>j. view b' j = (if k + length bs \<le> j \<and> j < fin then None else view c j)"
       "\<forall>j. k + length bs \<le> j \<longrightarrow> j < fin \<longrightarrow> view c j \<noteq> None"
      using Cons.IH [OF c(2), of "k + length bs"] Cons.prems(3) h True by auto
    have "[cur..<fin] = [cur..<k + length bs] @ [k + length bs..<fin]" 
      using upt_add_eq_append [of cur "k + length bs" "fin - (k + length bs)"] h True by simp
    then show ?thesis using m c r s True h by (auto simp: Let_def min_absorb2)
  next
    case False
    then have "ks = []" using rest by (simp add: span_keys_step [OF inv])
    then show ?thesis using m c s False h lt by (auto simp: Let_def)
  qed
qed

lemma span_keys_covers:
  assumes "buf_inv b" and "\<And>j. cur \<le> j \<Longrightarrow> j < fin \<Longrightarrow> view b j \<noteq> None"
  shows "span_keys b cur fin \<noteq> None"
  using assms
proof (induction b cur fin rule: span_keys.induct)
  case (1 b cur fin)
  show ?case
  proof (cases "cur < fin")
    case True
    then obtain k bs where k: "entry_at b cur = Some (k, bs)" using "1.prems"(2) [of cur] by (auto simp: view_None)
    have pos: "cur < k + length bs" using entry_at_Some [OF k] by (simp add: holds_pos_def)
    have ll: "last_le cur b = Some (k, bs)"
      using last_le_entry [OF "1.prems"(1), of cur] k by (auto split: option.splits if_splits)
    have "span_keys b (k + length bs) fin \<noteq> None"
      by (rule "1.IH" [OF True ll refl _ "1.prems"(1)]) (use pos "1.prems"(2) in auto)
    then show ?thesis using True k by (simp add: span_keys_step [OF "1.prems"(1)])
  qed (simp add: span_keys_step [OF "1.prems"(1)])
qed

lemma take_span_spec:
  assumes inv: "buf_inv b" and le: "off \<le> fin"
  shows "take_span off fin b = None \<longleftrightarrow> (\<exists>j. off \<le> j \<and> j < fin \<and> view b j = None)"
    and "take_span off fin b = Some (ps, b') \<Longrightarrow> concat ps = map (\<lambda>j. the (view b j)) [off..<fin] \<and> buf_inv b' \<and>
      (\<forall>j. view b' j = (if off \<le> j \<and> j < fin then None else view b j)) \<and> (\<forall>j. off \<le> j \<longrightarrow> j < fin \<longrightarrow> view b j \<noteq> None)"
proof -
  have cut: "\<exists>ps b'. cut_keys off fin ks b = Some (ps, b') \<and> concat ps = map (\<lambda>j. the (view b j)) [off..<fin] \<and> buf_inv b' \<and>
      (\<forall>j. view b' j = (if off \<le> j \<and> j < fin then None else view b j)) \<and> (\<forall>j. off \<le> j \<longrightarrow> j < fin \<longrightarrow> view b j \<noteq> None)"
    if "span_keys b off fin = Some ks" for ks
    using cut_keys_spec [OF inv that order_refl] le by blast
  show "take_span off fin b = None \<longleftrightarrow> (\<exists>j. off \<le> j \<and> j < fin \<and> view b j = None)"
    using cut span_keys_covers [OF inv, of off fin] by (cases "span_keys b off fin") (fastforce simp: take_span_def)+
  show "take_span off fin b = Some (ps, b') \<Longrightarrow> concat ps = map (\<lambda>j. the (view b j)) [off..<fin] \<and> buf_inv b' \<and>
      (\<forall>j. view b' j = (if off \<le> j \<and> j < fin then None else view b j)) \<and> (\<forall>j. off \<le> j \<longrightarrow> j < fin \<longrightarrow> view b j \<noteq> None)"
    using cut by (cases "span_keys b off fin") (fastforce simp: take_span_def)+
qed

text \<open>Inserting a chunk where nothing is, and pruning.\<close>

lemma put_spec:
  assumes inv: "buf_inv b" and "bs \<noteq> []" and free: "\<And>j. k \<le> j \<Longrightarrow> j < k + length bs \<Longrightarrow> view b j = None"
  shows "buf_inv (kv_put k bs b)"
    and "view (kv_put k bs b) j = (if k \<le> j \<and> j < k + length bs then Some (bs ! (j - k)) else view b j)"
proof -
  let ?b1 = "filter (\<lambda>e. fst e < k) b" and ?b2 = "filter (\<lambda>e. \<not> fst e < k) b"
  have split: "b = ?b1 @ ?b2" using inv
  proof (induction b)
    case (Cons e b)
    have "\<forall>x\<in>set b. fst e \<le> fst x" using Cons.prems by (cases e) (auto simp: buf_inv_Cons dest!: bspec)
    then have "\<not> fst e < k \<Longrightarrow> filter (\<lambda>e. fst e < k) b = []" by (auto simp: filter_empty_conv)
    then show ?case using Cons by (cases e) (auto simp: buf_inv_Cons)
  qed simp
  have free': "\<not> holds_pos j e" if "e \<in> set b" "k \<le> j" "j < k + length bs" for e j
    using free [OF that(2,3)] that(1) by (simp add: view_None entry_at_None)
  have below: "fst e + length (snd e) \<le> k" if "e \<in> set ?b1" for e
    using free' [of e k] that assms(2) by (auto simp: holds_pos_def)
  have above: "k + length bs \<le> fst e" if "e \<in> set ?b2" for e
  proof (rule ccontr)
    assume "\<not> k + length bs \<le> fst e"
    then show False using free' [of e "fst e"] that buf_inv_less [OF inv, of e] by (simp add: holds_pos_def)
  qed
  have put: "kv_put k bs b = ?b1 @ (k, bs) # ?b2"
  proof -
    have "kv_put k bs (?b1 @ ?b2) = ?b1 @ (k, bs) # ?b2"
      by (rule kv_put_split) (use above assms(2) in \<open>fastforce simp: neq_Nil_conv\<close>)+
    then show ?thesis using split by simp
  qed
  have inv12: "buf_inv ?b1" "buf_inv ?b2" using inv split buf_inv_append by metis+
  have "\<forall>x\<in>set ?b1. \<forall>y\<in>set ?b2. fst x + length (snd x) \<le> fst y" using inv split buf_inv_append by metis
  then show "buf_inv (kv_put k bs b)"
    unfolding put using inv12 below above assms(2) by (auto simp: buf_inv_append buf_inv_Cons)
  show "view (kv_put k bs b) j = (if k \<le> j \<and> j < k + length bs then Some (bs ! (j - k)) else view b j)"
  proof (cases "k \<le> j \<and> j < k + length bs")
    case True
    then have "entry_at ?b1 j = None" using below by (fastforce simp: entry_at_None holds_pos_def)
    then show ?thesis using True by (simp add: put view_def entry_at_append entry_at_Cons holds_pos_def)
  next
    case False
    have "entry_at b j = entry_at (?b1 @ ?b2) j" using split by simp
    then have "entry_at (kv_put k bs b) j = entry_at b j"
      using False by (auto simp: put entry_at_append entry_at_Cons holds_pos_def split: option.split)
    then show ?thesis using False by (auto simp: view_def)
  qed
qed

lemma prune_spec:
  assumes "buf_inv b"
  shows "buf_inv (prune pos b)" and "view (prune pos b) j = view b j \<or> view (prune pos b) j = None \<and> j < pos"
proof -
  let ?d = "takeWhile (\<lambda>(k, bs). k + length bs \<le> pos) b"
  have b: "b = ?d @ prune pos b" by (simp add: prune_def)
  then show "buf_inv (prune pos b)" using assms buf_inv_append by metis
  show "view (prune pos b) j = view b j \<or> view (prune pos b) j = None \<and> j < pos"
  proof (cases "entry_at ?d j")
    case None
    then have "entry_at b j = entry_at (prune pos b) j" using b by (metis entry_at_append option.simps(4))
    then show ?thesis by (simp add: view_def)
  next
    case (Some e)
    then have e: "e \<in> set ?d" "holds_pos j e" by (auto dest: entry_at_Some)
    then have "fst e + length (snd e) \<le> pos" by (auto dest!: set_takeWhileD)
    then have "j < pos" using e(2) by (simp add: holds_pos_def)
    moreover have "\<not> holds_pos j x" if "x \<in> set (prune pos b)" for x
    proof -
      have "fst e + length (snd e) \<le> fst x" using assms e(1) that b buf_inv_append by metis
      then show ?thesis using e(2) by (simp add: holds_pos_def)
    qed
    then have "view (prune pos b) j = None" by (simp add: view_None entry_at_None)
    ultimately show ?thesis by blast
  qed
qed

end
