(* ===== verification/Emitter.thy ===== *)
theory Emitter
  imports Transfer_Plan Chunk_Buffer
begin

text \<open>
  The emitter of a transfer (\<open>Emitter\<close> in \<open>src/fetch.rs\<close>): it walks the plan, takes fetched
  bytes out of the reorder buffer, synthesises literals, replays held copies, hashes the
  stream and sends it, the last bytes of a full transfer only once the hash is that of the
  narinfo. The channel to the client is the list of what was sent, with the number of
  messages after which the client hangs up. SHA-256 is the parameter \<open>SHA\<close>. Positions stay
  below the size of the archive.
\<close>

section \<open>State\<close>

record fstats =
  fs_remote_bytes :: nat
  fs_wire_bytes :: nat
  fs_replayed_bytes :: nat
  fs_lit_bytes :: nat
  fs_requeues :: nat
  fs_started :: nat
  fs_completed :: nat
  fs_aborts_stall :: nat
  fs_aborts_streak :: nat
  fs_aborts_min_bandwidth :: nat
  fs_aborts_hash_mismatch :: nat
  fs_aborts_other :: nat
  fs_clients_gone :: nat
  fs_manifest_plans :: nat
  fs_narinfo_requests :: nat
  fs_narinfo_misses :: nat
  fs_nar_requests :: nat
  fs_nar_misses :: nat
  fs_hedges :: nat
  fs_hedge_bytes :: nat
  fs_hedged_waste :: nat

record sink =
  sk_sent :: "(string + bytes) list"
  sk_quota :: "nat option"

definition send :: "string + bytes \<Rightarrow> sink \<Rightarrow> bool \<times> sink" where
  "send x k =
     (if sk_quota k = Some 0 then (False, k)
      else (True, k\<lparr>sk_sent := sk_sent k @ [x], sk_quota := map_option (\<lambda>n. n - 1) (sk_quota k)\<rparr>))"

record emitter =
  em_spans :: "(nat \<times> span_exec) list"
  em_lits :: bytes
  em_span_i :: nat
  em_span_emitted :: nat
  em_pos :: nat
  em_end :: nat
  em_full :: bool
  em_nar_hash :: bytes
  em_hashed :: bytes
  em_buffered :: buf
  em_held :: held

datatype emit_end = ClientGone | HashMismatch

datatype pump_result = NeedData | Finished | Abort string

section \<open>Sending\<close>

definition em_emit :: "(bytes \<Rightarrow> bytes) \<Rightarrow> bytes \<Rightarrow> emitter \<times> sink \<Rightarrow> emit_end option \<times> emitter \<times> sink" where
  "em_emit SHA b ek =
     (let (em, k) = ek;
          em = (if em_full em then em\<lparr>em_hashed := em_hashed em @ b\<rparr> else em)
      in if em_full em \<and> em_pos em + length b = em_end em \<and> SHA (em_hashed em) \<noteq> em_nar_hash em
         then (Some HashMismatch, em, snd (send (Inl ''NarHash mismatch'') k))
         else (case send (Inr b) k of
                 (ok, k) \<Rightarrow> (if ok then None else Some ClientGone, em\<lparr>em_pos := em_pos em + length b\<rparr>, k)))"

fun emit_each :: "(bytes \<Rightarrow> bytes) \<Rightarrow> bytes list \<Rightarrow> emitter \<times> sink \<Rightarrow> emit_end option \<times> emitter \<times> sink" where
  "emit_each SHA [] ek = (None, ek)"
| "emit_each SHA (b # bs) ek =
     (case em_emit SHA b ek of (None, ek) \<Rightarrow> emit_each SHA bs ek | (Some e, ek) \<Rightarrow> (Some e, ek))"

section \<open>The pump\<close>

lemma em_emit_fields:
  "em_emit SHA b (em, k) = (r, em', k') \<Longrightarrow>
     em_span_emitted em' = em_span_emitted em \<and> em_span_i em' = em_span_i em \<and> em_spans em' = em_spans em \<and> em_buffered em' = em_buffered em"
  by (auto simp: em_emit_def Let_def split: if_splits prod.splits)

lemma emit_each_fields:
  "emit_each SHA bs (em, k) = (r, em', k') \<Longrightarrow>
     em_span_emitted em' = em_span_emitted em \<and> em_span_i em' = em_span_i em \<and> em_spans em' = em_spans em \<and> em_buffered em' = em_buffered em"
  by (induction bs arbitrary: em k) (auto split: prod.splits option.splits dest!: em_emit_fields)

lemma last_le_le:
  assumes "last_le pos b = Some (k, bs)"
  shows "k \<le> pos"
proof -
  obtain e es where e: "filter (\<lambda>(k, _). k \<le> pos) b = e # es" "last (e # es) = (k, bs)"
    using assms by (auto simp: last_le_def split: list.splits)
  then have "(k, bs) \<in> set (filter (\<lambda>(k, _). k \<le> pos) b)" using last_in_set [of "e # es"] by simp
  then show ?thesis by simp
qed

lemma take_prefix_progress:
  assumes "take_prefix pos mx b = Some (piece, b')" and "0 < mx"
  shows "0 < length piece"
proof -
  obtain k bs where k: "last_le pos b = Some (k, bs)" "pos < k + length bs" "cut_entry k bs pos (pos + min (k + length bs - pos) mx) b = (piece, b')"
    using assms(1) by (auto simp: take_prefix_def Let_def split: option.splits if_splits)
  have "k \<le> pos" by (rule last_le_le [OF k(1)])
  moreover have "piece = take (pos + min (k + length bs - pos) mx - pos) (drop (pos - k) bs)"
    using k(3) by (simp add: cut_entry_def Let_def)
  ultimately show ?thesis using k(2) assms(2) by simp
qed

lemma plain_step:
  assumes "take_prefix (em_pos em) (len - em_span_emitted em) (em_buffered em) = Some (b, buf)" and "em_span_emitted em < len"
    and "(r, em', k') = em_emit SHA b (em\<lparr>em_buffered := buf, em_span_emitted := em_span_emitted em + length b\<rparr>, k)"
  shows "len - em_span_emitted em' < len - em_span_emitted em"
proof -
  have "0 < length b" using take_prefix_progress [OF assms(1)] assms(2) by simp
  moreover have "em_span_emitted em' = em_span_emitted em + length b" using em_emit_fields [OF assms(3) [symmetric]] by simp
  ultimately show ?thesis using assms(2) by linarith
qed

text \<open>A plain fetch span: send any contiguous prefix as it streams in. None: the span is done.\<close>

function plain_loop :: "(bytes \<Rightarrow> bytes) \<Rightarrow> nat \<Rightarrow> emitter \<times> sink \<Rightarrow> (emit_end + pump_result) option \<times> emitter \<times> sink" where
  "plain_loop SHA len (em, k) =
     (if em_span_emitted em < len then
        (case take_prefix (em_pos em) (len - em_span_emitted em) (em_buffered em) of
           None \<Rightarrow> (Some (Inr NeedData), em, k)
         | Some (b, buf) \<Rightarrow>
             (case em_emit SHA b (em\<lparr>em_buffered := buf, em_span_emitted := em_span_emitted em + length b\<rparr>, k) of
                (Some e, ek) \<Rightarrow> (Some (Inl e), ek)
              | (None, ek) \<Rightarrow> plain_loop SHA len ek))
      else (None, em\<lparr>em_span_emitted := 0, em_span_i := em_span_i em + 1\<rparr>, k))"
  by pat_completeness auto
termination
  by (relation "measure (\<lambda>(_, len, em, _). len - em_span_emitted em)") (auto dest: plain_step)

declare plain_loop.simps [simp del]

text \<open>One span of the plan.\<close>

definition pump_span :: "(bytes \<Rightarrow> bytes) \<Rightarrow> nat \<times> span_exec \<Rightarrow> emitter \<times> sink \<Rightarrow> fstats \<Rightarrow>
    ((emit_end + pump_result) option \<times> emitter \<times> sink) \<times> fstats" where
  "pump_span SHA s ek st =
     (let (em, k) = ek;
          next_span = (\<lambda>(r, em, k). case r of None \<Rightarrow> (None, em\<lparr>em_span_i := em_span_i em + 1\<rparr>, k) | Some e \<Rightarrow> (Some (Inl e), em, k))
      in case snd s of
        XLit lo n \<Rightarrow>
          (next_span (em_emit SHA (take n (drop lo (em_lits em))) (em, k)), st\<lparr>fs_lit_bytes := add64 (fs_lit_bytes st) n\<rparr>)
      | XReplay u n \<Rightarrow>
          (case em_held em u of
             None \<Rightarrow> ((Some (Inr (Abort ''replay before retention (plan bug)'')), em, k), st)
           | Some (bs, c) \<Rightarrow>
               let remaining = c - 1; em = em\<lparr>em_held := (em_held em)(u \<mapsto> (bs, remaining))\<rparr> in
               if length bs \<noteq> n then ((Some (Inr (Abort ''replay length'')), em, k), st)
               else
                 let em = (if remaining = 0 then em\<lparr>em_held := (em_held em)(u := None)\<rparr> else em)
                 in (next_span (em_emit SHA bs (em, k)), st\<lparr>fs_replayed_bytes := add64 (fs_replayed_bytes st) (length bs)\<rparr>))
      | XFetch n None \<Rightarrow> (plain_loop SHA n (em, k), st)
      | XFetch n (Some (u, c)) \<Rightarrow>
          (case take_span (fst s) (fst s + n) (em_buffered em) of
             None \<Rightarrow> ((Some (Inr NeedData), em, k), st)
           | Some (parts, buf) \<Rightarrow>
               (next_span (emit_each SHA parts (em\<lparr>em_buffered := buf, em_held := (em_held em)(u \<mapsto> (concat parts, c))\<rparr>, k)), st)))"

lemma plain_loop_fields:
  "plain_loop SHA len (em, k) = (r, em', k') \<Longrightarrow>
     em_spans em' = em_spans em \<and> (r = None \<longrightarrow> em_span_i em' = em_span_i em + 1)"
proof (induction SHA len "(em, k)" arbitrary: em k rule: plain_loop.induct)
  case (1 SHA len em k)
  show ?case
  proof (cases "em_span_emitted em < len")
    case True
    show ?thesis
    proof (cases "take_prefix (em_pos em) (len - em_span_emitted em) (em_buffered em)")
      case None
      then show ?thesis using "1.prems" True by (subst (asm) plain_loop.simps) auto
    next
      case (Some p)
      obtain b buf where p: "p = (b, buf)" by (cases p)
      obtain q em1 k1 where e: "em_emit SHA b (em\<lparr>em_buffered := buf, em_span_emitted := em_span_emitted em + length b\<rparr>, k) = (q, em1, k1)"
        by (metis prod_cases3)
      note f = em_emit_fields [OF e]
      show ?thesis
      proof (cases q)
        case None
        have "plain_loop SHA len (em1, k1) = (r, em', k')" using "1.prems" True Some p e None by (subst (asm) plain_loop.simps) simp
        then show ?thesis using "1.hyps" [OF True Some p [symmetric] e [symmetric] None] f by simp
      next
        case q: (Some x)
        then show ?thesis using "1.prems" True Some p e f by (subst (asm) plain_loop.simps) auto
      qed
    qed
  next
    case False
    then show ?thesis using "1.prems" by (subst (asm) plain_loop.simps) auto
  qed
qed

lemma pump_span_fields:
  "pump_span SHA s (em, k) st = ((r, em', k'), st') \<Longrightarrow> em_spans em' = em_spans em \<and> (r = None \<longrightarrow> em_span_i em' = em_span_i em + 1)"
  by (auto simp: pump_span_def Let_def split: span_exec.splits option.splits prod.splits if_splits
      dest!: em_emit_fields emit_each_fields plain_loop_fields)

function pump :: "(bytes \<Rightarrow> bytes) \<Rightarrow> emitter \<times> sink \<Rightarrow> fstats \<Rightarrow> (emit_end + pump_result) \<times> (emitter \<times> sink) \<times> fstats" where
  "pump SHA (em, k) st =
     (if em_span_i em \<ge> length (em_spans em) then (Inr Finished, (em, k), st)
      else (case pump_span SHA (em_spans em ! em_span_i em) (em, k) st of
              ((Some r, ek), st) \<Rightarrow> (r, ek, st)
            | ((None, ek), st) \<Rightarrow> pump SHA ek st))"
  by pat_completeness auto
termination
  by (relation "measure (\<lambda>(_, (em, _), _). length (em_spans em) - em_span_i em)") (auto dest!: sym [of _ "pump_span _ _ _ _"] pump_span_fields)

declare pump.simps [simp del]

section \<open>What the pump sends\<close>

text \<open>Everything sent so far is \<open>X\<close>, and if it is the whole stream its hash has been checked.\<close>

definition flow :: "(bytes \<Rightarrow> bytes) \<Rightarrow> nat \<Rightarrow> bytes \<Rightarrow> emitter \<Rightarrow> sink \<Rightarrow> bool" where
  "flow SHA start X em k \<longleftrightarrow> (\<forall>x\<in>set (sk_sent k). \<not> isl x) \<and> concat (map projr (sk_sent k)) = X \<and>
     em_pos em = start + length X \<and> (em_full em \<longrightarrow> em_hashed em = X) \<and>
     (em_full em \<and> X \<noteq> [] \<and> em_pos em = em_end em \<longrightarrow> SHA X = em_nar_hash em)"

text \<open>The bytes the client got, and how a stream ends that does not go on.\<close>

definition received :: "sink \<Rightarrow> bytes" where
  "received k = concat (map projr (filter (\<lambda>x. \<not> isl x) (sk_sent k)))"

definition cut_off :: "(bytes \<Rightarrow> bytes) \<Rightarrow> nat \<Rightarrow> emit_end \<Rightarrow> bytes \<Rightarrow> emitter \<Rightarrow> sink \<Rightarrow> bool" where
  "cut_off SHA start e X em k \<longleftrightarrow> (\<exists>Y. received k @ Y = X) \<and>
     (em_full em \<and> received k \<noteq> [] \<and> start + length (received k) = em_end em \<longrightarrow> SHA (received k) = em_nar_hash em) \<and>
     (e = HashMismatch \<longrightarrow> em_full em \<and> start + length X = em_end em \<and> SHA X \<noteq> em_nar_hash em \<and> (X \<noteq> [] \<longrightarrow> length (received k) < length X))"

lemma received_flow: "flow SHA start X em k \<Longrightarrow> received k = X"
  by (simp add: flow_def received_def filter_True)

definition same_job :: "emitter \<Rightarrow> emitter \<Rightarrow> bool" where
  "same_job em em' \<longleftrightarrow> em_spans em' = em_spans em \<and> em_lits em' = em_lits em \<and> em_end em' = em_end em \<and>
     em_full em' = em_full em \<and> em_nar_hash em' = em_nar_hash em"

lemma same_job_refl [simp]: "same_job em em"
  by (simp add: same_job_def)

lemma same_job_trans: "same_job a b \<Longrightarrow> same_job b c \<Longrightarrow> same_job a c"
  by (simp add: same_job_def)

lemma em_emit_go:
  assumes "em_emit SHA b (em, k) = (None, em', k')" and "flow SHA start X em k"
  shows "flow SHA start (X @ b) em' k' \<and>
     em' = em\<lparr>em_pos := em_pos em + length b, em_hashed := (if em_full em then em_hashed em @ b else em_hashed em)\<rparr>"
  using assms by (auto simp: em_emit_def send_def flow_def Let_def simp del: concat_eq_Nil_conv split: if_splits)

lemma received_error [simp]: "received (k\<lparr>sk_sent := sk_sent k @ [Inl e], sk_quota := q\<rparr>) = received k"
  by (simp add: received_def)

lemma em_emit_stop:
  assumes "em_emit SHA b (em, k) = (Some e, em', k')" and "flow SHA start X em k"
  shows "cut_off SHA start e (X @ b) em' k' \<and> same_job em em'"
proof (cases "e = HashMismatch")
  case True
  have f: "received k = X" "em_pos em = start + length X" "em_full em \<longrightarrow> em_hashed em = X"
    "em_full em \<and> X \<noteq> [] \<and> em_pos em = em_end em \<longrightarrow> SHA X = em_nar_hash em"
    using assms(2) received_flow [OF assms(2)] by (simp_all add: flow_def)
  have e: "em_full em" "em_pos em + length b = em_end em" "SHA (em_hashed em @ b) \<noteq> em_nar_hash em"
    "em' = em\<lparr>em_hashed := em_hashed em @ b\<rparr>" "k' = snd (send (Inl ''NarHash mismatch'') k)"
    using assms(1) True by (auto simp: em_emit_def Let_def split: if_splits prod.splits)
  have r: "received k' = X" using f(1) by (simp add: e(5) send_def)
  have "b \<noteq> [] \<or> X = []" using f e by auto
  then show ?thesis using True f e r by (auto simp: cut_off_def same_job_def)
next
  case False
  then have "k' = k" "received k = X" "same_job em em'" "e = ClientGone"
    using assms(1) received_flow [OF assms(2)] by (auto simp: em_emit_def Let_def send_def same_job_def split: if_splits)
  then show ?thesis using assms(2) by (auto simp: cut_off_def flow_def same_job_def)
qed

lemma emit_each_go:
  assumes "emit_each SHA bs (em, k) = (None, em', k')" and "flow SHA start X em k"
  shows "flow SHA start (X @ concat bs) em' k' \<and>
     em' = em\<lparr>em_pos := em_pos em + length (concat bs), em_hashed := (if em_full em then em_hashed em @ concat bs else em_hashed em)\<rparr>"
  using assms
proof (induction bs arbitrary: em k X)
  case (Cons b bs)
  obtain em1 k1 where e: "em_emit SHA b (em, k) = (None, em1, k1)" "emit_each SHA bs (em1, k1) = (None, em', k')"
    using Cons.prems(1) by (auto split: prod.splits option.splits)
  have f: "flow SHA start (X @ b) em1 k1"
    and m: "em1 = em\<lparr>em_pos := em_pos em + length b, em_hashed := (if em_full em then em_hashed em @ b else em_hashed em)\<rparr>"
    using em_emit_go [OF e(1) Cons.prems(2)] by blast+
  have F: "flow SHA start (X @ b @ concat bs) em' k'" using conjunct1 [OF Cons.IH [OF e(2) f]] by simp
  have E: "em' = em1\<lparr>em_pos := em_pos em1 + length (concat bs), em_hashed := (if em_full em1 then em_hashed em1 @ concat bs else em_hashed em1)\<rparr>"
    by (rule conjunct2 [OF Cons.IH [OF e(2) f]])
  show ?case
  proof
    show "flow SHA start (X @ concat (b # bs)) em' k'" using F by simp
    show "em' = em\<lparr>em_pos := em_pos em + length (concat (b # bs)), em_hashed := (if em_full em then em_hashed em @ concat (b # bs) else em_hashed em)\<rparr>"
      unfolding E by (simp add: m add.assoc)
  qed
qed simp

lemma emit_each_stop:
  assumes "emit_each SHA bs (em, k) = (Some e, em', k')" and "flow SHA start X em k"
  shows "\<exists>a c. concat bs = a @ c \<and> cut_off SHA start e (X @ a) em' k' \<and> same_job em em'"
  using assms
proof (induction bs arbitrary: em k X)
  case (Cons b bs)
  show ?case
  proof (cases "em_emit SHA b (em, k)")
    case (fields q em1 k1)
    show ?thesis
    proof (cases q)
      case None
      then have "em_emit SHA b (em, k) = (None, em1, k1)" using fields by simp
      note go = em_emit_go [OF this Cons.prems(2)]
      have g: "flow SHA start (X @ b) em1 k1" using go by blast
      have j: "same_job em em1" using conjunct2 [OF go] by (simp add: same_job_def)
      have "emit_each SHA bs (em1, k1) = (Some e, em', k')" using Cons.prems(1) fields None by simp
      from Cons.IH [OF this g] obtain a c where "concat bs = a @ c" "cut_off SHA start e ((X @ b) @ a) em' k'" "same_job em1 em'" by blast
      then show ?thesis using same_job_trans [OF j] by (intro exI [of _ "b @ a"] exI [of _ c]) simp
    next
      case (Some x)
      then have "em_emit SHA b (em, k) = (Some e, em', k')" using Cons.prems(1) fields by simp
      from em_emit_stop [OF this Cons.prems(2)] show ?thesis by auto
    qed
  qed
qed simp

text \<open>
  The emitter follows the plan: \<open>ps\<close> are the bytes the spans deliver for the fetched bytes
  \<open>V\<close>, and the first \<open>em_span_i\<close> of them and \<open>em_span_emitted\<close> bytes more are out.
\<close>

definition follows :: "(bytes \<Rightarrow> bytes) \<Rightarrow> nat \<Rightarrow> (nat \<Rightarrow> u8) \<Rightarrow> bytes list \<Rightarrow> emitter \<Rightarrow> sink \<Rightarrow> bool" where
  "follows SHA start V ps em k \<longleftrightarrow>
     em_span_i em \<le> length (em_spans em) \<and> length ps = length (em_spans em) \<and>
     contig fst (span_len \<circ> snd) start (em_spans em) (em_end em) \<and>
     (\<forall>i<length ps. length (ps ! i) = span_len (snd (em_spans em ! i))) \<and>
     ideal V (em_lits em) (drop (em_span_i em) (em_spans em)) (em_held em) = Some (drop (em_span_i em) ps) \<and>
     (em_span_emitted em \<noteq> 0 \<longrightarrow> em_span_i em < length ps \<and> (\<exists>n. snd (em_spans em ! em_span_i em) = XFetch n None \<and> em_span_emitted em \<le> n)) \<and>
     flow SHA start (concat (take (em_span_i em) ps) @ take (em_span_emitted em) (concat (drop (em_span_i em) ps))) em k \<and>
     buf_inv (em_buffered em) \<and> (\<forall>j v. view (em_buffered em) j = Some v \<longrightarrow> v = V j)"

text \<open>What a pump that ran out of data waits for.\<close>

definition waits :: "emitter \<Rightarrow> bool" where
  "waits em \<longleftrightarrow> em_span_i em < length (em_spans em) \<and>
     (case em_spans em ! em_span_i em of
        (off, XFetch n None) \<Rightarrow> em_span_emitted em < n \<and> view (em_buffered em) (em_pos em) = None
      | (off, XFetch n (Some _)) \<Rightarrow> (\<exists>j. off \<le> j \<and> j < off + n \<and> view (em_buffered em) j = None)
      | _ \<Rightarrow> False)"

lemma followsD:
  assumes f: "follows SHA start V ps em k" and i: "em_span_i em < length (em_spans em)" and s: "em_spans em ! em_span_i em = (off, x)"
  obtains H' where "ideal_span V (em_lits em) (off, x) (em_held em) = Some (ps ! em_span_i em, H')"
    and "ideal V (em_lits em) (drop (Suc (em_span_i em)) (em_spans em)) H' = Some (drop (Suc (em_span_i em)) ps)"
    and "off = start + length (concat (take (em_span_i em) ps))" and "length (ps ! em_span_i em) = span_len x"
    and "concat (take (Suc (em_span_i em)) ps) = concat (take (em_span_i em) ps) @ ps ! em_span_i em"
    and "concat (drop (em_span_i em) ps) = ps ! em_span_i em @ concat (drop (Suc (em_span_i em)) ps)"
    and "em_span_i em < length ps"
proof -
  let ?i = "em_span_i em" and ?ss = "em_spans em"
  have lp: "length ps = length ?ss" "?i < length ps" using f i by (simp_all add: follows_def)
  have d: "drop ?i ?ss = (off, x) # drop (Suc ?i) ?ss" "drop ?i ps = ps ! ?i # drop (Suc ?i) ps"
    using Cons_nth_drop_Suc [OF i] Cons_nth_drop_Suc [OF lp(2)] s by simp_all
  have "ideal V (em_lits em) ((off, x) # drop (Suc ?i) ?ss) (em_held em) = Some (ps ! ?i # drop (Suc ?i) ps)"
    using f d by (simp add: follows_def)
  then obtain H' where H: "ideal_span V (em_lits em) (off, x) (em_held em) = Some (ps ! ?i, H')"
    "ideal V (em_lits em) (drop (Suc ?i) ?ss) H' = Some (drop (Suc ?i) ps)"
    by (auto split: option.splits)
  have len: "\<forall>j<length ps. length (ps ! j) = span_len (snd (?ss ! j))" using f by (simp add: follows_def)
  have "length (concat (take n ps)) = sum_list (map (span_len \<circ> snd) (take n ?ss))" if "n \<le> length ps" for n
    using that by (induction n) (auto simp: take_Suc_conv_app_nth lp(1) len [simplified lp(1)])
  moreover have "contig fst (span_len \<circ> snd) start (take ?i ?ss @ (off, x) # drop (Suc ?i) ?ss) (em_end em)"
    using f id_take_nth_drop [OF i] s by (simp add: follows_def)
  then have "off = start + sum_list (map (span_len \<circ> snd) (take ?i ?ss))" by (auto simp: contig_append dest!: contig_end)
  ultimately have "off = start + length (concat (take ?i ps))" using lp(2) by simp
  moreover have "length (ps ! ?i) = span_len x" using len lp(2) s by simp
  ultimately show ?thesis using that H lp(2) d by (simp add: take_Suc_conv_app_nth)
qed

text \<open>The buffer only loses what has been sent.\<close>

definition drained :: "emitter \<Rightarrow> emitter \<Rightarrow> bool" where
  "drained em em' \<longleftrightarrow> em_pos em \<le> em_pos em' \<and>
     (\<forall>j. view (em_buffered em') j = view (em_buffered em) j \<or> view (em_buffered em') j = None \<and> j < em_pos em')"

lemma drained_refl [simp]: "drained em em"
  by (simp add: drained_def)

lemma drained_trans: "drained a b \<Longrightarrow> drained b c \<Longrightarrow> drained a c"
  unfolding drained_def by (metis order_less_le_trans order_trans)

definition stopped :: "(bytes \<Rightarrow> bytes) \<Rightarrow> nat \<Rightarrow> bytes \<Rightarrow> emit_end \<Rightarrow> emitter \<Rightarrow> sink \<Rightarrow> bool" where
  "stopped SHA start N e em k \<longleftrightarrow> (\<exists>X Y. N = X @ Y \<and> cut_off SHA start e X em k)"

definition span_result :: "(bytes \<Rightarrow> bytes) \<Rightarrow> nat \<Rightarrow> (nat \<Rightarrow> u8) \<Rightarrow> bytes list \<Rightarrow> emitter \<Rightarrow> (emit_end + pump_result) option \<Rightarrow> emitter \<Rightarrow> sink \<Rightarrow> bool" where
  "span_result SHA start V ps em r em' k' \<longleftrightarrow> same_job em em' \<and>
     (case r of
        None \<Rightarrow> follows SHA start V ps em' k' \<and> drained em em'
      | Some (Inr NeedData) \<Rightarrow> follows SHA start V ps em' k' \<and> drained em em' \<and> waits em'
      | Some (Inl e) \<Rightarrow> stopped SHA start (concat ps) e em' k'
      | _ \<Rightarrow> False)"

lemma fetched_bytes_append: "fetched_bytes V off (m + n) = fetched_bytes V off m @ fetched_bytes V (off + m) n"
  unfolding fetched_bytes_def add.assoc [symmetric] map_append [symmetric] by (subst upt_add_eq_append) simp_all

lemma take_fetched: "m \<le> n \<Longrightarrow> take m (fetched_bytes V off n) = fetched_bytes V off m"
  using fetched_bytes_append [of V off m "n - m"] by simp

lemma plain_loop_ok:
  assumes "plain_loop SHA n (em, k) = (r, em', k')" and "follows SHA start V ps em k" and "em_span_i em < length (em_spans em)"
    and "em_spans em ! em_span_i em = (off, XFetch n None)"
  shows "span_result SHA start V ps em r em' k'"
  using assms
proof (induction SHA n "(em, k)" arbitrary: em k rule: plain_loop.induct)
  case (1 SHA n em k)
  note f = "1.prems"(2)
  let ?i = "em_span_i em" and ?m = "em_span_emitted em"
  obtain H' where H: "ideal_span V (em_lits em) (off, XFetch n None) (em_held em) = Some (ps ! ?i, H')"
    "ideal V (em_lits em) (drop (Suc ?i) (em_spans em)) H' = Some (drop (Suc ?i) ps)"
    and off: "off = start + length (concat (take ?i ps))"
    and cat: "concat (take (Suc ?i) ps) = concat (take ?i ps) @ ps ! ?i"
      "concat (drop ?i ps) = ps ! ?i @ concat (drop (Suc ?i) ps)" and lp: "?i < length ps"
    by (rule followsD [OF f "1.prems"(3,4)])
  have p: "ps ! ?i = fetched_bytes V off n" "H' = em_held em" using H(1) by (simp_all add: Let_def)
  have m: "?m \<le> n" using f "1.prems"(4) by (cases "?m = 0") (auto simp: follows_def)
  have out: "take ?m (concat (drop ?i ps)) = fetched_bytes V off ?m" using m by (simp add: cat(2) p take_fetched)
  have fl: "flow SHA start (concat (take ?i ps) @ fetched_bytes V off ?m) em k" using f out by (simp add: follows_def)
  then have pos: "em_pos em = off + ?m" by (simp add: flow_def off)
  have inv: "buf_inv (em_buffered em)" "\<And>j v. view (em_buffered em) j = Some v \<Longrightarrow> v = V j" using f by (simp_all add: follows_def)
  show ?case
  proof (cases "?m < n")
    case True
    show ?thesis
    proof (cases "take_prefix (em_pos em) (n - ?m) (em_buffered em)")
      case None
      then have "r = Some (Inr NeedData)" "em' = em" "k' = k" using "1.prems"(1) True by (subst (asm) plain_loop.simps, simp)+
      then show ?thesis using f None take_prefix_spec(1) [OF inv(1)] True "1.prems"(3,4) by (simp add: span_result_def waits_def)
    next
      case (Some pb)
      obtain b buf where pb: "pb = (b, buf)" by (cases pb)
      let ?em = "em\<lparr>em_buffered := buf, em_span_emitted := ?m + length b\<rparr>"
      have tp: "b \<noteq> []" "length b \<le> n - ?m" "b = map (\<lambda>j. the (view (em_buffered em) j)) [em_pos em..<em_pos em + length b]" "buf_inv buf"
        "\<And>j. view buf j = (if em_pos em \<le> j \<and> j < em_pos em + length b then None else view (em_buffered em) j)"
        "\<And>j. em_pos em \<le> j \<Longrightarrow> j < em_pos em + length b \<Longrightarrow> view (em_buffered em) j \<noteq> None"
        using take_prefix_spec(2) [OF inv(1), of "em_pos em" "n - ?m" b buf] Some pb True by auto
      have b: "b = fetched_bytes V (off + ?m) (length b)"
        by (subst tp(3)) (use tp(6) inv(2) in \<open>fastforce simp: fetched_bytes_def pos\<close>)
      obtain q em1 k1 where e: "em_emit SHA b (?em, k) = (q, em1, k1)" by (metis prod_cases3)
      have fl': "flow SHA start (concat (take ?i ps) @ fetched_bytes V off ?m) ?em k" using fl by (simp add: flow_def)
      have X: "(concat (take ?i ps) @ fetched_bytes V off ?m) @ b = concat (take ?i ps) @ fetched_bytes V off (?m + length b)"
        using b fetched_bytes_append [of V off ?m "length b"] by simp
      show ?thesis
      proof (cases q)
        case None
        note g = em_emit_go [OF e [unfolded None] fl']
        have em1: "em1 = ?em\<lparr>em_pos := em_pos em + length b, em_hashed := (if em_full em then em_hashed em @ b else em_hashed em)\<rparr>"
          using conjunct2 [OF g] by simp
        have "flow SHA start (concat (take ?i ps) @ fetched_bytes V off (?m + length b)) em1 k1" using conjunct1 [OF g] unfolding X .
        then have "flow SHA start (concat (take ?i ps) @ take (?m + length b) (concat (drop ?i ps))) em1 k1"
          using tp(2) True by (simp add: cat(2) p take_fetched)
        then have f1: "follows SHA start V ps em1 k1"
          using f tp(2,4,5) inv(2) "1.prems"(4) True lp by (auto simp: follows_def em1)
        have "drained em em1" using tp(5) by (auto simp: drained_def em1)
        moreover have "same_job em em1" by (simp add: same_job_def em1)
        moreover have "span_result SHA start V ps em1 r em' k'"
        proof (rule "1.hyps" [OF True Some pb [symmetric] e [symmetric] None _ f1])
          show "plain_loop SHA n (em1, k1) = (r, em', k')" using "1.prems"(1) True Some pb e None by (subst (asm) plain_loop.simps) simp
        qed (use "1.prems"(3,4) in \<open>simp_all add: em1\<close>)
        ultimately show ?thesis using drained_trans same_job_trans
          by (auto simp: span_result_def split: option.splits sum.splits pump_result.splits)
      next
        case q: (Some x)
        have "r = Some (Inl x)" "em' = em1" "k' = k1" using "1.prems"(1) True Some pb e q by (subst (asm) plain_loop.simps, simp)+
        note s = em_emit_stop [OF e [unfolded q] fl']
        have "\<exists>Y. concat ps = ((concat (take ?i ps) @ fetched_bytes V off ?m) @ b) @ Y"
        proof -
          have "concat ps = concat (take ?i ps) @ concat (drop ?i ps)" by (metis append_take_drop_id concat_append)
          moreover have "fetched_bytes V off n = fetched_bytes V off (?m + length b) @ fetched_bytes V (off + (?m + length b)) (n - (?m + length b))"
            using fetched_bytes_append [of V off "?m + length b" "n - (?m + length b)"] tp(2) True by simp
          ultimately show ?thesis unfolding X cat(2) p(1) by simp
        qed
        then have "stopped SHA start (concat ps) x em1 k1" unfolding stopped_def using s by blast
        then show ?thesis using s \<open>r = Some (Inl x)\<close> \<open>em' = em1\<close> \<open>k' = k1\<close> by (simp add: span_result_def same_job_def)
      qed
    qed
  next
    case False
    then have mn: "?m = n" using m by simp
    have r: "r = None" "em' = em\<lparr>em_span_emitted := 0, em_span_i := ?i + 1\<rparr>" "k' = k"
      using "1.prems"(1) False by (subst (asm) plain_loop.simps, simp)+
    have "flow SHA start (concat (take (Suc ?i) ps)) em k" using fl unfolding cat(1) p(1) mn .
    then have "follows SHA start V ps em' k'"
      using f H(2) lp by (auto simp: r follows_def flow_def p(2))
    then show ?thesis by (simp add: span_result_def r same_job_def drained_def)
  qed
qed

text \<open>A span that is sent in one piece: literals, replays and retained spans.\<close>

lemma whole_span_go:
  assumes f: "follows SHA start V ps em k" and i: "em_span_i em < length (em_spans em)" and s: "em_spans em ! em_span_i em = (off, x)"
    and x: "\<forall>n. x \<noteq> XFetch n None" and H: "ideal_span V (em_lits em) (off, x) (em_held em) = Some (ps ! em_span_i em, H')"
    and fl: "flow SHA start (concat (take (em_span_i em) ps) @ ps ! em_span_i em) em' k'"
    and em': "same_job em em'" "em_span_i em' = em_span_i em" "em_span_emitted em' = em_span_emitted em" "em_held em' = H'"
    and buf: "buf_inv (em_buffered em')" "\<forall>j v. view (em_buffered em') j = Some v \<longrightarrow> v = V j"
  shows "follows SHA start V ps (em'\<lparr>em_span_i := em_span_i em' + 1\<rparr>) k'"
proof -
  obtain H2 where H2: "ideal_span V (em_lits em) (off, x) (em_held em) = Some (ps ! em_span_i em, H2)"
    "ideal V (em_lits em) (drop (Suc (em_span_i em)) (em_spans em)) H2 = Some (drop (Suc (em_span_i em)) ps)"
    "concat (take (Suc (em_span_i em)) ps) = concat (take (em_span_i em) ps) @ ps ! em_span_i em" "em_span_i em < length ps"
    by (rule followsD [OF f i s])
  have "em_span_emitted em = 0" using f s x by (auto simp: follows_def)
  then show ?thesis using f H H2 fl em' buf i by (auto simp: follows_def same_job_def flow_def)
qed

lemma whole_flow:
  assumes f: "follows SHA start V ps em k" and i: "em_span_i em < length (em_spans em)" and s: "em_spans em ! em_span_i em = (off, x)"
    and x: "\<forall>n. x \<noteq> XFetch n None"
  shows "flow SHA start (concat (take (em_span_i em) ps)) em k"
proof -
  have "em_span_emitted em = 0" using f s x by (auto simp: follows_def)
  then show ?thesis using f by (simp add: follows_def)
qed

lemma whole_stop:
  assumes f: "follows SHA start V ps em k" and i: "em_span_i em < length (em_spans em)" and s: "em_spans em ! em_span_i em = (off, x)"
    and c: "cut_off SHA start e (concat (take (em_span_i em) ps) @ a) em' k'" and a: "ps ! em_span_i em = a @ b"
  shows "stopped SHA start (concat ps) e em' k'"
proof -
  have "em_span_i em < length ps" using f i by (simp add: follows_def)
  then have "concat ps = concat (take (em_span_i em) ps) @ ps ! em_span_i em @ concat (drop (Suc (em_span_i em)) ps)"
    by (metis append_take_drop_id concat_append Cons_nth_drop_Suc concat.simps(2))
  then show ?thesis unfolding stopped_def using c a by (metis append.assoc)
qed

lemma em_emit_rest:
  "em_emit SHA b (em, k) = (r, em', k') \<Longrightarrow> em_held em' = em_held em \<and> same_job em em' \<and> em_pos em \<le> em_pos em'"
  by (auto simp: em_emit_def Let_def same_job_def split: if_splits prod.splits)

lemma pump_span_ok:
  assumes f: "follows SHA start V ps em k" and i: "em_span_i em < length (em_spans em)"
    and run: "pump_span SHA (em_spans em ! em_span_i em) (em, k) st = ((r, em', k'), st')"
  shows "span_result SHA start V ps em r em' k'"
proof -
  let ?i = "em_span_i em"
  obtain off x where s: "em_spans em ! ?i = (off, x)" by (cases "em_spans em ! ?i")
  obtain H' where H: "ideal_span V (em_lits em) (off, x) (em_held em) = Some (ps ! ?i, H')" and off: "off = start + length (concat (take ?i ps))"
    and lenp: "length (ps ! ?i) = span_len x"
    by (rule followsD [OF f i s])
  have inv: "buf_inv (em_buffered em)" "\<forall>j v. view (em_buffered em) j = Some v \<longrightarrow> v = V j" using f by (simp_all add: follows_def)
  have one: "span_result SHA start V ps em r em' k'"
    if x: "\<forall>n. x \<noteq> XFetch n None" and e: "em_emit SHA (ps ! ?i) (em1, k) = (q, em2, k2)"
      and out: "r = map_option Inl q" "em' = (if q = None then em2\<lparr>em_span_i := em_span_i em2 + 1\<rparr> else em2)" "k' = k2"
      and em1: "em1 = em\<lparr>em_held := H'\<rparr>" for em1 q em2 k2
  proof -
    have fl: "flow SHA start (concat (take ?i ps)) em1 k" using whole_flow [OF f i s x] by (simp add: em1 flow_def)
    show ?thesis
    proof (cases q)
      case None
      note g = em_emit_go [OF e [unfolded None] fl]
      have "follows SHA start V ps (em2\<lparr>em_span_i := em_span_i em2 + 1\<rparr>) k2"
        by (rule whole_span_go [OF f i s x H conjunct1 [OF g]]) (use conjunct2 [OF g] inv in \<open>simp_all add: em1 same_job_def\<close>)
      then show ?thesis using conjunct2 [OF g] by (simp add: span_result_def out None drained_def same_job_def em1)
    next
      case (Some y)
      have c: "cut_off SHA start y (concat (take ?i ps) @ ps ! ?i) em2 k2" "same_job em1 em2"
        using em_emit_stop [OF e [unfolded Some] fl] by simp_all
      have "stopped SHA start (concat ps) y em2 k2" by (rule whole_stop [OF f i s c(1), where b = "[]"]) simp
      then show ?thesis using c(2) by (simp add: span_result_def out Some same_job_def em1)
    qed
  qed
  show ?thesis
  proof (cases x)
    case (XLit lo n)
    obtain q em2 k2 where e: "em_emit SHA (ps ! ?i) (em\<lparr>em_held := H'\<rparr>, k) = (q, em2, k2)" by (metis prod_cases3)
    have p: "ps ! ?i = take n (drop lo (em_lits em))" "H' = em_held em" using H XLit by simp_all
    have "(r, em', k') = (map_option Inl q, if q = None then em2\<lparr>em_span_i := em_span_i em2 + 1\<rparr> else em2, k2)"
      using run e by (auto simp: s XLit p pump_span_def Let_def split: option.splits)
    then show ?thesis using one [OF _ e] XLit by simp
  next
    case (XReplay u n)
    obtain bs c where h: "em_held em u = Some (bs, c)" "length bs = n" "ps ! ?i = bs"
        "H' = (if c \<le> 1 then (em_held em)(u := None) else (em_held em)(u \<mapsto> (bs, c - 1)))"
      using H XReplay by (auto split: option.splits if_splits)
    obtain q em2 k2 where e: "em_emit SHA (ps ! ?i) (em\<lparr>em_held := H'\<rparr>, k) = (q, em2, k2)" by (metis prod_cases3)
    have H'': "em\<lparr>em_held := H'\<rparr> = (if c - 1 = 0 then em\<lparr>em_held := (em_held em)(u \<mapsto> (bs, c - 1), u := None)\<rparr> else em\<lparr>em_held := (em_held em)(u \<mapsto> (bs, c - 1))\<rparr>)"
      using h(4) by auto
    have "(r, em', k') = (map_option Inl q, if q = None then em2\<lparr>em_span_i := em_span_i em2 + 1\<rparr> else em2, k2)"
      using run e h(1-3) H'' by (auto simp: s XReplay pump_span_def Let_def split: option.splits if_splits)
    then show ?thesis using one [OF _ e] XReplay by simp
  next
    case (XFetch n retain)
    show ?thesis
    proof (cases retain)
      case None
      have "plain_loop SHA n (em, k) = (r, em', k')" using run by (simp add: s XFetch None pump_span_def)
      from plain_loop_ok [OF this f i] show ?thesis using s XFetch None by simp
    next
      case (Some uc)
      obtain u c where uc: "uc = (u, c)" by (cases uc)
      have x: "\<forall>n. x \<noteq> XFetch n None" using XFetch Some by simp
      have p: "ps ! ?i = fetched_bytes V off n" "H' = (em_held em)(u \<mapsto> (ps ! ?i, c))" using H XFetch Some uc by (auto simp: Let_def)
      show ?thesis
      proof (cases "take_span off (off + n) (em_buffered em)")
        case none: None
        then have "r = Some (Inr NeedData)" "em' = em" "k' = k" using run by (simp_all add: s XFetch Some uc pump_span_def)
        then show ?thesis using f take_span_spec(1) [OF inv(1), of off "off + n"] none i s XFetch Some
          by (simp add: span_result_def waits_def)
      next
        case some: (Some pb)
        obtain parts buf where pb: "pb = (parts, buf)" by (cases pb)
        have ts: "concat parts = map (\<lambda>j. the (view (em_buffered em) j)) [off..<off + n]" "buf_inv buf"
          "\<forall>j. view buf j = (if off \<le> j \<and> j < off + n then None else view (em_buffered em) j)"
          "\<forall>j. off \<le> j \<longrightarrow> j < off + n \<longrightarrow> view (em_buffered em) j \<noteq> None"
          using take_span_spec(2) [OF inv(1), of off "off + n" parts buf] some pb by simp_all
        have b: "concat parts = ps ! ?i"
          unfolding p(1) by (subst ts(1)) (use ts(4) inv(2) in \<open>fastforce simp: fetched_bytes_def\<close>)
        let ?em = "em\<lparr>em_buffered := buf, em_held := H'\<rparr>"
        obtain q em2 k2 where e: "emit_each SHA parts (?em, k) = (q, em2, k2)" by (metis prod_cases3)
        have out: "(r, em', k') = (map_option Inl q, if q = None then em2\<lparr>em_span_i := em_span_i em2 + 1\<rparr> else em2, k2)"
          using run e some pb by (auto simp: s XFetch Some uc pump_span_def Let_def p(2) b split: option.splits)
        have fl: "flow SHA start (concat (take ?i ps)) ?em k" using whole_flow [OF f i s x] by (simp add: flow_def)
        show ?thesis
        proof (cases q)
          case None
          note g = emit_each_go [OF e [unfolded None] fl, unfolded b]
          have "follows SHA start V ps (em2\<lparr>em_span_i := em_span_i em2 + 1\<rparr>) k2"
            by (rule whole_span_go [OF f i s x H conjunct1 [OF g]]) (use conjunct2 [OF g] inv(2) ts(2,3) in \<open>simp_all add: same_job_def\<close>)
          moreover have "em_pos em = off" using whole_flow [OF f i s x] off by (simp add: flow_def)
          then have "drained em em2" using conjunct2 [OF g] ts(3) lenp by (simp add: drained_def XFetch)
          ultimately show ?thesis using conjunct2 [OF g] out by (simp add: span_result_def None drained_def same_job_def)
        next
          case (Some y)
          obtain a d where ad: "ps ! ?i = a @ d" "cut_off SHA start y (concat (take ?i ps) @ a) em2 k2" "same_job ?em em2"
            using emit_each_stop [OF e [unfolded Some] fl] unfolding b by blast
          have "stopped SHA start (concat ps) y em2 k2" by (rule whole_stop [OF f i s ad(2,1)])
          then show ?thesis using ad(3) out by (simp add: span_result_def Some same_job_def)
        qed
      qed
    qed
  qed
qed

text \<open>
  The contract of the pump: it sends exactly what the plan delivers, waits only for data that
  is not there, never finds the plan inconsistent, and finishes a full transfer only with the
  right hash.
\<close>

definition pump_contract :: "(bytes \<Rightarrow> bytes) \<Rightarrow> nat \<Rightarrow> (nat \<Rightarrow> u8) \<Rightarrow> bytes list \<Rightarrow> emitter \<Rightarrow> emit_end + pump_result \<Rightarrow> emitter \<Rightarrow> sink \<Rightarrow> bool" where
  "pump_contract SHA start V ps em r em' k' \<longleftrightarrow> same_job em em' \<and>
     (case r of
        Inr NeedData \<Rightarrow> follows SHA start V ps em' k' \<and> drained em em' \<and> waits em'
      | Inr Finished \<Rightarrow> received k' = concat ps \<and> (\<forall>x\<in>set (sk_sent k'). \<not> isl x) \<and> em_pos em' = em_end em' \<and>
          (em_full em \<and> start < em_end em \<longrightarrow> SHA (concat ps) = em_nar_hash em)
      | Inr (Abort _) \<Rightarrow> False
      | Inl e \<Rightarrow> stopped SHA start (concat ps) e em' k')"

lemma follows_end:
  assumes "follows SHA start V ps em k"
  shows "em_end em = start + length (concat ps)"
proof -
  have l: "length ps = length (em_spans em)" "\<forall>i<length ps. length (ps ! i) = span_len (snd (em_spans em ! i))"
    using assms by (simp_all add: follows_def)
  have "map length ps = map (span_len \<circ> snd) (em_spans em)" by (rule nth_equalityI) (use l in auto)
  then have "length (concat ps) = sum_list (map (span_len \<circ> snd) (em_spans em))" by (simp add: length_concat)
  then show ?thesis using assms by (auto simp: follows_def dest!: contig_end)
qed

lemma pump_ok:
  assumes "pump SHA (em, k) st = (r, (em', k'), st')" and "follows SHA start V ps em k"
  shows "pump_contract SHA start V ps em r em' k'"
  using assms
proof (induction SHA "(em, k)" st arbitrary: em k rule: pump.induct)
  case (1 SHA em k st)
  note f = "1.prems"(2)
  show ?case
  proof (cases "em_span_i em \<ge> length (em_spans em)")
    case True
    then have r: "r = Inr Finished" "em' = em" "k' = k" using "1.prems"(1) by (subst (asm) pump.simps, simp)+
    have "em_span_i em = length ps" "em_span_emitted em = 0" using f True by (auto simp: follows_def)
    then have fl: "flow SHA start (concat ps) em k" using f by (simp add: follows_def)
    then show ?thesis using follows_end [OF f] received_flow [OF fl] by (auto simp: pump_contract_def r flow_def)
  next
    case False
    then have i: "em_span_i em < length (em_spans em)" by simp
    obtain q em1 k1 st1 where s: "pump_span SHA (em_spans em ! em_span_i em) (em, k) st = ((q, em1, k1), st1)"
      by (metis prod_cases3 prod.exhaust)
    note ok = pump_span_ok [OF f i s]
    show ?thesis
    proof (cases q)
      case None
      have "pump SHA (em1, k1) st1 = (r, (em', k'), st')" using "1.prems"(1) False s None by (subst (asm) pump.simps) simp
      moreover have "follows SHA start V ps em1 k1" "drained em em1" "same_job em em1" using ok None by (simp_all add: span_result_def)
      ultimately have "pump_contract SHA start V ps em1 r em' k'" using "1.hyps" [OF False s [symmetric]] None by simp
      then show ?thesis using drained_trans [OF \<open>drained em em1\<close>] same_job_trans [OF \<open>same_job em em1\<close>] \<open>same_job em em1\<close>
        by (auto simp: pump_contract_def same_job_def split: sum.splits pump_result.splits)
    next
      case (Some y)
      then have "r = y" "em' = em1" "k' = k1" using "1.prems"(1) False s by (subst (asm) pump.simps, simp)+
      then show ?thesis using ok Some by (auto simp: pump_contract_def span_result_def split: sum.splits pump_result.splits)
    qed
  qed
qed

end
