(* ===== verification/Fetch_Ctx.thy ===== *)
theory Fetch_Ctx
  imports Complex_Main Emitter Governor Pool Peers
begin

text \<open>
  What all transfers share (\<open>FetchCtx\<close> of \<open>src/fetch.rs\<close>): the routing pool, the stream budgets,
  the goodput estimates that size chunks and deadlines, the controller of the zstd level, the
  roaming epoch and the counters. An \<open>f64\<close> is a real number, times are nanoseconds, and an
  atomic or a mutex is a field of the state. A peer index outside the tables panics in the
  source; here the list functions are total and the peers of a transfer are within them.
\<close>

section \<open>Constants\<close>

definition CHUNK_MIN :: nat where "CHUNK_MIN = 256 * 1024"
definition CHUNK_SEED :: nat where "CHUNK_SEED = 4 * 2 ^ 20"
definition CHUNK_TARGET_SECS :: real where "CHUNK_TARGET_SECS = 2"
definition ROAMING_EPOCH :: nat where "ROAMING_EPOCH = 600 * 10 ^ 9"
definition HEDGE_NU :: real where "HEDGE_NU = 3"
definition ENC_SEED :: int where "ENC_SEED = 3"
definition ENC_MAX :: int where "ENC_MAX = 19"
definition ENC_STEP_DOWN :: int where "ENC_STEP_DOWN = 2"
definition ENC_STEP_UP :: int where "ENC_STEP_UP = 1"
definition ENC_STEP_UP_FAST :: int where "ENC_STEP_UP_FAST = 3"
definition ENC_CLIMB_BELOW :: real where "ENC_CLIMB_BELOW = 1 / 2"
definition ENC_SLACK :: real where "ENC_SLACK = 1 / 10"
definition ENC_SATURATED :: real where "ENC_SATURATED = 85 / 100"

text \<open>The last tier has no bound.\<close>

definition ENC_TIERS :: "(real option \<times> int) list" where
  "ENC_TIERS = [(Some 4000000, 19), (Some 40000000, 9), (Some 400000000, 3), (None, 1)]"

definition secs :: "nat \<Rightarrow> real" where
  "secs t = real t / 10 ^ 9"

text \<open>\<open>as u64\<close>: truncation, saturating.\<close>

definition to_u64 :: "real \<Rightarrow> nat" where
  "to_u64 x = min (nat \<lfloor>x\<rfloor>) u64_max"

definition of_secs :: "real \<Rightarrow> nat" where
  "of_secs s = nat (round (s * 10 ^ 9))"

text \<open>\<open>i32::from_str\<close>.\<close>

definition parse_i32 :: "string \<Rightarrow> int option" where
  "parse_i32 s =
     (case s of
        [] \<Rightarrow> None
      | c # cs \<Rightarrow>
          let (neg, ds) = (if c = CHR ''-'' then (True, cs) else if c = CHR ''+'' then (False, cs) else (False, s))
          in if ds = [] then None
             else (case parse_digits 0 ds of
                None \<Rightarrow> None
              | Some n \<Rightarrow> if neg then (if n \<le> 2 ^ 31 then Some (- int n) else None) else if n < 2 ^ 31 then Some (int n) else None))"

section \<open>Hedging\<close>

text \<open>The probability that a chunk drawn for a peer of the given share is duplicated.\<close>

definition hedge_prob :: "nat \<Rightarrow> real \<Rightarrow> real \<Rightarrow> real \<Rightarrow> real" where
  "hedge_prob n share floor_share nu =
     (let uniform = 1 / real n;
          num = uniform - share
      in if num \<le> 0 then 0
         else
           let denom = uniform - floor_share
           in if denom \<le> 0 then 1 else clamp (num / denom) 0 1 powr nu)"

section \<open>State\<close>

record peer_net =
  pn_rate :: real
  pn_level :: int

record peer_tally =
  pt_chunks_ok :: nat
  pt_chunks_err :: nat
  pt_bytes :: nat

record fetch_ctx =
  fc_pool :: pool
  fc_limits :: "peer_limit list"
  fc_net :: "peer_net list"
  fc_tally :: "peer_tally list"
  fc_encodings :: "string list"
  fc_stats :: fstats
  fc_nu :: real
  fc_roaming_until :: "nat option"
  fc_chunk_max :: nat
  fc_window :: nat
  fc_stall :: nat
  fc_min_bw :: nat
  fc_grace :: nat
  fc_dedup_budget :: nat

text \<open>The settings \<open>new\<close> reads: the encodings of the peers and the fields of \<open>ProxyCfg\<close>.\<close>

record proxy_settings =
  ps_connections :: nat
  ps_chunk_max :: nat
  ps_window :: nat
  ps_stall :: nat
  ps_min_bw :: nat
  ps_grace :: nat
  ps_dedup_budget :: nat

definition fstats_zero :: fstats where
  "fstats_zero = \<lparr>fs_remote_bytes = 0, fs_wire_bytes = 0, fs_replayed_bytes = 0, fs_lit_bytes = 0, fs_requeues = 0,
     fs_started = 0, fs_completed = 0, fs_aborts_stall = 0, fs_aborts_streak = 0, fs_aborts_min_bandwidth = 0,
     fs_aborts_hash_mismatch = 0, fs_aborts_other = 0, fs_clients_gone = 0, fs_manifest_plans = 0,
     fs_narinfo_requests = 0, fs_narinfo_misses = 0, fs_nar_requests = 0, fs_nar_misses = 0,
     fs_hedges = 0, fs_hedge_bytes = 0, fs_hedged_waste = 0\<rparr>"

definition active_transfers :: "fstats \<Rightarrow> nat" where
  "active_transfers s = fs_started s - (fs_completed s + fs_aborts_stall s + fs_aborts_streak s + fs_aborts_min_bandwidth s +
     fs_aborts_hash_mismatch s + fs_aborts_other s + fs_clients_gone s)"

definition ctx_new :: "nat \<Rightarrow> string list \<Rightarrow> proxy_settings \<Rightarrow> pool \<Rightarrow> fetch_ctx" where
  "ctx_new now encodings cfg p =
     (let n = max (length encodings) 1
      in \<lparr>fc_pool = p, fc_limits = replicate n (limit_new now (max (ps_connections cfg) 1)),
         fc_net = replicate n \<lparr>pn_rate = 0, pn_level = ENC_SEED\<rparr>,
         fc_tally = replicate n \<lparr>pt_chunks_ok = 0, pt_chunks_err = 0, pt_bytes = 0\<rparr>,
         fc_encodings = encodings, fc_stats = fstats_zero, fc_nu = HEDGE_NU, fc_roaming_until = None,
         fc_chunk_max = max (ps_chunk_max cfg) CHUNK_MIN, fc_window = max (ps_window cfg) (CHUNK_MIN * 4),
         fc_stall = ps_stall cfg, fc_min_bw = ps_min_bw cfg, fc_grace = ps_grace cfg, fc_dedup_budget = ps_dedup_budget cfg\<rparr>)"

definition rate_of :: "nat \<Rightarrow> fetch_ctx \<Rightarrow> real" where
  "rate_of peer c = pn_rate (fc_net c ! peer)"

definition map_net :: "nat \<Rightarrow> (peer_net \<Rightarrow> peer_net) \<Rightarrow> fetch_ctx \<Rightarrow> fetch_ctx" where
  "map_net peer f c = c\<lparr>fc_net := (fc_net c)[peer := f (fc_net c ! peer)]\<rparr>"

definition map_limit :: "nat \<Rightarrow> (peer_limit \<Rightarrow> peer_limit) \<Rightarrow> fetch_ctx \<Rightarrow> fetch_ctx" where
  "map_limit peer f c = c\<lparr>fc_limits := (fc_limits c)[peer := f (fc_limits c ! peer)]\<rparr>"

section \<open>Rates, chunks and deadlines\<close>

definition record_rate :: "nat \<Rightarrow> nat \<Rightarrow> nat \<Rightarrow> fetch_ctx \<Rightarrow> fetch_ctx" where
  "record_rate peer n elapsed c =
     (if secs elapsed \<le> 5 / 10000 then c
      else
        let r = real n / secs elapsed
        in map_net peer (\<lambda>net. net\<lparr>pn_rate := (if pn_rate net = 0 then r else 7 / 10 * pn_rate net + 3 / 10 * r)\<rparr>) c)"

definition chunk_size :: "nat \<Rightarrow> fetch_ctx \<Rightarrow> nat" where
  "chunk_size peer c =
     (let r = rate_of peer c
      in if r \<le> 0 then min CHUNK_SEED (fc_chunk_max c)
         else min (max (to_u64 (r * CHUNK_TARGET_SECS)) CHUNK_MIN) (fc_chunk_max c))"

definition chunk_deadline :: "nat \<Rightarrow> nat \<Rightarrow> fetch_ctx \<Rightarrow> nat" where
  "chunk_deadline peer n c =
     (let r = rate_of peer c in if r \<le> 0 then 20 * 10 ^ 9 else of_secs (clamp (8 * real n / r) 10 300))"

section \<open>The compression level\<close>

definition pinned :: "nat \<Rightarrow> fetch_ctx \<Rightarrow> string option" where
  "pinned peer c = (if peer < length (fc_encodings c) then Some (fc_encodings c ! peer) else None)"

definition zstd_level :: "nat \<Rightarrow> fetch_ctx \<Rightarrow> int option" where
  "zstd_level peer c =
     (let auto = Some (pn_level (fc_net c ! peer))
      in case pinned peer c of
           None \<Rightarrow> auto
         | Some enc \<Rightarrow>
             if enc = ''none'' then None
             else (case strip_prefix ''zstd:'' enc of Some level \<Rightarrow> parse_i32 level | None \<Rightarrow> auto))"

text \<open>One step of the controller from the stage times of a chunk, in seconds.\<close>

definition level_step :: "bool \<Rightarrow> real \<Rightarrow> real \<Rightarrow> real \<Rightarrow> real \<Rightarrow> int \<Rightarrow> int" where
  "level_step pipelined elapsed enc read dec level =
     (let down = max (level - ENC_STEP_DOWN) 1;
          up = (\<lambda>fast. min (level + (if fast then ENC_STEP_UP_FAST else ENC_STEP_UP)) ENC_MAX)
      in if pipelined then
           (let el = max elapsed (1 / 10000);
                u_enc = enc / el; u_read = read / el; u_dec = dec / el
            in if u_enc > ENC_SATURATED then down
               else if u_read > ENC_SATURATED then level
               else if u_enc < ENC_CLIMB_BELOW \<and> u_dec < ENC_SATURATED then up (u_enc < ENC_SLACK)
               else level)
         else
           (let transfer = max (elapsed - enc - read - dec) (1 / 10000)
            in if enc > transfer then down
               else if read > transfer then level
               else if enc < transfer * ENC_CLIMB_BELOW \<and> dec < transfer then up (enc < transfer * ENC_SLACK)
               else level))"

definition tier_level :: "real \<Rightarrow> int" where
  "tier_level rate = (case find (\<lambda>(t, _). case t of None \<Rightarrow> True | Some t \<Rightarrow> rate < t) ENC_TIERS of Some (_, l) \<Rightarrow> l | None \<Rightarrow> 1)"

text \<open>The header times of a chunk are microseconds; \<open>dec\<close> is the time the client took to decode it.\<close>

definition observe_encoding :: "nat \<Rightarrow> nat \<Rightarrow> chunk \<Rightarrow> nat \<Rightarrow> fetch_ctx \<Rightarrow> fetch_ctx" where
  "observe_encoding peer elapsed ch dec c =
     (if (case pinned peer c of Some enc \<Rightarrow> enc = ''none'' \<or> starts_with ''zstd:'' enc | None \<Rightarrow> False) then c
      else if ch_srv_read ch = 0 \<and> ch_srv_encode ch = 0 then
        map_net peer (\<lambda>net. if pn_rate net > 0 then net\<lparr>pn_level := tier_level (pn_rate net)\<rparr> else net) c
      else
        map_net peer (\<lambda>net. net\<lparr>pn_level := level_step (ch_pipelined ch) (secs elapsed) (real (ch_srv_encode ch) / 10 ^ 6)
          (real (ch_srv_read ch) / 10 ^ 6) (secs dec) (pn_level net)\<rparr>) c)"

section \<open>Roaming and status\<close>

definition set_roaming :: "nat \<Rightarrow> fetch_ctx \<Rightarrow> fetch_ctx" where
  "set_roaming now c = c\<lparr>fc_roaming_until := Some (now + ROAMING_EPOCH)\<rparr>"

definition peer_net_status :: "nat \<Rightarrow> fetch_ctx \<Rightarrow> real \<times> int \<times> nat \<times> nat" where
  "peer_net_status peer c = (pn_rate (fc_net c ! peer), pn_level (fc_net c ! peer), limit_snapshot (fc_limits c ! peer))"

definition peer_tally_of :: "nat \<Rightarrow> fetch_ctx \<Rightarrow> nat \<times> nat \<times> nat" where
  "peer_tally_of peer c = (let t = fc_tally c ! peer in (pt_chunks_ok t, pt_chunks_err t, pt_bytes t))"

definition roaming_ms_remaining :: "nat \<Rightarrow> fetch_ctx \<Rightarrow> nat option" where
  "roaming_ms_remaining now c =
     (case fc_roaming_until c of Some u \<Rightarrow> if u > now then Some ((u - now) div 10 ^ 6) else None | None \<Rightarrow> None)"

definition threshold_bytes :: "fetch_ctx \<Rightarrow> nat" where
  "threshold_bytes c = to_u64 (real (fc_min_bw c) * secs (fc_grace c))"

definition refuses_while_roaming :: "nat \<Rightarrow> nat \<Rightarrow> fetch_ctx \<Rightarrow> bool" where
  "refuses_while_roaming now nar_size c \<longleftrightarrow>
     fc_min_bw c \<noteq> 0 \<and> (case fc_roaming_until c of Some until \<Rightarrow> now < until | None \<Rightarrow> False) \<and> nar_size > threshold_bytes c"

section \<open>Bounds\<close>

lemma hedge_prob_range: "0 < nu \<Longrightarrow> 0 \<le> hedge_prob n share fl nu \<and> hedge_prob n share fl nu \<le> 1"
  by (simp add: hedge_prob_def Let_def clamp_def powr_le_one_le powr_mono2 [of nu _ 1, simplified])

text \<open>A chunk is never empty, and its size is within the configured bounds.\<close>

lemma chunk_size_bounds: "CHUNK_MIN \<le> fc_chunk_max c \<Longrightarrow> CHUNK_MIN \<le> chunk_size peer c \<and> chunk_size peer c \<le> fc_chunk_max c"
  by (auto simp: chunk_size_def Let_def CHUNK_MIN_def CHUNK_SEED_def)

lemma level_step_bounds: "1 \<le> level \<Longrightarrow> level \<le> ENC_MAX \<Longrightarrow> 1 \<le> level_step p el e r d level \<and> level_step p el e r d level \<le> ENC_MAX"
  by (auto simp: level_step_def Let_def ENC_MAX_def ENC_STEP_DOWN_def ENC_STEP_UP_def ENC_STEP_UP_FAST_def)

end
