(* ===== verification/Emitter_Facts.thy ===== *)
theory Emitter_Facts
  imports Emitter
begin

text \<open>
  What a transfer needs to know of its emitter: what was sent is the front of what the plan
  delivers, bytes that are not yet in the buffer may be anything, a fetched position is
  passed only once it was in the buffer, and what a waiting emitter waits for.
\<close>

section \<open>Positions of spans\<close>

lemma span_offset:
  assumes "contig fst (span_len \<circ> snd) start spans fin" and "length ps = length spans"
    and "\<forall>i<length ps. length (ps ! i) = span_len (snd (spans ! i))" and "m < length spans"
  shows "fst (spans ! m) = start + length (concat (take m ps))"
proof -
  have "length (concat (take n ps)) = sum_list (map (span_len \<circ> snd) (take n spans))" if "n \<le> length ps" for n
    using that by (induction n) (use assms(2,3) in \<open>auto simp: take_Suc_conv_app_nth\<close>)
  moreover have "contig fst (span_len \<circ> snd) start (take m spans @ spans ! m # drop (Suc m) spans) fin"
    using assms(1) id_take_nth_drop [OF assms(4)] by simp
  then have "fst (spans ! m) = start + sum_list (map (span_len \<circ> snd) (take m spans))" by (auto simp: contig_append dest!: contig_end)
  ultimately show ?thesis using assms(2,4) by simp
qed

lemma fetchesI: "m < length spans \<Longrightarrow> spans ! m = (off, XFetch n r) \<Longrightarrow> off \<le> j \<Longrightarrow> j < off + n \<Longrightarrow> fetches spans j"
  by (force simp: fetches_def in_set_conv_nth)

lemma concat_take_le: "a \<le> b \<Longrightarrow> length (concat (take a xs)) \<le> length (concat (take b xs))"
proof -
  assume "a \<le> b"
  then have "take b xs = take a xs @ drop a (take b xs)" by (metis append_take_drop_id min.absorb1 take_take)
  from arg_cong [OF this, of "length \<circ> concat"] show ?thesis by simp
qed

lemma ideal_nth:
  "ideal V lits ss H = Some ps \<Longrightarrow> m < length ss \<Longrightarrow> ss ! m = (off, XFetch n r) \<Longrightarrow> ps ! m = fetched_bytes V off n"
proof (induction ss arbitrary: H ps m)
  case (Cons s ss)
  obtain bs H' ps' where "ideal_span V lits s H = Some (bs, H')" "ideal V lits ss H' = Some ps'" "ps = bs # ps'"
    using Cons.prems(1) by (auto split: option.splits)
  then show ?case using Cons by (cases m) (auto simp: Let_def)
qed simp

lemma follows_received:
  assumes "follows SHA start V ps em k"
  shows "received k = take (em_pos em - start) (concat ps)" and "em_pos em = start + length (received k)"
proof -
  let ?i = "em_span_i em" and ?e = "em_span_emitted em"
  have fl: "flow SHA start (concat (take ?i ps) @ take ?e (concat (drop ?i ps))) em k" using assms by (simp add: follows_def)
  have r: "received k = concat (take ?i ps) @ take ?e (concat (drop ?i ps))" by (rule received_flow [OF fl])
  have c: "concat ps = concat (take ?i ps) @ concat (drop ?i ps)" by (simp only: concat_append [symmetric] append_take_drop_id)
  have m: "take (min (length B) ?e) B = take ?e B" for B :: bytes by (cases "?e \<le> length B") simp_all
  show p: "em_pos em = start + length (received k)" using fl unfolding r flow_def by blast
  show "received k = take (em_pos em - start) (concat ps)" unfolding p unfolding r c by (simp add: m)
qed

lemma follows_position:
  assumes f: "follows SHA start V ps em k" and j: "fetches (em_spans em) j" "em_pos em \<le> j"
  shows "j - start < length (concat ps) \<and> concat ps ! (j - start) = V j"
proof -
  obtain m off n r where m: "m < length (em_spans em)" "em_spans em ! m = (off, XFetch n r)" "off \<le> j" "j < off + n"
    using j(1) by (auto simp: fetches_def in_set_conv_nth)
  have F: "contig fst (span_len \<circ> snd) start (em_spans em) (em_end em)" "length ps = length (em_spans em)"
    "\<forall>i<length ps. length (ps ! i) = span_len (snd (em_spans em ! i))"
    "ideal V (em_lits em) (drop (em_span_i em) (em_spans em)) (em_held em) = Some (drop (em_span_i em) ps)"
    using f unfolding follows_def by blast+
  have off: "off = start + length (concat (take m ps))" by (metis span_offset [OF F(1-3) m(1)] m(2) fst_conv)
  have len: "length (ps ! m) = n" using F(2,3) m(1,2) by simp
  have split: "concat ps = concat (take m ps) @ ps ! m @ concat (drop (Suc m) ps)"
    by (subst id_take_nth_drop [of m ps]) (use m(1) F(2) in simp_all)
  have i: "em_span_i em \<le> m"
  proof (rule ccontr)
    assume "\<not> em_span_i em \<le> m"
    then have "length (concat (take (Suc m) ps)) \<le> length (concat (take (em_span_i em) ps))" by (intro concat_take_le) simp
    moreover have "length (concat (take (Suc m) ps)) = length (concat (take m ps)) + n"
      using m(1) F(2) len by (simp add: take_Suc_conv_app_nth)
    moreover have "start + length (concat (take (em_span_i em) ps)) \<le> em_pos em" using f unfolding follows_def flow_def by simp
    ultimately show False using m(4) j(2) off by linarith
  qed
  have "drop (em_span_i em) ps ! (m - em_span_i em) = fetched_bytes V off n"
    by (rule ideal_nth [OF F(4)]) (use m(1,2) i in simp_all)
  then have here: "ps ! m = fetched_bytes V off n" using i F(2) m(1) by simp
  obtain d where d: "j = off + d" "d < n" using m(3,4) le_Suc_ex by fastforce
  have "j - start = length (concat (take m ps)) + d" using off d(1) by simp
  then show ?thesis using len here d unfolding split by (simp only: nth_append_length_plus) (simp add: nth_append fetched_bytes_def)
qed

section \<open>Bytes not yet there\<close>

definition held_like :: "held \<Rightarrow> held \<Rightarrow> bool" where
  "held_like H H' \<longleftrightarrow> (\<forall>u. map_option (map_prod length id) (H' u) = map_option (map_prod length id) (H u))"

lemma held_like_refl [simp]: "held_like H H"
  by (simp add: held_like_def)

lemma held_like_upd: "held_like H H' \<Longrightarrow> length bs' = length bs \<Longrightarrow> held_like (H(u \<mapsto> (bs, c))) (H'(u \<mapsto> (bs', c)))"
  by (simp add: held_like_def)

lemma held_like_del: "held_like H H' \<Longrightarrow> held_like (H(u := None)) (H'(u := None))"
  by (simp add: held_like_def)

lemma held_likeD: "held_like H H' \<Longrightarrow> H u = Some (bs, c) \<Longrightarrow> \<exists>bs'. H' u = Some (bs', c) \<and> length bs' = length bs"
  unfolding held_like_def by (drule spec [of _ u]) auto

lemma ideal_revise:
  "ideal V lits ss H = Some ps \<Longrightarrow> held_like H H' \<Longrightarrow> \<exists>ps'. ideal V' lits ss H' = Some ps' \<and> map length ps' = map length ps"
proof (induction ss arbitrary: H H' ps)
  case (Cons s ss)
  obtain bs H1 ps1 where s: "ideal_span V lits s H = Some (bs, H1)" "ideal V lits ss H1 = Some ps1" "ps = bs # ps1"
    using Cons.prems(1) by (auto split: option.splits)
  have "\<exists>bs' H1'. ideal_span V' lits s H' = Some (bs', H1') \<and> length bs' = length bs \<and> held_like H1 H1'"
  proof (cases s)
    case (Pair off x)
    show ?thesis
    proof (cases x)
      case (XReplay u n)
      obtain c where u: "H u = Some (bs, c)" "length bs = n" "H1 = (if c \<le> 1 then H(u := None) else H(u \<mapsto> (bs, c - 1)))"
        using s(1) Pair XReplay by (auto split: option.splits if_splits)
      obtain bs' where "H' u = Some (bs', c)" "length bs' = length bs" using held_likeD [OF Cons.prems(2) u(1)] by blast
      then show ?thesis using Pair XReplay u Cons.prems(2) by (auto intro!: held_like_upd held_like_del)
    qed (use s(1) Pair Cons.prems(2) in \<open>auto simp: Let_def intro!: held_like_upd split: option.splits\<close>)
  qed
  then obtain bs' H1' where s': "ideal_span V' lits s H' = Some (bs', H1')" "length bs' = length bs" "held_like H1 H1'" by blast
  obtain ps1' where "ideal V' lits ss H1' = Some ps1'" "map length ps1' = map length ps1" using Cons.IH [OF s(2) s'(3)] by blast
  then show ?case using s' s(3) by simp
qed simp

lemma follows_revise:
  assumes f: "follows SHA start V ps em k" and there: "\<And>j. view (em_buffered em) j \<noteq> None \<Longrightarrow> V' j = V j"
    and passed: "\<And>j. fetches (em_spans em) j \<Longrightarrow> j < em_pos em \<Longrightarrow> V' j = V j"
  shows "\<exists>ps'. follows SHA start V' ps' em k"
proof -
  let ?i = "em_span_i em" and ?e = "em_span_emitted em"
  have id: "ideal V (em_lits em) (drop ?i (em_spans em)) (em_held em) = Some (drop ?i ps)" using f by (simp add: follows_def)
  obtain qs where qs: "ideal V' (em_lits em) (drop ?i (em_spans em)) (em_held em) = Some qs" "map length qs = map length (drop ?i ps)"
    using ideal_revise [OF id held_like_refl] by blast
  have li: "?i \<le> length ps" "length ps = length (em_spans em)" using f by (auto simp: follows_def)
  let ?ps = "take ?i ps @ qs"
  have lq: "length qs = length ps - ?i" using arg_cong [OF qs(2), of length] by simp
  have nth: "length (?ps ! j) = length (ps ! j)" if "j < length ps" for j
  proof (cases "j < ?i")
    case False
    then have "length (qs ! (j - ?i)) = map length qs ! (j - ?i)" using that lq by simp
    then show ?thesis using False that lq qs(2) by (simp add: nth_append)
  qed (use li in \<open>simp add: nth_append\<close>)
  have front: "take ?e (concat qs) = take ?e (concat (drop ?i ps))"
  proof (cases "?e = 0")
    case False
    then obtain n where n: "?i < length ps" "snd (em_spans em ! ?i) = XFetch n None" "?e \<le> n" using f by (auto simp: follows_def)
    then obtain off where s: "em_spans em ! ?i = (off, XFetch n None)" by (cases "em_spans em ! ?i") auto
    have i': "?i < length (em_spans em)" using n(1) li(2) by simp
    have "qs ! 0 = fetched_bytes V' off n" "drop ?i ps ! 0 = fetched_bytes V off n"
      by (rule ideal_nth [OF qs(1), of 0 off n None], use s i' in simp_all, rule ideal_nth [OF id, of 0 off n None, simplified], use s i' n(1) in simp_all)
    then obtain qs' ps' where c: "qs = fetched_bytes V' off n # qs'" "drop ?i ps = fetched_bytes V off n # ps'"
      using n(1) lq by (metis Cons_nth_drop_Suc drop0 length_greater_0_conv nth_drop plus_nat.add_0 zero_less_diff length_drop)
    have off: "off = start + length (concat (take ?i ps))"
      using followsD [OF f i' s] by metis
    have pos: "em_pos em = off + ?e"
      using f c(2) n(3) off by (simp add: follows_def flow_def)
    have "V' j = V j" if "off \<le> j" "j < off + ?e" for j
      by (rule passed) (use that pos n(3) fetchesI [OF i' s] in simp_all)
    then have "fetched_bytes V' off ?e = fetched_bytes V off ?e" by (simp add: fetched_bytes_def)
    then show ?thesis using n(3) by (simp add: c take_fetched)
  qed simp
  have "follows SHA start V' ?ps em k"
    using f li lq nth qs(1) front there unfolding follows_def by (auto simp: min_absorb2)
  then show ?thesis by blast
qed

section \<open>Passing and waiting\<close>

lemma passed_was_there:
  assumes f: "follows SHA start V ps em k" and p: "pump SHA (em, k) st = (Inr NeedData, (em', k'), st')"
    and j: "fetches (em_spans em) j" "em_pos em \<le> j" "j < em_pos em'"
  shows "view (em_buffered em) j \<noteq> None"
proof
  assume none: "view (em_buffered em) j = None"
  let ?V = "V(j := V j + 1)"
  obtain ps' where f': "follows SHA start ?V ps' em k"
    using follows_revise [OF f, of ?V] none j by fastforce
  have g: "follows SHA start V ps em' k'" using pump_ok [OF p f] by (simp add: pump_contract_def)
  have g': "follows SHA start ?V ps' em' k'" using pump_ok [OF p f'] by (simp add: pump_contract_def)
  have lt: "j - start < em_pos em' - start" using j(2,3) follows_received(2) [OF f] by linarith
  have "received k' ! (j - start) = concat ps ! (j - start)" unfolding follows_received(1) [OF g] by (rule nth_take [OF lt])
  moreover have "received k' ! (j - start) = concat ps' ! (j - start)" unfolding follows_received(1) [OF g'] by (rule nth_take [OF lt])
  ultimately have "V j = ?V j" using follows_position [OF f j(1,2)] follows_position [OF f' j(1,2)] by simp
  then show False by simp
qed

lemma waits_for:
  assumes f: "follows SHA start V ps em k" and w: "waits em"
    and bound: "\<And>off n u c. (off, XFetch n (Some (u, c))) \<in> set (em_spans em) \<Longrightarrow> n \<le> window" and "0 < window"
  shows "\<exists>j. fetches (em_spans em) j \<and> em_pos em \<le> j \<and> j < em_pos em + window \<and> view (em_buffered em) j = None"
proof -
  let ?i = "em_span_i em"
  have i: "?i < length (em_spans em)" using w by (simp add: waits_def)
  obtain off x where s: "em_spans em ! ?i = (off, x)" by (cases "em_spans em ! ?i")
  have off: "off = start + length (concat (take ?i ps))" using followsD [OF f i s] by metis
  have mem: "(off, x) \<in> set (em_spans em)" using s i by (metis nth_mem)
  have e: "em_span_emitted em \<noteq> 0 \<longrightarrow> (\<exists>n. x = XFetch n None \<and> em_span_emitted em \<le> n)" using f s by (auto simp: follows_def)
  have fl: "flow SHA start (concat (take ?i ps) @ take (em_span_emitted em) (concat (drop ?i ps))) em k" using f by (simp add: follows_def)
  show ?thesis
  proof (cases x)
    case (XFetch n r)
    show ?thesis
    proof (cases r)
      case None
      have n: "em_span_emitted em < n" "view (em_buffered em) (em_pos em) = None" using w s XFetch None by (simp_all add: waits_def)
      have c: "concat (drop ?i ps) = ps ! ?i @ concat (drop (Suc ?i) ps)" "length (ps ! ?i) = n"
        using followsD [OF f i s] XFetch by (metis, metis span_len.simps(2))
      have "em_pos em = off + em_span_emitted em" using fl c n(1) off by (simp add: flow_def)
      then have "fetches (em_spans em) (em_pos em)" using fetchesI [OF i, of off n r] s XFetch n(1) by simp
      then show ?thesis using n(2) assms(4) by auto
    next
      case (Some uc)
      obtain u c where uc: "uc = (u, c)" by (cases uc)
      obtain j where j: "off \<le> j" "j < off + n" "view (em_buffered em) j = None" using w s XFetch Some by (auto simp: waits_def)
      have "em_span_emitted em = 0" using e XFetch Some by auto
      then have "em_pos em = off" using fl off by (simp add: flow_def)
      moreover have "n \<le> window" using bound mem XFetch Some uc by blast
      moreover have "fetches (em_spans em) j" using fetchesI [OF i, of off n r] s XFetch j by simp
      ultimately show ?thesis using j by (intro exI [of _ j]) auto
    qed
  qed (use w s in \<open>simp_all add: waits_def\<close>)
qed

end
