(* ===== verification/Transfer_Loop.thy ===== *)
theory Transfer_Loop
  imports Fetch_Ctx "HOL-Library.Product_Lexorder"
begin

text \<open>
  One transfer of a NAR range (\<open>run_transfer\<close> of \<open>src/fetch.rs\<close>): choosing the plan, carving
  chunks, launching attempts within the window and the stream budgets, hedging, and the
  events of the loop: a chunk that arrives or fails, the timer, a slot freed elsewhere. A
  worker is a task of the state; its end does the accounting of the peer and queues a
  message for the loop. Each step reads the clock once. A panic (an index outside a table) is
  None.
\<close>

section \<open>State\<close>

definition MANIFEST_MIN :: nat where "MANIFEST_MIN = 4 * 2 ^ 20"
definition MAX_FAILURE_STREAK :: nat where "MAX_FAILURE_STREAK = 30"

text \<open>A running attempt.\<close>

record task =
  tk_off :: nat
  tk_len :: nat
  tk_peer :: nat
  tk_attempt :: nat
  tk_url :: string
  tk_level :: "int option"
  tk_deadline_at :: nat
  tk_started :: nat
  tk_detached :: bool

record done_msg =
  dn_off :: nat
  dn_len :: nat
  dn_peer :: nat
  dn_attempt :: nat
  dn_result :: "fetch_err + chunk"

record flight =
  fl_attempts :: "(nat \<times> nat) list"
  fl_delivered :: bool

text \<open>The local variables of the loop, with the shared context and the breakers.\<close>

record xfer =
  xf_sources :: "(nat \<times> string) list"
  xf_t0 :: nat
  xf_em :: emitter
  xf_sink :: sink
  xf_ranges :: "(nat \<times> nat) list"
  xf_range_i :: nat
  xf_range_pos :: nat
  xf_requeue :: "(nat \<times> nat) list"
  xf_inflight :: "(nat \<times> flight) list"
  xf_next_attempt :: nat
  xf_progress :: nat
  xf_last_seen :: nat
  xf_last_progress :: nat
  xf_streak :: nat
  xf_gate :: "nat option"
  xf_remote :: nat
  xf_tasks :: "task list"
  xf_done :: "done_msg list"
  xf_wake :: nat
  xf_starved :: bool
  xf_ctx :: fetch_ctx
  xf_health :: "health list"

text \<open>How a transfer ends.\<close>

datatype xfer_end = XCompleted | XDead emit_end | XPlanBug string | XMinBandwidth | XStreak | XStall

text \<open>What is not in the sources: SHA-256, the zstd and JSON decoders, joining URLs; and the breaker's settings.\<close>

record xenv =
  xe_sha :: "bytes \<Rightarrow> bytes"
  xe_unz :: "nat \<Rightarrow> bytes \<Rightarrow> bytes option"
  xe_json :: "bytes \<Rightarrow> manifest option"
  xe_url_ok :: "string \<Rightarrow> bool"
  xe_threshold :: nat
  xe_cooldown :: nat

definition peer_ids :: "xfer \<Rightarrow> nat list" where
  "peer_ids st = map fst (xf_sources st)"

definition count :: "(fstats \<Rightarrow> fstats) \<Rightarrow> xfer \<Rightarrow> xfer" where
  "count f st = st\<lparr>xf_ctx := (xf_ctx st)\<lparr>fc_stats := f (fc_stats (xf_ctx st))\<rparr>\<rparr>"

definition count_emit_end :: "emit_end \<Rightarrow> fstats \<Rightarrow> fstats" where
  "count_emit_end e s =
     (case e of
        ClientGone \<Rightarrow> s\<lparr>fs_clients_gone := add64 (fs_clients_gone s) 1\<rparr>
      | HashMismatch \<Rightarrow> s\<lparr>fs_aborts_hash_mismatch := add64 (fs_aborts_hash_mismatch s) 1\<rparr>)"

definition report :: "string \<Rightarrow> xfer \<Rightarrow> xfer" where
  "report msg st = st\<lparr>xf_sink := snd (send (Inl msg) (xf_sink st))\<rparr>"

section \<open>Pumping\<close>

definition xf_pump :: "(bytes \<Rightarrow> bytes) \<Rightarrow> xfer \<Rightarrow> (emit_end + pump_result) \<times> xfer" where
  "xf_pump SHA st =
     (case pump SHA (xf_em st, xf_sink st) (fc_stats (xf_ctx st)) of
        (r, (em, k), s) \<Rightarrow> (r, st\<lparr>xf_em := em, xf_sink := k, xf_ctx := (xf_ctx st)\<lparr>fc_stats := s\<rparr>\<rparr>))"

text \<open>The end a pump leads to, if any, with its counter.\<close>

definition settle :: "emit_end + pump_result \<Rightarrow> xfer \<Rightarrow> xfer_end option \<times> xfer" where
  "settle r st =
     (case r of
        Inl e \<Rightarrow> (Some (XDead e), count (count_emit_end e) st)
      | Inr Finished \<Rightarrow> (Some XCompleted, count (\<lambda>s. s\<lparr>fs_completed := add64 (fs_completed s) 1\<rparr>) st)
      | Inr NeedData \<Rightarrow> (None, st)
      | Inr (Abort msg) \<Rightarrow> (Some (XPlanBug msg), report msg (count (\<lambda>s. s\<lparr>fs_aborts_other := add64 (fs_aborts_other s) 1\<rparr>) st)))"

section \<open>Carving\<close>

text \<open>Advance the cursor past exhausted ranges.\<close>

function advance :: "(nat \<times> nat) list \<Rightarrow> nat \<Rightarrow> nat \<Rightarrow> nat \<times> nat" where
  "advance ranges i pos = (if i < length ranges \<and> pos \<ge> snd (ranges ! i) then advance ranges (i + 1) 0 else (i, pos))"
  by pat_completeness auto
termination
  by (relation "measure (\<lambda>(ranges, i, _). length ranges - i)") auto

declare advance.simps [simp del]

text \<open>Requeued work first (lowest offset), unless the retry gate is closed; else carve fresh.\<close>

definition gated :: "nat \<Rightarrow> xfer \<Rightarrow> bool" where
  "gated now st \<longleftrightarrow> (case xf_gate st of Some g \<Rightarrow> now < g | None \<Rightarrow> False)"

definition carve :: "xfer \<Rightarrow> (nat \<times> nat option) option \<times> xfer" where
  "carve st =
     (let (i, pos) = advance (xf_ranges st) (xf_range_i st) (xf_range_pos st);
          st = st\<lparr>xf_range_i := i, xf_range_pos := pos\<rparr>
      in (if i \<ge> length (xf_ranges st) then None else Some (fst (xf_ranges st ! i) + pos, None), st))"

definition candidate :: "nat \<Rightarrow> xfer \<Rightarrow> (nat \<times> nat option) option \<times> xfer" where
  "candidate now st =
     (case xf_requeue st of
        (off, l) # _ \<Rightarrow> if \<not> gated now st then (Some (off, Some l), st) else carve st
      | [] \<Rightarrow> carve st)"

text \<open>The length of the chunk, sized for the peer that leads the fetch; an oversized requeue is carved again.\<close>

definition take_work :: "nat \<Rightarrow> nat \<Rightarrow> nat option \<Rightarrow> xfer \<Rightarrow> nat \<times> xfer" where
  "take_work lead off queued st =
     (let cs = chunk_size lead (xf_ctx st)
      in case queued of
           Some l \<Rightarrow>
             if l > min (cs * 2) u64_max
             then (cs, st\<lparr>xf_requeue := insort (off + cs, l - cs) (tl (xf_requeue st))\<rparr>)
             else (l, st\<lparr>xf_requeue := tl (xf_requeue st)\<rparr>)
         | None \<Rightarrow>
             let l = min cs (snd (xf_ranges st ! xf_range_i st) - xf_range_pos st)
             in (l, st\<lparr>xf_range_pos := xf_range_pos st + l\<rparr>))"

section \<open>Launching\<close>

definition acquire :: "nat \<Rightarrow> xfer \<Rightarrow> (bool \<times> xfer) option" where
  "acquire peer st =
     (if peer < length (fc_limits (xf_ctx st)) then
        (case try_acquire (fc_limits (xf_ctx st) ! peer) of
           (ok, l) \<Rightarrow> Some (ok, st\<lparr>xf_ctx := map_limit peer (\<lambda>_. l) (xf_ctx st)\<rparr>))
      else None)"

definition note_all_blocked :: "nat list \<Rightarrow> fetch_ctx \<Rightarrow> fetch_ctx" where
  "note_all_blocked peers c =
     fold (\<lambda>p c. if has_idle_capacity (fc_limits c ! p) then map_limit p note_blocked c else c) peers c"

definition flight_of :: "nat \<Rightarrow> xfer \<Rightarrow> flight" where
  "flight_of off st = (case map_of (xf_inflight st) off of Some fl \<Rightarrow> fl | None \<Rightarrow> \<lparr>fl_attempts = [], fl_delivered = False\<rparr>)"

definition set_flight :: "nat \<Rightarrow> flight \<Rightarrow> xfer \<Rightarrow> xfer" where
  "set_flight off fl st = st\<lparr>xf_inflight := (off, fl) # kv_del off (xf_inflight st)\<rparr>"

definition del_flight :: "nat \<Rightarrow> xfer \<Rightarrow> xfer" where
  "del_flight off st = st\<lparr>xf_inflight := kv_del off (xf_inflight st)\<rparr>"

definition spawn_attempt :: "nat \<Rightarrow> nat \<Rightarrow> nat \<Rightarrow> nat \<Rightarrow> bool \<Rightarrow> xfer \<Rightarrow> xfer option" where
  "spawn_attempt now off n peer detached st =
     (case map_of (rev (xf_sources st)) peer of
        None \<Rightarrow> None
      | Some url \<Rightarrow>
          let attempt = xf_next_attempt st + 1;
              deadline_at = now + chunk_deadline peer n (xf_ctx st);
              fl = flight_of off st;
              task = \<lparr>tk_off = off, tk_len = n, tk_peer = peer, tk_attempt = attempt, tk_url = url,
                tk_level = zstd_level peer (xf_ctx st), tk_deadline_at = deadline_at, tk_started = now, tk_detached = detached\<rparr>
          in Some (set_flight off (fl\<lparr>fl_attempts := fl_attempts fl @ [(attempt, deadline_at)]\<rparr>)
               (st\<lparr>xf_next_attempt := attempt, xf_tasks := xf_tasks st @ [task]\<rparr>)))"

definition with_pool :: "pool \<Rightarrow> xfer \<Rightarrow> xfer" where
  "with_pool p st = st\<lparr>xf_ctx := (xf_ctx st)\<lparr>fc_pool := p\<rparr>\<rparr>"

text \<open>The partner of a hedge that fired: a second draw among the others, dropped when it is busy.\<close>

definition draw_partner :: "bool \<Rightarrow> nat list \<Rightarrow> nat \<Rightarrow> xfer \<Rightarrow> (nat option \<times> xfer) option" where
  "draw_partner fired avail drawn st =
     (if \<not> fired then Some (None, st)
      else case pick_among (filter (\<lambda>q. q \<noteq> drawn) avail) (fc_pool (xf_ctx st)) of
        None \<Rightarrow> None
      | Some (None, p) \<Rightarrow> Some (None, with_pool p st)
      | Some (Some q, p) \<Rightarrow>
          (case acquire q (with_pool p st) of
             None \<Rightarrow> None
           | Some (ok, st) \<Rightarrow> Some (if ok then Some q else None, st)))"

text \<open>The draw, the hedge decision and the slots: the primary, the partner.\<close>

definition draw_slots :: "nat list \<Rightarrow> nat \<Rightarrow> xfer \<Rightarrow> (nat option \<times> nat option \<times> xfer) option" where
  "draw_slots avail drawn st =
     (case hedge_shares (fc_pool (xf_ctx st)) avail drawn of
        None \<Rightarrow> None
      | Some (share, floor_share) \<Rightarrow>
          let h = hedge_prob (length avail) share floor_share (fc_nu (xf_ctx st));
              (fired, p) = (if length avail \<ge> 2 \<and> h > 0 then chance h (fc_pool (xf_ctx st)) else (False, fc_pool (xf_ctx st)))
          in Option.bind (acquire drawn (with_pool p st)) (\<lambda>(ok, st).
             Option.bind (draw_partner fired avail drawn st) (\<lambda>(partner, st).
               Some (if ok then Some drawn else None, partner, st))))"

text \<open>Starting the attempts of a chunk; both members of a hedged pair are detached.\<close>

definition launch_chunk :: "nat \<Rightarrow> nat \<Rightarrow> nat \<Rightarrow> nat option \<Rightarrow> nat option \<Rightarrow> xfer \<Rightarrow> xfer option" where
  "launch_chunk now off n primary partner st =
     Option.bind (case primary of None \<Rightarrow> Some st | Some peer \<Rightarrow> spawn_attempt now off n peer (partner \<noteq> None) st) (\<lambda>st.
       case partner of
         None \<Rightarrow> Some st
       | Some peer \<Rightarrow> spawn_attempt now off n peer True (count (\<lambda>s. s\<lparr>fs_hedges := add64 (fs_hedges s) 1,
           fs_hedge_bytes := add64 (fs_hedge_bytes s) n\<rparr>) st))"

text \<open>One round of the launch loop: stop (and whether for want of slots), or go on.\<close>

datatype launch_res = Stop bool | More

definition launch_once :: "nat \<Rightarrow> xfer \<Rightarrow> (launch_res \<times> xfer) option" where
  "launch_once now st =
     (case candidate now st of
        (None, st) \<Rightarrow> Some (Stop False, st)
      | (Some (off, queued), st) \<Rightarrow>
          if off \<ge> em_pos (xf_em st) + fc_window (xf_ctx st)
          then Some (Stop False, st\<lparr>xf_ctx := note_all_blocked (peer_ids st) (xf_ctx st)\<rparr>)
          else
            let avail = filter (\<lambda>p. available now (xf_health st ! p)) (peer_ids st)
            in case pick_among avail (fc_pool (xf_ctx st)) of
                 None \<Rightarrow> None
               | Some (None, p) \<Rightarrow> Some (Stop False, with_pool p st)
               | Some (Some drawn, p) \<Rightarrow>
                   Option.bind (draw_slots avail drawn (with_pool p st)) (\<lambda>(primary, partner, st).
                     case (primary, partner) of
                       (None, None) \<Rightarrow> Some (Stop (avail \<noteq> []), st)
                     | _ \<Rightarrow>
                         let lead = (case primary of Some p \<Rightarrow> p | None \<Rightarrow> the partner);
                             (n, st) = take_work lead off queued st
                         in map_option (Pair More) (launch_chunk now off n primary partner st)))"


text \<open>Every round that goes on takes a slot: the free slots bound the launch loop.\<close>

definition free_slots :: "xfer \<Rightarrow> nat" where
  "free_slots st = sum_list (map (\<lambda>l. lm_limit l - lm_inflight l) (fc_limits (xf_ctx st)))"

lemma candidate_ctx: "candidate now st = (x, st') \<Longrightarrow> xf_ctx st' = xf_ctx st"
  by (auto simp: candidate_def carve_def Let_def split: list.splits if_splits prod.splits)

lemma acquire_slots:
  assumes "acquire p st = Some (ok, st')"
  shows "free_slots st' + (if ok then 1 else 0) = free_slots st"
proof -
  let ?ls = "fc_limits (xf_ctx st)" and ?f = "\<lambda>l. lm_limit l - lm_inflight l"
  have p: "p < length ?ls" using assms by (auto simp: acquire_def split: if_splits)
  show ?thesis
  proof (cases "lm_inflight (?ls ! p) < lm_limit (?ls ! p)")
    case True
    let ?l = "(?ls ! p)\<lparr>lm_inflight := lm_inflight (?ls ! p) + 1\<rparr>"
    have e: "ok" "free_slots st' = sum_list ((map ?f ?ls)[p := ?f ?l])"
      using assms p True by (auto simp: acquire_def try_acquire_def free_slots_def map_limit_def map_update)
    have "sum_list ((map ?f ?ls)[p := ?f ?l]) = sum_list (map ?f ?ls) + ?f ?l - ?f (?ls ! p)"
      using p by (simp add: sum_list_update)
    moreover have "?f (?ls ! p) \<le> sum_list (map ?f ?ls)" using p by (intro elem_le_sum_list [of p "map ?f ?ls", simplified])
    ultimately show ?thesis using e True by (simp add: free_slots_def)
  next
    case False
    then show ?thesis using assms p by (auto simp: acquire_def try_acquire_def free_slots_def map_limit_def)
  qed
qed

lemma free_slots_simps [simp]:
  "free_slots (with_pool p st) = free_slots st" "free_slots (count f st) = free_slots st"
  "free_slots (set_flight off fl st) = free_slots st"
  "free_slots (st\<lparr>xf_requeue := q\<rparr>) = free_slots st" "free_slots (st\<lparr>xf_range_pos := r\<rparr>) = free_slots st"
  "free_slots (st\<lparr>xf_next_attempt := n, xf_tasks := ts\<rparr>) = free_slots st"
  by (simp_all add: free_slots_def with_pool_def count_def set_flight_def)

lemma take_work_slots: "take_work lead off queued st = (n, st') \<Longrightarrow> free_slots st' = free_slots st"
  by (auto simp: take_work_def Let_def split: option.splits if_splits)

lemma spawn_slots: "spawn_attempt now off n peer d st = Some st' \<Longrightarrow> free_slots st' = free_slots st"
  by (auto simp: spawn_attempt_def Let_def split: option.splits)

lemma launch_chunk_slots: "launch_chunk now off n primary partner st = Some st' \<Longrightarrow> free_slots st' = free_slots st"
  by (auto simp: launch_chunk_def split: option.splits bind_splits dest!: spawn_slots)

lemma draw_partner_slots:
  "draw_partner fired avail drawn st = Some (q, st') \<Longrightarrow> free_slots st' + (if q = None then 0 else 1) = free_slots st"
  by (auto simp: draw_partner_def split: if_splits option.splits prod.splits dest!: acquire_slots)

lemma draw_slots_slots:
  assumes "draw_slots avail drawn st = Some (primary, partner, st')" and "primary \<noteq> None \<or> partner \<noteq> None"
  shows "free_slots st' < free_slots st"
proof -
  obtain fired p ok st1 where a: "acquire drawn (with_pool p st) = Some (ok, st1)" "draw_partner fired avail drawn st1 = Some (partner, st')"
    "primary = (if ok then Some drawn else None)"
    using assms(1) by (auto simp: draw_slots_def Let_def split: option.splits prod.splits bind_splits)
  show ?thesis using acquire_slots [OF a(1)] draw_partner_slots [OF a(2)] a(3) assms(2) by (auto split: if_splits)
qed

lemma launch_once_slots:
  assumes "launch_once now st = Some (More, st')"
  shows "free_slots st' < free_slots st"
proof -
  obtain off queued st1 avail drawn p primary partner st2 n st3 where
    c: "candidate now st = (Some (off, queued), st1)" "draw_slots avail drawn (with_pool p st1) = Some (primary, partner, st2)"
      "primary \<noteq> None \<or> partner \<noteq> None"
      "take_work (case primary of Some p \<Rightarrow> p | None \<Rightarrow> the partner) off queued st2 = (n, st3)"
      "launch_chunk now off n primary partner st3 = Some st'"
    using assms unfolding launch_once_def Let_def
    by (force split: prod.splits option.splits if_splits bind_splits)
  have "free_slots st1 = free_slots st" using candidate_ctx [OF c(1)] by (simp add: free_slots_def)
  then show ?thesis using draw_slots_slots [OF c(2,3)] take_work_slots [OF c(4)] launch_chunk_slots [OF c(5)] by simp
qed

function launch_loop :: "nat \<Rightarrow> xfer \<Rightarrow> (bool \<times> xfer) option" where
  "launch_loop now st =
     (case launch_once now st of
        None \<Rightarrow> None
      | Some (Stop starved, st) \<Rightarrow> Some (starved, st)
      | Some (More, st) \<Rightarrow> launch_loop now st)"
  by pat_completeness auto
termination
  by (relation "measure (\<lambda>(_, st). free_slots st)") (auto dest: launch_once_slots)

declare launch_loop.simps [simp del]


section \<open>The workers\<close>

text \<open>
  The end of an attempt: \<open>out\<close> is what the exchange gave (None: the deadline passed first), \<open>dec\<close>
  the time its decoding took. The bytes it counted arrive in steps of their own (\<open>WireBytes\<close>).
\<close>

definition chunk_accounting :: "nat \<Rightarrow> nat \<Rightarrow> nat \<Rightarrow> nat \<Rightarrow> nat \<Rightarrow> fetch_err + chunk \<Rightarrow> fetch_ctx \<Rightarrow> fetch_ctx" where
  "chunk_accounting now peer n elapsed dec result c =
     (let tally = (\<lambda>f c. c\<lparr>fc_tally := (fc_tally c)[peer := f (fc_tally c ! peer)]\<rparr>)
      in case result of
           Inr ch \<Rightarrow>
             let c = (if n \<ge> CHUNK_MIN
                      then observe_encoding peer elapsed ch dec
                             (record_rate peer n elapsed (c\<lparr>fc_pool := record_success peer n elapsed (fc_pool c)\<rparr>))
                      else c);
                 c = tally (\<lambda>t. t\<lparr>pt_chunks_ok := add64 (pt_chunks_ok t) 1, pt_bytes := add64 (pt_bytes t) n\<rparr>) c;
                 c = map_limit peer (limit_observe now True n) c
             in c\<lparr>fc_stats := (fc_stats c)\<lparr>fs_remote_bytes := add64 (fs_remote_bytes (fc_stats c)) n,
                    fs_wire_bytes := add64 (fs_wire_bytes (fc_stats c)) (ch_wire ch)\<rparr>\<rparr>
         | Inl _ \<Rightarrow>
             let c = tally (\<lambda>t. t\<lparr>pt_chunks_err := add64 (pt_chunks_err t) 1\<rparr>) c
             in map_limit peer (limit_observe now False 0) (c\<lparr>fc_pool := record_failure peer (fc_pool c)\<rparr>))"

definition task_result :: "xenv \<Rightarrow> nat \<Rightarrow> task \<Rightarrow> http_outcome option \<Rightarrow> health \<Rightarrow> (fetch_err + chunk) \<times> health" where
  "task_result X now t out h =
     (case out of
        Some resp \<Rightarrow>
          (case fetch_range (xe_threshold X) (xe_cooldown X) (xe_unz X) now (xe_url_ok X (tk_url t)) resp (tk_off t) (tk_off t + tk_len t) h of
             (r, h, _) \<Rightarrow> (r, h))
      | None \<Rightarrow> (Inl TimedOut, record_strike (xe_threshold X) (xe_cooldown X) now h))"

definition finish_task :: "xenv \<Rightarrow> nat \<Rightarrow> task \<Rightarrow> http_outcome option \<Rightarrow> nat \<Rightarrow> xfer \<Rightarrow> xfer" where
  "finish_task X now t out dec st =
     (let peer = tk_peer t;
          (result, h) = task_result X now t out (xf_health st ! peer);
          c = chunk_accounting now peer (tk_len t) (now - tk_started t) dec result (xf_ctx st)
      in st\<lparr>xf_health := (xf_health st)[peer := h],
            xf_ctx := map_limit peer limit_release c,
            xf_tasks := filter (\<lambda>u. tk_attempt u \<noteq> tk_attempt t) (xf_tasks st),
            xf_done := xf_done st @ [\<lparr>dn_off = tk_off t, dn_len = tk_len t, dn_peer = peer, dn_attempt = tk_attempt t, dn_result = result\<rparr>]\<rparr>)"

section \<open>A message of a worker\<close>

text \<open>The give-up floor on the bytes pulled from the network.\<close>

definition below_floor :: "nat \<Rightarrow> xfer \<Rightarrow> bool" where
  "below_floor now st \<longleftrightarrow> fc_min_bw (xf_ctx st) > 0 \<and> now - xf_t0 st > fc_grace (xf_ctx st) \<and>
     real (xf_remote st) / secs (now - xf_t0 st) < real (fc_min_bw (xf_ctx st))"

definition on_chunk :: "xenv \<Rightarrow> nat \<Rightarrow> done_msg \<Rightarrow> chunk \<Rightarrow> bool \<Rightarrow> bool \<Rightarrow> xfer \<Rightarrow> xfer_end option \<times> xfer" where
  "on_chunk X now d ch was_delivered twins_live st =
     (let st = st\<lparr>xf_remote := xf_remote st + dn_len d, xf_last_progress := now, xf_last_seen := xf_progress st, xf_streak := 0\<rparr>
      in if was_delivered then
           (let st = count (\<lambda>s. s\<lparr>fs_hedged_waste := add64 (fs_hedged_waste s) (dn_len d)\<rparr>) st
            in (None, if twins_live then st else del_flight (dn_off d) st))
         else
           let st = (if twins_live then set_flight (dn_off d) ((flight_of (dn_off d) st)\<lparr>fl_delivered := True\<rparr>) st
                     else del_flight (dn_off d) st);
               st = st\<lparr>xf_em := (xf_em st)\<lparr>em_buffered := kv_put (dn_off d) (ch_bytes ch) (em_buffered (xf_em st))\<rparr>\<rparr>;
               (r, st) = xf_pump (xe_sha X) st;
               (fin, st) = settle r st
           in case fin of
                Some e \<Rightarrow> (Some e, st)
              | None \<Rightarrow>
                  let st = st\<lparr>xf_em := (xf_em st)\<lparr>em_buffered := prune (em_pos (xf_em st)) (em_buffered (xf_em st))\<rparr>\<rparr>
                  in if below_floor now st then
                       (Some XMinBandwidth, report ''below min_bandwidth''
                          (count (\<lambda>s. s\<lparr>fs_aborts_min_bandwidth := add64 (fs_aborts_min_bandwidth s) 1\<rparr>)
                             (st\<lparr>xf_ctx := set_roaming now (xf_ctx st)\<rparr>)))
                     else (None, st))"

definition seed_rate :: "nat \<Rightarrow> nat \<Rightarrow> xfer \<Rightarrow> xfer" where
  "seed_rate now peer st =
     (if rate_of peer (xf_ctx st) \<le> 0 \<and> xf_progress st > 0 \<and> now - xf_t0 st > 5 * 10 ^ 9
      then st\<lparr>xf_ctx := record_rate peer (xf_progress st) (now - xf_t0 st) (xf_ctx st)\<rparr> else st)"

definition on_failure :: "nat \<Rightarrow> done_msg \<Rightarrow> bool \<Rightarrow> bool \<Rightarrow> xfer \<Rightarrow> xfer_end option \<times> xfer" where
  "on_failure now d was_delivered twins_live st =
     (let st = seed_rate now (dn_peer d) st;
          st = (if \<not> was_delivered \<and> \<not> twins_live then
                  (let st = count (\<lambda>s. s\<lparr>fs_requeues := add64 (fs_requeues s) 1\<rparr>) (del_flight (dn_off d) st)
                   in st\<lparr>xf_requeue := insort (dn_off d, dn_len d) (xf_requeue st), xf_gate := Some (now + 100 * 10 ^ 6)\<rparr>)
                else if \<not> twins_live then del_flight (dn_off d) st else st);
          st = st\<lparr>xf_streak := xf_streak st + 1\<rparr>
      in if xf_streak st \<ge> MAX_FAILURE_STREAK then
           (Some XStreak, report ''peers failing persistently''
              (count (\<lambda>s. s\<lparr>fs_aborts_streak := add64 (fs_aborts_streak s) 1\<rparr>) st))
         else (None, st))"

text \<open>Retire the attempt; learn whether the range is delivered and whether a twin still flies.\<close>

definition retire :: "done_msg \<Rightarrow> xfer \<Rightarrow> (bool \<times> bool) \<times> xfer" where
  "retire d st =
     (case map_of (xf_inflight st) (dn_off d) of
        None \<Rightarrow> ((True, False), st)
      | Some fl \<Rightarrow>
          let fl = fl\<lparr>fl_attempts := filter (\<lambda>(id, _). id \<noteq> dn_attempt d) (fl_attempts fl)\<rparr>
          in ((fl_delivered fl, fl_attempts fl \<noteq> []), set_flight (dn_off d) fl st))"

definition on_done :: "xenv \<Rightarrow> nat \<Rightarrow> done_msg \<Rightarrow> xfer \<Rightarrow> xfer_end option \<times> xfer" where
  "on_done X now d st =
     (let ((was_delivered, twins_live), st) = retire d st
      in case dn_result d of
           Inr ch \<Rightarrow> on_chunk X now d ch was_delivered twins_live st
         | Inl _ \<Rightarrow> on_failure now d was_delivered twins_live st)"

section \<open>The timer\<close>

definition deadlines :: "xfer \<Rightarrow> nat list" where
  "deadlines st = concat (map (\<lambda>(_, fl). map snd (fl_attempts fl)) (xf_inflight st))"

definition on_timer :: "nat \<Rightarrow> xfer \<Rightarrow> xfer_end option \<times> xfer" where
  "on_timer now st =
     (if xf_progress st \<noteq> xf_last_seen st then
        (None, st\<lparr>xf_last_seen := xf_progress st, xf_last_progress := now, xf_gate := None\<rparr>)
      else if now - xf_last_progress st \<ge> fc_stall (xf_ctx st) \<and> \<not> list_ex (\<lambda>d. d > now) (deadlines st) then
        (Some XStall, report ''transfer stalled'' (count (\<lambda>s. s\<lparr>fs_aborts_stall := add64 (fs_aborts_stall s) 1\<rparr>) st))
      else (None, st\<lparr>xf_gate := None\<rparr>))"

text \<open>When the loop wakes up by itself.\<close>

definition next_wake :: "nat \<Rightarrow> xfer \<Rightarrow> nat" where
  "next_wake now st =
     (let wake = xf_last_progress st + fc_stall (xf_ctx st);
          wake = foldl max wake (deadlines st);
          wake = (case xf_gate st of Some g \<Rightarrow> if xf_requeue st \<noteq> [] then min wake g else wake | None \<Rightarrow> wake);
          repoll = (case soonest_recovery now (map (\<lambda>p. xf_health st ! p) (peer_ids st)) of
                      Some t \<Rightarrow> t + 10 * 10 ^ 6 | None \<Rightarrow> now + 200 * 10 ^ 6)
      in if \<not> list_ex (\<lambda>t. \<not> tk_detached t) (xf_tasks st) \<and> em_pos (xf_em st) < em_end (xf_em st) then min wake repoll else wake)"

section \<open>The loop\<close>

text \<open>Leaving the loop drops the workers that are not detached, and with them their slots.\<close>

definition leave :: "xfer \<Rightarrow> xfer" where
  "leave st =
     st\<lparr>xf_ctx := fold (\<lambda>t c. map_limit (tk_peer t) limit_release c) (filter (\<lambda>t. \<not> tk_detached t) (xf_tasks st)) (xf_ctx st),
        xf_tasks := filter tk_detached (xf_tasks st), xf_done := []\<rparr>"

text \<open>The head of the loop: launch what the window and the budgets allow, then sleep.\<close>

definition resume :: "nat \<Rightarrow> xfer_end option \<times> xfer \<Rightarrow> (xfer_end option \<times> xfer) option" where
  "resume now r =
     (case r of
        (Some e, st) \<Rightarrow> Some (Some e, leave st)
      | (None, st) \<Rightarrow>
          (case launch_loop now st of
             None \<Rightarrow> None
           | Some (starved, st) \<Rightarrow> Some (None, st\<lparr>xf_wake := next_wake now st, xf_starved := starved\<rparr>)))"

datatype loop_event = Received | TimerFired | SlotFreed

text \<open>An iteration from the branch of the select that fired; None also where that branch is not ready.\<close>

definition loop_step :: "xenv \<Rightarrow> nat \<Rightarrow> loop_event \<Rightarrow> xfer \<Rightarrow> (xfer_end option \<times> xfer) option" where
  "loop_step X now ev st =
     (case ev of
        Received \<Rightarrow> (case xf_done st of [] \<Rightarrow> None | d # ds \<Rightarrow> resume now (on_done X now d (st\<lparr>xf_done := ds\<rparr>)))
      | TimerFired \<Rightarrow> if now \<ge> xf_wake st then resume now (on_timer now st) else None
      | SlotFreed \<Rightarrow> if xf_starved st then resume now (None, st) else None)"

section \<open>The start\<close>

text \<open>Up to two holders are asked for a manifest; \<open>ans p\<close> is what the exchange with \<open>p\<close> gives.\<close>

fun acquire_manifest :: "nat \<Rightarrow> xenv \<Rightarrow> nat \<Rightarrow> (nat \<Rightarrow> http_outcome option) \<Rightarrow> nat list \<Rightarrow> nat list \<Rightarrow> pool \<times> health list \<Rightarrow>
    (manifest option \<times> pool \<times> health list) option" where
  "acquire_manifest 0 X now ans avail tried (p, hs) = Some (None, p, hs)"
| "acquire_manifest (Suc k) X now ans avail tried (p, hs) =
     (case pick_among (filter (\<lambda>q. q \<notin> set tried) avail) p of
        None \<Rightarrow> None
      | Some (None, p) \<Rightarrow> Some (None, p, hs)
      | Some (Some q, p) \<Rightarrow>
          (case fetch_manifest (xe_threshold X) (xe_cooldown X) (xe_json X) mf_version VERSION now (ans q) (hs ! q) of
             (Some m, h) \<Rightarrow> Some (Some m, p, hs[q := h])
           | (None, h) \<Rightarrow> acquire_manifest k X now ans avail (tried @ [q]) (p, hs[q := h])))"

definition choose_plan :: "xenv \<Rightarrow> nat \<Rightarrow> (nat \<Rightarrow> http_outcome option) \<Rightarrow> remote_narinfo \<Rightarrow> nat list \<Rightarrow> nat \<Rightarrow> nat \<Rightarrow>
    fetch_ctx \<times> health list \<Rightarrow> (xplan \<times> fetch_ctx \<times> health list) option" where
  "choose_plan X now ans info peers start fin ch =
     (let (c, hs) = ch in
      if start = 0 \<and> fin = ri_nar_size info \<and> ri_nar_size info \<ge> MANIFEST_MIN then
        (case acquire_manifest 2 X now ans (filter (\<lambda>p. available now (hs ! p)) peers) [] (fc_pool c, hs) of
           None \<Rightarrow> None
         | Some (m, p, hs) \<Rightarrow>
             let c = c\<lparr>fc_pool := p\<rparr> in
             (case m of
                None \<Rightarrow> Some (fallback_plan start fin, c, hs)
              | Some m \<Rightarrow>
                  (case manifest_plan m info (fc_dedup_budget c) (fc_window c) of
                     Inl _ \<Rightarrow> Some (fallback_plan start fin, c, hs)
                   | Inr P \<Rightarrow> Some (P, c\<lparr>fc_stats := (fc_stats c)\<lparr>fs_manifest_plans := add64 (fs_manifest_plans (fc_stats c)) 1\<rparr>\<rparr>, hs))))
      else Some (fallback_plan start fin, c, hs))"

definition xfer_of_plan :: "nat \<Rightarrow> remote_narinfo \<Rightarrow> (nat \<times> string) list \<Rightarrow> nat \<Rightarrow> nat \<Rightarrow> xplan \<Rightarrow> sink \<Rightarrow> fetch_ctx \<Rightarrow> health list \<Rightarrow> xfer" where
  "xfer_of_plan now info sources start fin P k c hs =
     \<lparr>xf_sources = sources, xf_t0 = now,
      xf_em = \<lparr>em_spans = xp_spans P, em_lits = xp_lits P, em_span_i = 0, em_span_emitted = 0, em_pos = start, em_end = fin,
        em_full = (start = 0 \<and> fin = ri_nar_size info), em_nar_hash = ri_nar_hash info, em_hashed = [], em_buffered = [], em_held = Map.empty\<rparr>,
      xf_sink = k, xf_ranges = xp_ranges P, xf_range_i = 0, xf_range_pos = 0, xf_requeue = [], xf_inflight = [],
      xf_next_attempt = 0, xf_progress = 0, xf_last_seen = 0, xf_last_progress = now, xf_streak = 0, xf_gate = None,
      xf_remote = 0, xf_tasks = [], xf_done = [], xf_wake = now, xf_starved = False, xf_ctx = c, xf_health = hs\<rparr>"

definition run_transfer :: "xenv \<Rightarrow> nat \<Rightarrow> (nat \<Rightarrow> http_outcome option) \<Rightarrow> remote_narinfo \<Rightarrow> (nat \<times> string) list \<Rightarrow> nat \<Rightarrow> nat \<Rightarrow>
    sink \<Rightarrow> fetch_ctx \<Rightarrow> health list \<Rightarrow> (xfer_end option \<times> xfer) option" where
  "run_transfer X now ans info sources start fin k c hs =
     (let c = c\<lparr>fc_stats := (fc_stats c)\<lparr>fs_started := add64 (fs_started (fc_stats c)) 1\<rparr>\<rparr>
      in case choose_plan X now ans info (map fst sources) start fin (c, hs) of
           None \<Rightarrow> None
         | Some (P, c, hs) \<Rightarrow>
             let (r, st) = xf_pump (xe_sha X) (xfer_of_plan now info sources start fin P k c hs)
             in resume now (settle r st))"

end
