(* ===== verification/Transfer_Inv.thy ===== *)
theory Transfer_Inv
  imports Transfer_Loop Emitter_Facts
begin

text \<open>
  The invariant of a transfer: every position of the fetch ranges is owed at most once, by the
  carving cursor, the requeue heap or one flight not yet delivered; what is not owed has been
  passed by the emitter or is in its buffer; attempts, flights and messages agree.
\<close>

section \<open>Who owes a position\<close>

definition own :: "nat \<times> nat \<Rightarrow> nat \<Rightarrow> nat" where
  "own x j = (if fst x \<le> j \<and> j < fst x + snd x then 1 else 0)"

definition owns :: "(nat \<times> nat) list \<Rightarrow> nat \<Rightarrow> nat" where
  "owns xs j = sum_list (map (\<lambda>x. own x j) xs)"

definition rest_ranges :: "(nat \<times> nat) list \<Rightarrow> nat \<Rightarrow> nat \<Rightarrow> (nat \<times> nat) list" where
  "rest_ranges ranges i pos = (case drop i ranges of [] \<Rightarrow> [] | (o', l) # rs \<Rightarrow> (o' + pos, l - pos) # rs)"

definition uncarved :: "xfer \<Rightarrow> (nat \<times> nat) list" where
  "uncarved st = rest_ranges (xf_ranges st) (xf_range_i st) (xf_range_pos st)"

text \<open>The attempts that are running or whose message is queued, as (attempt, offset, length).\<close>

definition outs :: "xfer \<Rightarrow> (nat \<times> nat \<times> nat) list" where
  "outs st = map (\<lambda>t. (tk_attempt t, tk_off t, tk_len t)) (xf_tasks st) @
     map (\<lambda>d. (dn_attempt d, dn_off d, dn_len d)) (xf_done st)"

definition len_at :: "(nat \<times> nat \<times> nat) list \<Rightarrow> nat \<Rightarrow> nat" where
  "len_at xs off = (case find (\<lambda>(_, o', _). o' = off) xs of Some (_, _, l) \<Rightarrow> l | None \<Rightarrow> 0)"

definition flown :: "(nat \<times> nat \<times> nat) list \<Rightarrow> (nat \<times> flight) list \<Rightarrow> nat \<Rightarrow> nat" where
  "flown xs m j = sum_list (map (\<lambda>(off, fl). if fl_delivered fl then 0 else own (off, len_at xs off) j) m)"

definition owners :: "xfer \<Rightarrow> nat \<Rightarrow> nat" where
  "owners st j = owns (uncarved st) j + owns (xf_requeue st) j + flown (outs st) (xf_inflight st) j"

lemma owns_simps [simp]: "owns [] j = 0" "owns (x # xs) j = own x j + owns xs j" "owns (xs @ ys) j = owns xs j + owns ys j"
  by (simp_all add: owns_def)

lemma owns_insort: "owns (insort x xs) j = own x j + owns xs j"
  by (induction xs) simp_all

lemma own_split: "a \<le> l \<Longrightarrow> own (off, l) j = own (off, a) j + own (off + a, l - a) j"
  by (auto simp: own_def)

lemma own_le: "own x j \<le> 1"
  by (simp add: own_def)

lemma own_empty [simp]: "own (off, 0) j = 0"
  by (simp add: own_def)

lemma own_here [simp]: "0 < l \<Longrightarrow> own (off, l) off = 1"
  by (simp add: own_def)

text \<open>One length per offset.\<close>

definition one_len :: "(nat \<times> nat \<times> nat) set \<Rightarrow> bool" where
  "one_len S \<longleftrightarrow> (\<forall>a b off l l'. (a, off, l) \<in> S \<longrightarrow> (b, off, l') \<in> S \<longrightarrow> l = l')"

lemma len_at_eq: "one_len (set xs) \<Longrightarrow> (a, off, l) \<in> set xs \<Longrightarrow> len_at xs off = l"
proof -
  assume u: "one_len (set xs)" and m: "(a, off, l) \<in> set xs"
  obtain y where y: "find (\<lambda>(_, o', _). o' = off) xs = Some y"
    using m by (cases "find (\<lambda>(_, o', _). o' = off) xs") (auto simp: find_None_iff)
  then have "y \<in> set xs" "fst (snd y) = off" by (auto simp: find_Some_iff) (metis nth_mem)
  then have "y = (fst y, off, snd (snd y))" by (metis prod.collapse)
  then obtain b l' where "y = (b, off, l')" "(b, off, l') \<in> set xs" using \<open>y \<in> set xs\<close> by metis
  moreover have "l' = l" using u m \<open>(b, off, l') \<in> set xs\<close> unfolding one_len_def by blast
  ultimately show ?thesis using y by (simp add: len_at_def)
qed

lemma flown_Nil [simp]: "flown xs [] j = 0"
  by (simp add: flown_def)

lemma flown_Cons [simp]: "flown xs ((off, fl) # m) j = (if fl_delivered fl then 0 else own (off, len_at xs off) j) + flown xs m j"
  by (simp add: flown_def)

lemma flown_cong:
  "(\<And>off fl. (off, fl) \<in> set m \<Longrightarrow> \<not> fl_delivered fl \<Longrightarrow> len_at xs off = len_at ys off) \<Longrightarrow> flown xs m j = flown ys m j"
  unfolding flown_def by (intro arg_cong [of _ _ sum_list] map_cong) (auto split: prod.split)

lemma kv_del_absent: "off \<notin> fst ` set m \<Longrightarrow> kv_del off m = m"
  by (force simp: kv_del_def intro: filter_True)

lemma flown_del:
  assumes "distinct (map fst m)" and "map_of m off = Some fl"
  shows "flown xs m j = (if fl_delivered fl then 0 else own (off, len_at xs off) j) + flown xs (kv_del off m) j"
  using assms
proof (induction m)
  case (Cons x m)
  obtain off' fl' where x: "x = (off', fl')" by (cases x)
  show ?case
  proof (cases "off' = off")
    case True
    then have "kv_del off (x # m) = m" using Cons.prems(1) x kv_del_absent [of off m] by (simp add: kv_del_def)
    then show ?thesis using Cons.prems True x by simp
  next
    case False
    then have "kv_del off (x # m) = x # kv_del off m" using x by (simp add: kv_del_def)
    then show ?thesis using Cons False x by simp
  qed
qed simp

lemma map_of_del [simp]: "map_of (kv_del off m) off' = (if off' = off then None else map_of m off')"
  by (induction m) (auto simp: kv_del_def)

lemma distinct_del: "distinct (map fst m) \<Longrightarrow> distinct (map fst (kv_del off m))"
  by (simp add: kv_del_def distinct_map_filter)

lemma fst_del: "fst ` set (kv_del off m) = fst ` set m - {off}"
  by (force simp: kv_del_def)

lemma set_del: "set (kv_del off m) = {x \<in> set m. fst x \<noteq> off}"
  by (auto simp: kv_del_def)

section \<open>The bookkeeping\<close>

text \<open>Attempts and flights agree.\<close>

definition flights_ok :: "(nat \<times> nat \<times> nat) set \<Rightarrow> (nat \<times> flight) list \<Rightarrow> bool" where
  "flights_ok S m \<longleftrightarrow> distinct (map fst m) \<and> one_len S \<and>
     (\<forall>a off l. (a, off, l) \<in> S \<longrightarrow> 0 < l \<and> (\<exists>fl. (off, fl) \<in> set m \<and> a \<in> fst ` set (fl_attempts fl))) \<and>
     (\<forall>off fl. (off, fl) \<in> set m \<longrightarrow> fl_attempts fl \<noteq> [] \<and> (\<forall>a\<in>fst ` set (fl_attempts fl). \<exists>l. (a, off, l) \<in> S))"

definition carving_ok :: "xfer \<Rightarrow> bool" where
  "carving_ok st \<longleftrightarrow> sorted (xf_requeue st) \<and> (\<forall>x\<in>set (xf_requeue st). 0 < snd x) \<and>
     sorted_wrt (\<lambda>x y. fst x + snd x \<le> fst y) (xf_ranges st) \<and>
     (xf_range_i st < length (xf_ranges st) \<longrightarrow> xf_range_pos st \<le> snd (xf_ranges st ! xf_range_i st)) \<and>
     (\<forall>x\<in>set (xf_requeue st) \<union> snd ` set (outs st). \<forall>y\<in>set (uncarved st). fst x + snd x \<le> fst y)"

definition book_ok :: "xfer \<Rightarrow> bool" where
  "book_ok st \<longleftrightarrow> distinct (map fst (outs st)) \<and> (\<forall>x\<in>set (outs st). fst x \<le> xf_next_attempt st) \<and>
     flights_ok (set (outs st)) (xf_inflight st) \<and> carving_ok st \<and>
     (\<forall>d\<in>set (xf_done st). \<forall>ch. dn_result d = Inr ch \<longrightarrow> length (ch_bytes ch) = dn_len d) \<and>
     (\<forall>j. owners st j \<le> 1) \<and> (\<forall>off fl. (off, fl) \<in> set (xf_inflight st) \<longrightarrow> fl_delivered fl \<longrightarrow> owners st off = 0)"


section \<open>Attempts and flights\<close>

lemma flights_keys: "flights_ok S m \<Longrightarrow> (a, off, l) \<in> S \<Longrightarrow> off \<in> fst ` set m"
  unfolding flights_ok_def by force

lemma flights_add:
  assumes F: "flights_ok S m" and new: "off \<notin> fst ` set m" and ne: "fl_attempts fl \<noteq> []" and "0 < n"
  shows "flights_ok (S \<union> (\<lambda>i. (i, off, n)) ` fst ` set (fl_attempts fl)) ((off, fl) # m)" (is "flights_ok (S \<union> ?A) _")
proof -
  have old: "off' \<noteq> off" if "(i, off', l) \<in> S" for i off' l using flights_keys [OF F that] new by blast
  have oldm: "off' \<noteq> off" if "(off', g) \<in> set m" for off' g using new that by force
  have one: "one_len S" using F by (simp add: flights_ok_def)
  show ?thesis unfolding flights_ok_def
  proof (intro conjI allI impI)
    show "distinct (map fst ((off, fl) # m))" using F new by (simp add: flights_ok_def)
    show "one_len (S \<union> ?A)" using one old unfolding one_len_def by blast
  next
    fix i off' l assume i: "(i, off', l) \<in> S \<union> ?A"
    then show "0 < l" using F assms(4) unfolding flights_ok_def by blast
    show "\<exists>g. (off', g) \<in> set ((off, fl) # m) \<and> i \<in> fst ` set (fl_attempts g)"
    proof (cases "(i, off', l) \<in> S")
      case True
      then show ?thesis using F unfolding flights_ok_def by (meson list.set_intros(2))
    next
      case False
      then show ?thesis using i by auto
    qed
  next
    fix off' g assume g: "(off', g) \<in> set ((off, fl) # m)"
    show "fl_attempts g \<noteq> []" using g ne F unfolding flights_ok_def by auto
    show "\<forall>i\<in>fst ` set (fl_attempts g). \<exists>l. (i, off', l) \<in> S \<union> ?A"
    proof (cases "g = fl \<and> off' = off")
      case True
      then show ?thesis by blast
    next
      case False
      then have "(off', g) \<in> set m" using g by auto
      then show ?thesis using F unfolding flights_ok_def by blast
    qed
  qed
qed

lemma flights_retire:
  assumes F: "flights_ok S m" and a: "(a, off, l) \<in> S" and u: "\<And>off' l'. (a, off', l') \<in> S \<Longrightarrow> off' = off"
    and fl: "map_of m off = Some fl"
    and fl': "fl_attempts fl' = filter (\<lambda>(i, _). i \<noteq> a) (fl_attempts fl)"
  shows "fl_attempts fl' \<noteq> [] \<Longrightarrow> flights_ok (S - {(a, off, l)}) ((off, fl') # kv_del off m)"
    and "fl_attempts fl' = [] \<Longrightarrow> flights_ok (S - {(a, off, l)}) (kv_del off m)"
proof -
  let ?S = "S - {(a, off, l)}"
  have d: "distinct (map fst m)" and one: "one_len S" using F by (simp_all add: flights_ok_def)
  have one': "one_len ?S" using one unfolding one_len_def by blast
  have mem: "(off, g) \<in> set m \<longleftrightarrow> g = fl" for g using fl d by (metis map_of_eq_Some_iff option.inject)
  have att: "i \<in> fst ` set (fl_attempts fl') \<longleftrightarrow> i \<in> fst ` set (fl_attempts fl) \<and> i \<noteq> a" for i by (force simp: fl')
  have out: "0 < l' \<and> (\<exists>g. (off', g) \<in> set m \<and> i \<in> fst ` set (fl_attempts g))" if "(i, off', l') \<in> S" for i off' l'
    using F that unfolding flights_ok_def by blast
  have conv: "\<exists>l'. (i, off', l') \<in> S" if "(off', g) \<in> set m" "i \<in> fst ` set (fl_attempts g)" for off' g i
    using F that unfolding flights_ok_def by blast
  have ne: "fl_attempts g \<noteq> []" if "(off', g) \<in> set m" for off' g using F that unfolding flights_ok_def by blast
  have lo: "l' = l" if "(i, off, l') \<in> S" for i l' using one a that unfolding one_len_def by blast
  have conv': "\<exists>l'. (i, off', l') \<in> ?S" if "(off', g) \<in> set m" "off' \<noteq> off" "i \<in> fst ` set (fl_attempts g)" for off' g i
    using conv [OF that(1,3)] that(2) by blast
  have here: "i \<in> fst ` set (fl_attempts fl')" if "(i, off, l') \<in> ?S" for i l'
  proof -
    have "i \<noteq> a" using that lo by blast
    moreover have "i \<in> fst ` set (fl_attempts fl)" using out [of i off l'] that unfolding mem by blast
    ultimately show ?thesis by (simp only: att simp_thms)
  qed
  have here': "\<exists>l'. (i, off, l') \<in> ?S" if "i \<in> fst ` set (fl_attempts fl')" for i
    using conv [of off fl i] mem att that by blast
  show "flights_ok ?S ((off, fl') # kv_del off m)" if "fl_attempts fl' \<noteq> []"
    unfolding flights_ok_def
  proof (intro conjI allI impI)
    show "distinct (map fst ((off, fl') # kv_del off m))" using distinct_del [OF d, of off] by (simp add: fst_del)
    show "one_len ?S" by (rule one')
  next
    fix i off' l' assume i: "(i, off', l') \<in> ?S"
    then show "0 < l'" using out by blast
    show "\<exists>g. (off', g) \<in> set ((off, fl') # kv_del off m) \<and> i \<in> fst ` set (fl_attempts g)"
      using i here out [of i off' l'] by (cases "off' = off") (auto simp: set_del)
  next
    fix off' g assume g: "(off', g) \<in> set ((off, fl') # kv_del off m)"
    show "fl_attempts g \<noteq> []" using g that ne by (auto simp: set_del)
    show "\<forall>i\<in>fst ` set (fl_attempts g). \<exists>l'. (i, off', l') \<in> ?S"
      using g here' conv' by (cases "off' = off") (auto simp: set_del)
  qed
  show "flights_ok ?S (kv_del off m)" if "fl_attempts fl' = []"
    unfolding flights_ok_def
  proof (intro conjI allI impI)
    show "distinct (map fst (kv_del off m))" by (rule distinct_del [OF d])
    show "one_len ?S" by (rule one')
  next
    fix i off' l' assume i: "(i, off', l') \<in> ?S"
    then show "0 < l'" using out by blast
    have "off' \<noteq> off" using here i that by fastforce
    then show "\<exists>g. (off', g) \<in> set (kv_del off m) \<and> i \<in> fst ` set (fl_attempts g)"
      using out [of i off' l'] i by (auto simp: set_del)
  next
    fix off' g assume g: "(off', g) \<in> set (kv_del off m)"
    show "fl_attempts g \<noteq> []" using g ne by (auto simp: set_del)
    have "(off', g) \<in> set m" "off' \<noteq> off" using g by (simp_all add: set_del)
    then show "\<forall>i\<in>fst ` set (fl_attempts g). \<exists>l'. (i, off', l') \<in> ?S" using conv' by blast
  qed
qed

text \<open>The length of a flight does not depend on which attempts are left.\<close>

lemma len_at_stable:
  assumes "flights_ok (set ys) m" and "(off, fl) \<in> set m" and "one_len (set xs)" and "set ys \<subseteq> set xs"
  shows "len_at xs off = len_at ys off"
proof -
  obtain a l where "(a, off, l) \<in> set ys"
    using assms(1,2) unfolding flights_ok_def by (metis image_eqI list.set_intros(1) neq_Nil_conv)
  moreover have "one_len (set ys)" using assms(1) by (simp add: flights_ok_def)
  ultimately show ?thesis using len_at_eq assms(3,4) by (metis subsetD)
qed

lemma flown_stable:
  assumes "flights_ok (set ys) m" and "one_len (set xs)" and "set ys \<subseteq> set xs" and "set m' \<subseteq> set m"
  shows "flown xs m' j = flown ys m' j"
  by (rule flown_cong) (use len_at_stable [OF assms(1) _ assms(2,3)] assms(4) in blast)

section \<open>Carving\<close>

lemma rest_ranges_nth:
  "i < length rs \<Longrightarrow> rest_ranges rs i pos = (fst (rs ! i) + pos, snd (rs ! i) - pos) # drop (Suc i) rs"
  by (simp add: rest_ranges_def Cons_nth_drop_Suc [symmetric] split: prod.split)

lemma rest_ranges_end: "length rs \<le> i \<Longrightarrow> rest_ranges rs i pos = []"
  by (simp add: rest_ranges_def)

lemma rest_ranges_0: "set (rest_ranges rs i 0) = set (drop i rs)" "owns (rest_ranges rs i 0) j = owns (drop i rs) j"
  by (cases "drop i rs"; simp add: rest_ranges_def split: prod.split)+

lemma advance_ok:
  assumes "advance ranges i pos = (i', pos')" and "i < length ranges \<longrightarrow> pos \<le> snd (ranges ! i)"
  shows "owns (rest_ranges ranges i' pos') j = owns (rest_ranges ranges i pos) j \<and>
    set (rest_ranges ranges i' pos') \<subseteq> set (rest_ranges ranges i pos) \<and> (i' < length ranges \<longrightarrow> pos' < snd (ranges ! i'))"
  using assms
proof (induction ranges i pos rule: advance.induct)
  case (1 ranges i pos)
  show ?case
  proof (cases "i < length ranges \<and> pos \<ge> snd (ranges ! i)")
    case True
    have "advance ranges (i + 1) 0 = (i', pos')" using "1.prems"(1) True by (subst (asm) advance.simps) simp
    moreover have "pos = snd (ranges ! i)" using True "1.prems"(2) by simp
    ultimately show ?thesis using "1.IH" [OF True] True by (auto simp: rest_ranges_nth rest_ranges_0)
  next
    case False
    then show ?thesis using "1.prems" by (subst (asm) advance.simps) auto
  qed
qed


section \<open>Launching keeps the books\<close>

text \<open>States that differ in nothing the books are about, and what launching leaves alone.\<close>

definition same_books :: "xfer \<Rightarrow> xfer \<Rightarrow> bool" where
  "same_books st st' \<longleftrightarrow> xf_tasks st' = xf_tasks st \<and> xf_done st' = xf_done st \<and> xf_inflight st' = xf_inflight st \<and>
     xf_next_attempt st' = xf_next_attempt st \<and> xf_requeue st' = xf_requeue st \<and> xf_ranges st' = xf_ranges st \<and>
     xf_range_i st' = xf_range_i st \<and> xf_range_pos st' = xf_range_pos st"

lemma same_books_ok:
  assumes "same_books st st'"
  shows "owners st' = owners st" and "book_ok st' = book_ok st"
proof -
  have o: "outs st' = outs st" "uncarved st' = uncarved st" using assms by (simp_all add: same_books_def outs_def uncarved_def)
  then show w: "owners st' = owners st" using assms by (auto simp: same_books_def owners_def)
  show "book_ok st' = book_ok st" using assms o w by (simp add: same_books_def book_ok_def carving_ok_def)
qed

definition cfg_of :: "fetch_ctx \<Rightarrow> nat \<times> nat" where
  "cfg_of c = (fc_window c, fc_chunk_max c)"

definition frame :: "xfer \<Rightarrow> xfer \<Rightarrow> bool" where
  "frame st st' \<longleftrightarrow> xf_em st' = xf_em st \<and> xf_sink st' = xf_sink st \<and> xf_ranges st' = xf_ranges st \<and> xf_done st' = xf_done st \<and>
     xf_sources st' = xf_sources st \<and> xf_gate st' = xf_gate st \<and> cfg_of (xf_ctx st') = cfg_of (xf_ctx st)"

lemma frame_refl [simp]: "frame st st"
  by (simp add: frame_def)

lemma frame_trans: "frame a b \<Longrightarrow> frame b c \<Longrightarrow> frame a c"
  by (simp add: frame_def)

lemma cfg_map [simp]: "cfg_of (map_net p f c) = cfg_of c" "cfg_of (map_limit p g c) = cfg_of c"
  by (simp_all add: cfg_of_def map_net_def map_limit_def)

lemma cfg_upd [simp]: "cfg_of (c\<lparr>fc_pool := p\<rparr>) = cfg_of c" "cfg_of (c\<lparr>fc_stats := s\<rparr>) = cfg_of c" "cfg_of (c\<lparr>fc_tally := t\<rparr>) = cfg_of c"
  by (simp_all add: cfg_of_def)

text \<open>The candidate of a round.\<close>

lemma carve_ok:
  assumes c: "carve st = (r, st1)" and b: "book_ok st"
  shows "book_ok st1 \<and> owners st1 = owners st \<and> frame st st1 \<and> xf_ctx st1 = xf_ctx st \<and> xf_health st1 = xf_health st \<and> xf_requeue st1 = xf_requeue st \<and>
    (case r of None \<Rightarrow> uncarved st1 = []
     | Some (off, q) \<Rightarrow> q = None \<and> xf_range_i st1 < length (xf_ranges st1) \<and> xf_range_pos st1 < snd (xf_ranges st1 ! xf_range_i st1) \<and>
         off = fst (xf_ranges st1 ! xf_range_i st1) + xf_range_pos st1)"
proof -
  obtain i pos where a: "advance (xf_ranges st) (xf_range_i st) (xf_range_pos st) = (i, pos)" by fastforce
  have st1: "st1 = st\<lparr>xf_range_i := i, xf_range_pos := pos\<rparr>"
    and r: "r = (if i \<ge> length (xf_ranges st) then None else Some (fst (xf_ranges st ! i) + pos, None))"
    using c a by (auto simp: carve_def Let_def)
  have "xf_range_i st < length (xf_ranges st) \<longrightarrow> xf_range_pos st \<le> snd (xf_ranges st ! xf_range_i st)"
    using b by (simp add: book_ok_def carving_ok_def)
  note adv = advance_ok [OF a this]
  have u: "owns (uncarved st1) j = owns (uncarved st) j" "set (uncarved st1) \<subseteq> set (uncarved st)" for j
    using adv by (simp_all add: uncarved_def st1)
  have o: "outs st1 = outs st" by (simp add: outs_def st1)
  have w: "owners st1 = owners st" by (rule ext) (simp add: owners_def u(1) o, simp add: st1)
  have "\<forall>x\<in>set (xf_requeue st) \<union> snd ` set (outs st). \<forall>y\<in>set (uncarved st1). fst x + snd x \<le> fst y"
    using b u(2) unfolding book_ok_def carving_ok_def by blast
  moreover have "i < length (xf_ranges st) \<longrightarrow> pos \<le> snd (xf_ranges st ! i)" using adv [of 0] by auto
  ultimately have "carving_ok st1" using b unfolding book_ok_def carving_ok_def o by (simp add: st1)
  then have "book_ok st1" using b unfolding book_ok_def o w by (simp add: st1)
  moreover have "uncarved st1 = []" if "i \<ge> length (xf_ranges st)" using that by (simp add: uncarved_def st1 rest_ranges_end)
  ultimately show ?thesis using adv w r by (auto simp: frame_def st1)
qed

lemma candidate_ok:
  assumes c: "candidate now st = (r, st1)" and b: "book_ok st"
  shows "book_ok st1 \<and> owners st1 = owners st \<and> frame st st1 \<and> xf_ctx st1 = xf_ctx st \<and> xf_health st1 = xf_health st \<and>
    (case r of None \<Rightarrow> uncarved st1 = [] \<and> (xf_requeue st1 = [] \<or> gated now st)
     | Some (off, Some l) \<Rightarrow> (\<exists>rest. xf_requeue st1 = (off, l) # rest)
     | Some (off, None) \<Rightarrow> xf_range_i st1 < length (xf_ranges st1) \<and> xf_range_pos st1 < snd (xf_ranges st1 ! xf_range_i st1) \<and>
         off = fst (xf_ranges st1 ! xf_range_i st1) + xf_range_pos st1 \<and> (xf_requeue st1 = [] \<or> gated now st))"
proof (cases "xf_requeue st = [] \<or> gated now st")
  case True
  then have "carve st = (r, st1)" using c by (auto simp: candidate_def split: list.splits)
  from carve_ok [OF this b] True show ?thesis by (auto split: option.splits)
next
  case False
  then obtain off l rest where "xf_requeue st = (off, l) # rest" by (cases "xf_requeue st") auto
  then show ?thesis using c False b by (auto simp: candidate_def)
qed

text \<open>Between taking the work and starting its attempts nobody owes it.\<close>

definition hole :: "nat \<Rightarrow> nat \<Rightarrow> xfer \<Rightarrow> bool" where
  "hole off n st \<longleftrightarrow> 0 < n \<and> off \<notin> fst ` set (xf_inflight st) \<and>
     distinct (map fst (outs st)) \<and> (\<forall>x\<in>set (outs st). fst x \<le> xf_next_attempt st) \<and>
     flights_ok (set (outs st)) (xf_inflight st) \<and> carving_ok st \<and> (\<forall>y\<in>set (uncarved st). off + n \<le> fst y) \<and>
     (\<forall>d\<in>set (xf_done st). \<forall>ch. dn_result d = Inr ch \<longrightarrow> length (ch_bytes ch) = dn_len d) \<and>
     (\<forall>j. owners st j + own (off, n) j \<le> 1) \<and>
     (\<forall>o' fl. (o', fl) \<in> set (xf_inflight st) \<longrightarrow> fl_delivered fl \<longrightarrow> owners st o' + own (off, n) o' = 0)"

text \<open>Work that is owed at \<open>off\<close> by the cursor or the heap is in no flight.\<close>

lemma fresh_offset:
  assumes b: "book_ok st" and "0 < l" and o: "\<And>j. own (off, l) j \<le> owns (uncarved st) j + owns (xf_requeue st) j"
  shows "off \<notin> fst ` set (xf_inflight st)"
proof
  assume "off \<in> fst ` set (xf_inflight st)"
  then obtain fl where fl: "(off, fl) \<in> set (xf_inflight st)" by force
  have F: "flights_ok (set (outs st)) (xf_inflight st)" using b by (simp add: book_ok_def)
  have here: "1 \<le> owns (uncarved st) off + owns (xf_requeue st) off" using o [of off] assms(2) by simp
  have m: "map_of (xf_inflight st) off = Some fl" using fl F by (simp add: flights_ok_def)
  show False
  proof (cases "fl_delivered fl")
    case True
    then have "owners st off = 0" using b fl by (auto simp: book_ok_def)
    then show False using here by (simp add: owners_def)
  next
    case False
    obtain a l' where a: "(a, off, l') \<in> set (outs st)"
      using F fl unfolding flights_ok_def by (metis image_eqI list.set_intros(1) neq_Nil_conv)
    then have "0 < l'" "len_at (outs st) off = l'" using F len_at_eq unfolding flights_ok_def by blast+
    then have "1 \<le> flown (outs st) (xf_inflight st) off"
      using flown_del [OF _ m, of "outs st" off] F False by (simp add: flights_ok_def)
    moreover have "owners st off \<le> 1" using b by (simp add: book_ok_def)
    ultimately show False using here by (simp add: owners_def)
  qed
qed


definition cfg_ok :: "fetch_ctx \<Rightarrow> bool" where
  "cfg_ok c \<longleftrightarrow> CHUNK_MIN \<le> fc_chunk_max c \<and> fc_chunk_max c \<le> u64_max \<and> 0 < fc_window c"

lemma cfg_ok_cong: "cfg_of c' = cfg_of c \<Longrightarrow> cfg_ok c' = cfg_ok c"
  by (simp add: cfg_of_def cfg_ok_def)

lemma chunk_size_ok: "cfg_ok c \<Longrightarrow> 0 < chunk_size p c \<and> chunk_size p c \<le> u64_max"
  using chunk_size_bounds [of c p] by (auto simp: cfg_ok_def CHUNK_MIN_def)

definition work_at :: "nat \<Rightarrow> nat option \<Rightarrow> xfer \<Rightarrow> bool" where
  "work_at off queued st \<longleftrightarrow>
     (case queued of
        Some l \<Rightarrow> (\<exists>rest. xf_requeue st = (off, l) # rest)
      | None \<Rightarrow> xf_range_i st < length (xf_ranges st) \<and> xf_range_pos st < snd (xf_ranges st ! xf_range_i st) \<and>
          off = fst (xf_ranges st ! xf_range_i st) + xf_range_pos st)"

definition takes :: "nat \<Rightarrow> nat \<Rightarrow> xfer \<Rightarrow> xfer \<Rightarrow> bool" where
  "takes off n st st' \<longleftrightarrow> hole off n st' \<and> (\<forall>j. owners st' j + own (off, n) j = owners st j) \<and> frame st st' \<and>
     xf_ctx st' = xf_ctx st \<and> xf_health st' = xf_health st"

lemma takesI:
  assumes b: "book_ok st" and n: "0 < n" "off \<notin> fst ` set (xf_inflight st)" and c: "carving_ok st'" "\<forall>y\<in>set (uncarved st'). off + n \<le> fst y"
    and o: "\<And>j. owners st' j + own (off, n) j = owners st j"
    and e: "outs st' = outs st" "xf_inflight st' = xf_inflight st" "xf_next_attempt st' = xf_next_attempt st" "frame st st'"
      "xf_ctx st' = xf_ctx st" "xf_health st' = xf_health st"
  shows "takes off n st st'"
  using b n c o e unfolding takes_def hole_def book_ok_def frame_def by simp

lemma take_requeued:
  assumes b: "book_ok st" and cfg: "cfg_ok (xf_ctx st)" and q: "xf_requeue st = (off, l) # rest"
    and t: "take_work lead off (Some l) st = (n, st')"
  shows "takes off n st st'"
proof -
  let ?cs = "chunk_size lead (xf_ctx st)"
  have cs: "0 < ?cs" "?cs \<le> u64_max" using chunk_size_ok [OF cfg] by blast+
  have C: "sorted rest" "0 < l" "\<forall>x\<in>set rest. 0 < snd x" "\<forall>y\<in>set (uncarved st). off + l \<le> fst y"
    "\<forall>x\<in>set rest \<union> snd ` set (outs st). \<forall>y\<in>set (uncarved st). fst x + snd x \<le> fst y"
    using b q unfolding book_ok_def carving_ok_def by auto
  have fresh: "off \<notin> fst ` set (xf_inflight st)" by (rule fresh_offset [OF b C(2)]) (simp add: q)
  show ?thesis
  proof (cases "l > min (?cs * 2) u64_max")
    case True
    have le: "?cs < l" using True cs by (simp add: min_def split: if_splits)
    have st': "n = ?cs" "st' = st\<lparr>xf_requeue := insort (off + ?cs, l - ?cs) rest\<rparr>" using t True q by (auto simp: take_work_def Let_def)
    have o: "outs st' = outs st" "uncarved st' = uncarved st" by (simp_all add: st' outs_def uncarved_def)
    show ?thesis
    proof (rule takesI [OF b])
      show "0 < n" "off \<notin> fst ` set (xf_inflight st)" using cs fresh st' by simp_all
      show "carving_ok st'" using b C le unfolding book_ok_def carving_ok_def o
        by (simp add: st'(2) sorted_insort set_insort_key) 
      show "\<forall>y\<in>set (uncarved st'). off + n \<le> fst y" using C(4) le st'(1) o(2) by fastforce
      show "owners st' j + own (off, n) j = owners st j" for j
        using own_split [of ?cs l off j] le unfolding owners_def o by (simp add: st' q owns_insort)
    qed (simp_all add: outs_def st'(2) frame_def)
  next
    case False
    then have st': "n = l" "st' = st\<lparr>xf_requeue := rest\<rparr>" using t q by (auto simp: take_work_def Let_def)
    have o: "outs st' = outs st" "uncarved st' = uncarved st" by (simp_all add: st' outs_def uncarved_def)
    show ?thesis
    proof (rule takesI [OF b])
      show "0 < n" "off \<notin> fst ` set (xf_inflight st)" using C(2) fresh st' by simp_all
      show "carving_ok st'" using b C unfolding book_ok_def carving_ok_def o by (simp add: st'(2))
      show "\<forall>y\<in>set (uncarved st'). off + n \<le> fst y" using C(4) st'(1) o(2) by simp
      show "owners st' j + own (off, n) j = owners st j" for j unfolding owners_def o by (simp add: st' q)
    qed (simp_all add: outs_def st'(2) frame_def)
  qed
qed

lemma take_fresh:
  assumes b: "book_ok st" and cfg: "cfg_ok (xf_ctx st)" and i: "xf_range_i st < length (xf_ranges st)"
    and p: "xf_range_pos st < snd (xf_ranges st ! xf_range_i st)" and off: "off = fst (xf_ranges st ! xf_range_i st) + xf_range_pos st"
    and t: "take_work lead off None st = (n, st')"
  shows "takes off n st st'"
proof -
  let ?r = "xf_ranges st ! xf_range_i st" and ?pos = "xf_range_pos st" and ?rs = "drop (Suc (xf_range_i st)) (xf_ranges st)"
  have n: "n = min (chunk_size lead (xf_ctx st)) (snd ?r - ?pos)" "st' = st\<lparr>xf_range_pos := ?pos + n\<rparr>"
    using t by (auto simp: take_work_def Let_def)
  have n': "0 < n" "?pos + n \<le> snd ?r" using n(1) chunk_size_ok [OF cfg, of lead] p by auto
  have u: "uncarved st = (off, snd ?r - ?pos) # ?rs" "uncarved st' = (off + n, snd ?r - ?pos - n) # ?rs"
    using i off by (simp_all add: uncarved_def rest_ranges_nth n(2))
  have o: "outs st' = outs st" by (simp add: n(2) outs_def)
  have C: "sorted_wrt (\<lambda>x y. fst x + snd x \<le> fst y) (xf_ranges st)"
    "\<forall>x\<in>set (xf_requeue st) \<union> snd ` set (outs st). \<forall>y\<in>set (uncarved st). fst x + snd x \<le> fst y"
    using b unfolding book_ok_def carving_ok_def by blast+
  have srt: "sorted_wrt (\<lambda>x y. fst x + snd x \<le> fst y) (?r # ?rs)"
    using C(1) Cons_nth_drop_Suc [OF i] by (metis append_take_drop_id sorted_wrt_append)
  have here: "off + n \<le> fst y" if "y \<in> set (uncarved st')" for y
  proof (cases "y \<in> set ?rs")
    case True
    then have "fst ?r + snd ?r \<le> fst y" using srt by simp
    then show ?thesis using off n'(2) by linarith
  qed (use that u(2) in auto)
  have fresh: "off \<notin> fst ` set (xf_inflight st)"
    by (rule fresh_offset [OF b, of "snd ?r - ?pos"]) (use p u(1) in simp_all)
  show ?thesis
  proof (rule takesI [OF b n'(1) fresh])
    have "fst x + snd x \<le> fst y" if "x \<in> set (xf_requeue st) \<union> snd ` set (outs st)" "y \<in> set (uncarved st')" for x y
    proof (cases "y \<in> set ?rs")
      case True
      then show ?thesis using C(2) that(1) u(1) by auto
    next
      case False
      then have "fst y = off + n" using that(2) u(2) by auto
      moreover have "fst x + snd x \<le> off" using bspec [OF bspec [OF C(2) that(1)], of "(off, snd ?r - ?pos)"] u(1) by simp
      ultimately show ?thesis by simp
    qed
    then show "carving_ok st'" using b n'(2) unfolding book_ok_def carving_ok_def o by (simp add: n(2))
    show "\<forall>y\<in>set (uncarved st'). off + n \<le> fst y" using here by blast
    show "owners st' j + own (off, n) j = owners st j" for j
      using own_split [of n "snd ?r - ?pos" off j] n'(2) unfolding owners_def o u by (simp add: n(2))
  qed (simp_all add: outs_def n(2) frame_def)
qed

lemma take_work_ok:
  assumes "book_ok st" and "cfg_ok (xf_ctx st)" and "work_at off queued st" and "take_work lead off queued st = (n, st')"
  shows "takes off n st st'"
proof (cases queued)
  case None
  then show ?thesis using assms take_fresh by (simp add: work_at_def)
next
  case (Some l)
  then show ?thesis using assms take_requeued by (auto simp: work_at_def)
qed


lemma kv_del_Cons_same [simp]: "kv_del k ((k, v) # m) = kv_del k m"
  by (simp add: kv_del_def)

lemma kv_del_idem [simp]: "kv_del k (kv_del k m) = kv_del k m"
  by (simp add: kv_del_def)

definition spawns :: "nat \<Rightarrow> nat \<Rightarrow> (nat \<times> nat) list \<Rightarrow> xfer \<Rightarrow> xfer \<Rightarrow> bool" where
  "spawns off n atts st st' \<longleftrightarrow> atts \<noteq> [] \<and> distinct (map fst atts) \<and>
     (\<exists>ts. xf_tasks st' = xf_tasks st @ ts \<and> map (\<lambda>t. (tk_attempt t, tk_off t, tk_len t)) ts = map (\<lambda>i. (i, off, n)) (map fst atts)) \<and>
     xf_inflight st' = (off, \<lparr>fl_attempts = atts, fl_delivered = False\<rparr>) # kv_del off (xf_inflight st) \<and>
     (\<forall>i\<in>set (map fst atts). xf_next_attempt st < i \<and> i \<le> xf_next_attempt st') \<and> xf_next_attempt st \<le> xf_next_attempt st' \<and>
     frame st st' \<and> xf_requeue st' = xf_requeue st \<and> xf_range_i st' = xf_range_i st \<and> xf_range_pos st' = xf_range_pos st \<and>
     xf_health st' = xf_health st"

lemma spawn_attempt_eq:
  assumes "spawn_attempt now off n peer d st = Some st'"
  obtains t dl where "tk_attempt t = xf_next_attempt st + 1" and "tk_off t = off" and "tk_len t = n" and
    "st' = set_flight off ((flight_of off st)\<lparr>fl_attempts := fl_attempts (flight_of off st) @ [(xf_next_attempt st + 1, dl)]\<rparr>)
       (st\<lparr>xf_next_attempt := xf_next_attempt st + 1, xf_tasks := xf_tasks st @ [t]\<rparr>)"
proof -
  obtain url where "map_of (rev (xf_sources st)) peer = Some url" using assms by (auto simp: spawn_attempt_def split: option.splits)
  then show ?thesis
    using assms by (intro that [of "\<lparr>tk_off = off, tk_len = n, tk_peer = peer, tk_attempt = xf_next_attempt st + 1, tk_url = url,
      tk_level = zstd_level peer (xf_ctx st), tk_deadline_at = now + chunk_deadline peer n (xf_ctx st), tk_started = now, tk_detached = d\<rparr>"
      "now + chunk_deadline peer n (xf_ctx st)"]) (simp_all add: spawn_attempt_def Let_def)
qed

lemma launch_chunk_spawns:
  assumes l: "launch_chunk now off n primary partner st = Some st'" and new: "off \<notin> fst ` set (xf_inflight st)"
    and some: "primary \<noteq> None \<or> partner \<noteq> None"
  shows "\<exists>atts. spawns off n atts st st'"
proof -
  have none: "map_of (xf_inflight st) off = None" using new by (simp add: map_of_eq_None_iff)
  show ?thesis
  proof (cases primary)
    case p: None
    then obtain q where q: "partner = Some q" using some by blast
    let ?st = "count (\<lambda>s. s\<lparr>fs_hedges := add64 (fs_hedges s) 1, fs_hedge_bytes := add64 (fs_hedge_bytes s) n\<rparr>) st"
    have "spawn_attempt now off n q True ?st = Some st'" using l p q by (simp add: launch_chunk_def)
    then obtain t dl where "tk_attempt t = xf_next_attempt ?st + 1" "tk_off t = off" "tk_len t = n"
      "st' = set_flight off ((flight_of off ?st)\<lparr>fl_attempts := fl_attempts (flight_of off ?st) @ [(xf_next_attempt ?st + 1, dl)]\<rparr>)
         (?st\<lparr>xf_next_attempt := xf_next_attempt ?st + 1, xf_tasks := xf_tasks ?st @ [t]\<rparr>)" by (rule spawn_attempt_eq)
    then show ?thesis using none
      by (intro exI [of _ "[(xf_next_attempt st + 1, dl)]"]) (simp add: spawns_def set_flight_def flight_of_def count_def frame_def)
  next
    case p: (Some p)
    obtain st1 where s: "spawn_attempt now off n p (partner \<noteq> None) st = Some st1"
      using l p by (auto simp: launch_chunk_def split: bind_splits)
    then obtain t dl where t: "tk_attempt t = xf_next_attempt st + 1" "tk_off t = off" "tk_len t = n"
      "st1 = set_flight off ((flight_of off st)\<lparr>fl_attempts := fl_attempts (flight_of off st) @ [(xf_next_attempt st + 1, dl)]\<rparr>)
         (st\<lparr>xf_next_attempt := xf_next_attempt st + 1, xf_tasks := xf_tasks st @ [t]\<rparr>)" by (rule spawn_attempt_eq)
    show ?thesis
    proof (cases partner)
      case None
      then have "st' = st1" using l p s by (simp add: launch_chunk_def)
      then show ?thesis using none t
        by (intro exI [of _ "[(xf_next_attempt st + 1, dl)]"]) (simp add: spawns_def set_flight_def flight_of_def frame_def)
    next
      case (Some q)
      let ?st = "count (\<lambda>s. s\<lparr>fs_hedges := add64 (fs_hedges s) 1, fs_hedge_bytes := add64 (fs_hedge_bytes s) n\<rparr>) st1"
      have "spawn_attempt now off n q True ?st = Some st'" using l p s Some by (simp add: launch_chunk_def)
      then obtain t' dl' where "tk_attempt t' = xf_next_attempt ?st + 1" "tk_off t' = off" "tk_len t' = n"
        "st' = set_flight off ((flight_of off ?st)\<lparr>fl_attempts := fl_attempts (flight_of off ?st) @ [(xf_next_attempt ?st + 1, dl')]\<rparr>)
           (?st\<lparr>xf_next_attempt := xf_next_attempt ?st + 1, xf_tasks := xf_tasks ?st @ [t']\<rparr>)" by (rule spawn_attempt_eq)
      then show ?thesis using none t
        by (intro exI [of _ "[(xf_next_attempt st + 1, dl), (xf_next_attempt st + 2, dl')]"])
          (simp add: spawns_def set_flight_def flight_of_def count_def frame_def)
    qed
  qed
qed

lemma spawns_ok:
  assumes h: "hole off n st" and s: "spawns off n atts st st'"
  shows "book_ok st' \<and> (\<forall>j. owners st' j = owners st j + own (off, n) j)"
proof -
  let ?fl = "\<lparr>fl_attempts = atts, fl_delivered = False\<rparr>" and ?new = "map (\<lambda>i. (i, off, n)) (map fst atts)"
  obtain ts where ts: "xf_tasks st' = xf_tasks st @ ts" "map (\<lambda>t. (tk_attempt t, tk_off t, tk_len t)) ts = ?new"
    using s by (auto simp: spawns_def)
  have dsame: "xf_done st' = xf_done st" using s by (simp add: spawns_def frame_def)
  have so: "set (outs st') = set (outs st) \<union> set ?new" unfolding outs_def dsame ts(1) map_append ts(2) by auto
  have H: "0 < n" "off \<notin> fst ` set (xf_inflight st)" "distinct (map fst (outs st))" "\<forall>x\<in>set (outs st). fst x \<le> xf_next_attempt st"
    "flights_ok (set (outs st)) (xf_inflight st)" using h by (simp_all add: hole_def)
  have fl: "xf_inflight st' = (off, ?fl) # xf_inflight st" using s kv_del_absent [OF H(2)] by (simp add: spawns_def)
  have newids: "\<forall>i\<in>set (map fst atts). xf_next_attempt st < i \<and> i \<le> xf_next_attempt st'" "xf_next_attempt st \<le> xf_next_attempt st'"
    using s by (simp_all add: spawns_def)
  have d: "distinct (map fst (outs st'))"
  proof -
    have old: "fst ` set (outs st) \<inter> set (map fst atts) = {}" using H(4) newids(1) by fastforce
    have "map fst (map (\<lambda>t. (tk_attempt t, tk_off t, tk_len t)) ts) = map fst atts" unfolding ts(2) by simp
    then have "map tk_attempt ts = map fst atts" by (simp add: comp_def)
    then show ?thesis using H(3) s old unfolding outs_def dsame ts(1) by (simp add: spawns_def comp_def image_Un image_image) blast
  qed
  have "set ?new = (\<lambda>i. (i, off, n)) ` fst ` set (fl_attempts ?fl)" by (simp add: image_image)
  then have F: "flights_ok (set (outs st')) (xf_inflight st')"
    using flights_add [OF H(5,2) _ H(1), of ?fl] s so fl by (simp add: spawns_def)
  have one: "one_len (set (outs st'))" using F by (simp add: flights_ok_def)
  obtain i where i: "(i, off, n) \<in> set (outs st')" using s so by (cases atts) (auto simp: spawns_def)
  have fo: "flown (outs st') (xf_inflight st') j = own (off, n) j + flown (outs st) (xf_inflight st) j" for j
    using flown_stable [OF H(5) one, of "xf_inflight st" j] so by (simp add: fl len_at_eq [OF one i])
  have u: "uncarved st' = uncarved st" "xf_requeue st' = xf_requeue st" using s by (simp_all add: spawns_def frame_def uncarved_def)
  have w: "owners st' j = owners st j + own (off, n) j" for j by (simp add: owners_def u fo)
  have C: "carving_ok st" "\<forall>y\<in>set (uncarved st). off + n \<le> fst y" using h by (simp_all add: hole_def)
  have "carving_ok st'" unfolding carving_ok_def u so
    using C s by (auto simp: carving_ok_def spawns_def frame_def)
  moreover have "\<forall>x\<in>set (outs st'). fst x \<le> xf_next_attempt st'" using H(4) newids so by fastforce
  moreover have "\<forall>j. owners st' j \<le> 1" using h w by (simp add: hole_def)
  moreover have "owners st' o' = 0" if "(o', fl) \<in> set (xf_inflight st')" "fl_delivered fl" for o' fl
    using that h w by (auto simp: hole_def fl)
  moreover have "\<forall>d\<in>set (xf_done st'). \<forall>ch. dn_result d = Inr ch \<longrightarrow> length (ch_bytes ch) = dn_len d"
    using h dsame by (simp add: hole_def)
  ultimately show ?thesis using d F w unfolding book_ok_def by blast
qed

text \<open>A round of the launch loop keeps the books and owes the same positions.\<close>

definition launched :: "xfer \<Rightarrow> xfer \<Rightarrow> bool" where
  "launched st st' \<longleftrightarrow> book_ok st' \<and> owners st' = owners st \<and> frame st st' \<and> xf_health st' = xf_health st"

lemma launched_trans: "launched a b \<Longrightarrow> launched b c \<Longrightarrow> launched a c"
  by (auto simp: launched_def intro: frame_trans)

lemma acquire_same: "acquire p st = Some (ok, st') \<Longrightarrow> same_books st st' \<and> frame st st' \<and> xf_health st' = xf_health st"
  by (auto simp: acquire_def same_books_def frame_def split: if_splits prod.splits)

lemma with_pool_same: "same_books st (with_pool p st) \<and> frame st (with_pool p st) \<and> xf_health (with_pool p st) = xf_health st"
  by (simp add: with_pool_def same_books_def frame_def)

lemma same_trans: "same_books a b \<Longrightarrow> same_books b c \<Longrightarrow> same_books a c"
  by (simp add: same_books_def)

lemma draw_partner_same:
  assumes "draw_partner fired avail drawn st = Some (q, st')"
  shows "same_books st st' \<and> frame st st' \<and> xf_health st' = xf_health st"
proof -
  consider "st' = st" | p where "st' = with_pool p st" | p q' ok where "acquire q' (with_pool p st) = Some (ok, st')"
    using assms by (auto simp: draw_partner_def split: if_splits option.splits prod.splits)
  then show ?thesis
  proof cases
    case 1
    then show ?thesis by (simp add: same_books_def)
  next
    case 2
    then show ?thesis using with_pool_same by simp
  next
    case 3
    show ?thesis using acquire_same [OF 3] with_pool_same [of st p] same_trans frame_trans by metis
  qed
qed

lemma draw_slots_same:
  assumes "draw_slots avail drawn st = Some (primary, partner, st')"
  shows "same_books st st' \<and> frame st st' \<and> xf_health st' = xf_health st"
proof -
  obtain fired p ok st1 where a: "acquire drawn (with_pool p st) = Some (ok, st1)" "draw_partner fired avail drawn st1 = Some (partner, st')"
    using assms by (auto simp: draw_slots_def Let_def split: option.splits prod.splits bind_splits)
  show ?thesis using acquire_same [OF a(1)] draw_partner_same [OF a(2)] with_pool_same [of st p] same_trans frame_trans by metis
qed


lemma note_all_blocked_cfg [simp]: "cfg_of (note_all_blocked ps c) = cfg_of c"
  unfolding note_all_blocked_def by (induction ps arbitrary: c) simp_all

lemma pick_none: "pick_among allowed p = Some (None, p') \<Longrightarrow> allowed = []"
  by (auto simp: pick_among_def Let_def split: if_splits option.splits prod.splits)

text \<open>Why the launch loop stops: for want of slots, of peers, of work, or at the window.\<close>

definition live_peers :: "nat \<Rightarrow> xfer \<Rightarrow> nat list" where
  "live_peers now st = filter (\<lambda>p. available now (xf_health st ! p)) (peer_ids st)"

definition idle :: "nat \<Rightarrow> bool \<Rightarrow> xfer \<Rightarrow> bool" where
  "idle now starved st \<longleftrightarrow> (if starved then \<exists>p\<in>set (live_peers now st). \<not> has_idle_capacity (fc_limits (xf_ctx st) ! p)
     else live_peers now st = [] \<or> uncarved st = [] \<and> (xf_requeue st = [] \<or> gated now st) \<or>
       (\<exists>off queued. work_at off queued st \<and> (queued = None \<longrightarrow> xf_requeue st = [] \<or> gated now st) \<and>
          em_pos (xf_em st) + fc_window (xf_ctx st) \<le> off))"

lemma pick_member:
  assumes "pick_among allowed p = Some (Some i, p')"
  shows "i \<in> set allowed"
proof -
  have loop: "pick_loop r is ws = Some i \<Longrightarrow> i \<in> set is" for r "is" ws
    by (induction r "is" ws rule: pick_loop.induct) (auto simp: Let_def split: if_splits)
  have ne: "allowed \<noteq> []" using assms by (auto simp: pick_among_def)
  obtain x s where x: "next_u64 (pl_rng p) = (x, s)" by fastforce
  have "allowed ! (unat x mod length allowed) \<in> set allowed" using ne by (intro nth_mem mod_less_divisor) simp
  then show ?thesis using assms ne x last_in_set [OF ne] by (auto simp: pick_among_def Let_def split: option.splits if_splits dest: loop)
qed

lemma acquire_busy:
  "acquire p st = Some (False, st') \<Longrightarrow> \<not> has_idle_capacity (fc_limits (xf_ctx st) ! p) \<and> fc_limits (xf_ctx st') = fc_limits (xf_ctx st)"
  by (auto simp: acquire_def try_acquire_def has_idle_capacity_def map_limit_def split: if_splits)

lemma draw_slots_busy:
  assumes "draw_slots avail drawn st = Some (None, None, st')"
  shows "\<not> has_idle_capacity (fc_limits (xf_ctx st') ! drawn)"
proof -
  obtain fired p st1 where a: "acquire drawn (with_pool p st) = Some (False, st1)" "draw_partner fired avail drawn st1 = Some (None, st')"
    using assms by (auto simp: draw_slots_def Let_def split: option.splits prod.splits bind_splits if_splits)
  have "fc_limits (xf_ctx st') = fc_limits (xf_ctx st1)"
    using a(2) by (auto simp: draw_partner_def with_pool_def split: if_splits option.splits prod.splits dest!: acquire_busy)
  then show ?thesis using acquire_busy [OF a(1)] by simp
qed

lemma same_launched:
  assumes "same_books st st'" and "frame st st'" and "xf_health st' = xf_health st" and "book_ok st"
  shows "launched st st'"
  using same_books_ok [OF assms(1)] assms by (simp add: launched_def)

lemma frame_peers: "frame st st' \<Longrightarrow> peer_ids st' = peer_ids st"
  by (simp add: frame_def peer_ids_def)

lemma same_work: "same_books st st' \<Longrightarrow> work_at off q st' = work_at off q st"
  by (cases q) (simp_all add: same_books_def work_at_def)

lemma launch_once_ok:
  assumes l: "launch_once now st = Some (r, st')" and b: "book_ok st" and cfg: "cfg_ok (xf_ctx st)"
  shows "launched st st' \<and> (case r of More \<Rightarrow> True | Stop starved \<Rightarrow> idle now starved st')"
proof -
  obtain cand st1 where c: "candidate now st = (cand, st1)" by fastforce
  note C = candidate_ok [OF c b]
  then have L1: "launched st st1" by (simp add: launched_def)
  have g: "gated now st1 = gated now st" using C by (simp add: gated_def frame_def)
  have b1: "book_ok st1" using C by simp
  have cfg1: "cfg_ok (xf_ctx st1)" using C cfg by simp
  show ?thesis
  proof (cases cand)
    case None
    then have "r = Stop False" "st' = st1" using l c by (simp_all add: launch_once_def)
    then show ?thesis using L1 C None g by (simp add: idle_def)
  next
    case (Some oq)
    obtain off queued where oq: "oq = (off, queued)" by (cases oq)
    have w: "work_at off queued st1" "queued = None \<longrightarrow> xf_requeue st1 = [] \<or> gated now st1"
      using C g by (auto simp: Some oq work_at_def split: option.splits)
    show ?thesis
    proof (cases "off \<ge> em_pos (xf_em st1) + fc_window (xf_ctx st1)")
      case True
      then have r: "r = Stop False" "st' = st1\<lparr>xf_ctx := note_all_blocked (peer_ids st1) (xf_ctx st1)\<rparr>"
        using l c Some oq by (simp_all add: launch_once_def)
      have cf: "cfg_of (xf_ctx st') = cfg_of (xf_ctx st1)" by (simp add: r)
      have s: "same_books st1 st'" "frame st1 st'" "xf_health st' = xf_health st1"
        using cf by (simp_all add: same_books_def frame_def r(2))
      have "idle now False st'"
        using True w same_work [OF s(1), of off queued] cf unfolding idle_def by (auto simp: r(2) cfg_of_def gated_def)
      then show ?thesis using launched_trans [OF L1 same_launched [OF s b1]] r(1) by simp
    next
      case False
      let ?avail = "filter (\<lambda>p. available now (xf_health st1 ! p)) (peer_ids st1)"
      obtain pick p where pk: "pick_among ?avail (fc_pool (xf_ctx st1)) = Some (pick, p)"
        using l c Some oq False by (auto simp: launch_once_def Let_def split: option.splits)
      note W = with_pool_same [of st1 p]
      show ?thesis
      proof (cases pick)
        case None
        then have r: "r = Stop False" "st' = with_pool p st1" using l c Some oq False pk by (simp_all add: launch_once_def Let_def)
        have "?avail = []" using pick_none pk None by blast
        moreover have "peer_ids (with_pool p st1) = peer_ids st1" using W frame_peers by blast
        ultimately have "idle now False st'" using W by (simp add: r(2) idle_def live_peers_def)
        then show ?thesis using launched_trans [OF L1 same_launched] W b1 r by simp
      next
        case (Some drawn)
        obtain primary partner st2 where d: "draw_slots ?avail drawn (with_pool p st1) = Some (primary, partner, st2)"
          using l c \<open>cand = Some oq\<close> oq False pk Some by (auto simp: launch_once_def Let_def split: bind_splits)
        note D = draw_slots_same [OF d]
        have S: "same_books st1 st2" "frame st1 st2" "xf_health st2 = xf_health st1"
          using D W same_trans frame_trans by (metis, metis, metis)
        have b2: "book_ok st2" "owners st2 = owners st1" using same_books_ok [OF S(1)] b1 by simp_all
        have L2: "launched st st2" using launched_trans [OF L1 same_launched [OF S b1]] .
        show ?thesis
        proof (cases "primary = None \<and> partner = None")
          case True
          then have r: "r = Stop (?avail \<noteq> [])" "st' = st2"
            using l c \<open>cand = Some oq\<close> oq False pk Some d by (simp_all add: launch_once_def Let_def)
          have "live_peers now st2 = ?avail" using S(2,3) by (simp add: live_peers_def frame_peers)
          moreover have "drawn \<in> set ?avail" using pick_member pk Some by blast
          moreover have "\<not> has_idle_capacity (fc_limits (xf_ctx st2) ! drawn)" using draw_slots_busy d True by blast
          moreover have "?avail \<noteq> []" using \<open>drawn \<in> set ?avail\<close> by fastforce
          ultimately show ?thesis using L2 r by (auto simp: idle_def)
        next
          case some: False
          let ?lead = "case primary of Some p \<Rightarrow> p | None \<Rightarrow> the partner"
          obtain n st3 where t: "take_work ?lead off queued st2 = (n, st3)" by fastforce
          have r: "r = More" "launch_chunk now off n primary partner st3 = Some st'"
            using l c \<open>cand = Some oq\<close> oq False pk Some d some t
            by (auto simp: launch_once_def Let_def split: option.splits)
          have "cfg_ok (xf_ctx st2)" using S(2) cfg1 cfg_ok_cong [of "xf_ctx st2" "xf_ctx st1"] by (simp add: frame_def)
          from take_work_ok [OF b2(1) this _ t] w(1) same_work [OF S(1)]
          have T: "takes off n st2 st3" by simp
          then have "off \<notin> fst ` set (xf_inflight st3)" by (simp add: takes_def hole_def)
          moreover have "primary \<noteq> None \<or> partner \<noteq> None" using some by simp
          ultimately obtain atts where sp: "spawns off n atts st3 st'" using launch_chunk_spawns [OF r(2)] by blast
          have hole: "hole off n st3" using T by (simp add: takes_def)
          note ok = spawns_ok [OF hole sp]
          have "owners st' = owners st2" by (rule ext) (use ok T in \<open>simp add: takes_def\<close>)
          moreover have "frame st3 st'" "xf_health st' = xf_health st3" using sp by (simp_all add: spawns_def)
          moreover have "frame st2 st3" "xf_health st3 = xf_health st2" using T by (simp_all add: takes_def)
          ultimately have "launched st2 st'" using ok frame_trans by (auto simp: launched_def)
          then show ?thesis using launched_trans [OF L2] r(1) by simp
        qed
      qed
    qed
  qed
qed

lemma launch_loop_ok:
  assumes "launch_loop now st = Some (starved, st')" and "book_ok st" and "cfg_ok (xf_ctx st)"
  shows "launched st st' \<and> idle now starved st'"
  using assms
proof (induction now st rule: launch_loop.induct)
  case (1 now st)
  obtain r st1 where l: "launch_once now st = Some (r, st1)"
    using "1.prems"(1) by (cases "launch_once now st") (auto simp: launch_loop.simps [of now st])
  note ok = launch_once_ok [OF l "1.prems"(2,3)]
  show ?case
  proof (cases r)
    case (Stop s)
    then have "s = starved" "st' = st1" using "1.prems"(1) l launch_loop.simps [of now st] by simp_all
    then show ?thesis using ok Stop by simp
  next
    case More
    have "launch_loop now st1 = Some (starved, st')" using "1.prems"(1) l More launch_loop.simps [of now st] by simp
    moreover have "book_ok st1" "cfg_ok (xf_ctx st1)"
      using ok "1.prems"(3) cfg_ok_cong [of "xf_ctx st1" "xf_ctx st"] by (simp_all add: launched_def frame_def)
    ultimately have "launched st1 st' \<and> idle now starved st'" using "1.IH" [OF l refl More] by blast
    then show ?thesis using ok launched_trans by blast
  qed
qed

end
