(* ===== verification/Transfer_Run.thy ===== *)
theory Transfer_Run
  imports Transfer_Inv
begin

text \<open>
  Every run of a transfer: the invariant is kept by the workers, by every iteration of the loop
  and by whatever other transfers do to the shared context. What follows: the client gets the
  bytes of the plan in order, the whole archive only with the right hash, and from honest
  peers exactly the archive; a transfer never waits with nothing to do.
\<close>

section \<open>Workers\<close>

lemma fetch_range_length:
  "fetch_range th cd unz now ok out start fin h = (Inr ch, h', n) \<Longrightarrow> length (ch_bytes ch) = fin - start"
  by (auto simp: fetch_range_def Let_def split: http_outcome.splits prod.splits sum.splits option.splits if_splits)

lemma task_result_length: "task_result X now t out h = (Inr ch, h') \<Longrightarrow> length (ch_bytes ch) = tk_len t"
  by (auto simp: task_result_def split: option.splits prod.splits dest!: fetch_range_length)

lemma cfg_record_rate [simp]: "cfg_of (record_rate p n t c) = cfg_of c"
  by (simp add: record_rate_def Let_def)

lemma cfg_accounting [simp]: "cfg_of (chunk_accounting now peer n elapsed dec result c) = cfg_of c"
  by (cases result) (simp_all add: chunk_accounting_def Let_def observe_encoding_def)

lemma flown_same:
  assumes "flights_ok (set xs) m" and "set ys = set xs"
  shows "flown ys m j = flown xs m j"
  by (rule flown_stable [where m = m]) (use assms in \<open>simp_all add: flights_ok_def\<close>)

text \<open>What a step that only moves attempts around must keep.\<close>

lemma moved_ok:
  assumes b: "book_ok st" and o: "set (outs st') = set (outs st)" "distinct (map fst (outs st'))"
    and e: "xf_inflight st' = xf_inflight st" "xf_next_attempt st' = xf_next_attempt st" "xf_requeue st' = xf_requeue st"
      "xf_ranges st' = xf_ranges st" "xf_range_i st' = xf_range_i st" "xf_range_pos st' = xf_range_pos st"
    and d: "\<forall>d\<in>set (xf_done st'). \<forall>ch. dn_result d = Inr ch \<longrightarrow> length (ch_bytes ch) = dn_len d"
  shows "book_ok st' \<and> owners st' = owners st"
proof -
  have F: "flights_ok (set (outs st)) (xf_inflight st)" using b by (simp add: book_ok_def)
  have u: "uncarved st' = uncarved st" using e by (simp add: uncarved_def)
  have w: "owners st' = owners st" by (rule ext) (simp add: owners_def u e flown_same [OF F o(1)])
  have "carving_ok st'" using b unfolding book_ok_def carving_ok_def u o(1) e by blast
  then show ?thesis using b o d w unfolding book_ok_def e by simp
qed

lemma finish_task_ok:
  assumes b: "book_ok st" and t: "t \<in> set (xf_tasks st)"
  shows "book_ok (finish_task X now t out dec st) \<and> owners (finish_task X now t out dec st) = owners st"
proof -
  obtain r h where r: "task_result X now t out (xf_health st ! tk_peer t) = (r, h)" by fastforce
  let ?st = "finish_task X now t out dec st"
  let ?d = "\<lparr>dn_off = tk_off t, dn_len = tk_len t, dn_peer = tk_peer t, dn_attempt = tk_attempt t, dn_result = r\<rparr>"
  have f: "xf_tasks ?st = filter (\<lambda>u. tk_attempt u \<noteq> tk_attempt t) (xf_tasks st)" "xf_done ?st = xf_done st @ [?d]"
    by (simp_all add: finish_task_def r Let_def)
  have dist: "distinct (map fst (outs st))" using b by (simp add: book_ok_def)
  then have dt: "distinct (map tk_attempt (xf_tasks st))" by (simp add: outs_def comp_def)
  have one: "u = t" if "u \<in> set (xf_tasks st)" "tk_attempt u = tk_attempt t" for u
    using that t dt by (metis distinct_map inj_onD)
  have "set (outs ?st) = set (outs st)" unfolding outs_def f using one t by (auto simp: image_iff)
  moreover have "distinct (map fst (outs ?st))"
    using dist t unfolding outs_def f by (auto simp: comp_def distinct_map_filter image_iff dest: bspec)
  moreover have "\<forall>d\<in>set (xf_done ?st). \<forall>ch. dn_result d = Inr ch \<longrightarrow> length (ch_bytes ch) = dn_len d"
    using b task_result_length [of X now t out "xf_health st ! tk_peer t"] r unfolding f by (auto simp: book_ok_def)
  ultimately show ?thesis by (intro moved_ok [OF b]) (simp_all add: finish_task_def Let_def split: prod.split)
qed

section \<open>A message\<close>

lemma retire_flown:
  assumes b: "book_ok st" and d: "d \<in> set (xf_done st)"
    and S: "set ys = set (outs st) - {(dn_attempt d, dn_off d, dn_len d)}"
    and fl: "map_of (xf_inflight st) (dn_off d) = Some fl"
    and att: "fl_attempts fl' = filter (\<lambda>(i, _). i \<noteq> dn_attempt d) (fl_attempts fl)"
    and m: "m' = (if fl_attempts fl' \<noteq> [] then [(dn_off d, fl')] else []) @ kv_del (dn_off d) (xf_inflight st)"
  shows "flights_ok (set ys) m'"
    and "flown (outs st) (xf_inflight st) j = (if fl_delivered fl then 0 else own (dn_off d, dn_len d) j) + flown ys (kv_del (dn_off d) (xf_inflight st)) j"
    and "flown ys m' j = (if fl_attempts fl' \<noteq> [] \<and> \<not> fl_delivered fl' then own (dn_off d, dn_len d) j else 0) + flown ys (kv_del (dn_off d) (xf_inflight st)) j"
proof -
  let ?m = "xf_inflight st" and ?off = "dn_off d"
  have F: "flights_ok (set (outs st)) ?m" using b by (simp add: book_ok_def)
  have a: "(dn_attempt d, ?off, dn_len d) \<in> set (outs st)" using d by (auto simp: outs_def)
  have dist: "distinct (map fst (outs st))" using b by (simp add: book_ok_def)
  have u: "off' = ?off" if "(dn_attempt d, off', l') \<in> set (outs st)" for off' l'
    using dist a that by (metis Pair_inject eq_key_imp_eq_value)
  show Fm: "flights_ok (set ys) m'" unfolding S m using flights_retire [OF F a u fl att] by simp
  have one: "one_len (set (outs st))" using F by (simp add: flights_ok_def)
  have sub: "set ys \<subseteq> set (outs st)" using S by blast
  have del: "flown (outs st) (kv_del ?off ?m) j = flown ys (kv_del ?off ?m) j"
    by (rule flown_stable [OF Fm one sub]) (auto simp: m)
  show "flown (outs st) ?m j = (if fl_delivered fl then 0 else own (?off, dn_len d) j) + flown ys (kv_del ?off ?m) j"
    using flown_del [OF _ fl, of "outs st" j] F by (simp add: flights_ok_def del len_at_eq [OF one a])
  have "len_at ys ?off = dn_len d" if "fl_attempts fl' \<noteq> []"
    using len_at_stable [OF Fm _ one sub, of ?off fl'] that by (simp add: m len_at_eq [OF one a])
  then show "flown ys m' j = (if fl_attempts fl' \<noteq> [] \<and> \<not> fl_delivered fl' then own (?off, dn_len d) j else 0) + flown ys (kv_del ?off ?m) j"
    by (simp add: m)
qed


text \<open>
  The books after a message: the flight retires the attempt (and is marked delivered, or goes
  when it was the last), and a failed last attempt puts its work back on the heap.
\<close>

lemma book_after:
  assumes b: "book_ok st" and d: "xf_done st = d # ds" and fl: "map_of (xf_inflight st) (dn_off d) = Some fl"
    and att: "fl_attempts fl' = filter (\<lambda>(i, _). i \<noteq> dn_attempt d) (fl_attempts fl)" and dl: "fl_delivered fl \<longrightarrow> fl_delivered fl'"
    and m: "xf_inflight st' = (if fl_attempts fl' \<noteq> [] then [(dn_off d, fl')] else []) @ kv_del (dn_off d) (xf_inflight st)"
    and q: "xf_requeue st' = (if back then insort (dn_off d, dn_len d) (xf_requeue st) else xf_requeue st)"
    and bk: "back \<longrightarrow> fl_attempts fl' = [] \<and> \<not> fl_delivered fl"
    and e: "xf_tasks st' = xf_tasks st" "xf_done st' = ds" "xf_next_attempt st' = xf_next_attempt st"
      "xf_ranges st' = xf_ranges st" "xf_range_i st' = xf_range_i st" "xf_range_pos st' = xf_range_pos st"
  shows "book_ok st'"
    and "owners st' j + (if \<not> fl_delivered fl \<and> \<not> back \<and> (fl_attempts fl' = [] \<or> fl_delivered fl') then own (dn_off d, dn_len d) j else 0) = owners st j"
proof -
  let ?off = "dn_off d" and ?a = "(dn_attempt d, dn_off d, dn_len d)"
  have dist: "distinct (map fst (outs st))" using b by (simp add: book_ok_def)
  have o: "outs st = map (\<lambda>t. (tk_attempt t, tk_off t, tk_len t)) (xf_tasks st) @ ?a # map (\<lambda>d. (dn_attempt d, dn_off d, dn_len d)) ds"
    by (simp add: outs_def d)
  have o': "outs st' = map (\<lambda>t. (tk_attempt t, tk_off t, tk_len t)) (xf_tasks st) @ map (\<lambda>d. (dn_attempt d, dn_off d, dn_len d)) ds"
    by (simp add: outs_def e)
  have "?a \<notin> set (outs st')" using dist unfolding o o' by (auto simp: image_iff)
  then have S: "set (outs st') = set (outs st) - {?a}" unfolding o o' by auto
  have dist': "distinct (map fst (outs st'))" using dist unfolding o o' by auto
  have din: "d \<in> set (xf_done st)" by (simp add: d)
  note R = retire_flown [OF b din S fl att m]
  have u: "uncarved st' = uncarved st" by (simp add: uncarved_def e)
  have w: "owners st' j + (if \<not> fl_delivered fl \<and> \<not> back \<and> (fl_attempts fl' = [] \<or> fl_delivered fl') then own (?off, dn_len d) j else 0) = owners st j" for j
    using dl bk unfolding owners_def u q R(2) R(3) by (auto simp: owns_insort)
  then show "owners st' j + (if \<not> fl_delivered fl \<and> \<not> back \<and> (fl_attempts fl' = [] \<or> fl_delivered fl') then own (dn_off d, dn_len d) j else 0) = owners st j"
    by blast
  have le: "owners st' j \<le> owners st j" for j using w [of j] by linarith
  have a: "?a \<in> set (outs st)" by (simp add: o)
  have pos: "0 < dn_len d" using b a unfolding book_ok_def flights_ok_def by blast
  have C: "carving_ok st" using b by (simp add: book_ok_def)
  have ya: "\<forall>y\<in>set (uncarved st). ?off + dn_len d \<le> fst y" using C a unfolding carving_ok_def by force
  have "carving_ok st'"
    using C pos ya unfolding carving_ok_def u q e S by (auto simp: sorted_insort set_insort_key)
  moreover have "\<forall>x\<in>set (outs st'). fst x \<le> xf_next_attempt st'" using b S e by (auto simp: book_ok_def)
  moreover have "\<forall>d\<in>set (xf_done st'). \<forall>ch. dn_result d = Inr ch \<longrightarrow> length (ch_bytes ch) = dn_len d" using b d e by (auto simp: book_ok_def)
  moreover have "owners st' j \<le> 1" for j using b le [of j] unfolding book_ok_def by (meson order_trans)
  moreover have "owners st' o1 = 0" if o1: "(o1, g) \<in> set (xf_inflight st')" "fl_delivered g" for o1 g
  proof (cases "o1 = ?off")
    case False
    then have "(o1, g) \<in> set (xf_inflight st)" using o1 m by (auto simp: set_del split: if_splits)
    then have "owners st o1 = 0" using b o1(2) by (auto simp: book_ok_def)
    then show ?thesis using le [of o1] by simp
  next
    case True
    then have g: "g = fl'" "fl_attempts fl' \<noteq> []" using o1 m by (auto simp: set_del split: if_splits)
    show ?thesis
    proof (cases "fl_delivered fl")
      case True
      then have "owners st ?off = 0" using b map_of_SomeD [OF fl] by (auto simp: book_ok_def)
      then show ?thesis using le [of ?off] \<open>o1 = ?off\<close> by simp
    next
      case False
      have "owners st ?off \<le> 1" using b by (simp add: book_ok_def)
      then show ?thesis using w [of ?off] False g o1(2) bk pos \<open>o1 = ?off\<close> by (auto split: if_splits)
    qed
  qed
  ultimately show "book_ok st'" using dist' R(1) unfolding book_ok_def by blast
qed

section \<open>The invariant\<close>

definition buffer_ok :: "xfer \<Rightarrow> bool" where
  "buffer_ok st \<longleftrightarrow>
     (\<forall>j. view (em_buffered (xf_em st)) j \<noteq> None \<longrightarrow> owners st j = 0) \<and>
     (\<forall>j. fetches (em_spans (xf_em st)) j \<longrightarrow> owners st j = 0 \<longrightarrow> j < em_pos (xf_em st) \<or> view (em_buffered (xf_em st)) j \<noteq> None) \<and>
     (\<forall>j. fetches (em_spans (xf_em st)) j \<longrightarrow> j < em_pos (xf_em st) \<longrightarrow> owners st j = 0)"

definition spans_fit :: "xfer \<Rightarrow> bool" where
  "spans_fit st \<longleftrightarrow> (\<forall>off n u c. (off, XFetch n (Some (u, c))) \<in> set (em_spans (xf_em st)) \<longrightarrow> n \<le> fc_window (xf_ctx st))"

definition xinv :: "(bytes \<Rightarrow> bytes) \<Rightarrow> nat \<Rightarrow> (nat \<Rightarrow> u8) \<Rightarrow> bytes list \<Rightarrow> xfer \<Rightarrow> bool" where
  "xinv SHA start V ps st \<longleftrightarrow> book_ok st \<and> follows SHA start V ps (xf_em st) (xf_sink st) \<and> waits (xf_em st) \<and>
     buffer_ok st \<and> spans_fit st \<and> cfg_ok (xf_ctx st)"

lemma xinv_same:
  assumes "xinv SHA start V ps st" and "book_ok st'" and "owners st' = owners st" and "xf_em st' = xf_em st" and "xf_sink st' = xf_sink st"
    and "cfg_of (xf_ctx st') = cfg_of (xf_ctx st)"
  shows "xinv SHA start V ps st'"
  using assms unfolding xinv_def buffer_ok_def spans_fit_def by (simp add: cfg_of_def cfg_ok_def)

lemma xinv_launched: "xinv SHA start V ps st \<Longrightarrow> launched st st' \<Longrightarrow> xinv SHA start V ps st'"
  by (rule xinv_same) (simp_all add: launched_def frame_def)

lemma xinv_books:
  "xinv SHA start V ps st \<Longrightarrow> same_books st st' \<Longrightarrow> xf_em st' = xf_em st \<Longrightarrow> xf_sink st' = xf_sink st \<Longrightarrow>
     cfg_of (xf_ctx st') = cfg_of (xf_ctx st) \<Longrightarrow> xinv SHA start V ps st'"
  using same_books_ok [of st st'] by (intro xinv_same [of SHA start V ps st st']) (simp_all add: xinv_def)

section \<open>Delivering a chunk\<close>

lemma flow_buffer [simp]: "flow SHA start X (em\<lparr>em_buffered := b\<rparr>) k = flow SHA start X em k"
  by (simp add: flow_def)

lemma follows_buffer:
  "follows SHA start V ps em k \<Longrightarrow> buf_inv b \<Longrightarrow> (\<And>j v. view b j = Some v \<Longrightarrow> v = V j) \<Longrightarrow> follows SHA start V ps (em\<lparr>em_buffered := b\<rparr>) k"
  by (auto simp: follows_def)

text \<open>The bytes of a chunk become the bytes of the archive at positions nobody has seen.\<close>

lemma deliver:
  assumes f: "follows SHA start V ps em k" and "bs \<noteq> []"
    and free: "\<And>j. off \<le> j \<Longrightarrow> j < off + length bs \<Longrightarrow> view (em_buffered em) j = None \<and> \<not> (fetches (em_spans em) j \<and> j < em_pos em)"
  obtains V' ps' where "follows SHA start V' ps' (em\<lparr>em_buffered := kv_put off bs (em_buffered em)\<rparr>) k"
    and "bs = fetched_bytes V off (length bs) \<Longrightarrow> V' = V \<and> ps' = ps"
proof -
  let ?V = "\<lambda>j. if off \<le> j \<and> j < off + length bs then bs ! (j - off) else V j" and ?b = "kv_put off bs (em_buffered em)"
  have inv: "buf_inv (em_buffered em)" and vw: "\<And>j v. view (em_buffered em) j = Some v \<Longrightarrow> v = V j" using f by (simp_all add: follows_def)
  note P = put_spec [OF inv assms(2), of off]
  have put: "buf_inv ?b" "\<And>j. view ?b j = (if off \<le> j \<and> j < off + length bs then Some (bs ! (j - off)) else view (em_buffered em) j)"
    using P free by blast+
  have step: "follows SHA start W qs (em\<lparr>em_buffered := ?b\<rparr>) k" if "follows SHA start W qs em k" "W = ?V" for W qs
    by (rule follows_buffer [OF that(1) put(1)]) (use vw that(2) in \<open>auto simp: put(2) split: if_splits\<close>)
  show ?thesis
  proof (cases "bs = fetched_bytes V off (length bs)")
    case True
    have "?V = V"
    proof
      fix j show "?V j = V j" using arg_cong [OF True, of "\<lambda>x. x ! (j - off)"] by (auto simp: fetched_bytes_def)
    qed
    then have "follows SHA start V ps (em\<lparr>em_buffered := ?b\<rparr>) k" using step [OF f] by simp
    then show ?thesis using that by blast
  next
    case False
    have "\<exists>ps'. follows SHA start ?V ps' em k"
      by (rule follows_revise [OF f]) (use free in fastforce)+
    then obtain ps' where "follows SHA start ?V ps' em k" by blast
    then have "follows SHA start ?V ps' (em\<lparr>em_buffered := ?b\<rparr>) k" using step by blast
    then show ?thesis using that False by blast
  qed
qed


section \<open>How a transfer ends\<close>

text \<open>Whatever the client got as the whole of a full transfer has the hash of the narinfo.\<close>

definition checked :: "(bytes \<Rightarrow> bytes) \<Rightarrow> nat \<Rightarrow> xfer \<Rightarrow> bool" where
  "checked SHA start st \<longleftrightarrow> (em_full (xf_em st) \<and> received (xf_sink st) \<noteq> [] \<and> start + length (received (xf_sink st)) = em_end (xf_em st) \<longrightarrow>
     SHA (received (xf_sink st)) = em_nar_hash (xf_em st))"

definition ended :: "(bytes \<Rightarrow> bytes) \<Rightarrow> nat \<Rightarrow> bytes \<Rightarrow> xfer_end \<Rightarrow> xfer \<Rightarrow> bool" where
  "ended SHA start N e st \<longleftrightarrow> checked SHA start st \<and> em_end (xf_em st) = start + length N \<and>
     (case e of
        XCompleted \<Rightarrow> received (xf_sink st) = N \<and> (\<forall>x\<in>set (sk_sent (xf_sink st)). \<not> isl x)
      | XDead d \<Rightarrow> stopped SHA start N d (xf_em st) (xf_sink st)
      | XPlanBug _ \<Rightarrow> False
      | _ \<Rightarrow> \<exists>Y. Y \<noteq> [] \<and> received (xf_sink st) @ Y = N)"

lemma ended_cong: "xf_em st' = xf_em st \<Longrightarrow> xf_sink st' = xf_sink st \<Longrightarrow> ended SHA start N e st' = ended SHA start N e st"
  by (cases e) (simp_all add: ended_def checked_def)

definition outcome_ok :: "(bytes \<Rightarrow> bytes) \<Rightarrow> nat \<Rightarrow> (nat \<Rightarrow> u8) \<Rightarrow> bytes list \<Rightarrow> xfer_end option \<times> xfer \<Rightarrow> bool" where
  "outcome_ok SHA start V ps r \<longleftrightarrow>
     (case fst r of None \<Rightarrow> xinv SHA start V ps (snd r) | Some e \<Rightarrow> ended SHA start (concat ps) e (snd r))"

text \<open>What never changes in a transfer.\<close>

definition same_setup :: "xfer \<Rightarrow> xfer \<Rightarrow> bool" where
  "same_setup st st' \<longleftrightarrow> same_job (xf_em st) (xf_em st') \<and> xf_sources st' = xf_sources st \<and> xf_ranges st' = xf_ranges st \<and>
     cfg_of (xf_ctx st') = cfg_of (xf_ctx st)"

lemma same_setup_refl [simp]: "same_setup st st"
  by (simp add: same_setup_def)

lemma same_setup_trans: "same_setup a b \<Longrightarrow> same_setup b c \<Longrightarrow> same_setup a c"
  by (auto simp: same_setup_def intro: same_job_trans)

lemma follows_checked: "follows SHA start V ps (xf_em st) (xf_sink st) \<Longrightarrow> checked SHA start st"
proof -
  let ?em = "xf_em st" and ?k = "xf_sink st"
  assume "follows SHA start V ps ?em ?k"
  then obtain Z where Z: "flow SHA start Z ?em ?k" unfolding follows_def by blast
  have "received ?k = Z" by (rule received_flow [OF Z])
  then show ?thesis using Z by (simp add: checked_def flow_def)
qed

text \<open>A transfer that waits is short of bytes.\<close>

lemma waiting_short:
  assumes "xinv SHA start V ps st"
  shows "\<exists>Y. Y \<noteq> [] \<and> received (xf_sink st) @ Y = concat ps"
proof -
  have f: "follows SHA start V ps (xf_em st) (xf_sink st)" using assms by (simp add: xinv_def)
  have "\<exists>j. fetches (em_spans (xf_em st)) j \<and> em_pos (xf_em st) \<le> j \<and> j < em_pos (xf_em st) + fc_window (xf_ctx st) \<and>
      view (em_buffered (xf_em st)) j = None"
    by (rule waits_for [OF f]) (use assms in \<open>auto simp: xinv_def spans_fit_def cfg_ok_def\<close>)
  then obtain j where j: "fetches (em_spans (xf_em st)) j" "em_pos (xf_em st) \<le> j" by blast
  have "j - start < length (concat ps)" using follows_position [OF f j] by blast
  then have "em_pos (xf_em st) - start < length (concat ps)" using j(2) by linarith
  then have "drop (em_pos (xf_em st) - start) (concat ps) \<noteq> []" by simp
  then show ?thesis using follows_received(1) [OF f] append_take_drop_id by metis
qed

lemma ended_early:
  assumes "xinv SHA start V ps st" and "xf_em st' = xf_em st" and "received (xf_sink st') = received (xf_sink st)"
    and "e \<in> {XMinBandwidth, XStreak, XStall}"
  shows "ended SHA start (concat ps) e st'"
proof -
  have "checked SHA start st" by (rule follows_checked [of SHA start V ps]) (use assms(1) in \<open>simp add: xinv_def\<close>)
  then have "checked SHA start st'" using assms(2,3) by (simp add: checked_def)
  moreover have "em_end (xf_em st') = start + length (concat ps)"
    using follows_end [of SHA start V ps "xf_em st" "xf_sink st"] assms(1,2) by (simp add: xinv_def)
  ultimately show ?thesis using waiting_short [OF assms(1)] assms(3,4) by (auto simp: ended_def)
qed

lemma received_report [simp]: "received (xf_sink (report msg st)) = received (xf_sink st)"
  by (auto simp: report_def send_def received_def)

lemma report_em [simp]: "xf_em (report msg st) = xf_em st" "xf_em (count f st) = xf_em st" "xf_sink (count f st) = xf_sink st"
  by (simp_all add: report_def count_def)

section \<open>A delivery\<close>

text \<open>The invariant before the pump: the emitter need not be waiting.\<close>

definition ready :: "(bytes \<Rightarrow> bytes) \<Rightarrow> nat \<Rightarrow> (nat \<Rightarrow> u8) \<Rightarrow> bytes list \<Rightarrow> xfer \<Rightarrow> bool" where
  "ready SHA start V ps st \<longleftrightarrow> book_ok st \<and> follows SHA start V ps (xf_em st) (xf_sink st) \<and>
     buffer_ok st \<and> spans_fit st \<and> cfg_ok (xf_ctx st)"

lemma delivered_ready:
  assumes x: "xinv SHA start V ps st" and b: "book_ok st2" and w: "\<And>j. owners st2 j + own (off, length bs) j = owners st j"
    and em: "xf_em st2 = (xf_em st)\<lparr>em_buffered := kv_put off bs (em_buffered (xf_em st))\<rparr>" and k: "xf_sink st2 = xf_sink st"
    and cfg: "cfg_of (xf_ctx st2) = cfg_of (xf_ctx st)" and ne: "bs \<noteq> []"
  shows "\<exists>V' ps'. ready SHA start V' ps' st2 \<and> (bs = fetched_bytes V off (length bs) \<longrightarrow> V' = V \<and> ps' = ps)"
proof -
  let ?em = "xf_em st" and ?em2 = "xf_em st2"
  have X: "book_ok st" "follows SHA start V ps ?em (xf_sink st)" "buffer_ok st" "spans_fit st" "cfg_ok (xf_ctx st)" using x by (simp_all add: xinv_def)
  have in1: "own (off, length bs) j = 1" "owners st j = 1" "owners st2 j = 0" if "off \<le> j" "j < off + length bs" for j
  proof -
    show "own (off, length bs) j = 1" using that by (simp add: own_def)
    moreover have "owners st j \<le> 1" using X(1) by (simp add: book_ok_def)
    ultimately show "owners st j = 1" "owners st2 j = 0" using w [of j] by linarith+
  qed
  have free: "view (em_buffered ?em) j = None \<and> \<not> (fetches (em_spans ?em) j \<and> j < em_pos ?em)" if "off \<le> j" "j < off + length bs" for j
    using in1(2) [OF that] X(3) unfolding buffer_ok_def by (metis zero_neq_one)
  obtain V' ps' where f2: "follows SHA start V' ps' ?em2 (xf_sink st)" and hon: "bs = fetched_bytes V off (length bs) \<Longrightarrow> V' = V \<and> ps' = ps"
    using deliver [OF X(2) ne free] em by metis
  have v2: "view (em_buffered ?em2) j = (if off \<le> j \<and> j < off + length bs then Some (bs ! (j - off)) else view (em_buffered ?em) j)" for j
    using put_spec(2) [of "em_buffered ?em" bs off j] X(2) ne free em by (simp add: follows_def)
  have out: "owners st2 j = owners st j" if "\<not> (off \<le> j \<and> j < off + length bs)" for j
    using w [of j] that by (auto simp: own_def)
  have e2: "em_pos ?em2 = em_pos ?em" "em_spans ?em2 = em_spans ?em" by (simp_all add: em)
  have "buffer_ok st2" unfolding buffer_ok_def e2
  proof (intro conjI allI impI)
    show "owners st2 j = 0" if "view (em_buffered ?em2) j \<noteq> None" for j
      using that v2 [of j] in1(3) [of j] out [of j] X(3) unfolding buffer_ok_def by (auto split: if_splits)
    show "j < em_pos ?em \<or> view (em_buffered ?em2) j \<noteq> None" if "fetches (em_spans ?em) j" "owners st2 j = 0" for j
      using that v2 [of j] out [of j] X(3) unfolding buffer_ok_def by (auto split: if_splits)
    show "owners st2 j = 0" if "fetches (em_spans ?em) j" "j < em_pos ?em" for j
      using that w [of j] X(3) unfolding buffer_ok_def by auto
  qed
  moreover have "spans_fit st2" "cfg_ok (xf_ctx st2)" using X(4,5) cfg by (simp_all add: spans_fit_def em cfg_of_def cfg_ok_def)
  ultimately have "ready SHA start V' ps' st2" using b f2 by (simp add: ready_def k)
  then show ?thesis using hon by blast
qed

lemma pumped_ok:
  assumes x: "ready SHA start V ps st" and p: "xf_pump SHA st = (r, st1)" and s: "settle r st1 = (fin, st2)"
  shows "outcome_ok SHA start V ps (fin, st2) \<and> same_setup st st2 \<and> xf_done st2 = xf_done st"
proof -
  let ?em = "xf_em st"
  have X: "book_ok st" "follows SHA start V ps ?em (xf_sink st)" "buffer_ok st" "spans_fit st" "cfg_ok (xf_ctx st)" using x by (simp_all add: ready_def)
  obtain em1 k1 s1 where pump: "pump SHA (?em, xf_sink st) (fc_stats (xf_ctx st)) = (r, (em1, k1), s1)"
    "st1 = st\<lparr>xf_em := em1, xf_sink := k1, xf_ctx := (xf_ctx st)\<lparr>fc_stats := s1\<rparr>\<rparr>"
    using p by (auto simp: xf_pump_def split: prod.splits)
  have c: "pump_contract SHA start V ps ?em r em1 k1" by (rule pump_ok [OF pump(1) X(2)])
  have j: "same_job ?em em1" using c by (simp add: pump_contract_def)
  have e2: "xf_em st2 = em1" "same_setup st st2" "xf_done st2 = xf_done st" "received (xf_sink st2) = received k1"
    using s pump(2) j by (auto simp: settle_def same_setup_def report_def count_def split: sum.splits pump_result.splits)
      (auto simp: send_def received_def)
  show ?thesis
  proof (cases "r = Inr NeedData")
    case True
    then have st2: "fin = None" "st2 = st1" using s by (simp_all add: settle_def)
    have c': "follows SHA start V ps em1 k1" "drained ?em em1" "waits em1" using c True by (simp_all add: pump_contract_def)
    have sb: "same_books st st2" by (simp add: st2(2) pump(2) same_books_def)
    have w2: "owners st2 = owners st" "book_ok st2" using same_books_ok [OF sb] X(1) by simp_all
    have sp: "em_spans em1 = em_spans ?em" using j by (simp add: same_job_def)
    have d: "em_pos ?em \<le> em_pos em1" "view (em_buffered em1) i = view (em_buffered ?em) i \<or> view (em_buffered em1) i = None \<and> i < em_pos em1" for i
      using c'(2) by (simp_all add: drained_def)
    have "buffer_ok st2" unfolding buffer_ok_def e2(1) w2(1) sp
    proof (intro conjI allI impI)
      show "owners st i = 0" if "view (em_buffered em1) i \<noteq> None" for i
        using that d(2) [of i] X(3) unfolding buffer_ok_def by auto
      show "i < em_pos em1 \<or> view (em_buffered em1) i \<noteq> None" if "fetches (em_spans ?em) i" "owners st i = 0" for i
        using that d(1) d(2) [of i] X(3) unfolding buffer_ok_def by (metis order_less_le_trans)
      show "owners st i = 0" if i: "fetches (em_spans ?em) i" "i < em_pos em1" for i
      proof (cases "i < em_pos ?em")
        case False
        have "view (em_buffered ?em) i \<noteq> None"
          by (rule passed_was_there [OF X(2) pump(1) [unfolded True]]) (use i False in simp_all)
        then show ?thesis using X(3) unfolding buffer_ok_def by blast
      qed (use X(3) i in \<open>simp add: buffer_ok_def\<close>)
    qed
    moreover have "cfg_of (xf_ctx st2) = cfg_of (xf_ctx st)" by (simp add: st2(2) pump(2))
    moreover from this have "spans_fit st2" "cfg_ok (xf_ctx st2)"
      using X(4,5) sp by (simp_all add: spans_fit_def e2(1) cfg_of_def cfg_ok_def)
    moreover have "xf_sink st2 = k1" by (simp add: st2(2) pump(2))
    ultimately have "xinv SHA start V ps st2" using w2(2) c' by (simp add: xinv_def e2(1))
    then show ?thesis using e2 st2(1) by (simp add: outcome_ok_def)
  next
    case False
    then obtain e where e: "fin = Some e" using s by (auto simp: settle_def split: sum.splits pump_result.splits)
    have em: "e = XCompleted \<Longrightarrow> xf_sink st2 = k1" "\<And>d. e = XDead d \<Longrightarrow> r = Inl d \<and> xf_sink st2 = k1"
      using s pump(2) e by (auto simp: settle_def split: sum.splits pump_result.splits)
    have fin: "em_end em1 = start + length (concat ps)" using follows_end [OF X(2)] j by (simp add: same_job_def)
    have "ended SHA start (concat ps) e st2"
    proof (cases r)
      case (Inl d)
      then have "e = XDead d" using s e by (simp add: settle_def)
      moreover have "stopped SHA start (concat ps) d em1 k1" using c Inl by (simp add: pump_contract_def)
      ultimately show ?thesis using em e2(1) fin by (auto simp: ended_def checked_def stopped_def cut_off_def)
    next
      case (Inr q)
      show ?thesis
      proof (cases q)
        case Finished
        then have "e = XCompleted" using s e Inr by (simp add: settle_def)
        moreover have "received k1 = concat ps" "\<forall>x\<in>set (sk_sent k1). \<not> isl x"
          "em_full ?em \<and> start < em_end ?em \<longrightarrow> SHA (concat ps) = em_nar_hash ?em"
          using c Inr Finished by (simp_all add: pump_contract_def)
        moreover have "em_full em1 = em_full ?em" "em_end em1 = em_end ?em" "em_nar_hash em1 = em_nar_hash ?em"
          using j by (simp_all add: same_job_def)
        moreover have "start < em_end ?em" if "concat ps \<noteq> []" "start + length (concat ps) = em_end ?em"
          using that by (metis length_greater_0_conv less_add_same_cancel1)
        ultimately show ?thesis using em e2(1) fin by (auto simp: ended_def checked_def simp del: concat_eq_Nil_conv)
      next
        case NeedData
        then show ?thesis using False Inr by simp
      next
        case (Abort msg)
        then show ?thesis using c Inr by (simp add: pump_contract_def)
      qed
    qed
    then show ?thesis using e e2 by (simp add: outcome_ok_def)
  qed
qed

text \<open>Pruning keeps the invariant.\<close>

lemma pruned_ok:
  assumes x: "xinv SHA start V ps st"
    and st': "st' = st\<lparr>xf_em := (xf_em st)\<lparr>em_buffered := prune (em_pos (xf_em st)) (em_buffered (xf_em st))\<rparr>\<rparr>"
  shows "xinv SHA start V ps st' \<and> same_setup st st' \<and> xf_done st' = xf_done st"
proof -
  let ?em = "xf_em st" and ?b = "prune (em_pos (xf_em st)) (em_buffered (xf_em st))"
  have X: "book_ok st" "follows SHA start V ps ?em (xf_sink st)" "waits ?em" "buffer_ok st" "spans_fit st" "cfg_ok (xf_ctx st)"
    using x by (simp_all add: xinv_def)
  have inv: "buf_inv (em_buffered ?em)" using X(2) by (simp add: follows_def)
  note pr = prune_spec [OF inv, of "em_pos ?em"]
  have sb: "same_books st st'" by (simp add: same_books_def st')
  have w: "owners st' = owners st" "book_ok st'" using same_books_ok [OF sb] X(1) by simp_all
  have "follows SHA start V ps (xf_em st') (xf_sink st')"
  proof -
    have "follows SHA start V ps (?em\<lparr>em_buffered := ?b\<rparr>) (xf_sink st)"
    proof (rule follows_buffer [OF X(2) pr(1)])
      fix j v assume "view ?b j = Some v"
      then have "view (em_buffered ?em) j = Some v" using pr(2) [of j] by auto
      then show "v = V j" using X(2) by (simp add: follows_def)
    qed
    then show ?thesis by (simp add: st')
  qed
  moreover have "waits (xf_em st')"
  proof -
    have "view ?b j = None" if "view (em_buffered ?em) j = None" for j using pr(2) [of j] that by auto
    then show ?thesis using X(3) unfolding waits_def st' by (auto split: prod.splits span_exec.splits option.splits)
  qed
  moreover have "buffer_ok st'"
    using X(4) pr(2) w(1) unfolding buffer_ok_def by (simp add: st') (metis option.distinct(1))
  moreover have "spans_fit st'" "cfg_ok (xf_ctx st')" using X(5,6) by (simp_all add: st' spans_fit_def)
  moreover have "same_setup st st'" "xf_done st' = xf_done st" by (simp_all add: st' same_setup_def same_job_def)
  ultimately show ?thesis using w(2) by (simp add: xinv_def)
qed

section \<open>Messages, timers, iterations\<close>

lemma seed_rate_eq: "\<exists>c. seed_rate now p st = st\<lparr>xf_ctx := c\<rparr> \<and> cfg_of c = cfg_of (xf_ctx st)"
  by (auto simp: seed_rate_def intro: exI [of _ "xf_ctx st"])

lemma flight_of_set [simp]: "flight_of off (set_flight off fl st) = fl"
  by (simp add: flight_of_def set_flight_def)

text \<open>The flight a message belongs to.\<close>

lemma message_flight:
  assumes "book_ok st" and "d \<in> set (xf_done st)"
  obtains fl where "map_of (xf_inflight st) (dn_off d) = Some fl" and "0 < dn_len d"
proof -
  have F: "flights_ok (set (outs st)) (xf_inflight st)" using assms(1) by (simp add: book_ok_def)
  have "(dn_attempt d, dn_off d, dn_len d) \<in> set (outs st)" using assms(2) by (auto simp: outs_def)
  then have "0 < dn_len d \<and> (\<exists>fl. (dn_off d, fl) \<in> set (xf_inflight st))" using F unfolding flights_ok_def by blast
  then show ?thesis using that F by (auto simp: flights_ok_def)
qed

lemma on_failure_ok:
  assumes x: "xinv SHA start V ps st" and d: "xf_done st = d # ds" and fl: "map_of (xf_inflight st) (dn_off d) = Some fl"
    and fl': "fl' = fl\<lparr>fl_attempts := filter (\<lambda>(i, _). i \<noteq> dn_attempt d) (fl_attempts fl)\<rparr>"
    and r: "on_failure now d (fl_delivered fl) (fl_attempts fl' \<noteq> []) (set_flight (dn_off d) fl' (st\<lparr>xf_done := ds\<rparr>)) = r"
  shows "outcome_ok SHA start V ps r \<and> same_setup st (snd r)"
proof -
  let ?st1 = "set_flight (dn_off d) fl' (st\<lparr>xf_done := ds\<rparr>)"
  obtain c where c: "seed_rate now (dn_peer d) ?st1 = ?st1\<lparr>xf_ctx := c\<rparr>" "cfg_of c = cfg_of (xf_ctx st)"
    using seed_rate_eq [of now "dn_peer d" ?st1] by (auto simp: set_flight_def)
  let ?st2 = "?st1\<lparr>xf_ctx := c\<rparr>" and ?again = "\<not> fl_delivered fl \<and> fl_attempts fl' = []"
  define st3 where "st3 = (let st = (if ?again then
        (let st = count (\<lambda>s. s\<lparr>fs_requeues := add64 (fs_requeues s) 1\<rparr>) (del_flight (dn_off d) ?st2)
         in st\<lparr>xf_requeue := insort (dn_off d, dn_len d) (xf_requeue st), xf_gate := Some (now + 100 * 10 ^ 6)\<rparr>)
      else if fl_attempts fl' = [] then del_flight (dn_off d) ?st2 else ?st2) in st\<lparr>xf_streak := xf_streak st + 1\<rparr>)"
  have b: "book_ok st" using x by (simp add: xinv_def)
  have e: "xf_inflight st3 = (if fl_attempts fl' \<noteq> [] then [(dn_off d, fl')] else []) @ kv_del (dn_off d) (xf_inflight st)"
    "xf_requeue st3 = (if ?again then insort (dn_off d, dn_len d) (xf_requeue st) else xf_requeue st)"
    "xf_tasks st3 = xf_tasks st" "xf_done st3 = ds" "xf_next_attempt st3 = xf_next_attempt st"
    "xf_ranges st3 = xf_ranges st" "xf_range_i st3 = xf_range_i st" "xf_range_pos st3 = xf_range_pos st"
    "xf_em st3 = xf_em st" "xf_sink st3 = xf_sink st" "cfg_of (xf_ctx st3) = cfg_of (xf_ctx st)" "xf_sources st3 = xf_sources st"
    using c(2) by (auto simp: st3_def Let_def set_flight_def del_flight_def count_def)
  have att: "fl_attempts fl' = filter (\<lambda>(i, _). i \<noteq> dn_attempt d) (fl_attempts fl)" "fl_delivered fl \<longrightarrow> fl_delivered fl'" by (simp_all add: fl')
  have bk: "?again \<longrightarrow> fl_attempts fl' = [] \<and> \<not> fl_delivered fl" by blast
  have "book_ok st3" by (rule book_after(1) [OF b d fl att e(1) e(2) bk e(3-8)])
  moreover have "owners st3 = owners st"
  proof
    fix j
    have "fl_delivered fl' = fl_delivered fl" by (simp add: fl')
    then show "owners st3 j = owners st j" using book_after(2) [OF b d fl att e(1) e(2) bk e(3-8), of j] by (auto split: if_splits)
  qed
  ultimately have x3: "xinv SHA start V ps st3" by (rule xinv_same [OF x]) (use e in simp_all)
  have set3: "same_setup st st3" using e by (simp add: same_setup_def)
  have r3: "r = (if xf_streak st3 \<ge> MAX_FAILURE_STREAK then (Some XStreak, report ''peers failing persistently''
      (count (\<lambda>s. s\<lparr>fs_aborts_streak := add64 (fs_aborts_streak s) 1\<rparr>) st3)) else (None, st3))"
    unfolding r [symmetric] on_failure_def c(1) st3_def Let_def by simp
  show ?thesis
  proof (cases "xf_streak st3 \<ge> MAX_FAILURE_STREAK")
    case True
    have "ended SHA start (concat ps) XStreak (snd r)" by (rule ended_early [OF x3]) (simp_all add: r3 True)
    then show ?thesis using set3 by (simp add: outcome_ok_def r3 True same_setup_def report_def count_def)
  next
    case False
    then show ?thesis using x3 set3 by (simp add: outcome_ok_def r3)
  qed
qed

text \<open>A message is honest when its bytes are those of the archive \<open>V\<close>.\<close>

definition honest_msg :: "(nat \<Rightarrow> u8) \<Rightarrow> done_msg \<Rightarrow> bool" where
  "honest_msg V d \<longleftrightarrow> (case dn_result d of Inr ch \<Rightarrow> ch_bytes ch = fetched_bytes V (dn_off d) (dn_len d) | Inl _ \<Rightarrow> True)"

lemma on_chunk_ok:
  assumes x: "xinv SHA start V ps st" and d: "xf_done st = d # ds" and ch: "dn_result d = Inr ch" and sha: "SHA = xe_sha X"
    and fl: "map_of (xf_inflight st) (dn_off d) = Some fl" and pos: "0 < dn_len d"
    and fl': "fl' = fl\<lparr>fl_attempts := filter (\<lambda>(i, _). i \<noteq> dn_attempt d) (fl_attempts fl)\<rparr>"
    and r: "on_chunk X now d ch (fl_delivered fl) (fl_attempts fl' \<noteq> []) (set_flight (dn_off d) fl' (st\<lparr>xf_done := ds\<rparr>)) = r"
  shows "\<exists>V' ps'. outcome_ok SHA start V' ps' r \<and> (honest_msg V d \<longrightarrow> V' = V \<and> ps' = ps) \<and> same_setup st (snd r)"
proof -
  let ?st1 = "(set_flight (dn_off d) fl' (st\<lparr>xf_done := ds\<rparr>))\<lparr>xf_remote := xf_remote st + dn_len d, xf_last_progress := now,
    xf_last_seen := xf_progress st, xf_streak := 0\<rparr>"
  have b: "book_ok st" using x by (simp add: xinv_def)
  have att: "fl_attempts fl' = filter (\<lambda>(i, _). i \<noteq> dn_attempt d) (fl_attempts fl)" "fl_delivered fl \<longrightarrow> fl_delivered fl'" by (simp_all add: fl')
  show ?thesis
  proof (cases "fl_delivered fl")
    case True
    define st2 where "st2 = (let st = count (\<lambda>s. s\<lparr>fs_hedged_waste := add64 (fs_hedged_waste s) (dn_len d)\<rparr>) ?st1
      in if fl_attempts fl' \<noteq> [] then st else del_flight (dn_off d) st)"
    have r2: "r = (None, st2)" using r True by (simp add: on_chunk_def st2_def Let_def set_flight_def)
    have e: "xf_inflight st2 = (if fl_attempts fl' \<noteq> [] then [(dn_off d, fl')] else []) @ kv_del (dn_off d) (xf_inflight st)"
      "xf_requeue st2 = (if False then insort (dn_off d, dn_len d) (xf_requeue st) else xf_requeue st)"
      "xf_tasks st2 = xf_tasks st" "xf_done st2 = ds" "xf_next_attempt st2 = xf_next_attempt st"
      "xf_ranges st2 = xf_ranges st" "xf_range_i st2 = xf_range_i st" "xf_range_pos st2 = xf_range_pos st"
      "xf_em st2 = xf_em st" "xf_sink st2 = xf_sink st" "cfg_of (xf_ctx st2) = cfg_of (xf_ctx st)" "xf_sources st2 = xf_sources st"
      by (auto simp: st2_def Let_def set_flight_def del_flight_def count_def)
    have bk: "False \<longrightarrow> fl_attempts fl' = [] \<and> \<not> fl_delivered fl" by blast
    have "book_ok st2" by (rule book_after(1) [OF b d fl att e(1) e(2) bk e(3-8)])
    moreover have "owners st2 = owners st"
      using book_after(2) [OF b d fl att e(1) e(2) bk e(3-8)] True by (intro ext) simp
    ultimately have "xinv SHA start V ps st2" by (rule xinv_same [OF x]) (use e in simp_all)
    then show ?thesis using e by (intro exI [of _ V] exI [of _ ps]) (simp add: r2 outcome_ok_def same_setup_def)
  next
    case False
    let ?fl = "fl'\<lparr>fl_delivered := True\<rparr>"
    define st2 where "st2 = (let st = (if fl_attempts fl' \<noteq> [] then set_flight (dn_off d) ?fl ?st1 else del_flight (dn_off d) ?st1)
      in st\<lparr>xf_em := (xf_em st)\<lparr>em_buffered := kv_put (dn_off d) (ch_bytes ch) (em_buffered (xf_em st))\<rparr>\<rparr>)"
    have e: "xf_inflight st2 = (if fl_attempts ?fl \<noteq> [] then [(dn_off d, ?fl)] else []) @ kv_del (dn_off d) (xf_inflight st)"
      "xf_requeue st2 = (if False then insort (dn_off d, dn_len d) (xf_requeue st) else xf_requeue st)"
      "xf_tasks st2 = xf_tasks st" "xf_done st2 = ds" "xf_next_attempt st2 = xf_next_attempt st"
      "xf_ranges st2 = xf_ranges st" "xf_range_i st2 = xf_range_i st" "xf_range_pos st2 = xf_range_pos st"
      "xf_em st2 = (xf_em st)\<lparr>em_buffered := kv_put (dn_off d) (ch_bytes ch) (em_buffered (xf_em st))\<rparr>" "xf_sink st2 = xf_sink st"
      "cfg_of (xf_ctx st2) = cfg_of (xf_ctx st)" "xf_sources st2 = xf_sources st"
      by (auto simp: st2_def Let_def set_flight_def del_flight_def)
    have att': "fl_attempts ?fl = filter (\<lambda>(i, _). i \<noteq> dn_attempt d) (fl_attempts fl)" "fl_delivered fl \<longrightarrow> fl_delivered ?fl" by (simp_all add: fl')
    have bk: "False \<longrightarrow> fl_attempts ?fl = [] \<and> \<not> fl_delivered fl" by blast
    have b2: "book_ok st2" by (rule book_after(1) [OF b d fl att' e(1) e(2) bk e(3-8)])
    have len: "length (ch_bytes ch) = dn_len d" using b d ch by (simp add: book_ok_def)
    have w2: "owners st2 j + own (dn_off d, length (ch_bytes ch)) j = owners st j" for j
      using book_after(2) [OF b d fl att' e(1) e(2) bk e(3-8), of j] False len by simp
    have ne: "ch_bytes ch \<noteq> []" using len pos by auto
    obtain q st3 where p: "xf_pump SHA st2 = (q, st3)" by fastforce
    obtain fin st4 where s: "settle q st3 = (fin, st4)" by fastforce
    define st5 where "st5 = (if fin = None then st4\<lparr>xf_em := (xf_em st4)\<lparr>em_buffered := prune (em_pos (xf_em st4)) (em_buffered (xf_em st4))\<rparr>\<rparr> else st4)"
    obtain V' ps' where R: "ready SHA start V' ps' st2" "ch_bytes ch = fetched_bytes V (dn_off d) (length (ch_bytes ch)) \<longrightarrow> V' = V \<and> ps' = ps"
      using delivered_ready [OF x b2 w2 e(9,10,11) ne] by blast
    have hon: "honest_msg V d \<longrightarrow> V' = V \<and> ps' = ps" using R(2) len ch by (simp add: honest_msg_def)
    note P = pumped_ok [OF R(1) p s]
    have set2: "same_setup st st2" using e by (simp add: same_setup_def same_job_def)
    have "outcome_ok SHA start V' ps' (fin, st5) \<and> same_setup st2 st5"
    proof (cases fin)
      case None
      then have "xinv SHA start V' ps' st4" using P by (simp add: outcome_ok_def)
      from pruned_ok [OF this refl] show ?thesis using P None by (auto simp: st5_def outcome_ok_def intro: same_setup_trans)
    qed (use P in \<open>simp add: st5_def\<close>)
    then have D: "outcome_ok SHA start V' ps' (fin, st5)" and set5: "same_setup st st5" using same_setup_trans [OF set2] by blast+
    have r5: "r = (case fin of Some e \<Rightarrow> (Some e, st5) | None \<Rightarrow> if below_floor now st5
        then (Some XMinBandwidth, report ''below min_bandwidth'' (count (\<lambda>s. s\<lparr>fs_aborts_min_bandwidth := add64 (fs_aborts_min_bandwidth s) 1\<rparr>)
               (st5\<lparr>xf_ctx := set_roaming now (xf_ctx st5)\<rparr>)))
        else (None, st5))"
    proof -
      have a: "st2 = (let st = (if fl_attempts fl' \<noteq> [] then set_flight (dn_off d) ((flight_of (dn_off d) ?st1)\<lparr>fl_delivered := True\<rparr>) ?st1
          else del_flight (dn_off d) ?st1) in st\<lparr>xf_em := (xf_em st)\<lparr>em_buffered := kv_put (dn_off d) (ch_bytes ch) (em_buffered (xf_em st))\<rparr>\<rparr>)"
        by (simp add: st2_def flight_of_def set_flight_def)
      have "on_chunk X now d ch False (fl_attempts fl' \<noteq> []) (set_flight (dn_off d) fl' (st\<lparr>xf_done := ds\<rparr>)) =
        (let (r, st) = xf_pump SHA st2; (fin, st) = settle r st in case fin of Some e \<Rightarrow> (Some e, st)
           | None \<Rightarrow> let st = st\<lparr>xf_em := (xf_em st)\<lparr>em_buffered := prune (em_pos (xf_em st)) (em_buffered (xf_em st))\<rparr>\<rparr>
             in if below_floor now st then (Some XMinBandwidth, report ''below min_bandwidth''
                  (count (\<lambda>s. s\<lparr>fs_aborts_min_bandwidth := add64 (fs_aborts_min_bandwidth s) 1\<rparr>) (st\<lparr>xf_ctx := set_roaming now (xf_ctx st)\<rparr>)))
                else (None, st))"
        unfolding on_chunk_def a sha by (simp add: Let_def set_flight_def)
      then show ?thesis using False p s unfolding r [symmetric] by (cases fin) (simp_all add: st5_def)
    qed
    show ?thesis
    proof (cases fin)
      case (Some e')
      then show ?thesis using D hon set5 r5 by auto
    next
      case None
      then have x5: "xinv SHA start V' ps' st5" using D by (simp add: outcome_ok_def)
      show ?thesis
      proof (cases "below_floor now st5")
        case True
        have "ended SHA start (concat ps') XMinBandwidth (snd r)"
          by (rule ended_early [OF x5]) (simp_all add: r5 None True)
        then show ?thesis using hon set5
          by (intro exI [of _ V'] exI [of _ ps']) (simp add: outcome_ok_def r5 None True same_setup_def report_def count_def set_roaming_def cfg_of_def)
      next
        case False
        then show ?thesis using x5 hon set5 by (intro exI [of _ V'] exI [of _ ps']) (simp add: outcome_ok_def r5 None)
      qed
    qed
  qed
qed

lemma on_done_ok:
  assumes x: "xinv SHA start V ps st" and d: "xf_done st = d # ds" and sha: "SHA = xe_sha X"
  shows "\<exists>V' ps'. outcome_ok SHA start V' ps' (on_done X now d (st\<lparr>xf_done := ds\<rparr>)) \<and> (honest_msg V d \<longrightarrow> V' = V \<and> ps' = ps) \<and>
     same_setup st (snd (on_done X now d (st\<lparr>xf_done := ds\<rparr>)))"
proof -
  have "book_ok st" "d \<in> set (xf_done st)" using x d by (simp_all add: xinv_def)
  then obtain fl where fl: "map_of (xf_inflight st) (dn_off d) = Some fl" "0 < dn_len d" by (rule message_flight)
  define fl' where "fl' = fl\<lparr>fl_attempts := filter (\<lambda>(i, _). i \<noteq> dn_attempt d) (fl_attempts fl)\<rparr>"
  let ?st1 = "set_flight (dn_off d) fl' (st\<lparr>xf_done := ds\<rparr>)"
  have rt: "retire d (st\<lparr>xf_done := ds\<rparr>) = ((fl_delivered fl, fl_attempts fl' \<noteq> []), ?st1)"
    using fl(1) by (simp add: retire_def fl'_def Let_def)
  show ?thesis
  proof (cases "dn_result d")
    case (Inl e)
    then have "on_done X now d (st\<lparr>xf_done := ds\<rparr>) = on_failure now d (fl_delivered fl) (fl_attempts fl' \<noteq> []) ?st1"
      using rt by (simp add: on_done_def)
    then show ?thesis using on_failure_ok [OF x d fl(1) fl'_def refl, of now] by auto
  next
    case (Inr ch)
    then have "on_done X now d (st\<lparr>xf_done := ds\<rparr>) = on_chunk X now d ch (fl_delivered fl) (fl_attempts fl' \<noteq> []) ?st1"
      using rt by (simp add: on_done_def)
    then show ?thesis using on_chunk_ok [OF x d Inr sha fl fl'_def refl, of now] by simp
  qed
qed


text \<open>The queue of messages, the timer and the head of the loop.\<close>

lemma settle_done: "settle r st = (fin, st') \<Longrightarrow> xf_done st' = xf_done st"
  by (auto simp: settle_def report_def count_def split: sum.splits pump_result.splits)

lemma on_chunk_done: "xf_done (snd (on_chunk X now d ch was twins st)) = xf_done st"
  by (auto simp: on_chunk_def Let_def count_def del_flight_def set_flight_def xf_pump_def report_def
      split: prod.split option.split dest!: settle_done)

lemma on_failure_done: "xf_done (snd (on_failure now d was twins st)) = xf_done st"
  by (auto simp: on_failure_def Let_def count_def del_flight_def report_def seed_rate_def)

lemma on_done_done: "xf_done (snd (on_done X now d st)) = xf_done st"
  by (auto simp: on_done_def Let_def on_chunk_done on_failure_done retire_def set_flight_def split: prod.split sum.split option.split)

lemma on_timer_ok:
  assumes x: "xinv SHA start V ps st"
  shows "outcome_ok SHA start V ps (on_timer now st) \<and> same_setup st (snd (on_timer now st)) \<and> xf_done (snd (on_timer now st)) = xf_done st"
proof -
  have early: "ended SHA start (concat ps) XStall (report msg (count f st))" for msg f
    by (rule ended_early [OF x]) simp_all
  have quiet: "xinv SHA start V ps (st\<lparr>xf_gate := None\<rparr>)" "xinv SHA start V ps (st\<lparr>xf_last_seen := p, xf_last_progress := now, xf_gate := None\<rparr>)" for p
    by (rule xinv_books [OF x]; simp add: same_books_def)+
  show ?thesis using early quiet
    by (simp add: on_timer_def outcome_ok_def same_setup_def) (simp add: report_def count_def)
qed

text \<open>The state a waiting loop sleeps in.\<close>

definition asleep :: "nat \<Rightarrow> xfer_end option \<times> xfer \<Rightarrow> bool" where
  "asleep now r \<longleftrightarrow> (fst r = None \<longrightarrow> idle now (xf_starved (snd r)) (snd r))"

lemma idle_same:
  assumes "same_books st st'" and "xf_em st' = xf_em st" and "xf_health st' = xf_health st" and "xf_sources st' = xf_sources st"
    and "xf_ctx st' = xf_ctx st" and "xf_gate st' = xf_gate st"
  shows "idle now s st' = idle now s st"
proof -
  have "live_peers now st' = live_peers now st" "uncarved st' = uncarved st" "gated now st' = gated now st" "xf_requeue st' = xf_requeue st"
    using assms by (simp_all add: live_peers_def peer_ids_def uncarved_def gated_def same_books_def)
  then show ?thesis using assms(2,5) same_work [OF assms(1)] by (simp add: idle_def)
qed

lemma resume_ok:
  assumes o: "outcome_ok SHA start V ps r" and r: "resume now r = Some r'"
  shows "outcome_ok SHA start V ps r' \<and> same_setup (snd r) (snd r') \<and> set (xf_done (snd r')) \<subseteq> set (xf_done (snd r)) \<and> asleep now r'"
proof (cases r)
  case (Pair e st)
  show ?thesis
  proof (cases e)
    case (Some x)
    then have r': "r' = (Some x, leave st)" using r Pair by (simp add: resume_def)
    have c: "cfg_of (fold (\<lambda>t c. map_limit (tk_peer t) limit_release c) ts c) = cfg_of c" for ts c
      by (induction ts arbitrary: c) simp_all
    have "ended SHA start (concat ps) x (leave st)" using o Pair Some ended_cong [of "leave st" st] by (simp add: outcome_ok_def leave_def)
    then show ?thesis using Pair Some unfolding r' by (simp add: outcome_ok_def asleep_def) (simp add: same_setup_def same_job_def leave_def c)
  next
    case None
    then have x: "xinv SHA start V ps st" using o Pair by (simp add: outcome_ok_def)
    obtain starved st1 where l: "launch_loop now st = Some (starved, st1)" "r' = (None, st1\<lparr>xf_wake := next_wake now st1, xf_starved := starved\<rparr>)"
      using r Pair None by (auto simp: resume_def split: option.splits)
    have L: "launched st st1 \<and> idle now starved st1" by (rule launch_loop_ok [OF l(1)]) (use x in \<open>simp_all add: xinv_def\<close>)
    let ?st2 = "st1\<lparr>xf_wake := next_wake now st1, xf_starved := starved\<rparr>"
    have sb: "same_books st1 ?st2" by (simp add: same_books_def)
    have "xinv SHA start V ps ?st2" by (rule xinv_books [OF xinv_launched [OF x conjunct1 [OF L]] sb]) simp_all
    moreover have "same_setup st ?st2" "xf_done ?st2 = xf_done st" using L by (simp_all add: launched_def frame_def same_setup_def same_job_def)
    moreover have "idle now starved ?st2" using L idle_same [OF sb] by simp
    ultimately show ?thesis using Pair None l(2) by (simp add: outcome_ok_def asleep_def)
  qed
qed

definition msgs_ok :: "(nat \<Rightarrow> bytes \<Rightarrow> bool) \<Rightarrow> xfer \<Rightarrow> bool" where
  "msgs_ok P st \<longleftrightarrow> (\<forall>d\<in>set (xf_done st). \<forall>ch. dn_result d = Inr ch \<longrightarrow> P (dn_off d) (ch_bytes ch))"

definition from_archive :: "(nat \<Rightarrow> u8) \<Rightarrow> (nat \<Rightarrow> bytes \<Rightarrow> bool) \<Rightarrow> bool" where
  "from_archive V P \<longleftrightarrow> (\<forall>off bs. P off bs \<longrightarrow> bs = fetched_bytes V off (length bs))"

lemma loop_step_ok:
  assumes x: "xinv (xe_sha X) start V ps st" and m: "msgs_ok P st" and r: "loop_step X now ev st = Some r"
  shows "\<exists>V' ps'. outcome_ok (xe_sha X) start V' ps' r \<and> (from_archive V P \<longrightarrow> V' = V \<and> ps' = ps) \<and> same_setup st (snd r) \<and>
    msgs_ok P (snd r) \<and> asleep now r"
proof (cases ev)
  case Received
  then obtain d ds where d: "xf_done st = d # ds" and r': "resume now (on_done X now d (st\<lparr>xf_done := ds\<rparr>)) = Some r"
    using r by (auto simp: loop_step_def split: list.splits)
  have "length (ch_bytes ch) = dn_len d" if "dn_result d = Inr ch" for ch using x d that by (simp add: xinv_def book_ok_def)
  moreover have "P (dn_off d) (ch_bytes ch)" if "dn_result d = Inr ch" for ch using m d that by (simp add: msgs_ok_def)
  ultimately have hon: "from_archive V P \<longrightarrow> honest_msg V d"
    unfolding from_archive_def honest_msg_def by (auto split: sum.split) metis
  obtain V' ps' where D: "outcome_ok (xe_sha X) start V' ps' (on_done X now d (st\<lparr>xf_done := ds\<rparr>))" "honest_msg V d \<longrightarrow> V' = V \<and> ps' = ps"
    "same_setup st (snd (on_done X now d (st\<lparr>xf_done := ds\<rparr>)))"
    using on_done_ok [OF x d refl] by blast
  note R = resume_ok [OF D(1) r']
  have "msgs_ok P (snd r)" using R m d by (auto simp: msgs_ok_def on_done_done)
  then show ?thesis using R D hon same_setup_trans by blast
next
  case TimerFired
  then have r': "resume now (on_timer now st) = Some r" using r by (simp add: loop_step_def split: if_splits)
  note T = on_timer_ok [OF x, of now]
  note R = resume_ok [OF conjunct1 [OF T] r']
  have "msgs_ok P (snd r)" using R T m by (auto simp: msgs_ok_def)
  then show ?thesis using R T same_setup_trans by blast
next
  case SlotFreed
  then have r': "resume now (None, st) = Some r" using r by (simp add: loop_step_def split: if_splits)
  have "outcome_ok (xe_sha X) start V ps (None, st)" using x by (simp add: outcome_ok_def)
  note R = resume_ok [OF this r']
  have "msgs_ok P (snd r)" using R m by (auto simp: msgs_ok_def)
  then show ?thesis using R by auto
qed

section \<open>Runs\<close>

text \<open>
  The runs of a transfer from the state \<open>r0\<close> it begins in: iterations of its loop while it has
  not ended, bytes arriving, workers ending (also detached ones after the end), and other
  transfers and the sync plane changing the shared context and the breakers. \<open>P\<close> says which
  bytes a successful exchange may deliver at an offset.
\<close>

inductive xfer_reach :: "xenv \<Rightarrow> (nat \<Rightarrow> bytes \<Rightarrow> bool) \<Rightarrow> xfer_end option \<times> xfer \<Rightarrow> xfer_end option \<times> xfer \<Rightarrow> bool"
  for X P r0 where
  Begin: "xfer_reach X P r0 r0"
| Iterate: "xfer_reach X P r0 (None, st) \<Longrightarrow> loop_step X now ev st = Some r \<Longrightarrow> xfer_reach X P r0 r"
| Arrive: "xfer_reach X P r0 (e, st) \<Longrightarrow> xf_tasks st \<noteq> [] \<Longrightarrow> xfer_reach X P r0 (e, st\<lparr>xf_progress := xf_progress st + n\<rparr>)"
| Finish: "xfer_reach X P r0 (e, st) \<Longrightarrow> t \<in> set (xf_tasks st) \<Longrightarrow> (out = None \<longrightarrow> tk_deadline_at t \<le> now) \<Longrightarrow>
    (\<forall>ch. fst (task_result X now t out (xf_health st ! tk_peer t)) = Inr ch \<longrightarrow> P (tk_off t) (ch_bytes ch)) \<Longrightarrow>
    xfer_reach X P r0 (e, finish_task X now t out dec st)"
| Others: "xfer_reach X P r0 (e, st) \<Longrightarrow> cfg_of c = cfg_of (xf_ctx st) \<Longrightarrow> xfer_reach X P r0 (e, st\<lparr>xf_ctx := c, xf_health := hs\<rparr>)"

lemma outcome_other:
  assumes "outcome_ok SHA start V ps (e, st)" and "xf_em st' = xf_em st" and "xf_sink st' = xf_sink st"
    and "e = None \<Longrightarrow> book_ok st' \<and> owners st' = owners st" and "cfg_of (xf_ctx st') = cfg_of (xf_ctx st)"
  shows "outcome_ok SHA start V ps (e, st')"
proof (cases e)
  case None
  then show ?thesis using assms xinv_same [of SHA start V ps st st'] by (simp add: outcome_ok_def)
next
  case (Some x)
  then show ?thesis using assms(1) ended_cong [OF assms(2,3)] by (simp add: outcome_ok_def)
qed

lemma run_ok:
  assumes "xfer_reach X P r0 r" and "outcome_ok (xe_sha X) start V ps r0" and "msgs_ok P (snd r0)"
  shows "\<exists>V' ps'. outcome_ok (xe_sha X) start V' ps' r \<and> (from_archive V P \<longrightarrow> V' = V \<and> ps' = ps) \<and>
    same_setup (snd r0) (snd r) \<and> msgs_ok P (snd r)"
  using assms
proof (induction rule: xfer_reach.induct)
  case Begin
  then show ?case by auto
next
  case (Iterate st now ev r)
  obtain V' ps' where I: "xinv (xe_sha X) start V' ps' st" "from_archive V P \<longrightarrow> V' = V \<and> ps' = ps" "same_setup (snd r0) st" "msgs_ok P st"
    using Iterate.IH [OF Iterate.prems] by (auto simp: outcome_ok_def)
  show ?case using loop_step_ok [OF I(1,4) Iterate.hyps(2)] I same_setup_trans by metis
next
  case (Arrive e st n)
  obtain V' ps' where I: "outcome_ok (xe_sha X) start V' ps' (e, st)" "from_archive V P \<longrightarrow> V' = V \<and> ps' = ps" "same_setup (snd r0) st" "msgs_ok P st"
    using Arrive.IH [OF Arrive.prems] by auto
  let ?st = "st\<lparr>xf_progress := xf_progress st + n\<rparr>"
  have "same_books st ?st" by (simp add: same_books_def)
  from same_books_ok [OF this] I(1) have "outcome_ok (xe_sha X) start V' ps' (e, ?st)"
    by (intro outcome_other [OF I(1)]) (simp_all add: outcome_ok_def xinv_def)
  moreover have "same_setup st ?st" "msgs_ok P ?st" using I(4) by (simp_all add: same_setup_def same_job_def msgs_ok_def)
  ultimately show ?case using I same_setup_trans by (metis snd_conv)
next
  case (Finish e st t out now dec)
  obtain V' ps' where I: "outcome_ok (xe_sha X) start V' ps' (e, st)" "from_archive V P \<longrightarrow> V' = V \<and> ps' = ps" "same_setup (snd r0) st" "msgs_ok P st"
    using Finish.IH [OF Finish.prems] by auto
  let ?st = "finish_task X now t out dec st"
  have f: "xf_em ?st = xf_em st" "xf_sink ?st = xf_sink st" "cfg_of (xf_ctx ?st) = cfg_of (xf_ctx st)" "xf_sources ?st = xf_sources st" "xf_ranges ?st = xf_ranges st"
    by (simp_all add: finish_task_def Let_def split: prod.split)
  have "outcome_ok (xe_sha X) start V' ps' (e, ?st)"
    by (rule outcome_other [OF I(1) f(1,2) _ f(3)]) (use I(1) finish_task_ok [OF _ Finish.hyps(2)] in \<open>simp add: outcome_ok_def xinv_def\<close>)
  moreover have "msgs_ok P ?st"
    using I(4) Finish.hyps(4) by (auto simp: msgs_ok_def finish_task_def Let_def split: prod.splits)
  moreover have "same_setup st ?st" using f by (simp add: same_setup_def)
  ultimately show ?case using I same_setup_trans by (metis snd_conv)
next
  case (Others e st c hs)
  obtain V' ps' where I: "outcome_ok (xe_sha X) start V' ps' (e, st)" "from_archive V P \<longrightarrow> V' = V \<and> ps' = ps" "same_setup (snd r0) st" "msgs_ok P st"
    using Others.IH [OF Others.prems] by auto
  let ?st = "st\<lparr>xf_ctx := c, xf_health := hs\<rparr>"
  have "same_books st ?st" by (simp add: same_books_def)
  from same_books_ok [OF this] I(1) have "outcome_ok (xe_sha X) start V' ps' (e, ?st)"
    by (intro outcome_other [OF I(1)]) (simp_all add: outcome_ok_def xinv_def Others.hyps(2))
  moreover have "same_setup st ?st" "msgs_ok P ?st" using I(4) Others.hyps(2) by (simp_all add: same_setup_def same_job_def msgs_ok_def)
  ultimately show ?case using I same_setup_trans by (metis snd_conv)
qed

end
