(* ===== verification/Delivery.thy ===== *)
theory Delivery
  imports Transfer_Run
begin

text \<open>
  What a transfer promises, from its start (\<open>run_transfer\<close> of \<open>src/fetch.rs\<close>) to its end: the
  whole archive only with the right hash, exactly the archive from honest peers, every
  position fetched once, and no sleep while there is work that a free peer could do.
\<close>

section \<open>The start\<close>

lemma ideal_lengths:
  "ideal V lits ss H = Some ps \<Longrightarrow> \<forall>off lo n. (off, XLit lo n) \<in> set ss \<longrightarrow> lo + n \<le> length lits \<Longrightarrow>
     map length ps = map (span_len \<circ> snd) ss"
proof (induction ss arbitrary: H ps)
  case (Cons s ss)
  obtain bs H' ps' where s: "ideal_span V lits s H = Some (bs, H')" "ideal V lits ss H' = Some ps'" "ps = bs # ps'"
    using Cons.prems(1) by (auto split: option.splits)
  obtain off x where x: "s = (off, x)" by (cases s)
  have "length bs = span_len x"
    using s(1) Cons.prems(2) unfolding x by (cases x) (fastforce simp: Let_def split: option.splits if_splits)+
  moreover have "map length ps' = map (span_len \<circ> snd) ss" by (rule Cons.IH [OF s(2)]) (use Cons.prems(2) in auto)
  ultimately show ?case using s(3) x by simp
qed simp

lemma owns_disjoint: "sorted_wrt (\<lambda>x y. fst x + snd x \<le> fst y) rs \<Longrightarrow> owns rs j \<le> 1"
proof (induction rs)
  case (Cons x rs)
  show ?case
  proof (cases "own x j = 0")
    case False
    have "own y j = 0" if "y \<in> set rs" for y
    proof -
      have "fst x + snd x \<le> fst y" using Cons.prems that by simp
      then show ?thesis using False by (auto simp: own_def split: if_splits)
    qed
    then have "owns rs j = 0" by (induction rs) simp_all
    then show ?thesis using own_le [of x j] by simp
  qed (use Cons in simp)
qed simp

lemma owns_in_ranges: "in_ranges rs j \<Longrightarrow> owns rs j \<noteq> 0"
  by (induction rs) (auto simp: in_ranges_def own_def)

lemma plan_start_ready:
  assumes P: "plan_ok (fc_window c) start fin P" and cfg: "cfg_ok c" and k: "sk_sent k = []"
    and ps: "ideal V (xp_lits P) (xp_spans P) Map.empty = Some ps"
  shows "ready SHA start V ps (xfer_of_plan now info sources start fin P k c hs)"
proof -
  let ?st = "xfer_of_plan now info sources start fin P k c hs"
  have P': "contig fst (span_len \<circ> snd) start (xp_spans P) fin" "ranges_ok start fin (xp_ranges P)"
    "\<And>i. fetches (xp_spans P) i \<Longrightarrow> in_ranges (xp_ranges P) i" "\<And>off lo n. (off, XLit lo n) \<in> set (xp_spans P) \<Longrightarrow> lo + n \<le> length (xp_lits P)"
    "\<And>off n u c'. (off, XFetch n (Some (u, c'))) \<in> set (xp_spans P) \<Longrightarrow> n \<le> fc_window c"
    using P unfolding plan_ok_def by blast+
  have srt: "sorted_wrt (\<lambda>x y. fst x + snd x \<le> fst y) (xp_ranges P)" using P'(2) by (simp add: ranges_ok_def)
  have len: "map length ps = map (span_len \<circ> snd) (xp_spans P)" by (rule ideal_lengths [OF ps]) (use P'(4) in blast)
  have l: "length ps = length (xp_spans P)" using arg_cong [OF len, of length] by simp
  have li: "length (ps ! i) = span_len (snd (xp_spans P ! i))" if "i < length ps" for i
    using arg_cong [OF len, of "\<lambda>xs. xs ! i"] that l by simp
  have w: "owners ?st j = owns (xp_ranges P) j" for j
    by (simp add: owners_def xfer_of_plan_def outs_def uncarved_def rest_ranges_0)
  have le: "owners ?st j \<le> 1" for j using owns_disjoint [OF srt] w by simp
  have book: "book_ok ?st"
    unfolding book_ok_def using le srt by (auto simp: xfer_of_plan_def outs_def flights_ok_def one_len_def carving_ok_def)
  have fl: "flow SHA start (concat (take 0 ps) @ take 0 (concat (drop 0 ps))) (xf_em ?st) k"
    by (simp add: flow_def xfer_of_plan_def k)
  have e: "em_spans (xf_em ?st) = xp_spans P" "em_pos (xf_em ?st) = start" "view (em_buffered (xf_em ?st)) j = None" for j
    by (simp_all add: xfer_of_plan_def view_def entry_at_def)
  have "follows SHA start V ps (xf_em ?st) (xf_sink ?st)"
    using P'(1) ps l li fl by (simp add: follows_def xfer_of_plan_def view_def entry_at_def)
  moreover have ge: "start \<le> j" if j: "fetches (xp_spans P) j" for j
  proof -
    obtain m off n r where m: "m < length (xp_spans P)" "xp_spans P ! m = (off, XFetch n r)" "off \<le> j"
      using j by (auto simp: fetches_def in_set_conv_nth)
    have "fst (xp_spans P ! m) = start + length (concat (take m ps))" by (rule span_offset [OF P'(1) l _ m(1)]) (use li in blast)
    then show ?thesis using m(2,3) by simp
  qed
  moreover have one: "owners ?st j \<noteq> 0" if "fetches (xp_spans P) j" for j
    using owns_in_ranges [OF P'(3) [OF that]] w [of j] by simp
  have "buffer_ok ?st" unfolding buffer_ok_def e using ge one by (meson leD)
  moreover have "spans_fit ?st" using P'(5) by (simp add: spans_fit_def xfer_of_plan_def)
  moreover have "xf_ctx ?st = c" by (simp add: xfer_of_plan_def)
  ultimately show ?thesis using book cfg \<open>buffer_ok ?st\<close> by (simp add: ready_def)
qed

text \<open>The plan comes from a manifest a peer gave, or is the fallback.\<close>

definition given_manifest :: "xenv \<Rightarrow> (nat \<Rightarrow> http_outcome option) \<Rightarrow> manifest \<Rightarrow> bool" where
  "given_manifest X ans m \<longleftrightarrow> (\<exists>q r body. ans q = Some (Answered r) \<and> read_capped MANIFEST_CAP r = Inr body \<and> xe_json X body = Some m)"

lemma fetch_manifest_given:
  "fetch_manifest th cd json ver our now (ans q) h = (Some m, h') \<Longrightarrow> \<exists>r body. ans q = Some (Answered r) \<and> read_capped MANIFEST_CAP r = Inr body \<and> json body = Some m"
  by (auto simp: fetch_manifest_def split: option.splits http_outcome.splits if_splits sum.splits)

lemma acquire_manifest_given:
  "acquire_manifest n X now ans avail tried (p, hs) = Some (Some m, p', hs') \<Longrightarrow> given_manifest X ans m"
proof (induction n arbitrary: tried p hs)
  case (Suc n)
  then show ?case
    by (auto split: option.splits prod.splits dest!: fetch_manifest_given simp: given_manifest_def)
qed simp

lemma choose_plan_cases:
  assumes "choose_plan X now ans info peers start fin (c, hs) = Some (P, c', hs')"
  shows "cfg_of c' = cfg_of c" and "fc_window c' = fc_window c"
    and "P = fallback_plan start fin \<or> start = 0 \<and> fin = ri_nar_size info \<and>
      (\<exists>m. given_manifest X ans m \<and> manifest_plan m info (fc_dedup_budget c) (fc_window c) = Inr P)"
proof -
  have "cfg_of c' = cfg_of c \<and> (P = fallback_plan start fin \<or> start = 0 \<and> fin = ri_nar_size info \<and>
      (\<exists>m. given_manifest X ans m \<and> manifest_plan m info (fc_dedup_budget c) (fc_window c) = Inr P))"
    using assms acquire_manifest_given
    by (auto simp: choose_plan_def Let_def split: if_splits option.splits sum.splits prod.splits)
  then show "cfg_of c' = cfg_of c" "fc_window c' = fc_window c"
    "P = fallback_plan start fin \<or> start = 0 \<and> fin = ri_nar_size info \<and>
      (\<exists>m. given_manifest X ans m \<and> manifest_plan m info (fc_dedup_budget c) (fc_window c) = Inr P)" by (simp_all add: cfg_of_def)
qed

text \<open>A peer's manifest describes what can be addressed: literals and segments stay below 2^64 bytes.\<close>

definition manifests_fit :: "xenv \<Rightarrow> (nat \<Rightarrow> http_outcome option) \<Rightarrow> remote_narinfo \<Rightarrow> fetch_ctx \<Rightarrow> bool" where
  "manifests_fit X ans info c \<longleftrightarrow>
     (\<forall>m P. given_manifest X ans m \<longrightarrow> manifest_plan m info (fc_dedup_budget c) (fc_window c) = Inr P \<longrightarrow> plan_fits (fc_window c) P)"

lemma run_transfer_starts:
  assumes r: "run_transfer X now ans info sources start fin k c hs = Some r0" and cfg: "cfg_ok c" and k: "sk_sent k = []"
    and se: "start < fin" and fit: "manifests_fit X ans info c"
  obtains P c' hs' where "plan_ok (fc_window c) start fin P"
    and "P = fallback_plan start fin \<or> start = 0 \<and> fin = ri_nar_size info \<and>
      (\<exists>m. given_manifest X ans m \<and> manifest_plan m info (fc_dedup_budget c) (fc_window c) = Inr P)"
    and "\<forall>V ps. ideal V (xp_lits P) (xp_spans P) Map.empty = Some ps \<longrightarrow>
      outcome_ok (xe_sha X) start V ps r0 \<and> msgs_ok Q (snd r0) \<and> asleep now r0 \<and>
      same_setup (xfer_of_plan now info sources start fin P k c' hs') (snd r0)"
proof -
  let ?c = "c\<lparr>fc_stats := (fc_stats c)\<lparr>fs_started := add64 (fs_started (fc_stats c)) 1\<rparr>\<rparr>"
  obtain P c' hs' q st where p: "choose_plan X now ans info (map fst sources) start fin (?c, hs) = Some (P, c', hs')"
    "xf_pump (xe_sha X) (xfer_of_plan now info sources start fin P k c' hs') = (q, st)" "resume now (settle q st) = Some r0"
    using r by (auto simp: run_transfer_def Let_def split: option.splits prod.splits)
  note C = choose_plan_cases [OF p(1), simplified]
  have ok: "plan_ok (fc_window c) start fin P"
    using C(3) fallback_plan_ok [OF se] manifest_plan_ok(1) fit by (auto simp: manifests_fit_def)
  have cfg': "cfg_ok c'" using C(1) cfg cfg_ok_cong [of c' c] by (simp add: cfg_of_def)
  have "outcome_ok (xe_sha X) start V ps r0 \<and> msgs_ok Q (snd r0) \<and> asleep now r0 \<and>
      same_setup (xfer_of_plan now info sources start fin P k c' hs') (snd r0)"
    if "ideal V (xp_lits P) (xp_spans P) Map.empty = Some ps" for V ps
  proof -
    have "ready (xe_sha X) start V ps (xfer_of_plan now info sources start fin P k c' hs')"
      by (rule plan_start_ready [OF _ cfg' k that]) (use ok C(2) in simp)
    moreover obtain f st' where s: "settle q st = (f, st')" by fastforce
    ultimately have Q: "outcome_ok (xe_sha X) start V ps (settle q st)" "same_setup (xfer_of_plan now info sources start fin P k c' hs') (snd (settle q st))"
      "xf_done (snd (settle q st)) = []"
      using pumped_ok [OF _ p(2) s] by (simp_all add: xfer_of_plan_def)
    from resume_ok [OF Q(1) p(3)] show ?thesis using Q same_setup_trans by (auto simp: msgs_ok_def)
  qed
  then show ?thesis using that ok C(3) by blast
qed


section \<open>Safety\<close>

lemma outcome_checked: "outcome_ok SHA start V ps (e, st) \<Longrightarrow> checked SHA start st"
  by (cases e) (auto simp: outcome_ok_def ended_def xinv_def intro: follows_checked)

lemma outcome_prefix: "outcome_ok SHA start V ps (e, st) \<Longrightarrow> \<exists>rest. received (xf_sink st) @ rest = concat ps"
proof (cases e)
  case None
  assume "outcome_ok SHA start V ps (e, st)"
  then show ?thesis using None waiting_short [of SHA start V ps st] by (auto simp: outcome_ok_def)
next
  case (Some x)
  assume "outcome_ok SHA start V ps (e, st)"
  then show ?thesis using Some
    by (cases x) (auto simp: outcome_ok_def ended_def stopped_def cut_off_def)
qed

text \<open>The length of what a plan delivers.\<close>

lemma plan_length:
  assumes "plan_ok w start fin P" and "ideal V (xp_lits P) (xp_spans P) Map.empty = Some ps"
  shows "fin = start + length (concat ps)"
proof -
  have "map length ps = map (span_len \<circ> snd) (xp_spans P)" by (rule ideal_lengths [OF assms(2)]) (use assms(1) in \<open>unfold plan_ok_def, blast\<close>)
  then show ?thesis using assms(1) by (auto simp: plan_ok_def length_concat dest!: contig_end)
qed

text \<open>Everything a run from the start of a transfer can be.\<close>

lemma transfer_outcome:
  assumes run: "run_transfer X now ans info sources start fin k c hs = Some r0" and cfg: "cfg_ok c" and k: "sk_sent k = []"
    and se: "start < fin" and fit: "manifests_fit X ans info c" and reach: "xfer_reach X Q r0 (e, st)"
  obtains V ps where "outcome_ok (xe_sha X) start V ps (e, st)" and "length (concat ps) = fin - start"
    and "em_full (xf_em st) = (start = 0 \<and> fin = ri_nar_size info)" and "em_end (xf_em st) = fin" and "em_nar_hash (xf_em st) = ri_nar_hash info"
proof -
  obtain P c' hs' where P: "plan_ok (fc_window c) start fin P"
    and "P = fallback_plan start fin \<or> start = 0 \<and> fin = ri_nar_size info \<and>
      (\<exists>m. given_manifest X ans m \<and> manifest_plan m info (fc_dedup_budget c) (fc_window c) = Inr P)"
    and S: "\<forall>V ps. ideal V (xp_lits P) (xp_spans P) Map.empty = Some ps \<longrightarrow>
      outcome_ok (xe_sha X) start V ps r0 \<and> msgs_ok Q (snd r0) \<and> asleep now r0 \<and>
      same_setup (xfer_of_plan now info sources start fin P k c' hs') (snd r0)"
    by (rule run_transfer_starts [OF run cfg k se fit, where Q = Q])
  define V0 :: "nat \<Rightarrow> u8" where "V0 = (\<lambda>_. 0)"
  obtain ps0 where ps0: "ideal V0 (xp_lits P) (xp_spans P) Map.empty = Some ps0" using P unfolding plan_ok_def by blast
  have S0: "outcome_ok (xe_sha X) start V0 ps0 r0" "msgs_ok Q (snd r0)" "same_setup (xfer_of_plan now info sources start fin P k c' hs') (snd r0)"
    using S ps0 by simp_all
  obtain V ps where O: "outcome_ok (xe_sha X) start V ps (e, st)" and "same_setup (snd r0) st" using run_ok [OF reach S0(1,2)] by auto
  then have j: "same_job (xf_em (xfer_of_plan now info sources start fin P k c' hs')) (xf_em st)"
    using same_setup_trans [OF S0(3)] by (auto simp: same_setup_def)
  then have em: "em_full (xf_em st) = (start = 0 \<and> fin = ri_nar_size info)" "em_end (xf_em st) = fin" "em_nar_hash (xf_em st) = ri_nar_hash info"
    by (simp_all add: same_job_def xfer_of_plan_def)
  have "em_end (xf_em st) = start + length (concat ps)"
  proof (cases e)
    case None
    then have "follows (xe_sha X) start V ps (xf_em st) (xf_sink st)" using O by (simp add: outcome_ok_def xinv_def)
    then show ?thesis by (rule follows_end)
  next
    case (Some x)
    then show ?thesis using O by (simp add: outcome_ok_def ended_def)
  qed
  then show ?thesis using that [OF O _ em] em(2) se by simp
qed


lemma archive_checked:
  assumes "run_transfer X now ans info sources 0 (ri_nar_size info) k c hs = Some r0" and "cfg_ok c" and "sk_sent k = []"
    and "0 < ri_nar_size info" and "manifests_fit X ans info c" and "xfer_reach X (\<lambda>_ _. True) r0 (e, st)"
  shows "length (received (xf_sink st)) \<le> ri_nar_size info \<and>
    (length (received (xf_sink st)) = ri_nar_size info \<longrightarrow> xe_sha X (received (xf_sink st)) = ri_nar_hash info) \<and>
    (e = Some XCompleted \<longrightarrow> length (received (xf_sink st)) = ri_nar_size info \<and> (\<forall>x\<in>set (sk_sent (xf_sink st)). \<not> isl x)) \<and>
    (\<forall>msg. e \<noteq> Some (XPlanBug msg))"
proof -
  obtain V ps where O: "outcome_ok (xe_sha X) 0 V ps (e, st)" and len: "length (concat ps) = ri_nar_size info - 0"
    and em: "em_full (xf_em st) = (0 = (0::nat) \<and> ri_nar_size info = ri_nar_size info)" "em_end (xf_em st) = ri_nar_size info" "em_nar_hash (xf_em st) = ri_nar_hash info"
    by (rule transfer_outcome [OF assms])
  obtain rest where rest: "received (xf_sink st) @ rest = concat ps" using outcome_prefix [OF O] by blast
  have "length (received (xf_sink st)) \<le> ri_nar_size info" using arg_cong [OF rest, of length] len by simp
  moreover have "xe_sha X (received (xf_sink st)) = ri_nar_hash info" if "length (received (xf_sink st)) = ri_nar_size info"
    using outcome_checked [OF O] that em assms(4) by (auto simp: checked_def)
  moreover have "length (received (xf_sink st)) = ri_nar_size info \<and> (\<forall>x\<in>set (sk_sent (xf_sink st)). \<not> isl x)" if "e = Some XCompleted"
    using O that len by (simp add: outcome_ok_def ended_def)
  moreover have "e \<noteq> Some (XPlanBug msg)" for msg using O by (auto simp: outcome_ok_def ended_def)
  ultimately show ?thesis by blast
qed


text \<open>A transfer without peers, to start from: its first state waits for data.\<close>

definition wit_env :: xenv where
  "wit_env = \<lparr>xe_sha = (\<lambda>b. take 32 (rev b)), xe_unz = (\<lambda>_ _. None), xe_json = (\<lambda>_. None), xe_url_ok = (\<lambda>_. True), xe_threshold = 3, xe_cooldown = 10\<rparr>"

definition wit_cfg :: proxy_settings where
  "wit_cfg = \<lparr>ps_connections = 4, ps_chunk_max = 2 ^ 23, ps_window = 2 ^ 26, ps_stall = 30 * 10 ^ 9, ps_min_bw = 0, ps_grace = 60, ps_dedup_budget = 0\<rparr>"

definition wit_ctx :: fetch_ctx where
  "wit_ctx = ctx_new 0 [] wit_cfg (pool_new 0)"

definition wit_info :: "bytes \<Rightarrow> remote_narinfo" where
  "wit_info N = \<lparr>ri_store_path = '''', ri_compression = '''', ri_nar_hash = xe_sha wit_env N, ri_nar_size = length N,
     ri_references = [], ri_deriver = None, ri_ca = None, ri_sigs = []\<rparr>"

definition wit_sink :: sink where
  "wit_sink = \<lparr>sk_sent = [], sk_quota = None\<rparr>"

lemma wit_ctx_ok: "cfg_ok wit_ctx"
  by (simp add: cfg_ok_def wit_ctx_def ctx_new_def wit_cfg_def Let_def CHUNK_MIN_def)

lemma wit_manifests: "manifests_fit wit_env (\<lambda>_. None) info c"
  by (simp add: manifests_fit_def given_manifest_def)

definition wit_state :: "remote_narinfo \<Rightarrow> (nat \<times> string) list \<Rightarrow> health list \<Rightarrow> xfer" where
  "wit_state info srcs hs = xfer_of_plan 0 info srcs 0 (ri_nar_size info) (fallback_plan 0 (ri_nar_size info)) wit_sink
     (wit_ctx\<lparr>fc_stats := (fc_stats wit_ctx)\<lparr>fs_started := add64 (fs_started (fc_stats wit_ctx)) 1\<rparr>\<rparr>) hs"

text \<open>A transfer whose sources are all behind open breakers sends nothing.\<close>

lemma no_live_launch:
  assumes "filter (\<lambda>p. available now (xf_health st ! p)) (peer_ids st) = []" and "xf_requeue st = []" and "xf_ranges st = [(0, n)]"
    and "xf_range_i st = 0" and "xf_range_pos st = 0" and "em_pos (xf_em st) = 0" and "0 < n" and "0 < fc_window (xf_ctx st)"
  shows "launch_loop now st = Some (False, st)"
proof -
  have "pick_among [] p = Some (None, p)" for p by (simp add: pick_among_def)
  moreover have "peer_ids (st\<lparr>xf_range_i := 0, xf_range_pos := 0\<rparr>) = peer_ids st" by (simp add: peer_ids_def)
  ultimately have "launch_once now st = Some (Stop False, st)"
    using assms by (simp add: launch_once_def candidate_def carve_def advance.simps Let_def with_pool_def del: filter_empty_conv)
  then show ?thesis by (subst launch_loop.simps) simp
qed

lemma no_live_starts:
  assumes "0 < ri_nar_size info" and "ri_nar_size info < MANIFEST_MIN" and live: "filter (\<lambda>p. available 0 (hs ! p)) (map fst srcs) = []"
  shows "run_transfer wit_env 0 (\<lambda>_. None) info srcs 0 (ri_nar_size info) wit_sink wit_ctx hs =
    Some (None, (wit_state info srcs hs)\<lparr>xf_wake := next_wake 0 (wit_state info srcs hs), xf_starved := False\<rparr>)"
proof -
  let ?c = "wit_ctx\<lparr>fc_stats := (fc_stats wit_ctx)\<lparr>fs_started := add64 (fs_started (fc_stats wit_ctx)) 1\<rparr>\<rparr>"
  let ?st = "wit_state info srcs hs"
  have cp: "choose_plan wit_env 0 (\<lambda>_. None) info (map fst srcs) 0 (ri_nar_size info) (?c, hs) = Some (fallback_plan 0 (ri_nar_size info), ?c, hs)"
    using assms by (simp add: choose_plan_def)
  have "take_prefix 0 (ri_nar_size info) [] = None" by (simp add: take_prefix_def last_le_def)
  then have "pump (xe_sha wit_env) (xf_em ?st, wit_sink) (fc_stats ?c) = (Inr NeedData, (xf_em ?st, wit_sink), fc_stats ?c)"
    using assms(1) by (subst pump.simps) (simp add: pump_span_def wit_state_def xfer_of_plan_def fallback_plan_def plain_loop.simps)
  then have p: "xf_pump (xe_sha wit_env) ?st = (Inr NeedData, ?st)"
    by (simp add: xf_pump_def wit_state_def xfer_of_plan_def)
  have "filter (\<lambda>p. available 0 (xf_health ?st ! p)) (peer_ids ?st) = []" using live by (simp add: wit_state_def xfer_of_plan_def peer_ids_def del: filter_empty_conv)
  then have "launch_loop 0 ?st = Some (False, ?st)"
    by (rule no_live_launch) (use assms(1) in \<open>simp_all del: length_greater_0_conv add: wit_state_def xfer_of_plan_def fallback_plan_def wit_ctx_def ctx_new_def Let_def CHUNK_MIN_def\<close>)
  moreover have "run_transfer wit_env 0 (\<lambda>_. None) info srcs 0 (ri_nar_size info) wit_sink wit_ctx hs = resume 0 (settle (Inr NeedData) ?st)"
    using cp p by (simp add: run_transfer_def Let_def wit_state_def)
  ultimately show ?thesis by (simp add: settle_def resume_def)
qed

lemma no_peers_starts:
  assumes "0 < length N" and "length N < MANIFEST_MIN"
  shows "run_transfer wit_env 0 (\<lambda>_. None) (wit_info N) [] 0 (length N) wit_sink wit_ctx [] =
    Some (None, (wit_state (wit_info N) [] [])\<lparr>xf_wake := next_wake 0 (wit_state (wit_info N) [] []), xf_starved := False\<rparr>)"
  using no_live_starts [of "wit_info N" "[]" "[]"] assms by (simp add: wit_info_def)

lemma no_peers_waits:
  assumes "0 < length N" and "length N < MANIFEST_MIN"
  shows "\<exists>st. run_transfer wit_env 0 (\<lambda>_. None) (wit_info N) [] 0 (length N) wit_sink wit_ctx [] = Some (None, st)"
  using no_peers_starts [OF assms] by blast


section \<open>Honest peers\<close>

text \<open>The peers give manifests of the path and ranges of its archive.\<close>

definition honest_peers :: "xenv \<Rightarrow> (bytes \<Rightarrow> bytes) \<Rightarrow> fs_node \<Rightarrow> (nat \<Rightarrow> http_outcome option) \<Rightarrow> bool" where
  "honest_peers X B3 tree ans \<longleftrightarrow>
     (\<forall>m. given_manifest X ans m \<longrightarrow> (\<exists>nh ns sb. 0 < sb \<and> build_manifest B3 tree nh ns sb = Inr m \<and> inj_on B3 (fs_segments sb tree)))"

definition range_of :: "bytes \<Rightarrow> nat \<Rightarrow> bytes \<Rightarrow> bool" where
  "range_of N off bs \<longleftrightarrow> bs = fetched_bytes ((!) N) off (length bs)"

lemma range_of_take: "off + n \<le> length N \<Longrightarrow> range_of N off (take n (drop off N))"
  by (simp add: range_of_def fetched_bytes_def list_eq_iff_nth_eq)

lemma honest_outcome:
  assumes run: "run_transfer X now ans info sources start fin k c hs = Some r0" and cfg: "cfg_ok c" and k: "sk_sent k = []"
    and se: "start < fin" "fin \<le> length (nar tree)" and ns: "ri_nar_size info = length (nar tree)"
    and fit: "manifests_fit X ans info c" and hon: "honest_peers X B3 tree ans" and tree: "fs_ok tree" and b3: "\<forall>x. length (B3 x) = 32"
    and reach: "xfer_reach X (range_of (nar tree)) r0 (e, st)"
  obtains ps where "outcome_ok (xe_sha X) start ((!) (nar tree)) ps (e, st)" and "concat ps = take (fin - start) (drop start (nar tree))"
    and "em_nar_hash (xf_em st) = ri_nar_hash info" and "em_full (xf_em st) = (start = 0 \<and> fin = length (nar tree))"
proof -
  let ?N = "nar tree"
  obtain P c' hs' where P: "plan_ok (fc_window c) start fin P"
    and pl: "P = fallback_plan start fin \<or> start = 0 \<and> fin = ri_nar_size info \<and>
      (\<exists>m. given_manifest X ans m \<and> manifest_plan m info (fc_dedup_budget c) (fc_window c) = Inr P)"
    and S: "\<forall>V ps. ideal V (xp_lits P) (xp_spans P) Map.empty = Some ps \<longrightarrow>
      outcome_ok (xe_sha X) start V ps r0 \<and> msgs_ok (range_of ?N) (snd r0) \<and> asleep now r0 \<and>
      same_setup (xfer_of_plan now info sources start fin P k c' hs') (snd r0)"
    by (rule run_transfer_starts [OF run cfg k se(1) fit, where Q = "range_of ?N"])
  have "\<exists>ps. ideal ((!) ?N) (xp_lits P) (xp_spans P) Map.empty = Some ps \<and> concat ps = take (fin - start) (drop start ?N)"
    using pl
  proof (elim disjE conjE exE)
    assume "P = fallback_plan start fin"
    moreover have "fetched_bytes ((!) ?N) start (fin - start) = take (fin - start) (drop start ?N)"
      using se by (simp add: fetched_bytes_def list_eq_iff_nth_eq)
    ultimately show ?thesis using fallback_ideal [of "(!) ?N" start fin] by simp
  next
    fix m assume m: "start = 0" "fin = ri_nar_size info" "given_manifest X ans m" "manifest_plan m info (fc_dedup_budget c) (fc_window c) = Inr P"
    obtain nh ns' sb where b: "0 < sb" "build_manifest B3 tree nh ns' sb = Inr m" "inj_on B3 (fs_segments sb tree)"
      using hon m(3) unfolding honest_peers_def by blast
    have "plan_fits (fc_window c) P" using fit m(3,4) by (simp add: manifests_fit_def)
    from honest_plan [OF b(2) m(4) this tree b(1) b3 b(3)] show ?thesis using m ns by simp
  qed
  then obtain ps where ps: "ideal ((!) ?N) (xp_lits P) (xp_spans P) Map.empty = Some ps" "concat ps = take (fin - start) (drop start ?N)" by blast
  have S0: "outcome_ok (xe_sha X) start ((!) ?N) ps r0" "msgs_ok (range_of ?N) (snd r0)" "same_setup (xfer_of_plan now info sources start fin P k c' hs') (snd r0)"
    using S ps(1) by simp_all
  have "from_archive ((!) ?N) (range_of ?N)" by (simp add: from_archive_def range_of_def)
  then have O: "outcome_ok (xe_sha X) start ((!) ?N) ps (e, st)" and ss: "same_setup (snd r0) st" using run_ok [OF reach S0(1,2)] by auto
  have "same_job (xf_em (xfer_of_plan now info sources start fin P k c' hs')) (xf_em st)"
    using same_setup_trans [OF S0(3) ss] by (simp add: same_setup_def)
  then have "em_nar_hash (xf_em st) = ri_nar_hash info" "em_full (xf_em st) = (start = 0 \<and> fin = length ?N)"
    using ns by (simp_all add: same_job_def xfer_of_plan_def)
  then show ?thesis using that O ps(2) by blast
qed

text \<open>
  C2: From honest peers - each manifest one gives is a manifest of the path, each range one
  delivers is that range of its archive - whatever fails, is repeated, hedged or reordered: the
  client has at every moment received exactly the beginning of the requested range of the
  archive, a transfer that completes has delivered all of it, and none ends in a hash mismatch.
\<close>

theorem honest_peers_deliver_the_archive:
  assumes "run_transfer X now ans info sources start fin k c hs = Some r0" and "cfg_ok c" and "sk_sent k = []"
    and "start < fin" and "fin \<le> length (nar tree)" and "ri_nar_size info = length (nar tree)" and "ri_nar_hash info = xe_sha X (nar tree)"
    and "manifests_fit X ans info c" and "honest_peers X B3 tree ans" and "fs_ok tree" and "\<forall>x. length (B3 x) = 32"
    and "xfer_reach X (range_of (nar tree)) r0 (e, st)"
  shows "\<exists>rest. received (xf_sink st) @ rest = take (fin - start) (drop start (nar tree)) \<and>
    (e = Some XCompleted \<longrightarrow> rest = []) \<and> e \<noteq> Some (XDead HashMismatch)"
proof -
  obtain ps where O: "outcome_ok (xe_sha X) start ((!) (nar tree)) ps (e, st)" and cp: "concat ps = take (fin - start) (drop start (nar tree))"
    and h: "em_nar_hash (xf_em st) = ri_nar_hash info" and fu: "em_full (xf_em st) = (start = 0 \<and> fin = length (nar tree))"
    by (rule honest_outcome [OF assms(1-6) assms(8-12)])
  obtain rest where rest: "received (xf_sink st) @ rest = concat ps" using outcome_prefix [OF O] by blast
  have "rest = []" if "e = Some XCompleted" using O rest that by (simp add: outcome_ok_def ended_def)
  moreover have "e \<noteq> Some (XDead HashMismatch)"
  proof
    assume "e = Some (XDead HashMismatch)"
    then have en: "em_end (xf_em st) = start + length (concat ps)" "stopped (xe_sha X) start (concat ps) HashMismatch (xf_em st) (xf_sink st)"
      using O by (simp_all add: outcome_ok_def ended_def)
    then have "\<exists>Y Z. concat ps = Y @ Z \<and> em_full (xf_em st) \<and> start + length Y = em_end (xf_em st) \<and> xe_sha X Y \<noteq> em_nar_hash (xf_em st)"
      unfolding stopped_def cut_off_def by blast
    then obtain Y Z where y: "concat ps = Y @ Z" "em_full (xf_em st)" "start + length Y = em_end (xf_em st)" "xe_sha X Y \<noteq> em_nar_hash (xf_em st)" by blast
    have "Z = []" using arg_cong [OF y(1), of length] y(3) en(1) by simp
    then show False using y cp h fu assms(7) by simp
  qed
  ultimately show ?thesis using rest cp by metis
qed

theorem honest_peers_deliver_the_archive_witness:
  "\<exists>r0 st. run_transfer wit_env 0 (\<lambda>_. None) (wit_info (nar (Symlink ''x''))) [] 0 (length (nar (Symlink ''x''))) wit_sink wit_ctx [] = Some r0 \<and>
     xfer_reach wit_env (range_of (nar (Symlink ''x''))) r0 (None, st) \<and> (\<exists>rest. received (xf_sink st) @ rest = nar (Symlink ''x''))"
proof -
  let ?N = "nar (Symlink ''x'')"
  have n: "0 < length ?N" "length ?N < MANIFEST_MIN" by (simp_all add: nar_def Framing.frame_def pad_len_def bytes_of_def MANIFEST_MIN_def)
  obtain st where r: "run_transfer wit_env 0 (\<lambda>_. None) (wit_info ?N) [] 0 (length ?N) wit_sink wit_ctx [] = Some (None, st)"
    using no_peers_waits [OF n] by blast
  have reach: "xfer_reach wit_env (range_of ?N) (None, st) (None, st)" by (rule xfer_reach.Begin)
  have i: "sk_sent wit_sink = []" "ri_nar_size (wit_info ?N) = length ?N" "ri_nar_hash (wit_info ?N) = xe_sha wit_env ?N" "length ?N \<le> length ?N"
    by (simp_all add: wit_sink_def wit_info_def)
  have hon: "honest_peers wit_env (\<lambda>_. replicate 32 0) (Symlink ''x'') (\<lambda>_. None)" by (simp add: honest_peers_def given_manifest_def)
  have "fs_ok (Symlink ''x'')" by simp
  from honest_peers_deliver_the_archive [OF r wit_ctx_ok i(1) n(1) i(4) i(2,3) wit_manifests hon this _ reach]
  show ?thesis using r reach by auto
qed

section \<open>Nothing is fetched twice, nothing is forgotten\<close>

lemma waiting_inv:
  assumes "run_transfer X now ans info sources start fin k c hs = Some r0" and "cfg_ok c" and "sk_sent k = []"
    and "start < fin" and "manifests_fit X ans info c" and "xfer_reach X Q r0 (None, st)"
  obtains V ps where "xinv (xe_sha X) start V ps st"
proof -
  obtain V ps where "outcome_ok (xe_sha X) start V ps (None, st)" and "length (concat ps) = fin - start"
    and "em_full (xf_em st) = (start = 0 \<and> fin = ri_nar_size info)" and "em_end (xf_em st) = fin" and "em_nar_hash (xf_em st) = ri_nar_hash info"
    by (rule transfer_outcome [OF assms])
  then show ?thesis using that by (simp add: outcome_ok_def)
qed

text \<open>
  C3: While a transfer runs, every position of the archive it must fetch is owed by at most
  one of the carving cursor, the requeue heap and the flights not yet delivered; it is owed by
  exactly one until its byte is in the reorder buffer or has gone to the client, and by none
  from then on: no failure, hedge or repetition loses a position or buffers it twice.
\<close>

theorem every_position_is_owed_once:
  assumes "run_transfer X now ans info sources start fin k c hs = Some r0" and "cfg_ok c" and "sk_sent k = []"
    and "start < fin" and "manifests_fit X ans info c" and "xfer_reach X Q r0 (None, st)"
  shows "(\<forall>j. owners st j \<le> 1) \<and>
    (\<forall>j. fetches (em_spans (xf_em st)) j \<longrightarrow>
      owners st j = (if j < em_pos (xf_em st) \<or> view (em_buffered (xf_em st)) j \<noteq> None then 0 else 1))"
proof -
  obtain V ps where x: "xinv (xe_sha X) start V ps st" by (rule waiting_inv [OF assms])
  have le: "owners st j \<le> 1" for j using x by (simp add: xinv_def book_ok_def)
  have B: "buffer_ok st" using x by (simp add: xinv_def)
  have "owners st j = (if j < em_pos (xf_em st) \<or> view (em_buffered (xf_em st)) j \<noteq> None then 0 else 1)"
    if f: "fetches (em_spans (xf_em st)) j" for j
  proof (cases "j < em_pos (xf_em st) \<or> view (em_buffered (xf_em st)) j \<noteq> None")
    case True
    then show ?thesis using B f unfolding buffer_ok_def by auto
  next
    case False
    then have "owners st j \<noteq> 0" using B f unfolding buffer_ok_def by blast
    then show ?thesis using le [of j] False by simp
  qed
  then show ?thesis using le by blast
qed

theorem every_position_is_owed_once_witness:
  "\<exists>r0 st. run_transfer wit_env 0 (\<lambda>_. None) (wit_info [1, 2, 3]) [] 0 3 wit_sink wit_ctx [] = Some r0 \<and>
     xfer_reach wit_env (\<lambda>_ _. True) r0 (None, st) \<and> (\<forall>j. owners st j \<le> 1)"
proof -
  obtain st where r: "run_transfer wit_env 0 (\<lambda>_. None) (wit_info [1, 2, 3]) [] 0 3 wit_sink wit_ctx [] = Some (None, st)"
    using no_peers_waits [of "[1, 2, 3]"] by (auto simp: MANIFEST_MIN_def numeral_3_eq_3)
  have reach: "xfer_reach wit_env (\<lambda>_ _. True) (None, st) (None, st)" by (rule xfer_reach.Begin)
  have i: "sk_sent wit_sink = []" "(0::nat) < 3" by (simp_all add: wit_sink_def)
  from every_position_is_owed_once [OF r wit_ctx_ok i wit_manifests reach] show ?thesis using r reach by auto
qed

section \<open>A sleeping loop has something to wait for\<close>

lemma owns_nonzero: "owns xs j \<noteq> 0 \<Longrightarrow> \<exists>x\<in>set xs. fst x \<le> j"
  by (induction xs) (auto simp: own_def split: if_splits)

lemma flown_nonzero: "flown xs m j \<noteq> 0 \<Longrightarrow> \<exists>off fl. (off, fl) \<in> set m \<and> \<not> fl_delivered fl"
proof (induction m)
  case (Cons x m)
  obtain off fl where "x = (off, fl)" by (cases x)
  then show ?case using Cons by (cases "fl_delivered fl") (simp_all, blast+)
qed simp

text \<open>The next candidate of the carving cursor and of the heap is the lowest position of either.\<close>

lemma carved_from:
  assumes "carving_ok st" and "work_at off None st" and "x \<in> set (uncarved st)"
  shows "off \<le> fst x"
proof -
  let ?i = "xf_range_i st" and ?rs = "xf_ranges st"
  have w: "?i < length ?rs" "off = fst (?rs ! ?i) + xf_range_pos st" "xf_range_pos st < snd (?rs ! ?i)" using assms(2) by (simp_all add: work_at_def)
  have "?rs ! ?i \<in> set (take (Suc ?i) ?rs)" using w(1) by (simp add: take_Suc_conv_app_nth)
  then have "\<forall>y\<in>set (drop (Suc ?i) ?rs). fst (?rs ! ?i) + snd (?rs ! ?i) \<le> fst y"
    using assms(1) sorted_wrt_append [of "\<lambda>x y. fst x + snd x \<le> fst y" "take (Suc ?i) ?rs" "drop (Suc ?i) ?rs"] by (auto simp: carving_ok_def)
  then show ?thesis using assms(3) w by (auto simp: uncarved_def rest_ranges_nth)
qed

lemma requeued_first:
  assumes "carving_ok st" and "xf_requeue st = (off, l) # rest"
  shows "x \<in> set (xf_requeue st) \<Longrightarrow> off \<le> fst x" and "x \<in> set (uncarved st) \<Longrightarrow> off \<le> fst x"
proof -
  have s: "sorted ((off, l) # rest)" using assms by (simp add: carving_ok_def)
  show "x \<in> set (xf_requeue st) \<Longrightarrow> off \<le> fst x" using s assms(2) by (auto simp: less_eq_prod_def)
  show "x \<in> set (uncarved st) \<Longrightarrow> off \<le> fst x" using assms by (fastforce simp: carving_ok_def)
qed

definition awaits_chunk :: "xfer \<Rightarrow> bool" where
  "awaits_chunk st \<longleftrightarrow> (\<exists>off fl. (off, fl) \<in> set (xf_inflight st) \<and> \<not> fl_delivered fl \<and>
     ((\<exists>t\<in>set (xf_tasks st). tk_off t = off) \<or> (\<exists>d\<in>set (xf_done st). dn_off d = off)))"

lemma idle_waits:
  assumes x: "xinv SHA start V ps st" and i: "idle now starved st"
  shows "awaits_chunk st \<or> xf_requeue st \<noteq> [] \<and> gated now st \<or> live_peers now st = [] \<or>
    starved \<and> (\<exists>p\<in>set (live_peers now st). \<not> has_idle_capacity (fc_limits (xf_ctx st) ! p))"
proof -
  have b: "book_ok st" and f: "follows SHA start V ps (xf_em st) (xf_sink st)" and w: "waits (xf_em st)" and B: "buffer_ok st" and
    sp: "spans_fit st" and "cfg_ok (xf_ctx st)" using x by (simp_all add: xinv_def)
  then have "0 < fc_window (xf_ctx st)" by (simp add: cfg_ok_def)
  then obtain j where j: "fetches (em_spans (xf_em st)) j" "em_pos (xf_em st) \<le> j" "j < em_pos (xf_em st) + fc_window (xf_ctx st)"
    "view (em_buffered (xf_em st)) j = None"
    using waits_for [OF f w] sp unfolding spans_fit_def by blast
  then have "owners st j \<noteq> 0" using B unfolding buffer_ok_def by (meson leD)
  then consider (flown) "flown (outs st) (xf_inflight st) j \<noteq> 0" | (requeued) "owns (xf_requeue st) j \<noteq> 0" | (uncarved) "owns (uncarved st) j \<noteq> 0"
    by (auto simp: owners_def)
  then show ?thesis
  proof cases
    case flown
    then obtain off fl where fl: "(off, fl) \<in> set (xf_inflight st)" "\<not> fl_delivered fl" using flown_nonzero by blast
    have "flights_ok (set (outs st)) (xf_inflight st)" using b by (simp add: book_ok_def)
    then have "fl_attempts fl \<noteq> []" "\<forall>a\<in>fst ` set (fl_attempts fl). \<exists>l. (a, off, l) \<in> set (outs st)" using fl(1) unfolding flights_ok_def by blast+
    then obtain a l where "(a, off, l) \<in> set (outs st)" by (meson image_eqI list.set_sel(1))
    then have "(\<exists>t\<in>set (xf_tasks st). tk_off t = off) \<or> (\<exists>d\<in>set (xf_done st). dn_off d = off)" by (auto simp: outs_def)
    then show ?thesis using fl unfolding awaits_chunk_def by blast
  next
    case requeued
    then obtain y where y: "y \<in> set (xf_requeue st)" "fst y \<le> j" using owns_nonzero by blast
    have "off \<le> fst y" if "work_at off (Some l) st" for off l
      using that requeued_first(1) [OF _ _ y(1)] b by (auto simp: work_at_def book_ok_def)
    then show ?thesis using i y j(3) by (fastforce simp: idle_def split: if_splits option.splits)
  next
    case uncarved
    then obtain y where y: "y \<in> set (uncarved st)" "fst y \<le> j" using owns_nonzero by blast
    have C: "carving_ok st" using b by (simp add: book_ok_def)
    have "off \<le> fst y" if "work_at off q st" for off q
      using that requeued_first(2) [OF C _ y(1)] carved_from [OF C _ y(1)] by (cases q) (auto simp: work_at_def)
    then show ?thesis using i y j(3) by (fastforce simp: idle_def split: if_splits option.splits)
  qed
qed

text \<open>When the loop wakes up by itself, at the latest.\<close>

definition repoll_at :: "nat \<Rightarrow> xfer \<Rightarrow> nat" where
  "repoll_at now st = (case soonest_recovery now (map (\<lambda>p. xf_health st ! p) (peer_ids st)) of
     Some t \<Rightarrow> t + 10 * 10 ^ 6 | None \<Rightarrow> now + 200 * 10 ^ 6)"

lemma wakes_in_time:
  assumes "resume now r = Some (None, st)"
  shows "xf_gate st = Some g \<Longrightarrow> xf_requeue st \<noteq> [] \<Longrightarrow> xf_wake st \<le> g"
    and "\<forall>t\<in>set (xf_tasks st). tk_detached t \<Longrightarrow> em_pos (xf_em st) < em_end (xf_em st) \<Longrightarrow> xf_wake st \<le> repoll_at now st"
proof -
  obtain st1 starved where "st = st1\<lparr>xf_wake := next_wake now st1, xf_starved := starved\<rparr>"
    using assms by (auto simp: resume_def split: prod.splits option.splits)
  moreover have "next_wake now (st1\<lparr>xf_wake := u, xf_starved := v\<rparr>) = next_wake now st1" for u v
    by (simp add: next_wake_def deadlines_def peer_ids_def Let_def cong: option.case_cong)
  ultimately have w: "xf_wake st = next_wake now st" by simp
  show "xf_gate st = Some g \<Longrightarrow> xf_requeue st \<noteq> [] \<Longrightarrow> xf_wake st \<le> g"
    unfolding w by (simp add: next_wake_def Let_def min.coboundedI1)
  show "\<forall>t\<in>set (xf_tasks st). tk_detached t \<Longrightarrow> em_pos (xf_em st) < em_end (xf_em st) \<Longrightarrow> xf_wake st \<le> repoll_at now st"
    unfolding w by (simp add: next_wake_def Let_def list_ex_iff repoll_at_def)
qed

lemma loop_step_resumes: "loop_step X now ev st = Some r \<Longrightarrow> \<exists>q. resume now q = Some r"
  unfolding loop_step_def by (auto split: loop_event.splits list.splits if_splits simp del: split_paired_Ex)

text \<open>
  C4: An iteration of the loop that goes back to sleep always leaves something that wakes it:
  an attempt of an undelivered chunk that runs or has reported; a retry gate before which it is
  due; no live peer, and then a worker to wait for or a timer no later than the recovery of
  the first breaker; or a live peer with a full stream budget, whose slots wake it. It never
  sleeps with work at hand that a free live peer could do.
\<close>

theorem sleeping_transfer_waits_for_something:
  assumes "run_transfer X now0 ans info sources start fin k c hs = Some r0" and "cfg_ok c" and "sk_sent k = []"
    and "start < fin" and "manifests_fit X ans info c" and "xfer_reach X Q r0 (None, st)" and "loop_step X now ev st = Some (None, st')"
  shows "awaits_chunk st' \<or>
    (\<exists>g. xf_gate st' = Some g \<and> now < g \<and> xf_requeue st' \<noteq> [] \<and> xf_wake st' \<le> g) \<or>
    (live_peers now st' = [] \<and> ((\<exists>t\<in>set (xf_tasks st'). \<not> tk_detached t) \<or> xf_wake st' \<le> repoll_at now st')) \<or>
    (xf_starved st' \<and> (\<exists>p\<in>set (live_peers now st'). \<not> has_idle_capacity (fc_limits (xf_ctx st') ! p)))"
proof -
  obtain V ps where x: "xinv (xe_sha X) start V ps st" by (rule waiting_inv [OF assms(1-6)])
  have "msgs_ok (\<lambda>_ _. True) st" by (simp add: msgs_ok_def)
  from loop_step_ok [OF x this assms(7)] obtain V' ps' where o: "outcome_ok (xe_sha X) start V' ps' (None, st')" and a: "asleep now (None, st')"
    by blast
  have x': "xinv (xe_sha X) start V' ps' st'" and i: "idle now (xf_starved st') st'" using o a by (simp_all add: outcome_ok_def asleep_def)
  obtain q where q: "resume now q = Some (None, st')" using loop_step_resumes [OF assms(7)] by blast
  note W = wakes_in_time [OF q]
  have f: "follows (xe_sha X) start V' ps' (xf_em st') (xf_sink st')" using x' by (simp add: xinv_def)
  obtain Y where "Y \<noteq> []" "received (xf_sink st') @ Y = concat ps'" using waiting_short [OF x'] by blast
  then have short: "em_pos (xf_em st') < em_end (xf_em st')"
    using follows_end [OF f] follows_received [OF f] by (metis add_less_cancel_left length_append length_greater_0_conv less_add_same_cancel1)
  from idle_waits [OF x' i] show ?thesis
    using W short by (auto simp: gated_def split: option.splits)
qed

lemma no_peers_timer:
  "\<exists>st st'. run_transfer wit_env 0 (\<lambda>_. None) (wit_info [1, 2, 3]) [] 0 3 wit_sink wit_ctx [] = Some (None, st) \<and>
     loop_step wit_env (200 * 10 ^ 6) TimerFired st = Some (None, st')"
proof -
  let ?s = "wit_state (wit_info [1, 2, 3]) [] []"
  let ?st = "?s\<lparr>xf_wake := next_wake 0 ?s, xf_starved := False\<rparr>"
  have r: "run_transfer wit_env 0 (\<lambda>_. None) (wit_info [1, 2, 3]) [] 0 3 wit_sink wit_ctx [] = Some (None, ?st)"
    using no_peers_starts [of "[1, 2, 3]"] by (simp add: MANIFEST_MIN_def numeral_3_eq_3)
  have f: "xf_last_progress ?s = 0" "xf_progress ?s = 0" "xf_last_seen ?s = 0" "fc_stall (xf_ctx ?s) = 30 * 10 ^ 9" "xf_inflight ?s = []"
    "xf_gate ?s = None" "xf_requeue ?s = []" "xf_sources ?s = []" "xf_ranges ?s = [(0, 3)]" "xf_range_i ?s = 0" "xf_range_pos ?s = 0"
    "em_pos (xf_em ?s) = 0" "em_end (xf_em ?s) = 3" "xf_tasks ?s = []" "0 < fc_window (xf_ctx ?s)"
    by (simp_all add: wit_info_def wit_state_def xfer_of_plan_def fallback_plan_def wit_ctx_def ctx_new_def wit_cfg_def Let_def CHUNK_MIN_def)
  have w: "next_wake 0 ?s = 200 * 10 ^ 6"
    by (simp add: next_wake_def f deadlines_def peer_ids_def soonest_recovery_def Let_def)
  have "on_timer (200 * 10 ^ 6) ?st = (None, ?st\<lparr>xf_gate := None\<rparr>)" by (simp add: on_timer_def f)
  moreover have "launch_loop (200 * 10 ^ 6) (?st\<lparr>xf_gate := None\<rparr>) = Some (False, ?st\<lparr>xf_gate := None\<rparr>)"
    by (rule no_live_launch [where n = 3]) (simp_all add: f peer_ids_def)
  ultimately have "\<exists>st'. loop_step wit_env (200 * 10 ^ 6) TimerFired ?st = Some (None, st')"
    by (simp add: loop_step_def w resume_def)
  then show ?thesis using r by blast
qed

theorem sleeping_transfer_waits_for_something_witness:
  "\<exists>st st'. run_transfer wit_env 0 (\<lambda>_. None) (wit_info [1, 2, 3]) [] 0 3 wit_sink wit_ctx [] = Some (None, st) \<and>
     loop_step wit_env (200 * 10 ^ 6) TimerFired st = Some (None, st') \<and>
     (live_peers (200 * 10 ^ 6) st' = [] \<or> awaits_chunk st' \<or> xf_requeue st' \<noteq> [] \<or> xf_starved st')"
proof -
  obtain st st' where r: "run_transfer wit_env 0 (\<lambda>_. None) (wit_info [1, 2, 3]) [] 0 3 wit_sink wit_ctx [] = Some (None, st)"
    and l: "loop_step wit_env (200 * 10 ^ 6) TimerFired st = Some (None, st')"
    using no_peers_timer by blast
  have i: "sk_sent wit_sink = []" "(0::nat) < 3" by (simp_all add: wit_sink_def)
  have reach: "xfer_reach wit_env (\<lambda>_ _. True) (None, st) (None, st)" by (rule xfer_reach.Begin)
  from sleeping_transfer_waits_for_something [OF r wit_ctx_ok i wit_manifests reach l]
  show ?thesis using r l by blast
qed

end
