(* ===== verification/Table_Cache.thy ===== *)
theory Table_Cache
  imports Nar Narinfo
begin

text \<open>
  The cache of seek tables (\<open>NarCache\<close>, \<open>NarEntry\<close>, \<open>nar_entry\<close> and \<open>seek_table\<close> of
  \<open>src/serve.rs\<close>): an LRU of shared entries by archive hash with a byte account that a memory
  governor may shrink. Requests run concurrently: what each does under the lock is one step.
  An \<open>Arc\<close> is an index into the list of entries ever made; a table is set once, after the
  account took its bytes in. \<open>seg_size\<close> is the compiler's size of a segment.
\<close>

section \<open>State\<close>

record enc_stats =
  es_read_us :: nat
  es_encode_us :: nat
  es_span :: nat

record nar_entry =
  ne_info :: path_info
  ne_table :: "seek_table option"
  ne_enc :: "enc_stats option"

text \<open>The most recently used entry comes first.\<close>

record nar_cache =
  nc_lru :: "(bytes \<times> nat) list"
  nc_bytes :: nat
  nc_budget :: nat
  nc_ceiling :: nat

definition TABLE_BUDGET_CAP :: nat where "TABLE_BUDGET_CAP = 256 * 1024 * 1024"
definition TABLE_BUDGET_FLOOR_SHARE :: nat where "TABLE_BUDGET_FLOOR_SHARE = 8"
definition TABLE_ENTRIES :: nat where "TABLE_ENTRIES = 4096"

definition table_budget :: "nat \<Rightarrow> nat" where
  "table_budget available = min (available div 10) TABLE_BUDGET_CAP"

definition approx_bytes :: "nat \<Rightarrow> seek_table \<Rightarrow> nat" where
  "approx_bytes seg_size t = length (st_lits t) + length (st_segs t) * (seg_size + 32)"

definition cache_new :: "nat \<Rightarrow> nar_cache" where
  "cache_new available = \<lparr>nc_lru = [], nc_bytes = 0, nc_budget = table_budget available, nc_ceiling = table_budget available\<rparr>"

section \<open>Operations\<close>

text \<open>\<open>LruCache::get\<close> makes the entry the most recent; \<open>push\<close> gives back what it displaces.\<close>

definition lru_get :: "'k \<Rightarrow> ('k \<times> 'v) list \<Rightarrow> ('v \<times> ('k \<times> 'v) list) option" where
  "lru_get k l = (case map_of l k of None \<Rightarrow> None | Some v \<Rightarrow> Some (v, (k, v) # filter (\<lambda>x. fst x \<noteq> k) l))"

definition lru_push :: "nat \<Rightarrow> 'k \<Rightarrow> 'v \<Rightarrow> ('k \<times> 'v) list \<Rightarrow> 'v option \<times> ('k \<times> 'v) list" where
  "lru_push cap k v l =
     (case map_of l k of
        Some old \<Rightarrow> (Some old, (k, v) # filter (\<lambda>x. fst x \<noteq> k) l)
      | None \<Rightarrow> if length l \<ge> cap \<and> l \<noteq> [] then (Some (snd (last l)), (k, v) # butlast l) else (None, (k, v) # l))"

definition forget :: "nat \<Rightarrow> nar_entry list \<Rightarrow> nat \<Rightarrow> nar_cache \<Rightarrow> nar_cache" where
  "forget sz heap e c =
     (case ne_table (heap ! e) of
        Some t \<Rightarrow> c\<lparr>nc_bytes := nc_bytes c - approx_bytes sz t\<rparr>
      | None \<Rightarrow> c)"

definition cache_insert :: "nat \<Rightarrow> nar_entry list \<Rightarrow> bytes \<Rightarrow> nat \<Rightarrow> nar_cache \<Rightarrow> nar_cache" where
  "cache_insert sz heap h e c =
     (case lru_push TABLE_ENTRIES h e (nc_lru c) of
        (displaced, l) \<Rightarrow>
          let c = c\<lparr>nc_lru := l\<rparr> in (case displaced of Some d \<Rightarrow> forget sz heap d c | None \<Rightarrow> c))"

function evict_to_budget :: "nat \<Rightarrow> nar_entry list \<Rightarrow> nar_cache \<Rightarrow> nar_cache" where
  "evict_to_budget sz heap c =
     (if nc_bytes c > nc_budget c \<and> length (nc_lru c) > 1
      then evict_to_budget sz heap (forget sz heap (snd (last (nc_lru c))) (c\<lparr>nc_lru := butlast (nc_lru c)\<rparr>))
      else c)"
  by pat_completeness auto
termination
  by (relation "measure (\<lambda>(_, _, c). length (nc_lru c))") (auto simp: forget_def split: option.splits)

declare evict_to_budget.simps [simp del]

definition cache_account :: "nat \<Rightarrow> nar_entry list \<Rightarrow> bytes \<Rightarrow> nat \<Rightarrow> nat \<Rightarrow> nar_cache \<Rightarrow> nar_cache" where
  "cache_account sz heap h e built c =
     (if map_of (nc_lru c) h = Some e then evict_to_budget sz heap (c\<lparr>nc_bytes := nc_bytes c + built\<rparr>) else c)"

definition cache_set_budget :: "nat \<Rightarrow> nar_entry list \<Rightarrow> nat \<Rightarrow> nar_cache \<Rightarrow> nar_cache" where
  "cache_set_budget sz heap b c = evict_to_budget sz heap (c\<lparr>nc_budget := b\<rparr>)"

definition cache_floor :: "nar_cache \<Rightarrow> nat" where
  "cache_floor c = nc_ceiling c div TABLE_BUDGET_FLOOR_SHARE"

definition table_cache_status :: "nar_cache \<Rightarrow> nat \<times> nat" where
  "table_cache_status c = (nc_budget c, nc_bytes c)"

section \<open>The steps of requests\<close>

text \<open>
  The entries, the cache, the entries requests hold, and the builds under way (the entry, its
  hash, the table, and whether the account has taken it in).
\<close>

record table_state =
  ts_heap :: "nar_entry list"
  ts_cache :: nar_cache
  ts_held :: "(bytes \<times> nat) list"
  ts_builds :: "(nat \<times> bytes \<times> seek_table \<times> bool) list"

definition entry_hit :: "bytes \<Rightarrow> table_state \<Rightarrow> (nat \<times> table_state) option" where
  "entry_hit h s =
     (case lru_get h (nc_lru (ts_cache s)) of
        None \<Rightarrow> None
      | Some (e, l) \<Rightarrow> Some (e, s\<lparr>ts_cache := (ts_cache s)\<lparr>nc_lru := l\<rparr>, ts_held := (h, e) # ts_held s\<rparr>))"

text \<open>After the database answered: the entry of a request that came first is shared.\<close>

definition entry_insert :: "nat \<Rightarrow> bytes \<Rightarrow> path_info \<Rightarrow> table_state \<Rightarrow> nat \<times> table_state" where
  "entry_insert sz h info s =
     (case entry_hit h s of
        Some r \<Rightarrow> r
      | None \<Rightarrow>
          let e = length (ts_heap s); heap = ts_heap s @ [\<lparr>ne_info = info, ne_table = None, ne_enc = None\<rparr>]
          in (e, s\<lparr>ts_heap := heap, ts_cache := cache_insert sz heap h e (ts_cache s), ts_held := (h, e) # ts_held s\<rparr>))"

text \<open>A walk that succeeded with the size the database has; one per entry at a time.\<close>

definition build_start :: "bytes \<Rightarrow> nat \<Rightarrow> seek_table \<Rightarrow> table_state \<Rightarrow> table_state option" where
  "build_start h e t s =
     (if (h, e) \<in> set (ts_held s) \<and> ne_table (ts_heap s ! e) = None \<and> e \<notin> fst ` set (ts_builds s) \<and>
         st_size t = pi_nar_size (ne_info (ts_heap s ! e))
      then Some (s\<lparr>ts_builds := (e, h, t, False) # ts_builds s\<rparr>) else None)"

definition build_account :: "nat \<Rightarrow> nat \<times> bytes \<times> seek_table \<times> bool \<Rightarrow> table_state \<Rightarrow> table_state" where
  "build_account sz b s =
     (case b of (e, h, t, _) \<Rightarrow>
        s\<lparr>ts_cache := cache_account sz (ts_heap s) h e (approx_bytes sz t) (ts_cache s),
          ts_builds := (e, h, t, True) # remove1 b (ts_builds s)\<rparr>)"

definition build_set :: "nat \<times> bytes \<times> seek_table \<times> bool \<Rightarrow> table_state \<Rightarrow> table_state" where
  "build_set b s =
     (case b of (e, _, t, _) \<Rightarrow>
        s\<lparr>ts_heap := (ts_heap s)[e := (ts_heap s ! e)\<lparr>ne_table := Some t\<rparr>], ts_builds := remove1 b (ts_builds s)\<rparr>)"

inductive table_step :: "nat \<Rightarrow> table_state \<Rightarrow> table_state \<Rightarrow> bool" for sz where
  Hit: "entry_hit h s = Some (e, s') \<Longrightarrow> table_step sz s s'"
| Insert: "entry_insert sz h info s = (e, s') \<Longrightarrow> table_step sz s s'"
| Start: "build_start h e t s = Some s' \<Longrightarrow> table_step sz s s'"
| Account: "(e, h, t, False) \<in> set (ts_builds s) \<Longrightarrow> table_step sz s (build_account sz (e, h, t, False) s)"
| SetTable: "(e, h, t, True) \<in> set (ts_builds s) \<Longrightarrow> table_step sz s (build_set (e, h, t, True) s)"
| Budget: "table_step sz s (s\<lparr>ts_cache := cache_set_budget sz (ts_heap s) b (ts_cache s)\<rparr>)"
| Encoded: "table_step sz s (s\<lparr>ts_heap := (ts_heap s)[e := (ts_heap s ! e)\<lparr>ne_enc := x\<rparr>]\<rparr>)"

inductive table_reach :: "nat \<Rightarrow> table_state \<Rightarrow> table_state \<Rightarrow> bool" for sz s0 where
  Begin: "table_reach sz s0 s0"
| Step: "table_reach sz s0 s \<Longrightarrow> table_step sz s s' \<Longrightarrow> table_reach sz s0 s'"

definition table_start :: "nat \<Rightarrow> table_state" where
  "table_start available = \<lparr>ts_heap = [], ts_cache = cache_new available, ts_held = [], ts_builds = []\<rparr>"

section \<open>The account\<close>

text \<open>The bytes the account holds for an entry: of its table, or of one about to be set.\<close>

definition counted :: "nat \<Rightarrow> nar_entry list \<Rightarrow> (nat \<times> bytes \<times> seek_table \<times> bool) list \<Rightarrow> nat \<Rightarrow> nat" where
  "counted sz heap bs e =
     (case ne_table (heap ! e) of
        Some t \<Rightarrow> approx_bytes sz t
      | None \<Rightarrow> (case map_of bs e of Some (_, t, True) \<Rightarrow> approx_bytes sz t | _ \<Rightarrow> 0))"

definition resident_bytes :: "nat \<Rightarrow> table_state \<Rightarrow> nat" where
  "resident_bytes sz s = sum_list (map (\<lambda>x. counted sz (ts_heap s) (ts_builds s) (snd x)) (nc_lru (ts_cache s)))"

definition tables_ok :: "table_state \<Rightarrow> bool" where
  "tables_ok s \<longleftrightarrow>
     (let lru = nc_lru (ts_cache s); n = length (ts_heap s)
      in distinct (map fst lru) \<and> distinct (map snd lru) \<and> set lru \<subseteq> set (ts_held s) \<and> length lru \<le> TABLE_ENTRIES \<and>
         (\<forall>x\<in>set (ts_held s). snd x < n) \<and> (\<forall>h h' e. (h, e) \<in> set (ts_held s) \<longrightarrow> (h', e) \<in> set (ts_held s) \<longrightarrow> h = h') \<and>
         distinct (map fst (ts_builds s)) \<and>
         (\<forall>b\<in>set (ts_builds s). (fst (snd b), fst b) \<in> set (ts_held s) \<and> ne_table (ts_heap s ! fst b) = None))"

lemma forget_lru [simp]: "nc_lru (forget sz heap e c) = nc_lru c" "nc_budget (forget sz heap e c) = nc_budget c"
  by (simp_all add: forget_def split: option.split)

lemma forget_bytes: "counted sz heap bs e + m \<le> nc_bytes c \<Longrightarrow> m \<le> nc_bytes (forget sz heap e c)"
  by (auto simp: counted_def forget_def split: option.splits)

lemma evict_step:
  "nc_bytes c > nc_budget c \<and> length (nc_lru c) > 1 \<Longrightarrow>
    evict_to_budget sz heap c = evict_to_budget sz heap (forget sz heap (snd (last (nc_lru c))) (c\<lparr>nc_lru := butlast (nc_lru c)\<rparr>))"
  by (subst evict_to_budget.simps) simp

lemma evict_stop: "\<not> (nc_bytes c > nc_budget c \<and> length (nc_lru c) > 1) \<Longrightarrow> evict_to_budget sz heap c = c"
  by (subst evict_to_budget.simps) auto

lemma evict_shape:
  "(\<exists>n. nc_lru (evict_to_budget sz heap c) = take n (nc_lru c)) \<and> nc_budget (evict_to_budget sz heap c) = nc_budget c \<and>
   (nc_bytes (evict_to_budget sz heap c) \<le> nc_budget c \<or> length (nc_lru (evict_to_budget sz heap c)) \<le> 1)"
proof (induction sz heap c rule: evict_to_budget.induct)
  case (1 sz heap c)
  show ?case
  proof (cases "nc_bytes c > nc_budget c \<and> length (nc_lru c) > 1")
    case True
    then show ?thesis using "1.IH" [OF True] by (auto simp: evict_step [OF True] butlast_conv_take take_take)
  next
    case False
    have "\<exists>n. nc_lru c = take n (nc_lru c)" by (rule exI [of _ "length (nc_lru c)"]) simp
    then show ?thesis using False by (auto simp: evict_stop [OF False])
  qed
qed

lemma evict_bytes:
  assumes "sum_list (map (\<lambda>x. counted sz heap bs (snd x)) (nc_lru c)) + m \<le> nc_bytes c"
  shows "sum_list (map (\<lambda>x. counted sz heap bs (snd x)) (nc_lru (evict_to_budget sz heap c))) + m \<le> nc_bytes (evict_to_budget sz heap c)"
  using assms
proof (induction sz heap c rule: evict_to_budget.induct)
  case (1 sz heap c)
  show ?case
  proof (cases "nc_bytes c > nc_budget c \<and> length (nc_lru c) > 1")
    case True
    have l: "nc_lru c = butlast (nc_lru c) @ [last (nc_lru c)]" using True by (cases "nc_lru c") simp_all
    have "counted sz heap bs (snd (last (nc_lru c))) + (sum_list (map (\<lambda>x. counted sz heap bs (snd x)) (butlast (nc_lru c))) + m) \<le> nc_bytes c"
      using "1.prems" by (subst (asm) l) simp
    then show ?thesis using "1.IH" [OF True] forget_bytes [where c = "c\<lparr>nc_lru := butlast (nc_lru c)\<rparr>"] by (simp add: evict_step [OF True])
  next
    case False
    then show ?thesis using "1.prems" by (simp add: evict_stop [OF False])
  qed
qed

lemma sum_filter_out:
  fixes f :: "'a \<times> 'b \<Rightarrow> nat"
  assumes "distinct (map fst l)" and "map_of l h = Some e"
  shows "sum_list (map f l) = f (h, e) + sum_list (map f (filter (\<lambda>x. fst x \<noteq> h) l))"
  using assms
proof (induction l)
  case (Cons x l)
  show ?case
  proof (cases "fst x = h")
    case True
    then have "filter (\<lambda>x. fst x \<noteq> h) l = l" using Cons.prems(1) by (auto simp: filter_id_conv image_iff)
    then show ?thesis using True Cons.prems(2) by (cases x) simp
  next
    case False
    then show ?thesis using Cons by (cases x) simp
  qed
qed simp

text \<open>The account never loses bytes: what it held beyond the resident tables it keeps.\<close>

definition keeps_account :: "nat \<Rightarrow> table_state \<Rightarrow> table_state \<Rightarrow> bool" where
  "keeps_account sz s s' \<longleftrightarrow> tables_ok s' \<and> (\<forall>m. resident_bytes sz s + m \<le> nc_bytes (ts_cache s) \<longrightarrow> resident_bytes sz s' + m \<le> nc_bytes (ts_cache s'))"

lemma hit_keeps:
  assumes ok: "tables_ok s" and r: "entry_hit h s = Some (e, s')"
  shows "keeps_account sz s s' \<and> (h, e) \<in> set (ts_held s)"
proof -
  let ?l = "nc_lru (ts_cache s)" and ?f = "filter (\<lambda>x. fst x \<noteq> h) (nc_lru (ts_cache s))"
  have m: "map_of ?l h = Some e" and s': "s' = s\<lparr>ts_cache := (ts_cache s)\<lparr>nc_lru := (h, e) # ?f\<rparr>, ts_held := (h, e) # ts_held s\<rparr>"
    using r by (auto simp: entry_hit_def lru_get_def split: option.splits)
  have d: "distinct (map fst ?l)" "distinct (map snd ?l)" "set ?l \<subseteq> set (ts_held s)" "length ?l \<le> TABLE_ENTRIES"
    using ok by (simp_all add: tables_ok_def Let_def)
  have mem: "(h, e) \<in> set ?l" using m by (rule map_of_SomeD)
  have "e \<notin> snd ` set ?f" using mem d(2) by (auto simp: distinct_map inj_on_def) fastforce
  moreover have "h \<notin> fst ` set ?f" by auto
  moreover have "length ?f < length ?l" using mem by (auto intro: length_filter_less)
  moreover have "\<forall>x\<in>set (ts_held s). snd x < length (ts_heap s)" using ok by (simp add: tables_ok_def Let_def)
  then have "e < length (ts_heap s)" using mem d(3) by force
  ultimately have "tables_ok s'" using ok d mem
    by (auto simp: tables_ok_def Let_def s' distinct_map_filter)
  moreover have "resident_bytes sz s' = resident_bytes sz s"
    using sum_filter_out [OF d(1) m] by (simp add: resident_bytes_def s')
  ultimately show ?thesis using mem d(3) by (auto simp: keeps_account_def s')
qed

lemma counted_fresh: "e < length heap \<Longrightarrow> counted sz (heap @ [x]) bs e = counted sz heap bs e"
  by (simp add: counted_def nth_append)

lemma counted_new: "ne_table x = None \<Longrightarrow> length heap \<notin> fst ` set bs \<Longrightarrow> counted sz (heap @ [x]) bs (length heap) = 0"
  by (auto simp: counted_def split: option.splits prod.splits dest!: map_of_SomeD) force

lemma cache_insert_ok:
  assumes new: "h \<notin> fst ` set (nc_lru c)" and len: "length (nc_lru c) \<le> TABLE_ENTRIES"
  shows "\<exists>k. nc_lru (cache_insert sz heap h e c) = (h, e) # take k (nc_lru c) \<and> length (take k (nc_lru c)) < TABLE_ENTRIES \<and>
    (\<forall>m. sum_list (map (\<lambda>x. counted sz heap bs (snd x)) (nc_lru c)) + m \<le> nc_bytes c \<longrightarrow>
       sum_list (map (\<lambda>x. counted sz heap bs (snd x)) (take k (nc_lru c))) + m \<le> nc_bytes (cache_insert sz heap h e c))"
proof (cases "length (nc_lru c) \<ge> TABLE_ENTRIES \<and> nc_lru c \<noteq> []")
  case True
  let ?l = "nc_lru c"
  have l: "?l = butlast ?l @ [last ?l]" using True by simp
  have "map_of ?l h = None" using new by (simp add: map_of_eq_None_iff)
  then have p: "lru_push TABLE_ENTRIES h e ?l = (Some (snd (last ?l)), (h, e) # butlast ?l)" using True by (simp add: lru_push_def)
  have "sum_list (map (\<lambda>x. counted sz heap bs (snd x)) (butlast ?l)) + m \<le> nc_bytes (cache_insert sz heap h e c)"
    if "sum_list (map (\<lambda>x. counted sz heap bs (snd x)) ?l) + m \<le> nc_bytes c" for m
  proof -
    have "counted sz heap bs (snd (last ?l)) + (sum_list (map (\<lambda>x. counted sz heap bs (snd x)) (butlast ?l)) + m) \<le> nc_bytes c"
      using that by (subst (asm) l) simp
    then show ?thesis using forget_bytes [where c = "c\<lparr>nc_lru := (h, e) # butlast ?l\<rparr>"] by (simp add: cache_insert_def p Let_def)
  qed
  moreover have "length (butlast ?l) < TABLE_ENTRIES" using len True by (auto simp: TABLE_ENTRIES_def)
  moreover have "nc_lru (cache_insert sz heap h e c) = (h, e) # butlast ?l" by (simp add: cache_insert_def p Let_def)
  ultimately show ?thesis unfolding butlast_conv_take by blast
next
  case False
  let ?l = "nc_lru c"
  have "map_of ?l h = None" using new by (simp add: map_of_eq_None_iff)
  then have "lru_push TABLE_ENTRIES h e ?l = (None, (h, e) # ?l)" using False by (auto simp: lru_push_def)
  then have "cache_insert sz heap h e c = c\<lparr>nc_lru := (h, e) # ?l\<rparr>" by (simp add: cache_insert_def)
  moreover have "length ?l < TABLE_ENTRIES" using False by (cases ?l) (auto simp: TABLE_ENTRIES_def)
  ultimately show ?thesis by (intro exI [of _ "length ?l"]) simp
qed

lemma insert_keeps:
  assumes ok: "tables_ok s" and r: "entry_insert sz h info s = (e, s')"
  shows "keeps_account sz s s'"
proof (cases "entry_hit h s")
  case (Some x)
  then have "entry_hit h s = Some (e, s')" using r by (simp add: entry_insert_def)
  then show ?thesis using hit_keeps [OF ok] by blast
next
  case None
  define n where "n = length (ts_heap s)"
  define l where "l = nc_lru (ts_cache s)"
  define heap where "heap = ts_heap s @ [\<lparr>ne_info = info, ne_table = None, ne_enc = None\<rparr>]"
  have s': "s' = s\<lparr>ts_heap := heap, ts_cache := cache_insert sz heap h n (ts_cache s), ts_held := (h, n) # ts_held s\<rparr>"
    using r None by (auto simp: entry_insert_def Let_def n_def heap_def)
  have new: "h \<notin> fst ` set l" using None by (auto simp: entry_hit_def lru_get_def map_of_eq_None_iff l_def split: option.splits)
  have lt: "\<forall>x\<in>set (ts_held s). snd x < n" and sub: "set l \<subseteq> set (ts_held s)" and d: "distinct (map fst l)" "distinct (map snd l)" "length l \<le> TABLE_ENTRIES"
    and H: "\<forall>b\<in>set (ts_builds s). (fst (snd b), fst b) \<in> set (ts_held s) \<and> ne_table (ts_heap s ! fst b) = None"
    and one: "\<forall>h h' e. (h, e) \<in> set (ts_held s) \<longrightarrow> (h', e) \<in> set (ts_held s) \<longrightarrow> h = h'" "distinct (map fst (ts_builds s))"
    using ok by (simp_all add: tables_ok_def Let_def n_def l_def)
  have bs: "\<forall>b\<in>set (ts_builds s). fst b < n" using H lt by fastforce
  have zero: "counted sz heap (ts_builds s) n = 0"
    unfolding heap_def n_def by (rule counted_new) (use bs n_def in auto)
  have "counted sz heap (ts_builds s) (snd x) = counted sz (ts_heap s) (ts_builds s) (snd x)" if "x \<in> set l" for x
    unfolding heap_def by (rule counted_fresh) (use that sub lt n_def in auto)
  then have sum: "resident_bytes sz s = sum_list (map (\<lambda>x. counted sz heap (ts_builds s) (snd x)) l)"
    unfolding resident_bytes_def l_def [symmetric] by (intro arg_cong [of _ _ sum_list] map_cong refl) simp
  obtain k where k: "nc_lru (cache_insert sz heap h n (ts_cache s)) = (h, n) # take k l" "length (take k l) < TABLE_ENTRIES"
    and kb: "\<forall>m. sum_list (map (\<lambda>x. counted sz heap (ts_builds s) (snd x)) l) + m \<le> nc_bytes (ts_cache s) \<longrightarrow>
       sum_list (map (\<lambda>x. counted sz heap (ts_builds s) (snd x)) (take k l)) + m \<le> nc_bytes (cache_insert sz heap h n (ts_cache s))"
    using cache_insert_ok [of h "ts_cache s", folded l_def, OF new d(3)] by blast
  have tk: "set (take k l) \<subseteq> set l" by (rule set_take_subset)
  then have tl: "\<forall>x\<in>set (take k l). snd x < n" "h \<notin> fst ` set (take k l)" using sub lt new by (blast, blast)
  then have "n \<notin> snd ` set (take k l)" "h \<notin> fst ` set (take k l)" by auto
  moreover have "distinct (map fst (take k l))" "distinct (map snd (take k l))" using d(1,2) by (simp_all add: take_map [symmetric])
  moreover have "\<forall>b\<in>set (ts_builds s). ne_table (heap ! fst b) = None" using H bs by (simp add: heap_def n_def nth_append)
  moreover have "(h1, n) \<notin> set (ts_held s)" for h1 using lt by (metis less_irrefl snd_conv)
  moreover have "set (take k l) \<subseteq> set (ts_held s)" using tk sub by blast
  moreover have "length heap = Suc n" by (simp add: heap_def n_def)
  ultimately have "tables_ok s'" using one lt H k(2)
    unfolding tables_ok_def Let_def s' by (auto simp: k(1) less_Suc_eq)
  moreover have "resident_bytes sz s' = sum_list (map (\<lambda>x. counted sz heap (ts_builds s) (snd x)) (take k l))"
    by (simp add: resident_bytes_def s' k(1) zero)
  ultimately show ?thesis using kb by (simp add: keeps_account_def s' sum)
qed

lemma start_keeps:
  assumes ok: "tables_ok s" and r: "build_start h e t s = Some s'"
  shows "keeps_account sz s s'"
proof -
  have b: "(h, e) \<in> set (ts_held s)" "ne_table (ts_heap s ! e) = None" "e \<notin> fst ` set (ts_builds s)"
    and s': "s' = s\<lparr>ts_builds := (e, h, t, False) # ts_builds s\<rparr>"
    using r by (auto simp: build_start_def split: if_splits)
  have "map_of (ts_builds s) e = None" using b(3) by (simp add: map_of_eq_None_iff)
  then have "counted sz (ts_heap s) ((e, h, t, False) # ts_builds s) x = counted sz (ts_heap s) (ts_builds s) x" for x
    by (simp add: counted_def split: option.split)
  then have "resident_bytes sz s' = resident_bytes sz s" by (simp add: resident_bytes_def s')
  then show ?thesis using ok b by (simp add: keeps_account_def tables_ok_def s' Let_def)
qed

lemma evict_prefix:
  assumes "\<exists>n. l' = take n l" and "distinct (map fst l)" and "distinct (map snd l)" and "set l \<subseteq> H" and "length l \<le> N"
  shows "distinct (map fst l') \<and> distinct (map snd l') \<and> set l' \<subseteq> H \<and> length l' \<le> N"
proof -
  obtain n where "l' = take n l" using assms(1) by blast
  then show ?thesis using assms(2-5) set_take_subset [of n l] by (auto simp: take_map [symmetric])
qed

text \<open>The other entries count the same when one build moves on.\<close>

lemma counted_other: "x \<noteq> fst b \<Longrightarrow> counted sz heap (remove1 b bs) x = counted sz heap bs x"
proof -
  assume "x \<noteq> fst b"
  then have "map_of (remove1 b bs) x = map_of bs x" by (induction bs) (auto split: if_splits)
  then show ?thesis by (simp add: counted_def cong: option.case_cong)
qed

lemma only_one:
  assumes "distinct (map fst bs)" and "b \<in> set bs"
  shows "distinct (map fst (remove1 b bs)) \<and> fst b \<notin> fst ` set (remove1 b bs) \<and> set (remove1 b bs) \<subseteq> set bs"
proof -
  have "distinct bs" using assms(1) by (simp add: distinct_map)
  then have "remove1 b bs = filter (\<lambda>x. x \<noteq> b) bs" by (simp add: distinct_remove1_removeAll removeAll_filter_not_eq) (metis (mono_tags))
  then show ?thesis using assms by (auto simp: distinct_map_filter distinct_map inj_on_def)
qed

lemma account_keeps:
  assumes ok: "tables_ok s" and b: "(e, h, t, False) \<in> set (ts_builds s)"
  shows "keeps_account sz s (build_account sz (e, h, t, False) s) \<and>
    (map_of (nc_lru (ts_cache s)) h = Some e \<longrightarrow>
      nc_bytes (ts_cache (build_account sz (e, h, t, False) s)) \<le> nc_budget (ts_cache s) \<or>
      length (nc_lru (ts_cache (build_account sz (e, h, t, False) s))) \<le> 1)"
proof -
  let ?bs = "ts_builds s" and ?l = "nc_lru (ts_cache s)" and ?heap = "ts_heap s" and ?c = "ts_cache s"
  let ?bs' = "(e, h, t, True) # remove1 (e, h, t, False) ?bs" and ?s' = "build_account sz (e, h, t, False) s"
  let ?sum = "\<lambda>bs l. sum_list (map (\<lambda>x. counted sz ?heap bs (snd x)) l)"
  have d: "distinct (map fst ?l)" "distinct (map snd ?l)" "set ?l \<subseteq> set (ts_held s)" "length ?l \<le> TABLE_ENTRIES" "distinct (map fst ?bs)"
    and one: "\<And>h h' e. (h, e) \<in> set (ts_held s) \<Longrightarrow> (h', e) \<in> set (ts_held s) \<Longrightarrow> h = h'"
    and he: "(h, e) \<in> set (ts_held s)" and none: "ne_table (?heap ! e) = None"
    using ok b by (auto simp: tables_ok_def Let_def)
  have mb: "map_of ?bs e = Some (h, t, False)" using b d(5) by simp
  have old: "counted sz ?heap ?bs e = 0" "counted sz ?heap ?bs' e = approx_bytes sz t" using mb none by (simp_all add: counted_def)
  have oth: "counted sz ?heap ?bs' x = counted sz ?heap ?bs x" if "x \<noteq> e" for x
    using counted_other [of x "(e, h, t, False)" sz ?heap ?bs] that by (simp add: counted_def cong: option.case_cong)
  have builds: "distinct (map fst ?bs')" "set ?bs' \<subseteq> insert (e, h, t, True) (set ?bs)"
    using only_one [OF d(5) b] by auto
  have s': "?s' = s\<lparr>ts_cache := cache_account sz ?heap h e (approx_bytes sz t) ?c, ts_builds := ?bs'\<rparr>" by (simp add: build_account_def)
  have "\<forall>b\<in>set ?bs. (fst (snd b), fst b) \<in> set (ts_held s) \<and> ne_table (?heap ! fst b) = None"
    using ok by (simp add: tables_ok_def Let_def)
  then have held: "\<forall>b\<in>set ?bs'. (fst (snd b), fst b) \<in> set (ts_held s) \<and> ne_table (?heap ! fst b) = None"
    using builds(2) he none by auto
  show ?thesis
  proof (cases "map_of ?l h = Some e")
    case True
    let ?c1 = "?c\<lparr>nc_bytes := nc_bytes ?c + approx_bytes sz t\<rparr>"
    have c: "cache_account sz ?heap h e (approx_bytes sz t) ?c = evict_to_budget sz ?heap ?c1" using True by (simp add: cache_account_def)
    have rest: "?sum ?bs' (filter (\<lambda>x. fst x \<noteq> h) ?l) = ?sum ?bs (filter (\<lambda>x. fst x \<noteq> h) ?l)"
    proof (intro arg_cong [of _ _ sum_list] map_cong refl oth)
      fix x assume "x \<in> set (filter (\<lambda>x. fst x \<noteq> h) ?l)"
      then have "(fst x, snd x) \<in> set (ts_held s)" "fst x \<noteq> h" using d(3) by auto
      then show "snd x \<noteq> e" using one he by blast
    qed
    have sums: "?sum ?bs' ?l = ?sum ?bs ?l + approx_bytes sz t"
      using sum_filter_out [OF d(1) True] old rest by simp
    note sh = evict_shape [of sz ?heap ?c1]
    have "tables_ok ?s'" using ok builds(1) held evict_prefix [OF conjunct1 [OF sh], simplified, OF d(1-4)]
      by (simp add: tables_ok_def Let_def s' c)
    moreover have "?sum ?bs' (nc_lru (evict_to_budget sz ?heap ?c1)) + m \<le> nc_bytes (evict_to_budget sz ?heap ?c1)"
      if "?sum ?bs ?l + m \<le> nc_bytes ?c" for m
      by (rule evict_bytes) (use that sums in simp)
    then have "\<forall>m. resident_bytes sz s + m \<le> nc_bytes ?c \<longrightarrow> resident_bytes sz ?s' + m \<le> nc_bytes (ts_cache ?s')"
      by (simp add: resident_bytes_def s' c)
    ultimately show ?thesis using sh by (simp add: keeps_account_def s' c)
  next
    case False
    then have c: "cache_account sz ?heap h e (approx_bytes sz t) ?c = ?c" by (simp add: cache_account_def)
    have "counted sz ?heap ?bs' (snd x) = counted sz ?heap ?bs (snd x)" if "x \<in> set ?l" for x
    proof (rule oth)
      have "(fst x, snd x) \<in> set (ts_held s)" "(fst x, snd x) \<in> set ?l" using that d(3) by auto
      then show "snd x \<noteq> e" using one he d(1) False by (metis map_of_is_SomeI)
    qed
    then have "?sum ?bs' ?l = ?sum ?bs ?l" by (intro arg_cong [of _ _ sum_list] map_cong refl) blast
    then have "resident_bytes sz ?s' = resident_bytes sz s" by (simp add: resident_bytes_def s' c)
    moreover have "tables_ok ?s'" using ok builds held by (simp add: tables_ok_def Let_def s' c)
    ultimately show ?thesis using False by (simp add: keeps_account_def s' c)
  qed
qed

lemma set_keeps:
  assumes ok: "tables_ok s" and b: "(e, h, t, True) \<in> set (ts_builds s)"
  shows "keeps_account sz s (build_set (e, h, t, True) s)"
proof -
  let ?b = "(e, h, t, True)"
  let ?heap = "(ts_heap s)[e := (ts_heap s ! e)\<lparr>ne_table := Some t\<rparr>]" and ?bs = "remove1 ?b (ts_builds s)"
  have d: "distinct (map fst (ts_builds s))" and lt: "\<forall>x\<in>set (ts_held s). snd x < length (ts_heap s)"
    and H: "\<forall>b\<in>set (ts_builds s). (fst (snd b), fst b) \<in> set (ts_held s) \<and> ne_table (ts_heap s ! fst b) = None"
    using ok by (simp_all add: tables_ok_def Let_def)
  have e: "e < length (ts_heap s)" "ne_table (ts_heap s ! e) = None" using H b lt by fastforce+
  have mb: "map_of (ts_builds s) e = Some (h, t, True)" using b d by simp
  note one = only_one [OF d b]
  have c: "counted sz ?heap ?bs x = counted sz (ts_heap s) (ts_builds s) x" for x
  proof (cases "x = e")
    case True
    then show ?thesis using e mb by (simp add: counted_def)
  next
    case False
    then show ?thesis using counted_other [of x ?b sz ?heap "ts_builds s"] by (simp add: counted_def)
  qed
  have "\<forall>b\<in>set ?bs. ne_table (?heap ! fst b) = None"
  proof
    fix b' assume "b' \<in> set ?bs"
    then have "fst b' \<noteq> e" "b' \<in> set (ts_builds s)" using one by auto
    then show "ne_table (?heap ! fst b') = None" using H by simp
  qed
  then have "tables_ok (build_set ?b s)" using ok one H
    unfolding tables_ok_def Let_def build_set_def by auto
  moreover have "resident_bytes sz (build_set ?b s) = resident_bytes sz s" by (simp add: resident_bytes_def build_set_def c)
  ultimately show ?thesis by (simp add: keeps_account_def build_set_def)
qed

lemma budget_keeps:
  assumes ok: "tables_ok s"
  shows "keeps_account sz s (s\<lparr>ts_cache := cache_set_budget sz (ts_heap s) b (ts_cache s)\<rparr>)"
proof -
  let ?c = "(ts_cache s)\<lparr>nc_budget := b\<rparr>"
  have d: "distinct (map fst (nc_lru ?c))" "distinct (map snd (nc_lru ?c))" "set (nc_lru ?c) \<subseteq> set (ts_held s)" "length (nc_lru ?c) \<le> TABLE_ENTRIES"
    using ok by (simp_all add: tables_ok_def Let_def)
  note p = evict_prefix [OF conjunct1 [OF evict_shape [of sz "ts_heap s" ?c]] d]
  have "tables_ok (s\<lparr>ts_cache := cache_set_budget sz (ts_heap s) b (ts_cache s)\<rparr>)"
    using ok p by (simp add: tables_ok_def Let_def cache_set_budget_def)
  then show ?thesis
    using evict_bytes [of sz "ts_heap s" "ts_builds s" ?c] by (simp add: keeps_account_def resident_bytes_def cache_set_budget_def)
qed

lemma encoded_keeps:
  assumes ok: "tables_ok s"
  shows "keeps_account sz s (s\<lparr>ts_heap := (ts_heap s)[e := (ts_heap s ! e)\<lparr>ne_enc := x\<rparr>]\<rparr>)"
proof -
  have n: "ne_table ((ts_heap s)[e := (ts_heap s ! e)\<lparr>ne_enc := x\<rparr>] ! i) = ne_table (ts_heap s ! i)" for i
    by (cases "e < length (ts_heap s)") (auto simp: nth_list_update list_update_beyond)
  then show ?thesis using ok by (simp add: keeps_account_def tables_ok_def Let_def resident_bytes_def counted_def)
qed

lemma table_step_keeps: "table_step sz s s' \<Longrightarrow> tables_ok s \<Longrightarrow> keeps_account sz s s'"
  by (induction rule: table_step.induct) (auto simp: hit_keeps insert_keeps start_keeps account_keeps set_keeps budget_keeps encoded_keeps)

lemma table_reach_keeps: "table_reach sz s0 s \<Longrightarrow> tables_ok s0 \<Longrightarrow> keeps_account sz s0 s"
proof (induction rule: table_reach.induct)
  case Begin
  then show ?case by (simp add: keeps_account_def)
next
  case (Step s s')
  then show ?case using table_step_keeps [of sz s s'] by (simp add: keeps_account_def)
qed

lemma table_start_ok: "tables_ok (table_start a)" "resident_bytes sz (table_start a) = 0"
  by (simp_all add: tables_ok_def table_start_def cache_new_def Let_def resident_bytes_def)

text \<open>The bytes of the tables that are set in resident entries.\<close>

definition table_bytes_held :: "nat \<Rightarrow> table_state \<Rightarrow> nat" where
  "table_bytes_held sz s = sum_list (map (\<lambda>x. case ne_table (ts_heap s ! snd x) of Some t \<Rightarrow> approx_bytes sz t | None \<Rightarrow> 0) (nc_lru (ts_cache s)))"

lemma held_le_resident: "table_bytes_held sz s \<le> resident_bytes sz s"
  unfolding table_bytes_held_def resident_bytes_def by (rule sum_list_mono) (simp add: counted_def split: option.split)

text \<open>
  C27: Whatever the interleaving of requests, table builds, encodes and budget changes, the
  cache has at most \<open>TABLE_ENTRIES\<close> entries and its account covers the tables it holds; and
  when a finished build is taken in, or a budget is set, the tables held fit the budget,
  unless a single entry is left.
\<close>

theorem cache_account_covers_tables:
  assumes "table_reach sz (table_start a) s"
  shows "length (nc_lru (ts_cache s)) \<le> TABLE_ENTRIES \<and> table_bytes_held sz s \<le> nc_bytes (ts_cache s) \<and>
    (\<forall>e h t. (e, h, t, False) \<in> set (ts_builds s) \<longrightarrow> map_of (nc_lru (ts_cache s)) h = Some e \<longrightarrow>
       (let s' = build_account sz (e, h, t, False) s
        in table_bytes_held sz s' \<le> nc_budget (ts_cache s) \<or> length (nc_lru (ts_cache s')) \<le> 1)) \<and>
    (\<forall>b. let s' = s\<lparr>ts_cache := cache_set_budget sz (ts_heap s) b (ts_cache s)\<rparr>
        in table_bytes_held sz s' \<le> b \<or> length (nc_lru (ts_cache s')) \<le> 1)"
proof -
  have k: "keeps_account sz (table_start a) s" by (rule table_reach_keeps [OF assms table_start_ok(1)])
  then have ok: "tables_ok s" and le: "resident_bytes sz s \<le> nc_bytes (ts_cache s)"
    using table_start_ok(2) [of sz a] by (auto simp: keeps_account_def dest: spec [of _ 0])
  have fits: "table_bytes_held sz s' \<le> B \<or> length (nc_lru (ts_cache s')) \<le> 1"
    if "keeps_account sz s s'" "nc_bytes (ts_cache s') \<le> B \<or> length (nc_lru (ts_cache s')) \<le> 1" for s' B
  proof -
    have "resident_bytes sz s' \<le> nc_bytes (ts_cache s')" using that(1) le unfolding keeps_account_def by (metis add_0_right)
    then show ?thesis using that(2) held_le_resident [of sz s'] by linarith
  qed
  have "let s' = build_account sz (e, h, t, False) s
      in table_bytes_held sz s' \<le> nc_budget (ts_cache s) \<or> length (nc_lru (ts_cache s')) \<le> 1"
    if "(e, h, t, False) \<in> set (ts_builds s)" "map_of (nc_lru (ts_cache s)) h = Some e" for e h t
    using account_keeps [OF ok that(1), of sz] that(2) unfolding Let_def by (intro fits) simp_all
  moreover have "let s' = s\<lparr>ts_cache := cache_set_budget sz (ts_heap s) b (ts_cache s)\<rparr>
      in table_bytes_held sz s' \<le> b \<or> length (nc_lru (ts_cache s')) \<le> 1" for b
    unfolding Let_def
    by (rule fits [OF budget_keeps [OF ok]]) (use evict_shape [of sz "ts_heap s" "(ts_cache s)\<lparr>nc_budget := b\<rparr>"] in \<open>simp add: cache_set_budget_def\<close>)
  moreover have "length (nc_lru (ts_cache s)) \<le> TABLE_ENTRIES" using ok by (simp add: tables_ok_def Let_def)
  ultimately show ?thesis using le held_le_resident [of sz s] by auto
qed

section \<open>An entry evicted while its table is built\<close>

definition wit_path :: path_info where
  "wit_path = \<lparr>pi_path = ''/nix/store/x'', pi_nar_hash = [], pi_nar_size = 3, pi_deriver = None, pi_sigs = [], pi_ca = None, pi_references = []\<rparr>"

definition wit_table :: seek_table where
  "wit_table = \<lparr>st_size = 3, st_lits = replicate 2000 0, st_segs = []\<rparr>"

text \<open>Two requests: the first entry is built while the second comes in.\<close>

definition wit_cache :: "nat \<Rightarrow> table_state" where
  "wit_cache sz =
     (let s = snd (entry_insert sz [1] wit_path (table_start 10240));
          s = the (build_start [1] 0 wit_table s);
          s = snd (entry_insert sz [2] wit_path s);
          s = build_account sz (0, [1], wit_table, False) s
      in build_set (0, [1], wit_table, True) s)"

lemma wit_cache_eq:
  "wit_cache sz = \<lparr>ts_heap = [\<lparr>ne_info = wit_path, ne_table = Some wit_table, ne_enc = None\<rparr>, \<lparr>ne_info = wit_path, ne_table = None, ne_enc = None\<rparr>],
     ts_cache = \<lparr>nc_lru = [([2], 1)], nc_bytes = 2000, nc_budget = 1024, nc_ceiling = 1024\<rparr>,
     ts_held = [([2], 1), ([1], 0)], ts_builds = []\<rparr>"
  by (simp add: wit_cache_def table_start_def cache_new_def table_budget_def TABLE_BUDGET_CAP_def entry_insert_def entry_hit_def lru_get_def
      lru_push_def cache_insert_def build_start_def build_account_def build_set_def cache_account_def Let_def TABLE_ENTRIES_def
      evict_to_budget.simps forget_def wit_path_def wit_table_def approx_bytes_def)

lemma wit_cache_reach: "table_reach sz (table_start 10240) (wit_cache sz)"
proof -
  obtain s1 where s1: "entry_insert sz [1] wit_path (table_start 10240) = (0, s1)"
    and e1: "ts_held s1 = [([1], 0)]" "ts_builds s1 = []" "ts_heap s1 = [\<lparr>ne_info = wit_path, ne_table = None, ne_enc = None\<rparr>]"
    by (simp add: table_start_def entry_insert_def entry_hit_def lru_get_def cache_new_def Let_def)
  obtain s2 where s2: "build_start [1] 0 wit_table s1 = Some s2" and e2: "ts_builds s2 = [(0, [1], wit_table, False)]"
    using e1 by (simp add: build_start_def wit_table_def wit_path_def)
  obtain e s3 where s3: "entry_insert sz [2] wit_path s2 = (e, s3)" by fastforce
  then have e3: "(0, [1], wit_table, False) \<in> set (ts_builds s3)" using e2 by (auto simp: entry_insert_def entry_hit_def Let_def split: option.splits)
  let ?s4 = "build_account sz (0, [1], wit_table, False) s3"
  have e4: "(0, [1], wit_table, True) \<in> set (ts_builds ?s4)" by (simp add: build_account_def)
  have "table_reach sz (table_start 10240) (build_set (0, [1], wit_table, True) ?s4)"
    by (rule Step [OF Step [OF Step [OF Step [OF Step [OF table_reach.Begin Insert [OF s1]] Start [OF s2]] Insert [OF s3]] Account [OF e3]] SetTable [OF e4]])
  moreover have "wit_cache sz = build_set (0, [1], wit_table, True) ?s4" by (simp add: wit_cache_def s1 s2 s3 Let_def)
  ultimately show ?thesis by simp
qed

theorem cache_account_covers_tables_witness:
  "table_reach 32 (table_start 10240) (wit_cache 32) \<and> table_bytes_held 32 (wit_cache 32) \<le> nc_bytes (ts_cache (wit_cache 32))"
  using cache_account_covers_tables [OF wit_cache_reach] wit_cache_reach by blast

text \<open>
  C28: The account may leak: an entry that falls out of the cache between being taken in and
  getting its table (by the very eviction its own table causes, when another entry was used
  meanwhile) is never taken out of the account. Its bytes stay counted for good, in every
  later state, and while the budget is below them every table taken in empties the cache down
  to one entry.
\<close>

theorem evicted_build_leaks_its_bytes:
  "\<exists>s. table_reach sz (table_start 10240) s \<and> ts_builds s = [] \<and> table_bytes_held sz s = 0 \<and> nc_bytes (ts_cache s) = 2000 \<and>
     (\<forall>s'. table_reach sz s s' \<longrightarrow> table_bytes_held sz s' + 2000 \<le> nc_bytes (ts_cache s') \<and>
       (nc_budget (ts_cache s') < 2000 \<longrightarrow> (\<forall>e h t. (e, h, t, False) \<in> set (ts_builds s') \<longrightarrow> map_of (nc_lru (ts_cache s')) h = Some e \<longrightarrow>
          length (nc_lru (ts_cache (build_account sz (e, h, t, False) s'))) \<le> 1)))"
proof (intro exI conjI allI impI)
  let ?s = "wit_cache sz"
  show "table_reach sz (table_start 10240) ?s" by (rule wit_cache_reach)
  show "ts_builds ?s = []" "table_bytes_held sz ?s = 0" "nc_bytes (ts_cache ?s) = 2000"
    by (simp_all add: wit_cache_eq table_bytes_held_def)
  have ok: "tables_ok ?s" using table_reach_keeps [OF wit_cache_reach table_start_ok(1)] by (simp add: keeps_account_def)
  have r0: "resident_bytes sz ?s = 0" by (simp add: wit_cache_eq resident_bytes_def counted_def)
  fix s' assume "table_reach sz ?s s'"
  then have k: "keeps_account sz ?s s'" using ok by (rule table_reach_keeps)
  then have leak: "resident_bytes sz s' + 2000 \<le> nc_bytes (ts_cache s')" and ok': "tables_ok s'"
    using r0 unfolding keeps_account_def by (auto simp: wit_cache_eq)
  then show "table_bytes_held sz s' + 2000 \<le> nc_bytes (ts_cache s')" using held_le_resident [of sz s'] by linarith
  fix e h t
  assume b: "(e, h, t, False) \<in> set (ts_builds s')" and m: "map_of (nc_lru (ts_cache s')) h = Some e" and lt: "nc_budget (ts_cache s') < 2000"
  note A = account_keeps [OF ok' b, of sz]
  have "2000 \<le> nc_bytes (ts_cache (build_account sz (e, h, t, False) s'))"
    using A leak unfolding keeps_account_def by fastforce
  then show "length (nc_lru (ts_cache (build_account sz (e, h, t, False) s'))) \<le> 1" using A m lt by auto
qed

theorem evicted_build_leaks_its_bytes_witness:
  "\<exists>s. table_reach 40 (table_start 10240) s \<and> table_reach 40 s s \<and> table_bytes_held 40 s = 0 \<and> 2000 \<le> nc_bytes (ts_cache s)"
proof -
  obtain s where s: "table_reach 40 (table_start 10240) s" "table_bytes_held 40 s = 0"
    "\<forall>s'. table_reach 40 s s' \<longrightarrow> table_bytes_held 40 s' + 2000 \<le> nc_bytes (ts_cache s')"
    using evicted_build_leaks_its_bytes [of 40] by (elim exE conjE) (rule that, assumption+, meson)
  have "table_reach 40 s s" by (rule table_reach.Begin)
  then show ?thesis using s by force
qed

end
