(* ===== verification/Http_Range.thy ===== *)
theory Http_Range
  imports Strings
begin

text \<open>
  Range headers: \<open>parse_range\<close> of \<open>src/serve.rs\<close>, which the serving side and the proxy share,
  and the header a chunk request carries (\<open>fetch_range\<close> of \<open>src/peers.rs\<close>). A header value is
  the text the HTTP library gives for it, None when it is not visible ASCII.
\<close>

datatype range_spec = Full | Partial nat nat | Unsatisfiable

definition parse_range :: "string option \<Rightarrow> nat \<Rightarrow> range_spec" where
  "parse_range header sz =
     (case header of
        None \<Rightarrow> Full
      | Some h \<Rightarrow>
          (case strip_prefix ''bytes='' h of
             None \<Rightarrow> Full
           | Some spec \<Rightarrow>
               if CHR '','' \<in> set spec then Full
               else case split_once CHR ''-'' (trim spec) of
                 None \<Rightarrow> Full
               | Some (a, b) \<Rightarrow>
                   if a = [] then
                     (case parse_u64 b of
                        None \<Rightarrow> Full
                      | Some n \<Rightarrow> if n = 0 \<or> sz = 0 then Unsatisfiable else Partial (sz - n) sz)
                   else if b = [] then
                     (case parse_u64 a of
                        None \<Rightarrow> Full
                      | Some a \<Rightarrow> if a \<ge> sz then Unsatisfiable else Partial a sz)
                   else
                     (case (parse_u64 a, parse_u64 b) of
                        (Some a, Some b) \<Rightarrow>
                          let fin = min (sat_add64 b 1) sz
                          in if a > b \<or> a \<ge> sz \<or> fin \<le> a then Unsatisfiable else Partial a fin
                      | _ \<Rightarrow> Full)))"

text \<open>The header of a request for \<open>[start, fin)\<close>.\<close>

definition range_header :: "nat \<Rightarrow> nat \<Rightarrow> string" where
  "range_header start fin = ''bytes='' @ show_nat start @ ''-'' @ show_nat (fin - 1)"

definition content_range :: "nat \<Rightarrow> nat \<Rightarrow> nat \<Rightarrow> string" where
  "content_range start fin sz = ''bytes '' @ show_nat start @ ''-'' @ show_nat (fin - 1) @ ''/'' @ show_nat sz"

lemma show_nat_digits: "c \<in> set (show_nat n) \<Longrightarrow> \<exists>d<10. c = digit_char d"
proof (induction n rule: show_nat.induct)
  case (1 n)
  then show ?case by (subst (asm) (2) show_nat.simps) (auto split: if_splits intro: exI [of _ "n mod 10"])
qed

lemma digit_char_code: "d < 10 \<Longrightarrow> (of_char (digit_char d) :: nat) = 48 + d"
  by (simp add: digit_char_def of_char_of)

lemma show_nat_chars: "c \<in> set (show_nat n) \<Longrightarrow> 48 \<le> (of_char c :: nat) \<and> (of_char c :: nat) < 58"
  using show_nat_digits [of c n] by (auto simp: digit_char_code)

lemma split_at_dash: "CHR ''-'' \<notin> set a \<Longrightarrow> split_once CHR ''-'' (a @ CHR ''-'' # b) = Some (a, b)"
  by (rule split_once_append)

text \<open>A digit or a dash is no white space.\<close>

lemma trim_plain:
  assumes "\<forall>c\<in>set s. 33 \<le> (of_char c :: nat) \<and> (of_char c :: nat) < 127"
  shows "trim s = s"
proof -
  have "trim_start s = s" using assms by (cases s) (simp_all add: trim_start.simps ws_len_graphic)
  moreover have "trim_end s = s" using assms by (induction s) (simp_all add: ws_len_graphic Let_def)
  ultimately show ?thesis by (simp add: trim_def)
qed

lemma range_header_plain: "\<forall>c\<in>set (show_nat a @ ''-'' @ show_nat b). 33 \<le> (of_char c :: nat) \<and> (of_char c :: nat) < 127"
  using show_nat_chars by fastforce

lemma show_nat_no: "(of_char c :: nat) < 48 \<Longrightarrow> c \<notin> set (show_nat n)"
  using show_nat_chars by force

text \<open>What a peer asks for is what the serving side reads, whatever the size of the archive.\<close>

lemma parse_range_header:
  assumes "start < fin" and "fin \<le> sz" and "sz < 2 ^ 64"
  shows "parse_range (Some (range_header start fin)) sz = Partial start fin"
proof -
  have p: "strip_prefix ''bytes='' (range_header start fin) = Some (show_nat start @ ''-'' @ show_nat (fin - 1))"
    by (simp add: strip_prefix_def range_header_def)
  have "CHR '','' \<notin> set (show_nat start @ ''-'' @ show_nat (fin - 1))" "CHR ''-'' \<notin> set (show_nat start)"
    by (simp_all add: show_nat_no)
  moreover have "trim (show_nat start @ ''-'' @ show_nat (fin - 1)) = show_nat start @ CHR ''-'' # show_nat (fin - 1)"
    using trim_plain [OF range_header_plain] by simp
  moreover have "sat_add64 (fin - 1) 1 = fin" using assms by (simp add: sat_add64_def)
  ultimately show ?thesis using assms split_at_dash [of "show_nat start" "show_nat (fin - 1)"]
    by (simp add: parse_range_def p)
qed

lemma partial_inside: "parse_range header sz = Partial a b \<Longrightarrow> a < b \<and> b \<le> sz"
  by (auto simp: parse_range_def Let_def split: option.splits if_splits prod.splits)

text \<open>
  Whatever a client sends as a range, what is served for it is a non-empty range inside
  the archive: neither the length of the answer nor its last position can underflow.
\<close>

theorem parsed_range_is_inside:
  assumes "parse_range header sz = Partial a b"
  shows "a < b \<and> b \<le> sz"
  using assms by (rule partial_inside)

theorem parsed_range_is_inside_witness:
  "parse_range (Some (range_header 2 5)) 10 = Partial 2 5 \<and> (2::nat) < 5 \<and> (5::nat) \<le> 10"
proof -
  have "parse_range (Some (range_header 2 5)) 10 = Partial 2 5" by (rule parse_range_header) simp_all
  then show ?thesis using parsed_range_is_inside by blast
qed

end
