(* ===== verification/Pieces.thy ===== *)
theory Pieces
  imports Nar Emitter Http_Range
begin

text \<open>
  Streaming a range of a seek table (\<open>Pieces\<close>, \<open>emit\<close>, \<open>stream_encode\<close> and \<open>encode_span\<close> of
  \<open>src/serve.rs\<close>): the range is cut into pieces, up to \<open>READ_AHEAD\<close> of them are read ahead, and
  they go out in order, raw or through an encoder whose output is gathered into larger
  writes. A read is a function of path, offset and length: its bytes or an error.
\<close>

definition READ_CHUNK :: nat where "READ_CHUNK = 256 * 1024"
definition READ_AHEAD :: nat where "READ_AHEAD = 16"
definition ENCODE_FLUSH_BYTES :: nat where "ENCODE_FLUSH_BYTES = 128 * 1024"

section \<open>Pieces\<close>

datatype piece = PieceLit bytes | PieceRead path nat nat

record pieces =
  pc_i :: nat
  pc_start :: nat
  pc_end :: nat
  pc_file :: "(path \<times> nat \<times> nat) option"

definition pieces_new :: "seek_table \<Rightarrow> nat \<Rightarrow> nat \<Rightarrow> pieces" where
  "pieces_new t start fin = \<lparr>pc_i = first_seg t start, pc_start = start, pc_end = fin, pc_file = None\<rparr>"

definition cut_file :: "path \<Rightarrow> nat \<Rightarrow> nat \<Rightarrow> pieces \<Rightarrow> piece \<times> pieces" where
  "cut_file p off len ps =
     (let n = min len READ_CHUNK
      in (PieceRead p off n, ps\<lparr>pc_file := (if len > n then Some (p, off + n, len - n) else None)\<rparr>))"

definition pieces_next :: "seek_table \<Rightarrow> pieces \<Rightarrow> (piece \<times> pieces) option" where
  "pieces_next t ps =
     (case pc_file ps of
        Some (p, off, len) \<Rightarrow> Some (cut_file p off len ps)
      | None \<Rightarrow>
          (case seg_slice t (pc_i ps) (pc_start ps) (pc_end ps) of
             None \<Rightarrow> None
           | Some sl \<Rightarrow>
               let ps = ps\<lparr>pc_i := pc_i ps + 1\<rparr>
               in case sl of SliceLit b \<Rightarrow> Some (PieceLit b, ps) | SliceFile p off len \<Rightarrow> Some (cut_file p off len ps)))"

definition pieces_size :: "seek_table \<Rightarrow> pieces \<Rightarrow> nat \<times> nat" where
  "pieces_size t ps = (length (st_segs t) - pc_i ps, case pc_file ps of None \<Rightarrow> 0 | Some (_, _, len) \<Rightarrow> Suc len)"

lemma pieces_next_less:
  "pieces_next t ps = Some (d, ps') \<Longrightarrow> (pieces_size t ps', pieces_size t ps) \<in> less_than <*lex*> less_than"
  by (auto simp: pieces_next_def cut_file_def pieces_size_def seg_slice_def Let_def READ_CHUNK_def
      split: option.splits prod.splits slice.splits if_splits)

text \<open>Everything the iterator yields.\<close>

function all_pieces :: "seek_table \<Rightarrow> pieces \<Rightarrow> piece list" where
  "all_pieces t ps = (case pieces_next t ps of None \<Rightarrow> [] | Some (d, ps') \<Rightarrow> d # all_pieces t ps')"
  by pat_completeness auto
termination
  by (relation "inv_image (less_than <*lex*> less_than) (\<lambda>(t, ps). pieces_size t ps)") (auto dest: pieces_next_less)

declare all_pieces.simps [simp del]

lemma all_pieces_None: "pieces_next t ps = None \<Longrightarrow> all_pieces t ps = []"
  by (simp add: all_pieces.simps)

lemma all_pieces_Some: "pieces_next t ps = Some (d, ps') \<Longrightarrow> all_pieces t ps = d # all_pieces t ps'"
  by (simp add: all_pieces.simps)

fun piece_bytes :: "fs_node \<Rightarrow> piece \<Rightarrow> bytes" where
  "piece_bytes tree (PieceLit b) = b"
| "piece_bytes tree (PieceRead p off n) = file_bytes tree p off n"

lemma file_bytes_split:
  "n \<le> len \<Longrightarrow> file_bytes tree p off n @ file_bytes tree p (off + n) (len - n) = file_bytes tree p off len"
proof -
  have "take n xs @ take (len - n) (drop n xs) = take len xs" if "n \<le> len" for xs :: bytes
    using that by (metis le_add_diff_inverse take_add)
  then show "n \<le> len \<Longrightarrow> ?thesis"
    by (auto simp: file_bytes_def drop_drop add.commute split: option.split fs_node.split) (metis add.commute drop_drop)+
qed

definition file_rest :: "fs_node \<Rightarrow> pieces \<Rightarrow> bytes" where
  "file_rest tree ps = (case pc_file ps of None \<Rightarrow> [] | Some (p, off, len) \<Rightarrow> file_bytes tree p off len)"

lemma cut_file_bytes: "cut_file p off len ps = (d, ps') \<Longrightarrow> piece_bytes tree d @ file_rest tree ps' = file_bytes tree p off len"
  using file_bytes_split [of "min len READ_CHUNK" len tree p off]
  by (auto simp: cut_file_def Let_def file_rest_def file_bytes_def split: if_splits option.splits fs_node.splits)

lemma all_pieces_bytes:
  "concat (map (piece_bytes tree) (all_pieces t ps)) =
     file_rest tree ps @ concat (map (slice_bytes tree) (slices_from t (pc_i ps) (pc_start ps) (pc_end ps)))"
proof (induction t ps rule: all_pieces.induct)
  case (1 t ps)
  show ?case
  proof (cases "pieces_next t ps")
    case None
    then have "pc_file ps = None" "seg_slice t (pc_i ps) (pc_start ps) (pc_end ps) = None"
      by (auto simp: pieces_next_def Let_def split: option.splits slice.splits)
    then show ?thesis using all_pieces_None [OF None] by (simp add: file_rest_def slices_from.simps)
  next
    case (Some x)
    obtain d ps' where x: "x = (d, ps')" by (cases x)
    note n = Some [unfolded x]
    note IH = "1.IH" [OF n refl]
    have c: "pc_i ps' = pc_i ps0 \<and> pc_start ps' = pc_start ps0 \<and> pc_end ps' = pc_end ps0" if "cut_file p off len ps0 = (d, ps')" for p off len ps0
      using that by (auto simp: cut_file_def Let_def)
    show ?thesis
    proof (cases "pc_file ps")
      case (Some f)
      then obtain p off len where f: "pc_file ps = Some (p, off, len)" by (cases f) auto
      then have "cut_file p off len ps = (d, ps')" using n by (simp add: pieces_next_def)
      then show ?thesis using IH c [of p off len ps] cut_file_bytes [of p off len ps d ps' tree] f
        by (simp add: all_pieces_Some [OF n] file_rest_def)
    next
      case None
      obtain sl where sl: "seg_slice t (pc_i ps) (pc_start ps) (pc_end ps) = Some sl" using n None by (auto simp: pieces_next_def split: option.splits)
      have unf: "slices_from t (pc_i ps) (pc_start ps) (pc_end ps) = sl # slices_from t (pc_i ps + 1) (pc_start ps) (pc_end ps)"
        by (subst slices_from.simps) (simp add: sl)
      show ?thesis
      proof (cases sl)
        case (SliceLit b)
        then have "d = PieceLit b" "ps' = ps\<lparr>pc_i := pc_i ps + 1\<rparr>" using n None sl by (auto simp: pieces_next_def Let_def)
        then show ?thesis using IH None unf SliceLit by (simp add: all_pieces_Some [OF n] file_rest_def)
      next
        case (SliceFile p off len)
        then have "cut_file p off len (ps\<lparr>pc_i := pc_i ps + 1\<rparr>) = (d, ps')" using n None sl by (simp add: pieces_next_def Let_def)
        then show ?thesis using IH c [of p off len] cut_file_bytes [of p off len _ d ps' tree] None unf SliceFile
          by (fastforce simp: all_pieces_Some [OF n] file_rest_def)
      qed
    qed
  qed
qed

lemma range_pieces:
  assumes "start < fin"
  shows "concat (map (piece_bytes tree) (all_pieces t (pieces_new t start fin))) = concat (map (slice_bytes tree) (slices t start fin))"
  using assms by (simp add: all_pieces_bytes pieces_new_def file_rest_def slices_def)

section \<open>Reading ahead\<close>

definition fetched_piece :: "(path \<Rightarrow> nat \<Rightarrow> nat \<Rightarrow> string + bytes) \<Rightarrow> piece \<Rightarrow> string + bytes" where
  "fetched_piece rd d = (case d of PieceLit b \<Rightarrow> Inr b | PieceRead p off n \<Rightarrow> rd p off n)"

text \<open>Start reads until \<open>READ_AHEAD\<close> pieces are queued.\<close>

function fill :: "seek_table \<Rightarrow> piece list \<Rightarrow> pieces \<Rightarrow> piece list \<times> pieces" where
  "fill t q ps =
     (if length q < READ_AHEAD then
        (case pieces_next t ps of None \<Rightarrow> (q, ps) | Some (d, ps') \<Rightarrow> fill t (q @ [d]) ps')
      else (q, ps))"
  by pat_completeness auto
termination
  by (relation "measure (\<lambda>(_, q, _). READ_AHEAD - length q)") auto

declare fill.simps [simp del]

lemma fill_all: "fill t q ps = (q', ps') \<Longrightarrow> q' @ all_pieces t ps' = q @ all_pieces t ps"
proof (induction t q ps rule: fill.induct)
  case (1 t q ps)
  show ?case
  proof (cases "pieces_next t ps")
    case None
    then show ?thesis using "1.prems" by (simp add: fill.simps split: if_splits)
  next
    case (Some x)
    obtain d ps1 where n: "pieces_next t ps = Some (d, ps1)" using Some by (cases x) auto
    show ?thesis
    proof (cases "length q < READ_AHEAD")
      case True
      then have "fill t (q @ [d]) ps1 = (q', ps')" using "1.prems" n by (subst (asm) fill.simps) simp
      then show ?thesis using "1.IH" [OF True n refl] all_pieces_Some [OF n] by simp
    next
      case False
      then show ?thesis using "1.prems" by (subst (asm) fill.simps) simp
    qed
  qed
qed

lemma fill_nonempty: "q \<noteq> [] \<Longrightarrow> fst (fill t q ps) \<noteq> []"
proof (induction t q ps rule: fill.induct)
  case (1 t q ps)
  show ?case
  proof (cases "length q < READ_AHEAD \<and> pieces_next t ps \<noteq> None")
    case True
    then obtain d ps1 where n: "pieces_next t ps = Some (d, ps1)" by auto
    then show ?thesis using True "1.IH" [OF _ n refl] by (subst fill.simps) simp
  next
    case False
    then have "fill t q ps = (q, ps)" by (cases "pieces_next t ps") (subst fill.simps; simp)+
    then show ?thesis using "1.prems" by simp
  qed
qed

lemma fill_empty: "fill t q ps = ([], ps') \<Longrightarrow> q = [] \<and> all_pieces t ps = []"
proof -
  assume f: "fill t q ps = ([], ps')"
  then have q: "q = []" using fill_nonempty [of q t ps] by fastforce
  have "pieces_next t ps = None"
  proof (rule ccontr)
    assume "pieces_next t ps \<noteq> None"
    then obtain d ps1 where n: "pieces_next t ps = Some (d, ps1)" by auto
    have "fill t q ps = fill t [d] ps1" using q n by (subst fill.simps) (simp add: READ_AHEAD_def)
    then show False using f fill_nonempty [of "[d]" t ps1] by (metis fst_conv not_Cons_self2)
  qed
  then show ?thesis using q by (simp add: all_pieces_None)
qed

text \<open>
  The loop of a raw response: the oldest read is awaited and sent; it ends when nothing is
  left, when the client has gone, or with an error in the stream when a read failed.
\<close>

function emit_loop :: "(path \<Rightarrow> nat \<Rightarrow> nat \<Rightarrow> string + bytes) \<Rightarrow> seek_table \<Rightarrow> piece list \<Rightarrow> pieces \<Rightarrow> sink \<Rightarrow> sink" where
  "emit_loop rd t q ps k =
     (case fill t q ps of
        ([], _) \<Rightarrow> k
      | (d # q, ps) \<Rightarrow>
          (case fetched_piece rd d of
             Inr b \<Rightarrow> (case send (Inr b) k of (True, k) \<Rightarrow> emit_loop rd t q ps k | (False, k) \<Rightarrow> k)
           | Inl e \<Rightarrow> snd (send (Inl e) k)))"
  by pat_completeness auto
termination
  by (relation "measure (\<lambda>(_, t, q, ps, _). length (q @ all_pieces t ps))")
    (auto dest!: fill_all [OF sym] dest: arg_cong [where f = length])

declare emit_loop.simps [simp del]

definition emit_range :: "(path \<Rightarrow> nat \<Rightarrow> nat \<Rightarrow> string + bytes) \<Rightarrow> seek_table \<Rightarrow> nat \<Rightarrow> nat \<Rightarrow> sink \<Rightarrow> sink" where
  "emit_range rd t start fin k = emit_loop rd t [] (pieces_new t start fin) k"

text \<open>What it does without the queue: the items of the stream in order, as far as the client takes them.\<close>

fun stream_items :: "(path \<Rightarrow> nat \<Rightarrow> nat \<Rightarrow> string + bytes) \<Rightarrow> piece list \<Rightarrow> (string + bytes) list" where
  "stream_items rd [] = []"
| "stream_items rd (d # ds) = (case fetched_piece rd d of Inr b \<Rightarrow> Inr b # stream_items rd ds | Inl e \<Rightarrow> [Inl e])"

fun send_items :: "(string + bytes) list \<Rightarrow> sink \<Rightarrow> sink" where
  "send_items [] k = k"
| "send_items (x # xs) k = (case send x k of (True, k) \<Rightarrow> send_items xs k | (False, k) \<Rightarrow> k)"

lemma emit_loop_items: "emit_loop rd t q ps k = send_items (stream_items rd (q @ all_pieces t ps)) k"
proof (induction rd t q ps k rule: emit_loop.induct)
  case (1 rd t q ps k)
  obtain q' ps' where f: "fill t q ps = (q', ps')" by fastforce
  show ?case
  proof (cases q')
    case Nil
    then show ?thesis using f fill_empty [of t q ps ps'] by (subst emit_loop.simps) simp
  next
    case (Cons d q1)
    have a: "q @ all_pieces t ps = d # (q1 @ all_pieces t ps')" using fill_all [OF f] Cons by simp
    show ?thesis
    proof (cases "fetched_piece rd d")
      case (Inl e)
      then show ?thesis using f Cons a by (subst emit_loop.simps) (simp split: prod.split bool.split)
    next
      case (Inr b)
      obtain ok k' where s: "send (Inr b) k = (ok, k')" by fastforce
      have "emit_loop rd t q1 ps' k' = send_items (stream_items rd (q1 @ all_pieces t ps')) k'" if ok
        by (rule "1.IH" [OF f [symmetric, unfolded Cons] refl Inr]) (use s that in simp_all)
      then show ?thesis using f Cons a Inr s by (subst emit_loop.simps) (cases ok; simp)
    qed
  qed
qed

section \<open>Encoding\<close>

text \<open>All of a small span, read and compressed as one frame; \<open>zenc\<close> is the zstd encoder.\<close>

definition encode_span :: "(path \<Rightarrow> nat \<Rightarrow> nat \<Rightarrow> string + bytes) \<Rightarrow> (int \<Rightarrow> bytes \<Rightarrow> string + bytes) \<Rightarrow> seek_table \<Rightarrow> nat \<Rightarrow> nat \<Rightarrow> int \<Rightarrow> string + bytes" where
  "encode_span rd zenc t start fin level =
     bindr (map_res (fetched_piece rd) (all_pieces t (pieces_new t start fin))) (\<lambda>bs. zenc level (concat bs))"

text \<open>
  The writer between the encoder and the body: the writes it has passed on, and the bytes it
  still holds.
\<close>

fun channel_write :: "bytes list \<Rightarrow> bytes \<Rightarrow> bytes list \<times> bytes" where
  "channel_write [] buf = ([], buf)"
| "channel_write (d # ds) buf =
     (if length (buf @ d) \<ge> ENCODE_FLUSH_BYTES
      then (let (ws, left) = channel_write ds [] in ((buf @ d) # ws, left))
      else channel_write ds (buf @ d))"

definition flush_all :: "bytes \<Rightarrow> bytes list" where
  "flush_all buf = (if buf = [] then [] else [buf])"

text \<open>
  A streamed span: \<open>zstream level chunks\<close> is what the encoder writes for the chunks it is fed,
  the end of its frame included, and the error it stopped with, if any. When a read fails the
  feeder reports it between two writes, \<open>n\<close> of them before, and the frame ends early.
\<close>

definition fed_chunks :: "(string + bytes) list \<Rightarrow> bytes list" where
  "fed_chunks xs = map projr (takeWhile (\<lambda>x. \<not> isl x) xs)"

definition stream_encode :: "(path \<Rightarrow> nat \<Rightarrow> nat \<Rightarrow> string + bytes) \<Rightarrow> (int \<Rightarrow> bytes list \<Rightarrow> bytes list \<times> string option) \<Rightarrow> seek_table \<Rightarrow>
    nat \<Rightarrow> nat \<Rightarrow> int \<Rightarrow> nat \<Rightarrow> (string + bytes) list" where
  "stream_encode rd zstream t start fin level n =
     (let items = stream_items rd (all_pieces t (pieces_new t start fin));
          (writes, err) = zstream level (fed_chunks items);
          (ws, left) = channel_write writes [];
          out = map Inr (case err of None \<Rightarrow> ws @ flush_all left | Some _ \<Rightarrow> ws)
      in take n out @ filter isl items @ drop n out @ (case err of None \<Rightarrow> [] | Some e \<Rightarrow> [Inl e]))"

lemma channel_write_concat: "channel_write ds buf = (ws, left) \<Longrightarrow> concat ws @ left = buf @ concat ds"
  by (induction ds buf arbitrary: ws left rule: channel_write.induct) (auto split: if_splits prod.splits)

lemma channel_write_sizes: "channel_write ds buf = (ws, left) \<Longrightarrow> b \<in> set ws \<Longrightarrow> ENCODE_FLUSH_BYTES \<le> length b"
  by (induction ds buf arbitrary: ws left rule: channel_write.induct) (auto split: if_splits prod.splits)

lemma flush_all_concat [simp]: "concat (flush_all b) = b"
  by (simp add: flush_all_def)

lemma items_ok:
  assumes "\<forall>p off n. rd p off n = Inr (file_bytes tree p off n)"
  shows "stream_items rd ds = map (Inr \<circ> piece_bytes tree) ds" and "map_res (fetched_piece rd) ds = Inr (map (piece_bytes tree) ds)"
proof -
  have f: "fetched_piece rd d = Inr (piece_bytes tree d)" for d using assms by (cases d) (simp_all add: fetched_piece_def)
  show "stream_items rd ds = map (Inr \<circ> piece_bytes tree) ds" by (induction ds) (simp_all add: f)
  show "map_res (fetched_piece rd) ds = Inr (map (piece_bytes tree) ds)" by (induction ds) (simp_all add: f)
qed

end
