(* ===== verification/Serve.thy ===== *)
theory Serve
  imports Table_Cache Pieces Fetch_Ctx Manifest Peers
begin

text \<open>
  The handlers of the serving side (\<open>src/serve.rs\<close>), each as the reply to a request and the
  state it leaves. What lies outside is the record \<open>serve_env\<close>: the Nix database, the trees
  under the store paths, the reads of the segment reader and the zstd encoder. A tree does not
  change while its path is registered, but a read may fail. The times a handler measures are
  arguments. The manifest builds, which requests share, are steps.
\<close>

section \<open>Surroundings, state and replies\<close>

record serve_env =
  sv_hash_part :: "string \<Rightarrow> string + path_info option"
  sv_nar_hash :: "bytes \<Rightarrow> string + path_info option"
  sv_tree :: "string \<Rightarrow> fs_node"
  sv_read :: "string \<Rightarrow> path \<Rightarrow> nat \<Rightarrow> nat \<Rightarrow> string + bytes"
  sv_zenc :: "int \<Rightarrow> bytes \<Rightarrow> string + bytes"
  sv_zstream :: "int \<Rightarrow> bytes list \<Rightarrow> bytes list \<times> string option"
  sv_seg_size :: nat

record serve_cfg =
  sc_store_dir :: string
  sc_priority :: nat
  sc_max_level :: int
  sc_segment_bytes :: nat
  sc_indexed :: bool

record serve_stats =
  vs_narinfo :: nat
  vs_nar :: nat
  vs_misses :: nat
  vs_manifest :: nat
  vs_encoded :: nat
  vs_wait_us :: nat

text \<open>\<open>ss_retracts\<close>: the holds whose retraction (\<open>Index.retract_hold\<close>) was handed to a task.\<close>

record serve_state =
  ss_tables :: table_state
  ss_stats :: serve_stats
  ss_retracts :: "bytes list"

record reply =
  rp_status :: nat
  rp_headers :: "(string \<times> string) list"
  rp_body :: "(string + bytes) list"

definition SMALL_ENCODE_SPAN :: nat where "SMALL_ENCODE_SPAN = 2 ^ 20"
definition MAX_ENCODED_SPAN :: nat where "MAX_ENCODED_SPAN = 256 * 2 ^ 20"

definition status_only :: "nat \<Rightarrow> reply" where
  "status_only n = \<lparr>rp_status = n, rp_headers = [], rp_body = []\<rparr>"

definition err500 :: reply where
  "err500 = \<lparr>rp_status = 500, rp_headers = [(''content-type'', ''text/plain; charset=utf-8'')], rp_body = [Inr (bytes_of (''internal error'' @ [CHR 10]))]\<rparr>"

definition text_reply :: "string \<Rightarrow> bytes \<Rightarrow> reply" where
  "text_reply typ body = \<lparr>rp_status = 200, rp_headers = [(''content-type'', typ)], rp_body = [Inr body]\<rparr>"

definition strip_suffix :: "string \<Rightarrow> string \<Rightarrow> string option" where
  "strip_suffix suf s = map_option rev (strip_prefix (rev suf) (rev s))"

section \<open>Cache info and narinfo\<close>

definition cache_info :: "serve_cfg \<Rightarrow> reply" where
  "cache_info cfg = text_reply ''text/x-nix-cache-info''
     (bytes_of (''StoreDir: '' @ sc_store_dir cfg @ [CHR 10] @ ''WantMassQuery: 1'' @ [CHR 10] @ ''Priority: '' @ show_nat (sc_priority cfg) @ [CHR 10]))"

definition get_narinfo :: "serve_env \<Rightarrow> serve_cfg \<Rightarrow> string \<Rightarrow> serve_state \<Rightarrow> reply \<times> serve_state" where
  "get_narinfo E cfg file s =
     (let s = s\<lparr>ss_stats := (ss_stats s)\<lparr>vs_narinfo := vs_narinfo (ss_stats s) + 1\<rparr>\<rparr>
      in (case strip_suffix ''.narinfo'' file of
            None \<Rightarrow> status_only 404
          | Some hash_part \<Rightarrow>
              (case sv_hash_part E hash_part of
                 Inr (Some info) \<Rightarrow> text_reply ''text/x-nix-narinfo'' (bytes_of (format_narinfo info (sc_store_dir cfg)))
               | Inr None \<Rightarrow> status_only 404
               | Inl _ \<Rightarrow> err500), s))"

section \<open>Entries and tables\<close>

text \<open>\<open>nar_entry\<close> of the code.\<close>

definition lookup_entry :: "serve_env \<Rightarrow> bytes \<Rightarrow> table_state \<Rightarrow> (string + nat option) \<times> table_state" where
  "lookup_entry E h s =
     (case entry_hit h s of
        Some (e, s) \<Rightarrow> (Inr (Some e), s)
      | None \<Rightarrow>
          (case sv_nar_hash E h of
             Inl err \<Rightarrow> (Inl err, s)
           | Inr None \<Rightarrow> (Inr None, s)
           | Inr (Some info) \<Rightarrow> (case entry_insert (sv_seg_size E) h info s of (e, s) \<Rightarrow> (Inr (Some e), s))))"

text \<open>The table of an entry, built when no request has built it; nothing is kept of a failed build.\<close>

definition seek_table :: "serve_env \<Rightarrow> bytes \<Rightarrow> nat \<Rightarrow> table_state \<Rightarrow> (string + seek_table) \<times> table_state" where
  "seek_table E h e s =
     (let entry = ts_heap s ! e
      in case ne_table entry of
           Some t \<Rightarrow> (Inr t, s)
         | None \<Rightarrow>
             (case build (sv_tree E (pi_path (ne_info entry))) of
                Inl _ \<Rightarrow> (Inl ''walking'', s)
              | Inr t \<Rightarrow>
                  if st_size t \<noteq> pi_nar_size (ne_info entry) then (Inl ''NAR size mismatch'', s)
                  else
                    let s = s\<lparr>ts_builds := (e, h, t, False) # ts_builds s\<rparr>;
                        s = build_account (sv_seg_size E) (e, h, t, False) s
                    in (Inr t, build_set (e, h, t, True) s)))"

section \<open>Archives\<close>

definition content_gone :: "serve_cfg \<Rightarrow> bytes \<Rightarrow> serve_state \<Rightarrow> reply \<times> serve_state" where
  "content_gone cfg h s = (status_only 410, if sc_indexed cfg then s\<lparr>ss_retracts := ss_retracts s @ [h]\<rparr> else s)"

text \<open>What a request measured: the wait for a permit, the reads, the encoder; and its interleaving (\<open>stream_encode\<close>).\<close>

record serve_times =
  tm_wait :: nat
  tm_read :: nat
  tm_encode :: nat
  tm_cut :: nat

text \<open>The level a ranged request asks for.\<close>

definition asked_level :: "string option \<Rightarrow> int option" where
  "asked_level accept =
     (case accept of
        None \<Rightarrow> None
      | Some v \<Rightarrow> (case strip_prefix ''zstd:'' v of None \<Rightarrow> None | Some l \<Rightarrow> parse_i32 l))"

definition served_level :: "serve_cfg \<Rightarrow> int \<Rightarrow> int" where
  "served_level cfg l = (let hi = max (sc_max_level cfg) 1 in if l < 1 then 1 else if l > hi then hi else l)"

definition note_encode :: "serve_times \<Rightarrow> serve_state \<Rightarrow> serve_state" where
  "note_encode tm s =
     (let st = ss_stats s in s\<lparr>ss_stats := st\<lparr>vs_encoded := vs_encoded st + 1, vs_wait_us := vs_wait_us st + tm_wait tm\<rparr>\<rparr>)"

definition chunk_headers :: "nat \<Rightarrow> nat \<Rightarrow> nat \<Rightarrow> (string \<times> string) list" where
  "chunk_headers start fin sz =
     [(''content-type'', ''application/x-narshare-chunk''), (''content-range'', content_range start fin sz), (''x-narshare-encoding'', ''zstd'')]"

definition small_chunk :: "serve_env \<Rightarrow> (path \<Rightarrow> nat \<Rightarrow> nat \<Rightarrow> string + bytes) \<Rightarrow> seek_table \<Rightarrow> nat \<Rightarrow> nat \<Rightarrow> int \<Rightarrow> serve_times \<Rightarrow> reply" where
  "small_chunk E rd t start fin level tm =
     (case encode_span rd (sv_zenc E) t start fin level of
        Inl _ \<Rightarrow> err500
      | Inr z \<Rightarrow>
          \<lparr>rp_status = 206,
           rp_headers = chunk_headers start fin (st_size t) @
             [(''content-length'', show_nat (length z)), (''x-narshare-read-us'', show_nat (tm_read tm)),
              (''x-narshare-encode-us'', show_nat (tm_wait tm + tm_encode tm))],
           rp_body = [Inr z]\<rparr>)"

text \<open>The times of the last completed chunk, scaled to this one (real numbers for the floats).\<close>

definition scaled :: "nat \<Rightarrow> nat \<Rightarrow> nat \<Rightarrow> nat" where
  "scaled us len n = nat \<lfloor>real us * (real len / real (max n 1))\<rfloor>"

definition stream_chunk :: "serve_env \<Rightarrow> (path \<Rightarrow> nat \<Rightarrow> nat \<Rightarrow> string + bytes) \<Rightarrow> enc_stats option \<Rightarrow> seek_table \<Rightarrow> nat \<Rightarrow> nat \<Rightarrow> int \<Rightarrow> serve_times \<Rightarrow> reply" where
  "stream_chunk E rd prev t start fin level tm =
     \<lparr>rp_status = 206,
      rp_headers = chunk_headers start fin (st_size t) @ [(''x-narshare-timing'', ''pipelined'')] @
        (case prev of
           None \<Rightarrow> []
         | Some p \<Rightarrow>
             [(''x-narshare-read-us'', show_nat (scaled (es_read_us p) (fin - start) (es_span p))),
              (''x-narshare-encode-us'', show_nat (scaled (es_encode_us p) (fin - start) (es_span p) + tm_wait tm))]),
      rp_body = stream_encode rd (sv_zstream E) t start fin level (tm_cut tm)\<rparr>"

text \<open>A stream without an error leaves its times with the entry.\<close>

definition keep_times :: "nat \<Rightarrow> nat \<Rightarrow> nat \<Rightarrow> serve_times \<Rightarrow> (string + bytes) list \<Rightarrow> serve_state \<Rightarrow> serve_state" where
  "keep_times e start fin tm body s =
     (if \<exists>x\<in>set body. isl x then s
      else
        let ts = ss_tables s; x = \<lparr>es_read_us = tm_read tm, es_encode_us = tm_encode tm, es_span = fin - start\<rparr>
        in s\<lparr>ss_tables := ts\<lparr>ts_heap := (ts_heap ts)[e := (ts_heap ts ! e)\<lparr>ne_enc := Some x\<rparr>]\<rparr>\<rparr>)"

definition raw_range :: "(path \<Rightarrow> nat \<Rightarrow> nat \<Rightarrow> string + bytes) \<Rightarrow> seek_table \<Rightarrow> nat \<Rightarrow> nat \<Rightarrow> bool \<Rightarrow> bool \<Rightarrow> reply" where
  "raw_range rd t start fin partial head =
     \<lparr>rp_status = (if partial then 206 else 200),
      rp_headers = [(''content-type'', ''application/x-nix-nar''), (''accept-ranges'', ''bytes''), (''content-length'', show_nat (fin - start))] @
        (if partial then [(''content-range'', content_range start fin (st_size t))] else []),
      rp_body = (if head then [] else sk_sent (emit_range rd t start fin \<lparr>sk_sent = [], sk_quota = None\<rparr>))\<rparr>"

text \<open>What is sent of the table for a range: encoded when asked for and not too long, else raw.\<close>

definition send_range :: "serve_env \<Rightarrow> serve_cfg \<Rightarrow> serve_times \<Rightarrow> nat \<Rightarrow> seek_table \<Rightarrow> nat \<Rightarrow> nat \<Rightarrow> bool \<Rightarrow> bool \<Rightarrow> string option \<Rightarrow>
    serve_state \<Rightarrow> reply \<times> serve_state" where
  "send_range E cfg tm e t start fin partial head accept s =
     (let entry = ts_heap (ss_tables s) ! e; rd = sv_read E (pi_path (ne_info entry)); raw = raw_range rd t start fin partial head
      in if partial \<and> \<not> head then
           (case asked_level accept of
              None \<Rightarrow> (raw, s)
            | Some l \<Rightarrow>
                if fin - start \<le> SMALL_ENCODE_SPAN then (small_chunk E rd t start fin (served_level cfg l) tm, note_encode tm s)
                else if fin - start \<le> MAX_ENCODED_SPAN then
                  (let rp = stream_chunk E rd (ne_enc entry) t start fin (served_level cfg l) tm
                   in (rp, keep_times e start fin tm (rp_body rp) (note_encode tm s)))
                else (raw, s))
         else (raw, s))"

text \<open>What a request for an archive the database has comes to.\<close>

definition answer_range :: "serve_env \<Rightarrow> serve_cfg \<Rightarrow> serve_times \<Rightarrow> nat \<Rightarrow> seek_table \<Rightarrow> bool \<Rightarrow> string option \<Rightarrow> string option \<Rightarrow>
    serve_state \<Rightarrow> reply \<times> serve_state" where
  "answer_range E cfg tm e t head rng accept s =
     (case parse_range rng (st_size t) of
        Unsatisfiable \<Rightarrow> (\<lparr>rp_status = 416, rp_headers = [(''content-range'', ''bytes */'' @ show_nat (st_size t))], rp_body = []\<rparr>, s)
      | Full \<Rightarrow> send_range E cfg tm e t 0 (st_size t) False head accept s
      | Partial a b \<Rightarrow> send_range E cfg tm e t a b True head accept s)"

definition get_nar :: "serve_env \<Rightarrow> serve_cfg \<Rightarrow> serve_times \<Rightarrow> string \<Rightarrow> bool \<Rightarrow> string option \<Rightarrow> string option \<Rightarrow> serve_state \<Rightarrow>
    reply \<times> serve_state" where
  "get_nar E cfg tm file head rng accept s =
     (case Option.bind (strip_suffix ''.nar'' file) (\<lambda>h. decode h 32) of
        None \<Rightarrow> (status_only 404, s)
      | Some h \<Rightarrow>
          let s = s\<lparr>ss_stats := (ss_stats s)\<lparr>vs_nar := vs_nar (ss_stats s) + 1\<rparr>\<rparr>
          in case lookup_entry E h (ss_tables s) of
               (Inl _, ts) \<Rightarrow> (err500, s\<lparr>ss_tables := ts\<rparr>)
             | (Inr None, ts) \<Rightarrow>
                 content_gone cfg h (s\<lparr>ss_tables := ts, ss_stats := (ss_stats s)\<lparr>vs_misses := vs_misses (ss_stats s) + 1\<rparr>\<rparr>)
             | (Inr (Some e), ts) \<Rightarrow>
                 (case seek_table E h e ts of
                    (Inl _, ts) \<Rightarrow> (err500, s\<lparr>ss_tables := ts\<rparr>)
                  | (Inr t, ts) \<Rightarrow> answer_range E cfg tm e t head rng accept (s\<lparr>ss_tables := ts\<rparr>)))"

section \<open>Requests as steps of the table cache\<close>

definition known :: "serve_env \<Rightarrow> table_state \<Rightarrow> bool" where
  "known E s \<longleftrightarrow>
     (\<forall>x\<in>set (nc_lru (ts_cache s)). snd x < length (ts_heap s) \<and> sv_nar_hash E (fst x) = Inr (Some (ne_info (ts_heap s ! snd x)))) \<and>
     (\<forall>n\<in>set (ts_heap s). \<forall>t. ne_table n = Some t \<longrightarrow>
        build (sv_tree E (pi_path (ne_info n))) = Inr t \<and> st_size t = pi_nar_size (ne_info n))"

lemma entry_hit_known:
  assumes "known E s" and "entry_hit h s = Some (e, s')"
  shows "known E s' \<and> ts_heap s' = ts_heap s \<and> e < length (ts_heap s) \<and> sv_nar_hash E h = Inr (Some (ne_info (ts_heap s ! e)))"
proof -
  define f where "f = filter (\<lambda>x. fst x \<noteq> h) (nc_lru (ts_cache s))"
  have m: "map_of (nc_lru (ts_cache s)) h = Some e" and s': "s' = s\<lparr>ts_cache := (ts_cache s)\<lparr>nc_lru := (h, e) # f\<rparr>, ts_held := (h, e) # ts_held s\<rparr>"
    using assms(2) by (auto simp: entry_hit_def lru_get_def f_def split: option.splits)
  have K: "snd x < length (ts_heap s) \<and> sv_nar_hash E (fst x) = Inr (Some (ne_info (ts_heap s ! snd x)))" if "x \<in> set (nc_lru (ts_cache s))" for x
    using assms(1) that by (simp add: known_def)
  have sub: "set f \<subseteq> set (nc_lru (ts_cache s))" by (simp add: f_def)
  note he = K [OF map_of_SomeD [OF m], simplified]
  have "snd x < length (ts_heap s) \<and> sv_nar_hash E (fst x) = Inr (Some (ne_info (ts_heap s ! snd x)))" if "x \<in> set ((h, e) # f)" for x
    using that he K sub by (cases "x = (h, e)") (simp, metis set_ConsD subsetD)
  then have "known E s'" using assms(1) by (simp add: known_def s')
  then show ?thesis using he by (simp add: s')
qed

lemma cache_insert_subset: "set (nc_lru (cache_insert sz heap h e c)) \<subseteq> insert (h, e) (set (nc_lru c))"
  by (auto simp: cache_insert_def lru_push_def Let_def split: option.splits if_splits dest: in_set_butlastD)

lemma entry_insert_known:
  assumes K: "known E s" and h: "sv_nar_hash E h = Inr (Some info)" and r: "entry_insert sz h info s = (e, s')"
  shows "known E s' \<and> e < length (ts_heap s') \<and> sv_nar_hash E h = Inr (Some (ne_info (ts_heap s' ! e)))"
proof (cases "entry_hit h s")
  case (Some x)
  then have "entry_hit h s = Some (e, s')" using r by (simp add: entry_insert_def)
  then show ?thesis using entry_hit_known [OF K] by metis
next
  case None
  define n where "n = length (ts_heap s)"
  define heap where "heap = ts_heap s @ [\<lparr>ne_info = info, ne_table = None, ne_enc = None\<rparr>]"
  have s': "e = n" "s' = s\<lparr>ts_heap := heap, ts_cache := cache_insert sz heap h n (ts_cache s), ts_held := (h, n) # ts_held s\<rparr>"
    using r None by (auto simp: entry_insert_def Let_def n_def heap_def)
  have "snd x < length heap \<and> sv_nar_hash E (fst x) = Inr (Some (ne_info (heap ! snd x)))"
    if x: "x \<in> set (nc_lru (cache_insert sz heap h n (ts_cache s)))" for x
  proof -
    consider "x = (h, n)" | "x \<in> set (nc_lru (ts_cache s))" using x cache_insert_subset by blast
    then show ?thesis
    proof cases
      case 1
      then show ?thesis using h by (simp add: heap_def n_def)
    next
      case 2
      then show ?thesis using K by (auto simp: known_def heap_def nth_append)
    qed
  qed
  moreover have "\<forall>m\<in>set heap. \<forall>t. ne_table m = Some t \<longrightarrow> build (sv_tree E (pi_path (ne_info m))) = Inr t \<and> st_size t = pi_nar_size (ne_info m)"
    using K by (auto simp: known_def heap_def)
  ultimately show ?thesis using h by (simp add: known_def s' heap_def n_def)
qed

lemma lookup_entry_known:
  assumes K: "known E s" and r: "lookup_entry E h s = (x, s')"
  shows "known E s' \<and> (case x of
      Inr (Some e) \<Rightarrow> e < length (ts_heap s') \<and> sv_nar_hash E h = Inr (Some (ne_info (ts_heap s' ! e)))
    | Inr None \<Rightarrow> sv_nar_hash E h = Inr None
    | Inl err \<Rightarrow> sv_nar_hash E h = Inl err)"
proof (cases "entry_hit h s")
  case (Some y)
  obtain e s1 where y: "y = (e, s1)" by fastforce
  then have "x = Inr (Some e)" "s' = s1" using r Some by (simp_all add: lookup_entry_def)
  then show ?thesis using entry_hit_known [OF K Some [unfolded y]] by simp
next
  case None
  show ?thesis
  proof (cases "sv_nar_hash E h")
    case (Inl err)
    then show ?thesis using r None K by (auto simp: lookup_entry_def)
  next
    case (Inr o')
    show ?thesis
    proof (cases o')
      case None
      then show ?thesis using r \<open>entry_hit h s = None\<close> K Inr by (auto simp: lookup_entry_def)
    next
      case (Some info)
      obtain e s1 where y: "entry_insert (sv_seg_size E) h info s = (e, s1)" by fastforce
      then have "x = Inr (Some e)" "s' = s1" using r None Inr Some by (simp_all add: lookup_entry_def)
      then show ?thesis using entry_insert_known [OF K _ y] Inr Some by simp
    qed
  qed
qed

lemma account_lru: "set (nc_lru (cache_account sz heap h e n c)) \<subseteq> set (nc_lru c)"
proof -
  obtain k where "nc_lru (evict_to_budget sz heap (c\<lparr>nc_bytes := nc_bytes c + n\<rparr>)) = take k (nc_lru c)"
    using evict_shape [of sz heap "c\<lparr>nc_bytes := nc_bytes c + n\<rparr>"] by auto
  then show ?thesis by (simp add: cache_account_def set_take_subset)
qed

lemma seek_table_known:
  assumes K: "known E s" and e: "e < length (ts_heap s)" and r: "seek_table E h e s = (x, s')"
  shows "known E s'" and "length (ts_heap s') = length (ts_heap s)" and "ne_info (ts_heap s' ! i) = ne_info (ts_heap s ! i)"
    and "x = Inr t \<Longrightarrow> build (sv_tree E (pi_path (ne_info (ts_heap s ! e)))) = Inr t \<and> st_size t = pi_nar_size (ne_info (ts_heap s ! e))"
proof -
  have C: "\<And>n t. n \<in> set (ts_heap s) \<Longrightarrow> ne_table n = Some t \<Longrightarrow>
      build (sv_tree E (pi_path (ne_info n))) = Inr t \<and> st_size t = pi_nar_size (ne_info n)" using K by (simp add: known_def)
  have "known E s' \<and> length (ts_heap s') = length (ts_heap s) \<and> ne_info (ts_heap s' ! i) = ne_info (ts_heap s ! i) \<and>
      (x = Inr t \<longrightarrow> build (sv_tree E (pi_path (ne_info (ts_heap s ! e)))) = Inr t \<and> st_size t = pi_nar_size (ne_info (ts_heap s ! e)))"
  proof (cases "ne_table (ts_heap s ! e)")
    case (Some u)
    then show ?thesis using r K C [OF nth_mem [OF e]] by (auto simp: seek_table_def)
  next
    case None
    show ?thesis
    proof (cases "build (sv_tree E (pi_path (ne_info (ts_heap s ! e))))")
      case (Inl err)
      then show ?thesis using r K None by (auto simp: seek_table_def)
    next
      case (Inr u)
      show ?thesis
      proof (cases "st_size u = pi_nar_size (ne_info (ts_heap s ! e))")
        case False
        then show ?thesis using r K None Inr by (auto simp: seek_table_def)
      next
        case True
        define heap where "heap = (ts_heap s)[e := (ts_heap s ! e)\<lparr>ne_table := Some u\<rparr>]"
        have s': "x = Inr u" "ts_heap s' = heap" "set (nc_lru (ts_cache s')) \<subseteq> set (nc_lru (ts_cache s))"
          using r None Inr True by (auto simp: seek_table_def Let_def build_set_def build_account_def heap_def intro: subsetD [OF account_lru])
        have i: "ne_info (heap ! j) = ne_info (ts_heap s ! j)" for j
          using e by (cases "j = e") (simp_all add: heap_def)
        have "\<forall>m\<in>set heap. \<forall>t. ne_table m = Some t \<longrightarrow> build (sv_tree E (pi_path (ne_info m))) = Inr t \<and> st_size t = pi_nar_size (ne_info m)"
          using C Inr True set_update_subset_insert [of "ts_heap s" e] by (fastforce simp: heap_def)
        moreover have "length heap = length (ts_heap s)" by (simp add: heap_def)
        ultimately show ?thesis using K s' i Inr True by (auto simp: known_def)
      qed
    qed
  qed
  then show "known E s'" "length (ts_heap s') = length (ts_heap s)" "ne_info (ts_heap s' ! i) = ne_info (ts_heap s ! i)"
    "x = Inr t \<Longrightarrow> build (sv_tree E (pi_path (ne_info (ts_heap s ! e)))) = Inr t \<and> st_size t = pi_nar_size (ne_info (ts_heap s ! e))" by blast+
qed

lemma keep_times_known:
  assumes "known E (ss_tables s)" and e: "e < length (ts_heap (ss_tables s))"
  shows "known E (ss_tables (keep_times e a b tm body s))"
proof -
  have "\<forall>m\<in>set ((ts_heap (ss_tables s))[e := (ts_heap (ss_tables s) ! e)\<lparr>ne_enc := x\<rparr>]). \<forall>t. ne_table m = Some t \<longrightarrow>
      build (sv_tree E (pi_path (ne_info m))) = Inr t \<and> st_size t = pi_nar_size (ne_info m)" for x
    using assms set_update_subset_insert [of "ts_heap (ss_tables s)" e] nth_mem [OF e] by (fastforce simp: known_def)
  moreover have "ne_info ((ts_heap (ss_tables s))[e := (ts_heap (ss_tables s) ! e)\<lparr>ne_enc := x\<rparr>] ! j) = ne_info (ts_heap (ss_tables s) ! j)" for x j
    using e by (cases "j = e") simp_all
  ultimately show ?thesis using assms by (simp add: keep_times_def known_def Let_def)
qed

lemma strip_suffix_append [simp]: "strip_suffix suf (s @ suf) = Some s"
  by (simp add: strip_suffix_def strip_prefix_def)

lemma get_nar_cases:
  assumes K: "known E (ss_tables s)" and h: "decode hs 32 = Some h" and f: "strip_suffix ''.nar'' file = Some hs"
    and r: "get_nar E cfg tm file head rng accept s = (rp, s')"
  shows "case sv_nar_hash E h of
      Inl _ \<Rightarrow> rp = err500 \<and> ss_retracts s' = ss_retracts s
    | Inr None \<Rightarrow> rp = status_only 410 \<and> ss_retracts s' = ss_retracts s @ (if sc_indexed cfg then [h] else [])
    | Inr (Some info) \<Rightarrow>
        (case build (sv_tree E (pi_path info)) of
           Inl _ \<Rightarrow> rp = err500 \<and> ss_retracts s' = ss_retracts s
         | Inr t \<Rightarrow>
             if st_size t \<noteq> pi_nar_size info then rp = err500 \<and> ss_retracts s' = ss_retracts s
             else \<exists>e s1. (rp, s') = answer_range E cfg tm e t head rng accept s1 \<and> known E (ss_tables s1) \<and>
               e < length (ts_heap (ss_tables s1)) \<and> ne_info (ts_heap (ss_tables s1) ! e) = info \<and> ss_retracts s1 = ss_retracts s)"
proof -
  define s0 where "s0 = s\<lparr>ss_stats := (ss_stats s)\<lparr>vs_nar := vs_nar (ss_stats s) + 1\<rparr>\<rparr>"
  obtain x ts where x: "lookup_entry E h (ss_tables s) = (x, ts)" by fastforce
  have x0: "lookup_entry E h (ss_tables s0) = (x, ts)" using x by (simp add: s0_def)
  note L = lookup_entry_known [OF K x]
  have g: "get_nar E cfg tm file head rng accept s =
     (case lookup_entry E h (ss_tables s0) of
               (Inl _, ts) \<Rightarrow> (err500, s0\<lparr>ss_tables := ts\<rparr>)
             | (Inr None, ts) \<Rightarrow>
                 content_gone cfg h (s0\<lparr>ss_tables := ts, ss_stats := (ss_stats s0)\<lparr>vs_misses := vs_misses (ss_stats s0) + 1\<rparr>\<rparr>)
             | (Inr (Some e), ts) \<Rightarrow>
                 (case seek_table E h e ts of
                    (Inl _, ts) \<Rightarrow> (err500, s0\<lparr>ss_tables := ts\<rparr>)
                  | (Inr t, ts) \<Rightarrow> answer_range E cfg tm e t head rng accept (s0\<lparr>ss_tables := ts\<rparr>)))"
    unfolding get_nar_def f s0_def Let_def by (simp only: Option.bind.bind_lunit h option.case)
  show ?thesis
  proof (cases x)
    case (Inl err)
    then show ?thesis using L g x0 r by (auto simp: s0_def)
  next
    case (Inr y)
    show ?thesis
    proof (cases y)
      case None
      then show ?thesis using L g x0 r Inr by (auto simp: content_gone_def s0_def)
    next
      case (Some e)
      define info where "info = ne_info (ts_heap ts ! e)"
      have e: "known E ts" "e < length (ts_heap ts)" "sv_nar_hash E h = Inr (Some info)"
        using L Inr Some by (simp_all add: info_def)
      obtain z ts' where z: "seek_table E h e ts = (z, ts')" by fastforce
      note T = seek_table_known [OF e(1,2) z]
      show ?thesis
      proof (cases z)
        case (Inl err)
        have "case build (sv_tree E (pi_path info)) of Inl _ \<Rightarrow> True | Inr t \<Rightarrow> st_size t \<noteq> pi_nar_size info"
          using z Inl e(1) nth_mem [OF e(2)] by (auto simp: seek_table_def Let_def info_def known_def split: option.splits sum.splits if_splits)
        then show ?thesis using g x0 r \<open>x = Inr y\<close> Some z Inl e(3) by (auto simp: s0_def split: sum.splits)
      next
        case (Inr t)
        have t: "build (sv_tree E (pi_path info)) = Inr t" "st_size t = pi_nar_size info" using T(4) [OF Inr] by (simp_all add: info_def)
        have "(rp, s') = answer_range E cfg tm e t head rng accept (s0\<lparr>ss_tables := ts'\<rparr>)"
          using g x0 r \<open>x = Inr y\<close> Some z Inr by simp
        then show ?thesis using e t T(1-3) by (auto simp: s0_def info_def intro!: exI [of _ e] exI [of _ "s0\<lparr>ss_tables := ts'\<rparr>"])
      qed
    qed
  qed
qed

section \<open>A served chunk at its client\<close>

text \<open>What HTTP makes of a reply: its status, headers and length, and its body in any cuts, broken where the stream fails.\<close>

definition delivered :: "reply \<Rightarrow> http_resp \<Rightarrow> bool" where
  "delivered rp r \<longleftrightarrow>
     hr_status r = rp_status rp \<and> hr_header r = map_of (rp_headers rp) \<and>
     hr_length r = Option.bind (map_of (rp_headers rp) ''content-length'') parse_u64 \<and>
     (if \<exists>x\<in>set (rp_body rp). isl x then None \<in> set (hr_body r)
      else None \<notin> set (hr_body r) \<and> concat (map the (hr_body r)) = concat (map projr (rp_body rp)))"

text \<open>zstd, as the two sides use it: a frame restores its content up to any bound, and is hardly longer.\<close>

definition frames :: "(nat \<Rightarrow> bytes \<Rightarrow> bytes option) \<Rightarrow> bytes \<Rightarrow> bytes \<Rightarrow> bool" where
  "frames unz raw z \<longleftrightarrow> (\<forall>n. unz n z = Some (take n raw)) \<and> length z \<le> length raw + WIRE_SLACK"

definition encodes :: "serve_env \<Rightarrow> (nat \<Rightarrow> bytes \<Rightarrow> bytes option) \<Rightarrow> bool" where
  "encodes E unz \<longleftrightarrow>
     (\<forall>l raw. \<exists>z. sv_zenc E l raw = Inr z \<and> frames unz raw z) \<and>
     (\<forall>l chunks. \<exists>ws. sv_zstream E l chunks = (ws, None) \<and> frames unz (concat chunks) (concat ws))"

lemma read_stream_whole:
  "None \<notin> set body \<Longrightarrow> length buf + length (concat (map the body)) \<le> cap \<Longrightarrow>
    \<exists>n'. read_stream cap body buf n = (Inr (buf @ concat (map the body)), n')"
proof (induction body arbitrary: buf n)
  case (Cons x body)
  then obtain c where c: "x = Some c" by (cases x) auto
  then show ?case using Cons.IH [of "buf @ c" "n + length c"] Cons.prems by (auto simp: add.assoc)
qed simp

lemma fetch_range_whole:
  assumes st: "hr_status r = 206" and h: "hr_header r ''x-narshare-encoding'' = (if enc then Some ''zstd'' else None)"
    and len: "\<And>n. hr_length r = Some n \<Longrightarrow> n = length z" and z: "None \<notin> set (hr_body r)" "concat (map the (hr_body r)) = z"
    and raw: "length raw = fin - start" "if enc then frames unz raw z else z = raw"
  shows "\<exists>c n. fetch_range threshold cooldown unz now True (Answered r) start fin hl = (Inr c, record_ok hl, n) \<and> ch_bytes c = raw"
proof -
  define cap where "cap = (if enc then (fin - start) + WIRE_SLACK else fin - start)"
  have le: "length z \<le> cap" using raw by (cases enc) (simp_all add: cap_def frames_def)
  obtain n where "read_stream cap (hr_body r) [] 0 = (Inr z, n)" using read_stream_whole [of "hr_body r" "[]" cap 0] z le by auto
  then have "read_capped_progress cap r = (Inr z, n)" using len le by (auto simp: read_capped_progress_def split: option.split)
  then show ?thesis using st h raw by (cases enc) (simp_all add: fetch_range_def Let_def cap_def frames_def)
qed

lemma raw_body:
  assumes rd: "\<forall>p off n. rd p off n = Inr (file_bytes tree p off n)"
  shows "sk_sent (emit_range rd t start fin \<lparr>sk_sent = [], sk_quota = None\<rparr>) = map (Inr \<circ> piece_bytes tree) (all_pieces t (pieces_new t start fin))"
proof -
  have "sk_sent (send_items xs \<lparr>sk_sent = ys, sk_quota = None\<rparr>) = ys @ xs" for xs ys
    by (induction xs arbitrary: ys) (simp_all add: send_def)
  then show ?thesis by (simp add: emit_range_def emit_loop_items items_ok [OF rd])
qed

lemma stream_body:
  assumes rd: "\<forall>p off n. rd p off n = Inr (file_bytes tree p off n)" and z: "zs level (map (piece_bytes tree) (all_pieces t (pieces_new t start fin))) = (ws, None)"
  shows "\<exists>out. stream_encode rd zs t start fin level n = map Inr out \<and> concat out = concat ws"
proof -
  obtain ws' left where w: "channel_write ws [] = (ws', left)" by fastforce
  define out where "out = ws' @ flush_all left"
  have f: "fed_chunks (map (Inr \<circ> piece_bytes tree) ds) = map (piece_bytes tree) ds" for ds
    by (simp add: fed_chunks_def takeWhile_eq_all_conv [THEN iffD2] comp_def)
  have "filter isl (map (Inr \<circ> piece_bytes tree) ds) = []" for ds by (simp add: filter_empty_conv)
  then have "stream_encode rd zs t start fin level n = take n (map Inr out) @ drop n (map Inr out)"
    by (simp add: stream_encode_def items_ok [OF rd] f z w out_def del: append_take_drop_id)
  moreover have "concat out = concat ws" using channel_write_concat [OF w] by (simp add: out_def)
  ultimately show ?thesis by auto
qed

lemma send_range_known:
  assumes "known E (ss_tables s)" and "e < length (ts_heap (ss_tables s))"
  shows "known E (ss_tables (snd (send_range E cfg tm e t a b partial head accept s)))"
proof -
  have n: "ss_tables (note_encode tm s) = ss_tables s" by (simp add: note_encode_def Let_def)
  then have "known E (ss_tables (keep_times e a b tm body (note_encode tm s)))" for body
    using keep_times_known [of E "note_encode tm s" e] assms by simp
  then show ?thesis using assms n by (simp add: send_range_def Let_def split: option.split)
qed

lemma answer_range_known:
  assumes "known E (ss_tables s)" and "e < length (ts_heap (ss_tables s))"
  shows "known E (ss_tables (snd (answer_range E cfg tm e t head rng accept s)))"
  using assms send_range_known by (simp add: answer_range_def split: range_spec.split)

lemma sent_chunk:
  assumes rd: "\<forall>p off n. sv_read E (pi_path (ne_info (ts_heap (ss_tables s) ! e))) p off n = Inr (file_bytes tree p off n)"
    and se: "start < fin" "fin < 2 ^ 64" and enc: "encodes E unz"
    and raw: "raw = concat (map (piece_bytes tree) (all_pieces t (pieces_new t start fin)))" "length raw = fin - start"
    and rp: "rp = fst (send_range E cfg tm e t start fin True False accept s)" and d: "delivered rp r"
  shows "\<exists>c n. fetch_range threshold cooldown unz now True (Answered r) start fin hl = (Inr c, record_ok hl, n) \<and> ch_bytes c = raw"
proof -
  define rd where "rd = sv_read E (pi_path (ne_info (ts_heap (ss_tables s) ! e)))"
  have R: "\<forall>p off n. rd p off n = Inr (file_bytes tree p off n)" using rd by (simp add: rd_def)
  let ?raw = "raw_range rd t start fin True False"
  have plain: ?thesis if "rp = ?raw"
  proof (rule fetch_range_whole [where enc = False and z = raw])
    have b: "rp_body rp = map (Inr \<circ> piece_bytes tree) (all_pieces t (pieces_new t start fin))"
      using that by (simp add: raw_range_def raw_body [OF R])
    then have "\<not> (\<exists>x\<in>set (rp_body rp). isl x)" by auto
    then show "None \<notin> set (hr_body r)" "concat (map the (hr_body r)) = raw"
      using d b by (simp_all add: delivered_def raw comp_def)
    show "hr_status r = 206" "hr_header r ''x-narshare-encoding'' = (if False then Some ''zstd'' else None)"
      using d that by (simp_all add: delivered_def raw_range_def)
    show "n = length raw" if l: "hr_length r = Some n" for n
    proof -
      have "hr_length r = Some (fin - start)" using d \<open>rp = ?raw\<close> se by (simp add: delivered_def raw_range_def)
      then show ?thesis using l raw(2) by simp
    qed
  qed (use raw in simp_all)
  show ?thesis
  proof (cases "asked_level accept")
    case None
    then show ?thesis using plain rp by (simp add: send_range_def rd_def)
  next
    case (Some l)
    define lv where "lv = served_level cfg l"
    consider "fin - start \<le> SMALL_ENCODE_SPAN" | "\<not> fin - start \<le> SMALL_ENCODE_SPAN" "fin - start \<le> MAX_ENCODED_SPAN" | "\<not> fin - start \<le> SMALL_ENCODE_SPAN" "\<not> fin - start \<le> MAX_ENCODED_SPAN"
      by blast
    then show ?thesis
    proof cases
      case 1
      have "\<exists>z. sv_zenc E lv raw = Inr z \<and> frames unz raw z" using enc unfolding encodes_def by blast
      then obtain z where z: "sv_zenc E lv raw = Inr z" "frames unz raw z" by blast
      have "encode_span rd (sv_zenc E) t start fin lv = Inr z" using z by (simp add: encode_span_def items_ok [OF R] raw(1))
      then have r: "rp = \<lparr>rp_status = 206, rp_headers = chunk_headers start fin (st_size t) @
             [(''content-length'', show_nat (length z)), (''x-narshare-read-us'', show_nat (tm_read tm)),
              (''x-narshare-encode-us'', show_nat (tm_wait tm + tm_encode tm))], rp_body = [Inr z]\<rparr>"
        using rp Some 1 by (simp add: send_range_def Let_def small_chunk_def lv_def rd_def)
      have "length z < 2 ^ 64" using z(2) 1 raw(2) by (simp add: frames_def SMALL_ENCODE_SPAN_def WIRE_SLACK_def)
      then show ?thesis using d r z(2) raw(2)
        by (intro fetch_range_whole [where enc = True and z = z]) (auto simp: delivered_def chunk_headers_def)
    next
      case 2
      have "\<exists>ws. sv_zstream E lv (map (piece_bytes tree) (all_pieces t (pieces_new t start fin))) = (ws, None) \<and> frames unz raw (concat ws)"
        using enc unfolding encodes_def raw(1) by blast
      then obtain ws where ws: "sv_zstream E lv (map (piece_bytes tree) (all_pieces t (pieces_new t start fin))) = (ws, None)" "frames unz raw (concat ws)"
        by blast
      obtain out where out: "stream_encode rd (sv_zstream E) t start fin lv (tm_cut tm) = map Inr out" "concat out = concat ws"
        using stream_body [OF R, where zs = "sv_zstream E"] ws(1) by blast
      have st: "rp = stream_chunk E rd (ne_enc (ts_heap (ss_tables s) ! e)) t start fin lv tm"
        using rp Some 2 by (simp add: send_range_def Let_def lv_def rd_def)
      then have b: "rp_body rp = map Inr out" and hd: "rp_status rp = 206" "map_of (rp_headers rp) ''x-narshare-encoding'' = Some ''zstd''"
        "map_of (rp_headers rp) ''content-length'' = None"
        using out by (simp_all add: stream_chunk_def chunk_headers_def split: option.split)
      have "\<not> (\<exists>x\<in>set (rp_body rp). isl x)" using b by auto
      then show ?thesis using d b hd out(2) ws(2) raw(2)
        by (intro fetch_range_whole [where enc = True and z = "concat ws"]) (simp_all add: delivered_def comp_def)
    next
      case 3
      then show ?thesis using plain rp Some by (simp add: send_range_def rd_def Let_def)
    qed
  qed
qed

text \<open>
  C6: The two ends of a chunk request meet. Whatever encoding the client asks for, the serving
  side answers a range of an archive it has so that the client's \<open>fetch_range\<close>, over any cuts
  of the body by HTTP, accepts the reply, closes the breaker, and has exactly those bytes of
  the archive; the entries the server keeps stay true to the database and the file trees.
\<close>

theorem served_chunk_is_the_archive:
  assumes known: "known E (ss_tables s)" and db: "sv_nar_hash E h = Inr (Some info)" "length h = 32"
    and tree: "sv_tree E (pi_path info) = tree" "supported tree" "fs_ok tree" "pi_nar_size info = length (nar tree)" "length (nar tree) < 2 ^ 64"
    and rd: "\<forall>p off n. sv_read E (pi_path info) p off n = Inr (file_bytes tree p off n)" and zstd: "encodes E unz"
    and range: "start < fin" "fin \<le> length (nar tree)"
    and reply: "get_nar E cfg tm (encode h @ ''.nar'') False (Some (range_header start fin)) accept s = (rp, s')"
    and http: "delivered rp r"
  shows "\<exists>c n. fetch_range threshold cooldown unz now True (Answered r) start fin hl = (Inr c, record_ok hl, n) \<and>
      ch_bytes c = take (fin - start) (drop start (nar tree)) \<and> known E (ss_tables s')"
proof -
  obtain t where t: "build tree = Inr t" "st_size t = length (nar tree)"
    "concat (map (slice_bytes tree) (slices t start fin)) = take (fin - start) (drop start (nar tree))"
    using range_slices [OF tree(2,3)] range by auto
  have dec: "decode (encode h) 32 = Some h" using decode_encode [of h] db(2) by simp
  obtain e s1 where s1: "(rp, s') = answer_range E cfg tm e t False (Some (range_header start fin)) accept s1"
    "known E (ss_tables s1)" "e < length (ts_heap (ss_tables s1))" "ne_info (ts_heap (ss_tables s1) ! e) = info"
    using get_nar_cases [OF known dec strip_suffix_append reply] db(1) tree t by auto
  have "parse_range (Some (range_header start fin)) (st_size t) = Partial start fin"
    by (rule parse_range_header) (use range tree(5) t(2) in simp_all)
  then have rp: "(rp, s') = send_range E cfg tm e t start fin True False accept s1" using s1(1) by (simp add: answer_range_def)
  have "take (fin - start) (drop start (nar tree)) = concat (map (piece_bytes tree) (all_pieces t (pieces_new t start fin)))"
    using range_pieces [OF range(1)] t(3) by simp
  then obtain c n where c: "fetch_range threshold cooldown unz now True (Answered r) start fin hl = (Inr c, record_ok hl, n)"
    "ch_bytes c = take (fin - start) (drop start (nar tree))"
    using sent_chunk [of E s1 e tree start fin unz _ t rp cfg tm accept r] rd s1(4) range tree(5) zstd http rp
    by (metis (no_types, lifting) fst_conv le_less_trans length_take length_drop diff_le_mono min.absorb2 min.commute)
  have "known E (ss_tables s')" using answer_range_known [OF s1(2,3)] s1(1) by (metis snd_conv)
  then show ?thesis using c by blast
qed

definition http_of :: "reply \<Rightarrow> http_resp" where
  "http_of rp = \<lparr>hr_status = rp_status rp, hr_header = map_of (rp_headers rp),
     hr_length = Option.bind (map_of (rp_headers rp) ''content-length'') parse_u64,
     hr_body = map (\<lambda>x. case x of Inl _ \<Rightarrow> None | Inr b \<Rightarrow> Some b) (rp_body rp)\<rparr>"

lemma delivered_http_of: "delivered rp (http_of rp)"
proof -
  have "concat (map the (map (\<lambda>x. case x of Inl _ \<Rightarrow> None | Inr b \<Rightarrow> Some b) xs)) = concat (map projr xs)"
    if "\<not> (\<exists>x\<in>set xs. isl x)" for xs :: "(string + bytes) list"
    using that by (induction xs) (auto split: sum.splits)
  then show ?thesis by (auto simp: delivered_def http_of_def comp_def image_iff isl_def split: sum.splits)
qed

definition demo_env :: serve_env where
  "demo_env = \<lparr>sv_hash_part = (\<lambda>_. Inr None),
     sv_nar_hash = (\<lambda>_. Inr (Some (demo_info\<lparr>pi_nar_size := length (nar demo_tree)\<rparr>))), sv_tree = (\<lambda>_. demo_tree),
     sv_read = (\<lambda>_ p off n. Inr (file_bytes demo_tree p off n)), sv_zenc = (\<lambda>_. Inr), sv_zstream = (\<lambda>_ ds. (ds, None)), sv_seg_size = 40\<rparr>"

definition serve_start :: "nat \<Rightarrow> serve_state" where
  "serve_start avail = \<lparr>ss_tables = table_start avail, ss_stats = \<lparr>vs_narinfo = 0, vs_nar = 0, vs_misses = 0, vs_manifest = 0, vs_encoded = 0, vs_wait_us = 0\<rparr>,
     ss_retracts = []\<rparr>"

lemma known_start: "known E (ss_tables (serve_start avail))"
  by (simp add: known_def serve_start_def table_start_def cache_new_def)

theorem served_chunk_is_the_archive_witness:
  "\<exists>c n. fetch_range 3 60 (\<lambda>n z. Some (take n z)) 0 True
      (Answered (http_of (fst (get_nar demo_env \<lparr>sc_store_dir = ''/nix/store'', sc_priority = 30, sc_max_level = 9, sc_segment_bytes = 4096, sc_indexed = True\<rparr>
        \<lparr>tm_wait = 0, tm_read = 1, tm_encode = 2, tm_cut = 0\<rparr> (encode (replicate 32 7) @ ''.nar'') False (Some (range_header 100 300)) (Some ''zstd:3'') (serve_start 1000))))) 100 300
      health_default = (Inr c, record_ok health_default, n) \<and>
    ch_bytes c = take 200 (drop 100 (nar demo_tree))"
proof -
  let ?rp = "get_nar demo_env \<lparr>sc_store_dir = ''/nix/store'', sc_priority = 30, sc_max_level = 9, sc_segment_bytes = 4096, sc_indexed = True\<rparr>
        \<lparr>tm_wait = 0, tm_read = 1, tm_encode = 2, tm_cut = 0\<rparr> (encode (replicate 32 7) @ ''.nar'') False (Some (range_header 100 300)) (Some ''zstd:3'') (serve_start 1000)"
  have len: "300 \<le> length (nar demo_tree)" "length (nar demo_tree) < 2 ^ 64"
    by (simp_all add: demo_tree_def nar_def Nar.nar_entry_def frame_def pad_len_def)
  have z: "encodes demo_env (\<lambda>n z. Some (take n z))" by (simp add: encodes_def frames_def demo_env_def)
  have tree: "supported demo_tree" "fs_ok demo_tree" by (simp_all add: demo_tree_def)
  have env: "sv_nar_hash demo_env h = Inr (Some (demo_info\<lparr>pi_nar_size := length (nar demo_tree)\<rparr>))"
    "sv_tree demo_env p = demo_tree" "\<forall>q off n. sv_read demo_env p q off n = Inr (file_bytes demo_tree q off n)" for h p
    by (simp_all add: demo_env_def)
  obtain rp s' where r: "?rp = (rp, s')" by fastforce
  have "\<exists>c n. fetch_range 3 60 (\<lambda>n z. Some (take n z)) 0 True (Answered (http_of rp)) 100 300 health_default = (Inr c, record_ok health_default, n) \<and>
      ch_bytes c = take (300 - 100) (drop 100 (nar demo_tree)) \<and> known demo_env (ss_tables s')"
    by (rule served_chunk_is_the_archive [OF known_start env(1) _ env(2) tree _ len(2) env(3) z _ len(1) r delivered_http_of]) simp_all
  then show ?thesis unfolding r by auto
qed

section \<open>What an answer says of the database\<close>

lemma send_range_answer:
  "(rp, s') = send_range E cfg tm e t a b partial head accept s \<Longrightarrow>
     (rp_status rp = (if partial then 206 else 200) \<or> partial \<and> rp = err500) \<and> ss_retracts s' = ss_retracts s"
  by (auto simp: send_range_def Let_def small_chunk_def stream_chunk_def raw_range_def note_encode_def keep_times_def split: option.splits sum.splits if_splits)

lemma answer_range_answer:
  "(rp, s') = answer_range E cfg tm e t head rng accept s \<Longrightarrow> rp_status rp \<in> {200, 206, 416, 500} \<and> ss_retracts s' = ss_retracts s"
  by (auto simp: answer_range_def err500_def split: range_spec.splits dest!: send_range_answer split: if_splits)



section \<open>Manifests\<close>

text \<open>
  The manifest of a path is built once for all that ask for it, in a task of its own: the LRU of
  outcomes (None: the path has no manifest), the hashes with a build entry, the running
  tasks, the requests about to look into the cache and those waiting for a build.
\<close>

record man_state =
  ms_cache :: "(bytes \<times> bytes option) list"
  ms_building :: "bytes list"
  ms_tasks :: "bytes list"
  ms_asking :: "(nat \<times> bytes) list"
  ms_waiting :: "(nat \<times> bytes) list"
  ms_answers :: "(nat \<times> bytes \<times> bytes option) list"

definition MANIFEST_ENTRIES :: nat where "MANIFEST_ENTRIES = 64"

text \<open>What a build publishes for a path: its rendered manifest, or that it has none. \<open>B3\<close> hashes a segment, \<open>json\<close> renders.\<close>

definition build_outcome :: "(bytes \<Rightarrow> bytes) \<Rightarrow> (manifest \<Rightarrow> bytes) \<Rightarrow> serve_env \<Rightarrow> serve_cfg \<Rightarrow> path_info \<Rightarrow> bytes option" where
  "build_outcome B3 json E cfg info =
     (case build_manifest B3 (sv_tree E (pi_path info)) (pi_nar_hash info) (pi_nar_size info) (sc_segment_bytes cfg) of
        Inl _ \<Rightarrow> None
      | Inr m \<Rightarrow> Some (json m))"

text \<open>The reply to an outcome, and the requests that get no further than the lookup.\<close>

definition manifest_reply :: "bytes option \<Rightarrow> reply" where
  "manifest_reply x =
     (case x of Some json \<Rightarrow> text_reply ''application/json'' json | None \<Rightarrow> status_only 404)"

definition get_manifest :: "serve_env \<Rightarrow> string \<Rightarrow> (bytes \<times> bytes option) list \<Rightarrow> serve_state \<Rightarrow>
    (reply + bytes \<times> nat) \<times> (bytes \<times> bytes option) list \<times> serve_state" where
  "get_manifest E hash cache s =
     (let s = s\<lparr>ss_stats := (ss_stats s)\<lparr>vs_manifest := vs_manifest (ss_stats s) + 1\<rparr>\<rparr>
      in case decode hash 32 of
           None \<Rightarrow> (Inl (status_only 404), cache, s)
         | Some h \<Rightarrow>
             (case lru_get h cache of
                Some (x, cache) \<Rightarrow> (Inl (manifest_reply x), cache, s)
              | None \<Rightarrow>
                  (case lookup_entry E h (ss_tables s) of
                     (Inl _, ts) \<Rightarrow> (Inl err500, cache, s\<lparr>ss_tables := ts\<rparr>)
                   | (Inr None, ts) \<Rightarrow> (Inl (status_only 404), cache, s\<lparr>ss_tables := ts\<rparr>)
                   | (Inr (Some e), ts) \<Rightarrow> (Inr (h, e), cache, s\<lparr>ss_tables := ts\<rparr>))))"

text \<open>One turn of the loop of a request: it is answered, waits for a build, or starts one and looks again.\<close>

definition manifest_poll :: "nat \<Rightarrow> bytes \<Rightarrow> man_state \<Rightarrow> man_state" where
  "manifest_poll r h s =
     (let asking = remove1 (r, h) (ms_asking s)
      in case lru_get h (ms_cache s) of
           Some (x, cache) \<Rightarrow> s\<lparr>ms_cache := cache, ms_asking := asking, ms_answers := (r, h, x) # ms_answers s\<rparr>
         | None \<Rightarrow>
             if h \<in> set (ms_building s) then s\<lparr>ms_asking := asking, ms_waiting := (r, h) # ms_waiting s\<rparr>
             else s\<lparr>ms_building := h # ms_building s, ms_tasks := h # ms_tasks s\<rparr>)"

text \<open>The end of a build: publish, drop the entry, wake those that wait.\<close>

definition manifest_built :: "bytes \<Rightarrow> bytes option \<Rightarrow> man_state \<Rightarrow> man_state" where
  "manifest_built h x s =
     s\<lparr>ms_cache := snd (lru_push MANIFEST_ENTRIES h x (ms_cache s)), ms_building := removeAll h (ms_building s),
       ms_tasks := remove1 h (ms_tasks s), ms_asking := filter (\<lambda>w. snd w = h) (ms_waiting s) @ ms_asking s,
       ms_waiting := filter (\<lambda>w. snd w \<noteq> h) (ms_waiting s)\<rparr>"

text \<open>\<open>outcome\<close>: what a build of the path with this hash gives, whenever it runs.\<close>

inductive man_step :: "(bytes \<Rightarrow> bytes option) \<Rightarrow> man_state \<Rightarrow> man_state \<Rightarrow> bool" for outcome where
  Ask: "man_step outcome s (s\<lparr>ms_asking := (r, h) # ms_asking s\<rparr>)"
| Poll: "(r, h) \<in> set (ms_asking s) \<Longrightarrow> man_step outcome s (manifest_poll r h s)"
| Built: "h \<in> set (ms_tasks s) \<Longrightarrow> man_step outcome s (manifest_built h (outcome h) s)"
| Leave: "man_step outcome s (s\<lparr>ms_asking := remove1 x (ms_asking s), ms_waiting := remove1 x (ms_waiting s)\<rparr>)"

inductive man_reach :: "(bytes \<Rightarrow> bytes option) \<Rightarrow> man_state \<Rightarrow> bool" for outcome where
  Begin: "man_reach outcome \<lparr>ms_cache = [], ms_building = [], ms_tasks = [], ms_asking = [], ms_waiting = [], ms_answers = []\<rparr>"
| Step: "man_reach outcome s \<Longrightarrow> man_step outcome s s' \<Longrightarrow> man_reach outcome s'"

definition man_ok :: "(bytes \<Rightarrow> bytes option) \<Rightarrow> man_state \<Rightarrow> bool" where
  "man_ok outcome s \<longleftrightarrow>
     distinct (ms_tasks s) \<and> set (ms_building s) = set (ms_tasks s) \<and> (\<forall>w\<in>set (ms_waiting s). snd w \<in> set (ms_tasks s)) \<and>
     (\<forall>x\<in>set (ms_cache s). snd x = outcome (fst x)) \<and> (\<forall>x\<in>set (ms_answers s). snd (snd x) = outcome (fst (snd x))) \<and>
     length (ms_cache s) \<le> MANIFEST_ENTRIES"

lemma lru_get_sound: "lru_get k l = Some (v, l') \<Longrightarrow> (k, v) \<in> set l \<and> set l' \<subseteq> set l \<and> length l' \<le> length l"
proof -
  assume g: "lru_get k l = Some (v, l')"
  then have m: "map_of l k = Some v" and l': "l' = (k, v) # filter (\<lambda>x. fst x \<noteq> k) l" by (auto simp: lru_get_def split: option.splits)
  have "(k, v) \<in> set l" using m by (rule map_of_SomeD)
  moreover from this have "length (filter (\<lambda>x. fst x \<noteq> k) l) < length l" by (auto intro: length_filter_less)
  ultimately show ?thesis by (auto simp: l')
qed

lemma lru_push_bounds:
  assumes "lru_push cap k v l = (d, l')" and "length l \<le> cap" and "0 < cap"
  shows "set l' \<subseteq> insert (k, v) (set l) \<and> length l' \<le> cap"
proof (cases "map_of l k")
  case None
  then show ?thesis using assms by (cases "l = []") (auto simp: lru_push_def split: if_splits dest: in_set_butlastD)
next
  case (Some old)
  then have "(k, old) \<in> set l" by (rule map_of_SomeD)
  then have "length (filter (\<lambda>x. fst x \<noteq> k) l) < length l" by (auto intro: length_filter_less)
  then show ?thesis using assms Some by (auto simp: lru_push_def)
qed

lemma man_step_ok: "man_step outcome s s' \<Longrightarrow> man_ok outcome s \<Longrightarrow> man_ok outcome s'"
proof (induction rule: man_step.induct)
  case (Poll r h s)
  show ?case
  proof (cases "lru_get h (ms_cache s)")
    case (Some x)
    obtain v l where x: "lru_get h (ms_cache s) = Some (v, l)" using Some by (cases x) auto
    note g = lru_get_sound [OF x]
    have "v = outcome h" using g Poll.prems by (force simp: man_ok_def)
    then show ?thesis using Poll.prems g x by (auto simp: man_ok_def manifest_poll_def)
  qed (use Poll in \<open>auto simp: man_ok_def manifest_poll_def\<close>)
next
  case (Built h s)
  obtain d l where p: "lru_push MANIFEST_ENTRIES h (outcome h) (ms_cache s) = (d, l)" by fastforce
  have "set l \<subseteq> insert (h, outcome h) (set (ms_cache s)) \<and> length l \<le> MANIFEST_ENTRIES"
    using lru_push_bounds [OF p] Built.prems by (simp add: man_ok_def MANIFEST_ENTRIES_def)
  then show ?case using Built p by (auto simp: man_ok_def manifest_built_def)
qed (auto simp: man_ok_def dest: notin_set_remove1 set_remove1_subset [THEN subsetD])

text \<open>
  C26: Manifest builds are single-flighted: at any time no path is built twice, a request waits
  only for a build that runs and is woken by its end, the cache stays within its entries, and
  every request that was answered, however it and its build overlapped with others, has the
  outcome of a build of exactly the path it asked for.
\<close>

theorem manifest_builds_are_single_flight:
  assumes "man_reach outcome s"
  shows "distinct (ms_tasks s) \<and> length (ms_cache s) \<le> MANIFEST_ENTRIES \<and>
    (\<forall>w\<in>set (ms_waiting s). snd w \<in> set (ms_tasks s) \<and> w \<in> set (ms_asking (manifest_built (snd w) (outcome (snd w)) s))) \<and>
    (\<forall>x\<in>set (ms_answers s). snd (snd x) = outcome (fst (snd x)))"
proof -
  have "man_ok outcome s" using assms by (induction rule: man_reach.induct) (simp add: man_ok_def, rule man_step_ok)
  then show ?thesis by (auto simp: man_ok_def manifest_built_def)
qed

theorem manifest_builds_are_single_flight_witness:
  "man_reach (\<lambda>_. None) \<lparr>ms_cache = [], ms_building = [[1]], ms_tasks = [[1]], ms_asking = [], ms_waiting = [(0, [1])], ms_answers = []\<rparr> \<and>
   (0, [1]) \<in> set (ms_asking (manifest_built [1] None
      \<lparr>ms_cache = [], ms_building = [[1]], ms_tasks = [[1]], ms_asking = [], ms_waiting = [(0, [1])], ms_answers = []\<rparr>))"
proof -
  let ?o = "\<lambda>_. None"
  have "man_reach ?o \<lparr>ms_cache = [], ms_building = [], ms_tasks = [], ms_asking = [(0, [1])], ms_waiting = [], ms_answers = []\<rparr>"
    using man_reach.Step [OF man_reach.Begin man_step.Ask [where r = 0 and h = "[1]"], of ?o] by simp
  then have a: "man_reach ?o \<lparr>ms_cache = [], ms_building = [[1]], ms_tasks = [[1]], ms_asking = [(0, [1])], ms_waiting = [], ms_answers = []\<rparr>"
    by (rule man_reach.Step) (use man_step.Poll [of 0 "[1]" "\<lparr>ms_cache = [], ms_building = [], ms_tasks = [], ms_asking = [(0, [1])], ms_waiting = [], ms_answers = []\<rparr>" ?o]
        in \<open>simp add: manifest_poll_def lru_get_def\<close>)
  then have "man_reach ?o \<lparr>ms_cache = [], ms_building = [[1]], ms_tasks = [[1]], ms_asking = [], ms_waiting = [(0, [1])], ms_answers = []\<rparr>"
    by (rule man_reach.Step) (use man_step.Poll [of 0 "[1]" "\<lparr>ms_cache = [], ms_building = [[1]], ms_tasks = [[1]], ms_asking = [(0, [1])], ms_waiting = [], ms_answers = []\<rparr>" ?o]
        in \<open>simp add: manifest_poll_def lru_get_def\<close>)
  then show ?thesis using manifest_builds_are_single_flight [of ?o] by fastforce
qed

end
