(* ===== verification/Rocks_Lookup.thy ===== *)
theory Rocks_Lookup
  imports Rocks_Store
begin

text \<open>
  The second lookup of the embedded store, by archive hash (\<open>lookup_nar_hash\<close> of
  \<open>src/store/rocks.rs\<close>): it walks the index by archive hash and finds exactly the facts of the
  archive, so what a lookup by store path gave is found again by its archive hash.
\<close>

context wire_codec
begin

lemma nar_scan:
  assumes s: "rocks_inv C s" and h: "length h = 32"
  shows "\<exists>atts. map_res (\<lambda>(k, v). att_at C (rk_db s) v (drop 32 k @ h)) (scan (rk_db s) AttNar h) = Inr atts \<and>
     set (List.map_filter id atts) = {a. \<exists>hp. rk_fact C s (hp @ h) = Some a \<and> path_key_of a = hp @ h \<and> nar_hash a = h}"
proof -
  have kv: "kv_inv (rk_db s AttNar)" and ok: "facts_ok C (rows_of s AttPath) (rows_of s Att) (rows_of s AttNar)"
    using s by (simp_all add: rocks_inv_def)
  let ?g = "\<lambda>(k :: bytes, v :: bytes). rk_fact C s (drop 32 k @ h)"
  have key: "\<exists>hp. k = h @ hp \<and> rows_of s AttPath (hp @ h) = Some v" if x: "(k, v) \<in> set (scan (rk_db s) AttNar h)" for k v
  proof -
    have "rows_of s AttNar k = Some v" "starts_with h k" using x kv by (simp_all add: scan_set)
    then obtain hp nh where "k = nh @ hp" "length nh = 32" "rows_of s AttPath (hp @ nh) = Some v" using ok unfolding facts_ok_def by blast
    moreover from this have "nh = h" using \<open>starts_with h k\<close> h by (simp add: starts_with_append_length)
    ultimately show ?thesis by blast
  qed
  have run: "map_res (\<lambda>(k, v). att_at C (rk_db s) v (drop 32 k @ h)) (scan (rk_db s) AttNar h) = Inr (map ?g (scan (rk_db s) AttNar h))"
  proof (rule map_res_Inr)
    fix x assume x: "x \<in> set (scan (rk_db s) AttNar h)"
    obtain k v where p: "x = (k, v)" by fastforce
    obtain hp where k: "k = h @ hp" "rows_of s AttPath (hp @ h) = Some v" using key x p by blast
    then have d: "drop 32 k @ h = hp @ h" using h by simp
    from att_at_row [OF s k(2)] show "(case x of (k, v) \<Rightarrow> att_at C (rk_db s) v (drop 32 k @ h)) = Inr (?g x)" by (auto simp: p d)
  qed
  have "a \<in> set (List.map_filter id (map ?g (scan (rk_db s) AttNar h))) \<longleftrightarrow>
      (\<exists>hp. rk_fact C s (hp @ h) = Some a \<and> path_key_of a = hp @ h \<and> nar_hash a = h)" for a
  proof
    assume "a \<in> set (List.map_filter id (map ?g (scan (rk_db s) AttNar h)))"
    then obtain k v where kv': "(k, v) \<in> set (scan (rk_db s) AttNar h)" "rk_fact C s (drop 32 k @ h) = Some a" by (auto simp: map_filter_def)
    then obtain hp where k: "k = h @ hp" using key by blast
    have f: "rk_fact C s (hp @ h) = Some a" using kv'(2) k h by simp
    have p: "path_key_of a = hp @ h" "length (nar_hash a) = 32" using rocks_fact_row [OF s f] by simp_all
    then have "nar_hash a = h" using h by (simp add: path_key_of_def)
    then show "\<exists>hp. rk_fact C s (hp @ h) = Some a \<and> path_key_of a = hp @ h \<and> nar_hash a = h" using f p by blast
  next
    assume "\<exists>hp. rk_fact C s (hp @ h) = Some a \<and> path_key_of a = hp @ h \<and> nar_hash a = h"
    then obtain hp where a: "rk_fact C s (hp @ h) = Some a" "path_key_of a = hp @ h" "nar_hash a = h" by blast
    then obtain v where v: "rows_of s AttPath (hp @ h) = Some v" using rk_fact_None by fastforce
    obtain b where b: "path_key_of b = hp @ h" "length (nar_hash b) = 32" "rows_of s AttNar (nar_key b) = Some v"
      using ok v unfolding facts_ok_def by blast
    then have "nar_key b = h @ hp" using h by (simp add: path_key_of_def nar_key_def)
    then have "(h @ hp, v) \<in> set (scan (rk_db s) AttNar h)" using b kv by (simp add: scan_set)
    moreover have "drop 32 (h @ hp) @ h = hp @ h" using h by simp
    ultimately show "a \<in> set (List.map_filter id (map ?g (scan (rk_db s) AttNar h)))"
      using a(1) unfolding map_filter_def by (force simp: image_iff)
  qed
  with run show ?thesis by blast
qed

lemma rocks_lookup_nar_read:
  assumes s: "rocks_inv C s" and h: "length h = 32"
  shows "\<exists>rows. rocks_lookup_nar_hash C s h = Inr rows \<and>
    (\<forall>a hs. (a, hs) \<in> set rows \<longleftrightarrow> rk_fact C s (path_key_of a) = Some a \<and> nar_hash a = h \<and> hs = holders_of s h \<and> hs \<noteq> [])"
proof -
  obtain atts where at: "map_res (\<lambda>(k, v). att_at C (rk_db s) v (drop 32 k @ h)) (scan (rk_db s) AttNar h) = Inr atts"
    "set (List.map_filter id atts) = {a. \<exists>hp. rk_fact C s (hp @ h) = Some a \<and> path_key_of a = hp @ h \<and> nar_hash a = h}"
    using nar_scan [OF s h] by blast
  have mem: "a \<in> set (List.map_filter id atts) \<longleftrightarrow> rk_fact C s (path_key_of a) = Some a \<and> nar_hash a = h" for a
    unfolding at(2) by (auto simp: path_key_of_def)
  have "(a, hs) \<in> set (lookup_atts s (List.map_filter id atts)) \<longleftrightarrow> a \<in> set (List.map_filter id atts) \<and> hs = holders_of s (nar_hash a) \<and> hs \<noteq> []" for a hs
    by (rule lookup_atts_set [OF s]) (use mem h in auto)
  then show ?thesis using at(1) mem by (auto simp: rocks_lookup_nar_hash_def)
qed

lemma path_row_found_by_nar:
  assumes s: "rocks_inv C s" and hp: "length hp = 32" and rows: "rocks_lookup_hash_part C s hp = Inr rows" "(a, hs) \<in> set rows"
  shows "\<exists>rows'. rocks_lookup_nar_hash C s (nar_hash a) = Inr rows' \<and> (a, hs) \<in> set rows'"
proof -
  obtain atts where at: "map_res (\<lambda>(pk, h). att_at C (rk_db s) h pk) (scan (rk_db s) AttPath (bytes_of hp)) = Inr atts"
    "set (List.map_filter id atts) = {a. \<exists>pk. starts_with (bytes_of hp) pk \<and> rk_fact C s pk = Some a}"
    using path_scan [OF s] by blast
  have fact: "rk_fact C s (path_key_of b) = Some b \<and> length (nar_hash b) = 32" if "b \<in> set (List.map_filter id atts)" for b
    using that rocks_fact_row [OF s] unfolding at(2) by blast
  have "rows = lookup_atts s (List.map_filter id atts)" using rows(1) at(1) by (simp add: rocks_lookup_hash_part_def)
  then have a: "a \<in> set (List.map_filter id atts)" "hs = holders_of s (nar_hash a)" "hs \<noteq> []"
    using rows(2) lookup_atts_set [OF s, of "List.map_filter id atts"] fact by blast+
  obtain rows' where r: "rocks_lookup_nar_hash C s (nar_hash a) = Inr rows'"
    "\<forall>b hs. (b, hs) \<in> set rows' \<longleftrightarrow> rk_fact C s (path_key_of b) = Some b \<and> nar_hash b = nar_hash a \<and> hs = holders_of s (nar_hash a) \<and> hs \<noteq> []"
    using rocks_lookup_nar_read [OF s, of "nar_hash a"] fact [OF a(1)] by auto
  then show ?thesis using fact [OF a(1)] a by auto
qed

end

end
