(* ===== verification/Proxy.thy ===== *)
theory Proxy
  imports Sync Serve Delivery Rocks_Lookup
begin

text \<open>
  The substituter the local nix talks to (\<open>src/proxy.rs\<close>): both lookups are answered from the
  index, a narinfo only while some peer can serve the path, and an archive by a transfer from
  the peers that hold it. A handler is the reply, the transfer it starts, if any, and the
  shared context it leaves; \<open>hs\<close> are the breakers of the configured peers at the time \<open>now\<close>.
\<close>

section \<open>Start and persistence\<close>

record proxy_cfg =
  px_priority :: nat
  px_tiers :: "nat list"

text \<open>The context of a starting proxy: weights saved by the last run warm the pool.\<close>

definition proxy_new :: "nat \<Rightarrow> nat \<Rightarrow> string list \<Rightarrow> string list \<Rightarrow> proxy_settings \<Rightarrow> pool \<Rightarrow> mw_store \<Rightarrow> fetch_ctx \<times> mw_store" where
  "proxy_new now unix names encodings cfg p m =
     (case load_mw unix names m of
        (Some (weights, best_rate, avg_loss), m) \<Rightarrow> (ctx_new now encodings cfg (restore (map Some weights) (Some best_rate) (Some avg_loss) p), m)
      | (None, m) \<Rightarrow> (ctx_new now encodings cfg p, m))"

text \<open>One wake of the weight saver: the pool is saved when it observed something since the last save.\<close>

definition saver_wake :: "nat \<Rightarrow> string list \<Rightarrow> pool \<Rightarrow> nat \<times> mw_store \<Rightarrow> nat \<times> mw_store" where
  "saver_wake unix names p = (\<lambda>(saved, m).
     case pool_snapshot p of (weights, best_rate, avg_loss, obs) \<Rightarrow>
       if names = [] \<or> obs = saved then (saved, m) else (obs, save_mw unix names weights best_rate avg_loss m))"

section \<open>Sources\<close>

definition sources_of :: "index_cfg \<Rightarrow> proxy_cfg \<Rightarrow> nat \<Rightarrow> health list \<Rightarrow> found \<Rightarrow> (nat \<times> string) list" where
  "sources_of I cfg now hs found =
     (let url = ''nar/'' @ encode (ri_nar_hash (fd_info found)) @ ''.nar'';
          v = map (\<lambda>i. (i, url)) (filter (\<lambda>i. available now (hs ! i)) (List.map_filter (idx_of I) (filter (\<lambda>h. h \<noteq> ix_self I) (fd_holders found))));
          tier = (\<lambda>x. px_tiers cfg ! fst x)
      in if v = [] then [] else let min_tier = Min (set (map tier v)) in filter (\<lambda>x. tier x = min_tier) v)"

text \<open>\<open>Iterator::max_by_key\<close>: the last of the greatest.\<close>

definition max_by_key :: "('a \<Rightarrow> nat) \<Rightarrow> 'a list \<Rightarrow> 'a option" where
  "max_by_key f xs = fold (\<lambda>x best. case best of None \<Rightarrow> Some x | Some b \<Rightarrow> if f x \<ge> f b then Some x else Some b) xs None"

section \<open>Handlers\<close>

definition proxy_cache_info :: "proxy_cfg \<Rightarrow> reply" where
  "proxy_cache_info cfg = text_reply ''text/x-nix-cache-info''
     (bytes_of (''StoreDir: /nix/store'' @ [CHR 10] @ ''WantMassQuery: 1'' @ [CHR 10] @ ''Priority: '' @ show_nat (px_priority cfg) @ [CHR 10]))"

definition stat :: "(fstats \<Rightarrow> fstats) \<Rightarrow> fetch_ctx \<Rightarrow> fetch_ctx" where
  "stat f c = c\<lparr>fc_stats := f (fc_stats c)\<rparr>"

definition narinfo_miss :: "fetch_ctx \<Rightarrow> reply \<times> fetch_ctx" where
  "narinfo_miss c = (status_only 404, stat (\<lambda>s. s\<lparr>fs_narinfo_misses := add64 (fs_narinfo_misses s) 1\<rparr>) c)"

definition alphanumeric :: "char \<Rightarrow> bool" where
  "alphanumeric c \<longleftrightarrow> in_range 48 57 c \<or> in_range 65 90 c \<or> in_range 97 122 c"

definition proxy_get_narinfo :: "'s store_ops \<Rightarrow> index_cfg \<Rightarrow> proxy_cfg \<Rightarrow> nat \<Rightarrow> health list \<Rightarrow> 's \<Rightarrow> string \<Rightarrow> fetch_ctx \<Rightarrow> reply \<times> fetch_ctx" where
  "proxy_get_narinfo ops I cfg now hs s file c =
     (let c = stat (\<lambda>s. s\<lparr>fs_narinfo_requests := add64 (fs_narinfo_requests s) 1\<rparr>) c
      in case strip_suffix ''.narinfo'' file of
           None \<Rightarrow> narinfo_miss c
         | Some hp \<Rightarrow>
             if length hp \<noteq> 32 \<or> \<not> list_all alphanumeric hp then narinfo_miss c
             else case lookup_hash_part ops I hp s of
                 Inl _ \<Rightarrow> narinfo_miss c
               | Inr rows \<Rightarrow>
                   (case max_by_key snd (filter (\<lambda>x. snd x > 0) (map (\<lambda>r. (r, length (sources_of I cfg now hs r))) rows)) of
                      None \<Rightarrow> narinfo_miss c
                    | Some (row, _) \<Rightarrow>
                        if refuses_while_roaming now (ri_nar_size (fd_info row)) c then narinfo_miss c
                        else (text_reply ''text/x-nix-narinfo'' (bytes_of (rewrite_for_client (fd_info row))), c)))"

text \<open>A transfer to start: \<open>run_transfer\<close> of this narinfo, these sources and this range.\<close>

record transfer_job =
  tj_info :: remote_narinfo
  tj_sources :: "(nat \<times> string) list"
  tj_start :: nat
  tj_end :: nat

definition nar_miss :: "fetch_ctx \<Rightarrow> reply \<times> transfer_job option \<times> fetch_ctx" where
  "nar_miss c = (status_only 404, None, stat (\<lambda>s. s\<lparr>fs_nar_misses := add64 (fs_nar_misses s) 1\<rparr>) c)"

text \<open>The sources of all rows, each peer once.\<close>

definition union_sources :: "(nat \<times> string) list \<Rightarrow> (nat \<times> string) list" where
  "union_sources xs = fold (\<lambda>x acc. if fst x \<in> fst ` set acc then acc else acc @ [x]) xs []"

definition nar_headers :: "nat \<Rightarrow> nat \<Rightarrow> nat \<Rightarrow> bool \<Rightarrow> reply" where
  "nar_headers start fin sz partial =
     \<lparr>rp_status = (if partial then 206 else 200),
      rp_headers = [(''content-type'', ''application/x-nix-nar''), (''accept-ranges'', ''bytes''), (''content-length'', show_nat (fin - start))] @
        (if partial then [(''content-range'', content_range start fin sz)] else []),
      rp_body = []\<rparr>"

definition start_job :: "found \<Rightarrow> (nat \<times> string) list \<Rightarrow> bool \<Rightarrow> nat \<Rightarrow> nat \<Rightarrow> bool \<Rightarrow> fetch_ctx \<Rightarrow> reply \<times> transfer_job option \<times> fetch_ctx" where
  "start_job best sources head start fin partial c =
     (nar_headers start fin (ri_nar_size (fd_info best)) partial,
      if head then None else Some \<lparr>tj_info = fd_info best, tj_sources = sources, tj_start = start, tj_end = fin\<rparr>, c)"

definition proxy_get_nar :: "'s store_ops \<Rightarrow> index_cfg \<Rightarrow> proxy_cfg \<Rightarrow> nat \<Rightarrow> health list \<Rightarrow> 's \<Rightarrow> string \<Rightarrow> bool \<Rightarrow> string option \<Rightarrow> fetch_ctx \<Rightarrow>
    reply \<times> transfer_job option \<times> fetch_ctx" where
  "proxy_get_nar ops I cfg now hs s file head rng c =
     (let c = stat (\<lambda>s. s\<lparr>fs_nar_requests := add64 (fs_nar_requests s) 1\<rparr>) c
      in case Option.bind (strip_suffix ''.nar'' file) (\<lambda>h. decode h 32) of
           None \<Rightarrow> nar_miss c
         | Some h \<Rightarrow>
             (case lookup_nar_hash ops I h s of
                Inl _ \<Rightarrow> nar_miss c
              | Inr rows \<Rightarrow>
                  (case max_by_key (\<lambda>r. length (fd_holders r)) rows of
                     None \<Rightarrow> nar_miss c
                   | Some best \<Rightarrow>
                       let sources = union_sources (concat (map (sources_of I cfg now hs) rows));
                           sz = ri_nar_size (fd_info best)
                       in if sources = [] then nar_miss c
                          else if refuses_while_roaming now sz c then nar_miss c
                          else case parse_range rng sz of
                              Unsatisfiable \<Rightarrow> (\<lparr>rp_status = 416, rp_headers = [(''content-range'', ''bytes */'' @ show_nat sz)], rp_body = []\<rparr>, None, c)
                            | Full \<Rightarrow> start_job best sources head 0 sz False c
                            | Partial a b \<Rightarrow> start_job best sources head a b True c)))"

section \<open>Facts\<close>

lemma max_by_key_in: "max_by_key f xs = Some x \<Longrightarrow> x \<in> set xs"
  and max_by_key_None: "max_by_key f xs = None \<longleftrightarrow> xs = []"
proof -
  let ?g = "\<lambda>x best. case best of None \<Rightarrow> Some x | Some b \<Rightarrow> if f x \<ge> f b then Some x else Some b"
  have "fold ?g xs acc = Some y \<Longrightarrow> y \<in> set xs \<or> acc = Some y" for acc y
    by (induction xs arbitrary: acc) (auto split: option.splits if_splits)
  then show "max_by_key f xs = Some x \<Longrightarrow> x \<in> set xs" by (force simp: max_by_key_def)
  have "fold ?g xs (Some a) \<noteq> None" for a xs by (induction xs arbitrary: a) auto
  then have "max_by_key f (x # xs) \<noteq> None" for x xs by (simp add: max_by_key_def)
  then show "max_by_key f xs = None \<longleftrightarrow> xs = []" by (cases xs) (simp_all add: max_by_key_def)
qed

definition live_holder :: "index_cfg \<Rightarrow> nat \<Rightarrow> health list \<Rightarrow> found \<Rightarrow> nat \<Rightarrow> bool" where
  "live_holder I now hs found i \<longleftrightarrow> (\<exists>h\<in>set (fd_holders found). h \<noteq> ix_self I \<and> idx_of I h = Some i) \<and> available now (hs ! i)"

lemma sources_set:
  "(i, u) \<in> set (sources_of I cfg now hs found) \<longleftrightarrow>
     u = ''nar/'' @ encode (ri_nar_hash (fd_info found)) @ ''.nar'' \<and> live_holder I now hs found i \<and>
     (\<forall>j. live_holder I now hs found j \<longrightarrow> px_tiers cfg ! i \<le> px_tiers cfg ! j)"
proof -
  define url where "url = ''nar/'' @ encode (ri_nar_hash (fd_info found)) @ ''.nar''"
  define ids where "ids = filter (\<lambda>i. available now (hs ! i)) (List.map_filter (idx_of I) (filter (\<lambda>h. h \<noteq> ix_self I) (fd_holders found)))"
  define T where "T = (\<lambda>i. px_tiers cfg ! i) ` set ids"
  have ids: "set ids = {i. live_holder I now hs found i}"
    by (force simp: ids_def live_holder_def map_filter_def)
  have s: "sources_of I cfg now hs found = (if ids = [] then [] else filter (\<lambda>x. px_tiers cfg ! fst x = Min T) (map (\<lambda>i. (i, url)) ids))"
    unfolding sources_of_def Let_def url_def [symmetric] ids_def [symmetric] T_def by (simp add: comp_def image_image)
  have fin: "finite T" by (simp add: T_def)
  have m: "px_tiers cfg ! i = Min T \<longleftrightarrow> (\<forall>j\<in>set ids. px_tiers cfg ! i \<le> px_tiers cfg ! j)" if "i \<in> set ids"
  proof -
    have i: "px_tiers cfg ! i \<in> T" using that by (simp add: T_def)
    show ?thesis
    proof
      assume "px_tiers cfg ! i = Min T"
      then show "\<forall>j\<in>set ids. px_tiers cfg ! i \<le> px_tiers cfg ! j" using fin by (simp add: T_def)
    next
      assume "\<forall>j\<in>set ids. px_tiers cfg ! i \<le> px_tiers cfg ! j"
      then show "px_tiers cfg ! i = Min T" using i fin by (intro Min_eqI [symmetric]) (auto simp: T_def)
    qed
  qed
  show ?thesis using m ids unfolding s url_def [symmetric] by (auto simp: image_iff)
qed

lemma sources_empty: "sources_of I cfg now hs found = [] \<longleftrightarrow> \<not> (\<exists>i. live_holder I now hs found i)"
proof
  assume e: "sources_of I cfg now hs found = []"
  show "\<not> (\<exists>i. live_holder I now hs found i)"
  proof
    assume "\<exists>i. live_holder I now hs found i"
    then obtain i where "live_holder I now hs found i" "\<forall>j. px_tiers cfg ! j < px_tiers cfg ! i \<longrightarrow> \<not> live_holder I now hs found j"
      using ex_has_least_nat [of "live_holder I now hs found" _ "\<lambda>i. px_tiers cfg ! i"] by (metis leD)
    then have "(i, ''nar/'' @ encode (ri_nar_hash (fd_info found)) @ ''.nar'') \<in> set (sources_of I cfg now hs found)"
      unfolding sources_set by (meson leI)
    then show False using e by simp
  qed
next
  assume "\<not> (\<exists>i. live_holder I now hs found i)"
  then show "sources_of I cfg now hs found = []" using sources_set by (metis list.set_intros(1) neq_Nil_conv surj_pair)
qed

lemma union_sources_set: "distinct (map fst (union_sources xs)) \<and> set (union_sources xs) \<subseteq> set xs \<and> fst ` set (union_sources xs) = fst ` set xs"
proof -
  have "distinct (map fst acc) \<Longrightarrow> distinct (map fst (fold (\<lambda>x acc. if fst x \<in> fst ` set acc then acc else acc @ [x]) xs acc)) \<and>
      set (fold (\<lambda>x acc. if fst x \<in> fst ` set acc then acc else acc @ [x]) xs acc) \<subseteq> set xs \<union> set acc \<and>
      fst ` set (fold (\<lambda>x acc. if fst x \<in> fst ` set acc then acc else acc @ [x]) xs acc) = fst ` set xs \<union> fst ` set acc" for acc
  proof (induction xs arbitrary: acc)
    case (Cons x xs)
    show ?case
    proof (cases "fst x \<in> fst ` set acc")
      case True
      then show ?thesis using Cons.IH [OF Cons.prems] by auto
    next
      case False
      then have "distinct (map fst (acc @ [x]))" using Cons.prems by simp
      from Cons.IH [OF this] show ?thesis using False by auto
    qed
  qed simp
  from this [of "[]"] show ?thesis by (simp add: union_sources_def)
qed

lemma union_sources_empty: "union_sources xs = [] \<longleftrightarrow> xs = []"
  using union_sources_set [of xs] by (metis image_is_empty set_empty)

section \<open>What the answers promise\<close>

lemma rocks_lookups: "so_lookup_hash_part (rocks_ops C) = rocks_lookup_hash_part C" "so_lookup_nar_hash (rocks_ops C) = rocks_lookup_nar_hash C"
  by (simp_all add: rocks_ops_def)

lemma stat_roaming [simp]: "fc_roaming_until (stat f c) = fc_roaming_until c" "fc_min_bw (stat f c) = fc_min_bw c" "fc_grace (stat f c) = fc_grace c"
  by (simp_all add: stat_def)

lemma narinfo_answered:
  assumes "proxy_get_narinfo ops I cfg now hs s file c = (rp, c')" and "rp_status rp = 200"
  shows "\<exists>hp rows row. length hp = 32 \<and> lookup_hash_part ops I hp s = Inr rows \<and> row \<in> set rows \<and> sources_of I cfg now hs row \<noteq> [] \<and>
    rp = text_reply ''text/x-nix-narinfo'' (bytes_of (rewrite_for_client (fd_info row))) \<and> fc_roaming_until c' = fc_roaming_until c"
proof -
  define c1 where "c1 = stat (\<lambda>s. s\<lparr>fs_narinfo_requests := add64 (fs_narinfo_requests s) 1\<rparr>) c"
  have miss: "narinfo_miss c1 \<noteq> (rp, c')" using assms(2) by (auto simp: narinfo_miss_def status_only_def)
  note A = assms(1) [unfolded proxy_get_narinfo_def Let_def c1_def [symmetric]]
  obtain hp where hp: "strip_suffix ''.narinfo'' file = Some hp" using A miss by (auto split: option.splits)
  have len: "length hp = 32" using A miss hp by (auto split: if_splits)
  obtain rows where rows: "lookup_hash_part ops I hp s = Inr rows" using A miss hp by (auto split: if_splits sum.splits)
  obtain row n where row: "max_by_key snd (filter (\<lambda>x. snd x > 0) (map (\<lambda>r. (r, length (sources_of I cfg now hs r))) rows)) = Some (row, n)"
    using A miss hp rows by (auto split: if_splits option.splits)
  have "\<not> refuses_while_roaming now (ri_nar_size (fd_info row)) c1" using A miss hp rows row by (auto split: if_splits)
  then have "rp = text_reply ''text/x-nix-narinfo'' (bytes_of (rewrite_for_client (fd_info row)))" "c' = c1"
    using A miss hp rows row by (auto split: if_splits)
  moreover have "row \<in> set rows" "sources_of I cfg now hs row \<noteq> []" using max_by_key_in [OF row] by auto
  ultimately show ?thesis using len rows by (auto simp: c1_def)
qed

lemma nar_answered:
  assumes h: "length h = 32" and rows: "lookup_nar_hash ops I h s = Inr rows" and r: "r \<in> set rows" "sources_of I cfg now hs r \<noteq> []"
    and roam: "fc_roaming_until c = None"
  shows "\<exists>best\<in>set rows. proxy_get_nar ops I cfg now hs s (encode h @ ''.nar'') False None c =
    start_job best (union_sources (concat (map (sources_of I cfg now hs) rows))) False 0 (ri_nar_size (fd_info best)) False
      (stat (\<lambda>s. s\<lparr>fs_nar_requests := add64 (fs_nar_requests s) 1\<rparr>) c)"
proof -
  have dec: "decode (encode h) 32 = Some h" using decode_encode [of h] h by simp
  obtain best where best: "max_by_key (\<lambda>r. length (fd_holders r)) rows = Some best" using r(1) max_by_key_None by (metis list.set_cases neq_Nil_conv not_None_eq)
  have "union_sources (concat (map (sources_of I cfg now hs) rows)) \<noteq> []" using r by (auto simp: union_sources_empty)
  then show ?thesis using max_by_key_in [OF best] roam
    by (auto simp: proxy_get_nar_def dec rows best Let_def refuses_while_roaming_def parse_range_def intro!: bexI [of _ best])
qed

lemma to_found_set: "r \<in> set (to_found I xs) \<longleftrightarrow> (\<exists>a hs. (a, hs) \<in> set xs \<and> feasible I a \<and> r = \<lparr>fd_info = att_to_remote a, fd_holders = hs\<rparr>)"
  by (force simp: to_found_def)

lemma feasible_hash: "feasible I a \<Longrightarrow> ri_nar_hash (att_to_remote a) = nar_hash a \<and> length (nar_hash a) = 32"
  by (auto simp: feasible_def well_formed_def att_to_remote_def split: if_splits)

lemma found_hash:
  assumes "wire_codec C" and "rocks_inv C s" and "length h = 32" and "lookup_nar_hash (rocks_ops C) I h s = Inr rows" and "r \<in> set rows"
  shows "ri_nar_hash (fd_info r) = h"
proof -
  obtain xs where "rocks_lookup_nar_hash C s h = Inr xs" "\<forall>a hs. (a, hs) \<in> set xs \<longrightarrow> nar_hash a = h"
    using wire_codec.rocks_lookup_nar_read [OF assms(1-3)] by blast
  then have "rows = to_found I xs" "\<And>a hs. (a, hs) \<in> set xs \<Longrightarrow> nar_hash a = h" using assms(4) by (auto simp: lookup_nar_hash_def rocks_lookups)
  then show ?thesis using assms(5) feasible_hash [of I] to_found_set [of r I xs] by force
qed

lemma found_again:
  assumes C: "wire_codec C" and s: "rocks_inv C s" and hp: "length hp = 32" and rows: "lookup_hash_part (rocks_ops C) I hp s = Inr rows" and r: "r \<in> set rows"
  shows "\<exists>rows'. lookup_nar_hash (rocks_ops C) I (ri_nar_hash (fd_info r)) s = Inr rows' \<and> r \<in> set rows' \<and> length (ri_nar_hash (fd_info r)) = 32"
proof -
  obtain xs where xs: "rocks_lookup_hash_part C s hp = Inr xs" "rows = to_found I xs"
    using rows by (auto simp: lookup_hash_part_def rocks_lookups bindr_def split: sum.splits)
  obtain a hs where a: "(a, hs) \<in> set xs" "feasible I a" "r = \<lparr>fd_info = att_to_remote a, fd_holders = hs\<rparr>"
    using r unfolding xs(2) to_found_set by blast
  note l = feasible_hash [OF a(2)]
  obtain ys where "rocks_lookup_nar_hash C s (nar_hash a) = Inr ys" "(a, hs) \<in> set ys"
    using wire_codec.path_row_found_by_nar [OF C s hp xs(1) a(1)] by blast
  then show ?thesis using a l by (auto simp: lookup_nar_hash_def rocks_lookups to_found_set)
qed


lemma job_started:
  assumes "length h = 32" and "proxy_get_nar ops I cfg now hs s (encode h @ ''.nar'') False rng c = (rp, Some job, c')"
  shows "\<exists>rows best. lookup_nar_hash ops I h s = Inr rows \<and> best \<in> set rows \<and> tj_info job = fd_info best \<and>
    map_of (rp_headers rp) ''content-length'' = Some (show_nat (tj_end job - tj_start job)) \<and>
    tj_start job \<le> tj_end job \<and> tj_end job \<le> ri_nar_size (tj_info job) \<and>
    (rp_status rp = 200 \<longrightarrow> tj_start job = 0 \<and> tj_end job = ri_nar_size (tj_info job)) \<and> tj_sources job \<noteq> []"
proof -
  have dec: "decode (encode h) 32 = Some h" using decode_encode [of h] assms(1) by simp
  define c1 where "c1 = stat (\<lambda>s. s\<lparr>fs_nar_requests := add64 (fs_nar_requests s) 1\<rparr>) c"
  have miss: "nar_miss c1 \<noteq> (rp, Some job, c')" by (simp add: nar_miss_def)
  have A: "(case lookup_nar_hash ops I h s of
                Inl _ \<Rightarrow> nar_miss c1
              | Inr rows \<Rightarrow>
                  (case max_by_key (\<lambda>r. length (fd_holders r)) rows of
                     None \<Rightarrow> nar_miss c1
                   | Some best \<Rightarrow>
                       let sources = union_sources (concat (map (sources_of I cfg now hs) rows));
                           sz = ri_nar_size (fd_info best)
                       in if sources = [] then nar_miss c1
                          else if refuses_while_roaming now sz c1 then nar_miss c1
                          else case parse_range rng sz of
                              Unsatisfiable \<Rightarrow> (\<lparr>rp_status = 416, rp_headers = [(''content-range'', ''bytes */'' @ show_nat sz)], rp_body = []\<rparr>, None, c1)
                            | Full \<Rightarrow> start_job best sources False 0 sz False c1
                            | Partial a b \<Rightarrow> start_job best sources False a b True c1)) = (rp, Some job, c')"
    using assms(2) unfolding proxy_get_nar_def c1_def Let_def by (simp only: strip_suffix_append Option.bind.bind_lunit dec option.case)
  obtain rows where rows: "lookup_nar_hash ops I h s = Inr rows" using A miss by (auto split: sum.splits)
  obtain best where best: "max_by_key (\<lambda>r. length (fd_holders r)) rows = Some best" using A miss rows by (auto split: option.splits)
  define src where "src = union_sources (concat (map (sources_of I cfg now hs) rows))"
  define sz where "sz = ri_nar_size (fd_info best)"
  have ne: "src \<noteq> []" "\<not> refuses_while_roaming now sz c1" using A miss rows best by (auto simp: src_def sz_def Let_def split: if_splits)
  have B: "(case parse_range rng sz of
              Unsatisfiable \<Rightarrow> (\<lparr>rp_status = 416, rp_headers = [(''content-range'', ''bytes */'' @ show_nat sz)], rp_body = []\<rparr>, None, c1)
            | Full \<Rightarrow> start_job best src False 0 sz False c1
            | Partial a b \<Rightarrow> start_job best src False a b True c1) = (rp, Some job, c')"
    using A rows best ne by (simp add: src_def [symmetric] sz_def [symmetric] Let_def)
  have in_range: "a < b \<and> b \<le> sz" if "parse_range rng sz = Partial a b" for a b by (rule partial_inside [OF that])
  show ?thesis using B rows max_by_key_in [OF best] ne(1) in_range
    by (cases "parse_range rng sz") (auto simp: start_job_def nar_headers_def sz_def dest: less_imp_le)
qed


section \<open>A proxy to look at\<close>

definition px_att :: attestation where
  "px_att = \<lparr>store_path = ''/nix/store/'' @ replicate 32 (CHR ''x'') @ ''-demo'', nar_hash = replicate 32 7, nar_size = 3, refs = [], ca = ''text:sha256:1'', sigs = []\<rparr>"

definition px_index :: index_cfg where
  "px_index = \<lparr>ix_self = ''b'', ix_peers = [''a''], ix_trusted = [], ix_crypto = demo_crypto, ix_codec = plain_codec\<rparr>"

text \<open>The index of \<open>b\<close> once \<open>a\<close> announced the archive and its fact.\<close>

lemma px_store:
  "\<exists>s. rocks_inv plain_codec s \<and> rk_fact plain_codec s (path_key_of px_att) = Some px_att \<and> (\<forall>o'. replicate 32 7 \<in> rk_held s o' \<longleftrightarrow> o' = ''a'') \<and>
     (\<forall>pk a. rk_fact plain_codec s pk = Some a \<longrightarrow> a = px_att)"
proof -
  have e: "rocks_inv plain_codec rocks_empty" "rk_held rocks_empty = (\<lambda>_. {})" by (rule rocks_inv_empty, rule ext, simp add: rk_held_def held_view_def rocks_empty_def get_cf_def)
  have v: "rk_clock rocks_empty ''a'' = clock_default" "rk_fact plain_codec rocks_empty = Map.empty"
    by (auto simp: rk_clock_def clock_view_def rocks_empty_def get_cf_def rk_fact_def fact_view_def)
  obtain s1 where s1: "rocks_inv plain_codec s1" "rk_held s1 = (rk_held rocks_empty)(''a'' := set [replicate 32 7])" "rk_fact plain_codec s1 = Map.empty"
    using rocks.replace_done [OF e(1), of "''a''" 1 1 "[replicate 32 7]"] v by (auto simp: ok_name_def clock_default_def)
  obtain n s2 where s2: "rocks_inv plain_codec s2" "rk_fact plain_codec s2 = merge_facts plain_codec [px_att] Map.empty" "rk_held s2 = rk_held s1"
    using rocks.merge_done [OF s1(1), of "[px_att]"] s1(3) by auto
  have "merge_facts plain_codec [px_att] Map.empty (path_key_of px_att) = Some px_att"
    by (simp add: merge_facts_def incoming_def settle_def px_att_def merge_into_def canonicalize_def)
  then have "rk_fact plain_codec s2 (path_key_of px_att) = Some px_att" unfolding s2(2) .
  moreover have "replicate 32 7 \<in> rk_held s2 o' \<longleftrightarrow> o' = ''a''" for o' unfolding s2(3) s1(2) e(2) by simp
  moreover have "a = px_att" if "rk_fact plain_codec s2 pk = Some a" for pk a
  proof -
    have "canonicalize px_att = px_att" by (simp add: px_att_def canonicalize_def)
    then show ?thesis using that by (auto simp: s2(2) merge_facts_def incoming_def settle_def split: if_splits option.splits)
  qed
  ultimately show ?thesis using s2(1) by blast
qed

definition px_found :: found where
  "px_found = \<lparr>fd_info = att_to_remote px_att, fd_holders = [''a'']\<rparr>"

abbreviation "px_cfg \<equiv> \<lparr>px_priority = 30, px_tiers = [1]\<rparr>"

lemma px_hash_part: "hash_part_of (store_path px_att) = replicate 32 (CHR ''x'')"
proof -
  have "rev (store_path px_att) = (''omed-'' @ replicate 32 (CHR ''x'')) @ ''/'' @ ''erots/xin/''" by (simp add: px_att_def)
  then have "takeWhile (\<lambda>c. c \<noteq> CHR ''/'') (rev (store_path px_att)) = ''omed-'' @ replicate 32 (CHR ''x'')"
    by (simp add: takeWhile_append takeWhile_eq_all_conv [THEN iffD2])
  then have "rsplit_last (CHR ''/'') (store_path px_att) = replicate 32 (CHR ''x'') @ ''-demo''" by (simp add: rsplit_last_def)
  then show ?thesis by (simp add: hash_part_of_def get_prefix_def is_char_boundary_def nth_append)
qed

lemma px_key: "take 32 (path_key_of px_att) = bytes_of (replicate 32 (CHR ''x''))" "nar_hash px_att = replicate 32 7" "feasible px_index px_att"
proof -
  show n: "nar_hash px_att = replicate 32 7" by (simp add: px_att_def)
  show "take 32 (path_key_of px_att) = bytes_of (replicate 32 (CHR ''x''))" by (simp add: path_key_of_def px_hash_part bytes_of_def)
  have "ca px_att \<noteq> []" "strip_prefix ''/'' (store_path px_att) \<noteq> None" by (simp_all add: px_att_def strip_prefix_def)
  then show "feasible px_index px_att" by (simp add: feasible_def well_formed_def px_hash_part n)
qed

text \<open>Both lookups find the row; the one holder is the configured peer, which is live.\<close>

lemma px_lookups:
  assumes s: "rocks_inv plain_codec s" "rk_fact plain_codec s (path_key_of px_att) = Some px_att" "\<forall>o'. replicate 32 7 \<in> rk_held s o' \<longleftrightarrow> o' = ''a''"
  shows "\<exists>rows row. lookup_hash_part (rocks_ops plain_codec) px_index (replicate 32 (CHR ''x'')) s = Inr rows \<and> row \<in> set rows \<and> fd_info row = att_to_remote px_att \<and>
      sources_of px_index px_cfg 0 [health_default] row \<noteq> []"
proof -
  define hp where "hp = replicate 32 (CHR ''x'')"
  have hp: "length hp = 32" by (simp add: hp_def)
  obtain rows where rows: "rocks_lookup_hash_part plain_codec s hp = Inr rows"
    and snd: "\<forall>a hs. (a, hs) \<in> set rows \<longrightarrow> rk_fact plain_codec s (path_key_of a) = Some a \<and> take 32 (path_key_of a) = bytes_of hp \<and> hs \<noteq> [] \<and>
      set hs = {o'. nar_hash a \<in> rk_held s o'}"
    and cmp: "\<forall>a o'. rk_fact plain_codec s (path_key_of a) = Some a \<longrightarrow> take 32 (path_key_of a) = bytes_of hp \<longrightarrow> nar_hash a \<in> rk_held s o' \<longrightarrow> a \<in> fst ` set rows"
    using plain.rocks_lookup_read [OF s(1) hp] by blast
  have "nar_hash px_att \<in> rk_held s ''a''" unfolding px_key(2) using s(3) by blast
  then have "px_att \<in> fst ` set rows" using cmp s(2) px_key(1) unfolding hp_def by blast
  then obtain hs where hs: "(px_att, hs) \<in> set rows" by auto
  define row where "row = \<lparr>fd_info = att_to_remote px_att, fd_holders = hs\<rparr>"
  have "set hs = {o'. nar_hash px_att \<in> rk_held s o'}" using snd hs by blast
  then have "set hs = {''a''}" unfolding px_key(2) using s(3) by blast
  then have "live_holder px_index 0 [health_default] row 0"
    by (simp add: live_holder_def row_def px_index_def idx_of_def available_def health_default_def)
  then have "sources_of px_index px_cfg 0 [health_default] row \<noteq> []" using sources_empty by blast
  moreover have "row \<in> set (to_found px_index rows)" unfolding to_found_set row_def using hs px_key(3) by blast
  moreover have "lookup_hash_part (rocks_ops plain_codec) px_index hp s = Inr (to_found px_index rows)" using rows by (simp add: lookup_hash_part_def rocks_lookups)
  moreover have "fd_info row = att_to_remote px_att" by (simp add: row_def)
  ultimately show ?thesis unfolding hp_def by blast
qed

lemma narinfo_given:
  assumes "length hp = 32" and "list_all alphanumeric hp" and "lookup_hash_part ops I hp s = Inr rows" and "row \<in> set rows"
    and "sources_of I cfg now hs row \<noteq> []" and "fc_roaming_until c = None"
  shows "rp_status (fst (proxy_get_narinfo ops I cfg now hs s (hp @ ''.narinfo'') c)) = 200"
proof -
  let ?l = "filter (\<lambda>x. snd x > 0) (map (\<lambda>r. (r, length (sources_of I cfg now hs r))) rows)"
  have "(row, length (sources_of I cfg now hs row)) \<in> set ?l" using assms(4,5) by auto
  then have "?l \<noteq> []" by (metis empty_iff list.set(1))
  then obtain r n where "max_by_key snd ?l = Some (r, n)" using max_by_key_None [of snd ?l] by fastforce
  then show ?thesis using assms(1-3,6) by (simp add: proxy_get_narinfo_def Let_def refuses_while_roaming_def text_reply_def)
qed

lemma px_answer:
  "\<exists>s rp c'. rocks_inv plain_codec s \<and> rk_fact plain_codec s (path_key_of px_att) = Some px_att \<and> (\<forall>o'. replicate 32 7 \<in> rk_held s o' \<longleftrightarrow> o' = ''a'') \<and>
    proxy_get_narinfo (rocks_ops plain_codec) px_index px_cfg 0 [health_default] s (replicate 32 (CHR ''x'') @ ''.narinfo'') wit_ctx = (rp, c') \<and> rp_status rp = 200"
proof -
  obtain s where s: "rocks_inv plain_codec s" "rk_fact plain_codec s (path_key_of px_att) = Some px_att" "\<forall>o'. replicate 32 7 \<in> rk_held s o' \<longleftrightarrow> o' = ''a''"
    using px_store by (elim exE conjE)
  obtain rows row where row: "lookup_hash_part (rocks_ops plain_codec) px_index (replicate 32 (CHR ''x'')) s = Inr rows" "row \<in> set rows"
    "sources_of px_index px_cfg 0 [health_default] row \<noteq> []" using px_lookups [OF s] by (elim exE conjE)
  have "list_all alphanumeric (replicate 32 (CHR ''x''))" by (simp add: list_all_iff alphanumeric_def in_range_def)
  moreover have "fc_roaming_until wit_ctx = None" by (simp add: wit_ctx_def ctx_new_def Let_def)
  ultimately have a: "rp_status (fst (proxy_get_narinfo (rocks_ops plain_codec) px_index px_cfg 0 [health_default] s (replicate 32 (CHR ''x'') @ ''.narinfo'') wit_ctx)) = 200"
    using narinfo_given [OF _ _ row] by (simp only: length_replicate)
  obtain rp c' where r: "proxy_get_narinfo (rocks_ops plain_codec) px_index px_cfg 0 [health_default] s (replicate 32 (CHR ''x'') @ ''.narinfo'') wit_ctx = (rp, c')" by fastforce
  show ?thesis by (rule exI [of _ s], rule exI [of _ rp], rule exI [of _ c']) (use s a r in simp)
qed



end
