(* ===== verification/Io.thy ===== *)
theory Io
  imports Prelude "HOL-Library.Multiset"
begin

text \<open>
  Positioned reads of store files (\<open>src/io.rs\<close>): the aligned window, the synchronous direct and
  buffered reads, and the thread that owns the ring. A file does not change its content; what
  the kernel chooses, how many bytes a read returns or which error, is an input (this covers
  the ring's 32-bit read lengths: a read may return less than the window).
\<close>

definition ALIGN :: nat where "ALIGN = 4096"

section \<open>The aligned window\<close>

record window =
  wn_buf :: bytes
  wn_shift :: nat
  wn_astart :: nat
  wn_alen :: nat
  wn_need :: nat

text \<open>\<open>addr\<close> is where the allocator put the buffer.\<close>

definition window_new :: "nat \<Rightarrow> nat \<Rightarrow> nat \<Rightarrow> window" where
  "window_new addr off len =
     (let astart = off - off mod ALIGN;
          aend = (off + len + ALIGN - 1) div ALIGN * ALIGN;
          alen = aend - astart
      in \<lparr>wn_buf = replicate (alen + ALIGN) 0, wn_shift = (ALIGN - addr mod ALIGN) mod ALIGN, wn_astart = astart, wn_alen = alen,
          wn_need = (off - astart) + len\<rparr>)"

text \<open>A slice out of range panics: None.\<close>

definition window_finish :: "nat \<Rightarrow> nat \<Rightarrow> window \<Rightarrow> bytes option" where
  "window_finish off len w =
     (let data_start = wn_shift w + (off - wn_astart w)
      in if data_start + len \<le> length (wn_buf w) then Some (take len (drop data_start (wn_buf w))) else None)"

text \<open>The kernel writes what it read behind what is there.\<close>

definition window_fill :: "nat \<Rightarrow> bytes \<Rightarrow> window \<Rightarrow> window" where
  "window_fill filled d w =
     w\<lparr>wn_buf := take (wn_shift w + filled) (wn_buf w) @ d @ drop (wn_shift w + filled + length d) (wn_buf w)\<rparr>"

text \<open>A read of at most \<open>n\<close> bytes at a position of which the kernel returns at most \<open>k\<close>.\<close>

definition kernel_read :: "bytes \<Rightarrow> nat \<Rightarrow> nat \<Rightarrow> nat \<Rightarrow> bytes" where
  "kernel_read content pos n k = take (min n k) (drop pos content)"

section \<open>Synchronous reads\<close>

datatype io_err = Errno nat | Eof | Panic

definition EINVAL :: nat where "EINVAL = 22"
definition ENOTSUP :: nat where "ENOTSUP = 95"

definition o_direct_refused :: "io_err \<Rightarrow> bool" where
  "o_direct_refused e \<longleftrightarrow> e = Errno EINVAL \<or> e = Errno ENOTSUP"

text \<open>\<open>ks\<close>: the kernel's answers, an error or a count each; None: it has not answered yet.\<close>

fun direct_loop :: "bytes \<Rightarrow> (nat + nat) list \<Rightarrow> nat \<Rightarrow> window \<Rightarrow> (io_err + window) option" where
  "direct_loop content ks filled w =
     (if filled \<ge> wn_need w then Some (Inr w)
      else case ks of
          [] \<Rightarrow> None
        | Inl e # _ \<Rightarrow> Some (Inl (Errno e))
        | Inr k # ks \<Rightarrow>
            let d = kernel_read content (wn_astart w + filled) (wn_alen w - filled) k
            in if d = [] then Some (Inl Eof) else direct_loop content ks (filled + length d) (window_fill filled d w))"

declare direct_loop.simps [simp del]

definition read_direct :: "nat option \<Rightarrow> bytes \<Rightarrow> (nat + nat) list \<Rightarrow> nat \<Rightarrow> nat \<Rightarrow> nat \<Rightarrow> (io_err + bytes) option" where
  "read_direct open_err content ks addr off len =
     (case open_err of
        Some e \<Rightarrow> Some (Inl (Errno e))
      | None \<Rightarrow>
          (case direct_loop content ks 0 (window_new addr off len) of
             None \<Rightarrow> None
           | Some (Inl e) \<Rightarrow> Some (Inl e)
           | Some (Inr w) \<Rightarrow> Some (case window_finish off len w of Some b \<Rightarrow> Inr b | None \<Rightarrow> Inl Panic)))"

text \<open>\<open>read_exact_at\<close>: all of the range or an error; the error of the kernel or of the open, if any, comes first.\<close>

definition read_buffered :: "nat option \<Rightarrow> bytes \<Rightarrow> nat \<Rightarrow> nat \<Rightarrow> io_err + bytes" where
  "read_buffered err content off len =
     (case err of
        Some e \<Rightarrow> Inl (Errno e)
      | None \<Rightarrow> if off + len \<le> length content \<or> len = 0 then Inr (take len (drop off content)) else Inl Eof)"

definition read_segment :: "nat option \<Rightarrow> nat option \<Rightarrow> bytes \<Rightarrow> (nat + nat) list \<Rightarrow> nat \<Rightarrow> nat \<Rightarrow> nat \<Rightarrow> (io_err + bytes) option" where
  "read_segment open_err buffered_err content ks addr off len =
     (case read_direct open_err content ks addr off len of
        Some (Inl e) \<Rightarrow> Some (if o_direct_refused e then read_buffered buffered_err content off len else Inl e)
      | r \<Rightarrow> r)"

section \<open>The window holds the range\<close>

definition window_ok :: "bytes \<Rightarrow> nat \<Rightarrow> nat \<Rightarrow> nat \<Rightarrow> window \<Rightarrow> bool" where
  "window_ok content off len filled w \<longleftrightarrow>
     wn_astart w \<le> off \<and> wn_need w = (off - wn_astart w) + len \<and> wn_need w \<le> wn_alen w \<and>
     wn_shift w + wn_alen w \<le> length (wn_buf w) \<and> filled \<le> wn_alen w \<and>
     filled \<le> length content - wn_astart w \<and>
     take filled (drop (wn_shift w) (wn_buf w)) = take filled (drop (wn_astart w) content)"

lemma window_new_ok: "window_ok content off len 0 (window_new addr off len)"
proof -
  define a where "a = off - off mod ALIGN"
  define b where "b = (off + len + ALIGN - 1) div ALIGN * ALIGN"
  have p: "0 < ALIGN" by (simp add: ALIGN_def)
  have "off + len + ALIGN - 1 = (off + len + ALIGN - 1) div ALIGN * ALIGN + (off + len + ALIGN - 1) mod ALIGN" by simp
  moreover have "(off + len + ALIGN - 1) mod ALIGN < ALIGN" using p by simp
  ultimately have b: "off + len \<le> b" unfolding b_def by linarith
  have a: "a \<le> off" by (simp add: a_def)
  have "(ALIGN - addr mod ALIGN) mod ALIGN < ALIGN" using p by simp
  then show ?thesis using a b unfolding window_new_def Let_def a_def [symmetric] b_def [symmetric] by (simp add: window_ok_def) linarith
qed

lemma window_fill_ok:
  assumes "window_ok content off len filled w" and "d = kernel_read content (wn_astart w + filled) (wn_alen w - filled) k"
  shows "window_ok content off len (filled + length d) (window_fill filled d w)"
proof -
  let ?b = "take (wn_shift w + filled) (wn_buf w) @ d @ drop (wn_shift w + filled + length d) (wn_buf w)"
  have W: "wn_shift w + wn_alen w \<le> length (wn_buf w)" "filled \<le> wn_alen w" "filled \<le> length content - wn_astart w"
    "take filled (drop (wn_shift w) (wn_buf w)) = take filled (drop (wn_astart w) content)"
    using assms(1) by (simp_all add: window_ok_def)
  have t: "take m xs = take (length (take m xs)) xs" for m and xs :: bytes by (cases "m \<le> length xs") simp_all
  have d: "length d \<le> wn_alen w - filled" "length d \<le> length content - (wn_astart w + filled)"
    using assms(2) by (auto simp: kernel_read_def)
  have d3: "d = take (length d) (drop (wn_astart w + filled) content)" unfolding assms(2) kernel_read_def by (rule t)
  have len: "length ?b = length (wn_buf w)" using W d by simp
  have x: "drop (wn_shift w) (take (wn_shift w + filled) (wn_buf w)) = take filled (drop (wn_shift w) (wn_buf w))"
    by (simp add: drop_take)
  have "drop (wn_shift w) ?b = take filled (drop (wn_shift w) (wn_buf w)) @ d @ drop (wn_shift w + filled + length d) (wn_buf w)"
    using W by (simp add: x [symmetric])
  moreover have "length (take filled (drop (wn_shift w) (wn_buf w))) = filled" using W by simp
  ultimately have "take (filled + length d) (drop (wn_shift w) ?b) = take filled (drop (wn_shift w) (wn_buf w)) @ d"
    by simp
  also have "\<dots> = take filled (drop (wn_astart w) content) @ take (length d) (drop filled (drop (wn_astart w) content))"
    using W(4) d3 by (simp add: add.commute)
  also have "\<dots> = take (filled + length d) (drop (wn_astart w) content)" by (simp add: take_add)
  finally show ?thesis using assms(1) len W d by (simp add: window_ok_def window_fill_def) linarith
qed

lemma window_finish_ok:
  assumes "window_ok content off len filled w" and "wn_need w \<le> filled"
  shows "window_finish off len w = Some (take len (drop off content)) \<and> off + len \<le> length content \<or> len = 0 \<and> window_finish off len w = Some []"
proof -
  let ?k = "off - wn_astart w"
  have W: "wn_astart w \<le> off" "?k + len \<le> filled" "wn_shift w + wn_alen w \<le> length (wn_buf w)" "filled \<le> wn_alen w" "filled \<le> length content - wn_astart w"
    "take filled (drop (wn_shift w) (wn_buf w)) = take filled (drop (wn_astart w) content)"
    using assms by (simp_all add: window_ok_def)
  have "take len (drop ?k (take filled (drop (wn_shift w) (wn_buf w)))) = take len (drop ?k (drop (wn_shift w) (wn_buf w)))" for u :: nat
    using W(2) by (simp add: drop_take min_def)
  moreover have "take len (drop ?k (take filled (drop (wn_astart w) content))) = take len (drop ?k (drop (wn_astart w) content))"
    using W(2) by (simp add: drop_take min_def)
  ultimately have e: "take len (drop (wn_shift w + ?k) (wn_buf w)) = take len (drop off content)" using W(1,6) by (simp add: add.commute)
  have "wn_shift w + ?k + len \<le> length (wn_buf w)" using W by linarith
  moreover have "off + len \<le> length content \<or> len = 0" using W by linarith
  ultimately show ?thesis using e by (auto simp: window_finish_def Let_def)
qed

lemma direct_loop_ok:
  assumes "window_ok content off len filled w" and "direct_loop content ks filled w = Some (Inr w')"
  shows "\<exists>filled'. window_ok content off len filled' w' \<and> wn_need w' \<le> filled'"
  using assms
proof (induction content ks filled w rule: direct_loop.induct)
  case (1 content ks filled w)
  show ?case
  proof (cases "filled \<ge> wn_need w")
    case True
    then show ?thesis using "1.prems" by (auto simp: direct_loop.simps)
  next
    case False
    then obtain k ks' where ks: "ks = Inr k # ks'" using "1.prems"(2) by (subst (asm) direct_loop.simps) (auto split: list.splits sum.splits)
    define d where "d = kernel_read content (wn_astart w + filled) (wn_alen w - filled) k"
    have "d \<noteq> []" "direct_loop content ks' (filled + length d) (window_fill filled d w) = Some (Inr w')"
      using "1.prems"(2) False ks by (subst (asm) direct_loop.simps, auto simp: Let_def d_def split: if_splits)+
    then show ?thesis using "1.IH" [OF False ks refl d_def] window_fill_ok [OF "1.prems"(1) d_def] by blast
  qed
qed

text \<open>A read that succeeds, by whichever way, has exactly the range, which is inside the file; it never panics.\<close>

lemma read_segment_exact:
  assumes "read_segment open_err buffered_err content ks addr off len = Some r"
  shows "r \<noteq> Inl Panic \<and> (\<forall>b. r = Inr b \<longrightarrow> b = take len (drop off content) \<and> (off + len \<le> length content \<or> len = 0))"
proof -
  have D: "r \<noteq> Inl Panic \<and> (\<forall>b. r = Inr b \<longrightarrow> b = take len (drop off content) \<and> (off + len \<le> length content \<or> len = 0))"
    if r: "read_direct open_err content ks addr off len = Some r" for r
  proof (cases "\<exists>w. open_err = None \<and> direct_loop content ks 0 (window_new addr off len) = Some (Inr w)")
    case True
    then obtain w where w: "open_err = None" "direct_loop content ks 0 (window_new addr off len) = Some (Inr w)" by blast
    obtain f where "window_ok content off len f w" "wn_need w \<le> f" using direct_loop_ok [OF window_new_ok w(2)] by blast
    from window_finish_ok [OF this] show ?thesis using r w by (auto simp: read_direct_def)
  next
    case False
    have "\<exists>e. r = Inl e \<and> e \<noteq> Panic"
    proof -
      have "direct_loop content ks f w \<noteq> Some (Inl Panic)" for f w
        by (induction content ks f w rule: direct_loop.induct)
          (subst direct_loop.simps, auto simp: Let_def split: list.split sum.split)
      then show ?thesis using r False by (auto simp: read_direct_def split: option.splits sum.splits)
    qed
    then show ?thesis by auto
  qed
  show ?thesis
  proof (cases "read_direct open_err content ks addr off len")
    case None
    then show ?thesis using assms by (simp add: read_segment_def)
  next
    case (Some q)
    then show ?thesis using assms D [OF Some] by (auto simp: read_segment_def read_buffered_def split: sum.splits if_splits option.splits)
  qed
qed

section \<open>The ring\<close>

record io_req =
  rq_id :: nat
  rq_path :: string
  rq_off :: nat
  rq_len :: nat

record ring_op =
  ro_req :: io_req
  ro_window :: window
  ro_filled :: nat

text \<open>
  The state of the ring thread with what surrounds it: the channel and its sender, the reads the
  kernel has, the blocking tasks, the answers sent. The head of \<open>rg_free\<close> is popped first.
\<close>

record ring =
  rg_slab :: "ring_op option list"
  rg_free :: "nat list"
  rg_inflight :: nat
  rg_shutdown :: bool
  rg_closed :: bool
  rg_queue :: "io_req list"
  rg_sqes :: "nat list"
  rg_fallbacks :: "io_req list"
  rg_replies :: "(io_req \<times> (io_err + bytes)) list"

definition ring_new :: ring where
  "ring_new = \<lparr>rg_slab = [], rg_free = [], rg_inflight = 0, rg_shutdown = False, rg_closed = False, rg_queue = [], rg_sqes = [],
     rg_fallbacks = [], rg_replies = []\<rparr>"

definition ring_reply :: "io_req \<Rightarrow> io_err + bytes \<Rightarrow> ring \<Rightarrow> ring" where
  "ring_reply r x s = s\<lparr>rg_replies := (r, x) # rg_replies s\<rparr>"

definition ring_divert :: "io_req \<Rightarrow> ring \<Rightarrow> ring" where
  "ring_divert r s = s\<lparr>rg_fallbacks := r # rg_fallbacks s\<rparr>"

text \<open>Start a request: \<open>opened\<close> is the error of the open, \<open>addr\<close> the place of the buffer.\<close>

definition ring_start :: "nat option \<Rightarrow> nat \<Rightarrow> io_req \<Rightarrow> ring \<Rightarrow> ring" where
  "ring_start opened addr r s =
     (case opened of
        None \<Rightarrow>
          let op = \<lparr>ro_req = r, ro_window = window_new addr (rq_off r) (rq_len r), ro_filled = 0\<rparr>;
              (idx, free, slab) = (case rg_free s of i # free \<Rightarrow> (i, free, rg_slab s) | [] \<Rightarrow> (length (rg_slab s), [], rg_slab s @ [None]))
          in s\<lparr>rg_slab := slab[idx := Some op], rg_free := free, rg_inflight := rg_inflight s + 1, rg_sqes := idx # rg_sqes s\<rparr>
      | Some e \<Rightarrow> if o_direct_refused (Errno e) then ring_divert r s else ring_reply r (Inl (Errno e)) s)"

text \<open>The wake-up: all requests in the channel, then the end if no sender is left.\<close>

definition ring_wake :: "(io_req \<Rightarrow> nat option) \<Rightarrow> (io_req \<Rightarrow> nat) \<Rightarrow> ring \<Rightarrow> ring" where
  "ring_wake opened addr s =
     (let s' = fold (\<lambda>r. ring_start (opened r) (addr r) r) (rg_queue s) s
      in s'\<lparr>rg_queue := [], rg_shutdown := rg_closed s\<rparr>)"

text \<open>A completion: an error or the count the kernel chose. None: the slot is empty, a panic.\<close>

definition ring_complete :: "(string \<Rightarrow> bytes) \<Rightarrow> nat \<Rightarrow> nat + nat \<Rightarrow> ring \<Rightarrow> ring option" where
  "ring_complete files idx res s =
     (case rg_slab s ! idx of
        None \<Rightarrow> None
      | Some op \<Rightarrow>
          let r = ro_req op; w = ro_window op; f = ro_filled op;
              s = s\<lparr>rg_slab := (rg_slab s)[idx := None], rg_free := idx # rg_free s, rg_inflight := rg_inflight s - 1,
                    rg_sqes := remove1 idx (rg_sqes s)\<rparr>
          in Some (case res of
               Inl e \<Rightarrow> if o_direct_refused (Errno e) then ring_divert r s else ring_reply r (Inl (Errno e)) s
             | Inr k \<Rightarrow>
                 let d = kernel_read (files (rq_path r)) (wn_astart w + f) (wn_alen w - f) k;
                     w = window_fill f d w; f = f + length d
                 in if d = [] then ring_reply r (Inl Eof) s
                    else if f \<ge> wn_need w then ring_reply r (case window_finish (rq_off r) (rq_len r) w of Some b \<Rightarrow> Inr b | None \<Rightarrow> Inl Panic) s
                    else s\<lparr>rg_slab := (rg_slab s)[idx := Some (op\<lparr>ro_window := w, ro_filled := f\<rparr>)], rg_free := tl (rg_free s),
                           rg_inflight := rg_inflight s + 1, rg_sqes := idx # rg_sqes s\<rparr>))"

definition ring_fallback :: "(string \<Rightarrow> bytes) \<Rightarrow> nat option \<Rightarrow> io_req \<Rightarrow> ring \<Rightarrow> ring" where
  "ring_fallback files err r s =
     ring_reply r (read_buffered err (files (rq_path r)) (rq_off r) (rq_len r)) (s\<lparr>rg_fallbacks := remove1 r (rg_fallbacks s)\<rparr>)"

text \<open>The runs, with the requests that were handed to the pool.\<close>

inductive ring_reach :: "(string \<Rightarrow> bytes) \<Rightarrow> io_req list \<Rightarrow> ring \<Rightarrow> bool" for files where
  Begin: "ring_reach files [] ring_new"
| Send: "ring_reach files sent s \<Longrightarrow> \<not> rg_closed s \<Longrightarrow> ring_reach files (r # sent) (s\<lparr>rg_queue := rg_queue s @ [r]\<rparr>)"
| Close: "ring_reach files sent s \<Longrightarrow> ring_reach files sent (s\<lparr>rg_closed := True\<rparr>)"
| Wake: "ring_reach files sent s \<Longrightarrow> \<not> rg_shutdown s \<Longrightarrow> ring_reach files sent (ring_wake opened addr s)"
| Complete: "ring_reach files sent s \<Longrightarrow> idx \<in> set (rg_sqes s) \<Longrightarrow> ring_complete files idx res s = Some s' \<Longrightarrow> ring_reach files sent s'"
| Fallback: "ring_reach files sent s \<Longrightarrow> r \<in> set (rg_fallbacks s) \<Longrightarrow> ring_reach files sent (ring_fallback files err r s)"

section \<open>No request is lost\<close>

definition op_reqs :: "ring_op option list \<Rightarrow> io_req multiset" where
  "op_reqs slab = sum_list (map (\<lambda>x. case x of None \<Rightarrow> {#} | Some op \<Rightarrow> {#ro_req op#}) slab)"

lemma op_reqs_update:
  "i < length slab \<Longrightarrow> op_reqs (slab[i := y]) + (case slab ! i of None \<Rightarrow> {#} | Some op \<Rightarrow> {#ro_req op#}) =
     op_reqs slab + (case y of None \<Rightarrow> {#} | Some op \<Rightarrow> {#ro_req op#})"
proof (induction slab arbitrary: i)
  case (Cons x slab)
  then show ?case by (cases i) (simp_all add: op_reqs_def add.assoc)
qed simp

lemma op_reqs_snoc: "op_reqs (slab @ [None]) = op_reqs slab"
  by (simp add: op_reqs_def)

lemma op_reqs_empty: "(\<And>i. i < length slab \<Longrightarrow> slab ! i = None) \<Longrightarrow> op_reqs slab = {#}"
proof (induction slab)
  case (Cons x slab)
  have "x = None" using Cons.prems [of 0] by simp
  moreover have "op_reqs slab = {#}" using Cons.IH Cons.prems [of "Suc _"] by simp
  ultimately show ?case by (simp add: op_reqs_def)
qed (simp add: op_reqs_def)

definition pending :: "ring \<Rightarrow> io_req multiset" where
  "pending s = mset (rg_queue s) + op_reqs (rg_slab s) + mset (rg_fallbacks s) + mset (map fst (rg_replies s))"

text \<open>Slots in use are those the kernel has a read of, the others are free, and an operation's window holds what was read.\<close>

definition ring_ok :: "(string \<Rightarrow> bytes) \<Rightarrow> ring \<Rightarrow> bool" where
  "ring_ok files s \<longleftrightarrow>
     distinct (rg_free s) \<and> distinct (rg_sqes s) \<and> rg_inflight s = length (rg_sqes s) \<and>
     set (rg_free s) = {i. i < length (rg_slab s) \<and> rg_slab s ! i = None} \<and> set (rg_sqes s) = {i. i < length (rg_slab s) \<and> rg_slab s ! i \<noteq> None} \<and>
     (\<forall>op. Some op \<in> set (rg_slab s) \<longrightarrow>
        window_ok (files (rq_path (ro_req op))) (rq_off (ro_req op)) (rq_len (ro_req op)) (ro_filled op) (ro_window op)) \<and>
     (\<forall>x\<in>set (rg_replies s). snd x \<noteq> Inl Panic \<and>
        (\<forall>b. snd x = Inr b \<longrightarrow> b = take (rq_len (fst x)) (drop (rq_off (fst x)) (files (rq_path (fst x)))) \<and>
           (rq_off (fst x) + rq_len (fst x) \<le> length (files (rq_path (fst x))) \<or> rq_len (fst x) = 0)))"

lemma ring_reply_ok:
  assumes "ring_ok files s" and "x \<noteq> Inl Panic" and "\<And>b. x = Inr b \<Longrightarrow> b = take (rq_len r) (drop (rq_off r) (files (rq_path r))) \<and>
      (rq_off r + rq_len r \<le> length (files (rq_path r)) \<or> rq_len r = 0)"
  shows "ring_ok files (ring_reply r x s)" and "pending (ring_reply r x s) = add_mset r (pending s)"
  using assms by (auto simp: ring_ok_def ring_reply_def pending_def)

lemma ring_divert_ok: "ring_ok files s \<Longrightarrow> ring_ok files (ring_divert r s)" "pending (ring_divert r s) = add_mset r (pending s)"
  by (simp_all add: ring_ok_def ring_divert_def pending_def)

text \<open>A slot that is taken, and one that is given back.\<close>

lemma take_slot_ok:
  assumes ok: "ring_ok files s" and i: "i \<notin> set free" "i < length slab" "slab ! i = None" "set free = {j. j < length slab \<and> j \<noteq> i \<and> slab ! j = None}" "distinct free"
    and sq: "set (rg_sqes s) = {j. j < length slab \<and> slab ! j \<noteq> None}" and ops: "set slab \<subseteq> insert None (set (rg_slab s))" "op_reqs slab = op_reqs (rg_slab s)"
    and w: "window_ok (files (rq_path (ro_req op))) (rq_off (ro_req op)) (rq_len (ro_req op)) (ro_filled op) (ro_window op)"
  shows "ring_ok files (s\<lparr>rg_slab := slab[i := Some op], rg_free := free, rg_inflight := rg_inflight s + 1, rg_sqes := i # rg_sqes s\<rparr>)"
    and "pending (s\<lparr>rg_slab := slab[i := Some op], rg_free := free, rg_inflight := rg_inflight s + 1, rg_sqes := i # rg_sqes s\<rparr>) = add_mset (ro_req op) (pending s)"
proof -
  let ?s = "s\<lparr>rg_slab := slab[i := Some op], rg_free := free, rg_inflight := rg_inflight s + 1, rg_sqes := i # rg_sqes s\<rparr>"
  have n: "slab[i := Some op] ! j = (if j = i then Some op else slab ! j)" if "j < length slab" for j using that by simp
  have f: "set free = {j. j < length slab \<and> slab[i := Some op] ! j = None}" using i(4) n by (auto split: if_splits)
  have q: "set (i # rg_sqes s) = {j. j < length slab \<and> slab[i := Some op] ! j \<noteq> None}" using sq i(2) n by (auto split: if_splits)
  have ni: "i \<notin> set (rg_sqes s)" using sq i(3) by simp
  have O: "window_ok (files (rq_path (ro_req o'))) (rq_off (ro_req o')) (rq_len (ro_req o')) (ro_filled o') (ro_window o')"
    if "Some o' \<in> set (slab[i := Some op])" for o'
  proof -
    have "Some o' = Some op \<or> Some o' \<in> set (rg_slab s)" using that ops(1) set_update_subset_insert [of slab i "Some op"] by blast
    then show ?thesis using w ok by (auto simp: ring_ok_def)
  qed
  show "ring_ok files ?s" using ok f q ni i(5) O by (simp add: ring_ok_def)
  show "pending ?s = add_mset (ro_req op) (pending s)"
    using op_reqs_update [OF i(2), of "Some op"] i(3) ops(2) by (simp add: pending_def)
qed

lemma ring_start_ok:
  assumes "ring_ok files s"
  shows "ring_ok files (ring_start opened addr r s) \<and> pending (ring_start opened addr r s) = add_mset r (pending s)"
proof (cases opened)
  case (Some e)
  then show ?thesis using ring_divert_ok(1) [OF assms] ring_divert_ok(2) ring_reply_ok [OF assms, of "Inl (Errno e)"] by (simp add: ring_start_def)
next
  case None
  define op where "op = \<lparr>ro_req = r, ro_window = window_new addr (rq_off r) (rq_len r), ro_filled = 0\<rparr>"
  have w: "window_ok (files (rq_path (ro_req op))) (rq_off (ro_req op)) (rq_len (ro_req op)) (ro_filled op) (ro_window op)"
    using window_new_ok by (simp add: op_def)
  have F: "set (rg_free s) = {i. i < length (rg_slab s) \<and> rg_slab s ! i = None}" "distinct (rg_free s)"
    "set (rg_sqes s) = {i. i < length (rg_slab s) \<and> rg_slab s ! i \<noteq> None}" using assms by (simp_all add: ring_ok_def)
  show ?thesis
  proof (cases "rg_free s")
    case Nil
    have all: "rg_slab s ! j \<noteq> None" if "j < length (rg_slab s)" for j using F(1) Nil that by auto
    let ?slab = "rg_slab s @ [None]" and ?i = "length (rg_slab s)"
    have e: "ring_start opened addr r s = s\<lparr>rg_slab := ?slab[?i := Some op], rg_free := [], rg_inflight := rg_inflight s + 1, rg_sqes := ?i # rg_sqes s\<rparr>"
      using None Nil by (simp add: ring_start_def op_def)
    have nth: "?slab ! j = (if j = ?i then None else rg_slab s ! j)" if "j < length ?slab" for j using that by (simp add: nth_append)
    have s: "set [] = {j. j < length ?slab \<and> j \<noteq> ?i \<and> ?slab ! j = None}" using all nth by auto
    have q: "set (rg_sqes s) = {j. j < length ?slab \<and> ?slab ! j \<noteq> None}" unfolding F(3) by (auto simp: nth_append)
    show ?thesis unfolding e
      using take_slot_ok [OF assms _ _ _ s _ q _ op_reqs_snoc w] by (simp add: op_def)
  next
    case (Cons i free)
    have e: "ring_start opened addr r s = s\<lparr>rg_slab := (rg_slab s)[i := Some op], rg_free := free, rg_inflight := rg_inflight s + 1, rg_sqes := i # rg_sqes s\<rparr>"
      using None Cons by (simp add: ring_start_def op_def)
    have i: "i < length (rg_slab s)" "rg_slab s ! i = None" "i \<notin> set free" "distinct free" using F(1,2) Cons by auto
    have s: "set free = {j. j < length (rg_slab s) \<and> j \<noteq> i \<and> rg_slab s ! j = None}" using F(1,2) Cons by auto
    show ?thesis unfolding e
      using take_slot_ok [OF assms i(3) i(1) i(2) s i(4) F(3) _ refl w] by (auto simp: op_def)
  qed
qed

lemma ring_wake_ok:
  assumes ok: "ring_ok files s"
  shows "ring_ok files (ring_wake opened addr s) \<and> pending (ring_wake opened addr s) = pending s"
proof -
  have q: "rg_queue (ring_start o1 a r s) = rg_queue s" for o1 a r s
    by (simp add: ring_start_def ring_divert_def ring_reply_def Let_def split: option.split list.split)
  have "ring_ok files s \<Longrightarrow> ring_ok files (fold (\<lambda>r. ring_start (opened r) (addr r) r) rs s) \<and>
      pending (fold (\<lambda>r. ring_start (opened r) (addr r) r) rs s) = mset rs + pending s \<and>
      rg_queue (fold (\<lambda>r. ring_start (opened r) (addr r) r) rs s) = rg_queue s" for rs s
    by (induction rs arbitrary: s) (simp_all add: ring_start_ok q)
  from this [OF ok, of "rg_queue s"] show ?thesis by (auto simp: ring_wake_def Let_def ring_ok_def pending_def ac_simps)
qed

lemma ring_complete_ok:
  assumes ok: "ring_ok files s" and i: "idx \<in> set (rg_sqes s)"
  shows "\<exists>s'. ring_complete files idx res s = Some s' \<and> ring_ok files s' \<and> pending s' = pending s"
proof -
  have S: "set (rg_free s) = {i. i < length (rg_slab s) \<and> rg_slab s ! i = None}" "distinct (rg_free s)" "distinct (rg_sqes s)"
    "set (rg_sqes s) = {i. i < length (rg_slab s) \<and> rg_slab s ! i \<noteq> None}" "rg_inflight s = length (rg_sqes s)"
    using ok by (simp_all add: ring_ok_def)
  obtain op where op: "rg_slab s ! idx = Some op" and lt: "idx < length (rg_slab s)" using i S(4) by auto
  define s1 where "s1 = s\<lparr>rg_slab := (rg_slab s)[idx := None], rg_free := idx # rg_free s, rg_inflight := rg_inflight s - 1, rg_sqes := remove1 idx (rg_sqes s)\<rparr>"
  have nth: "(rg_slab s)[idx := None] ! j = (if j = idx then None else rg_slab s ! j)" if "j < length (rg_slab s)" for j using that by simp
  have f1: "set (idx # rg_free s) = {j. j < length (rg_slab s) \<and> (rg_slab s)[idx := None] ! j = None}" using S(1) lt nth by (auto split: if_splits)
  have q1: "set (remove1 idx (rg_sqes s)) = {j. j < length (rg_slab s) \<and> (rg_slab s)[idx := None] ! j \<noteq> None}" using S(3,4) nth by (auto split: if_splits)
  have ops1: "Some o' \<in> set (rg_slab s)" if "Some o' \<in> set ((rg_slab s)[idx := None])" for o'
    using that set_update_subset_insert [of "rg_slab s" idx None] by blast
  have ok1: "ring_ok files s1"
    using ok f1 q1 S op i ops1 by (auto simp: ring_ok_def s1_def length_remove1)
  have p1: "pending s = add_mset (ro_req op) (pending s1)"
    using op_reqs_update [OF lt, of None] op by (simp add: pending_def s1_def)
  let ?r = "ro_req op" and ?w = "ro_window op" and ?f = "ro_filled op"
  have w: "window_ok (files (rq_path ?r)) (rq_off ?r) (rq_len ?r) ?f ?w"
    using ok op lt nth_mem [of idx "rg_slab s"] by (auto simp: ring_ok_def)
  have e: "ring_complete files idx res s = Some (case res of
               Inl e \<Rightarrow> if o_direct_refused (Errno e) then ring_divert ?r s1 else ring_reply ?r (Inl (Errno e)) s1
             | Inr k \<Rightarrow>
                 let d = kernel_read (files (rq_path ?r)) (wn_astart ?w + ?f) (wn_alen ?w - ?f) k;
                     w = window_fill ?f d ?w; f = ?f + length d
                 in if d = [] then ring_reply ?r (Inl Eof) s1
                    else if f \<ge> wn_need w then ring_reply ?r (case window_finish (rq_off ?r) (rq_len ?r) w of Some b \<Rightarrow> Inr b | None \<Rightarrow> Inl Panic) s1
                    else s1\<lparr>rg_slab := (rg_slab s1)[idx := Some (op\<lparr>ro_window := w, ro_filled := f\<rparr>)], rg_free := tl (rg_free s1),
                           rg_inflight := rg_inflight s1 + 1, rg_sqes := idx # rg_sqes s1\<rparr>)"
    unfolding ring_complete_def op s1_def Let_def by (simp only: option.case)
  show ?thesis
  proof (cases res)
    case (Inl err)
    then show ?thesis using e ring_divert_ok(1) [OF ok1] ring_divert_ok(2) ring_reply_ok [OF ok1, of "Inl (Errno err)"] p1 by simp
  next
    case (Inr k)
    define d where "d = kernel_read (files (rq_path ?r)) (wn_astart ?w + ?f) (wn_alen ?w - ?f) k"
    define w' where "w' = window_fill ?f d ?w"
    have w2: "window_ok (files (rq_path ?r)) (rq_off ?r) (rq_len ?r) (?f + length d) w'" unfolding w'_def by (rule window_fill_ok [OF w d_def])
    have e': "ring_complete files idx res s = Some (if d = [] then ring_reply ?r (Inl Eof) s1
                    else if ?f + length d \<ge> wn_need w' then ring_reply ?r (case window_finish (rq_off ?r) (rq_len ?r) w' of Some b \<Rightarrow> Inr b | None \<Rightarrow> Inl Panic) s1
                    else s1\<lparr>rg_slab := (rg_slab s1)[idx := Some (op\<lparr>ro_window := w', ro_filled := ?f + length d\<rparr>)], rg_free := tl (rg_free s1),
                           rg_inflight := rg_inflight s1 + 1, rg_sqes := idx # rg_sqes s1\<rparr>)"
      using e Inr by (simp add: Let_def d_def w'_def)
    consider "d = []" | "d \<noteq> []" "?f + length d \<ge> wn_need w'" | "d \<noteq> []" "\<not> ?f + length d \<ge> wn_need w'" by blast
    then show ?thesis
    proof cases
      case 1
      then show ?thesis using e' ring_reply_ok [OF ok1, of "Inl Eof"] p1 by simp
    next
      case 2
      define x where "x = (case window_finish (rq_off ?r) (rq_len ?r) w' of Some b \<Rightarrow> Inr b | None \<Rightarrow> Inl Panic)"
      have "x \<noteq> Inl Panic" "\<And>b. x = Inr b \<Longrightarrow> b = take (rq_len ?r) (drop (rq_off ?r) (files (rq_path ?r))) \<and>
          (rq_off ?r + rq_len ?r \<le> length (files (rq_path ?r)) \<or> rq_len ?r = 0)"
        using window_finish_ok [OF w2 2(2)] by (auto simp: x_def)
      from ring_reply_ok [OF ok1 this] show ?thesis using e' 2 p1 by (simp add: x_def)
    next
      case 3
      let ?op = "op\<lparr>ro_window := w', ro_filled := ?f + length d\<rparr>"
      have s1: "rg_slab s1 = (rg_slab s)[idx := None]" "rg_free s1 = idx # rg_free s" by (simp_all add: s1_def)
      have fr: "set (rg_free s) = {j. j < length (rg_slab s1) \<and> j \<noteq> idx \<and> rg_slab s1 ! j = None}" using S(1) nth op by (auto simp: s1 split: if_splits)
      have sq: "set (rg_sqes s1) = {j. j < length (rg_slab s1) \<and> rg_slab s1 ! j \<noteq> None}" using q1 by (simp add: s1_def)
      have ni: "idx \<notin> set (rg_free s)" "idx < length (rg_slab s1)" "rg_slab s1 ! idx = None" using S(1) op lt by (simp_all add: s1)
      have w3: "window_ok (files (rq_path (ro_req ?op))) (rq_off (ro_req ?op)) (rq_len (ro_req ?op)) (ro_filled ?op) (ro_window ?op)" using w2 by simp
      show ?thesis using e' 3 p1 take_slot_ok [OF ok1 ni fr S(2) sq _ refl w3] by (auto simp: s1(2))
    qed
  qed
qed

lemma ring_fallback_ok:
  assumes "ring_ok files s" and "r \<in> set (rg_fallbacks s)"
  shows "ring_ok files (ring_fallback files err r s) \<and> pending (ring_fallback files err r s) = pending s"
proof -
  have "ring_ok files (s\<lparr>rg_fallbacks := remove1 r (rg_fallbacks s)\<rparr>)" using assms(1) by (simp add: ring_ok_def)
  moreover have "add_mset r (pending (s\<lparr>rg_fallbacks := remove1 r (rg_fallbacks s)\<rparr>)) = pending s" using assms(2) by (simp add: pending_def)
  ultimately show ?thesis using ring_reply_ok [of files "s\<lparr>rg_fallbacks := remove1 r (rg_fallbacks s)\<rparr>" "read_buffered err (files (rq_path r)) (rq_off r) (rq_len r)" r]
    by (auto simp: ring_fallback_def read_buffered_def split: option.splits if_splits)
qed

lemma ring_start_flags: "rg_closed (ring_start o1 a r s) = rg_closed s" "rg_shutdown (ring_start o1 a r s) = rg_shutdown s"
  by (simp_all add: ring_start_def ring_divert_def ring_reply_def Let_def split: option.split list.split)

lemma ring_wake_flags: "rg_closed (ring_wake opened addr s) = rg_closed s \<and> rg_shutdown (ring_wake opened addr s) = rg_closed s \<and> rg_queue (ring_wake opened addr s) = []"
proof -
  have "rg_closed (fold (\<lambda>r. ring_start (opened r) (addr r) r) rs s) = rg_closed s" for rs s
    by (induction rs arbitrary: s) (simp_all add: ring_start_flags)
  then show ?thesis by (simp add: ring_wake_def Let_def)
qed

lemma ring_complete_flags:
  "ring_complete files idx res s = Some s' \<Longrightarrow> rg_closed s' = rg_closed s \<and> rg_shutdown s' = rg_shutdown s \<and> rg_queue s' = rg_queue s"
  by (auto simp: ring_complete_def Let_def ring_divert_def ring_reply_def split: option.splits sum.splits if_splits)

lemma ring_reach_ok: "ring_reach files sent s \<Longrightarrow> ring_ok files s \<and> pending s = mset sent \<and> (rg_shutdown s \<longrightarrow> rg_closed s \<and> rg_queue s = [])"
proof (induction rule: ring_reach.induct)
  case Begin
  show ?case by (simp add: ring_ok_def ring_new_def pending_def op_reqs_def)
next
  case (Send sent s r)
  then show ?case by (auto simp: ring_ok_def pending_def)
next
  case (Close sent s)
  then show ?case by (simp add: ring_ok_def pending_def)
next
  case (Wake sent s opened addr)
  then show ?case using ring_wake_ok [of files s opened addr] ring_wake_flags [of opened addr s] by simp
next
  case (Complete sent s idx res s')
  obtain s2 where "ring_complete files idx res s = Some s2 \<and> ring_ok files s2 \<and> pending s2 = pending s"
    using ring_complete_ok [of files s idx res] Complete by blast
  then show ?case using Complete ring_complete_flags [OF Complete.hyps(3)] by simp
next
  case (Fallback sent s r err)
  then show ?case using ring_fallback_ok [of files s r err] by (simp add: ring_fallback_def ring_reply_def)
qed

text \<open>
  C7: Reads of store files give the exact bytes or an error. On the ring, under every order of
  requests, wake-ups, completions, short reads, refusals of direct access and shutdown: no
  completion finds an empty slot; every request is at any time in exactly one of the channel,
  the ring, a blocking task and the answers; an answer that is no error is the requested range
  of the file; and when the thread may end, nothing is left in the channel or the ring. The
  synchronous read gives the same bytes.
\<close>

theorem every_read_is_answered_exactly:
  assumes "ring_reach files sent s"
  shows "(\<forall>idx\<in>set (rg_sqes s). ring_complete files idx res s \<noteq> None) \<and>
    mset sent = mset (rg_queue s) + op_reqs (rg_slab s) + mset (rg_fallbacks s) + mset (map fst (rg_replies s)) \<and>
    (\<forall>r x. (r, x) \<in> set (rg_replies s) \<longrightarrow> x \<noteq> Inl Panic \<and> (\<forall>b. x = Inr b \<longrightarrow> b = take (rq_len r) (drop (rq_off r) (files (rq_path r))) \<and> length b = rq_len r)) \<and>
    (rg_shutdown s \<and> rg_inflight s = 0 \<longrightarrow> rg_queue s = [] \<and> op_reqs (rg_slab s) = {#}) \<and>
    (\<forall>b. read_segment e1 e2 content ks addr off len = Some (Inr b) \<longrightarrow> b = take len (drop off content) \<and> length b = len)"
proof -
  have ok: "ring_ok files s" "pending s = mset sent" "rg_shutdown s \<longrightarrow> rg_closed s \<and> rg_queue s = []" using ring_reach_ok [OF assms] by simp_all
  have "ring_complete files idx res s \<noteq> None" if "idx \<in> set (rg_sqes s)" for idx using ring_complete_ok [OF ok(1) that, of res] by auto
  moreover have "x \<noteq> Inl Panic \<and> (\<forall>b. x = Inr b \<longrightarrow> b = take (rq_len r) (drop (rq_off r) (files (rq_path r))) \<and> length b = rq_len r)"
    if "(r, x) \<in> set (rg_replies s)" for r x
    using ok(1) that by (force simp: ring_ok_def)
  moreover have "op_reqs (rg_slab s) = {#}" if "rg_inflight s = 0"
  proof -
    have "length (rg_sqes s) = 0" using ok(1) that unfolding ring_ok_def by linarith
    then have "{i. i < length (rg_slab s) \<and> rg_slab s ! i \<noteq> None} = {}" using ok(1) unfolding ring_ok_def by (metis length_0_conv list.set(1))
    then show ?thesis by (intro op_reqs_empty) auto
  qed
  moreover have "b = take len (drop off content) \<and> length b = len" if "read_segment e1 e2 content ks addr off len = Some (Inr b)" for b
    using read_segment_exact [OF that] by auto
  ultimately show ?thesis using ok(2,3) by (auto simp: pending_def)
qed

definition wit_read :: io_req where
  "wit_read = \<lparr>rq_id = 1, rq_path = ''p'', rq_off = 1, rq_len = 3\<rparr>"

definition wit_op :: "window \<Rightarrow> nat \<Rightarrow> ring_op" where
  "wit_op w n = \<lparr>ro_req = wit_read, ro_window = w, ro_filled = n\<rparr>"

lemma wit_window: "wn_astart (window_new 0 (Suc 0) 3) = 0" "wn_alen (window_new 0 (Suc 0) 3) = 4096" "wn_need (window_new 0 (Suc 0) 3) = 4"
  by (simp_all add: window_new_def ALIGN_def)

lemma wit_window_fill: "wn_astart (window_fill f d w) = wn_astart w" "wn_alen (window_fill f d w) = wn_alen w" "wn_need (window_fill f d w) = wn_need w"
  by (simp_all add: window_fill_def)

text \<open>The ring after a short completion, and after the next one.\<close>

lemma wit_short:
  "ring_reach (\<lambda>_. [10, 11, 12, 13, 14]) [wit_read]
     (ring_new\<lparr>rg_slab := [Some (wit_op (window_fill 0 [10, 11] (window_new 0 1 3)) 2)], rg_inflight := 1, rg_sqes := [0]\<rparr>)"
proof -
  let ?f = "\<lambda>_::string. [10, 11, 12, 13, 14] :: bytes"
  have "ring_reach ?f [wit_read] (ring_new\<lparr>rg_queue := [wit_read]\<rparr>)" using Send [OF Begin, where r = wit_read and files = ?f] by (simp add: ring_new_def)
  from Wake [OF this, of "\<lambda>_. None" "\<lambda>_. 0"]
  have 1: "ring_reach ?f [wit_read] (ring_new\<lparr>rg_slab := [Some (wit_op (window_new 0 1 3) 0)], rg_inflight := 1, rg_sqes := [0]\<rparr>)"
    by (simp add: ring_wake_def ring_start_def ring_new_def wit_op_def wit_read_def)
  show ?thesis
    by (rule Complete [OF 1, of 0 "Inr 2"])
      (simp_all add: ring_complete_def ring_new_def wit_op_def wit_window wit_window_fill kernel_read_def Let_def)
qed

lemma wit_answered:
  "\<exists>s x. (\<forall>e. x = Inl e \<longrightarrow> e = Panic) \<and> ring_reach (\<lambda>_. [10, 11, 12, 13, 14]) [wit_read] s \<and> rg_replies s = [(wit_read, x)]"
proof -
  define w where "w = window_fill 2 [12, 13, 14] (window_fill 0 [10, 11] (window_new 0 1 3))"
  define x where "x = (case window_finish 1 3 w of Some b \<Rightarrow> Inr b | None \<Rightarrow> Inl Panic)"
  have "ring_reach (\<lambda>_. [10, 11, 12, 13, 14]) [wit_read] (ring_new\<lparr>rg_slab := [None], rg_free := [0], rg_replies := [(wit_read, x)]\<rparr>)"
    by (rule Complete [OF wit_short, of 0 "Inr 10"])
      (simp_all add: ring_complete_def ring_reply_def ring_new_def wit_op_def wit_read_def wit_window wit_window_fill kernel_read_def Let_def x_def w_def)
  moreover have "\<forall>e. x = Inl e \<longrightarrow> e = Panic" by (simp add: x_def split: option.split)
  moreover have "rg_replies (ring_new\<lparr>rg_slab := [None], rg_free := [0], rg_replies := [(wit_read, x)]\<rparr>) = [(wit_read, x)]" by simp
  ultimately show ?thesis by blast
qed

text \<open>A read that comes back short and is continued.\<close>

theorem every_read_is_answered_exactly_witness:
  "\<exists>s. ring_reach (\<lambda>_. [10, 11, 12, 13, 14]) [wit_read] s \<and> rg_replies s = [(wit_read, Inr [11, 12, 13])]"
proof -
  obtain s x where x: "\<forall>e. x = Inl e \<longrightarrow> e = Panic"
    and r: "ring_reach (\<lambda>_. [10, 11, 12, 13, 14]) [wit_read] s" "rg_replies s = [(wit_read, x)]"
    using wit_answered by blast
  from every_read_is_answered_exactly [OF r(1), of "Inr 0" None None "[]" "[]" 0 0 0] x r(2)
  have "x = Inr [11, 12, 13]" by (cases x) (simp_all add: wit_read_def)
  then show ?thesis using r by blast
qed

end
