(* ===== verification/Mem.thy ===== *)
theory Mem
  imports Complex_Main Strings Table_Cache
begin

text \<open>
  The memory governor (\<open>src/mem.rs\<close>): the signals it reads, the severity they add up to, and the
  controller that drives the budgets of the caches of this process. An \<open>f64\<close> is a real number;
  \<open>f64\<close>'s parser is the parameter \<open>f64\<close>, and \<open>read\<close> gives the content of a file, if it can be read.
\<close>

section \<open>Signals\<close>

definition psi_avg10 :: "(string \<Rightarrow> real option) \<Rightarrow> string \<Rightarrow> string \<Rightarrow> real option" where
  "psi_avg10 f64 t kind =
     (case find (\<lambda>l. take (length kind) l = kind) (lines t) of
        None \<Rightarrow> None
      | Some l \<Rightarrow>
          (case List.map_filter (strip_prefix ''avg10='') (split_whitespace l) of
             [] \<Rightarrow> None
           | v # _ \<Rightarrow> f64 v))"

definition cgroup_path :: "(string \<Rightarrow> string option) \<Rightarrow> string option" where
  "cgroup_path read =
     (case read ''/proc/self/cgroup'' of
        None \<Rightarrow> None
      | Some t \<Rightarrow> (case List.map_filter (strip_prefix ''0::'') (lines t) of [] \<Rightarrow> None | p # _ \<Rightarrow> Some p))"

definition cgroup_value :: "(string \<Rightarrow> string option) \<Rightarrow> string \<Rightarrow> string \<Rightarrow> nat option" where
  "cgroup_value read path f = Option.bind (read (''/sys/fs/cgroup'' @ path @ ''/'' @ f)) (\<lambda>t. parse_u64 (trim t))"

definition cgroup_limit :: "(string \<Rightarrow> string option) \<Rightarrow> nat option" where
  "cgroup_limit read =
     (case cgroup_path read of
        None \<Rightarrow> None
      | Some path \<Rightarrow>
          (case (cgroup_value read path ''memory.max'', cgroup_value read path ''memory.high'') of
             (Some a, Some b) \<Rightarrow> Some (min a b)
           | (Some a, None) \<Rightarrow> Some a
           | (None, b) \<Rightarrow> b))"

text \<open>\<open>trim_end_matches(" kB")\<close>: the suffix as often as it is there.\<close>

function trim_kb :: "string \<Rightarrow> string" where
  "trim_kb s = (if 3 \<le> length s \<and> drop (length s - 3) s = '' kB'' then trim_kb (take (length s - 3) s) else s)"
  by pat_completeness auto
termination by (relation "measure length") auto

declare trim_kb.simps [simp del]

definition meminfo_kib :: "string \<Rightarrow> string \<Rightarrow> nat option" where
  "meminfo_kib t key =
     (case List.map_filter (strip_prefix key) (lines t) of
        [] \<Rightarrow> None
      | l # _ \<Rightarrow> parse_u64 (trim_kb (trim l)))"

definition mem_total_bytes :: "(string \<Rightarrow> string option) \<Rightarrow> nat option" where
  "mem_total_bytes read = map_option (\<lambda>k. k * 1024 mod 2 ^ 64) (Option.bind (read ''/proc/meminfo'') (\<lambda>t. meminfo_kib t ''MemTotal:''))"

definition available_to_us :: "(string \<Rightarrow> string option) \<Rightarrow> nat" where
  "available_to_us read =
     min (case mem_total_bytes read of Some b \<Rightarrow> b | None \<Rightarrow> u64_max) (case cgroup_limit read of Some b \<Rightarrow> b | None \<Rightarrow> u64_max)"

section \<open>Severity\<close>

definition ramp :: "real \<Rightarrow> real \<Rightarrow> real \<Rightarrow> real" where
  "ramp v at_zero at_one = max 0 (min 1 ((v - at_zero) / (at_one - at_zero)))"

definition severity :: "real option \<Rightarrow> real option \<Rightarrow> real option \<Rightarrow> real option \<Rightarrow> real" where
  "severity own_psi sys_psi cg_fill avail_frac =
     (let p = 0;
          p = (case own_psi of Some v \<Rightarrow> max p (ramp v (1 / 2) 5) | None \<Rightarrow> p);
          p = (case sys_psi of Some v \<Rightarrow> max p (ramp v 2 20) | None \<Rightarrow> p);
          p = (case cg_fill of Some v \<Rightarrow> max p (ramp v (75 / 100) (95 / 100)) | None \<Rightarrow> p)
      in (case avail_frac of Some v \<Rightarrow> max p (ramp v (10 / 100) (5 / 100)) | None \<Rightarrow> p))"

definition pressure :: "(string \<Rightarrow> real option) \<Rightarrow> (string \<Rightarrow> string option) \<Rightarrow> real" where
  "pressure f64 read =
     (let cg = cgroup_path read;
          own_psi = Option.bind cg (\<lambda>p. Option.bind (read (''/sys/fs/cgroup'' @ p @ ''/memory.pressure'')) (\<lambda>t. psi_avg10 f64 t ''some''));
          sys_psi = Option.bind (read ''/proc/pressure/memory'') (\<lambda>t. psi_avg10 f64 t ''some'');
          cg_fill = (case (Option.bind cg (\<lambda>p. cgroup_value read p ''memory.current''), cgroup_limit read) of
                       (Some cur, Some most) \<Rightarrow> if most > 0 then Some (real cur / real most) else None
                     | _ \<Rightarrow> None);
          avail_frac = Option.bind (read ''/proc/meminfo'') (\<lambda>t.
                         case (meminfo_kib t ''MemTotal:'', meminfo_kib t ''MemAvailable:'') of
                           (Some whole, Some avail) \<Rightarrow> if whole > 0 then Some (real avail / real whole) else None
                         | _ \<Rightarrow> None)
      in severity own_psi sys_psi cg_fill avail_frac)"

section \<open>The controller\<close>

definition SHRINK_AT :: real where "SHRINK_AT = 1 / 2"
definition HOLD_AT :: real where "HOLD_AT = 2 / 10"
definition CLIMB_FLOOR :: nat where "CLIMB_FLOOR = 2 ^ 20"

definition next_budget :: "nat \<Rightarrow> nat \<Rightarrow> nat \<Rightarrow> real \<Rightarrow> nat" where
  "next_budget current cap low p =
     (let low = min low cap;
          next = (if p \<ge> SHRINK_AT then current div 2
                  else if p \<ge> HOLD_AT then current
                  else sat_add64 (sat_add64 current (current div 4)) CLIMB_FLOOR)
      in max low (min cap next))"

text \<open>
  What the governor may drive: the block cache of the index (its ceiling and its capacity), and
  the cache of seek tables with the entries it shares.
\<close>

datatype shrinkable = Block_Cache nat nat | Seek_Tables table_state

definition CACHE_FLOOR_SHARE :: nat where "CACHE_FLOOR_SHARE = 4"

fun sh_ceiling :: "shrinkable \<Rightarrow> nat" where
  "sh_ceiling (Block_Cache c _) = c"
| "sh_ceiling (Seek_Tables s) = nc_ceiling (ts_cache s)"

fun sh_floor :: "shrinkable \<Rightarrow> nat" where
  "sh_floor (Block_Cache c _) = c div CACHE_FLOOR_SHARE"
| "sh_floor (Seek_Tables s) = cache_floor (ts_cache s)"

fun sh_set_budget :: "nat \<Rightarrow> nat \<Rightarrow> shrinkable \<Rightarrow> shrinkable" where
  "sh_set_budget sz b (Block_Cache c _) = Block_Cache c b"
| "sh_set_budget sz b (Seek_Tables s) = Seek_Tables (s\<lparr>ts_cache := cache_set_budget sz (ts_heap s) b (ts_cache s)\<rparr>)"

text \<open>The caches of a process: the index's if it has one it can size, then the served tables'.\<close>

definition start_caches :: "nat \<Rightarrow> nat option \<Rightarrow> shrinkable list" where
  "start_caches block_ceiling available =
     (if block_ceiling > 0 then [Block_Cache block_ceiling block_ceiling] else []) @
     (case available of Some a \<Rightarrow> [Seek_Tables (table_start a)] | None \<Rightarrow> [])"

record governed =
  gd_caches :: "shrinkable list"
  gd_budgets :: "nat list"
  gd_squeezed :: bool

definition governed_start :: "shrinkable list \<Rightarrow> governed" where
  "governed_start cs = \<lparr>gd_caches = cs, gd_budgets = map sh_ceiling cs, gd_squeezed = False\<rparr>"

definition drive :: "nat \<Rightarrow> real \<Rightarrow> shrinkable \<times> nat \<Rightarrow> shrinkable \<times> nat" where
  "drive sz p cb =
     (case cb of (c, b) \<Rightarrow>
        let next = next_budget b (sh_ceiling c) (sh_floor c) p
        in if next \<noteq> b then (sh_set_budget sz next c, next) else (c, b))"

definition governor_tick :: "nat \<Rightarrow> real \<Rightarrow> governed \<Rightarrow> governed" where
  "governor_tick sz p s =
     (let cbs = map (drive sz p) (zip (gd_caches s) (gd_budgets s))
      in \<lparr>gd_caches = map fst cbs, gd_budgets = map snd cbs,
          gd_squeezed = (if p \<ge> SHRINK_AT \<and> \<not> gd_squeezed s then True
                         else if p < HOLD_AT \<and> gd_squeezed s then False else gd_squeezed s)\<rparr>)"

text \<open>
  The runs, with the pressures sampled so far: requests step the seek tables (they do not touch
  the budget), the governor ticks.
\<close>

inductive governed_reach :: "nat \<Rightarrow> (string \<Rightarrow> real option) \<Rightarrow> shrinkable list \<Rightarrow> real list \<Rightarrow> governed \<Rightarrow> bool" for sz f64 cs where
  Begin: "governed_reach sz f64 cs [] (governed_start cs)"
| Request: "governed_reach sz f64 cs ps s \<Longrightarrow> i < length (gd_caches s) \<Longrightarrow> gd_caches s ! i = Seek_Tables t \<Longrightarrow> table_step sz t t' \<Longrightarrow>
    nc_budget (ts_cache t') = nc_budget (ts_cache t) \<Longrightarrow> governed_reach sz f64 cs ps (s\<lparr>gd_caches := (gd_caches s)[i := Seek_Tables t']\<rparr>)"
| Tick: "governed_reach sz f64 cs ps s \<Longrightarrow> governed_reach sz f64 cs (ps @ [pressure f64 read]) (governor_tick sz (pressure f64 read) s)"

section \<open>The budgets\<close>

lemma ramp_bounds: "0 \<le> ramp v a b \<and> ramp v a b \<le> 1"
  by (simp add: ramp_def)

lemma severity_bounds: "0 \<le> severity a b c d \<and> severity a b c d \<le> 1"
  by (simp add: severity_def Let_def ramp_bounds max.coboundedI1 split: option.split)

lemma next_budget_bounds: "low \<le> cap \<Longrightarrow> low \<le> next_budget b cap low p \<and> next_budget b cap low p \<le> cap"
  by (simp add: next_budget_def Let_def)

text \<open>What a cache that the governor drives must promise.\<close>

locale shrinkable_cache =
  fixes ceiling_of floor_of budget_of :: "'c \<Rightarrow> nat" and set_to :: "nat \<Rightarrow> 'c \<Rightarrow> 'c"
  assumes ceiling_kept: "ceiling_of (set_to b c) = ceiling_of c"
    and floor_kept: "floor_of (set_to b c) = floor_of c"
    and budget_set: "budget_of (set_to b c) = b"
    and floor_low: "floor_of c \<le> ceiling_of c"
begin

definition tick :: "real \<Rightarrow> 'c \<times> nat \<Rightarrow> 'c \<times> nat" where
  "tick p cb =
     (case cb of (c, b) \<Rightarrow>
        let next = next_budget b (ceiling_of c) (floor_of c) p
        in if next \<noteq> b then (set_to next c, next) else (c, b))"

lemma tick_keeps:
  assumes "budget_of c = b" and "tick p (c, b) = (c', b')"
  shows "ceiling_of c' = ceiling_of c \<and> floor_of c' = floor_of c \<and> budget_of c' = b' \<and>
    b' = next_budget b (ceiling_of c) (floor_of c) p \<and> floor_of c \<le> b' \<and> b' \<le> ceiling_of c"
  using assms next_budget_bounds [OF floor_low [of c], of b p]
  by (auto simp: tick_def Let_def ceiling_kept floor_kept budget_set split: if_splits)

end

fun sh_budget :: "shrinkable \<Rightarrow> nat" where
  "sh_budget (Block_Cache _ b) = b"
| "sh_budget (Seek_Tables s) = nc_budget (ts_cache s)"

lemma evict_ceiling: "nc_ceiling (evict_to_budget sz heap c) = nc_ceiling c"
proof (induction sz heap c rule: evict_to_budget.induct)
  case (1 sz heap c)
  have f: "nc_ceiling (forget sz heap e x) = nc_ceiling x" for e x by (simp add: forget_def split: option.split)
  show ?case
  proof (cases "nc_bytes c > nc_budget c \<and> length (nc_lru c) > 1")
    case True
    then show ?thesis using "1.IH" [OF True] by (simp add: evict_step [OF True] f)
  next
    case False
    then show ?thesis by (simp add: evict_stop [OF False])
  qed
qed

interpretation sc: shrinkable_cache sh_ceiling sh_floor sh_budget "sh_set_budget sz"
proof
  fix b c
  show "sh_ceiling (sh_set_budget sz b c) = sh_ceiling c" "sh_budget (sh_set_budget sz b c) = b" "sh_floor (sh_set_budget sz b c) = sh_floor c"
    by (cases c; simp add: cache_set_budget_def cache_floor_def evict_ceiling evict_shape)+
  show "sh_floor c \<le> sh_ceiling c" by (cases c) (simp_all add: cache_floor_def)
qed

lemma drive_is_tick: "drive sz p = sc.tick sz p"
  by (rule ext) (simp add: drive_def sc.tick_def)

lemma table_step_ceiling: "table_step sz s s' \<Longrightarrow> nc_ceiling (ts_cache s') = nc_ceiling (ts_cache s)"
proof (induction rule: table_step.induct)
  case (Hit h s e s')
  then show ?case by (auto simp: entry_hit_def split: option.splits)
next
  case (Insert h info s e s')
  then show ?case by (auto simp: entry_insert_def entry_hit_def Let_def cache_insert_def forget_def split: option.splits prod.splits)
next
  case (Start h e t s s')
  then show ?case by (auto simp: build_start_def split: if_splits)
next
  case (Account e h t s)
  show ?case by (simp add: build_account_def cache_account_def evict_ceiling)
next
  case (SetTable e h t s)
  show ?case by (simp add: build_set_def)
next
  case (Budget s b)
  show ?case by (simp add: cache_set_budget_def evict_ceiling)
qed simp

text \<open>A budget that is set gives the memory back at once.\<close>

lemma set_budget_fits:
  assumes "table_reach sz (table_start a) t" and t': "t' = t\<lparr>ts_cache := cache_set_budget sz (ts_heap t) b (ts_cache t)\<rparr>"
  shows "table_bytes_held sz t' \<le> b \<or> length (nc_lru (ts_cache t')) \<le> 1"
proof -
  have k: "keeps_account sz (table_start a) t" by (rule table_reach_keeps [OF assms(1) table_start_ok(1)])
  then have ok: "tables_ok t" and le: "resident_bytes sz t \<le> nc_bytes (ts_cache t)"
    using table_start_ok(2) [of sz a] by (auto simp: keeps_account_def dest: spec [of _ 0])
  have "resident_bytes sz t' \<le> nc_bytes (ts_cache t')"
    using budget_keeps [OF ok, of sz b] le unfolding keeps_account_def t' by (metis add_0_right)
  then show ?thesis
    using evict_shape [of sz "ts_heap t" "(ts_cache t)\<lparr>nc_budget := b\<rparr>"] held_le_resident [of sz t'] by (auto simp: t' cache_set_budget_def)
qed

definition budgets_of :: "shrinkable \<Rightarrow> real list \<Rightarrow> nat" where
  "budgets_of c ps = foldl (\<lambda>b. next_budget b (sh_ceiling c) (sh_floor c)) (sh_ceiling c) ps"

text \<open>The state of a run: every cache has the budget that the samples so far give it.\<close>

definition governed_ok :: "shrinkable list \<Rightarrow> real list \<Rightarrow> governed \<Rightarrow> bool" where
  "governed_ok cs ps s \<longleftrightarrow>
     length (gd_caches s) = length cs \<and> length (gd_budgets s) = length cs \<and>
     (\<forall>i<length cs. sh_ceiling (gd_caches s ! i) = sh_ceiling (cs ! i) \<and> sh_floor (gd_caches s ! i) = sh_floor (cs ! i) \<and>
        sh_budget (gd_caches s ! i) = gd_budgets s ! i \<and> gd_budgets s ! i = budgets_of (cs ! i) ps)"

lemma governor_tick_nth:
  assumes "governed_ok cs ps s" and "i < length cs"
  shows "(gd_caches (governor_tick sz p s) ! i, gd_budgets (governor_tick sz p s) ! i) = drive sz p (gd_caches s ! i, gd_budgets s ! i)"
  using assms by (simp add: governed_ok_def governor_tick_def Let_def)

lemma tick_ok:
  assumes "governed_ok cs ps s"
  shows "governed_ok cs (ps @ [p]) (governor_tick sz p s)"
proof -
  let ?s = "governor_tick sz p s"
  have l: "length (gd_caches s) = length cs" "length (gd_budgets s) = length cs" using assms by (simp_all add: governed_ok_def)
  have "sh_ceiling (gd_caches ?s ! i) = sh_ceiling (cs ! i) \<and> sh_floor (gd_caches ?s ! i) = sh_floor (cs ! i) \<and>
      sh_budget (gd_caches ?s ! i) = gd_budgets ?s ! i \<and> gd_budgets ?s ! i = budgets_of (cs ! i) (ps @ [p])" if i: "i < length cs" for i
  proof -
    obtain c b where cb: "sc.tick sz p (gd_caches s ! i, gd_budgets s ! i) = (c, b)" by fastforce
    then have "gd_caches ?s ! i = c" "gd_budgets ?s ! i = b" using governor_tick_nth [OF assms i, of sz p] by (simp_all add: drive_is_tick)
    moreover have "sh_budget (gd_caches s ! i) = gd_budgets s ! i" "sh_ceiling (gd_caches s ! i) = sh_ceiling (cs ! i)"
      "sh_floor (gd_caches s ! i) = sh_floor (cs ! i)" "gd_budgets s ! i = budgets_of (cs ! i) ps"
      using assms i by (simp_all add: governed_ok_def)
    ultimately show ?thesis using sc.tick_keeps [OF _ cb] by (simp add: budgets_of_def)
  qed
  then show ?thesis using l by (simp add: governed_ok_def governor_tick_def Let_def)
qed

lemma governed_reach_ok:
  assumes "governed_reach sz f64 cs ps s" and "\<And>c. c \<in> set cs \<Longrightarrow> sh_budget c = sh_ceiling c"
  shows "governed_ok cs ps s"
  using assms(1)
proof (induction rule: governed_reach.induct)
  case Begin
  show ?case using assms(2) by (simp add: governed_ok_def governed_start_def budgets_of_def)
next
  case (Request ps s i t t')
  have "sh_ceiling (Seek_Tables t') = sh_ceiling (Seek_Tables t)" "sh_floor (Seek_Tables t') = sh_floor (Seek_Tables t)"
    "sh_budget (Seek_Tables t') = sh_budget (Seek_Tables t)"
    using Request.hyps table_step_ceiling by (simp_all add: cache_floor_def)
  then show ?case using Request by (auto simp: governed_ok_def nth_list_update)
next
  case (Tick ps s read)
  then show ?case by (simp add: tick_ok)
qed

text \<open>The seek tables of a run went through steps of the cache.\<close>

lemma drive_reach:
  assumes "drive sz p (Seek_Tables t, b) = (c, b')" and "table_reach sz s0 t"
  shows "\<exists>t'. c = Seek_Tables t' \<and> table_reach sz s0 t'"
  using assms table_reach.Step [OF assms(2) table_step.Budget]
  by (auto simp: drive_def Let_def split: if_splits)

lemma governed_tables:
  assumes "governed_reach sz f64 cs ps s" and "\<And>c. c \<in> set cs \<Longrightarrow> sh_budget c = sh_ceiling c"
    and "\<And>t. Seek_Tables t \<in> set cs \<Longrightarrow> t = table_start a"
    and "i < length cs" and "gd_caches s ! i = Seek_Tables t"
  shows "table_reach sz (table_start a) t"
  using assms(1,5)
proof (induction arbitrary: t rule: governed_reach.induct)
  case Begin
  then show ?case using assms(3,4) nth_mem [of i cs] table_reach.Begin by (force simp: governed_start_def)
next
  case (Request ps s j t1 t2)
  then show ?case by (cases "i = j") (auto simp: nth_list_update intro: table_reach.Step)
next
  case (Tick ps s read)
  let ?p = "pressure f64 read"
  have ok: "governed_ok cs ps s" using governed_reach_ok [OF Tick.hyps assms(2)] .
  have d: "drive sz ?p (gd_caches s ! i, gd_budgets s ! i) = (Seek_Tables t, gd_budgets (governor_tick sz ?p s) ! i)"
    using governor_tick_nth [OF ok assms(4), of sz ?p] Tick.prems by simp
  then obtain t0 where t0: "gd_caches s ! i = Seek_Tables t0"
    by (cases "gd_caches s ! i") (auto simp: drive_def Let_def split: if_splits)
  show ?case using drive_reach [OF d [unfolded t0] Tick.IH [OF t0]] by simp
qed

lemma budgets_bounds: "sh_floor c \<le> budgets_of c ps \<and> budgets_of c ps \<le> sh_ceiling c"
proof (cases ps rule: rev_cases)
  case Nil
  then show ?thesis using sc.floor_low [of c] by (simp add: budgets_of_def)
next
  case (snoc qs p)
  then show ?thesis using next_budget_bounds [OF sc.floor_low [of c]] by (simp add: budgets_of_def)
qed

lemma shrink_budget:
  assumes "\<And>p. p \<in> set rs \<Longrightarrow> SHRINK_AT \<le> p"
  shows "budgets_of c (qs @ rs) = max (sh_floor c) (budgets_of c qs div 2 ^ length rs)"
  using assms
proof (induction rs rule: rev_induct)
  case Nil
  then show ?case using budgets_bounds [of c qs] by simp
next
  case (snoc p rs)
  let ?b = "budgets_of c (qs @ rs)"
  have "budgets_of c (qs @ rs @ [p]) = max (sh_floor c) (min (sh_ceiling c) (?b div 2))"
    using snoc.prems [of p] sc.floor_low [of c] by (simp add: budgets_of_def next_budget_def Let_def min_def)
  moreover have "?b div 2 \<le> sh_ceiling c" using budgets_bounds [of c "qs @ rs"] by linarith
  moreover have "?b = max (sh_floor c) (budgets_of c qs div 2 ^ length rs)" using snoc by simp
  moreover have "x div 2 ^ length (rs @ [p]) = x div 2 ^ length rs div 2" for x :: nat by (simp only: length_append_singleton power_Suc2 div_mult2_eq)
  moreover have "max f (max f m div 2) = max f (m div 2)" for f m :: nat
  proof (cases "f \<le> m")
    case False
    then have "m div 2 \<le> f" "f div 2 \<le> f" by linarith+
    then show ?thesis using False by (simp add: max_def)
  qed (simp add: max_def)
  ultimately show ?case by (simp add: min_def)
qed

lemma climb_budget:
  assumes "\<And>p. p \<in> set rs \<Longrightarrow> p < HOLD_AT" and "sh_ceiling c < 2 ^ 64"
  shows "min (sh_ceiling c) (budgets_of c qs + length rs * CLIMB_FLOOR) \<le> budgets_of c (qs @ rs)"
  using assms(1)
proof (induction rs rule: rev_induct)
  case Nil
  then show ?case by simp
next
  case (snoc p rs)
  let ?b = "budgets_of c (qs @ rs)"
  have "budgets_of c (qs @ rs @ [p]) = max (sh_floor c) (min (sh_ceiling c) (sat_add64 (sat_add64 ?b (?b div 4)) CLIMB_FLOOR))"
    using snoc.prems [of p] sc.floor_low [of c] by (simp add: budgets_of_def next_budget_def Let_def min_def SHRINK_AT_def HOLD_AT_def)
  moreover have "min (sh_ceiling c) (?b + CLIMB_FLOOR) \<le> min (sh_ceiling c) (sat_add64 (sat_add64 ?b (?b div 4)) CLIMB_FLOOR)"
    using assms(2) by (simp add: sat_add64_def min_def)
  ultimately have "min (sh_ceiling c) (?b + CLIMB_FLOOR) \<le> budgets_of c (qs @ rs @ [p])" by (simp add: le_max_iff_disj)
  moreover have "min (sh_ceiling c) (budgets_of c qs + length rs * CLIMB_FLOOR) \<le> ?b" using snoc by simp
  ultimately show ?case by (simp add: algebra_simps min_def split: if_splits)
qed

text \<open>
  C29: However requests, ticks and memory readings interleave, the budget the governor keeps of
  a cache is the one the cache applies, between its floor and its ceiling. Under pressure it
  halves with every tick down to the floor, and after calm ticks enough to climb the ceiling
  by a mebibyte each it is back at the ceiling. A budget that is set gives the memory back at
  once: the tables that are held fit it, unless a single entry is left.
\<close>

theorem budgets_follow_the_pressure:
  assumes "governed_reach sz f64 (start_caches bc a) ps s" and "bc < 2 ^ 64" and "i < length (start_caches bc a)"
  defines "c \<equiv> start_caches bc a ! i"
  shows "length (gd_caches s) = length (start_caches bc a) \<and> sh_ceiling (gd_caches s ! i) = sh_ceiling c \<and>
    sh_budget (gd_caches s ! i) = gd_budgets s ! i \<and> sh_floor c \<le> gd_budgets s ! i \<and> gd_budgets s ! i \<le> sh_ceiling c \<and>
    (\<forall>qs rs. ps = qs @ rs \<longrightarrow> (\<forall>p\<in>set rs. SHRINK_AT \<le> p) \<longrightarrow> sh_ceiling c < 2 ^ length rs \<longrightarrow> gd_budgets s ! i = sh_floor c) \<and>
    (\<forall>qs rs. ps = qs @ rs \<longrightarrow> (\<forall>p\<in>set rs. p < HOLD_AT) \<longrightarrow> sh_ceiling c \<le> length rs * CLIMB_FLOOR \<longrightarrow> gd_budgets s ! i = sh_ceiling c) \<and>
    (\<forall>p t. gd_caches (governor_tick sz p s) ! i = Seek_Tables t \<longrightarrow> gd_budgets (governor_tick sz p s) ! i \<noteq> gd_budgets s ! i \<longrightarrow>
       table_bytes_held sz t \<le> gd_budgets (governor_tick sz p s) ! i \<or> length (nc_lru (ts_cache t)) \<le> 1)"
proof -
  let ?cs = "start_caches bc a"
  have b: "sh_budget x = sh_ceiling x" "sh_ceiling x < 2 ^ 64" if "x \<in> set ?cs" for x
    using that assms(2) by (auto simp: start_caches_def table_start_def cache_new_def table_budget_def TABLE_BUDGET_CAP_def split: if_splits option.splits)
  note ok = governed_reach_ok [OF assms(1) b(1)]
  have "c \<in> set ?cs" using assms(3) by (simp add: c_def)
  then have C: "sh_ceiling c < 2 ^ 64" by (rule b(2))
  have B: "gd_budgets s ! i = budgets_of c ps" using ok assms(3) by (simp add: governed_ok_def c_def)
  have "gd_budgets s ! i = sh_floor c" if "ps = qs @ rs" "\<forall>p\<in>set rs. SHRINK_AT \<le> p" "sh_ceiling c < 2 ^ length rs" for qs rs
  proof -
    have "budgets_of c qs < 2 ^ length rs" using budgets_bounds [of c qs] that(3) by linarith
    then show ?thesis using shrink_budget [of rs c qs] that B by simp
  qed
  moreover have "gd_budgets s ! i = sh_ceiling c" if "ps = qs @ rs" "\<forall>p\<in>set rs. p < HOLD_AT" "sh_ceiling c \<le> length rs * CLIMB_FLOOR" for qs rs
    using climb_budget [of rs c qs] that B C budgets_bounds [of c ps] by simp
  moreover have "table_bytes_held sz t \<le> gd_budgets (governor_tick sz p s) ! i \<or> length (nc_lru (ts_cache t)) \<le> 1"
    if t: "gd_caches (governor_tick sz p s) ! i = Seek_Tables t" and ch: "gd_budgets (governor_tick sz p s) ! i \<noteq> gd_budgets s ! i" for p t
  proof -
    have d: "drive sz p (gd_caches s ! i, gd_budgets s ! i) = (Seek_Tables t, gd_budgets (governor_tick sz p s) ! i)"
      using governor_tick_nth [OF ok assms(3), of sz p] t by simp
    then obtain t0 where t0: "gd_caches s ! i = Seek_Tables t0"
      and e: "t = t0\<lparr>ts_cache := cache_set_budget sz (ts_heap t0) (gd_budgets (governor_tick sz p s) ! i) (ts_cache t0)\<rparr>"
      using ch by (cases "gd_caches s ! i") (auto simp: drive_def Let_def split: if_splits)
    obtain av where "a = Some av \<or> a = None \<and> (\<forall>t. Seek_Tables t \<notin> set ?cs)"
      by (cases a) (auto simp: start_caches_def)
    then have "table_reach sz (table_start av) t0"
      using governed_tables [OF assms(1) b(1) _ assms(3) t0, of av] by (auto simp: start_caches_def split: if_splits)
    then show ?thesis using e by (rule set_budget_fits)
  qed
  ultimately show ?thesis using ok assms(3) B budgets_bounds [of c ps] by (simp add: governed_ok_def c_def)
qed

text \<open>The machine stalls for half of the time.\<close>

definition wit_proc :: "string \<Rightarrow> string option" where
  "wit_proc f = (if f = ''/proc/pressure/memory'' then Some ''some avg10=50 avg60=0'' else None)"

lemma wit_pressure: "pressure (\<lambda>v. if v = ''50'' then Some 50 else None) wit_proc = 1"
proof -
  have "psi_avg10 (\<lambda>v. if v = ''50'' then Some 50 else None) ''some avg10=50 avg60=0'' ''some'' = Some 50"
    by (simp add: psi_avg10_def lines_def strip_cr_def split_whitespace_def ws_len.simps(2) List.map_filter_def strip_prefix_def)
  then show ?thesis by (simp add: pressure_def wit_proc_def cgroup_path_def cgroup_limit_def severity_def ramp_def)
qed

theorem budgets_follow_the_pressure_witness:
  "\<exists>s. governed_reach 32 (\<lambda>v. if v = ''50'' then Some 50 else None) (start_caches 0 (Some 10240)) (replicate 11 1) s \<and> gd_budgets s ! 0 = 128"
proof -
  let ?f = "\<lambda>v. if v = ''50'' then Some 50 else None" and ?cs = "start_caches 0 (Some 10240)"
  have "\<exists>s. governed_reach 32 ?f ?cs (replicate n 1) s" for n
  proof (induction n)
    case 0
    show ?case using governed_reach.Begin by auto
  next
    case (Suc n)
    then obtain s where "governed_reach 32 ?f ?cs (replicate n 1) s" by blast
    from governed_reach.Tick [OF this, of wit_proc] show ?case
      unfolding wit_pressure replicate_append_same [symmetric] replicate_Suc by blast
  qed
  then obtain s where s: "governed_reach 32 ?f ?cs (replicate 11 1) s" by blast
  have c: "sh_ceiling (?cs ! 0) = 1024" "sh_floor (?cs ! 0) = 128"
    by (simp_all add: start_caches_def table_start_def cache_new_def table_budget_def TABLE_BUDGET_CAP_def cache_floor_def TABLE_BUDGET_FLOOR_SHARE_def)
  have "0 < length ?cs" by (simp add: start_caches_def)
  from budgets_follow_the_pressure [OF s _ this] have
    "\<forall>qs rs. replicate 11 1 = qs @ rs \<longrightarrow> (\<forall>p\<in>set rs. SHRINK_AT \<le> p) \<longrightarrow> sh_ceiling (?cs ! 0) < 2 ^ length rs \<longrightarrow> gd_budgets s ! 0 = sh_floor (?cs ! 0)"
    by simp
  from this [rule_format, of "[]" "replicate 11 1"] have "gd_budgets s ! 0 = 128" using c by (simp add: SHRINK_AT_def)
  then show ?thesis using s by blast
qed

end
