(* ===== verification/Config.thy ===== *)
theory Config
  imports Fetch_Ctx Transfer_Inv Manifest Peers
begin

text \<open>
  The configuration (\<open>src/config.rs\<close>): sizes, defaults, and the checks of \<open>validate\<close>, against what
  the transfers, the manifest builder and the breaker need. The TOML parser is the parameter
  \<open>toml\<close>: what it gives has an option where the file may leave a knob out; durations are
  nanoseconds; \<open>f64\<close> is the parser of floats.
\<close>

section \<open>Sizes\<close>

definition is_alpha :: "char \<Rightarrow> bool" where
  "is_alpha c \<longleftrightarrow> (let n = of_char c :: nat in 65 \<le> n \<and> n \<le> 90 \<or> 97 \<le> n \<and> n \<le> 122)"

definition size_unit :: "string \<Rightarrow> nat option" where
  "size_unit s =
     (if s = ''B'' then Some 1
      else if s = ''KiB'' then Some (2 ^ 10)
      else if s = ''MiB'' then Some (2 ^ 20)
      else if s = ''GiB'' then Some (2 ^ 30)
      else if s = ''TiB'' then Some (2 ^ 40)
      else None)"

definition parse_bytes :: "(string \<Rightarrow> real option) \<Rightarrow> string \<Rightarrow> nat option" where
  "parse_bytes f64 s =
     (let s = trim s
      in case parse_u64 s of
           Some n \<Rightarrow> Some n
         | None \<Rightarrow>
             let num = takeWhile (\<lambda>c. \<not> is_alpha c) s; suffix = dropWhile (\<lambda>c. \<not> is_alpha c) s
             in if suffix = [] then None
                else (case size_unit (trim suffix) of
                   None \<Rightarrow> None
                 | Some mult \<Rightarrow>
                     (case f64 (trim num) of
                        None \<Rightarrow> None
                      | Some v \<Rightarrow> if v < 0 then None else Some (to_u64 (v * real mult)))))"

datatype raw_size = RawInt nat | RawStr string

fun byte_size :: "(string \<Rightarrow> real option) \<Rightarrow> raw_size \<Rightarrow> nat option" where
  "byte_size f64 (RawInt n) = (if n \<le> u64_max then Some n else None)"
| "byte_size f64 (RawStr s) = parse_bytes f64 s"

section \<open>The knobs\<close>

datatype io_backend = AutoIo | Uring | Blocking

record serve_section =
  sv_listen :: string
  sv_prio :: nat
  sv_max_level :: int
  sv_segment_bytes :: nat
  sv_store_dir :: string
  sv_db_path :: string

record proxy_section =
  px_listen :: string
  px_prio :: nat
  px_settings :: proxy_settings
  px_narinfo_timeout :: nat
  px_breaker_failures :: nat
  px_breaker_cooldown :: nat

record peer_section =
  pr_name :: string
  pr_url :: string
  pr_tier :: nat
  pr_encoding :: string

record config =
  cf_name :: string
  cf_serve :: "serve_section option"
  cf_proxy :: "proxy_section option"
  cf_io :: "nat \<times> io_backend"
  cf_cache_dir :: string
  cf_postgres :: "string option"
  cf_reconcile_every :: nat
  cf_keys :: "string list option"
  cf_peers :: "peer_section list"

text \<open>What the file holds of each section.\<close>

record toml_serve =
  ts_listen :: string
  ts_priority :: "nat option"
  ts_max_level :: "int option"
  ts_segment_bytes :: "raw_size option"
  ts_store_dir :: "string option"
  ts_db_path :: "string option"

record toml_proxy =
  tp_listen :: string
  tp_priority :: "nat option"
  tp_chunk_max :: "raw_size option"
  tp_window :: "raw_size option"
  tp_dedup_budget :: "raw_size option"
  tp_connections :: "nat option"
  tp_narinfo_timeout :: "nat option"
  tp_stall :: "nat option"
  tp_min_bw :: "raw_size option"
  tp_grace :: "nat option"
  tp_breaker_failures :: "nat option"
  tp_breaker_cooldown :: "nat option"

record toml_peer =
  tq_name :: string
  tq_url :: string
  tq_tier :: "nat option"
  tq_encoding :: "string option"

record toml_config =
  tc_name :: string
  tc_serve :: "toml_serve option"
  tc_proxy :: "toml_proxy option"
  tc_io_concurrency :: "nat option"
  tc_io_backend :: "io_backend option"
  tc_cache_dir :: "string option"
  tc_postgres :: "string option"
  tc_reconcile_every :: "nat option"
  tc_keys :: "string list option"
  tc_peers :: "toml_peer list"

definition default :: "'a \<Rightarrow> 'a option \<Rightarrow> 'a" where
  "default d x = (case x of Some v \<Rightarrow> v | None \<Rightarrow> d)"

text \<open>A size that is given must parse.\<close>

definition size_knob :: "(string \<Rightarrow> real option) \<Rightarrow> nat \<Rightarrow> raw_size option \<Rightarrow> nat option" where
  "size_knob f64 d x = (case x of None \<Rightarrow> Some d | Some r \<Rightarrow> byte_size f64 r)"

definition seconds :: "nat \<Rightarrow> nat" where "seconds n = n * 10 ^ 9"

definition d_serve_priority :: nat where "d_serve_priority = 30"
definition d_proxy_priority :: nat where "d_proxy_priority = 30"
definition d_max_zstd_level :: int where "d_max_zstd_level = 19"
definition d_segment_bytes :: nat where "d_segment_bytes = 4 * 2 ^ 20"
definition d_store_dir :: string where "d_store_dir = ''/nix/store''"
definition d_db_path :: string where "d_db_path = ''/nix/var/nix/db/db.sqlite''"
definition d_io_concurrency :: nat where "d_io_concurrency = 64"
definition d_chunk_max :: nat where "d_chunk_max = 64 * 2 ^ 20"
definition d_window_bytes :: nat where "d_window_bytes = 256 * 2 ^ 20"
definition d_dedup_budget :: nat where "d_dedup_budget = 512 * 2 ^ 20"
definition d_per_peer_connections :: nat where "d_per_peer_connections = 8"
definition d_narinfo_timeout :: nat where "d_narinfo_timeout = seconds 5"
definition d_stall_timeout :: nat where "d_stall_timeout = seconds 60"
definition d_cache_dir :: string where "d_cache_dir = ''/var/cache/narshare''"
definition d_reconcile_every :: nat where "d_reconcile_every = seconds 3600"
definition d_zero_bytes :: nat where "d_zero_bytes = 0"
definition d_min_bandwidth_grace :: nat where "d_min_bandwidth_grace = seconds 60"
definition d_breaker_failures :: nat where "d_breaker_failures = 3"
definition d_breaker_cooldown :: nat where "d_breaker_cooldown = seconds 15"
definition d_tier :: nat where "d_tier = 1"
definition d_encoding :: string where "d_encoding = ''auto''"

lemmas knob_defaults = d_serve_priority_def d_proxy_priority_def d_max_zstd_level_def d_segment_bytes_def d_store_dir_def d_db_path_def d_io_concurrency_def d_chunk_max_def d_window_bytes_def d_dedup_budget_def d_per_peer_connections_def d_narinfo_timeout_def d_stall_timeout_def d_cache_dir_def d_reconcile_every_def d_zero_bytes_def d_min_bandwidth_grace_def d_breaker_failures_def d_breaker_cooldown_def d_tier_def d_encoding_def

definition serve_of :: "(string \<Rightarrow> real option) \<Rightarrow> toml_serve \<Rightarrow> serve_section option" where
  "serve_of f64 t =
     (case size_knob f64 d_segment_bytes (ts_segment_bytes t) of
        None \<Rightarrow> None
      | Some seg \<Rightarrow> Some \<lparr>sv_listen = ts_listen t, sv_prio = default d_serve_priority (ts_priority t), sv_max_level = default d_max_zstd_level (ts_max_level t),
          sv_segment_bytes = seg, sv_store_dir = default d_store_dir (ts_store_dir t),
          sv_db_path = default d_db_path (ts_db_path t)\<rparr>)"

definition proxy_of :: "(string \<Rightarrow> real option) \<Rightarrow> toml_proxy \<Rightarrow> proxy_section option" where
  "proxy_of f64 t =
     (case (size_knob f64 d_chunk_max (tp_chunk_max t), size_knob f64 d_window_bytes (tp_window t),
            size_knob f64 d_dedup_budget (tp_dedup_budget t), size_knob f64 d_zero_bytes (tp_min_bw t)) of
        (Some chunk_max, Some window_bytes, Some dedup_budget, Some min_bw) \<Rightarrow>
          Some \<lparr>px_listen = tp_listen t, px_prio = default d_proxy_priority (tp_priority t),
            px_settings = \<lparr>ps_connections = default d_per_peer_connections (tp_connections t), ps_chunk_max = chunk_max, ps_window = window_bytes,
              ps_stall = default d_stall_timeout (tp_stall t), ps_min_bw = min_bw, ps_grace = default d_min_bandwidth_grace (tp_grace t),
              ps_dedup_budget = dedup_budget\<rparr>,
            px_narinfo_timeout = default d_narinfo_timeout (tp_narinfo_timeout t),
            px_breaker_failures = default d_breaker_failures (tp_breaker_failures t), px_breaker_cooldown = default d_breaker_cooldown (tp_breaker_cooldown t)\<rparr>
      | _ \<Rightarrow> None)"

definition peer_from :: "toml_peer \<Rightarrow> peer_section" where
  "peer_from t = \<lparr>pr_name = tq_name t, pr_url = tq_url t, pr_tier = default d_tier (tq_tier t), pr_encoding = default d_encoding (tq_encoding t)\<rparr>"

text \<open>A section that is there must be in order.\<close>

definition section_of :: "('a \<Rightarrow> 'b option) \<Rightarrow> 'a option \<Rightarrow> 'b option option" where
  "section_of f x = (case x of None \<Rightarrow> Some None | Some t \<Rightarrow> map_option Some (f t))"

definition config_of :: "(string \<Rightarrow> real option) \<Rightarrow> toml_config \<Rightarrow> config option" where
  "config_of f64 t =
     (case (section_of (serve_of f64) (tc_serve t), section_of (proxy_of f64) (tc_proxy t)) of
        (Some sv, Some px) \<Rightarrow>
          Some \<lparr>cf_name = tc_name t, cf_serve = sv, cf_proxy = px,
            cf_io = (default d_io_concurrency (tc_io_concurrency t), default AutoIo (tc_io_backend t)),
            cf_cache_dir = default d_cache_dir (tc_cache_dir t), cf_postgres = tc_postgres t,
            cf_reconcile_every = default d_reconcile_every (tc_reconcile_every t), cf_keys = tc_keys t, cf_peers = map peer_from (tc_peers t)\<rparr>
      | _ \<Rightarrow> None)"

section \<open>Validation\<close>

datatype config_err =
    Unreadable string | Unparsable string | NoName | NoSection | NoPeers | SameNames | SmallSegments nat | NoBreaker
  | BadEncoding string string | HttpsUrl string | NotHttpUrl string

definition encoding_ok :: "string \<Rightarrow> bool" where
  "encoding_ok e \<longleftrightarrow>
     e = ''auto'' \<or> e = ''none'' \<or>
     (case strip_prefix ''zstd:'' e of
        None \<Rightarrow> False
      | Some l \<Rightarrow> (case parse_i32 l of None \<Rightarrow> False | Some n \<Rightarrow> 1 \<le> n \<and> n \<le> 22))"

definition validate_peer :: "peer_section \<Rightarrow> unit \<Rightarrow> config_err + unit" where
  "validate_peer p _ =
     (if \<not> encoding_ok (pr_encoding p) then Inl (BadEncoding (pr_name p) (pr_encoding p))
      else if strip_prefix ''http://'' (pr_url p) = None
      then (if strip_prefix ''https://'' (pr_url p) \<noteq> None then Inl (HttpsUrl (pr_name p)) else Inl (NotHttpUrl (pr_name p)))
      else Inr ())"

fun adjacent_equal :: "'a list \<Rightarrow> bool" where
  "adjacent_equal (x # y # zs) = (x = y \<or> adjacent_equal (y # zs))"
| "adjacent_equal _ = False"

definition validate :: "config \<Rightarrow> config_err + unit" where
  "validate cfg =
     (if cf_name cfg = [] then Inl NoName
      else if cf_serve cfg = None \<and> cf_proxy cfg = None then Inl NoSection
      else if cf_proxy cfg \<noteq> None \<and> cf_peers cfg = [] then Inl NoPeers
      else if adjacent_equal (sort (map pr_name (cf_peers cfg) @ [cf_name cfg])) then Inl SameNames
      else bindr (case cf_serve cfg of
                    Some s \<Rightarrow> if sv_segment_bytes s < 4096 then Inl (SmallSegments (sv_segment_bytes s)) else Inr ()
                  | None \<Rightarrow> Inr ()) (\<lambda>_.
           bindr (case cf_proxy cfg of
                    Some p \<Rightarrow> if px_breaker_failures p = 0 then Inl NoBreaker else Inr ()
                  | None \<Rightarrow> Inr ()) (\<lambda>_.
           for_each validate_peer (cf_peers cfg) ())))"

definition load :: "(string \<Rightarrow> real option) \<Rightarrow> (string \<Rightarrow> toml_config option) \<Rightarrow> (string \<Rightarrow> string option) \<Rightarrow> string \<Rightarrow> config_err + config" where
  "load f64 toml read p =
     bindr (ok_or (Unreadable p) (read p)) (\<lambda>t.
     bindr (ok_or (Unparsable p) (Option.bind (toml t) (config_of f64))) (\<lambda>cfg.
     bindr (validate cfg) (\<lambda>_. Inr cfg)))"

section \<open>What a configuration that loads guarantees\<close>

lemma adjacent_equal_sorted: "sorted xs \<Longrightarrow> adjacent_equal xs \<longleftrightarrow> \<not> distinct xs"
proof (induction xs rule: adjacent_equal.induct)
  case (1 x y zs)
  then show ?case by (auto simp: order_le_less)
qed simp_all

lemma validate_peers_ok:
  "for_each validate_peer ps () = Inr () \<longleftrightarrow>
    (\<forall>p\<in>set ps. encoding_ok (pr_encoding p) \<and> strip_prefix ''http://'' (pr_url p) \<noteq> None)"
  by (induction ps) (auto simp: validate_peer_def bindr_def)

text \<open>Sorting the names and comparing neighbours finds every repetition.\<close>

lemma validate_iff:
  "validate cfg = Inr () \<longleftrightarrow>
    cf_name cfg \<noteq> [] \<and> (cf_serve cfg \<noteq> None \<or> cf_proxy cfg \<noteq> None) \<and> (cf_proxy cfg \<noteq> None \<longrightarrow> cf_peers cfg \<noteq> []) \<and>
    distinct (cf_name cfg # map pr_name (cf_peers cfg)) \<and>
    (\<forall>s. cf_serve cfg = Some s \<longrightarrow> 4096 \<le> sv_segment_bytes s) \<and> (\<forall>p. cf_proxy cfg = Some p \<longrightarrow> 0 < px_breaker_failures p) \<and>
    (\<forall>p\<in>set (cf_peers cfg). encoding_ok (pr_encoding p) \<and> strip_prefix ''http://'' (pr_url p) \<noteq> None)"
proof -
  have a: "adjacent_equal (sort (map pr_name (cf_peers cfg) @ [cf_name cfg])) \<longleftrightarrow> \<not> distinct (cf_name cfg # map pr_name (cf_peers cfg))"
    by (subst adjacent_equal_sorted) (auto simp: distinct_sort)
  show ?thesis unfolding validate_def a
    by (auto simp: bindr_def validate_peers_ok split: option.split)
qed

lemma load_validates: "load f64 toml read p = Inr cfg \<Longrightarrow> validate cfg = Inr ()"
  by (auto simp: load_def bindr_eq_Inr)

lemma parse_bytes_bound: "parse_bytes f64 s = Some n \<Longrightarrow> n \<le> u64_max"
  by (auto dest!: parse_u64_bound simp: parse_bytes_def Let_def to_u64_def split: option.splits if_splits)

lemma size_knob_bound:
  assumes "size_knob f64 d x = Some n" and "d \<le> u64_max"
  shows "n \<le> u64_max"
proof (cases x)
  case (Some r)
  then show ?thesis using assms parse_bytes_bound by (cases r) (auto simp: size_knob_def split: if_splits)
qed (use assms in \<open>simp add: size_knob_def\<close>)

lemma proxy_chunk_bound: "proxy_of f64 t = Some px \<Longrightarrow> ps_chunk_max (px_settings px) \<le> u64_max"
  by (auto simp: proxy_of_def split: option.splits dest!: size_knob_bound simp: knob_defaults)

lemma section_of_Some: "section_of f x = Some (Some y) \<Longrightarrow> \<exists>t. x = Some t \<and> f t = Some y"
  by (auto simp: section_of_def split: option.splits)

lemma config_of_proxy: "config_of f64 t = Some cfg \<Longrightarrow> section_of (proxy_of f64) (tc_proxy t) = Some (cf_proxy cfg)"
  unfolding config_of_def by (simp split: prod.splits option.splits) auto

lemma load_chunk_bound:
  assumes "load f64 toml read p = Inr cfg" and "cf_proxy cfg = Some px"
  shows "ps_chunk_max (px_settings px) \<le> u64_max"
proof -
  obtain t where "config_of f64 t = Some cfg" using assms(1) by (auto simp: load_def bindr_eq_Inr ok_or_def bind_eq_Some_conv split: option.splits)
  from section_of_Some [OF config_of_proxy [OF this, unfolded assms(2)]] show ?thesis using proxy_chunk_bound by blast
qed

text \<open>With segments of at least one byte the manifest builder ends on every tree.\<close>

lemma tree_entries_err:
  "for_each (tree_entry p) xs acc = Inl e \<Longrightarrow> e = NonUtf8Name p \<or> (\<exists>x\<in>set xs. snd x = Inl e)"
  by (induction xs arbitrary: acc) (auto simp: tree_entry_def bindr_def split: if_splits sum.splits)

lemma build_tree_ends: "0 < sb \<Longrightarrow> build_tree B3 sb p n \<noteq> Inl Hangs"
proof (induction n arbitrary: p)
  case (Directory es)
  show ?case
  proof
    assume "build_tree B3 sb p (Directory es) = Inl Hangs"
    then have "for_each (tree_entry p) (sort_key fst (map (\<lambda>(name, c). (name, build_tree B3 sb (p @ [name]) c)) es)) [] = Inl Hangs"
      by (simp add: bindr_def split: sum.splits)
    from tree_entries_err [OF this] obtain name c where "(name, c) \<in> set es" "build_tree B3 sb (p @ [name]) c = Inl Hangs" by auto
    then show False using Directory by fastforce
  qed
qed (simp_all add: hash_segments_eq)

lemma pinned_level:
  assumes "encoding_ok e" and "e \<noteq> ''auto''" and "pinned i c = Some e"
  shows "if e = ''none'' then zstd_level i c = None else \<exists>l. zstd_level i c = Some l \<and> 1 \<le> l \<and> l \<le> 22"
  using assms by (auto simp: encoding_ok_def zstd_level_def Let_def split: option.splits)

text \<open>
  C30: A configuration that loads has what the rest of the daemon relies on: the names of this
  node and its peers are all different; with its segment size the manifest builder ends on
  every tree; the transfers it starts have a chunk size and a window in bounds; a peer whose
  encoding is not "auto" is asked for no compression or for a level between 1 and 22; every
  peer is reached by plain http.
\<close>

theorem loaded_configuration_is_usable:
  assumes "load f64 toml read p = Inr cfg"
  shows "distinct (cf_name cfg # map pr_name (cf_peers cfg)) \<and>
    (\<forall>sv. cf_serve cfg = Some sv \<longrightarrow> (\<forall>B3 q n. build_tree B3 (sv_segment_bytes sv) q n \<noteq> Inl Hangs)) \<and>
    (\<forall>px now pl. cf_proxy cfg = Some px \<longrightarrow>
       cf_peers cfg \<noteq> [] \<and> 0 < px_breaker_failures px \<and> cfg_ok (ctx_new now (map pr_encoding (cf_peers cfg)) (px_settings px) pl)) \<and>
    (\<forall>i c. i < length (cf_peers cfg) \<longrightarrow> fc_encodings c = map pr_encoding (cf_peers cfg) \<longrightarrow>
       (let e = pr_encoding (cf_peers cfg ! i)
        in e \<noteq> ''auto'' \<longrightarrow> (if e = ''none'' then zstd_level i c = None else \<exists>l. zstd_level i c = Some l \<and> 1 \<le> l \<and> l \<le> 22))) \<and>
    (\<forall>q\<in>set (cf_peers cfg). \<exists>rest. strip_prefix ''http://'' (pr_url q) = Some rest)"
proof -
  note v = load_validates [OF assms, unfolded validate_iff]
  have "build_tree B3 (sv_segment_bytes sv) q n \<noteq> Inl Hangs" if "cf_serve cfg = Some sv" for sv B3 q n
    by (rule build_tree_ends) (use v that in fastforce)
  moreover have "cfg_ok (ctx_new now (map pr_encoding (cf_peers cfg)) (px_settings px) pl)" if "cf_proxy cfg = Some px" for px now pl
    using load_chunk_bound [OF assms that] by (simp add: cfg_ok_def ctx_new_def Let_def CHUNK_MIN_def)
  moreover have "if e = ''none'' then zstd_level i c = None else \<exists>l. zstd_level i c = Some l \<and> 1 \<le> l \<and> l \<le> 22"
    if i: "i < length (cf_peers cfg)" and c: "fc_encodings c = map pr_encoding (cf_peers cfg)" and e: "e = pr_encoding (cf_peers cfg ! i)" "e \<noteq> ''auto''" for i c e
  proof (rule pinned_level [OF _ e(2)])
    show "encoding_ok e" using v i e(1) nth_mem by blast
    show "pinned i c = Some e" using i c e(1) by (simp add: pinned_def)
  qed
  ultimately show ?thesis using v unfolding Let_def by blast
qed

definition wit_toml :: toml_config where
  "wit_toml = \<lparr>tc_name = ''me'',
     tc_serve = Some \<lparr>ts_listen = ''127.0.0.1:15050'', ts_priority = None, ts_max_level = None, ts_segment_bytes = Some (RawStr ''8192''),
       ts_store_dir = None, ts_db_path = None\<rparr>,
     tc_proxy = Some \<lparr>tp_listen = ''127.0.0.1:15051'', tp_priority = None, tp_chunk_max = Some (RawStr ''16 MiB''), tp_window = None,
       tp_dedup_budget = None, tp_connections = None, tp_narinfo_timeout = None, tp_stall = None, tp_min_bw = Some (RawInt 0),
       tp_grace = None, tp_breaker_failures = None, tp_breaker_cooldown = None\<rparr>,
     tc_io_concurrency = None, tc_io_backend = None, tc_cache_dir = None, tc_postgres = None, tc_reconcile_every = None, tc_keys = None,
     tc_peers = [\<lparr>tq_name = ''a'', tq_url = ''http://10.0.0.1:5050'', tq_tier = None, tq_encoding = Some ''zstd:9''\<rparr>]\<rparr>"

definition wit_f64 :: "string \<Rightarrow> real option" where
  "wit_f64 s = (if s = ''16'' then Some 16 else None)"

lemma wit_sizes: "parse_bytes wit_f64 ''8192'' = Some 8192" "parse_bytes wit_f64 ''16 MiB'' = Some 16777216"
  by (simp_all add: parse_bytes_def trim_def trim_start.simps ws_len.simps(2) parse_u64_def digit_val_def is_alpha_def Let_def size_unit_def wit_f64_def to_u64_def)

lemma wit_encoding: "encoding_ok ''zstd:9''"
  by (simp add: encoding_ok_def strip_prefix_def parse_i32_def digit_val_def)

definition wit_load :: "config_err + config" where
  "wit_load = load wit_f64 (\<lambda>t. if t = ''toml'' then Some wit_toml else None) (\<lambda>_. Some ''toml'') ''narshare.toml''"

lemma wit_loads: "\<exists>cfg. wit_load = Inr cfg \<and> cf_proxy cfg \<noteq> None \<and> map pr_encoding (cf_peers cfg) = [''zstd:9'']"
proof -
  obtain cfg where c: "config_of wit_f64 wit_toml = Some cfg" and e: "cf_name cfg = ''me''" "cf_proxy cfg \<noteq> None"
    "\<forall>s. cf_serve cfg = Some s \<longrightarrow> sv_segment_bytes s = 8192" "\<forall>px. cf_proxy cfg = Some px \<longrightarrow> px_breaker_failures px = 3"
    "cf_peers cfg = [\<lparr>pr_name = ''a'', pr_url = ''http://10.0.0.1:5050'', pr_tier = 1, pr_encoding = ''zstd:9''\<rparr>]"
    by (simp add: config_of_def section_of_def wit_toml_def serve_of_def proxy_of_def peer_from_def size_knob_def default_def knob_defaults wit_sizes)
  have "validate cfg = Inr ()" using e unfolding validate_iff by (auto simp: wit_encoding strip_prefix_def)
  then show ?thesis using c e(2,5) by (simp add: wit_load_def load_def ok_or_def bindr_def)
qed

theorem loaded_configuration_is_usable_witness:
  "\<exists>cfg px. wit_load = Inr cfg \<and> cf_proxy cfg = Some px \<and>
     (let c = ctx_new 0 (map pr_encoding (cf_peers cfg)) (px_settings px) (pool_new 1) in cfg_ok c \<and> zstd_level 0 c \<noteq> None)"
proof -
  obtain cfg px where l: "wit_load = Inr cfg" and px: "cf_proxy cfg = Some px" and e: "map pr_encoding (cf_peers cfg) = [''zstd:9'']"
    using wit_loads by auto
  let ?c = "ctx_new 0 (map pr_encoding (cf_peers cfg)) (px_settings px) (pool_new 1)"
  note u = loaded_configuration_is_usable [OF l [unfolded wit_load_def]]
  have n: "length (cf_peers cfg) = 1" using arg_cong [OF e, of length] by simp
  then have "pr_encoding (cf_peers cfg ! 0) = ''zstd:9''" using e by (cases "cf_peers cfg") simp_all
  moreover have "fc_encodings ?c = map pr_encoding (cf_peers cfg)" by (simp add: ctx_new_def Let_def)
  ultimately have "\<exists>l. zstd_level 0 ?c = Some l" using u n unfolding Let_def by fastforce
  moreover have "cfg_ok ?c" using u px by blast
  ultimately show ?thesis using l px unfolding Let_def by (intro exI conjI) auto
qed

end
