(* ===== verification/Spec2Isabelle.thy ===== *)
theory Spec2Isabelle
  imports Nixbase32 Narinfo Sig Facts Merkle Rocks_Store Index Replica Answers Net Catchup Sync Progress Mesh Rocks_Facts Pool Peers Engine Engine_Net Reconcile Loops Dedup Nar Manifest Governor Transfer_Plan Chunk_Buffer Emitter Fetch_Ctx Emitter_Facts Transfer_Loop Transfer_Inv Transfer_Run Delivery Table_Cache Http_Range Pieces Serve Rocks_Lookup Proxy Io Mem Config
begin

text \<open>
  \<^bold>\<open>The program.\<close> narshare is a daemon that shares the Nix store paths of a group of
  machines: each node exports what its Nix database holds, replicates the exports of the
  others through a gossiped index, and serves as a local binary cache that fetches archives
  (NARs) from the peers in chunks. The parts and their theories, in the order of the calls:

  \<^item> \<^bold>\<open>Formats.\<close> \<open>Prelude\<close> and \<open>Strings\<close>: the machine types and the library functions the
    sources use (a \<open>u64\<close> is a \<open>nat\<close>, wrapping written out with \<open>add64\<close>); \<open>Hex\<close>, \<open>Nixbase32\<close>
    (\<open>nixbase32.rs\<close>), \<open>Narinfo\<close> (\<open>narinfo.rs\<close>), \<open>Sig\<close> (\<open>sig.rs\<close>), \<open>Wire\<close> (the records of
    \<open>proto/mesh.proto\<close>). Lemmas: round trips of the codecs and of the narinfo text, what a
    fingerprint binds.
  \<^item> \<^bold>\<open>The store.\<close> \<open>Facts\<close> (merging attestations, \<open>store/mod.rs\<close>), \<open>Merkle\<close> (XOR aggregates),
    \<open>Kv\<close> (ordered column families), \<open>Rocks\<close> (every operation of \<open>store/rocks.rs\<close>). \<open>Store\<close> is
    the interface \<open>SyncStore\<close> as a record of operations, \<open>Store_Laws\<close> the locale of its
    contract, and \<open>Rocks_Laws\<close>, \<open>Rocks_Facts\<close>, \<open>Rocks_Store\<close> interpret it on the embedded store.
  \<^item> \<^bold>\<open>The mesh index.\<close> \<open>Index\<close> (\<open>index.rs\<close>): per-origin journals under a (generation, seq)
    clock, exporting, applying suffixes and snapshots, answering pulls, watermarks and
    compaction. \<open>Replica\<close>, \<open>Answers\<close> and \<open>Net\<close> give the abstract mesh: nodes and the answers
    in flight, stepping by export, remint, compaction, answering, applying, wiping; a
    history per origin and generation is the ghost specification of what a copy may hold.
  \<^item> \<^bold>\<open>Synchronisation.\<close> \<open>Sync\<close> (leases, pull rounds, handlers of \<open>sync.rs\<close>) as state
    passing with errors, \<open>Loops\<close> one pass of every background loop, \<open>Catchup\<close> the planner of the
    catch-up engine with its invariant under every schedule, \<open>Engine\<close> the event loop around
    it, \<open>Reconcile\<close> the fact walk. \<open>Sync_Net\<close>, \<open>Progress\<close>, \<open>Mesh\<close>, \<open>Engine_Net\<close> refine all of them
    to the abstract mesh and prove what a round achieves.
  \<^item> \<^bold>\<open>Peers.\<close> \<open>Pool\<close> (multiplicative weights of \<open>pool.rs\<close>, reals for floats) and \<open>Peers\<close> (the
    breaker and the exchanges of \<open>peers.rs\<close> as functions of the HTTP outcome).
  \<^item> \<^bold>\<open>Archives.\<close> \<open>Framing\<close> (the invariant of a layout of contiguous pieces, as a locale),
    \<open>Nar\<close> (the seek table of \<open>nar.rs\<close> against the format), \<open>Manifest\<close> (the segment manifest of
    \<open>manifest.rs\<close>), \<open>Dedup\<close> (the retention plan of \<open>dedup.rs\<close>).
  \<^item> \<^bold>\<open>Transfers\<close> (\<open>fetch.rs\<close>). \<open>Governor\<close> (\<open>governor.rs\<close> and the stream budget of a peer),
    \<open>Fetch_Ctx\<close> (what the transfers of a process share: rates, levels, budgets, hedging),
    \<open>Transfer_Plan\<close> (the ranges to fetch), \<open>Chunk_Buffer\<close> (the reorder buffer), \<open>Emitter\<close> (what
    the client gets, in order, hashed and held back at the end), \<open>Transfer_Loop\<close> (the event
    loop: workers, slots, hedged twins, requeues, the timer). \<open>Emitter_Facts\<close>, \<open>Transfer_Inv\<close> and
    \<open>Transfer_Run\<close> carry the invariant through every event, \<open>Delivery\<close> states what a client gets.
  \<^item> \<^bold>\<open>Serving\<close> (\<open>serve.rs\<close>). \<open>Table_Cache\<close> (the cache of seek tables and its byte account,
    under every interleaving of requests), \<open>Http_Range\<close> (range headers), \<open>Pieces\<close> (reading a
    range in pieces, the streaming and one-shot encoders), \<open>Serve\<close> (every handler, and the
    single-flighted manifest builds), closed with the client of \<open>Peers\<close> at the other end.
  \<^item> \<^bold>\<open>The proxy\<close> (\<open>proxy.rs\<close>). \<open>Rocks_Lookup\<close> (the two lookups find the rows of a path),
    \<open>Proxy\<close> (choice of sources, narinfo and archive requests, the transfer they start).
  \<^item> \<^bold>\<open>The machine.\<close> \<open>Io\<close> (\<open>io.rs\<close>: the aligned window, the direct and buffered reads, the
    thread that owns the ring), \<open>Mem\<close> (\<open>mem.rs\<close>: the signals and the controller that drives
    the budgets of the caches, whose contract is a locale), \<open>Config\<close> (\<open>config.rs\<close>: defaults,
    validation, and what a configuration that loads gives the other parts).

  \<^bold>\<open>State.\<close> Records carry the fields of the structs; a store is a record of sorted maps; tasks
  that run concurrently are steps of one transition relation, so a theorem about reachable
  states holds for every interleaving. Fallible code returns a sum, and where a handler
  fails half way the state it leaves is part of the result.

  \<^bold>\<open>Bounds.\<close> Loops carry the bounds of the source: \<open>MAX_ROUNDS\<close> of a pull, \<open>ENGINE_WINDOW\<close> asks
  in flight (the fuel of \<open>fill_window\<close>), \<open>SUBTREE_PAGES_MAX\<close> pages (the measure of a subtree fetch),
  the number of buffered chunks (the fuel of \<open>drain_loop\<close>: each pass removes one). The loop of
  \<open>build_tree\<close> over a file, which does not end for segments of no bytes, is a partial function.

  \<^bold>\<open>Parameters.\<close> Code that is not in the repository is an argument: the protobuf codec, ed25519
  and base64, blake3, zstd, the TOML and float parsers, the results
  of the Nix database and of the kernel, the time, the random seed. What is
  assumed of them is a hypothesis of the theorem that needs it, with a witness.

  \<^bold>\<open>Not modelled.\<close> The PostgreSQL backend (\<open>store/postgres.rs\<close>) and the Nix database
  (\<open>db.rs\<close>) are SQL text run by a server or library that is not in the repository; task
  spawning, shutdown and inotify; opening a RocksDB directory; the set-up of the io_uring and
  the semaphores, which only delay; the routing tables, status pages and start-up; floating
  point, whose values are real numbers here.
\<close>

end
